(* ===== verification/Prelude.thy ===== *)
theory Prelude
  imports "HOL-Library.Word"
begin

text \<open>
  Shared vocabulary of the development: the machine types of the C code, the type of an
  operation that reads and updates a state and may fail, big-endian conversions, and the
  interface of a self-delimiting code together with its consequences.
  Everything here is about all components and about none in particular; each component
  theory imports it.
\<close>

unbundle bit_operations_syntax

section \<open>Machine types\<close>

type_synonym u8 = "8 word"
type_synonym u16 = "16 word"
type_synonym u32 = "32 word"
type_synonym u64 = "64 word"
type_synonym i64 = "64 word"

text \<open>\<open>size_t\<close> is modelled by natural numbers below \<open>SIZE_MOD\<close>; additions and
  multiplications whose wrap-around the code tests for are written with \<open>mod SIZE_MOD\<close>.\<close>

definition SIZE_MOD :: nat where
  "SIZE_MOD = 2 ^ 64"

definition INT_MAX :: nat where
  "INT_MAX = 2 ^ 31 - 1"

section \<open>Bits of words\<close>

lemma take_bit_64 [simp]: "64 \<le> n \<Longrightarrow> take_bit n (v :: u64) = v"
  by (rule bit_word_eqI) (auto simp: bit_simps)

lemma xor_zero_iff: "(a :: 'a::len word) XOR b = 0 \<longleftrightarrow> a = b"
  by (metis xor.assoc xor.left_neutral xor.right_neutral xor_self_eq)

lemma or_zero_iff: "(a :: 'a::len word) OR b = 0 \<longleftrightarrow> a = 0 \<and> b = 0"
  by (auto simp: bit_eq_iff bit_simps)

text \<open>The bits of the masks the code uses; the simplifier turns a bit of a word literal
  into a bit of the integer literal.\<close>

lemma bit_mask_literals:
  "bit (0x7f :: int) i \<longleftrightarrow> i < 7" "bit (0x3f :: int) i \<longleftrightarrow> i < 6" "bit (0x1f :: int) i \<longleftrightarrow> i < 5"
  "bit (0x0f :: int) i \<longleftrightarrow> i < 4" "bit (0x07 :: int) i \<longleftrightarrow> i < 3" "bit (0xff :: int) i \<longleftrightarrow> i < 8"
proof -
  have "(0x7f :: int) = mask 7" "(0x3f :: int) = mask 6" "(0x1f :: int) = mask 5"
    "(0x0f :: int) = mask 4" "(0x07 :: int) = mask 3" "(0xff :: int) = mask 8"
    by (simp_all add: mask_eq_exp_minus_1)
  then show "bit (0x7f :: int) i \<longleftrightarrow> i < 7" "bit (0x3f :: int) i \<longleftrightarrow> i < 6" "bit (0x1f :: int) i \<longleftrightarrow> i < 5"
    "bit (0x0f :: int) i \<longleftrightarrow> i < 4" "bit (0x07 :: int) i \<longleftrightarrow> i < 3" "bit (0xff :: int) i \<longleftrightarrow> i < 8"
    by (simp_all only: bit_mask_iff) auto
qed

lemma bit_top_literals:
  "bit (0x80 :: int) i \<longleftrightarrow> i = 7" "bit (0xc0 :: int) i \<longleftrightarrow> 6 \<le> i\<and> i < 8"
  "bit (0xe0 :: int) i \<longleftrightarrow> 5 \<le> i\<and> i < 8" "bit (0xf0 :: int) i \<longleftrightarrow> 4 \<le> i\<and> i < 8"
  "bit (0xf8 :: int) i \<longleftrightarrow> 3 \<le> i\<and> i < 8"
proof -
  have "(0x80 :: int) = push_bit 7 (mask 1)" "(0xc0 :: int) = push_bit 6 (mask 2)"
    "(0xe0 :: int) = push_bit 5 (mask 3)" "(0xf0 :: int) = push_bit 4 (mask 4)"
    "(0xf8 :: int) = push_bit 3 (mask 5)"
    by (simp_all add: mask_eq_exp_minus_1)
  then show "bit (0x80 :: int) i \<longleftrightarrow> i = 7" "bit (0xc0 :: int) i \<longleftrightarrow> 6 \<le> i\<and> i < 8"
    "bit (0xe0 :: int) i \<longleftrightarrow> 5 \<le> i\<and> i < 8" "bit (0xf0 :: int) i \<longleftrightarrow> 4 \<le> i\<and> i < 8"
    "bit (0xf8 :: int) i \<longleftrightarrow> 3 \<le> i\<and> i < 8"
    by (simp_all only: bit_push_bit_iff bit_mask_iff) auto
qed

lemma bit_tag_literals: "bit (0x1fffffff :: int) i \<longleftrightarrow> i < 29" "bit (0xe0000000 :: int) i \<longleftrightarrow> 29 \<le> i \<and> i < 32"
proof -
  have "(0x1fffffff :: int) = mask 29" "(0xe0000000 :: int) = push_bit 29 (mask 3)"
    by (simp_all add: mask_eq_exp_minus_1)
  then show "bit (0x1fffffff :: int) i \<longleftrightarrow> i < 29" "bit (0xe0000000 :: int) i \<longleftrightarrow> 29 \<le> i \<and> i < 32"
    by (simp_all only: bit_push_bit_iff bit_mask_iff) auto
qed

lemmas bit_literals = bit_tag_literals bit_mask_literals bit_top_literals

lemma small_bits: "unat (w :: 'a::len word) < 2 ^ n \<Longrightarrow> bit w i \<Longrightarrow> i < n"
  by (metis bit_take_bit_iff bit_unsigned_iff bit_imp_possible_bit possible_bit_nat take_bit_nat_eq_self)

lemma take_bit_small: "unat (w :: 'a::len word) < 2 ^ n \<Longrightarrow> take_bit n w = w"
  by (rule bit_word_eqI) (auto simp: bit_simps dest: small_bits)

lemma bits_small: "(\<And>i. bit w i \<Longrightarrow> i < n) \<Longrightarrow> unat (w :: 'a::len word) < 2 ^ n"
proof -
  assume "\<And>i. bit w i \<Longrightarrow> i < n"
  then have "take_bit n w = w" by (intro bit_word_eqI) (auto simp: bit_simps)
  then have "unat w = take_bit n (unat w)" by (metis unsigned_take_bit_eq)
  then show ?thesis by (metis take_bit_nat_less_exp)
qed

lemma and_high_bit: "(b :: u8) AND 0x80 = 0 \<longleftrightarrow> \<not> bit b 7"
  by (subst bit_eq_iff) (auto simp: bit_simps bit_literals dest: spec[where x = 7])

text \<open>Sextets of a word put back together.\<close>

lemma join_six: "push_bit 6 (drop_bit (k + 6) u) OR ucast (ucast (drop_bit k u) AND 0x3f :: u8) = drop_bit k (u :: u32)"
proof (rule bit_word_eqI)
  fix i assume "i < LENGTH(32)"
  show "bit (push_bit 6 (drop_bit (k + 6) u) OR ucast (ucast (drop_bit k u) AND 0x3f :: u8)) i = bit (drop_bit k u) i"
    using \<open>i < LENGTH(32)\<close> by (cases "i < 6") (auto simp: bit_simps bit_literals algebra_simps)
qed

section \<open>Operations on a state that may fail\<close>

text \<open>
  A C function \<open>int f(S *s, T *out)\<close> that returns one or zero, writes \<open>*out\<close> and updates
  \<open>*s\<close> is a function from the state to an optional output and the state afterwards. The
  state after a failure is part of the result, because callers can observe it.
\<close>

type_synonym ('s, 'a) op = "'s \<Rightarrow> 'a option \<times> 's"

definition ret :: "'a \<Rightarrow> ('s, 'a) op" where
  "ret x = (\<lambda>s. (Some x, s))"

definition fail :: "('s, 'a) op" where
  "fail = (\<lambda>s. (None, s))"

definition sbind :: "('s, 'a) op \<Rightarrow> ('a \<Rightarrow> ('s, 'b) op) \<Rightarrow> ('s, 'b) op" where
  "sbind p f = (\<lambda>s. case p s of (None, s') \<Rightarrow> (None, s') | (Some x, s') \<Rightarrow> f x s')"

definition guard :: "bool \<Rightarrow> ('s, unit) op" where
  "guard b = (\<lambda>s. (if b then Some () else None, s))"

definition get_state :: "('s, 's) op" where
  "get_state = (\<lambda>s. (Some s, s))"

definition modify :: "('s \<Rightarrow> 's) \<Rightarrow> ('s, unit) op" where
  "modify f = (\<lambda>s. (Some (), f s))"

lemma ret_apply [simp]: "ret x s = (Some x, s)"
  by (simp add: ret_def)

lemma fail_apply [simp]: "fail s = (None, s)"
  by (simp add: fail_def)

lemma guard_apply [simp]: "guard b s = (if b then Some () else None, s)"
  by (simp add: guard_def)

lemma get_state_apply [simp]: "get_state s = (Some s, s)"
  by (simp add: get_state_def)

lemma modify_apply [simp]: "modify f s = (Some (), f s)"
  by (simp add: modify_def)

lemma sbind_Some [simp]: "p s = (Some x, s') \<Longrightarrow> sbind p f s = f x s'"
  by (simp add: sbind_def)

lemma sbind_None [simp]: "p s = (None, s') \<Longrightarrow> sbind p f s = (None, s')"
  by (simp add: sbind_def)

lemma sbind_eq_Some:
  "sbind p f s = (Some y, s') \<longleftrightarrow> (\<exists>x s1. p s = (Some x, s1) \<and> f x s1 = (Some y, s'))"
  by (auto simp: sbind_def split: prod.splits option.splits)

lemma sbind_assoc: "sbind (sbind p f) g = sbind p (\<lambda>x. sbind (f x) g)"
  by (rule ext) (simp add: sbind_def split: prod.splits option.splits)

lemma sbind_cong [fundef_cong]:
  assumes "p s = p' s'" and "\<And>x t. p' s' = (Some x, t) \<Longrightarrow> f x t = f' x t"
  shows "sbind p f s = sbind p' f' s'"
  using assms by (auto simp: sbind_def split: prod.splits option.splits)

lemmas op_simps = ret_apply fail_apply guard_apply get_state_apply modify_apply

named_theorems op_inv \<open>inversion of operations that returned a value\<close>

declare sbind_eq_Some [op_inv]

lemma ret_eq_Some [op_inv]: "ret x s = (Some y, s') \<longleftrightarrow> y = x \<and> s' = s"
  by auto

lemma guard_eq_Some [op_inv]: "guard b s = (Some u, s') \<longleftrightarrow> b \<and> s' = s"
  by auto

lemma fail_eq_Some [op_inv]: "fail s = (Some u, s') \<longleftrightarrow> False"
  by auto

section \<open>Big-endian integers\<close>

text \<open>The loop \<open>result <<= 8; result |= data[i]\<close>, from the first byte on.\<close>

fun be_fold :: "u64 \<Rightarrow> u8 list \<Rightarrow> u64" where
  "be_fold r [] = r"
| "be_fold r (b # bs) = be_fold (push_bit 8 r OR ucast b) bs"

definition be_value :: "u8 list \<Rightarrow> u64" where
  "be_value bs = be_fold 0 bs"

text \<open>The loop \<open>buf[i] = v; v >>= 8\<close>, from the last byte to the first.\<close>

fun be_bytes :: "nat \<Rightarrow> u64 \<Rightarrow> u8 list" where
  "be_bytes 0 v = []"
| "be_bytes (Suc n) v = be_bytes n (drop_bit 8 v) @ [ucast v]"

lemma length_be_bytes [simp]: "length (be_bytes n v) = n"
  by (induction n arbitrary: v) auto

lemma be_bytes_Cons: "be_bytes (Suc n) v = ucast (drop_bit (8 * n) v) # be_bytes n v"
proof (induction n arbitrary: v)
  case (Suc n)
  have "drop_bit (8 * n) (drop_bit 8 v) = drop_bit (8 * Suc n) v"
    by (simp add: add.commute drop_bit_drop_bit)
  with Suc[of "drop_bit 8 v"] show ?case by simp
qed simp

lemma be_fold_append: "be_fold r (xs @ ys) = be_fold (be_fold r xs) ys"
  by (induction xs arbitrary: r) auto

lemma be_value_snoc: "be_value (bs @ [b]) = push_bit 8 (be_value bs) OR ucast b"
  by (simp add: be_value_def be_fold_append)

lemma be_value_Nil [simp]: "be_value [] = 0"
  by (simp add: be_value_def)

lemma push_drop_ucast: "push_bit 8 (drop_bit 8 v) OR ucast (ucast v :: u8) = (v :: u64)"
  by (rule bit_word_eqI) (auto simp: bit_simps)

lemma drop_bit_snoc:
  assumes "\<And>i. 56 \<le> i \<Longrightarrow> \<not> bit w i"
  shows "drop_bit 8 (push_bit 8 w OR ucast (b :: u8)) = (w :: u64)"
proof (rule bit_word_eqI)
  fix i assume "i < LENGTH(64)"
  then show "bit (drop_bit 8 (push_bit 8 w OR ucast b)) i = bit w i"
    using assms[of i] by (cases "i < 56") (auto simp: bit_simps dest: bit_imp_le_length)
qed

lemma ucast_snoc: "ucast (push_bit 8 w OR ucast (b :: u8) :: u64) = b"
  by (rule bit_word_eqI) (auto simp: bit_simps)

lemma bit_be_value: "bit (be_value bs) i \<Longrightarrow> i < 8 * length bs"
proof (induction bs arbitrary: i rule: rev_induct)
  case (snoc b bs)
  from snoc.prems consider "8 \<le> i" "bit (be_value bs) (i - 8)" | "i < 8"
    by (auto simp: be_value_snoc bit_simps dest: bit_imp_le_length)
  then show ?case using snoc.IH[of "i - 8"] by cases auto
qed simp

lemma be_bytes_value [simp]: "length bs \<le> 8 \<Longrightarrow> be_bytes (length bs) (be_value bs) = bs"
proof (induction bs rule: rev_induct)
  case (snoc b bs)
  then have "\<And>i. 56 \<le> i \<Longrightarrow> \<not> bit (be_value bs) i"
    using bit_be_value by fastforce
  then have "drop_bit 8 (be_value (bs @ [b])) = be_value bs"
    unfolding be_value_snoc by (rule drop_bit_snoc)
  moreover have "ucast (be_value (bs @ [b])) = b"
    by (simp only: be_value_snoc ucast_snoc)
  ultimately show ?case using snoc by simp
qed simp

lemma be_value_bytes: "be_value (be_bytes n v) = take_bit (8 * n) v"
proof (induction n arbitrary: v)
  case (Suc n)
  have "be_value (be_bytes (Suc n) v) = push_bit 8 (take_bit (8 * n) (drop_bit 8 v)) OR ucast (ucast v :: u8)"
    by (simp add: be_value_snoc Suc)
  also have "\<dots> = take_bit (8 * Suc n) v"
    by (rule bit_word_eqI) (auto simp: bit_simps)
  finally show ?case .
qed simp

lemma unat_be_value_less: "unat (be_value bs) < 2 ^ (8 * length bs)"
proof -
  have "take_bit (8 * length bs) (be_value bs) = be_value bs"
    by (rule bit_word_eqI) (auto simp: bit_simps dest: bit_be_value)
  then have "unat (be_value bs) = take_bit (8 * length bs) (unat (be_value bs))"
    by (metis unsigned_take_bit_eq)
  then show ?thesis by (metis take_bit_nat_less_exp)
qed

section \<open>Self-delimiting codes\<close>

text \<open>
  The contract between a writer and the reader of its output: the reader, started on what
  the writer produced followed by anything, returns the value and leaves the rest.
  \<open>canonical_codec\<close> adds that the reader accepts nothing else.
\<close>

fun op_repeat :: "nat \<Rightarrow> ('s, 'a) op \<Rightarrow> ('s, 'a list) op" where
  "op_repeat 0 p = ret []"
| "op_repeat (Suc n) p = sbind p (\<lambda>x. sbind (op_repeat n p) (\<lambda>xs. ret (x # xs)))"

locale prefix_codec =
  fixes enc :: "'a \<Rightarrow> 'b list" and dec :: "('b list, 'a) op" and ok :: "'a \<Rightarrow> bool"
  assumes dec_enc: "ok x \<Longrightarrow> dec (enc x @ r) = (Some x, r)"
begin

lemma enc_prefix_free:
  assumes "ok x" and "ok y" and "enc x @ r = enc y @ r'"
  shows "x = y \<and> r = r'"
  using assms(3) dec_enc[OF assms(1), of r] dec_enc[OF assms(2), of r'] by (metis Pair_inject option.inject)

lemma enc_inj_on: "inj_on enc {x. ok x}"
proof (rule inj_onI)
  fix x y assume "x \<in> {x. ok x}" "y \<in> {x. ok x}" "enc x = enc y"
  then show "x = y" using enc_prefix_free[of x y "[]" "[]"] by simp
qed

lemma dec_enc_all: "ok x \<Longrightarrow> dec (enc x) = (Some x, [])"
  using dec_enc[of x "[]"] by simp

lemma repeat_enc: "\<forall>x\<in>set xs. ok x \<Longrightarrow>
    op_repeat (length xs) dec (concat (map enc xs) @ r) = (Some xs, r)"
  by (induction xs) (auto simp: dec_enc)

end

locale canonical_codec = prefix_codec +
  assumes dec_sound: "dec s = (Some x, r) \<Longrightarrow> ok x \<and> s = enc x @ r"
begin

lemma dec_iff: "dec s = (Some x, r) \<longleftrightarrow> ok x \<and> s = enc x @ r"
  using dec_sound dec_enc by blast

lemma repeat_sound: "op_repeat n dec s = (Some xs, r) \<Longrightarrow>
    length xs = n \<and> (\<forall>x\<in>set xs. ok x) \<and> s = concat (map enc xs) @ r"
proof (induction n arbitrary: s xs)
  case (Suc n)
  then obtain x xs' s1 where "dec s = (Some x, s1)" "op_repeat n dec s1 = (Some xs', r)"
    "xs = x # xs'" by (auto simp: op_inv)
  with Suc.IH[of s1 xs'] show ?case by (auto dest: dec_sound)
qed (auto simp: op_inv)

lemma dec_injective: "dec s = (Some x, r) \<Longrightarrow> dec s' = (Some x, r) \<Longrightarrow> s = s'"
  by (auto dest: dec_sound)

end

section \<open>Data refinement\<close>

text \<open>
  A stateful operation \<open>p\<close> implements a partial function \<open>f\<close> on abstract states: whenever
  \<open>p\<close> succeeds, \<open>f\<close> describes its effect; \<open>p\<close> does succeed when \<open>f\<close> is defined and the
  state has room for the result; and \<open>f\<close> never needs less room than it was given. \<open>keeps\<close>
  is what no operation takes away from the state.
\<close>

definition implements ::
  "('s \<Rightarrow> bool) \<Rightarrow> ('s \<Rightarrow> 'l) \<Rightarrow> ('s \<Rightarrow> 's \<Rightarrow> bool) \<Rightarrow> ('s \<Rightarrow> 'l \<Rightarrow> bool) \<Rightarrow>
   ('s, 'a) op \<Rightarrow> ('l \<Rightarrow> 'l option) \<Rightarrow> bool" where
  "implements ok view keeps room p f \<longleftrightarrow>
     (\<forall>s x s'. ok s \<and> p s = (Some x, s') \<longrightarrow> f (view s) = Some (view s') \<and> ok s' \<and> keeps s s') \<and>
     (\<forall>s l. ok s \<and> f (view s) = Some l \<and> room s l \<longrightarrow> (\<exists>x s'. p s = (Some x, s'))) \<and>
     (\<forall>s l l'. f l = Some l' \<and> room s l' \<longrightarrow> room s l)"

lemma implementsI:
  assumes "\<And>s x s'. ok s \<Longrightarrow> p s = (Some x, s') \<Longrightarrow> f (view s) = Some (view s') \<and> ok s' \<and> keeps s s'"
    and "\<And>s l. ok s \<Longrightarrow> f (view s) = Some l \<Longrightarrow> room s l \<Longrightarrow> \<exists>x s'. p s = (Some x, s')"
    and "\<And>s l l'. f l = Some l' \<Longrightarrow> room s l' \<Longrightarrow> room s l"
  shows "implements ok view keeps room p f"
  using assms by (auto simp: implements_def)

lemma implementsD:
  assumes "implements ok view keeps room p f" and "ok s"
  shows "p s = (Some x, s') \<Longrightarrow> f (view s) = Some (view s') \<and> ok s' \<and> keeps s s'"
    and "f (view s) = Some l \<Longrightarrow> room s l \<Longrightarrow> \<exists>x s'. p s = (Some x, s')"
  using assms by (auto simp: implements_def)

lemma implements_room: "implements ok view keeps room p f \<Longrightarrow> f l = Some l' \<Longrightarrow> room s l' \<Longrightarrow> room s l"
  by (auto simp: implements_def)

text \<open>What a caller learns from one call.\<close>

lemma implements_cases:
  assumes "implements ok view keeps room p f" and "ok s"
  shows "(case p s of (Some x, s') \<Rightarrow> f (view s) = Some (view s') \<and> ok s'
     | (None, s') \<Rightarrow> f (view s) = None \<or> (\<exists>l. f (view s) = Some l \<and> \<not> room s l))"
  using implementsD[OF assms] by (fastforce split: prod.splits option.splits)

lemma option_bind_assoc:
  "Option.bind (Option.bind x f) g = Option.bind x (\<lambda>y. Option.bind (f y) g)"
  by (cases x) auto

fun op_each :: "('a \<Rightarrow> ('s, unit) op) \<Rightarrow> 'a list \<Rightarrow> ('s, unit) op" where
  "op_each p [] = ret ()"
| "op_each p (x # xs) = sbind (p x) (\<lambda>_. op_each p xs)"

fun each :: "('a \<Rightarrow> 'l \<Rightarrow> 'l option) \<Rightarrow> 'a list \<Rightarrow> 'l \<Rightarrow> 'l option" where
  "each f [] l = Some l"
| "each f (x # xs) l = Option.bind (f x l) (each f xs)"

locale simulation =
  fixes ok :: "'s \<Rightarrow> bool" and view :: "'s \<Rightarrow> 'l" and keeps :: "'s \<Rightarrow> 's \<Rightarrow> bool"
    and room :: "'s \<Rightarrow> 'l \<Rightarrow> bool"
  assumes keeps_refl: "ok s \<Longrightarrow> keeps s s"
    and keeps_trans: "keeps a b \<Longrightarrow> keeps b c \<Longrightarrow> keeps a c"
    and keeps_room: "keeps s s' \<Longrightarrow> room s l \<Longrightarrow> room s' l"
begin

lemma ret: "implements ok view keeps room (ret x) Some"
  by (rule implementsI) (auto intro: keeps_refl)

lemma fail: "implements ok view keeps room fail (\<lambda>_. None)"
  by (rule implementsI) auto

lemma guarded: "implements ok view keeps room (guard c) (\<lambda>l. if c then Some l else None)"
  by (rule implementsI) (auto intro: keeps_refl split: if_splits)

lemma bind:
  assumes p: "implements ok view keeps room p f" and g: "\<And>x. implements ok view keeps room (g x) h"
  shows "implements ok view keeps room (sbind p g) (\<lambda>l. Option.bind (f l) h)"
proof (rule implementsI)
  fix s x s' assume s: "ok s" and "sbind p g s = (Some x, s')"
  then obtain y s1 where "p s = (Some y, s1)" "g y s1 = (Some x, s')" by (auto simp: op_inv)
  with implementsD(1)[OF p s] implementsD(1)[OF g, of s1 y x s'] keeps_trans
  show "Option.bind (f (view s)) h = Some (view s') \<and> ok s' \<and> keeps s s'" by auto
next
  fix s l assume s: "ok s" and "Option.bind (f (view s)) h = Some l" and room: "room s l"
  then obtain l1 where l1: "f (view s) = Some l1" "h l1 = Some l" by (auto simp: bind_eq_Some_conv)
  from implementsD(2)[OF p s l1(1)] implements_room[OF g l1(2) room] obtain y s1
    where y: "p s = (Some y, s1)" by blast
  with implementsD(1)[OF p s y] l1 have "view s1 = l1" "ok s1" "keeps s s1" by auto
  with implementsD(2)[OF g, of s1 l y] keeps_room room l1 y
  show "\<exists>x s'. sbind p g s = (Some x, s')" by fastforce
next
  fix s l l' assume "Option.bind (f l) h = Some l'" and "room s l'"
  then show "room s l"
    using implements_room[OF p] implements_room[OF g] by (auto simp: bind_eq_Some_conv)
qed

lemma bind_both:
  assumes "implements ok view keeps room p f" and "\<And>x. implements ok view keeps room (g x) h"
    and "\<And>l. Option.bind (f l) h = k l"
  shows "implements ok view keeps room (sbind p g) k"
proof -
  have "k = (\<lambda>l. Option.bind (f l) h)" using assms(3) by auto
  then show ?thesis using bind[OF assms(1,2)] by simp
qed

lemma each:
  assumes "\<And>x. x \<in> set xs \<Longrightarrow> implements ok view keeps room (p x) (f x)"
  shows "implements ok view keeps room (op_each p xs) (each f xs)"
  using assms
proof (induction xs)
  case Nil
  have "each f [] = Some" by auto
  then show ?case using ret[of "()"] by (simp only: op_each.simps)
next
  case (Cons x xs)
  show ?case unfolding op_each.simps
  proof (rule bind_both)
    show "implements ok view keeps room (p x) (f x)" using Cons.prems by simp
    show "implements ok view keeps room (op_each p xs) (each f xs)" by (rule Cons.IH) (simp add: Cons.prems)
  qed simp
qed

end

end
