(* ===== verification/Cbs.thy ===== *)
theory Cbs
  imports Prelude
begin

text \<open>
  The byte-string reader of \<open>crypto/bytestring/cbs.c\<close>: the fixed-width and
  length-prefixed reads. A \<open>CBS\<close> (a pointer and a length) is the list of the bytes it
  still spans; advancing the pointer drops bytes from the front. Outputs that the C
  code writes through pointers are the values of the operations.
\<close>

type_synonym cbs = "u8 list"

section \<open>Views\<close>

definition CBS_init :: "u8 list \<Rightarrow> nat \<Rightarrow> cbs" where
  "CBS_init data len = take len data"

definition CBS_data :: "cbs \<Rightarrow> u8 list" where
  "CBS_data s = s"

definition CBS_len :: "cbs \<Rightarrow> nat" where
  "CBS_len s = length s"

definition cbs_get :: "nat \<Rightarrow> (cbs, u8 list) op" where
  "cbs_get n = (\<lambda>s. if length s < n then (None, s) else (Some (take n s), drop n s))"

definition CBS_skip :: "nat \<Rightarrow> (cbs, unit) op" where
  "CBS_skip n = sbind (cbs_get n) (\<lambda>dummy. ret ())"

text \<open>\<open>CBS_stow\<close> and \<open>CBS_strdup\<close> return the status and the new \<open>*out_ptr\<close> (\<open>None\<close> is
  \<open>NULL\<close>); \<open>alloc\<close> says which requests the allocator grants. \<open>*out_len\<close> is the length of
  the block. The string duplicated is what precedes the first zero byte.\<close>

definition CBS_stow :: "(nat \<Rightarrow> bool) \<Rightarrow> cbs \<Rightarrow> bool \<times> u8 list option" where
  "CBS_stow alloc s =
     (if length s = 0 then (True, None)
      else if alloc (length s) then (True, Some s) else (False, None))"

definition OPENSSL_strndup :: "(nat \<Rightarrow> bool) \<Rightarrow> u8 list \<Rightarrow> nat \<Rightarrow> u8 list option" where
  "OPENSSL_strndup alloc str sz =
     (let n = length (takeWhile (\<lambda>c. c \<noteq> 0) (take sz str)); alloc_size = (n + 1) mod SIZE_MOD
      in if alloc_size < n then None
         else if alloc alloc_size then Some (take n str @ [0]) else None)"

definition CBS_strdup :: "(nat \<Rightarrow> bool) \<Rightarrow> cbs \<Rightarrow> bool \<times> u8 list option" where
  "CBS_strdup alloc s = (let p = OPENSSL_strndup alloc s (length s) in (p \<noteq> None, p))"

definition CBS_contains_zero_byte :: "cbs \<Rightarrow> bool" where
  "CBS_contains_zero_byte s = (0 \<in> set s)"

text \<open>\<open>CRYPTO_memcmp\<close> accumulates the differences of all the bytes, whatever they are.\<close>

fun memcmp_loop :: "u8 \<Rightarrow> u8 list \<Rightarrow> u8 list \<Rightarrow> u8" where
  "memcmp_loop x (a # as) (b # bs) = memcmp_loop (x OR (a XOR b)) as bs"
| "memcmp_loop x _ _ = x"

definition CRYPTO_memcmp :: "u8 list \<Rightarrow> u8 list \<Rightarrow> nat \<Rightarrow> u8" where
  "CRYPTO_memcmp a b len = memcmp_loop 0 (take len a) (take len b)"

definition CBS_mem_equal :: "cbs \<Rightarrow> u8 list \<Rightarrow> nat \<Rightarrow> bool" where
  "CBS_mem_equal s data len =
     (if len \<noteq> length s then False else CRYPTO_memcmp s data len = 0)"

definition OPENSSL_memcpy :: "u8 list \<Rightarrow> nat \<Rightarrow> u8 list \<Rightarrow> u8 list" where
  "OPENSSL_memcpy b dst data = take dst b @ data @ drop (dst + length data) b"

section \<open>Fixed-width integers\<close>

definition cbs_get_u :: "nat \<Rightarrow> (cbs, u64) op" where
  "cbs_get_u len = sbind (cbs_get len) (\<lambda>data. ret (be_value data))"

definition CBS_get_u8 :: "(cbs, u8) op" where
  "CBS_get_u8 = sbind (cbs_get 1) (\<lambda>v. ret (hd v))"

definition CBS_get_u16 :: "(cbs, u16) op" where
  "CBS_get_u16 = sbind (cbs_get_u 2) (\<lambda>v. ret (ucast v))"

definition CRYPTO_bswap2 :: "u16 \<Rightarrow> u16" where
  "CRYPTO_bswap2 x = drop_bit 8 x OR push_bit 8 x"

definition CRYPTO_bswap4 :: "u32 \<Rightarrow> u32" where
  "CRYPTO_bswap4 x =
     (let y = drop_bit 16 x OR push_bit 16 x
      in drop_bit 8 (y AND 0xff00ff00) OR push_bit 8 (y AND 0x00ff00ff))"

definition CRYPTO_bswap8 :: "u64 \<Rightarrow> u64" where
  "CRYPTO_bswap8 x =
     ucast (CRYPTO_bswap4 (ucast (drop_bit 32 x))) OR
     push_bit 32 (ucast (CRYPTO_bswap4 (ucast x)))"

definition CBS_get_u16le :: "(cbs, u16) op" where
  "CBS_get_u16le = sbind CBS_get_u16 (\<lambda>v. ret (CRYPTO_bswap2 v))"

definition CBS_get_u24 :: "(cbs, u32) op" where
  "CBS_get_u24 = sbind (cbs_get_u 3) (\<lambda>v. ret (ucast v))"

definition CBS_get_u32 :: "(cbs, u32) op" where
  "CBS_get_u32 = sbind (cbs_get_u 4) (\<lambda>v. ret (ucast v))"

definition CBS_get_u32le :: "(cbs, u32) op" where
  "CBS_get_u32le = sbind CBS_get_u32 (\<lambda>v. ret (CRYPTO_bswap4 v))"

definition CBS_get_u64 :: "(cbs, u64) op" where
  "CBS_get_u64 = cbs_get_u 8"

definition CBS_get_u64le :: "(cbs, u64) op" where
  "CBS_get_u64le = sbind (cbs_get_u 8) (\<lambda>v. ret (CRYPTO_bswap8 v))"

definition CBS_get_last_u8 :: "(cbs, u8) op" where
  "CBS_get_last_u8 = (\<lambda>s. if length s = 0 then (None, s)
     else (Some (s ! (length s - 1)), take (length s - 1) s))"

section \<open>Byte strings and length prefixes\<close>

definition CBS_get_bytes :: "nat \<Rightarrow> (cbs, cbs) op" where
  "CBS_get_bytes len = sbind (cbs_get len) (\<lambda>v. ret (CBS_init v len))"

definition CBS_copy_bytes :: "nat \<Rightarrow> (cbs, u8 list) op" where
  "CBS_copy_bytes len = sbind (cbs_get len) (\<lambda>v. ret (take len v))"

definition cbs_get_length_prefixed :: "nat \<Rightarrow> (cbs, cbs) op" where
  "cbs_get_length_prefixed len_len = sbind (cbs_get_u len_len) (\<lambda>len. CBS_get_bytes (unat len))"

definition CBS_get_u8_length_prefixed :: "(cbs, cbs) op" where
  "CBS_get_u8_length_prefixed = cbs_get_length_prefixed 1"

definition CBS_get_u16_length_prefixed :: "(cbs, cbs) op" where
  "CBS_get_u16_length_prefixed = cbs_get_length_prefixed 2"

definition CBS_get_u24_length_prefixed :: "(cbs, cbs) op" where
  "CBS_get_u24_length_prefixed = cbs_get_length_prefixed 3"

definition CBS_get_until_first :: "u8 \<Rightarrow> (cbs, cbs) op" where
  "CBS_get_until_first c = (\<lambda>s.
     if c \<notin> set s then (None, s) else CBS_get_bytes (length (takeWhile (\<lambda>b. b \<noteq> c) s)) s)"

section \<open>What the reads do\<close>

text \<open>Every read either fails and leaves the string alone, or returns a prefix.\<close>

lemma cbs_get_eq: "cbs_get n s = (if length s < n then (None, s) else (Some (take n s), drop n s))"
  by (simp add: cbs_get_def)

lemma cbs_get_Some [op_inv]: "cbs_get n s = (Some d, r) \<longleftrightarrow> s = d @ r \<and> length d = n"
  by (auto simp: cbs_get_def min_def)

lemma cbs_get_append [simp]: "cbs_get (length d) (d @ r) = (Some d, r)"
  by (simp add: cbs_get_def)

lemma CBS_skip_eq [simp]: "CBS_skip n s = (if length s < n then (None, s) else (Some (), drop n s))"
  by (simp add: CBS_skip_def sbind_def cbs_get_def)

lemma CBS_get_bytes_eq [simp]: "CBS_get_bytes n = cbs_get n"
  by (rule ext) (simp add: CBS_get_bytes_def sbind_def cbs_get_def CBS_init_def)

lemma CBS_copy_bytes_eq [simp]: "CBS_copy_bytes n = cbs_get n"
  by (rule ext) (simp add: CBS_copy_bytes_def sbind_def cbs_get_def)

lemma CBS_get_u8_simps [simp]:
  "CBS_get_u8 [] = (None, [])"
  "CBS_get_u8 (b # s) = (Some b, s)"
  by (simp_all add: CBS_get_u8_def sbind_def cbs_get_def)

lemma CBS_get_u8_Some [op_inv]: "CBS_get_u8 s = (Some b, r) \<longleftrightarrow> s = b # r"
  by (cases s) auto

lemma CBS_get_u8_None: "CBS_get_u8 s = (None, r) \<longleftrightarrow> s = [] \<and> r = []"
  by (cases s) auto

lemma cbs_get_u_append: "length d = n \<Longrightarrow> cbs_get_u n (d @ r) = (Some (be_value d), r)"
  by (auto simp: cbs_get_u_def)

lemma cbs_get_u_short: "length s < n \<Longrightarrow> cbs_get_u n s = (None, s)"
  by (simp add: cbs_get_u_def sbind_def cbs_get_def)

lemma cbs_get_u_Some [op_inv]:
  "cbs_get_u n s = (Some v, r) \<longleftrightarrow> (\<exists>d. s = d @ r \<and> length d = n \<and> v = be_value d)"
  by (auto simp: cbs_get_u_def op_inv)

text \<open>For at most eight bytes the integer read and the bytes determine each other.\<close>

lemma cbs_get_u_iff:
  assumes "n \<le> 8"
  shows "cbs_get_u n s = (Some v, r) \<longleftrightarrow> s = be_bytes n v @ r \<and> take_bit (8 * n) v = v"
proof
  assume "cbs_get_u n s = (Some v, r)"
  then obtain d where d: "s = d @ r" "length d = n" "v = be_value d" by (auto simp: op_inv)
  then have "d = be_bytes n v" using assms be_bytes_value by metis
  with d show "s = be_bytes n v @ r \<and> take_bit (8 * n) v = v" by (metis be_value_bytes)
next
  assume "s = be_bytes n v @ r \<and> take_bit (8 * n) v = v"
  then show "cbs_get_u n s = (Some v, r)" by (simp add: cbs_get_u_append be_value_bytes)
qed

interpretation be_codec: canonical_codec "be_bytes 8" CBS_get_u64 "\<lambda>v. True"
  by unfold_locales (auto simp: CBS_get_u64_def cbs_get_u_append be_value_bytes cbs_get_u_iff)

lemma memcmp_loop_zero: "length as = length bs \<Longrightarrow> memcmp_loop x as bs = 0 \<longleftrightarrow> x = 0 \<and> as = bs"
proof (induction x as bs rule: memcmp_loop.induct)
  case (1 x a as b bs)
  have "x OR (a XOR b) = 0 \<longleftrightarrow> x = 0 \<and> a = b"
    by (simp add: or_zero_iff xor_zero_iff)
  with 1 show ?case by auto
qed auto

end
