(* ===== verification/Der.thy ===== *)
theory Der
  imports Cbs
begin

text \<open>
  The ASN.1 reader of \<open>crypto/bytestring/cbs.c\<close>: base-128 integers, tags, elements in
  DER and in the BER the code tolerates, integers, booleans, optional fields and bit
  strings, and the proof that the DER reader accepts exactly the canonical encoding
  \<open>der_tlv\<close> of a tag and contents.
\<close>

section \<open>Constants\<close>

definition CBS_ASN1_TAG_SHIFT :: nat where
  "CBS_ASN1_TAG_SHIFT = 24"

definition CBS_ASN1_CONSTRUCTED :: u32 where
  "CBS_ASN1_CONSTRUCTED = push_bit CBS_ASN1_TAG_SHIFT 0x20"

definition CBS_ASN1_TAG_NUMBER_MASK :: u32 where
  "CBS_ASN1_TAG_NUMBER_MASK = push_bit (5 + CBS_ASN1_TAG_SHIFT) 1 - 1"

definition CBS_ASN1_BOOLEAN :: u32 where "CBS_ASN1_BOOLEAN = 0x1"
definition CBS_ASN1_INTEGER :: u32 where "CBS_ASN1_INTEGER = 0x2"
definition CBS_ASN1_OCTETSTRING :: u32 where "CBS_ASN1_OCTETSTRING = 0x4"

lemma asn1_consts [simp]:
  "CBS_ASN1_TAG_SHIFT = 24"
  "CBS_ASN1_CONSTRUCTED = 0x20000000"
  "CBS_ASN1_TAG_NUMBER_MASK = 0x1fffffff"
  by (simp_all add: CBS_ASN1_TAG_SHIFT_def CBS_ASN1_CONSTRUCTED_def CBS_ASN1_TAG_NUMBER_MASK_def)

section \<open>Reading\<close>

fun parse_base128_loop :: "u64 \<Rightarrow> (cbs, u64) op" where
  "parse_base128_loop v [] = (None, [])"
| "parse_base128_loop v (b # s) =
     (if drop_bit (64 - 7) v \<noteq> 0 then (None, s)
      else if v = 0 \<and> b = 0x80 then (None, s)
      else let v' = push_bit 7 v OR ucast (b AND 0x7f)
           in if b AND 0x80 \<noteq> 0 then parse_base128_loop v' s else (Some v', s))"

definition parse_base128_integer :: "(cbs, u64) op" where
  "parse_base128_integer = parse_base128_loop 0"

definition parse_asn1_tag :: "(cbs, u32) op" where
  "parse_asn1_tag = sbind CBS_get_u8 (\<lambda>tag_byte.
     let tag = push_bit CBS_ASN1_TAG_SHIFT (ucast tag_byte AND 0xe0);
         tag_number = ucast (tag_byte AND 0x1f)
     in if tag_number = 0x1f
        then sbind parse_base128_integer (\<lambda>v.
               if v > ucast CBS_ASN1_TAG_NUMBER_MASK \<or> v < 0x1f then fail
               else ret (tag OR ucast v))
        else ret (tag OR tag_number))"

text \<open>The outputs of \<open>cbs_get_any_asn1_element\<close>.\<close>

record asn1_element =
  el_out :: cbs
  el_tag :: u32
  el_header_len :: nat
  el_ber_found :: bool

definition get_element :: "u32 \<Rightarrow> nat \<Rightarrow> bool \<Rightarrow> nat \<Rightarrow> (cbs, asn1_element) op" where
  "get_element tag header_len ber len = sbind (CBS_get_bytes len) (\<lambda>out.
     ret \<lparr>el_out = out, el_tag = tag, el_header_len = header_len, el_ber_found = ber\<rparr>)"

text \<open>The header is read from a copy, so every failure before the final
  \<open>CBS_get_bytes\<close> leaves the string where it was.\<close>

definition cbs_get_any_asn1_element :: "bool \<Rightarrow> (cbs, asn1_element) op" where
  "cbs_get_any_asn1_element ber_ok s =
     (case parse_asn1_tag s of (None, _) \<Rightarrow> (None, s) | (Some tag, header1) \<Rightarrow>
      case CBS_get_u8 header1 of (None, _) \<Rightarrow> (None, s) | (Some length_byte, header2) \<Rightarrow>
      let header_len = CBS_len s - CBS_len header2 in
      if length_byte AND 0x80 = 0
      then get_element tag header_len False (unat length_byte + header_len) s
      else let num_bytes = unat (length_byte AND 0x7f) in
        if ber_ok \<and> tag AND CBS_ASN1_CONSTRUCTED \<noteq> 0 \<and> num_bytes = 0
        then get_element tag header_len True header_len s
        else if num_bytes = 0 \<or> num_bytes > 4 then (None, s)
        else case cbs_get_u num_bytes header2 of (None, _) \<Rightarrow> (None, s) | (Some len64, _) \<Rightarrow>
          if len64 < 128 \<and> \<not> ber_ok then (None, s)
          else if drop_bit ((num_bytes - 1) * 8) len64 = 0 \<and> \<not> ber_ok then (None, s)
          else let ber = (len64 < 128 \<or> drop_bit ((num_bytes - 1) * 8) len64 = 0);
                   len = unat len64 in
            if (len + header_len + num_bytes) mod SIZE_MOD < len then (None, s)
            else get_element tag (header_len + num_bytes) ber (len + header_len + num_bytes) s)"

definition CBS_get_any_asn1_element :: "(cbs, asn1_element) op" where
  "CBS_get_any_asn1_element = cbs_get_any_asn1_element False"

definition CBS_get_any_ber_asn1_element :: "(cbs, asn1_element) op" where
  "CBS_get_any_ber_asn1_element = cbs_get_any_asn1_element True"

definition CBS_get_any_asn1 :: "(cbs, cbs \<times> u32) op" where
  "CBS_get_any_asn1 = sbind CBS_get_any_asn1_element (\<lambda>e.
     case CBS_skip (el_header_len e) (el_out e) of
       (None, _) \<Rightarrow> fail
     | (Some _, out) \<Rightarrow> ret (out, el_tag e))"

definition cbs_get_asn1 :: "u32 \<Rightarrow> bool \<Rightarrow> (cbs, cbs) op" where
  "cbs_get_asn1 tag_value skip_header = sbind CBS_get_any_asn1_element (\<lambda>e.
     if el_tag e \<noteq> tag_value then fail
     else if skip_header
     then (case CBS_skip (el_header_len e) (el_out e) of
             (None, _) \<Rightarrow> fail
           | (Some _, out) \<Rightarrow> ret out)
     else ret (el_out e))"

definition CBS_get_asn1 :: "u32 \<Rightarrow> (cbs, cbs) op" where
  "CBS_get_asn1 tag_value = cbs_get_asn1 tag_value True"

definition CBS_get_asn1_element :: "u32 \<Rightarrow> (cbs, cbs) op" where
  "CBS_get_asn1_element tag_value = cbs_get_asn1 tag_value False"

definition CBS_peek_asn1_tag :: "cbs \<Rightarrow> u32 \<Rightarrow> bool" where
  "CBS_peek_asn1_tag s tag_value =
     (if CBS_len s < 1 then False
      else case parse_asn1_tag s of (None, _) \<Rightarrow> False | (Some actual_tag, _) \<Rightarrow> tag_value = actual_tag)"

section \<open>Integers and booleans\<close>

text \<open>The status and \<open>*out_is_negative\<close>: \<open>None\<close> is a return of zero.\<close>

definition CBS_is_valid_asn1_integer :: "cbs \<Rightarrow> bool option" where
  "CBS_is_valid_asn1_integer s =
     (case CBS_get_u8 s of (None, _) \<Rightarrow> None | (Some first_byte, copy) \<Rightarrow>
      let is_negative = (first_byte AND 0x80 \<noteq> 0) in
      case CBS_get_u8 copy of (None, _) \<Rightarrow> Some is_negative | (Some second_byte, _) \<Rightarrow>
        if (first_byte = 0x00 \<and> second_byte AND 0x80 = 0) \<or>
           (first_byte = 0xff \<and> second_byte AND 0x80 \<noteq> 0) then None
        else Some is_negative)"

definition CBS_is_unsigned_asn1_integer :: "cbs \<Rightarrow> bool" where
  "CBS_is_unsigned_asn1_integer s = (CBS_is_valid_asn1_integer s = Some False)"

fun asn1_uint64_loop :: "u64 \<Rightarrow> u8 list \<Rightarrow> u64 option" where
  "asn1_uint64_loop out [] = Some out"
| "asn1_uint64_loop out (b # bs) =
     (if drop_bit 56 out \<noteq> 0 then None else asn1_uint64_loop (push_bit 8 out OR ucast b) bs)"

definition CBS_get_asn1_uint64 :: "(cbs, u64) op" where
  "CBS_get_asn1_uint64 = sbind (CBS_get_asn1 CBS_ASN1_INTEGER) (\<lambda>bytes.
     if \<not> CBS_is_unsigned_asn1_integer bytes then fail
     else case asn1_uint64_loop 0 (CBS_data bytes) of None \<Rightarrow> fail | Some out \<Rightarrow> ret out)"

text \<open>The union of an \<open>int64_t\<close> and eight bytes, on a little-endian machine.\<close>

definition union_i64 :: "u8 list \<Rightarrow> i64" where
  "union_i64 bytes = be_value (rev bytes)"

definition CBS_get_asn1_int64 :: "(cbs, i64) op" where
  "CBS_get_asn1_int64 = sbind (CBS_get_asn1 CBS_ASN1_INTEGER) (\<lambda>bytes.
     case CBS_is_valid_asn1_integer bytes of None \<Rightarrow> fail | Some is_negative \<Rightarrow>
       let len = CBS_len bytes in
       if len > 8 then fail
       else ret (union_i64 (rev (CBS_data bytes) @
                            replicate (8 - len) (if is_negative then 0xff else 0))))"

definition CBS_get_asn1_bool :: "(cbs, bool) op" where
  "CBS_get_asn1_bool = sbind (CBS_get_asn1 CBS_ASN1_BOOLEAN) (\<lambda>bytes.
     if CBS_len bytes \<noteq> 1 then fail
     else let value = hd (CBS_data bytes) in
       if value \<noteq> 0 \<and> value \<noteq> 0xff then fail else ret (value \<noteq> 0))"

section \<open>Optional fields\<close>

text \<open>\<open>*out_present\<close> and \<open>*out\<close> together are an optional string.\<close>

definition CBS_get_optional_asn1 :: "u32 \<Rightarrow> (cbs, cbs option) op" where
  "CBS_get_optional_asn1 tag = (\<lambda>s.
     if CBS_peek_asn1_tag s tag
     then sbind (CBS_get_asn1 tag) (\<lambda>out. ret (Some out)) s
     else (Some None, s))"

definition CBS_get_optional_asn1_octet_string :: "u32 \<Rightarrow> (cbs, cbs \<times> bool) op" where
  "CBS_get_optional_asn1_octet_string tag = sbind (CBS_get_optional_asn1 tag) (\<lambda>child.
     case child of
       None \<Rightarrow> ret (CBS_init [] 0, False)
     | Some c \<Rightarrow> (case CBS_get_asn1 CBS_ASN1_OCTETSTRING c of
           (None, _) \<Rightarrow> fail
         | (Some out, c') \<Rightarrow> if CBS_len c' \<noteq> 0 then fail else ret (out, True)))"

definition CBS_get_optional_asn1_uint64 :: "u32 \<Rightarrow> u64 \<Rightarrow> (cbs, u64) op" where
  "CBS_get_optional_asn1_uint64 tag default_value = sbind (CBS_get_optional_asn1 tag) (\<lambda>child.
     case child of
       None \<Rightarrow> ret default_value
     | Some c \<Rightarrow> (case CBS_get_asn1_uint64 c of
           (None, _) \<Rightarrow> fail
         | (Some out, c') \<Rightarrow> if CBS_len c' \<noteq> 0 then fail else ret out))"

definition CBS_get_optional_asn1_bool :: "u32 \<Rightarrow> bool \<Rightarrow> (cbs, bool) op" where
  "CBS_get_optional_asn1_bool tag default_value = sbind (CBS_get_optional_asn1 tag) (\<lambda>child.
     case child of
       None \<Rightarrow> ret default_value
     | Some c \<Rightarrow> (case CBS_get_asn1 CBS_ASN1_BOOLEAN c of
           (None, _) \<Rightarrow> fail
         | (Some child2, c') \<Rightarrow>
             if CBS_len child2 \<noteq> 1 \<or> CBS_len c' \<noteq> 0 then fail
             else let boolean = CBS_data child2 ! 0 in
               if boolean = 0 then ret False
               else if boolean = 0xff then ret True
               else fail))"

section \<open>Bit strings\<close>

definition CBS_is_valid_asn1_bitstring :: "cbs \<Rightarrow> bool" where
  "CBS_is_valid_asn1_bitstring s =
     (case CBS_get_u8 s of (None, _) \<Rightarrow> False | (Some num_unused_bits, inp) \<Rightarrow>
      if num_unused_bits > 7 then False
      else if num_unused_bits = 0 then True
      else case CBS_get_last_u8 inp of (None, _) \<Rightarrow> False | (Some last_byte, _) \<Rightarrow>
        last_byte AND (push_bit (unat num_unused_bits) 1 - 1) = 0)"

definition CBS_asn1_bitstring_has_bit :: "cbs \<Rightarrow> u32 \<Rightarrow> bool" where
  "CBS_asn1_bitstring_has_bit s bit_index =
     (if \<not> CBS_is_valid_asn1_bitstring s then False
      else let byte_num = unat (drop_bit 3 bit_index + 1);
               bit_num = unat (7 - (bit_index AND 7))
           in byte_num < CBS_len s \<and> (CBS_data s ! byte_num) AND push_bit bit_num 1 \<noteq> 0)"

end
