(* ===== verification/Base128.thy ===== *)
theory Base128
  imports Der
begin

text \<open>
  Base-128 integers, the encoding of high tag numbers and of object identifier
  components: the digits \<open>add_base128_integer\<close> of \<open>crypto/bytestring/cbb.c\<close> emits, and the
  proof that \<open>parse_base128_integer\<close> of \<open>cbs.c\<close> reads exactly those.
\<close>

section \<open>The digits\<close>

text \<open>The loop that counts the seven-bit digits of a value.\<close>

function base128_len :: "u64 \<Rightarrow> nat" where
  "base128_len copy = (if copy > 0 then Suc (base128_len (drop_bit 7 copy)) else 0)"
  by pat_completeness auto
termination
proof (relation "measure unat")
  fix v :: u64 assume "0 < v"
  then have "0 < unat v" by (simp add: unat_gt_0)
  then show "(drop_bit 7 v, v) \<in> measure unat"
    by (simp add: drop_bit_eq_div unat_div)
qed simp

declare base128_len.simps [simp del]

text \<open>The loop that emits them, \<open>i\<close> counting down from \<open>len_len - 1\<close>.\<close>

fun base128_digits :: "u64 \<Rightarrow> nat \<Rightarrow> u8 list" where
  "base128_digits v 0 = []"
| "base128_digits v (Suc i) =
     ((ucast (drop_bit (7 * i) v) AND 0x7f) OR (if i \<noteq> 0 then 0x80 else 0)) # base128_digits v i"

definition base128_bytes :: "u64 \<Rightarrow> u8 list" where
  "base128_bytes v = base128_digits v (if base128_len v = 0 then 1 else base128_len v)"

lemma length_base128_digits [simp]: "length (base128_digits v n) = n"
  by (induction n) auto

lemma drop_bit_drop_bit_add: "drop_bit m (drop_bit n (v :: u64)) = drop_bit (m + n) v"
  by (rule bit_word_eqI) (auto simp: bit_simps ac_simps)

lemma drop_bit_zero_mono: "drop_bit m (v :: u64) = 0 \<Longrightarrow> m \<le> n \<Longrightarrow> drop_bit n v = 0"
  by (metis drop_bit_drop_bit_add drop_bit_of_0 le_add_diff_inverse2)

text \<open>The count is the least number of digits that hold the value.\<close>

lemma base128_len_zero_iff: "base128_len v = 0 \<longleftrightarrow> v = 0"
  by (subst base128_len.simps) (auto simp: word_gt_0)

lemma base128_len_eq:
  "drop_bit (7 * Suc n) v = 0 \<Longrightarrow> drop_bit (7 * n) v \<noteq> 0 \<Longrightarrow> base128_len v = Suc n"
proof (induction n arbitrary: v)
  case 0
  then show ?case
    by (subst base128_len.simps) (auto simp: word_gt_0 base128_len_zero_iff)
next
  case (Suc n)
  then have "base128_len (drop_bit 7 v) = Suc n"
    by (intro Suc.IH) (simp_all add: drop_bit_drop_bit_add algebra_simps)
  moreover have "v \<noteq> 0" using Suc.prems by auto
  ultimately show ?case by (subst base128_len.simps) (simp add: word_gt_0)
qed

lemma drop_bit_base128_len: "drop_bit (7 * base128_len v) v = 0"
proof (induction v rule: base128_len.induct)
  case (1 v)
  show ?case
  proof (cases "v > 0")
    case True
    then have "drop_bit (7 * base128_len (drop_bit 7 v)) (drop_bit 7 v) = 0" by (rule 1)
    then show ?thesis using True
      by (subst base128_len.simps) (simp add: drop_bit_drop_bit_add algebra_simps)
  qed (simp add: word_gt_0)
qed

lemma base128_len_least: "n < base128_len v \<Longrightarrow> drop_bit (7 * n) v \<noteq> 0"
proof (induction v arbitrary: n rule: base128_len.induct)
  case (1 v)
  then have v: "v > 0" by (metis base128_len.simps not_less_zero)
  show ?case
  proof (cases n)
    case 0 then show ?thesis using v by (simp add: word_gt_0)
  next
    case (Suc m)
    then have "m < base128_len (drop_bit 7 v)" using "1.prems" v by (metis Suc_less_eq base128_len.simps)
    from "1.IH"[OF v this] show ?thesis by (simp add: Suc drop_bit_drop_bit_add algebra_simps)
  qed
qed

section \<open>Reading them back\<close>

lemma digit_continue: "((x :: u8) AND 0x7f OR 0x80) AND 0x80 \<noteq> 0"
  by (simp add: and_high_bit bit_simps bit_literals)

lemma digit_stop: "((x :: u8) AND 0x7f) AND 0x80 = 0"
  by (simp add: and_high_bit bit_simps bit_literals)

lemma septet_not_flag: "(x :: u8) AND 0x7f \<noteq> 0x80"
proof
  assume "x AND 0x7f = 0x80"
  then show False using digit_stop[of x] by simp
qed

lemma digit_value: "((x :: u8) AND 0x7f OR 0x80) AND 0x7f = x AND 0x7f"
  by (rule bit_word_eqI) (auto simp: bit_simps bit_literals)

lemma digit_restore: "(b :: u8) AND 0x80 \<noteq> 0 \<Longrightarrow> (b AND 0x7f) OR 0x80 = b"
  by (rule bit_word_eqI) (auto simp: and_high_bit bit_simps bit_literals nat_less_le)

lemma digit_restore0: "(b :: u8) AND 0x80 = 0 \<Longrightarrow> b AND 0x7f = b"
  by (rule bit_word_eqI) (auto simp: and_high_bit bit_simps bit_literals less_Suc_eq numeral_eq_Suc)

lemma push_drop_septet: "push_bit 7 (drop_bit 7 w) OR ucast ((ucast w :: u8) AND 0x7f) = (w :: u64)"
proof (rule bit_word_eqI)
  fix i assume "i < LENGTH(64)"
  then show "bit (push_bit 7 (drop_bit 7 w) OR ucast ((ucast w :: u8) AND 0x7f)) i = bit w i"
    by (cases "i < 7") (auto simp: bit_simps bit_literals)
qed

lemma shift_in_digit:
  "push_bit 7 (drop_bit (7 * Suc i) v) OR ucast ((ucast (drop_bit (7 * i) v) :: u8) AND 0x7f) =
   drop_bit (7 * i) (v :: u64)"
  using push_drop_septet[of "drop_bit (7 * i) v"] by (simp add: drop_bit_drop_bit_add)

lemma unshift_digit:
  assumes "drop_bit 57 v = (0 :: u64)"
  shows "drop_bit 7 (push_bit 7 v OR ucast ((b :: u8) AND 0x7f)) = v"
    and "ucast (push_bit 7 v OR ucast (b AND 0x7f)) AND 0x7f = b AND 0x7f"
proof -
  have "\<not> bit v i" if "57 \<le> i" for i
    using arg_cong[OF assms, of "\<lambda>w. bit w (i - 57)"] that by (simp add: bit_drop_bit_eq)
  then show "drop_bit 7 (push_bit 7 v OR ucast (b AND 0x7f)) = v"
    by (intro bit_word_eqI) (auto simp: bit_simps bit_literals, metis not_less_eq_eq not_less)
  show "ucast (push_bit 7 v OR ucast (b AND 0x7f)) AND 0x7f = b AND 0x7f"
    by (rule bit_word_eqI) (auto simp: bit_simps bit_literals)
qed

lemma drop_57_zero: "drop_bit 57 (drop_bit (7 * Suc i) (v :: u64)) = 0"
  by (rule bit_word_eqI) (auto simp: bit_simps dest: bit_imp_le_length)

text \<open>The reader, started on the digits above \<open>i\<close>, reads the digits from \<open>i\<close> down.\<close>

lemma parse_base128_digits:
  "i = 0 \<or> drop_bit (7 * i) v \<noteq> 0 \<Longrightarrow>
   parse_base128_loop (drop_bit (7 * Suc i) v) (base128_digits v (Suc i) @ r) = (Some v, r)"
proof (induction i)
  case 0
  then show ?case using shift_in_digit[of 0 v] drop_57_zero[of 0 v]
    by (simp add: Let_def digit_stop and.assoc septet_not_flag)
next
  case (Suc i)
  let ?d = "(ucast (drop_bit (7 * Suc i) v) :: u8)"
  let ?acc = "drop_bit (7 * Suc (Suc i)) v"
  have nz: "drop_bit (7 * Suc i) v \<noteq> 0" using Suc.prems by simp
  have next_acc: "push_bit 7 ?acc OR ucast ((?d AND 0x7f OR 0x80) AND 0x7f) = drop_bit (7 * Suc i) v"
    by (simp only: digit_value shift_in_digit)
  have "\<not> (?acc = 0 \<and> ?d AND 0x7f OR 0x80 = 0x80)"
  proof
    assume z: "?acc = 0 \<and> ?d AND 0x7f OR 0x80 = 0x80"
    then have "(?d AND 0x7f OR 0x80) AND 0x7f = 0" by simp
    with next_acc z nz show False by simp
  qed
  moreover have "drop_bit (64 - 7) ?acc = 0" using drop_57_zero[of "Suc i" v] by simp
  moreover have "base128_digits v (Suc (Suc i)) = (?d AND 0x7f OR 0x80) # base128_digits v (Suc i)"
    by simp
  moreover have "drop_bit (7 * i) v \<noteq> 0" using nz drop_bit_zero_mono[of "7 * i" v "7 * Suc i"] by auto
  ultimately show ?case using Suc.IH next_acc digit_continue[of ?d]
    by (simp only: append_Cons parse_base128_loop.simps Let_def if_False if_True)
      (simp add: Suc.IH)
qed

text \<open>Whatever the reader accepts is such a run of digits, with no leading zero.\<close>

lemma parse_base128_loop_sound:
  "parse_base128_loop acc s = (Some v, r) \<Longrightarrow>
   \<exists>n. drop_bit (7 * Suc n) v = acc \<and> s = base128_digits v (Suc n) @ r \<and>
       (acc = 0 \<longrightarrow> n = 0 \<or> drop_bit (7 * n) v \<noteq> 0)"
proof (induction acc s rule: parse_base128_loop.induct)
  case (2 acc b s)
  let ?acc' = "push_bit 7 acc OR ucast (b AND 0x7f)"
  from "2.prems" have acc: "drop_bit 57 acc = 0" and lead: "\<not> (acc = 0 \<and> b = 0x80)"
    by (auto split: if_splits)
  have shift: "drop_bit 7 ?acc' = acc" and low: "ucast ?acc' AND 0x7f = b AND 0x7f"
    using acc by (rule unshift_digit)+
  show ?case
  proof (cases "b AND 0x80 = 0")
    case True
    with "2.prems" acc lead have v: "v = ?acc'" "r = s" by (auto simp: Let_def)
    have "ucast v AND 0x7f = b" using v low digit_restore0[OF True] by simp
    with v shift show ?thesis by (intro exI[of _ 0]) auto
  next
    case False
    with "2.prems" acc lead have rest: "parse_base128_loop ?acc' s = (Some v, r)" by (simp add: Let_def)
    from "2.IH"[OF _ lead refl False rest] acc obtain n where
      n: "drop_bit (7 * Suc n) v = ?acc'" "s = base128_digits v (Suc n) @ r"
      "?acc' = 0 \<longrightarrow> n = 0 \<or> drop_bit (7 * n) v \<noteq> 0" by auto
    have up: "drop_bit (7 * Suc (Suc n)) v = acc"
      using shift n(1) by (metis drop_bit_drop_bit_add mult_Suc_right)
    have digit: "(ucast (drop_bit (7 * Suc n) v) AND 0x7f) OR 0x80 = b"
      unfolding n(1) low by (rule digit_restore[OF False])
    have "drop_bit (7 * Suc n) v \<noteq> 0" if "acc = 0"
    proof
      assume "drop_bit (7 * Suc n) v = 0"
      then have "b = 0x80" using digit by simp
      with that lead show False by simp
    qed
    with up digit n(2) show ?thesis by (intro exI[of _ "Suc n"]) auto
  qed
qed simp

lemma base128_bytes_eq:
  "n = 0 \<or> drop_bit (7 * n) v \<noteq> 0 \<Longrightarrow> drop_bit (7 * Suc n) v = 0 \<Longrightarrow>
   base128_bytes v = base128_digits v (Suc n)"
proof (cases "v = 0")
  case True
  assume "n = 0 \<or> drop_bit (7 * n) v \<noteq> 0"
  with True show ?thesis by (simp add: base128_bytes_def base128_len_zero_iff)
next
  case False
  assume "n = 0 \<or> drop_bit (7 * n) v \<noteq> 0" "drop_bit (7 * Suc n) v = 0"
  with False have "base128_len v = Suc n" by (intro base128_len_eq) auto
  then show ?thesis by (simp add: base128_bytes_def)
qed

lemma base128_bytes_shape:
  obtains n where "base128_bytes v = base128_digits v (Suc n)" "drop_bit (7 * Suc n) v = 0"
    "n = 0 \<or> drop_bit (7 * n) v \<noteq> 0"
proof (cases "base128_len v")
  case 0
  then show ?thesis using that[of 0] by (simp add: base128_bytes_def base128_len_zero_iff)
next
  case (Suc n)
  show ?thesis
    using that[of n] Suc drop_bit_base128_len[of v] base128_len_least[of n v]
    by (simp add: base128_bytes_def)
qed

interpretation base128: canonical_codec base128_bytes parse_base128_integer "\<lambda>v. True"
proof unfold_locales
  fix v r
  obtain n where n: "base128_bytes v = base128_digits v (Suc n)" "drop_bit (7 * Suc n) v = 0"
    "n = 0 \<or> drop_bit (7 * n) v \<noteq> 0" by (rule base128_bytes_shape)
  then show "parse_base128_integer (base128_bytes v @ r) = (Some v, r)"
    using parse_base128_digits[of n v r] by (simp only: parse_base128_integer_def)
next
  fix s v r assume "parse_base128_integer s = (Some v, r)"
  then obtain n where "drop_bit (7 * Suc n) v = 0" "s = base128_digits v (Suc n) @ r"
    "n = 0 \<or> drop_bit (7 * n) v \<noteq> 0"
    using parse_base128_loop_sound by (fastforce simp: parse_base128_integer_def)
  then show "True \<and> s = base128_bytes v @ r" using base128_bytes_eq by simp
qed

end
