(* ===== verification/Tlv.thy ===== *)
theory Tlv
  imports Base128
begin

text \<open>
  The canonical encoding of an ASN.1 element, a tag, a length and contents, and the proof
  that the DER reader of \<open>crypto/bytestring/cbs.c\<close> accepts it and nothing else.
  The same bytes are shown to be what the builder of \<open>cbb.c\<close> writes in \<open>Cbb_Asn1\<close>.
\<close>

section \<open>Tags\<close>

text \<open>The bytes \<open>CBB_add_asn1\<close> writes for a tag: the class and the constructed bit in the
  top three bits, and the number below them or, from 31 on, in base 128 after them.\<close>

definition der_tag :: "u32 \<Rightarrow> u8 list" where
  "der_tag tag =
     (let tag_bits = ucast (drop_bit CBS_ASN1_TAG_SHIFT tag) AND 0xe0;
          tag_number = tag AND CBS_ASN1_TAG_NUMBER_MASK
      in if tag_number \<ge> 0x1f then (tag_bits OR 0x1f) # base128_bytes (ucast tag_number)
         else [tag_bits OR ucast tag_number])"

lemma tag_high_form:
  "(ucast (drop_bit 24 (t :: u32)) AND 0xe0 OR 0x1f :: u8) AND 0x1f = 0x1f"
  "push_bit 24 (ucast (ucast (drop_bit 24 t) AND 0xe0 OR 0x1f :: u8) AND 0xe0) OR
     ucast (ucast (t AND 0x1fffffff) :: u64) = t"
proof -
  show "(ucast (drop_bit 24 (t :: u32)) AND 0xe0 OR 0x1f :: u8) AND 0x1f = 0x1f"
    by (rule bit_word_eqI) (auto simp: bit_simps bit_literals)
  show "push_bit 24 (ucast (ucast (drop_bit 24 t) AND 0xe0 OR 0x1f :: u8) AND 0xe0) OR
     ucast (ucast (t AND 0x1fffffff) :: u64) = t"
  proof (rule bit_word_eqI)
    fix i assume "i < LENGTH(32)"
    then show "bit (push_bit 24 (ucast (ucast (drop_bit 24 t) AND 0xe0 OR 0x1f :: u8) AND 0xe0) OR
     ucast (ucast (t AND 0x1fffffff) :: u64) :: u32) i = bit t i"
      by (cases "i < 29") (auto simp: bit_simps bit_literals)
  qed
qed

lemma tag_low_form:
  assumes "t AND 0x1fffffff < (0x1f :: u32)"
  shows "(ucast (drop_bit 24 t) AND 0xe0 OR ucast (t AND 0x1fffffff) :: u8) AND 0x1f = ucast (t AND 0x1fffffff)"
    and "(ucast (t AND 0x1fffffff) :: u8) \<noteq> 0x1f"
    and "push_bit 24 (ucast (ucast (drop_bit 24 t) AND 0xe0 OR ucast (t AND 0x1fffffff) :: u8) AND 0xe0) OR
     ucast (ucast (t AND 0x1fffffff) :: u8) = t"
proof -
  have lt: "unat (t AND 0x1fffffff) < 0x1f" using assms by (simp add: word_less_nat_alt)
  have low: "bit (t AND 0x1fffffff) i \<Longrightarrow> i < 5" for i
    using small_bits[of "t AND 0x1fffffff" 5 i] lt by simp
  have low': "bit t i \<Longrightarrow> i < 29 \<Longrightarrow> i < 5" for i
    using low[of i] by (simp add: bit_simps bit_literals)
  show "(ucast (drop_bit 24 t) AND 0xe0 OR ucast (t AND 0x1fffffff) :: u8) AND 0x1f = ucast (t AND 0x1fffffff)"
    using low' by (intro bit_word_eqI) (force simp: bit_simps bit_literals)
  have "unat (ucast (t AND 0x1fffffff) :: u8) = unat (t AND 0x1fffffff)"
    using lt by (simp add: unsigned_ucast_eq take_bit_nat_eq_self)
  then show "(ucast (t AND 0x1fffffff) :: u8) \<noteq> 0x1f" using lt by auto
  show "push_bit 24 (ucast (ucast (drop_bit 24 t) AND 0xe0 OR ucast (t AND 0x1fffffff) :: u8) AND 0xe0) OR
     ucast (ucast (t AND 0x1fffffff) :: u8) = t"
  proof (rule bit_word_eqI)
    fix i assume "i < LENGTH(32)"
    then show "bit (push_bit 24 (ucast (ucast (drop_bit 24 t) AND 0xe0 OR ucast (t AND 0x1fffffff) :: u8) AND 0xe0) OR
       ucast (ucast (t AND 0x1fffffff) :: u8) :: u32) i = bit t i"
      using low'[of i] low'[of "i - 24"] by (cases "i < 29") (auto simp: bit_simps bit_literals)
  qed
qed

lemma tag_of_high:
  assumes b: "(b :: u8) AND 0x1f = 0x1f" and v: "unat (v :: u64) < 2 ^ 29"
  defines "tag \<equiv> push_bit 24 (ucast b AND 0xe0) OR ucast v :: u32"
  shows "ucast (tag AND 0x1fffffff) = v"
    and "ucast (drop_bit 24 tag) AND 0xe0 OR 0x1f = b"
    and "unat (tag AND 0x1fffffff) = unat v"
proof -
  have low: "bit v i \<Longrightarrow> i < 29" for i using small_bits[OF v] .
  have set: "bit b i" if "i < 5" for i
    using arg_cong[OF b, of "\<lambda>w. bit w i"] that by (simp add: bit_simps bit_literals)
  have num: "tag AND 0x1fffffff = ucast v"
    unfolding tag_def using low by (intro bit_word_eqI) (auto simp: bit_simps bit_literals)
  have "ucast (ucast v :: u32) = v"
    using low by (intro bit_word_eqI) (fastforce simp: bit_simps)
  with num show "ucast (tag AND 0x1fffffff) = v" by simp
  show "ucast (drop_bit 24 tag) AND 0xe0 OR 0x1f = b"
  proof (rule bit_word_eqI)
    fix i assume "i < LENGTH(8)"
    then show "bit (ucast (drop_bit 24 tag) AND 0xe0 OR 0x1f :: u8) i = bit b i"
      unfolding tag_def using low[of "24 + i"] set[of i]
      by (cases "i < 5") (auto simp: bit_simps bit_literals)
  qed
  show "unat (tag AND 0x1fffffff) = unat v"
    using num v by (simp add: unsigned_ucast_eq take_bit_nat_eq_self)
qed

lemma tag_of_low:
  assumes b: "(b :: u8) AND 0x1f \<noteq> 0x1f"
  defines "tag \<equiv> push_bit 24 (ucast b AND 0xe0) OR ucast (b AND 0x1f) :: u32"
  shows "unat (tag AND 0x1fffffff) < 0x1f"
    and "ucast (drop_bit 24 tag) AND 0xe0 OR ucast (tag AND 0x1fffffff) = b"
proof -
  have num: "tag AND 0x1fffffff = ucast (b AND 0x1f)"
    unfolding tag_def by (rule bit_word_eqI) (auto simp: bit_simps bit_literals)
  have "unat (b AND 0x1f) < 2 ^ 5" by (rule bits_small) (simp add: bit_simps bit_literals)
  moreover have "unat (b AND 0x1f) \<noteq> 31" using b by (simp add: word_unat_eq_iff)
  ultimately have lt: "unat (b AND 0x1f) < 31" by simp
  with num show "unat (tag AND 0x1fffffff) < 0x1f"
    by (simp add: unsigned_ucast_eq take_bit_nat_eq_self)
  show "ucast (drop_bit 24 tag) AND 0xe0 OR ucast (tag AND 0x1fffffff) = b"
  proof (rule bit_word_eqI)
    fix i assume "i < LENGTH(8)"
    then show "bit (ucast (drop_bit 24 tag) AND 0xe0 OR ucast (tag AND 0x1fffffff) :: u8) i = bit b i"
      unfolding num tag_def by (cases "i < 5") (auto simp: bit_simps bit_literals)
  qed
qed

lemma ucast_tag_number_iff: "ucast ((b :: u8) AND 0x1f) = (0x1f :: u32) \<longleftrightarrow> b AND 0x1f = 0x1f"
proof
  assume "ucast (b AND 0x1f) = (0x1f :: u32)"
  then have "ucast (ucast (b AND 0x1f) :: u32) = (ucast (0x1f :: u32) :: u8)" by simp
  moreover have "ucast (ucast (b AND 0x1f) :: u32) = b AND 0x1f"
    by (rule bit_word_eqI) (auto simp: bit_simps)
  ultimately show "b AND 0x1f = 0x1f" by simp
qed simp

lemma parse_asn1_tag_Cons:
  "parse_asn1_tag (b # s) =
     (if b AND 0x1f = 0x1f
      then sbind parse_base128_integer (\<lambda>v.
             if v > 0x1fffffff \<or> v < 0x1f then fail
             else ret (push_bit 24 (ucast b AND 0xe0) OR ucast v)) s
      else (Some (push_bit 24 (ucast b AND 0xe0) OR ucast (b AND 0x1f)), s))"
  by (simp add: parse_asn1_tag_def ucast_tag_number_iff Let_def del: push_bit_and)

lemma parse_asn1_tag_Nil [simp]: "parse_asn1_tag [] = (None, [])"
  by (simp add: parse_asn1_tag_def)

lemma der_tag_eq:
  "der_tag t =
     (if unat (t AND 0x1fffffff) \<ge> 0x1f
      then (ucast (drop_bit 24 t) AND 0xe0 OR 0x1f) # base128_bytes (ucast (t AND 0x1fffffff))
      else [ucast (drop_bit 24 t) AND 0xe0 OR ucast (t AND 0x1fffffff)])"
  by (simp add: der_tag_def Let_def word_le_nat_alt)

lemma parse_asn1_der_tag: "parse_asn1_tag (der_tag t @ r) = (Some t, r)"
proof (cases "unat (t AND 0x1fffffff) \<ge> 0x1f")
  case True
  have "unat (t AND 0x1fffffff) < 2 ^ 29" by (rule bits_small) (simp add: bit_simps bit_literals)
  then have "unat (ucast (t AND 0x1fffffff) :: u64) = unat (t AND 0x1fffffff)"
    "\<not> unat (t AND 0x1fffffff) > 0x1fffffff"
    by (simp_all add: unsigned_ucast_eq take_bit_nat_eq_self)
  then show ?thesis using True tag_high_form[of t]
    by (simp add: der_tag_eq parse_asn1_tag_Cons base128.dec_enc word_less_nat_alt)
next
  case False
  then have "t AND 0x1fffffff < 0x1f" by (simp add: word_less_nat_alt)
  from tag_low_form[OF this] False show ?thesis
    by (simp add: der_tag_eq parse_asn1_tag_Cons)
qed

lemma parse_asn1_tag_sound: "parse_asn1_tag s = (Some t, r) \<Longrightarrow> s = der_tag t @ r"
proof (cases s)
  case (Cons b h)
  assume p: "parse_asn1_tag s = (Some t, r)"
  show ?thesis
  proof (cases "b AND 0x1f = 0x1f")
    case True
    with p Cons obtain v where v: "h = base128_bytes v @ r" "\<not> v > 0x1fffffff" "\<not> v < 0x1f"
      "t = push_bit 24 (ucast b AND 0xe0) OR ucast v"
      by (auto simp: parse_asn1_tag_Cons sbind_eq_Some base128.dec_iff split: if_splits)
    then have "unat v < 2 ^ 29" "unat v \<ge> 0x1f" by (auto simp: word_less_nat_alt)
    with tag_of_high[OF True this(1)] v Cons show ?thesis by (simp add: der_tag_eq)
  next
    case False
    with p Cons have "t = push_bit 24 (ucast b AND 0xe0) OR ucast (b AND 0x1f)" "r = h"
      by (simp_all add: parse_asn1_tag_Cons)
    with tag_of_low[OF False] Cons show ?thesis by (simp add: der_tag_eq)
  qed
qed simp

interpretation tag: canonical_codec der_tag parse_asn1_tag "\<lambda>t. True"
  by unfold_locales (simp_all add: parse_asn1_der_tag parse_asn1_tag_sound)

lemma der_tag_nonempty [simp]: "der_tag t \<noteq> []"
  by (simp add: der_tag_eq)

section \<open>Lengths\<close>

text \<open>The bytes \<open>CBB_flush\<close> writes for the length of an element's contents.\<close>

definition der_len :: "nat \<Rightarrow> u8 list" where
  "der_len n =
     (if n > 0xffffff then 0x84 # be_bytes 4 (of_nat n)
      else if n > 0xffff then 0x83 # be_bytes 3 (of_nat n)
      else if n > 0xff then 0x82 # be_bytes 2 (of_nat n)
      else if n > 0x7f then 0x81 # be_bytes 1 (of_nat n)
      else [of_nat n])"

definition der_tlv :: "u32 \<Rightarrow> u8 list \<Rightarrow> u8 list" where
  "der_tlv tag contents = der_tag tag @ der_len (length contents) @ contents"

text \<open>A long-form length: the octets are as few as they can be.\<close>

definition minimal_octets :: "nat \<Rightarrow> nat \<Rightarrow> bool" where
  "minimal_octets k n \<longleftrightarrow> k \<in> {1, 2, 3, 4} \<and> 128 \<le> n \<and> 256 ^ (k - 1) \<le> n \<and> n < 256 ^ k"

lemma der_len_short: "n < 128 \<Longrightarrow> der_len n = [of_nat n]"
  by (simp add: der_len_def)

lemma der_len_long: "minimal_octets k n \<Longrightarrow> der_len n = of_nat (128 + k) # be_bytes k (of_nat n)"
  by (auto simp: minimal_octets_def der_len_def)

lemma minimal_octets_exists: "128 \<le> n \<Longrightarrow> n < 2 ^ 32 \<Longrightarrow> \<exists>k. minimal_octets k n"
proof -
  assume n: "128 \<le> n" "n < 2 ^ 32"
  consider "n < 256" | "256 \<le> n" "n < 65536" | "65536 \<le> n" "n < 16777216" | "16777216 \<le> n"
    by linarith
  then have "minimal_octets 1 n \<or> minimal_octets 2 n \<or> minimal_octets 3 n \<or> minimal_octets 4 n"
    using n by cases (simp_all add: minimal_octets_def)
  then show ?thesis by blast
qed

lemma minimal_octets_be_value:
  assumes "k \<in> {1, 2, 3, 4}" and "length d = k" and "\<not> be_value d < 128"
    and "drop_bit ((k - 1) * 8) (be_value d) \<noteq> 0"
  shows "minimal_octets k (unat (be_value d))"
proof -
  have "unat (be_value d) < 256 ^ k"
    using unat_be_value_less[of d] assms(2) by (simp add: power_mult)
  moreover have "unat (be_value d) div 2 ^ ((k - 1) * 8) \<noteq> 0"
    using assms(4) by (metis drop_bit_eq_div unat_0_iff unat_drop_bit_eq)
  then have "256 ^ (k - 1) \<le> unat (be_value d)"
    by (simp add: div_eq_0_iff power_mult mult.commute[of _ 8] not_less)
  ultimately show ?thesis using assms by (simp add: minimal_octets_def word_less_nat_alt)
qed

section \<open>Elements\<close>

text \<open>What the reader returns for an element it accepts.\<close>

definition tlv_element :: "u32 \<Rightarrow> u8 list \<Rightarrow> asn1_element" where
  "tlv_element tag contents =
     \<lparr>el_out = der_tlv tag contents, el_tag = tag,
      el_header_len = length (der_tag tag) + length (der_len (length contents)),
      el_ber_found = False\<rparr>"

lemma drop_header_tlv [simp]:
  "drop (length (der_tag t) + length (der_len (length c))) (der_tlv t c) = c"
  by (simp add: der_tlv_def)

lemma length_der_tag: "length (der_tag t) \<le> 11"
proof -
  have "base128_len v \<le> 10" for v
    using base128_len_least[of 10 v] by (simp add: not_less[symmetric]) (metis drop_bit_word_beyond
      le_add_same_cancel1 less_or_eq_imp_le numeral_le_iff)
  then show ?thesis by (auto simp: der_tag_eq base128_bytes_def)
qed

lemma length_octet_long: "minimal_octets k n \<Longrightarrow>
    (of_nat (128 + k) :: u8) AND 0x80 \<noteq> 0 \<and> unat ((of_nat (128 + k) :: u8) AND 0x7f) = k"
  by (auto simp: minimal_octets_def)

lemma octet_of_long:
  assumes "b AND 0x80 \<noteq> 0" and "unat ((b :: u8) AND 0x7f) = k" and "k \<in> {1, 2, 3, 4}"
  shows "b = of_nat (128 + k)"
proof -
  have "b AND 0x7f = of_nat k" using assms(2) by (metis of_nat_unat ucast_id unat_eq_nat_uint)
  then have "b = of_nat k OR 0x80" using digit_restore[OF assms(1)] by simp
  then show ?thesis using assms(3) by auto
qed

lemma get_element_eq: "get_element t h ber n s =
    (if length s < n then (None, s)
     else (Some \<lparr>el_out = take n s, el_tag = t, el_header_len = h, el_ber_found = ber\<rparr>, drop n s))"
  by (simp add: get_element_def sbind_def cbs_get_def)

lemma der_element_short:
  assumes "length c < 128"
  shows "CBS_get_any_asn1_element (der_tlv t c @ r) = (Some (tlv_element t c), r)"
proof -
  have "unat (of_nat (length c) :: u8) = length c"
    using assms by (simp add: unat_of_nat take_bit_nat_eq_self)
  moreover from this have "(of_nat (length c) :: u8) AND 0x80 = 0"
    using assms small_bits[of "of_nat (length c) :: u8" 7 7] by (auto simp: and_high_bit)
  ultimately show ?thesis using assms
    by (simp add: CBS_get_any_asn1_element_def cbs_get_any_asn1_element_def der_tlv_def
      parse_asn1_der_tag der_len_short CBS_len_def get_element_eq tlv_element_def Let_def)
qed

lemma der_element_long:
  assumes k: "minimal_octets k (length c)"
  shows "CBS_get_any_asn1_element (der_tlv t c @ r) = (Some (tlv_element t c), r)"
proof -
  let ?d = "be_bytes k (of_nat (length c))"
  have lt: "length c < 256 ^ k" and k4: "k \<in> {1, 2, 3, 4}" and ge: "256 ^ (k - 1) \<le> length c"
    and big: "128 \<le> length c" using k by (auto simp: minimal_octets_def)
  have u: "unat (of_nat (length c) :: u64) = length c"
    using lt k4 by (auto simp: unat_of_nat take_bit_nat_eq_self)
  have "take_bit (8 * k) (of_nat (length c) :: u64) = of_nat (length c)"
    using lt u by (intro take_bit_small) (simp add: power_mult)
  then have v: "be_value ?d = of_nat (length c)" by (simp add: be_value_bytes)
  have nz: "drop_bit ((k - 1) * 8) (of_nat (length c) :: u64) \<noteq> 0"
  proof
    assume "drop_bit ((k - 1) * 8) (of_nat (length c) :: u64) = 0"
    then have "unat (of_nat (length c) :: u64) div 2 ^ ((k - 1) * 8) = 0"
      by (metis drop_bit_eq_div unat_0 unat_drop_bit_eq)
    then show False using ge by (simp add: u div_eq_0_iff power_mult mult.commute[of _ 8])
  qed
  have "\<not> (of_nat (length c) :: u64) < 128" using big by (simp add: word_less_nat_alt u)
  moreover have "length c < 2 ^ 32"
    using lt power_increasing[of k 4 "256 :: nat"] k4 by auto
  moreover have "0 < k" "\<not> 4 < k" using k4 by auto
  ultimately show ?thesis
    using length_octet_long[OF k] nz length_der_tag[of t]
    by (simp add: CBS_get_any_asn1_element_def cbs_get_any_asn1_element_def der_tlv_def
      parse_asn1_der_tag der_len_long[OF k] CBS_len_def get_element_eq tlv_element_def Let_def
      cbs_get_u_append v u SIZE_MOD_def del: of_nat_add)
qed

lemma der_element_parse:
  "length c < 2 ^ 32 \<Longrightarrow>
   CBS_get_any_asn1_element (der_tlv t c @ r) = (Some (tlv_element t c), r)"
  using der_element_short[of c t r] der_element_long[of _ c t r] minimal_octets_exists[of "length c"]
  by (cases "length c < 128") auto

lemma der_element_sound:
  assumes "CBS_get_any_asn1_element s = (Some e, r)"
  shows "\<exists>c. length c < 2 ^ 32 \<and> s = der_tlv (el_tag e) c @ r \<and> e = tlv_element (el_tag e) c"
proof -
  from assms obtain t h1 where tag: "parse_asn1_tag s = (Some t, h1)"
    by (auto simp: CBS_get_any_asn1_element_def cbs_get_any_asn1_element_def split: prod.splits option.splits)
  then have s: "s = der_tag t @ h1" by (rule parse_asn1_tag_sound)
  from assms tag obtain b h2 where h1: "h1 = b # h2"
    by (cases h1) (auto simp: CBS_get_any_asn1_element_def cbs_get_any_asn1_element_def)
  note el = assms[unfolded CBS_get_any_asn1_element_def cbs_get_any_asn1_element_def tag h1]
  let ?hl = "Suc (length (der_tag t))"
  show ?thesis
  proof (cases "b AND 0x80 = 0")
    case True
    with el s h1 have e: "get_element t ?hl False (unat b + ?hl) s = (Some e, r)"
      by (simp add: CBS_len_def Let_def)
    have "unat (b AND 0x7f) < 2 ^ 7" by (rule bits_small) (simp add: bit_simps bit_literals)
    then have b: "unat b < 128" using digit_restore0[OF True] by simp
    let ?c = "take (unat b) h2"
    from e have len: "unat b \<le> length h2" and r: "r = drop (unat b) h2"
      and out: "e = \<lparr>el_out = der_tag t @ b # ?c, el_tag = t, el_header_len = ?hl, el_ber_found = False\<rparr>"
      by (auto simp: get_element_eq s h1 split: if_splits)
    have "der_len (length ?c) = [b]" using len b by (simp add: der_len_short min_absorb2)
    then show ?thesis using out s h1 r len b
      by (intro exI[of _ ?c]) (simp add: tlv_element_def der_tlv_def min_absorb2)
  next
    case False
    let ?k = "unat (b AND 0x7f)"
    from el False obtain d h3 where k: "?k \<noteq> 0" "\<not> 4 < ?k" and d: "h2 = d @ h3" "length d = ?k"
      "\<not> be_value d < 128" "drop_bit ((?k - 1) * 8) (be_value d) \<noteq> 0"
      and e: "get_element t (?hl + ?k) False (unat (be_value d) + ?hl + ?k) s = (Some e, r)"
      by (auto simp: CBS_len_def Let_def s h1 op_inv split: if_splits prod.splits option.splits)
    have k4: "?k \<in> {1, 2, 3, 4}" using k by auto
    have mo: "minimal_octets ?k (unat (be_value d))"
      using d by (intro minimal_octets_be_value[OF k4]) simp_all
    let ?n = "unat (be_value d)"
    let ?c = "take ?n h3"
    from e d(1,2) have len: "?n \<le> length h3" and r: "r = drop ?n h3"
      and out: "e = \<lparr>el_out = der_tag t @ b # d @ ?c, el_tag = t, el_header_len = ?hl + ?k, el_ber_found = False\<rparr>"
      by (auto simp: get_element_eq s h1 split: if_splits)
    have "be_bytes ?k (of_nat ?n) = d" using be_bytes_value[of d] d(2) k by simp
    then have "der_len ?n = b # d"
      using der_len_long[OF mo] octet_of_long[OF False refl k4] by simp
    then have "der_len (length ?c) = b # d" using len by (simp add: min_absorb2)
    moreover have "?n < 2 ^ 32"
      using mo power_increasing[of ?k 4 "256 :: nat"] by (auto simp: minimal_octets_def)
    ultimately show ?thesis using out s h1 r len d
      by (intro exI[of _ ?c]) (simp add: tlv_element_def der_tlv_def min_absorb2)
  qed
qed

section \<open>The readers built on elements\<close>

lemma der_elementE:
  assumes "CBS_get_any_asn1_element s = (Some e, r)"
  obtains t c where "length c < 2 ^ 32" "s = der_tlv t c @ r" "e = tlv_element t c"
  using der_element_sound[OF assms] by blast

lemma tlv_element_simps [simp]:
  "el_tag (tlv_element t c) = t"
  "el_out (tlv_element t c) = der_tlv t c"
  "el_header_len (tlv_element t c) = length (der_tag t) + length (der_len (length c))"
  "el_ber_found (tlv_element t c) = False"
  by (simp_all add: tlv_element_def)

lemma length_der_tlv: "length (der_tlv t c) = length (der_tag t) + length (der_len (length c)) + length c"
  by (simp add: der_tlv_def)

lemma CBS_get_any_asn1_iff:
  "CBS_get_any_asn1 s = (Some (c, t), r) \<longleftrightarrow> length c < 2 ^ 32 \<and> s = der_tlv t c @ r"
proof
  assume "CBS_get_any_asn1 s = (Some (c, t), r)"
  then show "length c < 2 ^ 32 \<and> s = der_tlv t c @ r"
    by (auto simp: CBS_get_any_asn1_def sbind_eq_Some length_der_tlv op_inv elim!: der_elementE)
next
  assume "length c < 2 ^ 32 \<and> s = der_tlv t c @ r"
  then show "CBS_get_any_asn1 s = (Some (c, t), r)"
    by (simp add: CBS_get_any_asn1_def der_element_parse length_der_tlv)
qed

lemma CBS_get_asn1_iff:
  "CBS_get_asn1 t s = (Some c, r) \<longleftrightarrow> length c < 2 ^ 32 \<and> s = der_tlv t c @ r"
proof
  assume "CBS_get_asn1 t s = (Some c, r)"
  then show "length c < 2 ^ 32 \<and> s = der_tlv t c @ r"
    by (auto simp: CBS_get_asn1_def cbs_get_asn1_def sbind_eq_Some length_der_tlv op_inv
      elim!: der_elementE split: if_splits)
next
  assume "length c < 2 ^ 32 \<and> s = der_tlv t c @ r"
  then show "CBS_get_asn1 t s = (Some c, r)"
    by (simp add: CBS_get_asn1_def cbs_get_asn1_def der_element_parse length_der_tlv)
qed

interpretation any_asn1: canonical_codec "\<lambda>(c, t). der_tlv t c" CBS_get_any_asn1 "\<lambda>(c, t). length c < 2 ^ 32"
  by unfold_locales (auto simp: CBS_get_any_asn1_iff)

interpretation asn1: canonical_codec "der_tlv t" "CBS_get_asn1 t" "\<lambda>c. length c < 2 ^ 32" for t
  by unfold_locales (auto simp: CBS_get_asn1_iff)

end
