(* ===== verification/Cbb.thy ===== *)
theory Cbb
  imports Tlv
begin

text \<open>
  The byte-string builder of \<open>crypto/bytestring/cbb.c\<close>: the buffer, the chain of pending
  length prefixes, and every operation on them.

  A \<open>CBB\<close> points to a buffer and to at most one open child, whose length prefix is pending;
  the child may have a child in turn, and all of them share the buffer. The model keeps the
  chain as the list \<open>cbb_children\<close>, outermost first, and addresses a \<open>CBB\<close> of the chain by
  its depth: \<open>0\<close> is the top-level \<open>CBB\<close>, \<open>d + 1\<close> the child of the \<open>CBB\<close> at depth \<open>d\<close>. A depth
  beyond the chain is a \<open>CBB\<close> whose \<open>base\<close> was reset to \<open>NULL\<close> when its parent was flushed.
\<close>

section \<open>State\<close>

text \<open>\<open>struct cbb_buffer_st\<close>: \<open>cb_buf\<close> is the list of the \<open>len\<close> valid bytes. \<open>cb_realloc\<close> says
  which requests the allocator grants; it is a parameter of the model.\<close>

record cbb_buffer =
  cb_buf :: "u8 list"
  cb_cap :: nat
  cb_can_resize :: bool
  cb_error :: bool
  cb_realloc :: "nat \<Rightarrow> bool"

text \<open>The fields of a child \<open>struct cbb_st\<close>; \<open>is_child\<close> is what being in the list means.\<close>

record cbb_child =
  ch_offset :: nat
  ch_pending_len_len :: nat
  ch_pending_is_asn1 :: bool

record cbb =
  cbb_base :: "cbb_buffer option"
  cbb_children :: "cbb_child list"

section \<open>Set-up\<close>

definition CBB_zero :: cbb where
  "CBB_zero = \<lparr>cbb_base = None, cbb_children = []\<rparr>"

definition CBB_BUFFER_ST_SIZE :: nat where
  "CBB_BUFFER_ST_SIZE = 32"

definition cbb_init :: "(nat \<Rightarrow> bool) \<Rightarrow> nat \<Rightarrow> (cbb, unit) op" where
  "cbb_init alloc cap st =
     (if \<not> alloc CBB_BUFFER_ST_SIZE then (None, st)
      else (Some (), st\<lparr>cbb_base := Some \<lparr>cb_buf = [], cb_cap = cap, cb_can_resize = True,
                                       cb_error = False, cb_realloc = alloc\<rparr>\<rparr>))"

definition CBB_init :: "(nat \<Rightarrow> bool) \<Rightarrow> nat \<Rightarrow> unit option \<times> cbb" where
  "CBB_init alloc initial_capacity =
     (if initial_capacity > 0 \<and> \<not> alloc initial_capacity then (None, CBB_zero)
      else cbb_init alloc initial_capacity CBB_zero)"

definition CBB_init_fixed :: "(nat \<Rightarrow> bool) \<Rightarrow> nat \<Rightarrow> unit option \<times> cbb" where
  "CBB_init_fixed alloc len =
     sbind (cbb_init alloc len)
       (\<lambda>_. modify (\<lambda>st. st\<lparr>cbb_base := map_option (\<lambda>b. b\<lparr>cb_can_resize := False\<rparr>) (cbb_base st)\<rparr>))
       CBB_zero"

definition CBB_cleanup :: "nat \<Rightarrow> cbb \<Rightarrow> cbb" where
  "CBB_cleanup d st = (if d > 0 then st else st\<lparr>cbb_base := None\<rparr>)"

section \<open>The buffer\<close>

text \<open>\<open>cbb_buffer_reserve\<close> returns the index \<open>*out\<close> points at.\<close>

definition cbb_buffer_reserve :: "nat \<Rightarrow> (cbb_buffer, nat) op" where
  "cbb_buffer_reserve n base =
     (let len = length (cb_buf base); newlen = (len + n) mod SIZE_MOD in
      if newlen < len then (None, base\<lparr>cb_error := True\<rparr>)
      else if newlen > cb_cap base then
        let newcap = (cb_cap base * 2) mod SIZE_MOD in
        if \<not> cb_can_resize base then (None, base\<lparr>cb_error := True\<rparr>)
        else let newcap' = (if newcap < cb_cap base \<or> newcap < newlen then newlen else newcap) in
          if \<not> cb_realloc base newcap' then (None, base\<lparr>cb_error := True\<rparr>)
          else (Some len, base\<lparr>cb_cap := newcap'\<rparr>)
      else (Some len, base))"

text \<open>The bytes claimed are not initialised by the code; they are zero here until the caller
  writes them, which every caller but \<open>CBB_add_space\<close> does at once.\<close>

definition cbb_buffer_add :: "nat \<Rightarrow> (cbb_buffer, nat) op" where
  "cbb_buffer_add n = sbind (cbb_buffer_reserve n) (\<lambda>out.
     sbind (modify (\<lambda>b. b\<lparr>cb_buf := cb_buf b @ replicate n 0\<rparr>)) (\<lambda>_. ret out))"

definition OPENSSL_memmove :: "u8 list \<Rightarrow> nat \<Rightarrow> nat \<Rightarrow> nat \<Rightarrow> u8 list" where
  "OPENSSL_memmove b dst src n = OPENSSL_memcpy b dst (take n (drop src b))"

text \<open>The loops \<open>buf[off + i] = v; v >>= 8\<close> for \<open>i\<close> from \<open>n - 1\<close> down to \<open>0\<close>, and what is
  left of \<open>v\<close>.\<close>

fun store_be :: "u8 list \<Rightarrow> nat \<Rightarrow> nat \<Rightarrow> u64 \<Rightarrow> u8 list \<times> u64" where
  "store_be b off 0 v = (b, v)"
| "store_be b off (Suc i) v = store_be (b[off + i := ucast v]) off i (drop_bit 8 v)"

definition cbb_buffer_add_u :: "u64 \<Rightarrow> nat \<Rightarrow> (cbb_buffer, unit) op" where
  "cbb_buffer_add_u v len_len =
     (if len_len = 0 then ret ()
      else sbind (cbb_buffer_add len_len) (\<lambda>dst base.
        case store_be (cb_buf base) dst len_len v of (b, v') \<Rightarrow>
          if v' \<noteq> 0 then (None, base\<lparr>cb_buf := b, cb_error := True\<rparr>)
          else (Some (), base\<lparr>cb_buf := b\<rparr>)))"

section \<open>Flushing\<close>

text \<open>The length octets of an ASN.1 element: how many, and the first.\<close>

definition asn1_length_form :: "nat \<Rightarrow> nat \<times> u8 \<times> nat" where
  "asn1_length_form len =
     (if len > 0xffffff then (5, 0x80 OR 4, len)
      else if len > 0xffff then (4, 0x80 OR 3, len)
      else if len > 0xff then (3, 0x80 OR 2, len)
      else if len > 0x7f then (2, 0x80 OR 1, len)
      else (1, of_nat len, 0))"

text \<open>The part of \<open>CBB_flush\<close> that writes the pending prefix of one child whose contents
  start at \<open>child_start\<close> and are \<open>len\<close> bytes long.\<close>

definition flush_prefix :: "cbb_child \<Rightarrow> nat \<Rightarrow> nat \<Rightarrow> (cbb_buffer, unit) op" where
  "flush_prefix ch child_start len = sbind
     (if ch_pending_is_asn1 ch then
        (if len > 0xfffffffe then fail
         else case asn1_length_form len of (len_len, initial_length_byte, len') \<Rightarrow>
           sbind (if len_len \<noteq> 1 then
                    sbind (cbb_buffer_add (len_len - 1)) (\<lambda>_. modify (\<lambda>b. b\<lparr>cb_buf :=
                      OPENSSL_memmove (cb_buf b) (child_start + (len_len - 1)) child_start len\<rparr>))
                  else ret ())
             (\<lambda>_. sbind (modify (\<lambda>b. b\<lparr>cb_buf := (cb_buf b)[ch_offset ch := initial_length_byte]\<rparr>))
             (\<lambda>_. ret (ch_offset ch + 1, len_len - 1, len'))))
      else ret (ch_offset ch, ch_pending_len_len ch, len))
     (\<lambda>(off, pending_len_len, len') b.
        case store_be (cb_buf b) off pending_len_len (of_nat len') of (buf', rest) \<Rightarrow>
          (if rest \<noteq> 0 then None else Some (), b\<lparr>cb_buf := buf'\<rparr>))"

text \<open>\<open>CBB_flush\<close> on a \<open>CBB\<close> with the given chain below it: the status, the buffer and the
  chain afterwards.\<close>

fun flush_chain :: "cbb_buffer \<Rightarrow> cbb_child list \<Rightarrow> bool \<times> cbb_buffer \<times> cbb_child list" where
  "flush_chain base [] = (\<not> cb_error base, base, [])"
| "flush_chain base (ch # rest) =
     (if cb_error base then (False, base, ch # rest)
      else if ch_pending_len_len ch = 0 then (True, base, ch # rest)
      else let child_start = (ch_offset ch + ch_pending_len_len ch) mod SIZE_MOD in
        case flush_chain base rest of (ok, base1, rest1) \<Rightarrow>
          if \<not> ok \<or> child_start < ch_offset ch \<or> length (cb_buf base1) < child_start
          then (False, base1\<lparr>cb_error := True\<rparr>, ch # rest1)
          else case flush_prefix ch child_start (length (cb_buf base1) - child_start) base1 of
            (None, base2) \<Rightarrow> (False, base2\<lparr>cb_error := True\<rparr>, ch # rest1)
          | (Some _, base2) \<Rightarrow> (True, base2, []))"

definition CBB_flush :: "nat \<Rightarrow> (cbb, unit) op" where
  "CBB_flush d st =
     (case cbb_base st of None \<Rightarrow> (None, st) | Some base \<Rightarrow>
      if length (cbb_children st) < d then (None, st)
      else case flush_chain base (drop d (cbb_children st)) of (ok, base', chain) \<Rightarrow>
        (if ok then Some () else None,
         st\<lparr>cbb_base := Some base', cbb_children := take d (cbb_children st) @ chain\<rparr>))"

text \<open>An operation on \<open>cbb->base\<close>.\<close>

definition on_base :: "(cbb_buffer, 'a) op \<Rightarrow> (cbb, 'a) op" where
  "on_base p st =
     (case cbb_base st of None \<Rightarrow> (None, st) | Some base \<Rightarrow>
      case p base of (x, base') \<Rightarrow> (x, st\<lparr>cbb_base := Some base'\<rparr>))"

section \<open>Finishing and inspecting\<close>

text \<open>\<open>want_data\<close> and \<open>want_len\<close> say whether \<open>out_data\<close> and \<open>out_len\<close> are not \<open>NULL\<close>.\<close>

definition CBB_finish :: "nat \<Rightarrow> bool \<Rightarrow> bool \<Rightarrow> (cbb, u8 list) op" where
  "CBB_finish d want_data want_len =
     (if d > 0 then fail
      else sbind (CBB_flush d) (\<lambda>_ st.
        case cbb_base st of None \<Rightarrow> (None, st) | Some base \<Rightarrow>
          if cb_can_resize base \<and> (\<not> want_data \<or> \<not> want_len) then (None, st)
          else (Some (cb_buf base), CBB_cleanup d st)))"

definition contents_start :: "nat \<Rightarrow> cbb \<Rightarrow> nat" where
  "contents_start d st = (case d of 0 \<Rightarrow> 0
     | Suc i \<Rightarrow> ch_offset (cbb_children st ! i) + ch_pending_len_len (cbb_children st ! i))"

text \<open>Defined, as in the code, for a \<open>CBB\<close> that has no child.\<close>

definition CBB_data :: "nat \<Rightarrow> cbb \<Rightarrow> u8 list option" where
  "CBB_data d st = (case cbb_base st of None \<Rightarrow> None | Some base \<Rightarrow>
     if length (cbb_children st) = d then Some (drop (contents_start d st) (cb_buf base)) else None)"

definition CBB_len :: "nat \<Rightarrow> cbb \<Rightarrow> nat option" where
  "CBB_len d st = (case cbb_base st of None \<Rightarrow> None | Some base \<Rightarrow>
     if length (cbb_children st) = d then Some (length (cb_buf base) - contents_start d st) else None)"

section \<open>Children\<close>

definition open_child :: "nat \<Rightarrow> cbb_child \<Rightarrow> (cbb, unit) op" where
  "open_child d ch = modify (\<lambda>st. st\<lparr>cbb_children := take d (cbb_children st) @ [ch]\<rparr>)"

definition cbb_add_length_prefixed :: "nat \<Rightarrow> nat \<Rightarrow> (cbb, unit) op" where
  "cbb_add_length_prefixed d len_len = sbind (CBB_flush d) (\<lambda>_.
     sbind (on_base (cbb_buffer_add len_len)) (\<lambda>offset.
     sbind (on_base (modify (\<lambda>b. b\<lparr>cb_buf := OPENSSL_memcpy (cb_buf b) offset (replicate len_len 0)\<rparr>))) (\<lambda>_.
     open_child d \<lparr>ch_offset = offset, ch_pending_len_len = len_len, ch_pending_is_asn1 = False\<rparr>)))"

definition CBB_add_u8_length_prefixed :: "nat \<Rightarrow> (cbb, unit) op" where
  "CBB_add_u8_length_prefixed d = cbb_add_length_prefixed d 1"

definition CBB_add_u16_length_prefixed :: "nat \<Rightarrow> (cbb, unit) op" where
  "CBB_add_u16_length_prefixed d = cbb_add_length_prefixed d 2"

definition CBB_add_u24_length_prefixed :: "nat \<Rightarrow> (cbb, unit) op" where
  "CBB_add_u24_length_prefixed d = cbb_add_length_prefixed d 3"

section \<open>Integers and bytes\<close>

definition CBB_add_u :: "nat \<Rightarrow> u64 \<Rightarrow> nat \<Rightarrow> (cbb, unit) op" where
  "CBB_add_u d v n = sbind (CBB_flush d) (\<lambda>_. on_base (cbb_buffer_add_u v n))"

definition CBB_add_u8 :: "nat \<Rightarrow> u8 \<Rightarrow> (cbb, unit) op" where
  "CBB_add_u8 d value = CBB_add_u d (ucast value) 1"

definition CBB_add_u16 :: "nat \<Rightarrow> u16 \<Rightarrow> (cbb, unit) op" where
  "CBB_add_u16 d value = CBB_add_u d (ucast value) 2"

definition CBB_add_u16le :: "nat \<Rightarrow> u16 \<Rightarrow> (cbb, unit) op" where
  "CBB_add_u16le d value = CBB_add_u16 d (CRYPTO_bswap2 value)"

definition CBB_add_u24 :: "nat \<Rightarrow> u32 \<Rightarrow> (cbb, unit) op" where
  "CBB_add_u24 d value = CBB_add_u d (ucast value) 3"

definition CBB_add_u32 :: "nat \<Rightarrow> u32 \<Rightarrow> (cbb, unit) op" where
  "CBB_add_u32 d value = CBB_add_u d (ucast value) 4"

definition CBB_add_u32le :: "nat \<Rightarrow> u32 \<Rightarrow> (cbb, unit) op" where
  "CBB_add_u32le d value = CBB_add_u32 d (CRYPTO_bswap4 value)"

definition CBB_add_u64 :: "nat \<Rightarrow> u64 \<Rightarrow> (cbb, unit) op" where
  "CBB_add_u64 d value = CBB_add_u d value 8"

definition CBB_add_u64le :: "nat \<Rightarrow> u64 \<Rightarrow> (cbb, unit) op" where
  "CBB_add_u64le d value = CBB_add_u64 d (CRYPTO_bswap8 value)"

definition CBB_add_bytes :: "nat \<Rightarrow> u8 list \<Rightarrow> (cbb, unit) op" where
  "CBB_add_bytes d data = sbind (CBB_flush d) (\<lambda>_.
     sbind (on_base (cbb_buffer_add (length data))) (\<lambda>dest.
     on_base (modify (\<lambda>b. b\<lparr>cb_buf := OPENSSL_memcpy (cb_buf b) dest data\<rparr>))))"

definition CBB_add_space :: "nat \<Rightarrow> nat \<Rightarrow> (cbb, nat) op" where
  "CBB_add_space d len = sbind (CBB_flush d) (\<lambda>_. on_base (cbb_buffer_add len))"

definition CBB_add_zeros :: "nat \<Rightarrow> nat \<Rightarrow> (cbb, unit) op" where
  "CBB_add_zeros d len = sbind (CBB_add_space d len) (\<lambda>out.
     on_base (modify (\<lambda>b. b\<lparr>cb_buf := OPENSSL_memcpy (cb_buf b) out (replicate len 0)\<rparr>)))"

definition CBB_reserve :: "nat \<Rightarrow> nat \<Rightarrow> (cbb, nat) op" where
  "CBB_reserve d len = sbind (CBB_flush d) (\<lambda>_. on_base (cbb_buffer_reserve len))"

text \<open>\<open>written\<close> is what the caller put into the reserved space.\<close>

definition CBB_did_write :: "nat \<Rightarrow> u8 list \<Rightarrow> (cbb, unit) op" where
  "CBB_did_write d written st =
     (case cbb_base st of None \<Rightarrow> (None, st) | Some base \<Rightarrow>
      let len = length (cb_buf base); newlen = (len + length written) mod SIZE_MOD in
      if length (cbb_children st) > d \<or> newlen < len \<or> newlen > cb_cap base then (None, st)
      else (Some (), st\<lparr>cbb_base := Some (base\<lparr>cb_buf := cb_buf base @ written\<rparr>)\<rparr>))"

definition CBB_discard_child :: "nat \<Rightarrow> cbb \<Rightarrow> cbb" where
  "CBB_discard_child d st =
     (if length (cbb_children st) \<le> d then st
      else st\<lparr>cbb_base := map_option (\<lambda>b. b\<lparr>cb_buf := take (ch_offset (cbb_children st ! d)) (cb_buf b)\<rparr>)
                           (cbb_base st),
              cbb_children := take d (cbb_children st)\<rparr>)"

end
