(* ===== verification/Cbb_Refine.thy ===== *)
theory Cbb_Refine
  imports Cbb
begin

text \<open>
  What the builder promises, and the proof that \<open>crypto/bytestring/cbb.c\<close> keeps it. The
  abstract state of a builder is the list of the contents of its levels, outermost first,
  with the kind of prefix each inner level will get; flushing closes the inner levels.
\<close>

section \<open>Abstract levels\<close>

datatype prefix_kind = Fixed nat | Asn1

text \<open>The prefix that describes contents of a given length, where there is one.\<close>

fun prefix_bytes :: "prefix_kind \<Rightarrow> nat \<Rightarrow> u8 list option" where
  "prefix_bytes (Fixed k) n = (if n < 256 ^ k then Some (be_bytes k (of_nat n)) else None)"
| "prefix_bytes Asn1 n = (if n \<le> 0xfffffffe then Some (der_len n) else None)"

text \<open>The contents of the outermost level once all inner levels are closed.\<close>

fun close_levels :: "u8 list list \<Rightarrow> prefix_kind list \<Rightarrow> u8 list option" where
  "close_levels [c] [] = Some c"
| "close_levels (c # cs) (k # ks) =
     (case close_levels cs ks of None \<Rightarrow> None | Some inner \<Rightarrow>
      case prefix_bytes k (length inner) of None \<Rightarrow> None | Some p \<Rightarrow> Some (c @ p @ inner))"
| "close_levels _ _ = None"

definition kind_of :: "cbb_child \<Rightarrow> prefix_kind" where
  "kind_of ch = (if ch_pending_is_asn1 ch then Asn1 else Fixed (ch_pending_len_len ch))"

text \<open>The contents of the levels of a buffer, the outermost level starting at \<open>lo\<close>.\<close>

fun level_contents :: "nat \<Rightarrow> cbb_child list \<Rightarrow> u8 list \<Rightarrow> u8 list list" where
  "level_contents lo [] buf = [drop lo buf]"
| "level_contents lo (ch # rest) buf =
     drop lo (take (ch_offset ch) buf) #
     level_contents (ch_offset ch + ch_pending_len_len ch) rest buf"

section \<open>Invariants\<close>

text \<open>The pending prefixes lie in the buffer, in order and without overlap.\<close>

fun chain_ok :: "nat \<Rightarrow> cbb_child list \<Rightarrow> nat \<Rightarrow> bool" where
  "chain_ok lo [] n = (lo \<le> n)"
| "chain_ok lo (ch # rest) n =
     (lo \<le> ch_offset ch \<and> 0 < ch_pending_len_len ch \<and> ch_pending_len_len ch < 8 \<and>
      (ch_pending_is_asn1 ch \<longrightarrow> ch_pending_len_len ch = 1) \<and>
      chain_ok (ch_offset ch + ch_pending_len_len ch) rest n)"

definition buffer_ok :: "cbb_buffer \<Rightarrow> bool" where
  "buffer_ok b \<longleftrightarrow> length (cb_buf b) \<le> cb_cap b \<and> cb_cap b < SIZE_MOD"

text \<open>The allocator never refuses, and the buffer may grow.\<close>

definition growable :: "cbb_buffer \<Rightarrow> bool" where
  "growable b \<longleftrightarrow> cb_can_resize b \<and> (\<forall>n. cb_realloc b n)"

definition same_memory :: "cbb_buffer \<Rightarrow> cbb_buffer \<Rightarrow> bool" where
  "same_memory b b' \<longleftrightarrow> cb_can_resize b' = cb_can_resize b \<and> cb_realloc b' = cb_realloc b \<and>
     (\<not> cb_can_resize b \<longrightarrow> cb_cap b' = cb_cap b)"

lemma same_memory_refl [simp]: "same_memory b b"
  by (simp add: same_memory_def)

lemma same_memory_trans: "same_memory a b \<Longrightarrow> same_memory b c \<Longrightarrow> same_memory a c"
  by (simp add: same_memory_def)

lemma same_memory_growable: "same_memory b b' \<Longrightarrow> growable b' \<longleftrightarrow> growable b"
  by (simp add: same_memory_def growable_def)

lemma same_memory_update [simp]:
  "same_memory b (b'\<lparr>cb_buf := x\<rparr>) = same_memory b b'"
  "same_memory b (b'\<lparr>cb_error := e\<rparr>) = same_memory b b'"
  by (simp_all add: same_memory_def)

lemma chain_ok_le: "chain_ok lo chs n \<Longrightarrow> lo \<le> n"
  by (induction lo chs n rule: chain_ok.induct) auto

lemma chain_ok_mono: "chain_ok lo chs n \<Longrightarrow> n \<le> m \<Longrightarrow> chain_ok lo chs m"
  by (induction lo chs n rule: chain_ok.induct) auto

section \<open>The buffer\<close>

lemma SIZE_MOD_pos [simp]: "0 < SIZE_MOD"
  by (simp add: SIZE_MOD_def)

lemma wrapped_less: "a < SIZE_MOD \<Longrightarrow> n < SIZE_MOD \<Longrightarrow> (a + n) mod SIZE_MOD < a \<longleftrightarrow> \<not> a + n < SIZE_MOD"
proof -
  assume a: "a < SIZE_MOD" "n < SIZE_MOD"
  show ?thesis
  proof (cases "a + n < SIZE_MOD")
    case False
    then have "(a + n) mod SIZE_MOD = a + n - SIZE_MOD" using a by (simp add: mod_if)
    then show ?thesis using a False by auto
  qed simp
qed

text \<open>On success the space follows the old contents, within the capacity; the capacity of a
  buffer that may not be resized never changes.\<close>

lemma cbb_buffer_reserve_Some:
  assumes "cbb_buffer_reserve n b = (Some out, b')" and "buffer_ok b" and "n < SIZE_MOD"
  shows "out = length (cb_buf b) \<and> cb_buf b' = cb_buf b \<and> cb_error b' = cb_error b \<and>
    same_memory b b' \<and> length (cb_buf b) + n \<le> cb_cap b' \<and> cb_cap b' < SIZE_MOD"
proof -
  have "length (cb_buf b) < SIZE_MOD" using assms by (simp add: buffer_ok_def)
  note wrapped_less[OF this assms(3)]
  with assms show ?thesis
    by (auto simp: cbb_buffer_reserve_def Let_def same_memory_def buffer_ok_def not_less split: if_splits)
qed

lemma cbb_buffer_reserve_None:
  "cbb_buffer_reserve n b = (None, b') \<Longrightarrow> b' = b\<lparr>cb_error := True\<rparr>"
  by (auto simp: cbb_buffer_reserve_def Let_def split: if_splits)

lemma cbb_buffer_add_Some:
  assumes "cbb_buffer_add n b = (Some out, b')" and "buffer_ok b" and "n < SIZE_MOD"
  shows "out = length (cb_buf b) \<and> cb_buf b' = cb_buf b @ replicate n 0 \<and>
    cb_error b' = cb_error b \<and> same_memory b b' \<and> buffer_ok b'"
proof -
  obtain b1 where r: "cbb_buffer_reserve n b = (Some out, b1)"
    and b': "b' = b1\<lparr>cb_buf := cb_buf b1 @ replicate n 0\<rparr>"
    using assms(1) by (auto simp: cbb_buffer_add_def op_inv)
  from cbb_buffer_reserve_Some[OF r assms(2,3)] show ?thesis
    by (simp add: b' buffer_ok_def)
qed

lemma cbb_buffer_add_None: "cbb_buffer_add n b = (None, b') \<Longrightarrow> b' = b\<lparr>cb_error := True\<rparr>"
  using cbb_buffer_reserve_None[of n b]
  by (auto simp: cbb_buffer_add_def sbind_def split: prod.splits option.splits)

lemma cbb_buffer_add_growable:
  assumes "growable b" and "buffer_ok b" and "length (cb_buf b) + n < SIZE_MOD"
  obtains b' where "cbb_buffer_add n b = (Some (length (cb_buf b)), b')"
proof -
  have "cbb_buffer_reserve n b = (Some (length (cb_buf b)), b) \<or>
    (\<exists>c. cbb_buffer_reserve n b = (Some (length (cb_buf b)), b\<lparr>cb_cap := c\<rparr>))"
    using assms by (auto simp: cbb_buffer_reserve_def Let_def growable_def)
  then show ?thesis using that by (auto simp: cbb_buffer_add_def)
qed

lemma store_be_eq:
  "length x = n \<Longrightarrow> store_be (p @ x @ q) (length p) n v = (p @ be_bytes n v @ q, drop_bit (8 * n) v)"
proof (induction n arbitrary: x q v)
  case (Suc n)
  then obtain xs y where x: "x = xs @ [y]" and xs: "length xs = n"
    by (metis length_append_singleton length_Suc_conv_rev nat.inject)
  have "drop_bit (8 * n) (drop_bit 8 v) = drop_bit (8 * Suc n) v"
    by (simp add: drop_bit_drop_bit_add add.commute)
  with Suc.IH[OF xs, of "[ucast v] @ q" "drop_bit 8 v"] show ?case
    by (simp add: x xs list_update_append)
qed simp

lemma memcpy_append: "length x = length d \<Longrightarrow>
    OPENSSL_memcpy (p @ x @ q) (length p) d = p @ d @ q"
  by (simp add: OPENSSL_memcpy_def)

section \<open>Writing one prefix\<close>

lemma drop_bit_of_nat_zero:
  assumes "n < SIZE_MOD"
  shows "drop_bit (8 * k) (of_nat n :: u64) = 0 \<longleftrightarrow> n < 256 ^ k"
proof -
  have u: "unat (of_nat n :: u64) = n"
    using assms by (simp add: unat_of_nat take_bit_nat_eq_self SIZE_MOD_def)
  have "unat (drop_bit (8 * k) (of_nat n :: u64)) = n div 256 ^ k"
    unfolding unat_drop_bit_eq u unfolding drop_bit_eq_div by (simp add: power_mult)
  then have "drop_bit (8 * k) (of_nat n :: u64) = 0 \<longleftrightarrow> n div 256 ^ k = 0"
    by (metis unat_eq_zero)
  then show ?thesis by (simp add: div_eq_0_iff)
qed

text \<open>The prefix lies at the front of the child's part of the buffer.\<close>

definition prefix_at :: "cbb_child \<Rightarrow> u8 list \<Rightarrow> u8 list \<Rightarrow> u8 list \<Rightarrow> bool" where
  "prefix_at ch p x c \<longleftrightarrow> length p = ch_offset ch \<and> length x = ch_pending_len_len ch \<and>
     (ch_pending_is_asn1 ch \<longrightarrow> length x = 1)"

lemma flush_prefix_fixed:
  assumes "prefix_at ch p x c" and "\<not> ch_pending_is_asn1 ch" and "cb_buf b = p @ x @ c"
    and "length c < SIZE_MOD"
  shows "flush_prefix ch (length p + length x) (length c) b =
    (case prefix_bytes (kind_of ch) (length c) of None \<Rightarrow> None | Some _ \<Rightarrow> Some (),
     b\<lparr>cb_buf := p @ be_bytes (length x) (of_nat (length c)) @ c\<rparr>)"
  using assms store_be_eq[of x "length x" p c "of_nat (length c)"]
    drop_bit_of_nat_zero[OF assms(4), of "length x"]
  by (simp add: flush_prefix_def prefix_at_def kind_of_def)

lemma asn1_length_form_short: "n \<le> 0x7f \<Longrightarrow> asn1_length_form n = (1, of_nat n, 0)"
  by (simp add: asn1_length_form_def)

lemma asn1_length_form_long: "minimal_octets k n \<Longrightarrow> asn1_length_form n = (k + 1, of_nat (128 + k), n)"
  by (auto simp: minimal_octets_def asn1_length_form_def)

lemma flush_prefix_asn1_short:
  assumes at: "prefix_at ch p x c" and asn1: "ch_pending_is_asn1 ch" and buf: "cb_buf b = p @ x @ c"
    and len: "length c \<le> 0x7f"
  shows "flush_prefix ch (length p + length x) (length c) b =
    (Some (), b\<lparr>cb_buf := p @ der_len (length c) @ c\<rparr>)"
proof -
  obtain z where x: "x = [z]" using at asn1 by (cases x) (auto simp: prefix_at_def)
  then show ?thesis using assms
    by (simp add: flush_prefix_def asn1_length_form_short der_len_short prefix_at_def list_update_append)
qed

lemma flush_prefix_asn1_long:
  assumes at: "prefix_at ch p x c" and asn1: "ch_pending_is_asn1 ch" and buf: "cb_buf b = p @ x @ c"
    and k: "minimal_octets k (length c)" and len: "length c \<le> 0xfffffffe"
    and add: "cbb_buffer_add k b = (Some out, b1)" and ok: "buffer_ok b"
  shows "flush_prefix ch (length p + length x) (length c) b =
    (Some (), b1\<lparr>cb_buf := p @ der_len (length c) @ c\<rparr>)"
proof -
  obtain z where x: "x = [z]" using at asn1 by (cases x) (auto simp: prefix_at_def)
  have k4: "k < SIZE_MOD" "k \<noteq> 0" "8 * k < 64" using k by (auto simp: minimal_octets_def SIZE_MOD_def)
  have b1: "cb_buf b1 = p @ z # c @ replicate k 0"
    using cbb_buffer_add_Some[OF add ok k4(1)] buf x by simp
  obtain y where move: "OPENSSL_memmove (cb_buf b1) (length p + 1 + k) (length p + 1) (length c) =
      p @ z # y @ c" and y: "length y = k"
  proof
    show "OPENSSL_memmove (cb_buf b1) (length p + 1 + k) (length p + 1) (length c) =
      p @ z # take k (c @ replicate k 0) @ c"
      by (simp add: OPENSSL_memmove_def OPENSSL_memcpy_def b1)
  qed simp
  let ?i = "of_nat (128 + k) :: u8"
  have upd: "(p @ z # y @ c)[length p := ?i] = (p @ [?i]) @ y @ c" by (simp add: list_update_append)
  have store: "store_be ((p @ [?i]) @ y @ c) (Suc (length p)) k (of_nat (length c)) =
      (p @ der_len (length c) @ c, 0)"
    using store_be_eq[OF y, of "p @ [?i]" c] drop_bit_of_nat_zero[of "length c" k] k len
    by (simp add: der_len_long[OF k] minimal_octets_def SIZE_MOD_def)
  have "ch_pending_len_len ch = Suc 0" using at asn1 by (simp add: prefix_at_def)
  then show ?thesis using assms move upd store x k4
    by (simp add: flush_prefix_def asn1_length_form_long[OF k] prefix_at_def)
qed

text \<open>What \<open>flush_prefix\<close> does, success and failure.\<close>

lemma flush_prefix_Some:
  assumes "flush_prefix ch (length p + length x) (length c) b = (Some u, b')"
    and at: "prefix_at ch p x c" and buf: "cb_buf b = p @ x @ c" and ok: "buffer_ok b"
  shows "\<exists>q. prefix_bytes (kind_of ch) (length c) = Some q \<and> cb_buf b' = p @ q @ c \<and>
    cb_error b' = cb_error b \<and> same_memory b b' \<and> buffer_ok b'"
proof (cases "ch_pending_is_asn1 ch")
  case False
  have "length c < SIZE_MOD" using ok buf by (auto simp: buffer_ok_def)
  from flush_prefix_fixed[OF at False buf this] assms False show ?thesis
    by (auto simp: kind_of_def prefix_at_def buffer_ok_def split: if_splits)
next
  case True
  then have len: "length c \<le> 0xfffffffe"
    using assms(1) by (auto simp: flush_prefix_def op_inv split: if_splits)
  show ?thesis
  proof (cases "length c \<le> 0x7f")
    case short: True
    with flush_prefix_asn1_short[OF at True buf this] assms len True at show ?thesis
      by (auto simp: kind_of_def buffer_ok_def der_len_short prefix_at_def)
  next
    case False
    then obtain k where k: "minimal_octets k (length c)"
      using minimal_octets_exists[of "length c"] len by auto
    then have "k \<noteq> 0" "k < SIZE_MOD" by (auto simp: minimal_octets_def SIZE_MOD_def)
    with assms(1) True len obtain out b1 where add: "cbb_buffer_add k b = (Some out, b1)"
      by (auto simp: flush_prefix_def asn1_length_form_long[OF k] op_inv)
    note b1 = cbb_buffer_add_Some[OF add ok \<open>k < SIZE_MOD\<close>]
    from flush_prefix_asn1_long[OF at True buf k len add ok] assms(1)
    have b': "b' = b1\<lparr>cb_buf := p @ der_len (length c) @ c\<rparr>" by simp
    have "length (p @ der_len (length c) @ c) = length (cb_buf b1)"
      using b1 buf at True by (simp add: der_len_long[OF k] prefix_at_def)
    with b1 b' True len show ?thesis by (auto simp: kind_of_def buffer_ok_def)
  qed
qed

lemma flush_prefix_growable:
  assumes "growable b" and at: "prefix_at ch p x c" and buf: "cb_buf b = p @ x @ c" and ok: "buffer_ok b"
    and q: "prefix_bytes (kind_of ch) (length c) = Some q" and "length p + length q + length c < SIZE_MOD"
  shows "\<exists>b'. flush_prefix ch (length p + length x) (length c) b = (Some (), b')"
proof (cases "ch_pending_is_asn1 ch")
  case False
  have "length c < SIZE_MOD" using ok buf by (auto simp: buffer_ok_def)
  from flush_prefix_fixed[OF at False buf this] q show ?thesis by simp
next
  case True
  then have len: "length c \<le> 0xfffffffe" and q': "q = der_len (length c)"
    using q by (auto simp: kind_of_def split: if_splits)
  show ?thesis
  proof (cases "length c \<le> 0x7f")
    case short: True
    from flush_prefix_asn1_short[OF at True buf this] show ?thesis by simp
  next
    case False
    then obtain k where k: "minimal_octets k (length c)"
      using minimal_octets_exists[of "length c"] len by auto
    have "length (cb_buf b) + k < SIZE_MOD"
      using assms(6) q' buf at True by (simp add: der_len_long[OF k] prefix_at_def)
    with cbb_buffer_add_growable[OF assms(1) ok] obtain b1
      where "cbb_buffer_add k b = (Some (length (cb_buf b)), b1)" by blast
    from flush_prefix_asn1_long[OF at True buf k len this ok] show ?thesis by simp
  qed
qed

section \<open>Flushing\<close>

lemma flush_chain_False: "flush_chain b chs = (False, b', chs') \<Longrightarrow> cb_error b'"
  by (induction chs arbitrary: b') (auto simp: Let_def split: if_splits prod.splits option.splits)

text \<open>How one child and the levels below it lie in the buffer.\<close>

lemma child_at:
  assumes "chain_ok lo (ch # rest) (length buf)"
  defines "p \<equiv> take (ch_offset ch) buf"
    and "x \<equiv> take (ch_pending_len_len ch) (drop (ch_offset ch) buf)"
  shows "prefix_at ch p x c" and "take (ch_offset ch + ch_pending_len_len ch) buf = p @ x"
    and "length p + length x = ch_offset ch + ch_pending_len_len ch"
  using assms chain_ok_le[of "ch_offset ch + ch_pending_len_len ch" rest "length buf"]
  by (auto simp: prefix_at_def take_add)

text \<open>A successful flush closes every level: the buffer holds what was there before the
  outermost level and then the closed contents.\<close>

lemma flush_chain_True:
  assumes "flush_chain b chs = (True, b', chs')" and "chain_ok lo chs (length (cb_buf b))"
    and "buffer_ok b"
  shows "chs' = [] \<and> (\<exists>c. close_levels (level_contents lo chs (cb_buf b)) (map kind_of chs) = Some c \<and>
    cb_buf b' = take lo (cb_buf b) @ c) \<and> \<not> cb_error b' \<and> same_memory b b' \<and> buffer_ok b'"
  using assms(1,2)
proof (induction chs arbitrary: lo b' chs')
  case Nil
  then show ?case using assms(3) by auto
next
  case (Cons ch rest)
  let ?s = "ch_offset ch + ch_pending_len_len ch"
  let ?p = "take (ch_offset ch) (cb_buf b)"
  let ?x = "take (ch_pending_len_len ch) (drop (ch_offset ch) (cb_buf b))"
  have rest: "chain_ok ?s rest (length (cb_buf b))" and pl: "ch_pending_len_len ch \<noteq> 0"
    and lo: "lo \<le> ch_offset ch" using Cons.prems by auto
  have s: "?s mod SIZE_MOD = ?s" using chain_ok_le[OF rest] assms(3) by (simp add: buffer_ok_def)
  obtain b1 rest1 b2 u where f: "flush_chain b rest = (True, b1, rest1)"
    and fp: "flush_prefix ch ?s (length (cb_buf b1) - ?s) b1 = (Some u, b2)"
    and out: "b' = b2" "chs' = []"
    using Cons.prems(1) s pl by (auto simp: Let_def split: if_splits prod.splits option.splits)
  from Cons.IH[OF f rest] obtain c
    where c: "close_levels (level_contents ?s rest (cb_buf b)) (map kind_of rest) = Some c"
      and b1: "cb_buf b1 = take ?s (cb_buf b) @ c" "\<not> cb_error b1" "same_memory b b1" "buffer_ok b1"
    by blast
  note at = child_at[OF Cons.prems(2)]
  have buf: "cb_buf b1 = ?p @ ?x @ c" using b1(1) at(2) by simp
  have len: "length (cb_buf b1) - ?s = length c" using at(3) by (simp add: buf)
  from flush_prefix_Some[OF fp[unfolded len, unfolded at(3)[symmetric]] at(1) buf b1(4)] obtain q
    where q: "prefix_bytes (kind_of ch) (length c) = Some q" "cb_buf b2 = ?p @ q @ c"
      "cb_error b2 = cb_error b1" "same_memory b1 b2" "buffer_ok b2" by blast
  obtain l ls where lv: "level_contents ?s rest (cb_buf b) = l # ls"
    by (cases rest) auto
  have "?p = take lo (cb_buf b) @ drop lo ?p"
    using lo by (metis append_take_drop_id min.absorb1 take_take)
  with q b1 c out show ?case by (auto intro: same_memory_trans)
qed

text \<open>With memory available, a flush fails only when the contents of a level are too long
  for the level's prefix.\<close>

lemma flush_chain_growable:
  assumes "growable b" and "\<not> cb_error b" and ok: "buffer_ok b"
    and "chain_ok lo chs (length (cb_buf b))"
    and "close_levels (level_contents lo chs (cb_buf b)) (map kind_of chs) = Some c"
    and "lo + length c < SIZE_MOD"
  shows "\<exists>b'. flush_chain b chs = (True, b', [])"
  using assms(4-6)
proof (induction chs arbitrary: lo c)
  case Nil
  then show ?case using assms by simp
next
  case (Cons ch rest)
  let ?s = "ch_offset ch + ch_pending_len_len ch"
  let ?p = "take (ch_offset ch) (cb_buf b)"
  let ?x = "take (ch_pending_len_len ch) (drop (ch_offset ch) (cb_buf b))"
  have rest: "chain_ok ?s rest (length (cb_buf b))" and pl: "ch_pending_len_len ch \<noteq> 0"
    and lo: "lo \<le> ch_offset ch" using Cons.prems by auto
  have s: "?s mod SIZE_MOD = ?s" using chain_ok_le[OF rest] ok by (simp add: buffer_ok_def)
  note at = child_at[OF Cons.prems(1)]
  obtain d q where d: "close_levels (level_contents ?s rest (cb_buf b)) (map kind_of rest) = Some d"
    and q: "prefix_bytes (kind_of ch) (length d) = Some q" and c: "c = drop lo ?p @ q @ d"
    using Cons.prems(2) by (auto split: option.splits)
  have "length q \<ge> ch_pending_len_len ch" using q Cons.prems(1)
    by (auto simp: kind_of_def der_len_def split: if_splits)
  moreover have "ch_offset ch + length q + length d < SIZE_MOD" using Cons.prems(3) c lo at(3)
    chain_ok_le[OF rest] by simp
  ultimately obtain b1 where f: "flush_chain b rest = (True, b1, [])"
    using Cons.IH[OF rest d] by auto
  from flush_chain_True[OF f rest ok] d have b1: "cb_buf b1 = take ?s (cb_buf b) @ d"
    "\<not> cb_error b1" "same_memory b b1" "buffer_ok b1" by auto
  have buf: "cb_buf b1 = ?p @ ?x @ d" using b1(1) at(2) by simp
  have len: "length (cb_buf b1) - ?s = length d" using at(3) by (simp add: buf)
  have "length ?p + length q + length d < SIZE_MOD"
    using \<open>ch_offset ch + length q + length d < SIZE_MOD\<close> by simp
  from flush_prefix_growable[OF _ at(1) buf b1(4) q this] obtain b2
    where "flush_prefix ch ?s (length d) b1 = (Some (), b2)"
    using same_memory_growable[OF b1(3)] assms(1) at(3) by auto
  then show ?case using assms(2) f s pl len at(3) by (simp add: Let_def buf)
qed

section \<open>The levels of a builder\<close>

type_synonym levels = "u8 list list \<times> prefix_kind list"

definition levels :: "cbb \<Rightarrow> levels" where
  "levels st = (level_contents 0 (cbb_children st)
      (case cbb_base st of None \<Rightarrow> [] | Some b \<Rightarrow> cb_buf b), map kind_of (cbb_children st))"

definition cbb_ok :: "cbb \<Rightarrow> bool" where
  "cbb_ok st \<longleftrightarrow> (case cbb_base st of None \<Rightarrow> False
     | Some b \<Rightarrow> buffer_ok b \<and> chain_ok 0 (cbb_children st) (length (cb_buf b)))"

definition cbb_keeps :: "cbb \<Rightarrow> cbb \<Rightarrow> bool" where
  "cbb_keeps st st' \<longleftrightarrow> (case (cbb_base st, cbb_base st') of
     (Some b, Some b') \<Rightarrow> same_memory b b' \<and> (cb_error b' \<longrightarrow> cb_error b) | _ \<Rightarrow> False)"

fun kind_size :: "prefix_kind \<Rightarrow> nat" where
  "kind_size (Fixed k) = k"
| "kind_size Asn1 = 1"

definition levels_size :: "levels \<Rightarrow> nat" where
  "levels_size l = sum_list (map length (fst l)) + sum_list (map kind_size (snd l))"

definition cbb_room :: "cbb \<Rightarrow> levels \<Rightarrow> bool" where
  "cbb_room st l \<longleftrightarrow> (case cbb_base st of None \<Rightarrow> False
     | Some b \<Rightarrow> growable b \<and> \<not> cb_error b \<and> levels_size l < SIZE_MOD)"

abbreviation cbb_implements :: "(cbb, 'a) op \<Rightarrow> (levels \<Rightarrow> levels option) \<Rightarrow> bool" where
  "cbb_implements \<equiv> implements cbb_ok levels cbb_keeps cbb_room"

interpretation builder: simulation cbb_ok levels cbb_keeps cbb_room
proof
  show "cbb_ok s \<Longrightarrow> cbb_keeps s s" for s
    by (auto simp: cbb_ok_def cbb_keeps_def split: option.splits)
  show "cbb_keeps a b \<Longrightarrow> cbb_keeps b c \<Longrightarrow> cbb_keeps a c" for a b c
    by (auto simp: cbb_keeps_def split: option.splits intro: same_memory_trans)
  show "cbb_keeps s s' \<Longrightarrow> cbb_room s l \<Longrightarrow> cbb_room s' l" for s s' l
    by (auto simp: cbb_keeps_def cbb_room_def same_memory_growable split: option.splits)
qed

subsection \<open>Abstract operations\<close>

definition lv_flush :: "nat \<Rightarrow> levels \<Rightarrow> levels option" where
  "lv_flush d l = (if length (snd l) < d then None
     else map_option (\<lambda>c. (take d (fst l) @ [c], take d (snd l)))
            (close_levels (drop d (fst l)) (drop d (snd l))))"

definition lv_put :: "u8 list \<Rightarrow> levels \<Rightarrow> levels option" where
  "lv_put bs l = (if fst l = [] then None else Some (butlast (fst l) @ [last (fst l) @ bs], snd l))"

definition lv_push :: "prefix_kind \<Rightarrow> levels \<Rightarrow> levels option" where
  "lv_push k l = Some (fst l @ [[]], snd l @ [k])"

definition lv_append :: "nat \<Rightarrow> u8 list \<Rightarrow> levels \<Rightarrow> levels option" where
  "lv_append d bs l = Option.bind (lv_flush d l) (lv_put bs)"

definition lv_open :: "nat \<Rightarrow> u8 list \<Rightarrow> prefix_kind \<Rightarrow> levels \<Rightarrow> levels option" where
  "lv_open d bs k l = Option.bind (lv_append d bs l) (lv_push k)"

subsection \<open>Splitting the chain\<close>

definition chain_start :: "nat \<Rightarrow> cbb_child list \<Rightarrow> nat" where
  "chain_start lo chs = (if chs = [] then lo else ch_offset (last chs) + ch_pending_len_len (last chs))"

lemma length_level_contents [simp]: "length (level_contents lo chs buf) = Suc (length chs)"
  by (induction lo chs buf rule: level_contents.induct) auto

lemma level_contents_not_Nil [simp]: "level_contents lo chs buf \<noteq> []"
  by (cases chs) auto

lemma chain_start_Cons [simp]:
  "chain_start lo (ch # xs) = chain_start (ch_offset ch + ch_pending_len_len ch) xs"
  by (simp add: chain_start_def)

lemma chain_start_Nil [simp]: "chain_start lo [] = lo"
  by (simp add: chain_start_def)

lemma chain_ok_append: "chain_ok lo (xs @ ys) n \<longleftrightarrow>
    chain_ok lo xs (chain_start lo xs) \<and> chain_ok (chain_start lo xs) ys n"
  by (induction xs arbitrary: lo) auto

lemma chain_ok_start: "chain_ok lo xs n \<Longrightarrow> chain_ok lo xs (chain_start lo xs) \<and> chain_start lo xs \<le> n"
  using chain_ok_append[of lo xs "[]" n] by simp

lemma drop_level_contents:
  "drop (length xs) (level_contents lo (xs @ ys) buf) = level_contents (chain_start lo xs) ys buf"
  by (induction xs arbitrary: lo) auto

text \<open>Only the innermost level depends on what follows its start.\<close>

lemma level_contents_replace:
  assumes "chain_ok lo xs (chain_start lo xs)" and "chain_start lo xs \<le> length buf"
  shows "level_contents lo xs (take (chain_start lo xs) buf @ c) =
    take (length xs) (level_contents lo (xs @ ys) buf) @ [c]"
  using assms
proof (induction xs arbitrary: lo)
  case (Cons ch xs)
  let ?s = "ch_offset ch + ch_pending_len_len ch"
  have "chain_ok ?s xs (chain_start ?s xs)" using Cons.prems by simp
  moreover from chain_ok_le[OF this] have "ch_offset ch \<le> chain_start ?s xs" by simp
  ultimately show ?case using Cons.IH[of ?s] Cons.prems by simp
qed simp

lemma level_contents_put:
  assumes "chain_ok lo xs (length buf)"
  shows "level_contents lo xs (buf @ c) =
    butlast (level_contents lo xs buf) @ [last (level_contents lo xs buf) @ c]"
  using assms
proof (induction xs arbitrary: lo)
  case (Cons ch xs)
  let ?s = "ch_offset ch + ch_pending_len_len ch"
  have "chain_ok ?s xs (length buf)" using Cons.prems by simp
  moreover from chain_ok_le[OF this] have "ch_offset ch \<le> length buf" by simp
  ultimately show ?case using Cons.IH[of ?s] Cons.prems by simp
qed simp

lemma levels_size_eq: "chain_ok lo chs (length buf) \<Longrightarrow>
    lo + levels_size (level_contents lo chs buf, map kind_of chs) = length buf"
proof (induction chs arbitrary: lo)
  case (Cons ch chs)
  let ?s = "ch_offset ch + ch_pending_len_len ch"
  have "chain_ok ?s chs (length buf)" "lo \<le> ch_offset ch" using Cons.prems by simp_all
  with Cons.IH[of ?s] chain_ok_le[of ?s chs "length buf"] Cons.prems show ?case
    by (auto simp: levels_size_def kind_of_def)
qed (simp add: levels_size_def)

subsection \<open>Algebra of the abstract operations\<close>

lemma close_levels_length: "close_levels cs ks = Some c \<Longrightarrow> length cs = Suc (length ks)"
  by (induction cs ks arbitrary: c rule: close_levels.induct) (auto split: option.splits)

lemma prefix_bytes_size: "prefix_bytes k n = Some p \<Longrightarrow> kind_size k \<le> length p"
  by (cases k) (auto simp: der_len_def split: if_splits)

lemma close_levels_size: "close_levels cs ks = Some c \<Longrightarrow> levels_size (cs, ks) \<le> length c"
proof (induction cs ks arbitrary: c rule: close_levels.induct)
  case (2 c0 cs k ks)
  then obtain inner p where "close_levels cs ks = Some inner"
    "prefix_bytes k (length inner) = Some p" "c = c0 @ p @ inner" by (auto split: option.splits)
  with 2(1)[of inner] prefix_bytes_size[of k "length inner" p] show ?case
    by (simp add: levels_size_def)
qed (auto simp: levels_size_def)

lemma lv_flush_eq_Some: "lv_flush d l = Some l' \<longleftrightarrow> d \<le> length (snd l) \<and>
    (\<exists>c. close_levels (drop d (fst l)) (drop d (snd l)) = Some c \<and>
       l' = (take d (fst l) @ [c], take d (snd l)))"
  by (auto simp: lv_flush_def)

lemma lv_flush_fst:
  assumes "lv_flush d l = Some l'"
  shows "d < length (fst l)"
  using assms close_levels_length by (fastforce simp: lv_flush_eq_Some)

lemma lv_flush_idem: "lv_flush d l = Some l' \<Longrightarrow> lv_flush d l' = Some l'"
  using lv_flush_fst[of d l l'] by (auto simp: lv_flush_eq_Some min_absorb2)

lemma lv_append_alt: "lv_append d bs l = (if length (snd l) < d then None
     else map_option (\<lambda>c. (take d (fst l) @ [c @ bs], take d (snd l)))
            (close_levels (drop d (fst l)) (drop d (snd l))))"
  by (cases "close_levels (drop d (fst l)) (drop d (snd l))")
    (simp_all add: lv_append_def lv_flush_def lv_put_def)

lemma lv_flush_eq_append: "lv_append d [] = lv_flush d"
  by (rule ext) (simp add: lv_append_alt lv_flush_def)

lemma lv_append_eq_Some: "lv_append d bs l = Some l' \<longleftrightarrow> d \<le> length (snd l) \<and>
    (\<exists>c. close_levels (drop d (fst l)) (drop d (snd l)) = Some c \<and>
       l' = (take d (fst l) @ [c @ bs], take d (snd l)))"
  by (auto simp: lv_append_alt)

lemma lv_append_None: "lv_append d bs l = None \<longleftrightarrow> lv_flush d l = None"
  by (simp add: lv_append_alt lv_flush_def)

lemma lv_append_append: "Option.bind (lv_append d bs l) (lv_append d cs) = lv_append d (bs @ cs) l"
proof (cases "lv_append d bs l")
  case None
  then have "lv_append d (bs @ cs) l = None" by (simp only: lv_append_None)
  then show ?thesis using None by simp
next
  case (Some l')
  then obtain c where c: "d \<le> length (snd l)" "close_levels (drop d (fst l)) (drop d (snd l)) = Some c"
    "l' = (take d (fst l) @ [c @ bs], take d (snd l))" by (auto simp: lv_append_eq_Some)
  have "d < length (fst l)" using close_levels_length[OF c(2)] c(1) by simp
  then have "lv_append d cs l' = Some (take d (fst l) @ [c @ bs @ cs], take d (snd l))"
    using c(1,3) by (simp add: lv_append_eq_Some min_absorb2)
  moreover have "lv_append d (bs @ cs) l = Some (take d (fst l) @ [c @ bs @ cs], take d (snd l))"
    using c(1,2) by (simp add: lv_append_eq_Some)
  ultimately show ?thesis using Some by simp
qed

lemma each_append: "each (\<lambda>b. lv_append d (f b)) (x # xs) l = lv_append d (concat (map f (x # xs))) l"
proof (induction xs arbitrary: x l)
  case Nil
  then show ?case by (cases "lv_append d (f x) l") auto
next
  case (Cons y xs)
  have "each (\<lambda>b. lv_append d (f b)) (x # y # xs) l =
      Option.bind (lv_append d (f x) l) (lv_append d (concat (map f (y # xs))))"
    unfolding each.simps(2)[of _ x] using Cons[of y] by presburger
  then show ?case by (simp add: lv_append_append)
qed

lemma lv_flush_size: "lv_flush d l = Some l' \<Longrightarrow> levels_size l \<le> levels_size l'"
proof -
  assume "lv_flush d l = Some l'"
  then obtain c where c: "close_levels (drop d (fst l)) (drop d (snd l)) = Some c"
    "l' = (take d (fst l) @ [c], take d (snd l))" by (auto simp: lv_flush_eq_Some)
  have "levels_size l = levels_size (take d (fst l), take d (snd l)) +
      levels_size (drop d (fst l), drop d (snd l))"
    using sum_list_append[of "map length (take d (fst l))" "map length (drop d (fst l))"]
      sum_list_append[of "map kind_size (take d (snd l))" "map kind_size (drop d (snd l))"]
    by (simp add: levels_size_def del: sum_list_append map_append flip: map_append)
  with close_levels_size[OF c(1)] c(2) show ?thesis by (simp add: levels_size_def)
qed

lemma lv_put_size: "lv_put bs l = Some l' \<Longrightarrow> levels_size l' = levels_size l + length bs"
  by (cases "fst l" rule: rev_cases) (auto simp: lv_put_def levels_size_def)

section \<open>Operations implement their specifications\<close>

lemma cbb_okE:
  assumes "cbb_ok st"
  obtains b where "cbb_base st = Some b" "buffer_ok b" "chain_ok 0 (cbb_children st) (length (cb_buf b))"
  using assms by (auto simp: cbb_ok_def split: option.splits)

lemma fst_levels: "cbb_base st = Some b \<Longrightarrow> fst (levels st) = level_contents 0 (cbb_children st) (cb_buf b)"
  and snd_levels: "snd (levels st) = map kind_of (cbb_children st)"
  by (simp_all add: levels_def)

lemma levels_size_levels:
  "cbb_base st = Some b \<Longrightarrow> cbb_ok st \<Longrightarrow> levels_size (levels st) = length (cb_buf b)"
  using levels_size_eq[of 0 "cbb_children st" "cb_buf b"] by (simp add: levels_def cbb_ok_def)

text \<open>Flushing the \<open>CBB\<close> at depth \<open>d\<close> closes everything inside it.\<close>

lemma CBB_flush_implements: "cbb_implements (CBB_flush d) (lv_flush d)"
proof (rule implementsI)
  fix st :: cbb and u :: unit and st' assume "cbb_ok st" and f: "CBB_flush d st = (Some u, st')"
  then obtain b where b: "cbb_base st = Some b" "buffer_ok b"
    "chain_ok 0 (cbb_children st) (length (cb_buf b))" by (rule_tac cbb_okE)
  let ?xs = "take d (cbb_children st)" and ?ys = "drop d (cbb_children st)"
  let ?s = "chain_start 0 ?xs"
  from f b obtain b' chs where c: "d \<le> length (cbb_children st)" "flush_chain b ?ys = (True, b', chs)"
    "st' = st\<lparr>cbb_base := Some b', cbb_children := ?xs @ chs\<rparr>"
    by (auto simp: CBB_flush_def split: if_splits prod.splits)
  have ok: "chain_ok 0 ?xs ?s" "chain_ok ?s ?ys (length (cb_buf b))"
    using b(3) chain_ok_append[of 0 ?xs ?ys] by auto
  from flush_chain_True[OF c(2) ok(2) b(2)] obtain i where i: "chs = []"
    "close_levels (level_contents ?s ?ys (cb_buf b)) (map kind_of ?ys) = Some i"
    "cb_buf b' = take ?s (cb_buf b) @ i" "\<not> cb_error b'" "same_memory b b'" "buffer_ok b'" by blast
  note s = chain_ok_le[OF ok(2)]
  have len: "length ?xs = d" using c(1) by simp
  have "fst (levels st') = take d (fst (levels st)) @ [i]"
    using level_contents_replace[OF ok(1) s, of i ?ys] c(1,3) i(1,3) b(1)
    by (simp add: levels_def min_absorb2)
  moreover have "close_levels (drop d (fst (levels st))) (drop d (snd (levels st))) = Some i"
    using i(2) drop_level_contents[of ?xs 0 ?ys "cb_buf b"] len b(1)
    by (simp add: levels_def drop_map)
  ultimately have "lv_flush d (levels st) = Some (levels st')"
    using c i(1) by (auto simp: lv_flush_eq_Some levels_def take_map intro!: prod_eqI)
  moreover have "cbb_ok st'"
    using c i ok(1) s chain_ok_mono[OF ok(1)] by (simp add: cbb_ok_def)
  ultimately show "lv_flush d (levels st) = Some (levels st') \<and> cbb_ok st' \<and> cbb_keeps st st'"
    using c i b(1) by (simp add: cbb_keeps_def)
next
  fix st l assume "cbb_ok st" and l: "lv_flush d (levels st) = Some l" and room: "cbb_room st l"
  then obtain b where b: "cbb_base st = Some b" "buffer_ok b"
    "chain_ok 0 (cbb_children st) (length (cb_buf b))" by (rule_tac cbb_okE)
  let ?xs = "take d (cbb_children st)" and ?ys = "drop d (cbb_children st)"
  let ?s = "chain_start 0 ?xs"
  have ok: "chain_ok 0 ?xs ?s" "chain_ok ?s ?ys (length (cb_buf b))"
    using b(3) chain_ok_append[of 0 ?xs ?ys] by auto
  from l b obtain i where d: "d \<le> length (cbb_children st)" and
    i: "close_levels (drop d (fst (levels st))) (drop d (snd (levels st))) = Some i"
    and l': "l = (take d (fst (levels st)) @ [i], take d (snd (levels st)))"
    by (auto simp: lv_flush_eq_Some snd_levels)
  have "close_levels (level_contents ?s ?ys (cb_buf b)) (map kind_of ?ys) = Some i"
    using i drop_level_contents[of ?xs 0 ?ys "cb_buf b"] d b(1)
    by (simp add: levels_def drop_map)
  moreover have "?s + length i = levels_size l"
  proof -
    have "l = (level_contents 0 ?xs (take ?s (cb_buf b) @ i), map kind_of ?xs)"
      using level_contents_replace[OF ok(1) chain_ok_le[OF ok(2)], of i ?ys] d b(1) l'
      by (simp add: levels_def min_absorb2 take_map)
    then show ?thesis
      using levels_size_eq[of 0 ?xs "take ?s (cb_buf b) @ i"] chain_ok_mono[OF ok(1)] chain_ok_le[OF ok(2)]
      by simp
  qed
  ultimately have "\<exists>b'. flush_chain b ?ys = (True, b', [])"
    using flush_chain_growable[OF _ _ b(2) ok(2)] room b(1) by (simp add: cbb_room_def)
  then show "\<exists>u st'. CBB_flush d st = (Some u, st')"
    using b(1) d by (auto simp: CBB_flush_def)
next
  show "lv_flush d l = Some l' \<Longrightarrow> cbb_room st l' \<Longrightarrow> cbb_room st l" for st l l'
    using lv_flush_size[of d l l'] by (auto simp: cbb_room_def split: option.splits)
qed

text \<open>An operation on the buffer that appends \<open>bs\<close> to it.\<close>

definition appends :: "(cbb_buffer, 'a) op \<Rightarrow> u8 list \<Rightarrow> bool" where
  "appends p bs \<longleftrightarrow>
     (\<forall>b x b'. buffer_ok b \<and> p b = (Some x, b') \<longrightarrow>
        cb_buf b' = cb_buf b @ bs \<and> cb_error b' = cb_error b \<and> same_memory b b' \<and> buffer_ok b') \<and>
     (\<forall>b. buffer_ok b \<and> growable b \<and> length (cb_buf b) + length bs < SIZE_MOD \<longrightarrow>
        (\<exists>x b'. p b = (Some x, b')))"

lemma on_base_implements:
  assumes "appends p bs"
  shows "cbb_implements (on_base p) (lv_put bs)"
proof (rule implementsI)
  fix st x st' assume "cbb_ok st" and f: "on_base p st = (Some x, st')"
  then obtain b where b: "cbb_base st = Some b" "buffer_ok b"
    "chain_ok 0 (cbb_children st) (length (cb_buf b))" by (rule_tac cbb_okE)
  with f obtain b' where b': "p b = (Some x, b')" "st' = st\<lparr>cbb_base := Some b'\<rparr>"
    by (auto simp: on_base_def split: prod.splits)
  with assms b have c: "cb_buf b' = cb_buf b @ bs" "cb_error b' = cb_error b" "same_memory b b'"
    "buffer_ok b'" by (auto simp: appends_def)
  have "lv_put bs (levels st) = Some (levels st')"
    using level_contents_put[OF b(3), of bs] b b' c by (simp add: lv_put_def levels_def)
  then show "lv_put bs (levels st) = Some (levels st') \<and> cbb_ok st' \<and> cbb_keeps st st'"
    using b b' c chain_ok_mono[OF b(3), of "length (cb_buf b')"] by (simp add: cbb_ok_def cbb_keeps_def)
next
  fix st l assume ok: "cbb_ok st" and l: "lv_put bs (levels st) = Some l" and "cbb_room st l"
  moreover from ok obtain b where b: "cbb_base st = Some b" "buffer_ok b" by (rule cbb_okE)
  ultimately have "length (cb_buf b) + length bs < SIZE_MOD" "growable b"
    using lv_put_size[OF l] levels_size_levels[OF b(1) ok] by (simp_all add: cbb_room_def)
  with assms b(2) have "\<exists>x b'. p b = (Some x, b')" by (simp add: appends_def)
  then show "\<exists>x st'. on_base p st = (Some x, st')" using b(1) by (auto simp: on_base_def)
next
  show "lv_put bs l = Some l' \<Longrightarrow> cbb_room st l' \<Longrightarrow> cbb_room st l" for st l l'
    using lv_put_size[of bs l l'] by (auto simp: cbb_room_def split: option.splits)
qed

lemma on_base_bind: "on_base (sbind p f) = sbind (on_base p) (\<lambda>x. on_base (f x))"
  by (rule ext) (auto simp: on_base_def sbind_def split: option.splits prod.splits)

lemma append_implements:
  assumes "appends p bs"
  shows "cbb_implements (sbind (CBB_flush d) (\<lambda>_. on_base p)) (lv_append d bs)"
  by (rule builder.bind_both[OF CBB_flush_implements on_base_implements[OF assms]])
    (simp add: lv_append_def)

subsection \<open>Appending\<close>

lemma appendsI:
  assumes "\<And>b x b'. buffer_ok b \<Longrightarrow> p b = (Some x, b') \<Longrightarrow>
      cb_buf b' = cb_buf b @ bs \<and> cb_error b' = cb_error b \<and> same_memory b b' \<and> buffer_ok b'"
    and "\<And>b. buffer_ok b \<Longrightarrow> growable b \<Longrightarrow> length (cb_buf b) + length bs < SIZE_MOD \<Longrightarrow>
      \<exists>x b'. p b = (Some x, b')"
  shows "appends p bs"
  using assms by (auto simp: appends_def)

text \<open>Claiming \<open>n\<close> bytes and filling them.\<close>

lemma appends_fill:
  assumes n: "n < SIZE_MOD" "length bs = n"
    and f: "\<And>p base. cb_buf base = p @ replicate n 0 \<Longrightarrow>
      \<exists>y. f (length p) base = (Some y, base\<lparr>cb_buf := p @ bs\<rparr>)"
  shows "appends (sbind (cbb_buffer_add n) f) bs"
proof (rule appendsI)
  fix b x b' assume ok: "buffer_ok b" and "sbind (cbb_buffer_add n) f b = (Some x, b')"
  then obtain out b1 where add: "cbb_buffer_add n b = (Some out, b1)" and b': "f out b1 = (Some x, b')"
    by (auto simp: op_inv)
  note b1 = cbb_buffer_add_Some[OF add ok n(1)]
  with f[of b1 "cb_buf b"] b' n(2) show "cb_buf b' = cb_buf b @ bs \<and> cb_error b' = cb_error b \<and>
      same_memory b b' \<and> buffer_ok b'" by (auto simp: buffer_ok_def)
next
  fix b assume ok: "buffer_ok b" "growable b" "length (cb_buf b) + length bs < SIZE_MOD"
  then obtain b1 where add: "cbb_buffer_add n b = (Some (length (cb_buf b)), b1)"
    using cbb_buffer_add_growable[of b n] n(2) by blast
  with f[of b1 "cb_buf b"] cbb_buffer_add_Some[OF add ok(1) n(1)]
  show "\<exists>x b'. sbind (cbb_buffer_add n) f b = (Some x, b')" by auto
qed

lemma appends_add:
  assumes "n < SIZE_MOD"
  shows "appends (cbb_buffer_add n) (replicate n 0)"
proof (rule appendsI)
  fix b assume "buffer_ok b" "growable b" "length (cb_buf b) + length (replicate n (0::u8)) < SIZE_MOD"
  then show "\<exists>x b'. cbb_buffer_add n b = (Some x, b')"
    using cbb_buffer_add_growable[of b n] by (metis length_replicate)
qed (use cbb_buffer_add_Some assms in blast)

lemma appends_memcpy:
  "length bs < SIZE_MOD \<Longrightarrow> appends (sbind (cbb_buffer_add (length bs)) (\<lambda>dest.
    modify (\<lambda>b. b\<lparr>cb_buf := OPENSSL_memcpy (cb_buf b) dest bs\<rparr>))) bs"
  using memcpy_append[of "replicate (length bs) 0" bs _ "[]"] by (intro appends_fill) simp_all

lemma appends_ret: "appends (ret x) []"
  by (rule appendsI) (auto simp: op_inv)

lemma appends_add_u:
  assumes "n < SIZE_MOD" and "drop_bit (8 * n) v = 0"
  shows "appends (cbb_buffer_add_u v n) (be_bytes n v)"
proof (cases "n = 0")
  case True
  have "cbb_buffer_add_u v 0 = ret ()" by (simp add: cbb_buffer_add_u_def)
  then show ?thesis using appends_ret True by simp
next
  case False
  have store: "store_be (p @ replicate n 0) (length p) n v = (p @ be_bytes n v, 0)" for p
    using store_be_eq[of "replicate n 0" n p "[]" v] assms(2) by simp
  show ?thesis unfolding cbb_buffer_add_u_def if_not_P[OF False]
    by (rule appends_fill) (use assms store in simp_all)
qed

text \<open>A value too wide for the field fails and marks the buffer.\<close>

lemma cbb_buffer_add_u_wide:
  assumes "n \<noteq> 0" and "drop_bit (8 * n) v \<noteq> 0" and "buffer_ok b" and "n < SIZE_MOD"
  shows "\<exists>b'. cbb_buffer_add_u v n b = (None, b') \<and> cb_error b'"
proof (cases "cbb_buffer_add n b")
  case (Pair r b1)
  show ?thesis
  proof (cases r)
    case None
    then show ?thesis using Pair cbb_buffer_add_None[of n b b1] assms(1)
      by (simp add: cbb_buffer_add_u_def)
  next
    case (Some out)
    with cbb_buffer_add_Some[of n b out b1] assms Pair have "out = length (cb_buf b)"
      "cb_buf b1 = cb_buf b @ replicate n 0" by auto
    with store_be_eq[of "replicate n 0" n "cb_buf b" "[]" v] assms(1,2) Pair Some show ?thesis
      by (simp add: cbb_buffer_add_u_def)
  qed
qed

end
