(* ===== verification/Cbb_Ops.thy ===== *)
theory Cbb_Ops
  imports Cbb_Refine
begin

text \<open>
  Every operation of the builder implements its specification on levels: the ones that
  append, the ones that open a child with a pending prefix, and the ones that finish or
  discard.
\<close>

section \<open>Appending\<close>

lemma CBB_add_bytes_implements:
  assumes "length bs < SIZE_MOD"
  shows "cbb_implements (CBB_add_bytes d bs) (lv_append d bs)"
  using append_implements[OF appends_memcpy[OF assms]] by (simp add: CBB_add_bytes_def on_base_bind)

lemma CBB_add_u_implements:
  assumes "n < SIZE_MOD" and "drop_bit (8 * n) v = 0"
  shows "cbb_implements (CBB_add_u d v n) (lv_append d (be_bytes n v))"
  using append_implements[OF appends_add_u[OF assms]] by (simp add: CBB_add_u_def)

lemma CBB_add_space_implements:
  "n < SIZE_MOD \<Longrightarrow> cbb_implements (CBB_add_space d n) (lv_append d (replicate n 0))"
  unfolding CBB_add_space_def by (rule append_implements[OF appends_add])

lemma CBB_add_zeros_eq:
  "CBB_add_zeros d n = sbind (CBB_flush d) (\<lambda>_. on_base (sbind (cbb_buffer_add n)
     (\<lambda>out. modify (\<lambda>b. b\<lparr>cb_buf := OPENSSL_memcpy (cb_buf b) out (replicate n 0)\<rparr>))))"
  by (simp add: CBB_add_zeros_def CBB_add_space_def on_base_bind sbind_assoc)

lemma CBB_add_zeros_implements:
  assumes "n < SIZE_MOD"
  shows "cbb_implements (CBB_add_zeros d n) (lv_append d (replicate n 0))"
  using append_implements[OF appends_memcpy[of "replicate n 0"]] assms by (simp add: CBB_add_zeros_eq)

lemma drop_bit_ucast: "LENGTH('a::len) \<le> n \<Longrightarrow> drop_bit n (ucast (w :: 'a word) :: u64) = 0"
  by (rule bit_word_eqI) (auto simp: bit_simps dest: bit_imp_le_length)

lemma small_SIZE: "n \<le> 8 \<Longrightarrow> n < SIZE_MOD"
  by (simp add: SIZE_MOD_def)

lemma ucast_up_down: "LENGTH('a::len) \<le> 64 \<Longrightarrow> ucast (ucast (w :: 'a word) :: u64) = w"
  by (rule bit_word_eqI) (auto simp: bit_simps)

lemma drop_bit_ucast_up: "drop_bit n (w :: u32) = 0 \<Longrightarrow> drop_bit n (ucast w :: u64) = 0"
proof -
  assume a: "drop_bit n w = 0"
  have "\<not> bit w (n + i)" for i using arg_cong[OF a, of "\<lambda>w. bit w i"] by (simp add: bit_simps)
  then show ?thesis by (intro bit_word_eqI) (auto simp: bit_simps)
qed

lemma CBB_add_u8_implements: "cbb_implements (CBB_add_u8 d v) (lv_append d [v])"
  using CBB_add_u_implements[of 1 "ucast v" d]
  by (simp add: CBB_add_u8_def drop_bit_ucast small_SIZE ucast_up_down)

lemma CBB_add_u16_implements: "cbb_implements (CBB_add_u16 d v) (lv_append d (be_bytes 2 (ucast v)))"
  unfolding CBB_add_u16_def by (rule CBB_add_u_implements) (simp_all add: drop_bit_ucast small_SIZE)

lemma CBB_add_u24_implements:
  "drop_bit 24 v = 0 \<Longrightarrow> cbb_implements (CBB_add_u24 d v) (lv_append d (be_bytes 3 (ucast v)))"
  unfolding CBB_add_u24_def
  by (rule CBB_add_u_implements) (simp_all add: small_SIZE drop_bit_ucast_up)

lemma CBB_add_u32_implements: "cbb_implements (CBB_add_u32 d v) (lv_append d (be_bytes 4 (ucast v)))"
  unfolding CBB_add_u32_def by (rule CBB_add_u_implements) (simp_all add: drop_bit_ucast small_SIZE)

lemma CBB_add_u64_implements: "cbb_implements (CBB_add_u64 d v) (lv_append d (be_bytes 8 v))"
  unfolding CBB_add_u64_def by (rule CBB_add_u_implements) (simp_all add: small_SIZE)

section \<open>Opening a child\<close>

text \<open>\<open>q\<close> appends \<open>bs\<close> and then \<open>n\<close> zero bytes, and returns where the zeros start.\<close>

definition returns_start :: "nat \<Rightarrow> (cbb, nat) op \<Rightarrow> bool" where
  "returns_start n q \<longleftrightarrow> (\<forall>st off st'. cbb_ok st \<and> q st = (Some off, st') \<longrightarrow>
     (\<exists>b. cbb_base st' = Some b \<and> length (cb_buf b) = off + n))"

lemma level_contents_open:
  assumes "chain_ok lo chs (length buf)" and "last (level_contents lo chs buf) = x @ replicate n 0"
    and "length buf = ch_offset ch + n" and "ch_pending_len_len ch = n" and "0 < n" and "n < 8"
    and "ch_pending_is_asn1 ch \<longrightarrow> n = 1"
  shows "level_contents lo (chs @ [ch]) buf = butlast (level_contents lo chs buf) @ [x, []] \<and>
    chain_ok lo (chs @ [ch]) (length buf)"
  using assms(1,2)
proof (induction chs arbitrary: lo)
  case Nil
  then have "length (drop lo buf) = length x + n" by simp
  then have "length buf = lo + length x + n" using Nil(1) unfolding length_drop by simp
  moreover from this have "drop lo (take (ch_offset ch) buf) = x"
    using Nil assms(3) by (simp add: drop_take)
  ultimately show ?case using assms(3-7) by simp
qed (use assms(3-7) in auto)

lemma lv_open_size: "lv_open d bs k l = Some l' \<Longrightarrow> kind_size k = n \<Longrightarrow>
    \<exists>l1. lv_append d (bs @ replicate n 0) l = Some l1 \<and> levels_size l1 = levels_size l'"
  by (fastforce simp: lv_open_def lv_push_def lv_append_eq_Some bind_eq_Some_conv levels_size_def)

lemma open_implements:
  assumes q: "cbb_implements q (lv_append d (bs @ replicate n 0))" and start: "returns_start n q"
    and n: "0 < n" "n < 8" and a: "a \<longrightarrow> n = 1" and k: "k = (if a then Asn1 else Fixed n)"
  shows "cbb_implements (sbind q (\<lambda>off. open_child d
      \<lparr>ch_offset = off, ch_pending_len_len = n, ch_pending_is_asn1 = a\<rparr>)) (lv_open d bs k)"
proof (rule implementsI)
  let ?open = "\<lambda>off. open_child d \<lparr>ch_offset = off, ch_pending_len_len = n, ch_pending_is_asn1 = a\<rparr>"
  fix st :: cbb and u :: unit and st' assume ok: "cbb_ok st" and "sbind q ?open st = (Some u, st')"
  then obtain off st1 where q1: "q st = (Some off, st1)" and st': "?open off st1 = (Some u, st')"
    by (auto simp: op_inv)
  let ?ch = "\<lparr>ch_offset = off, ch_pending_len_len = n, ch_pending_is_asn1 = a\<rparr>"
  note s1 = implementsD(1)[OF q ok q1]
  then obtain b where b: "cbb_base st1 = Some b" "buffer_ok b"
    "chain_ok 0 (cbb_children st1) (length (cb_buf b))" by (auto elim: cbb_okE)
  have off: "length (cb_buf b) = off + n"
    using start ok q1 b(1) unfolding returns_start_def by fastforce
  from s1 obtain c where c: "d \<le> length (snd (levels st))"
    "close_levels (drop d (fst (levels st))) (drop d (snd (levels st))) = Some c"
    "levels st1 = (take d (fst (levels st)) @ [c @ bs @ replicate n 0], take d (snd (levels st)))"
    by (auto simp: lv_append_eq_Some)
  have d: "length (cbb_children st1) = d"
    using arg_cong[OF c(3), of snd] c(1) snd_levels[of st1] by (metis length_map length_take min_absorb2 snd_conv)
  have e: "st' = st1\<lparr>cbb_children := cbb_children st1 @ [?ch]\<rparr>"
    using st' d by (simp add: open_child_def)
  have "level_contents 0 (cbb_children st1) (cb_buf b) = take d (fst (levels st)) @ [c @ bs @ replicate n 0]"
    using arg_cong[OF c(3), of fst] fst_levels[OF b(1)] by simp
  then have l: "level_contents 0 (cbb_children st1 @ [?ch]) (cb_buf b) = take d (fst (levels st)) @ [c @ bs, []]"
    "chain_ok 0 (cbb_children st1 @ [?ch]) (length (cb_buf b))"
    using level_contents_open[OF b(3), of "c @ bs" n ?ch] off n a by simp_all
  have "levels st' = (take d (fst (levels st)) @ [c @ bs, []], take d (snd (levels st)) @ [k])"
    using l(1) e b(1) k arg_cong[OF c(3), of snd] by (simp add: levels_def kind_of_def)
  then show "lv_open d bs k (levels st) = Some (levels st') \<and> cbb_ok st' \<and> cbb_keeps st st'"
    using c s1 e b l(2) by (simp add: lv_open_def lv_append_alt lv_push_def cbb_ok_def cbb_keeps_def)
next
  have kn: "kind_size k = n" using a k by simp
  {
    fix st l assume ok: "cbb_ok st" and "lv_open d bs k (levels st) = Some l" and "cbb_room st l"
    with lv_open_size[OF _ kn, of d bs "levels st" l] obtain l1
      where "lv_append d (bs @ replicate n 0) (levels st) = Some l1" "cbb_room st l1"
      by (auto simp: cbb_room_def split: option.splits)
    from implementsD(2)[OF q ok this]
    show "\<exists>u st'. sbind q (\<lambda>off. open_child d \<lparr>ch_offset = off, ch_pending_len_len = n,
        ch_pending_is_asn1 = a\<rparr>) st = (Some u, st')" by (auto simp: open_child_def)
  next
    fix st l l' assume "lv_open d bs k l = Some l'" and "cbb_room st l'"
    with lv_open_size[OF _ kn, of d bs l l'] obtain l1
      where "lv_append d (bs @ replicate n 0) l = Some l1" "cbb_room st l1"
      by (auto simp: cbb_room_def split: option.splits)
    then show "cbb_room st l" using implements_room[OF q] by blast
  }
qed

lemma cbb_add_length_prefixed_implements:
  assumes "0 < n" and "n < 8"
  shows "cbb_implements (cbb_add_length_prefixed d n) (lv_open d [] (Fixed n))"
proof -
  define p where "p = sbind (cbb_buffer_add n) (\<lambda>off.
    sbind (modify (\<lambda>b. b\<lparr>cb_buf := OPENSSL_memcpy (cb_buf b) off (replicate n 0)\<rparr>)) (\<lambda>_. ret off))"
  have n: "n < SIZE_MOD" using assms(2) small_SIZE by simp
  have p: "appends p (replicate n 0)"
    unfolding p_def using memcpy_append[of "replicate n 0" "replicate n 0" _ "[]"] n
    by (intro appends_fill) simp_all
  have "returns_start n (sbind (CBB_flush d) (\<lambda>_. on_base p))"
    unfolding returns_start_def
  proof (intro allI impI)
    fix st off st' assume "cbb_ok st \<and> sbind (CBB_flush d) (\<lambda>_. on_base p) st = (Some off, st')"
    then obtain u st1 where ok: "cbb_ok st" and f: "CBB_flush d st = (Some u, st1)"
      and st': "on_base p st1 = (Some off, st')" by (auto simp: op_inv)
    from implementsD(1)[OF CBB_flush_implements ok f] obtain b where b: "cbb_base st1 = Some b" "buffer_ok b"
      by (auto elim: cbb_okE)
    with st' obtain b' where b': "p b = (Some off, b')" "cbb_base st' = Some b'"
      by (auto simp: on_base_def split: prod.splits)
    then obtain b1 where "cbb_buffer_add n b = (Some off, b1)" by (auto simp: p_def op_inv)
    with cbb_buffer_add_Some[OF this b(2) n] p b b' show "\<exists>b. cbb_base st' = Some b \<and> length (cb_buf b) = off + n"
      by (fastforce simp: appends_def)
  qed
  with open_implements[OF _ this assms, of d "[]" False "Fixed n"] append_implements[OF p, of d]
  have "cbb_implements (sbind (sbind (CBB_flush d) (\<lambda>_. on_base p)) (\<lambda>off. open_child d
      \<lparr>ch_offset = off, ch_pending_len_len = n, ch_pending_is_asn1 = False\<rparr>)) (lv_open d [] (Fixed n))"
    by simp
  moreover have "cbb_add_length_prefixed d n = sbind (sbind (CBB_flush d) (\<lambda>_. on_base p)) (\<lambda>off. open_child d
      \<lparr>ch_offset = off, ch_pending_len_len = n, ch_pending_is_asn1 = False\<rparr>)"
    by (rule ext) (simp add: cbb_add_length_prefixed_def p_def sbind_def on_base_def modify_def ret_def
      split: prod.splits option.splits)
  ultimately show ?thesis by simp
qed

lemmas CBB_add_length_prefixed_implements =
  cbb_add_length_prefixed_implements[of 1 d for d, folded CBB_add_u8_length_prefixed_def, simplified]
  cbb_add_length_prefixed_implements[of 2 d for d, folded CBB_add_u16_length_prefixed_def, simplified]
  cbb_add_length_prefixed_implements[of 3 d for d, folded CBB_add_u24_length_prefixed_def, simplified]

section \<open>Discarding and finishing\<close>

definition lv_discard :: "nat \<Rightarrow> levels \<Rightarrow> levels" where
  "lv_discard d l = (take (Suc d) (fst l), take d (snd l))"

lemma level_contents_discard:
  "chain_ok lo (xs @ ch # ys) (length buf) \<Longrightarrow>
   level_contents lo xs (take (ch_offset ch) buf) =
     take (Suc (length xs)) (level_contents lo (xs @ ch # ys) buf) \<and>
   chain_ok lo xs (ch_offset ch) \<and> ch_offset ch \<le> length buf"
proof (induction xs arbitrary: lo)
  case Nil
  then show ?case using chain_ok_le by fastforce
next
  case (Cons x xs)
  let ?s = "ch_offset x + ch_pending_len_len x"
  from Cons.prems have "chain_ok ?s (xs @ ch # ys) (length buf)" by simp
  from Cons.IH[OF this] Cons.prems chain_ok_le[of ?s xs "ch_offset ch"] show ?case by simp
qed

text \<open>Discarding a child drops it, everything inside it and its pending prefix.\<close>

lemma CBB_discard_child_levels:
  assumes "cbb_ok st"
  shows "cbb_ok (CBB_discard_child d st) \<and> levels (CBB_discard_child d st) = lv_discard d (levels st)"
proof -
  from assms obtain b where b: "cbb_base st = Some b" "buffer_ok b"
    "chain_ok 0 (cbb_children st) (length (cb_buf b))" by (rule cbb_okE)
  show ?thesis
  proof (cases "length (cbb_children st) \<le> d")
    case True
    then show ?thesis using assms b(1) by (simp add: CBB_discard_child_def lv_discard_def levels_def)
  next
    case False
    let ?ch = "cbb_children st ! d"
    have split: "cbb_children st = take d (cbb_children st) @ ?ch # drop (Suc d) (cbb_children st)"
      using False by (simp add: id_take_nth_drop)
    have len: "length (take d (cbb_children st)) = d" using False by simp
    from level_contents_discard[of 0 "take d (cbb_children st)" ?ch "drop (Suc d) (cbb_children st)" "cb_buf b"]
      b(3) split len have
      "level_contents 0 (take d (cbb_children st)) (take (ch_offset ?ch) (cb_buf b)) =
        take (Suc d) (level_contents 0 (cbb_children st) (cb_buf b))"
      "chain_ok 0 (take d (cbb_children st)) (ch_offset ?ch)" "ch_offset ?ch \<le> length (cb_buf b)" by metis+
    then show ?thesis using False b
      by (simp add: CBB_discard_child_def lv_discard_def levels_def cbb_ok_def buffer_ok_def take_map min_absorb2)
  qed
qed

text \<open>Finishing returns the contents with every prefix written.\<close>

lemma CBB_finish_Some:
  assumes "cbb_ok st" and "CBB_finish 0 wd wl st = (Some out, st')"
  shows "close_levels (fst (levels st)) (snd (levels st)) = Some out \<and> cbb_base st' = None"
proof -
  from assms(2) obtain u st1 b where f: "CBB_flush 0 st = (Some u, st1)" and b: "cbb_base st1 = Some b"
    and out: "out = cb_buf b" "st' = CBB_cleanup 0 st1"
    by (auto simp: CBB_finish_def op_inv split: option.splits if_splits)
  from implementsD(1)[OF CBB_flush_implements assms(1) f]
  have "lv_flush 0 (levels st) = Some (levels st1)" by simp
  then have "close_levels (fst (levels st)) (snd (levels st)) = Some out"
    using b out by (auto simp: lv_flush_eq_Some levels_def)
  then show ?thesis using out by (simp add: CBB_cleanup_def)
qed

lemma CBB_finish_progress:
  assumes "cbb_ok st" and "close_levels (fst (levels st)) (snd (levels st)) = Some out"
    and "cbb_room st ([out], [])"
  shows "\<exists>st'. CBB_finish 0 True True st = (Some out, st')"
proof -
  have "lv_flush 0 (levels st) = Some ([out], [])" using assms(2) by (simp add: lv_flush_eq_Some)
  from implementsD(2)[OF CBB_flush_implements assms(1) this assms(3)] obtain u st1
    where f: "CBB_flush 0 st = (Some u, st1)" by blast
  from implementsD(1)[OF CBB_flush_implements assms(1) f] obtain b where "cbb_base st1 = Some b"
    by (auto elim: cbb_okE)
  with f have "\<exists>o' st'. CBB_finish 0 True True st = (Some o', st')"
    by (simp add: CBB_finish_def CBB_cleanup_def)
  with CBB_finish_Some[OF assms(1)] assms(2) show ?thesis by fastforce
qed

lemma CBB_init_ok:
  assumes "CBB_init alloc n = (Some u, st)" and "n < SIZE_MOD"
  shows "cbb_ok st \<and> levels st = ([[]], []) \<and>
    ((\<forall>m. alloc m) \<longrightarrow> levels_size l < SIZE_MOD \<longrightarrow> cbb_room st l)"
  using assms by (auto simp: CBB_init_def cbb_init_def CBB_zero_def cbb_ok_def buffer_ok_def levels_def
      cbb_room_def growable_def split: if_splits)

lemma CBB_init_fixed_ok:
  assumes "CBB_init_fixed alloc n = (Some u, st)" and "n < SIZE_MOD"
  shows "cbb_ok st \<and> levels st = ([[]], [])"
  using assms by (auto simp: CBB_init_fixed_def cbb_init_def CBB_zero_def cbb_ok_def buffer_ok_def levels_def
      op_inv split: if_splits)

end
