(* ===== verification/Asn1_Ints.thy ===== *)
theory Asn1_Ints
  imports Tlv
begin

text \<open>
  The contents of ASN.1 integers and booleans: the minimal two's-complement encodings, and
  the proof that the readers of \<open>cbs.c\<close> accept exactly those, for every 64-bit value.
\<close>

section \<open>Big-endian values with leading bytes\<close>

lemma be_fold_zeros: "be_fold 0 (replicate k 0 @ s) = be_fold 0 s"
  by (induction k) auto

lemma be_value_zeros [simp]: "be_value (replicate k 0 @ s) = be_value s" "be_value (0 # s) = be_value s"
  by (simp_all add: be_value_def be_fold_zeros)

lemma be_value_strip: "be_value (dropWhile ((=) 0) s) = be_value s"
  by (induction s) (auto simp: be_value_def)

lemma be_value_be_bytes8 [simp]: "be_value (be_bytes 8 v) = v"
  by (simp add: be_value_bytes)

lemma be_bytes8_value: "length s \<le> 8 \<Longrightarrow> be_bytes 8 (be_value s) = replicate (8 - length s) 0 @ s"
  using be_bytes_value[of "replicate (8 - length s) 0 @ s"] by simp

lemma dropWhile_zeros: "s \<noteq> [] \<Longrightarrow> hd s \<noteq> 0 \<Longrightarrow> dropWhile ((=) 0) (replicate k 0 @ s) = (s :: u8 list)"
  by (induction k) (auto simp: neq_Nil_conv)

section \<open>Unsigned integers\<close>

definition uint64_contents :: "u64 \<Rightarrow> u8 list" where
  "uint64_contents v = (let s = dropWhile ((=) 0) (be_bytes 8 v)
     in if s = [] then [0] else if hd s AND 0x80 \<noteq> 0 then 0 # s else s)"

lemma length_strip: "length (dropWhile ((=) 0) (be_bytes n v)) \<le> n"
  using length_dropWhile_le[of "(=) 0" "be_bytes n v"] by simp

lemma length_uint64_contents: "length (uint64_contents v) \<le> 9"
  using length_strip[of 8 v] by (simp add: uint64_contents_def Let_def)

lemma drop56_be_value: "length p \<le> 7 \<Longrightarrow> drop_bit 56 (be_value p) = 0"
  by (rule bit_word_eqI) (fastforce simp: bit_simps dest: bit_be_value)

lemma asn1_uint64_loop_short:
  "length p + length s \<le> 8 \<Longrightarrow> asn1_uint64_loop (be_value p) s = Some (be_value (p @ s))"
proof (induction s arbitrary: p)
  case (Cons b s)
  then have "drop_bit 56 (be_value p) = 0" by (intro drop56_be_value) simp
  with Cons.IH[of "p @ [b]"] Cons.prems show ?case by (simp add: be_value_snoc)
qed simp

lemma unat_ucast_byte: "unat (ucast (b :: u8) :: u64) = unat b"
  unfolding unsigned_ucast_eq by (rule take_bit_nat_eq_self) (use unsigned_less[of b, where 'a = nat] in simp)

lemma unat_shift_in:
  assumes "drop_bit 56 (r :: u64) = 0"
  shows "unat (push_bit 8 r OR ucast (b :: u8)) = unat r * 256 + unat b"
proof -
  have "push_bit 8 r OR ucast b = push_bit 8 r + (ucast b :: u64)"
    by (rule disjunctive_add[symmetric]) (auto simp: bit_simps dest: bit_imp_le_length)
  moreover have "unat r < 2 ^ 56"
  proof (rule bits_small)
    fix i assume "bit r i"
    with arg_cong[OF assms, of "\<lambda>w. bit w (i - 56)"] show "i < 56"
      by (cases "i < 56") (auto simp: bit_simps)
  qed
  then have "unat (push_bit 8 r) = unat r * 256"
    by (simp add: push_bit_eq_mult unat_mult_lem[THEN iffD1])
  moreover note unat_ucast_byte[of b]
  moreover have "unat b < 256" using unsigned_less[of b, where 'a = nat] by simp
  ultimately show ?thesis using \<open>unat r < 2 ^ 56\<close>
    by (subst \<open>push_bit 8 r OR ucast b = _\<close>) (simp add: unat_add_lem[THEN iffD1])
qed

text \<open>The overflow check of the loop: a nonzero value keeps its weight.\<close>

lemma asn1_uint64_loop_Some:
  "asn1_uint64_loop r s = Some v \<Longrightarrow> v = be_fold r s \<and> unat r * 256 ^ length s \<le> unat v"
proof (induction s arbitrary: r)
  case (Cons b s)
  then have d: "drop_bit 56 r = 0" and "asn1_uint64_loop (push_bit 8 r OR ucast b) s = Some v"
    by (auto split: if_splits)
  from Cons.IH[OF this(2)] have v: "v = be_fold (push_bit 8 r OR ucast b) s"
    and le: "(unat r * 256 + unat b) * 256 ^ length s \<le> unat v" unfolding unat_shift_in[OF d] by blast+
  have "unat r * 256 ^ length (b # s) \<le> (unat r * 256 + unat b) * 256 ^ length s"
    by (simp add: algebra_simps)
  from le_trans[OF this le] v show ?case by simp
qed auto

lemma asn1_uint64_loop_length:
  assumes "asn1_uint64_loop 0 (b # s) = Some v" and "b \<noteq> 0"
  shows "length s < 8"
proof (rule ccontr)
  assume "\<not> length s < 8"
  from assms have "asn1_uint64_loop (ucast b) s = Some v" by (simp add: or.left_neutral)
  from asn1_uint64_loop_Some[OF this] have "unat (ucast b :: u64) * 256 ^ length s \<le> unat v" by blast
  moreover have "0 < unat (ucast b :: u64)" using assms(2)
    by (simp add: unat_ucast_byte unat_gt_0)
  moreover have "(256 :: nat) ^ 8 \<le> 256 ^ length s" using \<open>\<not> length s < 8\<close>
    by (intro power_increasing) auto
  moreover have "256 ^ length s \<le> unat (ucast b :: u64) * 256 ^ length s"
    using calculation(2) by simp
  ultimately have "(256 :: nat) ^ 8 \<le> unat v" by linarith
  then show False using unsigned_less[of v, where 'a = nat] by simp
qed

lemma unsigned_cases:
  assumes "CBS_is_unsigned_asn1_integer c"
  obtains (zero) "c = [0]"
    | (padded) b s where "c = 0 # b # s" "b AND 0x80 \<noteq> 0"
    | (plain) b s where "c = b # s" "b \<noteq> 0" "b AND 0x80 = 0"
proof (cases c)
  case Nil
  with assms that show ?thesis
    by (simp add: CBS_is_unsigned_asn1_integer_def CBS_is_valid_asn1_integer_def)
next
  case (Cons b s)
  with assms that show ?thesis
    by (cases s) (auto simp: CBS_is_unsigned_asn1_integer_def CBS_is_valid_asn1_integer_def Let_def
        split: if_splits)
qed

lemma uint64_contents_unsigned: "CBS_is_unsigned_asn1_integer (uint64_contents v)"
proof -
  let ?s = "dropWhile ((=) 0) (be_bytes 8 v)"
  have "?s \<noteq> [] \<Longrightarrow> hd ?s \<noteq> 0" using hd_dropWhile[of "(=) 0" "be_bytes 8 v"] by auto
  then show ?thesis
    by (cases ?s; cases "tl ?s")
      (auto simp: uint64_contents_def CBS_is_unsigned_asn1_integer_def CBS_is_valid_asn1_integer_def Let_def)
qed

lemma uint64_contents_loop: "asn1_uint64_loop 0 (uint64_contents v) = Some v"
proof -
  let ?s = "dropWhile ((=) 0) (be_bytes 8 v)"
  have "asn1_uint64_loop 0 ?s = Some v"
    using asn1_uint64_loop_short[of "[]" ?s] length_strip[of 8 v] by (simp add: be_value_strip)
  then show ?thesis by (cases ?s) (simp_all add: uint64_contents_def Let_def del: dropWhile_eq_Nil_conv)
qed

lemma uint64_contents_value:
  assumes "CBS_is_unsigned_asn1_integer c" and "length (dropWhile ((=) 0) c) \<le> 8"
  shows "uint64_contents (be_value c) = c"
  using assms(1)
proof (cases rule: unsigned_cases)
  case zero
  have "be_bytes 8 0 = replicate 8 0" using be_bytes8_value[of "[]"] by simp
  then show ?thesis using zero by (simp add: uint64_contents_def)
next
  case (padded b s)
  then have "b \<noteq> 0" by auto
  with padded assms(2) have "length (b # s) \<le> 8" by simp
  from be_bytes8_value[OF this] dropWhile_zeros[of "b # s"] padded \<open>b \<noteq> 0\<close>
  show ?thesis by (simp add: uint64_contents_def)
next
  case (plain b s)
  with assms(2) have "length (b # s) \<le> 8" by simp
  from be_bytes8_value[OF this] dropWhile_zeros[of "b # s"] plain
  show ?thesis by (simp add: uint64_contents_def)
qed

lemma asn1_uint64_loop_contents:
  assumes "CBS_is_unsigned_asn1_integer c" and "asn1_uint64_loop 0 c = Some v"
  shows "c = uint64_contents v"
proof -
  have v: "v = be_value c" using asn1_uint64_loop_Some[OF assms(2)] by (simp add: be_value_def)
  have "length (dropWhile ((=) 0) c) \<le> 8" using assms(1)
  proof (cases rule: unsigned_cases)
    case (padded b s)
    then have "b \<noteq> 0" by auto
    with padded assms(2) asn1_uint64_loop_length[of b s v] show ?thesis by simp
  next
    case (plain b s)
    with assms(2) asn1_uint64_loop_length[of b s v] show ?thesis by simp
  qed simp
  from uint64_contents_value[OF assms(1) this] v show ?thesis by simp
qed

lemma CBS_get_asn1_uint64_iff:
  "CBS_get_asn1_uint64 s = (Some v, r) \<longleftrightarrow> s = der_tlv CBS_ASN1_INTEGER (uint64_contents v) @ r"
proof
  assume "CBS_get_asn1_uint64 s = (Some v, r)"
  then show "s = der_tlv CBS_ASN1_INTEGER (uint64_contents v) @ r"
    using asn1_uint64_loop_contents
    by (auto simp: CBS_get_asn1_uint64_def op_inv CBS_get_asn1_iff CBS_data_def
        split: if_splits option.splits)
next
  assume "s = der_tlv CBS_ASN1_INTEGER (uint64_contents v) @ r"
  moreover have "length (uint64_contents v) < 2 ^ 32" using length_uint64_contents[of v] by simp
  ultimately show "CBS_get_asn1_uint64 s = (Some v, r)"
    by (simp add: CBS_get_asn1_uint64_def asn1.dec_enc uint64_contents_unsigned uint64_contents_loop
        CBS_data_def)
qed

interpretation asn1_uint64: canonical_codec
  "\<lambda>v. der_tlv CBS_ASN1_INTEGER (uint64_contents v)" CBS_get_asn1_uint64 "\<lambda>v. True"
  by unfold_locales (simp_all add: CBS_get_asn1_uint64_iff)

section \<open>Signed integers\<close>

text \<open>Leading sign-extension bytes of a negative number are dropped unless they are needed.\<close>

fun strip_sign :: "u8 list \<Rightarrow> u8 list" where
  "strip_sign (b # c # bs) = (if b = 0xff \<and> c AND 0x80 \<noteq> 0 then strip_sign (c # bs) else b # c # bs)"
| "strip_sign bs = bs"

definition int64_contents :: "i64 \<Rightarrow> u8 list" where
  "int64_contents v = (if sint v \<ge> 0 then uint64_contents v else strip_sign (be_bytes 8 v))"

definition high_byte :: "u8 list \<Rightarrow> bool" where
  "high_byte c \<longleftrightarrow> c \<noteq> [] \<and> hd c AND 0x80 \<noteq> 0"

lemma strip_sign_split: "\<exists>k. bs = replicate k 0xff @ strip_sign bs"
proof (induction bs rule: strip_sign.induct)
  case (1 b c bs)
  show ?case
  proof (cases "b = 0xff \<and> c AND 0x80 \<noteq> 0")
    case True
    with 1 obtain k where "c # bs = replicate k 0xff @ strip_sign (c # bs)" by blast
    with True show ?thesis by (intro exI[of _ "Suc k"]) simp
  qed (auto intro: exI[of _ 0])
qed (auto intro: exI[of _ 0])

lemma strip_sign_valid: "high_byte bs \<Longrightarrow> CBS_is_valid_asn1_integer (strip_sign bs) = Some True"
proof (induction bs rule: strip_sign.induct)
  case (1 b c bs)
  then show ?case by (auto simp: high_byte_def CBS_is_valid_asn1_integer_def)
qed (auto simp: high_byte_def CBS_is_valid_asn1_integer_def)

lemma valid_negative:
  "CBS_is_valid_asn1_integer c = Some True \<Longrightarrow> high_byte c \<and> strip_sign (replicate k 0xff @ c) = c"
proof (induction k)
  case 0
  then show ?case
    by (cases c rule: strip_sign.cases)
      (auto simp: high_byte_def CBS_is_valid_asn1_integer_def Let_def split: if_splits)
next
  case (Suc k)
  then have "high_byte c" "strip_sign (replicate k 0xff @ c) = c" by auto
  then show ?case by (cases k; cases c) (auto simp: high_byte_def)
qed

lemma high_byte_iff: "high_byte (be_bytes 8 v) \<longleftrightarrow> bit v 63"
proof -
  have "hd (be_bytes 8 v) = ucast (drop_bit 56 v)"
    by (simp add: eval_nat_numeral drop_bit_drop_bit_add)
  moreover have "be_bytes 8 v \<noteq> []" by (simp add: eval_nat_numeral)
  ultimately show ?thesis
    by (simp add: high_byte_def and_high_bit bit_simps)
qed

lemma sint_nonneg_iff: "sint (v :: i64) \<ge> 0 \<longleftrightarrow> \<not> high_byte (be_bytes 8 v)"
  unfolding high_byte_iff by (simp add: not_le[symmetric] sint_uint signed_take_bit_nonnegative_iff)
    (simp add: bit_uint_iff)

lemma union_i64_be: "union_i64 (rev c @ replicate k b) = be_value (replicate k b @ c)"
  by (simp add: union_i64_def)

lemma high_byte_pad: "high_byte (replicate k b @ c) \<longleftrightarrow> (if k = 0 then high_byte c else b AND 0x80 \<noteq> 0)"
  by (cases k) (auto simp: high_byte_def)

lemma unsigned_iff_nonneg: "CBS_is_unsigned_asn1_integer c \<longleftrightarrow> CBS_is_valid_asn1_integer c = Some False"
  by (simp add: CBS_is_unsigned_asn1_integer_def)

lemma valid_nonneg_high: "CBS_is_valid_asn1_integer c = Some False \<Longrightarrow> \<not> high_byte c"
  by (auto simp: high_byte_def CBS_is_valid_asn1_integer_def neq_Nil_conv Let_def
      split: list.splits if_splits option.splits prod.splits)

text \<open>Sign extension restores what the encoding dropped.\<close>

lemma int64_contents_sound:
  assumes "CBS_is_valid_asn1_integer c = Some neg" and "length c \<le> 8"
  shows "int64_contents (be_value (replicate (8 - length c) (if neg then 0xff else 0) @ c)) = c"
proof -
  let ?b = "replicate (8 - length c) (if neg then 0xff else 0) @ c"
  have b: "be_bytes 8 (be_value ?b) = ?b" using be_bytes_value[of ?b] assms(2) by simp
  show ?thesis
  proof (cases neg)
    case True
    with assms valid_negative[of c "8 - length c"] b show ?thesis
      by (auto simp: int64_contents_def sint_nonneg_iff high_byte_pad split: if_splits)
  next
    case False
    then have "\<not> high_byte ?b" using valid_nonneg_high assms by (auto simp: high_byte_pad)
    then have "int64_contents (be_value ?b) = uint64_contents (be_value c)"
      using False b by (simp add: int64_contents_def sint_nonneg_iff)
    also have "length (dropWhile ((=) 0) c) \<le> 8" using assms(2) length_dropWhile_le le_trans by blast
    then have "uint64_contents (be_value c) = c"
      using False assms by (intro uint64_contents_value) (simp_all add: unsigned_iff_nonneg)
    finally show ?thesis .
  qed
qed

lemma int64_contents_valid:
  "CBS_is_valid_asn1_integer (int64_contents v) = Some (sint v < 0)"
proof (cases "sint v < 0")
  case True
  then have "high_byte (be_bytes 8 v)" using sint_nonneg_iff[of v] by auto
  from strip_sign_valid[OF this] True show ?thesis by (simp add: int64_contents_def)
next
  case False
  then show ?thesis using uint64_contents_unsigned[of v]
    by (simp add: int64_contents_def unsigned_iff_nonneg)
qed

lemma int64_contents_extend: "length (int64_contents v) \<le> 8 \<and>
  be_value (replicate (8 - length (int64_contents v)) (if sint v < 0 then 0xff else 0) @ int64_contents v) = v"
proof (cases "sint v < 0")
  case True
  obtain k where k: "be_bytes 8 v = replicate k 0xff @ strip_sign (be_bytes 8 v)"
    using strip_sign_split by blast
  define c where "c = strip_sign (be_bytes 8 v)"
  from arg_cong[OF k, of length] have "k = 8 - length c" "length c \<le> 8" by (auto simp: c_def)
  moreover have "int64_contents v = c" using True by (simp add: int64_contents_def c_def)
  moreover have "be_value (replicate k 0xff @ c) = v"
    unfolding c_def k[symmetric] by simp
  ultimately show ?thesis using True by simp
next
  case False
  let ?s = "dropWhile ((=) 0) (be_bytes 8 v)"
  have "be_value (uint64_contents v) = v"
    using asn1_uint64_loop_Some[OF uint64_contents_loop[of v]] by (simp add: be_value_def)
  moreover have "length (uint64_contents v) \<le> 8"
  proof (cases "length ?s = 8")
    case True
    then have "?s = be_bytes 8 v"
      by (metis append_Nil length_append length_be_bytes same_length_different takeWhile_dropWhile_id
          add_cancel_left_left length_0_conv)
    moreover have "\<not> high_byte (be_bytes 8 v)" using False sint_nonneg_iff[of v] by auto
    ultimately show ?thesis by (auto simp: uint64_contents_def high_byte_def Let_def)
  next
    case False
    then show ?thesis using length_strip[of 8 v] by (simp add: uint64_contents_def Let_def)
  qed
  ultimately show ?thesis using False by (simp add: int64_contents_def)
qed

lemma CBS_get_asn1_int64_iff:
  "CBS_get_asn1_int64 s = (Some v, r) \<longleftrightarrow> s = der_tlv CBS_ASN1_INTEGER (int64_contents v) @ r"
proof
  assume "CBS_get_asn1_int64 s = (Some v, r)"
  then obtain c s1 where "CBS_get_asn1 CBS_ASN1_INTEGER s = (Some c, s1)" and
    rest: "(case CBS_is_valid_asn1_integer c of None \<Rightarrow> fail | Some neg \<Rightarrow>
      if length c > 8 then fail
      else ret (be_value (replicate (8 - length c) (if neg then 0xff else 0) @ c))) s1 = (Some v, r)"
    unfolding CBS_get_asn1_int64_def sbind_eq_Some CBS_data_def CBS_len_def union_i64_be Let_def
    by blast
  moreover have "s1 = r" "\<exists>neg. CBS_is_valid_asn1_integer c = Some neg \<and> length c \<le> 8 \<and>
      v = be_value (replicate (8 - length c) (if neg then 0xff else 0) @ c)"
    using rest by (auto simp: op_inv split: if_splits option.splits)
  ultimately have c: "CBS_get_asn1 CBS_ASN1_INTEGER s = (Some c, r)" and
    "\<exists>neg. CBS_is_valid_asn1_integer c = Some neg \<and> length c \<le> 8 \<and>
      v = be_value (replicate (8 - length c) (if neg then 0xff else 0) @ c)" by simp_all
  then obtain neg where neg: "CBS_is_valid_asn1_integer c = Some neg" "length c \<le> 8"
    "v = be_value (replicate (8 - length c) (if neg then 0xff else 0) @ c)" by blast
  from c int64_contents_sound[OF neg(1,2)] neg(3)
  show "s = der_tlv CBS_ASN1_INTEGER (int64_contents v) @ r"
    unfolding CBS_get_asn1_iff by simp
next
  assume "s = der_tlv CBS_ASN1_INTEGER (int64_contents v) @ r"
  moreover have "length (int64_contents v) < 2 ^ 32" using int64_contents_extend[of v] by simp
  ultimately show "CBS_get_asn1_int64 s = (Some v, r)"
    using int64_contents_extend[of v]
    by (simp add: CBS_get_asn1_int64_def asn1.dec_enc int64_contents_valid CBS_data_def CBS_len_def
        union_i64_be Let_def)
qed

interpretation asn1_int64: canonical_codec
  "\<lambda>v. der_tlv CBS_ASN1_INTEGER (int64_contents v)" CBS_get_asn1_int64 "\<lambda>v. True"
  by unfold_locales (simp_all add: CBS_get_asn1_int64_iff)

section \<open>Booleans\<close>

lemma CBS_get_asn1_bool_iff:
  "CBS_get_asn1_bool s = (Some b, r) \<longleftrightarrow> s = der_tlv CBS_ASN1_BOOLEAN [if b then 0xff else 0] @ r"
proof
  assume "CBS_get_asn1_bool s = (Some b, r)"
  then obtain c s1 where c1: "CBS_get_asn1 CBS_ASN1_BOOLEAN s = (Some c, s1)" and
    rest: "(if length c \<noteq> 1 then fail else if hd c \<noteq> 0 \<and> hd c \<noteq> 0xff then fail
      else ret (hd c \<noteq> 0)) s1 = (Some b, r)"
    unfolding CBS_get_asn1_bool_def sbind_eq_Some CBS_data_def CBS_len_def Let_def by blast
  have "length c = 1" "hd c = 0 \<or> hd c = 0xff" "b \<longleftrightarrow> hd c \<noteq> 0" "s1 = r"
    using rest by (simp_all add: op_inv split: if_splits)
  then have c: "CBS_get_asn1 CBS_ASN1_BOOLEAN s = (Some c, r)" "c = [if b then 0xff else 0]"
    using c1 by (cases c; auto)+
  with c show "s = der_tlv CBS_ASN1_BOOLEAN [if b then 0xff else 0] @ r"
    unfolding CBS_get_asn1_iff by simp
next
  assume "s = der_tlv CBS_ASN1_BOOLEAN [if b then 0xff else 0] @ r"
  then show "CBS_get_asn1_bool s = (Some b, r)"
    by (simp add: CBS_get_asn1_bool_def asn1.dec_enc CBS_data_def CBS_len_def)
qed

interpretation asn1_bool: canonical_codec
  "\<lambda>b. der_tlv CBS_ASN1_BOOLEAN [if b then 0xff else 0]" CBS_get_asn1_bool "\<lambda>b. True"
  by unfold_locales (simp_all add: CBS_get_asn1_bool_iff)

end
