(* ===== verification/Cbb_Asn1.thy ===== *)
theory Cbb_Asn1
  imports Cbb_Ops Asn1_Ints
begin

text \<open>
  The ASN.1 half of the builder, the rest of \<open>crypto/bytestring/cbb.c\<close>: elements, integers,
  octet strings, booleans, object identifiers and sets, and \<open>CBS_asn1_oid_to_text\<close> of \<open>cbs.c\<close>,
  which builds its result with a \<open>CBB\<close>. Each operation is shown to append the bytes of
  \<open>Tlv\<close> and \<open>Asn1_Ints\<close>, the ones the readers accept.
\<close>

section \<open>Operations\<close>

text \<open>The loop of \<open>add_base128_integer\<close>, \<open>i\<close> counting down.\<close>

fun add_base128_loop :: "nat \<Rightarrow> u64 \<Rightarrow> nat \<Rightarrow> (cbb, unit) op" where
  "add_base128_loop d v 0 = ret ()"
| "add_base128_loop d v (Suc i) =
     (let byte = ucast (drop_bit (7 * i) v) AND 0x7f; byte' = (if i \<noteq> 0 then byte OR 0x80 else byte)
      in sbind (CBB_add_u8 d byte') (\<lambda>_. add_base128_loop d v i))"

definition add_base128_integer :: "nat \<Rightarrow> u64 \<Rightarrow> (cbb, unit) op" where
  "add_base128_integer d v =
     (let len_len = base128_len v in add_base128_loop d v (if len_len = 0 then 1 else len_len))"

definition base_len :: "(cbb, nat) op" where
  "base_len = on_base (\<lambda>b. (Some (length (cb_buf b)), b))"

definition CBB_add_asn1 :: "nat \<Rightarrow> u32 \<Rightarrow> (cbb, unit) op" where
  "CBB_add_asn1 d tag = sbind (CBB_flush d) (\<lambda>_.
     let tag_bits = ucast (drop_bit CBS_ASN1_TAG_SHIFT tag) AND 0xe0;
         tag_number = tag AND CBS_ASN1_TAG_NUMBER_MASK
     in sbind (if tag_number \<ge> 0x1f
               then sbind (CBB_add_u8 d (tag_bits OR 0x1f)) (\<lambda>_. add_base128_integer d (ucast tag_number))
               else CBB_add_u8 d (tag_bits OR ucast tag_number)) (\<lambda>_.
        sbind base_len (\<lambda>offset.
        sbind (CBB_add_u8 d 0) (\<lambda>_.
        open_child d \<lparr>ch_offset = offset, ch_pending_len_len = 1, ch_pending_is_asn1 = True\<rparr>))))"

text \<open>The loop of \<open>CBB_add_asn1_uint64\<close> with \<open>n\<close> bytes to go, and what follows it.\<close>

fun add_uint64_loop :: "nat \<Rightarrow> u64 \<Rightarrow> bool \<Rightarrow> nat \<Rightarrow> (cbb, unit) op" where
  "add_uint64_loop d value started 0 = (if \<not> started then CBB_add_u8 d 0 else ret ())"
| "add_uint64_loop d value started (Suc n) =
     (let byte = ucast (drop_bit (8 * n) value) in
      if \<not> started then
        (if byte = 0 then add_uint64_loop d value False n
         else sbind (if byte AND 0x80 \<noteq> 0 then CBB_add_u8 d 0 else ret ()) (\<lambda>_.
              sbind (CBB_add_u8 d byte) (\<lambda>_. add_uint64_loop d value True n)))
      else sbind (CBB_add_u8 d byte) (\<lambda>_. add_uint64_loop d value True n))"

definition CBB_add_asn1_uint64 :: "nat \<Rightarrow> u64 \<Rightarrow> (cbb, unit) op" where
  "CBB_add_asn1_uint64 d value = sbind (CBB_add_asn1 d CBS_ASN1_INTEGER) (\<lambda>_.
     sbind (add_uint64_loop (Suc d) value False 8) (\<lambda>_. CBB_flush d))"

text \<open>\<open>bytes\<close> is the union's view of the value on a little-endian machine.\<close>

fun int64_start :: "u8 list \<Rightarrow> nat \<Rightarrow> nat" where
  "int64_start bytes 0 = 0"
| "int64_start bytes (Suc i) =
     (if bytes ! Suc i = 0xff \<and> bytes ! i AND 0x80 \<noteq> 0 then int64_start bytes i else Suc i)"

fun add_bytes_down :: "nat \<Rightarrow> u8 list \<Rightarrow> nat \<Rightarrow> (cbb, unit) op" where
  "add_bytes_down d bytes 0 = CBB_add_u8 d (bytes ! 0)"
| "add_bytes_down d bytes (Suc i) =
     sbind (CBB_add_u8 d (bytes ! Suc i)) (\<lambda>_. add_bytes_down d bytes i)"

definition CBB_add_asn1_int64 :: "nat \<Rightarrow> i64 \<Rightarrow> (cbb, unit) op" where
  "CBB_add_asn1_int64 d value =
     (if sint value \<ge> 0 then CBB_add_asn1_uint64 d value
      else let bytes = rev (be_bytes 8 value); start = int64_start bytes 7 in
        sbind (CBB_add_asn1 d CBS_ASN1_INTEGER) (\<lambda>_.
        sbind (add_bytes_down (Suc d) bytes start) (\<lambda>_. CBB_flush d)))"

definition CBB_add_asn1_octet_string :: "nat \<Rightarrow> u8 list \<Rightarrow> (cbb, unit) op" where
  "CBB_add_asn1_octet_string d data = sbind (CBB_add_asn1 d CBS_ASN1_OCTETSTRING) (\<lambda>_.
     sbind (CBB_add_bytes (Suc d) data) (\<lambda>_. CBB_flush d))"

definition CBB_add_asn1_bool :: "nat \<Rightarrow> bool \<Rightarrow> (cbb, unit) op" where
  "CBB_add_asn1_bool d value = sbind (CBB_add_asn1 d CBS_ASN1_BOOLEAN) (\<lambda>_.
     sbind (CBB_add_u8 (Suc d) (if value then 0xff else 0)) (\<lambda>_. CBB_flush d))"

section \<open>Object identifiers\<close>

definition UINT64_MAX :: u64 where
  "UINT64_MAX = 0xffffffffffffffff"

fun dotted_decimal_loop :: "u64 \<Rightarrow> bool \<Rightarrow> (cbs, u64) op" where
  "dotted_decimal_loop out seen_digit [] = (if seen_digit then Some out else None, [])"
| "dotted_decimal_loop out seen_digit (u # s) =
     (if u = 0x2e \<and> CBS_len s > 0 then (if seen_digit then Some out else None, s)
      else if u < 0x30 \<or> u > 0x39 \<or> (seen_digit \<and> out = 0) \<or> out > UINT64_MAX div 10 \<or>
              out * 10 > UINT64_MAX - ucast (u - 0x30)
      then (None, s)
      else dotted_decimal_loop (out * 10 + ucast (u - 0x30)) True s)"

definition parse_dotted_decimal :: "(cbs, u64) op" where
  "parse_dotted_decimal = dotted_decimal_loop 0 False"

lemma dotted_decimal_shorter: "dotted_decimal_loop out seen s = (Some v, r) \<Longrightarrow> length r \<le> length s \<and>
    (\<not> seen \<longrightarrow> length r < length s)"
  by (induction out seen s rule: dotted_decimal_loop.induct) (auto split: if_splits)

function oid_text_loop :: "nat \<Rightarrow> cbs \<Rightarrow> (cbb, unit) op" where
  "oid_text_loop d s =
     (if CBS_len s > 0 then
        (case parse_dotted_decimal s of (None, _) \<Rightarrow> fail
         | (Some a, s') \<Rightarrow> sbind (add_base128_integer d a) (\<lambda>_. oid_text_loop d s'))
      else ret ())"
  by pat_completeness auto
termination
  by (relation "measure (\<lambda>(d, s). length s)")
    (auto simp: parse_dotted_decimal_def CBS_len_def dest: dotted_decimal_shorter[OF sym])

declare oid_text_loop.simps [simp del]

definition CBB_add_asn1_oid_from_text :: "nat \<Rightarrow> u8 list \<Rightarrow> (cbb, unit) op" where
  "CBB_add_asn1_oid_from_text d text = sbind (CBB_flush d) (\<lambda>_.
     case parse_dotted_decimal text of (None, _) \<Rightarrow> fail | (Some a, s1) \<Rightarrow>
     case parse_dotted_decimal s1 of (None, _) \<Rightarrow> fail | (Some b, s2) \<Rightarrow>
       if a > 2 \<or> (a < 2 \<and> b > 39) \<or> b > UINT64_MAX - 80 then fail
       else sbind (add_base128_integer d (40 * a + b)) (\<lambda>_. oid_text_loop d s2))"

text \<open>What \<open>BIO_snprintf\<close> prints for \<open>PRIu64\<close>.\<close>

fun decimal :: "nat \<Rightarrow> u8 list" where
  "decimal n = (if n < 10 then [0x30 + of_nat n] else decimal (n div 10) @ [0x30 + of_nat (n mod 10)])"

declare decimal.simps [simp del]

definition add_decimal :: "nat \<Rightarrow> u64 \<Rightarrow> (cbb, unit) op" where
  "add_decimal d v = CBB_add_bytes d (decimal (unat v))"

lemma parse_base128_loop_shorter:
  "parse_base128_loop v s = (Some x, r) \<Longrightarrow> length r < length s"
  by (induction v s rule: parse_base128_loop.induct) (fastforce simp: Let_def split: if_splits)+

function oid_components_loop :: "cbs \<Rightarrow> (cbb, unit) op" where
  "oid_components_loop copy =
     (if CBS_len copy \<noteq> 0 then
        (case parse_base128_integer copy of (None, _) \<Rightarrow> fail
         | (Some v, copy') \<Rightarrow> sbind (CBB_add_u8 0 0x2e) (\<lambda>_. sbind (add_decimal 0 v) (\<lambda>_.
             oid_components_loop copy')))
      else ret ())"
  by pat_completeness auto
termination
  by (relation "measure length")
    (auto simp: parse_base128_integer_def CBS_len_def dest: parse_base128_loop_shorter[OF sym])

declare oid_components_loop.simps [simp del]

text \<open>The characters of the string with its terminator, or \<open>None\<close> for \<open>NULL\<close>.\<close>

definition CBS_asn1_oid_to_text :: "(nat \<Rightarrow> bool) \<Rightarrow> cbs \<Rightarrow> u8 list option" where
  "CBS_asn1_oid_to_text alloc s =
     (case CBB_init alloc 32 of (None, _) \<Rightarrow> None | (Some _, st) \<Rightarrow>
      case parse_base128_integer s of (None, _) \<Rightarrow> None | (Some v, copy) \<Rightarrow>
      fst (sbind (if v \<ge> 80 then sbind (CBB_add_bytes 0 [0x32, 0x2e]) (\<lambda>_. add_decimal 0 (v - 80))
                  else sbind (add_decimal 0 (v div 40)) (\<lambda>_. sbind (CBB_add_u8 0 0x2e) (\<lambda>_.
                       add_decimal 0 (v mod 40)))) (\<lambda>_.
           sbind (oid_components_loop copy) (\<lambda>_.
           sbind (CBB_add_u8 0 0) (\<lambda>_. CBB_finish 0 True True))) st))"

section \<open>Sets\<close>

fun OPENSSL_memcmp :: "u8 list \<Rightarrow> u8 list \<Rightarrow> int" where
  "OPENSSL_memcmp (a # as) (b # bs) = (if a < b then -1 else if b < a then 1 else OPENSSL_memcmp as bs)"
| "OPENSSL_memcmp _ _ = 0"

definition compare_set_of_element :: "cbs \<Rightarrow> cbs \<Rightarrow> int" where
  "compare_set_of_element a b =
     (let a_len = CBS_len a; b_len = CBS_len b; min_len = (if a_len < b_len then a_len else b_len);
          r = OPENSSL_memcmp (take min_len (CBS_data a)) (take min_len (CBS_data b))
      in if r \<noteq> 0 then r else if a_len = b_len then 0 else if a_len < b_len then -1 else 1)"

text \<open>\<open>qsort\<close> of the C library: some sorted permutation; the comparison is zero only on equal
  elements, so it does not matter which.\<close>

fun insert_by :: "('a \<Rightarrow> 'a \<Rightarrow> int) \<Rightarrow> 'a \<Rightarrow> 'a list \<Rightarrow> 'a list" where
  "insert_by cmp x [] = [x]"
| "insert_by cmp x (y # ys) = (if cmp x y \<le> 0 then x # y # ys else y # insert_by cmp x ys)"

definition qsort :: "('a \<Rightarrow> 'a \<Rightarrow> int) \<Rightarrow> 'a list \<Rightarrow> 'a list" where
  "qsort cmp xs = foldr (insert_by cmp) xs []"

lemma any_asn1_element_shorter: "CBS_get_any_asn1_element s = (Some e, r) \<Longrightarrow> length r < length s"
  by (erule der_elementE) (simp add: length_der_tlv)

text \<open>The first pass: the number of children, or \<open>None\<close> when they do not parse.\<close>

function count_elements :: "cbs \<Rightarrow> nat option" where
  "count_elements s =
     (if CBS_len s \<noteq> 0 then
        (case CBS_get_any_asn1_element s of (None, _) \<Rightarrow> None
         | (Some _, s') \<Rightarrow> map_option Suc (count_elements s'))
      else Some 0)"
  by pat_completeness auto
termination
  by (relation "measure length") (auto dest: any_asn1_element_shorter[OF sym])

declare count_elements.simps [simp del]

definition CBS_SIZE :: nat where
  "CBS_SIZE = 16"

text \<open>The two blocks the function allocates are asked of the allocator of the buffer. A child
  is the string of its element; the copy they point into does not change.\<close>

definition CBB_flush_asn1_set_of :: "nat \<Rightarrow> (cbb, unit) op" where
  "CBB_flush_asn1_set_of d = sbind (CBB_flush d) (\<lambda>_ st.
     case (CBB_data d st, cbb_base st) of (Some data, Some base) \<Rightarrow>
       (case count_elements data of None \<Rightarrow> (None, st) | Some num_children \<Rightarrow>
        if num_children < 2 then (Some (), st)
        else if num_children > (SIZE_MOD - 1) div CBS_SIZE then (None, st)
        else if \<not> cb_realloc base (length data) \<or> \<not> cb_realloc base (num_children * CBS_SIZE)
        then (None, st)
        else case op_repeat num_children CBS_get_any_asn1_element data of
          (None, _) \<Rightarrow> (None, st)
        | (Some es, _) \<Rightarrow>
            let children = qsort compare_set_of_element (map el_out es) in
            sbind (on_base (modify (\<lambda>b. b\<lparr>cb_buf := take (contents_start d st) (cb_buf b)\<rparr>)))
              (\<lambda>_. op_each (CBB_add_bytes d) children) st)
     | _ \<Rightarrow> (None, st))"

section \<open>Elements\<close>

text \<open>Appending nothing, or appending something after closing what is inside.\<close>

definition lv_each :: "nat \<Rightarrow> u8 list \<Rightarrow> levels \<Rightarrow> levels option" where
  "lv_each d bs = (if bs = [] then Some else lv_append d bs)"

lemma lv_each_simps [simp]: "lv_each d [] = Some" "bs \<noteq> [] \<Longrightarrow> lv_each d bs = lv_append d bs"
  by (simp_all add: lv_each_def)

lemma lv_each_bind: "Option.bind (lv_each d a l) (lv_each d b) = lv_each d (a @ b) l"
  by (auto simp: lv_each_def lv_append_append)

lemma lv_flush_append: "Option.bind (lv_flush d l) (lv_append d b) = lv_append d b l"
  using lv_append_append[of d "[]" l b] by (simp add: lv_flush_eq_append)

lemma each_implements:
  assumes "cbb_implements p (lv_each d a)" and "\<And>x. cbb_implements (g x) (lv_each d b)"
  shows "cbb_implements (sbind p g) (lv_each d (a @ b))"
  by (rule builder.bind_both[OF assms]) (simp add: lv_each_bind)

lemma u8_implements: "cbb_implements (CBB_add_u8 d v) (lv_each d [v])"
  using CBB_add_u8_implements by simp

lemma ret_implements: "cbb_implements (ret x) (lv_each d [])"
  using builder.ret by simp

lemma bytes_implements:
  "bs \<noteq> [] \<Longrightarrow> length bs < SIZE_MOD \<Longrightarrow> cbb_implements (CBB_add_bytes d bs) (lv_each d bs)"
  by (simp add: CBB_add_bytes_implements)

lemma add_base128_loop_implements: "cbb_implements (add_base128_loop d v n) (lv_each d (base128_digits v n))"
proof (induction n)
  case 0
  show ?case unfolding add_base128_loop.simps base128_digits.simps by (rule ret_implements)
next
  case (Suc n)
  have "cbb_implements (add_base128_loop d v (Suc n))
      (lv_each d ([if n \<noteq> 0 then ucast (drop_bit (7 * n) v) AND 0x7f OR 0x80
                   else ucast (drop_bit (7 * n) v) AND 0x7f] @ base128_digits v n))"
    unfolding add_base128_loop.simps Let_def by (rule each_implements[OF u8_implements Suc])
  moreover have "[if n \<noteq> 0 then ucast (drop_bit (7 * n) v) AND 0x7f OR 0x80
                   else ucast (drop_bit (7 * n) v) AND 0x7f] @ base128_digits v n = base128_digits v (Suc n)"
    by simp
  ultimately show ?case by simp
qed

lemma base128_bytes_nonempty [simp]: "base128_bytes v \<noteq> []"
  by (cases "base128_len v") (auto simp: base128_bytes_def)

lemma add_base128_integer_implements: "cbb_implements (add_base128_integer d v) (lv_append d (base128_bytes v))"
  using add_base128_loop_implements[of d v "if base128_len v = 0 then 1 else base128_len v"]
  unfolding base128_bytes_def[symmetric] add_base128_integer_def Let_def
  by (simp only: lv_each_simps(2)[OF base128_bytes_nonempty])

lemma base_len_apply: "cbb_base st = Some b \<Longrightarrow> base_len st = (Some (length (cb_buf b)), st)"
  by (simp add: base_len_def on_base_def)

lemma base_len_Some: "base_len st = (Some n, st') \<longleftrightarrow>
    (\<exists>b. cbb_base st = Some b \<and> n = length (cb_buf b)) \<and> st' = st"
  by (cases st) (auto simp: base_len_def on_base_def split: option.splits)

lemma base_len_implements: "cbb_implements base_len Some"
proof (rule implementsI)
  fix st x st' assume ok: "cbb_ok st" and "base_len st = (Some x, st')"
  then have "st' = st" by (auto elim!: cbb_okE simp: base_len_apply)
  with ok show "Some (levels st) = Some (levels st') \<and> cbb_ok st' \<and> cbb_keeps st st'"
    by (simp add: builder.keeps_refl)
next
  fix st l assume "cbb_ok st"
  then show "\<exists>x st'. base_len st = (Some x, st')" by (auto elim!: cbb_okE simp: base_len_apply)
qed simp

text \<open>\<open>CBB_add_asn1\<close> writes the tag and opens a child for the contents.\<close>

lemma CBB_add_asn1_implements: "cbb_implements (CBB_add_asn1 d tag) (lv_open d (der_tag tag) Asn1)"
proof -
  define tagop where "tagop = (let tag_bits = ucast (drop_bit CBS_ASN1_TAG_SHIFT tag) AND 0xe0;
         tag_number = tag AND CBS_ASN1_TAG_NUMBER_MASK
     in if tag_number \<ge> 0x1f
        then sbind (CBB_add_u8 d (tag_bits OR 0x1f)) (\<lambda>_. add_base128_integer d (ucast tag_number))
        else CBB_add_u8 d (tag_bits OR ucast tag_number))"
  define q where "q = sbind (sbind (CBB_flush d) (\<lambda>_. tagop))
    (\<lambda>_. sbind base_len (\<lambda>offset. sbind (CBB_add_u8 d 0) (\<lambda>_. ret offset)))"
  have t: "cbb_implements tagop (lv_append d (der_tag tag))"
    unfolding tagop_def der_tag_def Let_def
    using builder.bind_both[OF CBB_add_u8_implements add_base128_integer_implements]
    by (auto simp: CBB_add_u8_implements lv_append_append)
  have t': "cbb_implements (sbind (CBB_flush d) (\<lambda>_. tagop)) (lv_append d (der_tag tag))"
    by (rule builder.bind_both[OF CBB_flush_implements t]) (simp add: lv_flush_append)
  have z: "cbb_implements (sbind (CBB_add_u8 d 0) (\<lambda>_. ret x)) (lv_append d [0])" for x :: nat
    by (rule builder.bind_both[OF CBB_add_u8_implements builder.ret]) simp
  have "cbb_implements (sbind base_len (\<lambda>offset. sbind (CBB_add_u8 d 0) (\<lambda>_. ret offset))) (lv_append d [0])"
    by (rule builder.bind_both[OF base_len_implements z]) simp
  then have q: "cbb_implements q (lv_append d (der_tag tag @ replicate 1 0))"
    unfolding q_def by (rule builder.bind_both[OF t']) (simp add: lv_append_append)
  have "returns_start 1 q" unfolding returns_start_def
  proof (intro allI impI)
    fix st off st' assume a: "cbb_ok st \<and> q st = (Some off, st')"
    then obtain x st1 y b where s1: "sbind (CBB_flush d) (\<lambda>_. tagop) st = (Some x, st1)"
      and b: "cbb_base st1 = Some b" "off = length (cb_buf b)" and s2: "CBB_add_u8 d 0 st1 = (Some y, st')"
      by (auto simp: q_def op_inv base_len_Some)
    from implementsD(1)[OF t' _ s1] a have ok1: "cbb_ok st1" and
      l1: "lv_append d (der_tag tag) (levels st) = Some (levels st1)" by auto
    from implementsD(1)[OF CBB_add_u8_implements ok1 s2] have ok2: "cbb_ok st'" and
      l2: "lv_append d [0] (levels st1) = Some (levels st')" by auto
    from ok2 obtain b' where b': "cbb_base st' = Some b'" by (rule cbb_okE)
    have "lv_flush d (levels st1) = Some (levels st1)"
      using l1 lv_append_append[of d "der_tag tag" "levels st" "[]"] by (simp add: lv_flush_eq_append)
    with l2 have "lv_put [0] (levels st1) = Some (levels st')" by (simp add: lv_append_def)
    from lv_put_size[OF this] levels_size_levels[OF b' ok2] levels_size_levels[OF b(1) ok1] b(2) b'
    show "\<exists>b. cbb_base st' = Some b \<and> length (cb_buf b) = off + 1" by simp
  qed
  from open_implements[OF q this, of True Asn1] have
    "cbb_implements (sbind q (\<lambda>off. open_child d
      \<lparr>ch_offset = off, ch_pending_len_len = 1, ch_pending_is_asn1 = True\<rparr>)) (lv_open d (der_tag tag) Asn1)"
    by simp
  moreover have "CBB_add_asn1 d tag = sbind q (\<lambda>off. open_child d
      \<lparr>ch_offset = off, ch_pending_len_len = 1, ch_pending_is_asn1 = True\<rparr>)"
    unfolding CBB_add_asn1_def q_def tagop_def Let_def sbind_assoc
    by (rule ext) (simp add: sbind_def ret_def split: prod.splits option.splits)
  ultimately show ?thesis by simp
qed

text \<open>An element: the tag, whatever its body appends to the child, and the length that the
  final flush fills in.\<close>

lemma lv_tlv:
  "Option.bind (lv_open d (der_tag t) Asn1 l) (\<lambda>l1. Option.bind (lv_append (Suc d) c l1) (lv_flush d)) =
   (if length c \<le> 0xfffffffe then lv_append d (der_tlv t c) l else None)"
proof (cases "lv_append d (der_tag t) l")
  case None
  then have "lv_append d (der_tlv t c) l = None" by (simp add: lv_append_None)
  with None show ?thesis by (simp add: lv_open_def)
next
  case (Some l')
  then obtain x where x: "d \<le> length (snd l)" "close_levels (drop d (fst l)) (drop d (snd l)) = Some x"
    "l' = (take d (fst l) @ [x @ der_tag t], take d (snd l))" by (auto simp: lv_append_eq_Some)
  have len: "d \<le> length (fst l)" using close_levels_length[OF x(2)] x(1) by simp
  have o: "lv_open d (der_tag t) Asn1 l = Some (take d (fst l) @ [x @ der_tag t, []], take d (snd l) @ [Asn1])"
    using x by (simp add: lv_open_def lv_push_def Some)
  have a: "lv_append (Suc d) c (take d (fst l) @ [x @ der_tag t, []], take d (snd l) @ [Asn1]) =
      Some (take d (fst l) @ [x @ der_tag t, c], take d (snd l) @ [Asn1])"
    using x len by (simp add: lv_append_alt)
  show ?thesis using x len by (simp add: o a) (simp add: lv_flush_def lv_append_alt der_tlv_def)
qed

lemma tlv_implements:
  assumes "\<And>x. cbb_implements (body x) (lv_append (Suc d) c)"
  shows "cbb_implements (sbind (CBB_add_asn1 d t) (\<lambda>x. sbind (body x) (\<lambda>_. CBB_flush d)))
    (\<lambda>l. if length c \<le> 0xfffffffe then lv_append d (der_tlv t c) l else None)"
  by (rule builder.bind_both[OF CBB_add_asn1_implements builder.bind[OF assms CBB_flush_implements]])
    (rule lv_tlv)

section \<open>Integers, strings and booleans\<close>

lemma lv_append_if_simp: "length c \<le> 0xfffffffe \<Longrightarrow>
    (\<lambda>l. if length c \<le> 0xfffffffe then lv_append d (der_tlv t c) l else None) = lv_append d (der_tlv t c)"
  by simp

lemma add_uint64_loop_started:
  "cbb_implements (add_uint64_loop d v True n) (lv_each d (be_bytes n v))"
proof (induction n)
  case 0
  show ?case using ret_implements[of "()"] by (simp only: add_uint64_loop.simps be_bytes.simps simp_thms if_False)
next
  case (Suc n)
  have "cbb_implements (add_uint64_loop d v True (Suc n))
      (lv_each d ([ucast (drop_bit (8 * n) v)] @ be_bytes n v))"
    unfolding add_uint64_loop.simps Let_def by (simp only: simp_thms if_False) (rule each_implements[OF u8_implements Suc])
  then show ?case unfolding be_bytes_Cons append_Cons append_Nil .
qed

lemma add_uint64_loop_fresh:
  defines "contents \<equiv> \<lambda>s. if s = [] then [0] else if hd s AND 0x80 \<noteq> 0 then 0 # s else s"
  shows "cbb_implements (add_uint64_loop d v False n)
    (lv_each d (contents (dropWhile ((=) 0) (be_bytes n v))))"
proof (induction n)
  case 0
  show ?case using u8_implements[of d 0]
    by (simp add: contents_def)
next
  case (Suc n)
  let ?b = "ucast (drop_bit (8 * n) v) :: u8"
  show ?case
  proof (cases "?b = 0")
    case True
    then show ?thesis using Suc by (simp add: be_bytes_Cons Let_def del: be_bytes.simps)
  next
    case False
    let ?pad = "if ?b AND 0x80 \<noteq> 0 then [0] else []"
    have "cbb_implements (if ?b AND 0x80 \<noteq> 0 then CBB_add_u8 d 0 else ret ()) (lv_each d ?pad)"
      using u8_implements[of d 0] ret_implements[of "()" d] by simp
    from each_implements[OF this each_implements[OF u8_implements add_uint64_loop_started]] False
    have "cbb_implements (add_uint64_loop d v False (Suc n)) (lv_each d (?pad @ [?b] @ be_bytes n v))"
      by (simp add: Let_def)
    moreover have "?pad @ [?b] @ be_bytes n v = contents (dropWhile ((=) 0) (be_bytes (Suc n) v))"
      using False by (simp add: contents_def be_bytes_Cons del: be_bytes.simps)
    ultimately show ?thesis by (simp only:)
  qed
qed

lemma uint64_contents_nonempty [simp]: "uint64_contents v \<noteq> []"
  by (simp add: uint64_contents_def Let_def)

lemma CBB_add_asn1_uint64_implements:
  "cbb_implements (CBB_add_asn1_uint64 d v) (lv_append d (der_tlv CBS_ASN1_INTEGER (uint64_contents v)))"
proof -
  have "cbb_implements (add_uint64_loop (Suc d) v False 8) (lv_append (Suc d) (uint64_contents v))"
    using add_uint64_loop_fresh[of "Suc d" v 8]
    by (simp add: uint64_contents_def Let_def split: if_splits)
  from tlv_implements[OF this] length_uint64_contents[of v] show ?thesis
    unfolding CBB_add_asn1_uint64_def by simp
qed

lemma add_bytes_down_implements:
  "i < length bytes \<Longrightarrow> cbb_implements (add_bytes_down d bytes i) (lv_append d (rev (take (Suc i) bytes)))"
proof (induction i)
  case 0
  then show ?case using CBB_add_u8_implements[of d "bytes ! 0"] by (simp add: take_Suc_conv_app_nth)
next
  case (Suc i)
  then have "cbb_implements (add_bytes_down d bytes i) (lv_append d (rev (take (Suc i) bytes)))" by simp
  from builder.bind_both[OF CBB_add_u8_implements this, of d "bytes ! Suc i"] Suc.prems
  show ?case by (simp add: lv_append_append take_Suc_conv_app_nth[of "Suc i"])
qed

lemma int64_start_strip:
  "i < length bytes \<Longrightarrow> rev (take (Suc (int64_start bytes i)) bytes) = strip_sign (rev (take (Suc i) bytes))"
proof (induction i)
  case (Suc i)
  have "rev (take (Suc (Suc i)) bytes) = bytes ! Suc i # bytes ! i # rev (take i bytes)"
    using Suc.prems by (simp add: take_Suc_conv_app_nth)
  moreover have "rev (take (Suc i) bytes) = bytes ! i # rev (take i bytes)"
    using Suc.prems by (simp add: take_Suc_conv_app_nth)
  ultimately show ?case using Suc by simp
qed (simp add: take_Suc_conv_app_nth)

lemma int64_start_le: "int64_start bytes i \<le> i"
  by (induction i) auto

lemma CBB_add_asn1_int64_implements:
  "cbb_implements (CBB_add_asn1_int64 d v) (lv_append d (der_tlv CBS_ASN1_INTEGER (int64_contents v)))"
proof (cases "sint v \<ge> 0")
  case True
  then show ?thesis using CBB_add_asn1_uint64_implements
    by (simp add: CBB_add_asn1_int64_def int64_contents_def)
next
  case False
  let ?bytes = "rev (be_bytes 8 v)"
  have "cbb_implements (add_bytes_down (Suc d) ?bytes (int64_start ?bytes 7)) (lv_append (Suc d) (int64_contents v))"
    using add_bytes_down_implements[of "int64_start ?bytes 7" ?bytes "Suc d"] int64_start_le[of ?bytes 7]
      int64_start_strip[of 7 ?bytes] False by (simp add: int64_contents_def)
  from tlv_implements[OF this] int64_contents_extend[of v] show ?thesis
    using False by (simp add: CBB_add_asn1_int64_def Let_def)
qed

lemma CBB_add_asn1_octet_string_implements:
  "length data < SIZE_MOD \<Longrightarrow> cbb_implements (CBB_add_asn1_octet_string d data)
    (\<lambda>l. if length data \<le> 0xfffffffe then lv_append d (der_tlv CBS_ASN1_OCTETSTRING data) l else None)"
  unfolding CBB_add_asn1_octet_string_def by (rule tlv_implements[OF CBB_add_bytes_implements])

lemma CBB_add_asn1_bool_implements:
  "cbb_implements (CBB_add_asn1_bool d b) (lv_append d (der_tlv CBS_ASN1_BOOLEAN [if b then 0xff else 0]))"
  unfolding CBB_add_asn1_bool_def
  using tlv_implements[OF CBB_add_u8_implements, of d CBS_ASN1_BOOLEAN "if b then 0xff else 0"] by simp

text \<open>A failed flush leaves the builder marked as failed, so that no later operation that flushes can
  succeed.\<close>

lemma failed_flush_stays:
  assumes "CBB_flush d st = (None, st')" and "cbb_base st = Some b" and "d \<le> length (cbb_children st)"
  shows "fst (CBB_flush e st') = None \<and> fst (CBB_add_bytes e bs st') = None \<and> fst (CBB_add_asn1 e t st') = None"
proof -
  from assms obtain b' chs where f: "flush_chain b (drop d (cbb_children st)) = (False, b', chs)"
    and st': "cbb_base st' = Some b'"
    by (auto simp: CBB_flush_def split: prod.splits if_splits)
  have err: "cb_error b'" by (rule flush_chain_False[OF f])
  have "flush_chain b' xs = (False, b', xs)" for xs using err by (cases xs) auto
  then have "fst (CBB_flush e st') = None" using st' by (simp add: CBB_flush_def)
  then show ?thesis
    by (auto simp: CBB_add_bytes_def CBB_add_asn1_def sbind_def split: prod.splits option.splits)
qed

end
