(* ===== verification/Asn1_Objects.thy ===== *)
theory Asn1_Objects
  imports Cbb_Asn1 "HOL-Library.List_Lexorder"
begin

text \<open>
  Object identifiers and sets: the text form of an identifier and its encoding are inverse
  to each other in both directions, and \<open>CBB_flush_asn1_set_of\<close> sorts the elements of a set
  by their encodings.
\<close>

section \<open>Decimal numbers\<close>

lemma decimal_small [simp]: "n < 10 \<Longrightarrow> decimal n = [0x30 + of_nat n]"
  by (simp add: decimal.simps)

lemma decimal_step: "0 < n \<Longrightarrow> k < 10 \<Longrightarrow> decimal (10 * n + k) = decimal n @ [0x30 + of_nat k]"
  by (subst decimal.simps) simp

lemma decimal_nonempty [simp]: "decimal n \<noteq> []"
  by (simp add: decimal.simps[of n])

lemma digit_cases:
  assumes "\<not> ((u :: u8) < 0x30 \<or> u > 0x39)"
  obtains k where "k < 10" "u = 0x30 + of_nat k" "u - 0x30 = of_nat k"
proof
  have "unat u = unat (u - 0x30) + 0x30" using assms by (simp add: word_less_nat_alt unat_sub_if_size word_size)
  moreover have "unat u \<le> 0x39" using assms by (simp add: word_less_nat_alt)
  ultimately show "unat (u - 0x30) < 10" by simp
qed simp_all

lemma digit_facts:
  assumes "k < 10"
  shows "(0x30 + of_nat k :: u8) \<noteq> 0x2e" "\<not> (0x30 + of_nat k :: u8) < 0x30" "\<not> (0x30 + of_nat k :: u8) > 0x39"
proof -
  have "k \<in> {0, 1, 2, 3, 4, 5, 6, 7, 8, 9}" using assms by auto
  then show "(0x30 + of_nat k :: u8) \<noteq> 0x2e" "\<not> (0x30 + of_nat k :: u8) < 0x30" "\<not> (0x30 + of_nat k :: u8) > 0x39"
    by auto
qed

lemma ucast_digit: "k < 10 \<Longrightarrow> ucast (of_nat k :: u8) = (of_nat k :: u64)"
proof -
  assume "k < 10"
  then have "k \<in> {0, 1, 2, 3, 4, 5, 6, 7, 8, 9}" by auto
  then show ?thesis by auto
qed

lemma unat_of_nat64: "n < 2 ^ 64 \<Longrightarrow> unat (of_nat n :: u64) = n"
  by (simp add: unat_of_nat take_bit_nat_eq_self)

text \<open>The overflow checks are exact.\<close>

lemma dotted_check:
  assumes "n < 2 ^ 64" and "k < 10"
  shows "((of_nat n :: u64) > UINT64_MAX div 10 \<or> of_nat n * 10 > UINT64_MAX - of_nat k) \<longleftrightarrow>
    \<not> 10 * n + k < 2 ^ 64"
proof -
  have max: "unat UINT64_MAX = 2 ^ 64 - 1" "unat (UINT64_MAX div 10) = (2 ^ 64 - 1) div 10"
    by (simp_all add: UINT64_MAX_def unat_div)
  have k: "unat (of_nat k :: u64) = k" using assms(2) by (simp add: unat_of_nat64)
  have sub: "unat (UINT64_MAX - of_nat k) = 2 ^ 64 - 1 - k"
    using assms(2) max(1) k by (simp add: unat_sub_if_size word_size)
  show ?thesis
  proof (cases "n \<le> (2 ^ 64 - 1) div 10")
    case True
    then have "unat ((of_nat n :: u64) * 10) = n * 10"
      using unat_of_nat64[of n] assms(1) by (simp add: unat_mult_lem[THEN iffD1])
    then show ?thesis using True unat_of_nat64[OF assms(1)] max sub assms(2)
      by (auto simp: word_less_nat_alt)
  next
    case False
    then show ?thesis using unat_of_nat64[OF assms(1)] max(2) by (simp add: word_less_nat_alt)
  qed
qed

lemma dotted_digit:
  assumes "n < 2 ^ 64" and "k < 10"
  shows "dotted_decimal_loop (of_nat n) seen ((0x30 + of_nat k) # s) =
    (if (seen \<and> n = 0) \<or> \<not> 10 * n + k < 2 ^ 64 then (None, s)
     else dotted_decimal_loop (of_nat (10 * n + k)) True s)"
proof -
  have "(of_nat n :: u64) = 0 \<longleftrightarrow> n = 0" using unat_of_nat64[OF assms(1)] by (metis unat_eq_zero of_nat_0)
  then show ?thesis
    using digit_facts[OF assms(2)] dotted_check[OF assms] ucast_digit[OF assms(2)]
    by (auto simp: mult.commute)
qed

lemma dotted_decimal_digits:
  assumes "n < 2 ^ 64"
  shows "dotted_decimal_loop 0 False (decimal n @ s) = dotted_decimal_loop (of_nat n) True s"
  using assms
proof (induction n arbitrary: s rule: decimal.induct)
  case (1 n)
  show ?case
  proof (cases "n < 10")
    case True
    then show ?thesis using dotted_digit[of 0 n False s] by simp
  next
    case False
    have n: "n = 10 * (n div 10) + n mod 10" by simp
    have "decimal n = decimal (n div 10) @ [0x30 + of_nat (n mod 10)]"
      using decimal_step[of "n div 10" "n mod 10"] False by simp
    moreover have "n div 10 < 2 ^ 64" "n div 10 \<noteq> 0" using 1(2) False by auto
    ultimately show ?thesis
      using 1 False dotted_digit[of "n div 10" "n mod 10" True s] n by simp
  qed
qed

definition dot_rest :: "u8 list \<Rightarrow> u8 list" where
  "dot_rest r = (if r = [] then [] else 0x2e # r)"

lemma dotted_decimal_sound:
  "dotted_decimal_loop (of_nat n) True s = (Some v, r) \<Longrightarrow> n < 2 ^ 64 \<Longrightarrow>
   decimal (unat v) @ dot_rest r = decimal n @ s"
proof (induction s arbitrary: n)
  case Nil
  then show ?case by (auto simp: dot_rest_def unat_of_nat64)
next
  case (Cons u s)
  show ?case
  proof (cases "u = 0x2e \<and> CBS_len s > 0")
    case True
    then show ?thesis using Cons.prems by (auto simp: dot_rest_def unat_of_nat64 CBS_len_def)
  next
    case False
    with Cons.prems(1) have "\<not> (u < 0x30 \<or> u > 0x39)" by (auto split: if_splits)
    then obtain k where k: "k < 10" "u = 0x30 + of_nat k" by (rule digit_cases)
    from Cons.prems(1) have "n \<noteq> 0" "10 * n + k < 2 ^ 64"
      and l: "dotted_decimal_loop (of_nat (10 * n + k)) True s = (Some v, r)"
      unfolding k(2) dotted_digit[OF Cons.prems(2) k(1)] by (simp_all split: if_splits)
    with Cons.IH[OF l] k decimal_step[of n k] show ?thesis by simp
  qed
qed

lemma parse_dotted_decimal_iff:
  "parse_dotted_decimal s = (Some v, r) \<longleftrightarrow> s = decimal (unat v) @ dot_rest r"
proof
  assume p: "parse_dotted_decimal s = (Some v, r)"
  show "s = decimal (unat v) @ dot_rest r"
  proof (cases s)
    case Nil
    with p show ?thesis by (simp add: parse_dotted_decimal_def)
  next
    case (Cons u t)
    from p Cons have "\<not> (u < 0x30 \<or> u > 0x39)" by (auto simp: parse_dotted_decimal_def split: if_splits)
    then obtain k where k: "k < 10" "u = 0x30 + of_nat k" by (rule digit_cases)
    with p Cons dotted_digit[of 0 k False t] have "dotted_decimal_loop (of_nat k) True t = (Some v, r)"
      by (simp add: parse_dotted_decimal_def)
    from dotted_decimal_sound[OF this] k Cons show ?thesis by simp
  qed
next
  assume s: "s = decimal (unat v) @ dot_rest r"
  have "unat v < 2 ^ 64" using unsigned_less[of v, where 'a = nat] by simp
  then show "parse_dotted_decimal s = (Some v, r)"
    using dotted_decimal_digits[of "unat v" "dot_rest r"]
    by (auto simp: parse_dotted_decimal_def s dot_rest_def CBS_len_def)
qed

section \<open>Object identifiers\<close>

text \<open>The components separated by dots, and their encoding.\<close>

fun dotted :: "u64 list \<Rightarrow> u8 list" where
  "dotted [] = []"
| "dotted (c # cs) = decimal (unat c) @ dot_rest (dotted cs)"

definition oid_valid :: "u64 \<Rightarrow> u64 \<Rightarrow> bool" where
  "oid_valid a b \<longleftrightarrow> \<not> (a > 2 \<or> (a < 2 \<and> b > 39) \<or> b > UINT64_MAX - 80)"

definition oid_bytes :: "u64 \<Rightarrow> u64 \<Rightarrow> u64 list \<Rightarrow> u8 list" where
  "oid_bytes a b rest = base128_bytes (40 * a + b) @ concat (map base128_bytes rest)"

lemma parse_dotted [simp]: "parse_dotted_decimal (dotted (c # cs)) = (Some c, dotted cs)"
  by (simp add: parse_dotted_decimal_iff)

lemma dotted_nonempty [simp]: "dotted (c # cs) \<noteq> []"
  by simp

lemma oid_text_loop_implements:
  "cbb_implements (oid_text_loop d (dotted cs)) (lv_each d (concat (map base128_bytes cs)))"
proof (induction cs)
  case Nil
  have "oid_text_loop d (dotted []) = ret ()" by (subst oid_text_loop.simps) (simp add: CBS_len_def)
  then show ?case by (simp only: list.map concat.simps ret_implements)
next
  case (Cons c cs)
  have "oid_text_loop d (dotted (c # cs)) =
      sbind (add_base128_integer d c) (\<lambda>_. oid_text_loop d (dotted cs))"
    by (subst oid_text_loop.simps) (simp add: CBS_len_def del: dotted.simps)
  moreover have "cbb_implements (sbind (add_base128_integer d c) (\<lambda>_. oid_text_loop d (dotted cs)))
      (lv_each d (base128_bytes c @ concat (map base128_bytes cs)))"
    by (intro each_implements Cons) (simp add: add_base128_integer_implements)
  ultimately show ?case by simp
qed

lemma oid_text_loop_sound: "oid_text_loop d s st = (Some u, st') \<Longrightarrow> \<exists>cs. s = dotted cs"
proof (induction d s arbitrary: st rule: oid_text_loop.induct)
  case (1 d s)
  show ?case
  proof (cases "s = []")
    case True
    then show ?thesis by (intro exI[of _ "[]"]) simp
  next
    case False
    with 1(2) obtain a s' st1 where a: "parse_dotted_decimal s = (Some a, s')"
      and r: "oid_text_loop d s' st1 = (Some u, st')"
      by (subst (asm) oid_text_loop.simps) (auto simp: CBS_len_def op_inv split: prod.splits option.splits)
    from 1(1)[OF _ a[symmetric] refl r] False obtain cs where "s' = dotted cs"
      by (auto simp: CBS_len_def)
    with a have "s = dotted (a # cs)" by (simp add: parse_dotted_decimal_iff)
    then show ?thesis by blast
  qed
qed

lemma oid_from_text_implements:
  assumes "oid_valid a b"
  shows "cbb_implements (CBB_add_asn1_oid_from_text d (dotted (a # b # rest))) (lv_append d (oid_bytes a b rest))"
proof -
  have "CBB_add_asn1_oid_from_text d (dotted (a # b # rest)) = sbind (CBB_flush d) (\<lambda>_.
      sbind (add_base128_integer d (40 * a + b)) (\<lambda>_. oid_text_loop d (dotted rest)))"
    using assms by (auto simp: CBB_add_asn1_oid_from_text_def oid_valid_def simp del: dotted.simps)
  moreover have "cbb_implements (add_base128_integer d (40 * a + b)) (lv_each d (base128_bytes (40 * a + b)))"
    by (simp add: add_base128_integer_implements)
  from each_implements[OF this oid_text_loop_implements[of d rest]]
  have "cbb_implements (sbind (add_base128_integer d (40 * a + b)) (\<lambda>_. oid_text_loop d (dotted rest)))
      (lv_append d (oid_bytes a b rest))" by (simp add: oid_bytes_def)
  then have "cbb_implements (sbind (CBB_flush d) (\<lambda>_. sbind (add_base128_integer d (40 * a + b))
      (\<lambda>_. oid_text_loop d (dotted rest)))) (lv_append d (oid_bytes a b rest))"
    by (rule builder.bind_both[OF CBB_flush_implements]) (rule lv_flush_append)
  ultimately show ?thesis by simp
qed

lemma oid_from_text_sound:
  assumes "CBB_add_asn1_oid_from_text d text st = (Some u, st')"
  shows "\<exists>a b rest. text = dotted (a # b # rest) \<and> oid_valid a b"
proof -
  from assms obtain a s1 b s2 st1 where "parse_dotted_decimal text = (Some a, s1)"
    "parse_dotted_decimal s1 = (Some b, s2)" "oid_valid a b" "oid_text_loop d s2 st1 = (Some u, st')"
    by (auto simp: CBB_add_asn1_oid_from_text_def oid_valid_def op_inv
        split: prod.splits option.splits if_splits)
  with oid_text_loop_sound[of d s2 st1 u st'] show ?thesis
    by (fastforce simp: parse_dotted_decimal_iff)
qed

text \<open>Printing.\<close>

lemma length_decimal: "n < 10 ^ Suc k \<Longrightarrow> length (decimal n) \<le> Suc k"
proof (induction k arbitrary: n)
  case (Suc k)
  then have "length (decimal (n div 10)) \<le> Suc k" by simp
  then show ?case by (subst decimal.simps) simp
qed simp

lemma length_decimal_u64: "length (decimal (unat (v :: u64))) \<le> 20"
  using length_decimal[of "unat v" 19] unsigned_less[of v, where 'a = nat] by simp

lemma add_decimal_implements: "cbb_implements (add_decimal d v) (lv_each d (decimal (unat v)))"
  unfolding add_decimal_def using length_decimal_u64[of v]
  by (intro bytes_implements) (simp_all add: SIZE_MOD_def)

lemma dot_rest_dotted: "dot_rest (dotted cs) = concat (map (\<lambda>c. 0x2e # decimal (unat c)) cs)"
  by (induction cs) (auto simp: dot_rest_def)

lemma parse_base128_components:
  "parse_base128_integer (concat (map base128_bytes (c # cs))) = (Some c, concat (map base128_bytes cs))"
  by (simp add: base128.dec_enc)

lemma oid_components_loop_implements:
  "cbb_implements (oid_components_loop (concat (map base128_bytes cs))) (lv_each 0 (dot_rest (dotted cs)))"
proof (induction cs)
  case Nil
  have "oid_components_loop (concat (map base128_bytes [])) = ret ()"
    by (subst oid_components_loop.simps) (simp add: CBS_len_def)
  then show ?case by (simp only: dotted.simps dot_rest_def if_True simp_thms ret_implements)
next
  case (Cons c cs)
  let ?s = "concat (map base128_bytes cs)"
  have "CBS_len (concat (map base128_bytes (c # cs))) \<noteq> 0" by (simp add: CBS_len_def)
  then have "oid_components_loop (concat (map base128_bytes (c # cs))) =
      sbind (CBB_add_u8 0 0x2e) (\<lambda>_. sbind (add_decimal 0 c) (\<lambda>_. oid_components_loop ?s))"
    by (subst oid_components_loop.simps)
      (simp only: parse_base128_components if_True split simp_thms option.case prod.case)
  moreover have "cbb_implements (sbind (CBB_add_u8 0 0x2e) (\<lambda>_. sbind (add_decimal 0 c) (\<lambda>_. oid_components_loop ?s)))
      (lv_each 0 ([0x2e] @ decimal (unat c) @ dot_rest (dotted cs)))"
    by (intro each_implements u8_implements add_decimal_implements Cons)
  moreover have "[0x2e] @ decimal (unat c) @ dot_rest (dotted cs) = dot_rest (dotted (c # cs))"
    by (simp add: dot_rest_def)
  ultimately show ?case by (simp only:)
qed

lemma oid_components_loop_sound:
  "oid_components_loop s st = (Some u, st') \<Longrightarrow> \<exists>cs. s = concat (map base128_bytes cs)"
proof (induction s arbitrary: st rule: oid_components_loop.induct)
  case (1 s)
  show ?case
  proof (cases "s = []")
    case True
    then show ?thesis by (intro exI[of _ "[]"]) simp
  next
    case False
    with 1(2) obtain c s' st1 where c: "parse_base128_integer s = (Some c, s')"
      and r: "oid_components_loop s' st1 = (Some u, st')"
      by (subst (asm) oid_components_loop.simps) (auto simp: CBS_len_def op_inv split: prod.splits option.splits)
    from 1(1)[OF _ c[symmetric] refl r] False obtain cs where "s' = concat (map base128_bytes cs)"
      by (auto simp: CBS_len_def)
    with base128.dec_sound[OF c] have "s = concat (map base128_bytes (c # cs))" by simp
    then show ?thesis by blast
  qed
qed

text \<open>The text of an encoding: the two components packed into the first integer, then the rest.\<close>

definition first_component :: "u64 \<Rightarrow> u64" where
  "first_component v = (if v \<ge> 80 then 2 else v div 40)"

definition second_component :: "u64 \<Rightarrow> u64" where
  "second_component v = (if v \<ge> 80 then v - 80 else v mod 40)"

lemma oid_components:
  "40 * first_component v + second_component v = v \<and> oid_valid (first_component v) (second_component v)"
proof (cases "v \<ge> 80")
  case True
  then have "unat v - 80 \<le> unat (UINT64_MAX - 80)" "80 \<le> unat v"
    using unsigned_less[of v, where 'a = nat] by (simp_all add: UINT64_MAX_def word_le_nat_alt)
  then have "v - 80 \<le> UINT64_MAX - 80" using True
    by (simp add: word_le_nat_alt unat_sub_if_size word_size)
  then show ?thesis using True
    by (simp add: first_component_def second_component_def oid_valid_def not_less)
next
  case False
  then have v: "unat v < 80" by (simp add: word_le_nat_alt)
  have d: "unat (v div 40) = unat v div 40" "unat (v mod 40) = unat v mod 40"
    by (simp_all add: unat_div unat_mod)
  have "unat v div 40 \<le> 1" "unat v mod 40 \<le> 39" using v by auto
  then have "v div 40 \<le> 2" "v mod 40 \<le> 39" using d by (simp_all add: word_le_nat_alt)
  moreover have "(39 :: u64) \<le> UINT64_MAX - 80" by (simp add: UINT64_MAX_def)
  moreover have "40 * (v div 40) + v mod 40 = v" by (rule mult_div_mod_eq)
  ultimately show ?thesis using False
    by (auto simp: first_component_def second_component_def oid_valid_def not_less not_le)
qed

lemma oid_to_text_implements:
  "cbb_implements (if v \<ge> 80 then sbind (CBB_add_bytes 0 [0x32, 0x2e]) (\<lambda>_. add_decimal 0 (v - 80))
      else sbind (add_decimal 0 (v div 40)) (\<lambda>_. sbind (CBB_add_u8 0 0x2e) (\<lambda>_. add_decimal 0 (v mod 40))))
    (lv_each 0 (decimal (unat (first_component v)) @ 0x2e # decimal (unat (second_component v))))"
proof (cases "v \<ge> 80")
  case True
  have "cbb_implements (CBB_add_bytes 0 [0x32, 0x2e]) (lv_each 0 [0x32, 0x2e])"
    by (rule bytes_implements) (simp_all add: SIZE_MOD_def)
  then have "cbb_implements (sbind (CBB_add_bytes 0 [0x32, 0x2e]) (\<lambda>_. add_decimal 0 (v - 80)))
      (lv_each 0 ([0x32, 0x2e] @ decimal (unat (v - 80))))"
    by (intro each_implements add_decimal_implements)
  then show ?thesis using True by (simp add: first_component_def second_component_def)
next
  case False
  have "cbb_implements (sbind (add_decimal 0 (v div 40)) (\<lambda>_. sbind (CBB_add_u8 0 0x2e) (\<lambda>_. add_decimal 0 (v mod 40))))
      (lv_each 0 (decimal (unat (v div 40)) @ [0x2e] @ decimal (unat (v mod 40))))"
    by (intro each_implements u8_implements add_decimal_implements)
  then show ?thesis using False by (simp add: first_component_def second_component_def)
qed

lemma dotted_text: "dotted (a # b # cs) = decimal (unat a) @ 0x2e # decimal (unat b) @ dot_rest (dotted cs)"
  by (simp add: dot_rest_def)

text \<open>What the printing pipeline appends, for an encoding \<open>v # cs\<close>.\<close>

lemma oid_print_implements:
  "cbb_implements
     (sbind (if v \<ge> 80 then sbind (CBB_add_bytes 0 [0x32, 0x2e]) (\<lambda>_. add_decimal 0 (v - 80))
        else sbind (add_decimal 0 (v div 40)) (\<lambda>_. sbind (CBB_add_u8 0 0x2e) (\<lambda>_. add_decimal 0 (v mod 40))))
      (\<lambda>_. sbind (oid_components_loop (concat (map base128_bytes cs))) (\<lambda>_. CBB_add_u8 0 0)))
     (lv_append 0 (dotted (first_component v # second_component v # cs) @ [0]))"
proof -
  have "cbb_implements
     (sbind (if v \<ge> 80 then sbind (CBB_add_bytes 0 [0x32, 0x2e]) (\<lambda>_. add_decimal 0 (v - 80))
        else sbind (add_decimal 0 (v div 40)) (\<lambda>_. sbind (CBB_add_u8 0 0x2e) (\<lambda>_. add_decimal 0 (v mod 40))))
      (\<lambda>_. sbind (oid_components_loop (concat (map base128_bytes cs))) (\<lambda>_. CBB_add_u8 0 0)))
     (lv_each 0 ((decimal (unat (first_component v)) @ 0x2e # decimal (unat (second_component v))) @
        dot_rest (dotted cs) @ [0]))"
    by (intro each_implements oid_to_text_implements oid_components_loop_implements u8_implements)
  then show ?thesis by (simp add: dotted_text del: dotted.simps)
qed

lemma CBB_init_total: "\<forall>n. alloc n \<Longrightarrow> \<exists>st. CBB_init alloc n = (Some (), st)"
  by (simp add: CBB_init_def cbb_init_def)

text \<open>Building from scratch with an operation that appends \<open>bs\<close>, then finishing.\<close>

lemma build_Some:
  assumes "cbb_implements p (lv_append 0 bs)" and "CBB_init alloc n = (Some u, st)" and "n < SIZE_MOD"
    and "sbind p (\<lambda>_. CBB_finish 0 True True) st = (Some out, st')"
  shows "out = bs"
proof -
  note init = CBB_init_ok[OF assms(2,3)]
  from assms(4) obtain x st1 where p: "p st = (Some x, st1)" and f: "CBB_finish 0 True True st1 = (Some out, st')"
    by (auto simp: op_inv)
  from implementsD(1)[OF assms(1) _ p] init have "cbb_ok st1" "levels st1 = ([bs], [])"
    by (auto simp: lv_append_alt)
  with CBB_finish_Some[OF _ f] show ?thesis by simp
qed

lemma build_progress:
  assumes "cbb_implements p (lv_append 0 bs)" and "CBB_init alloc n = (Some u, st)" and "n < SIZE_MOD"
    and "\<forall>m. alloc m" and "length bs < SIZE_MOD"
  shows "\<exists>st'. sbind p (\<lambda>_. CBB_finish 0 True True) st = (Some bs, st')"
proof -
  note init = CBB_init_ok[OF assms(2,3)]
  have l: "lv_append 0 bs (levels st) = Some ([bs], [])" using init by (simp add: lv_append_alt)
  have room: "cbb_room st ([bs], [])" using init assms(4,5) by (simp add: levels_size_def)
  from implementsD(2)[OF assms(1) _ l room] init obtain x st1 where p: "p st = (Some x, st1)" by blast
  from implementsD(1)[OF assms(1) _ p] init l have s1: "cbb_ok st1" "levels st1 = ([bs], [])" "cbb_keeps st st1"
    by auto
  from CBB_finish_progress[OF s1(1), of bs] s1 builder.keeps_room[OF s1(3) room] obtain st'
    where "CBB_finish 0 True True st1 = (Some bs, st')" by auto
  with p show ?thesis by simp
qed

lemma CBS_asn1_oid_to_text_Some:
  assumes "CBS_asn1_oid_to_text alloc s = Some t"
  shows "\<exists>a b rest. oid_valid a b \<and> s = oid_bytes a b rest \<and> t = dotted (a # b # rest) @ [0]"
proof -
  from assms obtain u st v copy where init: "CBB_init alloc 32 = (Some u, st)"
    and v: "parse_base128_integer s = (Some v, copy)"
    and t: "fst (sbind (if v \<ge> 80 then sbind (CBB_add_bytes 0 [0x32, 0x2e]) (\<lambda>_. add_decimal 0 (v - 80))
                  else sbind (add_decimal 0 (v div 40)) (\<lambda>_. sbind (CBB_add_u8 0 0x2e) (\<lambda>_.
                       add_decimal 0 (v mod 40)))) (\<lambda>_.
           sbind (oid_components_loop copy) (\<lambda>_.
           sbind (CBB_add_u8 0 0) (\<lambda>_. CBB_finish 0 True True))) st) = Some t"
    unfolding CBS_asn1_oid_to_text_def by (auto split: prod.splits option.splits simp del: dotted.simps)
  then obtain st' where t': "sbind (sbind (if v \<ge> 80 then sbind (CBB_add_bytes 0 [0x32, 0x2e]) (\<lambda>_. add_decimal 0 (v - 80))
        else sbind (add_decimal 0 (v div 40)) (\<lambda>_. sbind (CBB_add_u8 0 0x2e) (\<lambda>_. add_decimal 0 (v mod 40))))
      (\<lambda>_. sbind (oid_components_loop copy) (\<lambda>_. CBB_add_u8 0 0))) (\<lambda>_. CBB_finish 0 True True) st = (Some t, st')"
    unfolding sbind_assoc by (metis prod.collapse)
  then obtain st1 u1 st2 where "oid_components_loop copy st1 = (Some u1, st2)" by (auto simp: op_inv)
  then obtain cs where cs: "copy = concat (map base128_bytes cs)" using oid_components_loop_sound by blast
  from build_Some[OF oid_print_implements init _ t'[unfolded cs]]
  have "t = dotted (first_component v # second_component v # cs) @ [0]" by (simp add: SIZE_MOD_def)
  moreover have "s = oid_bytes (first_component v) (second_component v) cs"
    using base128.dec_sound[OF v] oid_components[of v] cs by (simp add: oid_bytes_def)
  ultimately show ?thesis using oid_components[of v] by blast
qed

lemma component_range:
  assumes "oid_valid a b"
  shows "first_component (40 * a + b) = a \<and> second_component (40 * a + b) = b"
proof (cases "a < 2")
  case True
  then have "unat a = 0 \<or> unat a = 1" by (auto simp: word_less_nat_alt)
  then have "a = 0 \<or> a = 1" by (auto simp: word_unat_eq_iff)
  moreover have b: "unat b \<le> 39" using assms True by (auto simp: oid_valid_def word_le_nat_alt not_less)
  then have "unat (40 + b) = 40 + unat b" by (simp add: unat_add_lem[THEN iffD1])
  then have "b div 40 = 0" "b mod 40 = b" "(40 + b) div 40 = 1" "(40 + b) mod 40 = b"
    "\<not> b \<ge> 80" "\<not> 40 + b \<ge> 80"
    using b by (simp_all add: word_unat_eq_iff unat_div unat_mod word_le_nat_alt)
  ultimately show ?thesis by (auto simp: first_component_def second_component_def)
next
  case False
  then have a: "a = 2" using assms by (auto simp: oid_valid_def)
  have "unat b \<le> 2 ^ 64 - 81" using assms by (auto simp: oid_valid_def UINT64_MAX_def word_le_nat_alt not_less)
  then have "unat (80 + b) = 80 + unat b" by (simp add: unat_add_lem[THEN iffD1])
  then show ?thesis using a by (simp add: first_component_def second_component_def word_le_nat_alt)
qed

lemma CBS_asn1_oid_to_text_progress:
  assumes "oid_valid a b" and "\<forall>n. alloc n" and "length (dotted (a # b # rest)) + 1 < SIZE_MOD"
  shows "CBS_asn1_oid_to_text alloc (oid_bytes a b rest) = Some (dotted (a # b # rest) @ [0])"
proof -
  obtain st where init: "CBB_init alloc 32 = (Some (), st)" using CBB_init_total[OF assms(2)] by blast
  let ?v = "40 * a + b"
  have p: "parse_base128_integer (oid_bytes a b rest) = (Some ?v, concat (map base128_bytes rest))"
    by (simp add: oid_bytes_def base128.dec_enc)
  from build_progress[OF oid_print_implements[of ?v rest] init _ assms(2)] assms(3) component_range[OF assms(1)]
  show ?thesis by (auto simp: CBS_asn1_oid_to_text_def init p sbind_assoc SIZE_MOD_def simp del: dotted.simps)
qed

section \<open>Sets\<close>

text \<open>The comparison is the lexicographic order on byte strings.\<close>

lemma compare_set_of_Cons: "compare_set_of_element (x # a) (y # b) =
    (if x < y then -1 else if y < x then 1 else compare_set_of_element a b)"
  by (simp add: compare_set_of_element_def Let_def CBS_len_def CBS_data_def)

lemma compare_set_of_element_le: "compare_set_of_element a b \<le> 0 \<longleftrightarrow> a \<le> b"
proof (induction a arbitrary: b)
  case Nil
  then show ?case by (simp add: compare_set_of_element_def CBS_len_def CBS_data_def)
next
  case (Cons x a)
  show ?case
  proof (cases b)
    case Nil
    then show ?thesis by (simp add: compare_set_of_element_def CBS_len_def CBS_data_def)
  next
    case (Cons y c)
    then show ?thesis using Cons.IH[of c] by (auto simp: compare_set_of_Cons not_less_iff_gr_or_eq)
  qed
qed

lemma insert_by_insort: "insert_by compare_set_of_element x xs = insort x xs"
  by (induction xs) (simp_all add: compare_set_of_element_le)

lemma qsort_sort: "qsort compare_set_of_element xs = sort xs"
  by (induction xs) (simp_all add: qsort_def insert_by_insort)

definition is_der :: "u8 list \<Rightarrow> bool" where
  "is_der e \<longleftrightarrow> (\<exists>t c. length c < 2 ^ 32 \<and> e = der_tlv t c)"

lemma count_elements_Some:
  "count_elements s = Some n \<Longrightarrow> \<exists>es. op_repeat n CBS_get_any_asn1_element s = (Some es, []) \<and>
     length es = n \<and> s = concat (map el_out es) \<and> (\<forall>e\<in>set es. is_der (el_out e))"
proof (induction s arbitrary: n rule: count_elements.induct)
  case (1 s)
  show ?case
  proof (cases "s = []")
    case True
    with 1(2) have "n = 0" by (simp add: count_elements.simps CBS_len_def)
    with True show ?thesis by simp
  next
    case False
    with 1(2) obtain e s' m where e: "CBS_get_any_asn1_element s = (Some e, s')"
      and m: "count_elements s' = Some m" "n = Suc m"
      by (subst (asm) count_elements.simps) (auto simp: CBS_len_def split: prod.splits option.splits)
    from 1(1)[OF _ e[symmetric] refl m(1)] False obtain es where
      es: "op_repeat m CBS_get_any_asn1_element s' = (Some es, [])" "length es = m"
        "s' = concat (map el_out es)" "\<forall>e\<in>set es. is_der (el_out e)" by (auto simp: CBS_len_def)
    from e obtain t c where "length c < 2 ^ 32" "s = der_tlv t c @ s'" "e = tlv_element t c"
      by (rule der_elementE)
    then show ?thesis using e es m(2)
      by (intro exI[of _ "e # es"]) (auto simp: is_der_def)
  qed
qed

lemma contents_start_chain: "length (cbb_children st) = d \<Longrightarrow> contents_start d st = chain_start 0 (cbb_children st)"
  by (cases "cbb_children st" rule: rev_cases) (auto simp: contents_start_def chain_start_def)

lemma CBB_data_levels:
  assumes "cbb_base st = Some b" and "length (cbb_children st) = d"
  shows "CBB_data d st = Some (last (fst (levels st)))"
proof -
  have "drop d (level_contents 0 (cbb_children st) (cb_buf b)) = [drop (chain_start 0 (cbb_children st)) (cb_buf b)]"
    using drop_level_contents[of "cbb_children st" 0 "[]" "cb_buf b"] assms(2) by simp
  then have "last (level_contents 0 (cbb_children st) (cb_buf b)) = drop (chain_start 0 (cbb_children st)) (cb_buf b)"
    by (metis last_drop last_ConsL assms(2) length_level_contents lessI)
  then show ?thesis using assms by (simp add: CBB_data_def fst_levels contents_start_chain)
qed

text \<open>Rewinding to the start of the innermost contents empties them.\<close>

lemma rewind_levels:
  assumes "cbb_ok st" and "length (cbb_children st) = d"
    and "on_base (modify (\<lambda>b. b\<lparr>cb_buf := take (contents_start d st) (cb_buf b)\<rparr>)) st = (Some u, st')"
  shows "cbb_ok st' \<and> levels st' = (butlast (fst (levels st)) @ [[]], snd (levels st)) \<and> cbb_keeps st st'"
proof -
  from assms(1) obtain b where b: "cbb_base st = Some b" "buffer_ok b"
    "chain_ok 0 (cbb_children st) (length (cb_buf b))" by (rule cbb_okE)
  let ?s = "chain_start 0 (cbb_children st)"
  have st': "st' = st\<lparr>cbb_base := Some (b\<lparr>cb_buf := take ?s (cb_buf b)\<rparr>)\<rparr>"
    using assms(3) b(1) by (simp add: on_base_def contents_start_chain[OF assms(2)])
  from chain_ok_start[OF b(3)] have ok: "chain_ok 0 (cbb_children st) ?s" "?s \<le> length (cb_buf b)" by auto
  have "level_contents 0 (cbb_children st) (take ?s (cb_buf b)) =
      butlast (level_contents 0 (cbb_children st) (cb_buf b)) @ [[]]"
    using level_contents_replace[OF ok, of "[]" "[]"] by (simp add: butlast_conv_take)
  then show ?thesis using st' b ok
    by (simp add: levels_def cbb_ok_def buffer_ok_def cbb_keeps_def)
qed

lemma CBB_flush_asn1_set_of_Some:
  assumes ok: "cbb_ok st" and s: "CBB_flush_asn1_set_of d st = (Some u, st')"
  shows "\<exists>cs es ks. lv_flush d (levels st) = Some (cs @ [concat es], ks) \<and> (\<forall>e\<in>set es. is_der e) \<and>
    levels st' = (cs @ [concat (sort es)], ks) \<and> cbb_ok st'"
proof -
  from s obtain x st1 where f: "CBB_flush d st = (Some x, st1)" by (auto simp: CBB_flush_asn1_set_of_def op_inv)
  from implementsD(1)[OF CBB_flush_implements ok f] have ok1: "cbb_ok st1"
    and l1: "lv_flush d (levels st) = Some (levels st1)" by auto
  from ok1 obtain b where b: "cbb_base st1 = Some b" "buffer_ok b" by (rule cbb_okE)
  from l1 obtain c where c: "levels st1 = (take d (fst (levels st)) @ [c], take d (snd (levels st)))"
    "d \<le> length (snd (levels st))" by (auto simp: lv_flush_eq_Some)
  have d: "length (cbb_children st1) = d" using arg_cong[OF c(1), of snd] c(2) snd_levels[of st1]
    by (metis length_map length_take min_absorb2 snd_conv)
  have data: "CBB_data d st1 = Some c" using CBB_data_levels[OF b(1) d] c(1) by simp
  from s f b(1) data obtain n where n: "count_elements c = Some n"
    by (auto simp: CBB_flush_asn1_set_of_def split: option.splits)
  from count_elements_Some[OF n] obtain es where es:
    "op_repeat n CBS_get_any_asn1_element c = (Some es, [])" "length es = n"
    "c = concat (map el_out es)" "\<forall>e\<in>set es. is_der (el_out e)" by blast
  let ?es = "map el_out es"
  have "levels st' = (take d (fst (levels st)) @ [concat (sort ?es)], take d (snd (levels st))) \<and> cbb_ok st'"
  proof (cases "n < 2")
    case True
    then have "st' = st1" using s f b(1) data n by (simp add: CBB_flush_asn1_set_of_def)
    moreover have "sort ?es = ?es" using True es(2) by (cases es) auto
    ultimately show ?thesis using c es(3) ok1 by simp
  next
    case False
    then obtain y st2 u2 where
      r: "on_base (modify (\<lambda>b. b\<lparr>cb_buf := take (contents_start d st1) (cb_buf b)\<rparr>)) st1 = (Some y, st2)"
      and w: "op_each (CBB_add_bytes d) (sort ?es) st2 = (Some u2, st')"
      using s f b(1) data n es(1)
      by (auto simp: CBB_flush_asn1_set_of_def qsort_sort Let_def sbind_eq_Some split: if_splits)
    from rewind_levels[OF ok1 d r] have ok2: "cbb_ok st2"
      and l2: "levels st2 = (take d (fst (levels st)) @ [[]], take d (snd (levels st)))"
      using c by auto
    have "length c \<le> length (cb_buf b)" using data d b(1) by (auto simp: CBB_data_def split: if_splits)
    then have "length e < SIZE_MOD" if "e \<in> set (sort ?es)" for e
      using that b(2) es(3) member_le_sum_list[of "length e" "map length ?es"]
      by (auto simp: buffer_ok_def length_concat)
    then have "cbb_implements (op_each (CBB_add_bytes d) (sort ?es)) (each (lv_append d) (sort ?es))"
      by (intro builder.each CBB_add_bytes_implements)
    from implementsD(1)[OF this ok2 w] have ok': "cbb_ok st'"
      and l': "each (lv_append d) (sort ?es) (levels st2) = Some (levels st')" by auto
    have "sort ?es \<noteq> []" using False es(2) by (metis length_0_conv length_map length_sort less_2_cases_iff)
    then obtain e1 es1 where "sort ?es = e1 # es1" by (cases "sort ?es") auto
    with l' each_append[of d id e1 es1 "levels st2"] have
      "lv_append d (concat (sort ?es)) (levels st2) = Some (levels st')" by simp
    moreover have "length (take d (fst (levels st))) = d"
      using lv_flush_fst[OF l1] by simp
    ultimately show ?thesis using l2 c(2) ok' by (simp add: lv_append_alt)
  qed
  then show ?thesis using l1 c es(3,4)
    by (intro exI[of _ "take d (fst (levels st))"] exI[of _ ?es] exI[of _ "take d (snd (levels st))"]) auto
qed

end
