(* ===== verification/Ber.thy ===== *)
theory Ber
  imports Asn1_Objects
begin

text \<open>
  The BER converter of \<open>crypto/bytestring/ber.c\<close> and \<open>CBB_finish_i2d\<close> of
  \<open>asn1_compat.c\<close>: the walk that looks for BER, the conversion to DER, and strings that may
  be split into chunks. What a conversion writes is shown to be DER throughout; the walk is
  shown to overlook BER that is followed by a DER sibling of its parent.
\<close>

section \<open>The walk\<close>

definition kMaxDepth :: nat where
  "kMaxDepth = 2048"

definition is_string_type :: "u32 \<Rightarrow> bool" where
  "is_string_type tag \<longleftrightarrow>
     tag AND NOT CBS_ASN1_CONSTRUCTED \<in>
       {CBS_ASN1_OCTETSTRING, 0xc, 0x12, 0x13, 0x14, 0x15, 0x16, 0x19, 0x1a, 0x1b, 0x1c, 0x1e}"

lemma get_element_Some:
  assumes "get_element t h ber n s = (Some e, r)" and "h \<le> n" and "0 < h"
  shows "length r < length s \<and> el_out e @ r = s \<and> el_header_len e = h \<and> h \<le> length (el_out e)"
  using assms by (auto simp: get_element_eq split: if_splits)

lemma ber_element_shorter:
  assumes "CBS_get_any_ber_asn1_element s = (Some e, r)"
  shows "length r < length s \<and> el_out e @ r = s \<and> 0 < el_header_len e \<and> el_header_len e \<le> length (el_out e)"
proof -
  let ?c = "cbs_get_any_asn1_element True s"
  from assms have c: "?c = (Some e, r)" by (simp add: CBS_get_any_ber_asn1_element_def)
  from c obtain t h1 b h2 where h: "parse_asn1_tag s = (Some t, h1)" "CBS_get_u8 h1 = (Some b, h2)"
    by (auto simp: cbs_get_any_asn1_element_def split: prod.splits option.splits)
  have "length h2 < length s"
    using tag.dec_sound[OF h(1)] h(2) by (cases h1) auto
  then have pos: "0 < length s - length h2" by simp
  from c h show ?thesis
    using get_element_Some[OF _ _ pos] get_element_Some[where h = "length s - length h2 + k" for k] pos
    unfolding cbs_get_any_asn1_element_def
    by (auto simp: Let_def CBS_len_def split: if_splits prod.splits option.splits)
qed

text \<open>The loop of \<open>cbs_find_ber\<close>: \<open>found\<close> is \<open>*ber_found\<close>, which each element read
  overwrites. \<open>None\<close> is a return of zero.\<close>

function cbs_find_ber_loop :: "cbs \<Rightarrow> bool \<Rightarrow> nat \<Rightarrow> bool option" where
  "cbs_find_ber_loop inp found depth =
     (if CBS_len inp > 0 then
        (case CBS_get_any_ber_asn1_element inp of (None, _) \<Rightarrow> None | (Some e, inp') \<Rightarrow>
          if el_ber_found e then Some True
          else if el_tag e AND CBS_ASN1_CONSTRUCTED \<noteq> 0 then
            (if is_string_type (el_tag e) then Some True
             else case CBS_skip (el_header_len e) (el_out e) of (None, _) \<Rightarrow> None | (Some _, contents) \<Rightarrow>
               if depth + 1 > kMaxDepth then None
               else case cbs_find_ber_loop contents False (depth + 1) of None \<Rightarrow> None
                 | Some found' \<Rightarrow> cbs_find_ber_loop inp' found' depth)
          else cbs_find_ber_loop inp' (el_ber_found e) depth)
      else Some found)"
  by pat_completeness auto
termination
  by (relation "measure (\<lambda>(inp, _, _). length inp)")
    (auto simp: CBS_skip_def cbs_get_def sbind_def split: if_splits prod.splits option.splits
      dest!: ber_element_shorter[OF sym] dest: arg_cong[of _ _ length])

declare cbs_find_ber_loop.simps [simp del]

definition cbs_find_ber :: "cbs \<Rightarrow> nat \<Rightarrow> bool option" where
  "cbs_find_ber orig_in depth =
     (if depth > kMaxDepth then None else cbs_find_ber_loop orig_in False depth)"

section \<open>The conversion\<close>

definition is_eoc :: "nat \<Rightarrow> cbs \<Rightarrow> bool" where
  "is_eoc header_len contents \<longleftrightarrow> header_len = 2 \<and> CBS_len contents = 2 \<and> CBS_data contents = [0, 0]"

text \<open>The body of an element: what follows when its length is indefinite, its children, or its
  bytes. The result is \<open>*in\<close>.\<close>

definition convert_body ::
  "(cbs \<Rightarrow> nat \<Rightarrow> u32 \<Rightarrow> bool \<Rightarrow> nat \<Rightarrow> (cbb, cbs) op) \<Rightarrow> asn1_element \<Rightarrow> cbs \<Rightarrow> nat \<Rightarrow> u32 \<Rightarrow> nat \<Rightarrow> (cbb, cbs) op" where
  "convert_body convert e inp out child_string_tag depth =
     (if CBS_len (el_out e) = el_header_len e \<and> el_header_len e > 0 \<and>
         CBS_data (el_out e) ! (el_header_len e - 1) = 0x80
      then convert inp out child_string_tag True (depth + 1)
      else case CBS_skip (el_header_len e) (el_out e) of (None, _) \<Rightarrow> fail | (Some _, body) \<Rightarrow>
        sbind (if el_tag e AND CBS_ASN1_CONSTRUCTED \<noteq> 0
               then sbind (convert body out child_string_tag False (depth + 1)) (\<lambda>_. ret ())
               else CBB_add_bytes out (CBS_data body)) (\<lambda>_. ret inp))"

text \<open>One turn of the loop of \<open>cbs_convert_ber\<close>, for an element \<open>e\<close> that is not the end of
  contents, with \<open>inp\<close> after it; \<open>convert\<close> is the recursive call. It returns \<open>*in\<close>.\<close>

definition convert_element ::
  "(cbs \<Rightarrow> nat \<Rightarrow> u32 \<Rightarrow> bool \<Rightarrow> nat \<Rightarrow> (cbb, cbs) op) \<Rightarrow> asn1_element \<Rightarrow> cbs \<Rightarrow> nat \<Rightarrow> u32 \<Rightarrow> nat \<Rightarrow> (cbb, cbs) op" where
  "convert_element convert e inp out string_tag depth =
     (let split_string = (string_tag = 0 \<and> el_tag e AND CBS_ASN1_CONSTRUCTED \<noteq> 0 \<and> is_string_type (el_tag e));
          out_tag = (if split_string then el_tag e AND NOT CBS_ASN1_CONSTRUCTED else el_tag e)
      in if string_tag \<noteq> 0 \<and> el_tag e AND NOT CBS_ASN1_CONSTRUCTED \<noteq> string_tag then fail
      else sbind (if string_tag \<noteq> 0 then ret () else CBB_add_asn1 out out_tag) (\<lambda>_.
        sbind (convert_body convert e inp (if string_tag \<noteq> 0 then out else Suc out)
                 (if split_string then out_tag else string_tag) depth)
          (\<lambda>inp2. sbind (CBB_flush out) (\<lambda>_. ret inp2))))"

text \<open>\<open>cbs_convert_ber\<close> returns what is left of \<open>*in\<close>. Every element makes the input shorter;
  the first argument counts the elements and children still allowed, and the length of
  the input is always enough.\<close>

primrec cbs_convert_ber :: "nat \<Rightarrow> cbs \<Rightarrow> nat \<Rightarrow> u32 \<Rightarrow> bool \<Rightarrow> nat \<Rightarrow> (cbb, cbs) op" where
  "cbs_convert_ber 0 inp out string_tag looking_for_eoc depth = fail"
| "cbs_convert_ber (Suc n) inp out string_tag looking_for_eoc depth =
     (if depth > kMaxDepth then fail
      else if CBS_len inp > 0 then
        (case CBS_get_any_ber_asn1_element inp of (None, _) \<Rightarrow> fail | (Some e, inp1) \<Rightarrow>
         if is_eoc (el_header_len e) (el_out e) then (if looking_for_eoc then ret inp1 else fail)
         else sbind (convert_element (cbs_convert_ber n) e inp1 out string_tag depth) (\<lambda>inp2.
              cbs_convert_ber n inp2 out string_tag looking_for_eoc depth))
      else if \<not> looking_for_eoc then ret inp else fail)"

text \<open>The element and the converted copy, if one was made (\<open>*out_storage\<close> is not \<open>NULL\<close>).
  \<open>*in\<close> after a failure is left unspecified by the interface; the model leaves it as it was.\<close>

definition CBS_asn1_ber_to_der :: "(nat \<Rightarrow> bool) \<Rightarrow> (cbs, cbs \<times> bool) op" where
  "CBS_asn1_ber_to_der alloc s =
     (case cbs_find_ber s 0 of None \<Rightarrow> (None, s) | Some conversion_needed \<Rightarrow>
      if \<not> conversion_needed then sbind CBS_get_any_asn1_element (\<lambda>e. ret (el_out e, False)) s
      else case CBB_init alloc (CBS_len s) of (None, _) \<Rightarrow> (None, s) | (Some _, cbb) \<Rightarrow>
        case cbs_convert_ber (Suc (CBS_len s)) s 0 0 False 0 cbb of (None, _) \<Rightarrow> (None, s)
        | (Some s', cbb') \<Rightarrow>
          case CBB_finish 0 True True cbb' of (None, _) \<Rightarrow> (None, s)
          | (Some out, _) \<Rightarrow> (Some (CBS_init out (length out), True), s'))"

section \<open>Implicitly tagged strings\<close>

function implicit_string_loop :: "u32 \<Rightarrow> cbs \<Rightarrow> (cbb, unit) op" where
  "implicit_string_loop inner_tag child =
     (if CBS_len child > 0 then
        (case CBS_get_asn1 inner_tag child of (None, _) \<Rightarrow> fail | (Some chunk, child') \<Rightarrow>
           sbind (CBB_add_bytes 0 (CBS_data chunk)) (\<lambda>_. implicit_string_loop inner_tag child'))
      else ret ())"
  by pat_completeness auto
termination
  by (relation "measure (\<lambda>(_, child). length child)")
    (auto simp: CBS_get_asn1_iff length_der_tlv dest!: sym[of "(_, _)"])

declare implicit_string_loop.simps [simp del]

definition CBS_get_asn1_implicit_string :: "(nat \<Rightarrow> bool) \<Rightarrow> u32 \<Rightarrow> u32 \<Rightarrow> (cbs, cbs \<times> bool) op" where
  "CBS_get_asn1_implicit_string alloc outer_tag inner_tag s =
     (if CBS_peek_asn1_tag s outer_tag
      then sbind (CBS_get_asn1 outer_tag) (\<lambda>out. ret (out, False)) s
      else case CBB_init alloc (CBS_len s) of (None, _) \<Rightarrow> (None, s) | (Some _, result) \<Rightarrow>
        case CBS_get_asn1 (outer_tag OR CBS_ASN1_CONSTRUCTED) s of (None, s') \<Rightarrow> (None, s')
        | (Some child, s') \<Rightarrow>
          case sbind (implicit_string_loop inner_tag child) (\<lambda>_. CBB_finish 0 True True) result of
            (None, _) \<Rightarrow> (None, s')
          | (Some data, _) \<Rightarrow> (Some (CBS_init data (length data), True), s'))"

section \<open>Finishing for the legacy interface\<close>

text \<open>\<open>outp\<close> is \<open>NULL\<close> (\<open>None\<close>), points to \<open>NULL\<close> (\<open>Some None\<close>) or to a buffer (\<open>Some (Some b)\<close>).
  The result is the return value, \<open>-1\<close> on error, and what \<open>outp\<close> describes afterwards: a new
  buffer with the output or the caller's with its front overwritten.\<close>

definition CBB_finish_i2d :: "u8 list option option \<Rightarrow> cbb \<Rightarrow> int \<times> u8 list option option" where
  "CBB_finish_i2d outp st =
     (case CBB_finish 0 True True st of (None, _) \<Rightarrow> (-1, outp) | (Some der, _) \<Rightarrow>
      if length der > INT_MAX then (-1, outp)
      else (int (length der),
        case outp of None \<Rightarrow> None | Some None \<Rightarrow> Some (Some der)
        | Some (Some b) \<Rightarrow> Some (Some (OPENSSL_memcpy b 0 der))))"

section \<open>Fuel\<close>

lemma CBS_skip_Some: "CBS_skip n s = (Some u, r) \<longleftrightarrow> n \<le> length s \<and> r = drop n s"
  by (auto simp: CBS_skip_def cbs_get_def op_inv split: if_splits)

text \<open>What is left of the input: no longer than the input. So the fuel never runs out.\<close>

lemma convert_element_shorter:
  assumes "convert_element convert e inp out tag depth st = (Some r, st')"
    and "\<And>i o1 t1 c1 d1 s1 r1 s1'. convert i o1 t1 c1 d1 s1 = (Some r1, s1') \<Longrightarrow> length r1 \<le> length i"
  shows "length r \<le> length inp"
  using assms unfolding convert_element_def convert_body_def
  by (auto simp: Let_def op_inv split: if_splits prod.splits option.splits)

lemma convert_shorter:
  "cbs_convert_ber n inp out tag eoc depth st = (Some r, st') \<Longrightarrow> length r \<le> length inp"
proof (induction n arbitrary: inp out tag eoc depth st r st')
  case (Suc n)
  show ?case
  proof (cases "CBS_len inp > 0")
    case True
    with Suc.prems obtain e inp1 where e: "CBS_get_any_ber_asn1_element inp = (Some e, inp1)"
      by (auto split: if_splits prod.splits option.splits)
    have lt: "length inp1 < length inp" using ber_element_shorter[OF e] by blast
    consider "r = inp1" | inp2 st1 st2 where
      "convert_element (cbs_convert_ber n) e inp1 out tag depth st = (Some inp2, st1)"
      "cbs_convert_ber n inp2 out tag eoc depth st1 = (Some r, st2)"
      using Suc.prems True e by (auto simp: op_inv split: if_splits)
    then show ?thesis
    proof cases
      case 2
      have "length inp2 \<le> length inp1" by (rule convert_element_shorter[OF 2(1)]) (rule Suc.IH)
      with Suc.IH[OF 2(2)] lt show ?thesis by simp
    qed (use lt in simp)
  qed (use Suc.prems in \<open>auto split: if_splits\<close>)
qed simp

lemma convert_element_cong:
  assumes "\<And>i o1 t1 c1 d1. length i \<le> length inp \<Longrightarrow> f i o1 t1 c1 d1 = g i o1 t1 c1 d1"
    and "\<And>i o1 t1 c1 d1. length i < length (el_out e) \<Longrightarrow> f i o1 t1 c1 d1 = g i o1 t1 c1 d1"
    and "0 < el_header_len e"
  shows "convert_element f e inp out tag depth = convert_element g e inp out tag depth"
proof -
  have "CBS_skip (el_header_len e) (el_out e) = (Some u, body) \<Longrightarrow> length body < length (el_out e)" for u body
    using assms(3) unfolding CBS_skip_Some by auto
  with assms(1,2) show ?thesis unfolding convert_element_def convert_body_def Let_def
    by (auto split: prod.splits option.splits)
qed

lemma convert_fuel:
  "length inp < n \<Longrightarrow> length inp < m \<Longrightarrow>
   cbs_convert_ber n inp out tag eoc depth = cbs_convert_ber m inp out tag eoc depth"
proof (induction n arbitrary: m inp out tag eoc depth)
  case (Suc n)
  then obtain k where m: "m = Suc k" by (cases m) auto
  show ?case
  proof (cases "CBS_get_any_ber_asn1_element inp")
    case (Pair x inp1)
    show ?thesis
    proof (cases x)
      case None
      then show ?thesis using Pair m by (intro ext) simp
    next
      case (Some e)
      note sh = ber_element_shorter[OF Pair[unfolded Some]]
      have IH: "cbs_convert_ber n i o1 t1 c1 d1 = cbs_convert_ber k i o1 t1 c1 d1"
        if "length i < length inp" for i o1 t1 c1 d1
        using Suc.IH[of i k] Suc.prems that m by auto
      have "length (el_out e) \<le> length inp" using sh by (metis le_add1 length_append)
      then have el: "convert_element (cbs_convert_ber n) e inp1 out tag depth =
          convert_element (cbs_convert_ber k) e inp1 out tag depth"
        using sh by (intro convert_element_cong IH) auto
      show ?thesis
      proof (rule ext)
        fix st
        show "cbs_convert_ber (Suc n) inp out tag eoc depth st = cbs_convert_ber m inp out tag eoc depth st"
        proof (cases "convert_element (cbs_convert_ber k) e inp1 out tag depth st")
          case el2: (Pair y st1)
          have "y = Some inp2 \<Longrightarrow> length inp2 < length inp" for inp2
            using convert_element_shorter[of "cbs_convert_ber k" e inp1 out tag depth st inp2 st1] convert_shorter el2 sh
            by (fastforce dest: le_less_trans)
          then show ?thesis using Pair Some m el el2 IH
            by (cases y) (auto simp: sbind_def)
        qed
      qed
    qed
  qed
qed simp

section \<open>What a conversion writes\<close>

text \<open>A sequence of DER elements, constructed ones again made of DER elements and none of them
  a constructed string.\<close>

inductive der_forest :: "u8 list \<Rightarrow> bool" where
  empty: "der_forest []"
| primitive: "length c < 2 ^ 32 \<Longrightarrow> t AND CBS_ASN1_CONSTRUCTED = 0 \<Longrightarrow> der_forest r \<Longrightarrow>
    der_forest (der_tlv t c @ r)"
| constructed: "length c < 2 ^ 32 \<Longrightarrow> t AND CBS_ASN1_CONSTRUCTED \<noteq> 0 \<Longrightarrow> \<not> is_string_type t \<Longrightarrow>
    der_forest c \<Longrightarrow> der_forest r \<Longrightarrow> der_forest (der_tlv t c @ r)"

lemma der_forest_append: "der_forest a \<Longrightarrow> der_forest b \<Longrightarrow> der_forest (a @ b)"
  by (induction rule: der_forest.induct) (auto intro: der_forest.intros)

lemma lv_append_open:
  assumes "lv_open d (der_tag t) Asn1 l = Some l1"
  shows "lv_append (Suc d) [] l1 = Some l1"
  using assms lv_flush_idem[of "Suc d" l1 l1]
proof -
  from assms obtain c where "d \<le> length (snd l)" "close_levels (drop d (fst l)) (drop d (snd l)) = Some c"
    "l1 = (take d (fst l) @ [c @ der_tag t, []], take d (snd l) @ [Asn1])"
    by (auto simp: lv_open_def lv_push_def lv_append_eq_Some bind_eq_Some_conv)
  moreover from this have "d \<le> length (fst l)" using close_levels_length by fastforce
  ultimately show ?thesis by (simp add: lv_append_alt)
qed

text \<open>What a call of the converter may do to the level it writes to.\<close>

definition writes :: "nat \<Rightarrow> bool \<Rightarrow> cbb \<Rightarrow> cbb \<Rightarrow> bool" where
  "writes d der st st' \<longleftrightarrow> cbb_ok st' \<and>
     (\<exists>bs. lv_each d bs (levels st) = Some (levels st') \<and> (der \<longrightarrow> der_forest bs) \<or>
           lv_append d bs (levels st) = Some (levels st') \<and> (der \<longrightarrow> der_forest bs))"

lemma writes_refl: "cbb_ok st \<Longrightarrow> writes d der st st"
  unfolding writes_def by (auto intro!: exI[of _ "[]"] der_forest.empty)

lemma writes_append:
  "cbb_ok st' \<Longrightarrow> lv_append d bs (levels st) = Some (levels st') \<Longrightarrow> (der \<Longrightarrow> der_forest bs) \<Longrightarrow> writes d der st st'"
  unfolding writes_def by auto

lemma writes_cases:
  assumes "writes d der st st'"
  obtains "levels st' = levels st"
    | bs where "lv_append d bs (levels st) = Some (levels st')" "der \<Longrightarrow> der_forest bs"
  using assms unfolding writes_def lv_each_def by (auto split: if_splits)

lemma writes_trans:
  assumes "writes d der a b" and "writes d der b c"
  shows "writes d der a c"
proof -
  have "cbb_ok c" using assms(2) by (simp add: writes_def)
  from assms(1) show ?thesis
  proof (cases rule: writes_cases)
    case 1
    then show ?thesis using assms(2) by (simp add: writes_def)
  next
    case (2 x)
    from assms(2) show ?thesis
    proof (cases rule: writes_cases)
      case 1
      with 2 \<open>cbb_ok c\<close> show ?thesis by (auto intro: writes_append)
    next
      case (2 y)
      with \<open>lv_append d x (levels a) = Some (levels b)\<close> have "lv_append d (x @ y) (levels a) = Some (levels c)"
        using lv_append_append[of d x "levels a" y] by simp
      with 2 \<open>der \<Longrightarrow> der_forest x\<close> \<open>cbb_ok c\<close> show ?thesis
        by (auto intro: writes_append der_forest_append)
    qed
  qed
qed

lemma writes_flush:
  assumes "writes d der a b" and "CBB_flush d b = (Some u, c)"
  shows "writes d der a c"
proof -
  have b: "cbb_ok b" using assms(1) by (simp add: writes_def)
  from implementsD(1)[OF CBB_flush_implements b assms(2)]
  have "cbb_ok c" "lv_append d [] (levels b) = Some (levels c)" by (auto simp: lv_flush_eq_append)
  then have "writes d der b c" by (rule writes_append) (rule der_forest.empty)
  with assms(1) show ?thesis by (rule writes_trans)
qed

text \<open>Writing an element: open it, write to the child, flush.\<close>

lemma writes_element:
  assumes ok: "cbb_ok st" and o: "CBB_add_asn1 d t st = (Some u, st1)" and w: "writes (Suc d) der st1 st2"
    and f: "CBB_flush d st2 = (Some v, st3)"
    and der: "der \<or> t AND CBS_ASN1_CONSTRUCTED = 0" and str: "t AND CBS_ASN1_CONSTRUCTED \<noteq> 0 \<Longrightarrow> \<not> is_string_type t"
  shows "writes d True st st3"
proof -
  from implementsD(1)[OF CBB_add_asn1_implements ok o]
  have ok1: "cbb_ok st1" and l1: "lv_open d (der_tag t) Asn1 (levels st) = Some (levels st1)" by auto
  have ok2: "cbb_ok st2" using w by (simp add: writes_def)
  from w obtain c where c: "lv_append (Suc d) c (levels st1) = Some (levels st2)" "der \<Longrightarrow> der_forest c"
    using lv_append_open[OF l1] der_forest.empty by (cases rule: writes_cases) auto
  from implementsD(1)[OF CBB_flush_implements ok2 f]
  have ok3: "cbb_ok st3" and l3: "lv_flush d (levels st2) = Some (levels st3)" by auto
  from lv_tlv[of d t "levels st" c] l1 c(1) l3
  have len: "length c \<le> 0xfffffffe" and l: "lv_append d (der_tlv t c) (levels st) = Some (levels st3)"
    by (auto split: if_splits)
  have "der_forest (der_tlv t c @ [])"
    using der str len c(2) by (cases "t AND CBS_ASN1_CONSTRUCTED = 0")
      (auto intro: der_forest.intros simp del: append_Nil2)
  then show ?thesis using ok3 l by (intro writes_append) simp_all
qed

lemma and_not_constructed: "(t AND NOT CBS_ASN1_CONSTRUCTED) AND CBS_ASN1_CONSTRUCTED = 0"
  by (simp only: and.assoc[symmetric] and.commute[of _ "NOT _"]) (simp add: bit_eq_iff bit_simps)

text \<open>A converter writes DER where it writes elements, and anything where it writes chunks.\<close>

definition converts :: "(cbs \<Rightarrow> nat \<Rightarrow> u32 \<Rightarrow> bool \<Rightarrow> nat \<Rightarrow> (cbb, cbs) op) \<Rightarrow> bool" where
  "converts f \<longleftrightarrow> (\<forall>i d t c k st r st'. cbb_ok st \<and> length i < SIZE_MOD \<and> f i d t c k st = (Some r, st') \<longrightarrow>
     writes d (t = 0) st st')"

lemma writes_bytes:
  assumes "cbb_ok st" and "CBB_add_bytes d bs st = (Some u, st')" and "length bs < SIZE_MOD"
  shows "writes d False st st'"
  using implementsD(1)[OF CBB_add_bytes_implements[OF assms(3)] assms(1,2)]
  by (auto intro: writes_append)

lemma CBB_add_asn1_ok: "cbb_ok st \<Longrightarrow> CBB_add_asn1 d t st = (Some u, st') \<Longrightarrow> cbb_ok st'"
  using implementsD(1)[OF CBB_add_asn1_implements] by blast

lemma convert_body_writes:
  assumes f: "converts f" and ok: "cbb_ok st" and len: "length inp < SIZE_MOD" "length (el_out e) < SIZE_MOD"
    and b: "convert_body f e inp d t depth st = (Some r, st')"
  shows "writes d (t = 0 \<and> el_tag e AND CBS_ASN1_CONSTRUCTED \<noteq> 0) st st' \<or>
    writes d (t = 0) st st'"
proof (cases "CBS_len (el_out e) = el_header_len e \<and> el_header_len e > 0 \<and>
         CBS_data (el_out e) ! (el_header_len e - 1) = 0x80")
  case True
  then show ?thesis using b f ok len unfolding converts_def convert_body_def by auto
next
  case False
  let ?body = "drop (el_header_len e) (el_out e)"
  have body: "length ?body < SIZE_MOD" using len(2) by simp
  from b have
    "(\<exists>r1. f ?body d t False (depth + 1) st = (Some r1, st')) \<and> el_tag e AND CBS_ASN1_CONSTRUCTED \<noteq> 0 \<or>
     CBB_add_bytes d ?body st = (Some (), st') \<and> el_tag e AND CBS_ASN1_CONSTRUCTED = 0"
    unfolding convert_body_def if_not_P[OF False]
    by (auto simp: op_inv CBS_skip_Some CBS_data_def split: if_splits prod.splits option.splits)
  then show ?thesis
    using f ok body writes_bytes[OF ok _ body, of d "()" st'] unfolding converts_def by fastforce
qed

lemma convert_element_writes:
  assumes f: "converts f" and ok: "cbb_ok st" and len: "length inp < SIZE_MOD" "length (el_out e) < SIZE_MOD"
    and e: "convert_element f e inp d t depth st = (Some r, st')"
  shows "writes d (t = 0) st st'"
proof (cases "t = 0")
  case False
  with e obtain st1 u where b: "convert_body f e inp d t depth st = (Some r, st1)"
    and fl: "CBB_flush d st1 = (Some u, st')"
    unfolding convert_element_def Let_def by (auto simp: op_inv split: if_splits)
  from convert_body_writes[OF f ok len b] False have "writes d False st st1" by simp
  with writes_flush[OF _ fl] False show ?thesis by auto
next
  case True
  let ?split = "el_tag e AND CBS_ASN1_CONSTRUCTED \<noteq> 0 \<and> is_string_type (el_tag e)"
  let ?t = "if ?split then el_tag e AND NOT CBS_ASN1_CONSTRUCTED else el_tag e"
  let ?c = "if ?split then ?t else 0"
  from e True obtain st1 u st2 v where o: "CBB_add_asn1 d ?t st = (Some u, st1)"
    and b: "convert_body f e inp (Suc d) ?c depth st1 = (Some r, st2)"
    and fl: "CBB_flush d st2 = (Some v, st')"
    unfolding convert_element_def Let_def by (auto simp: op_inv split: if_splits)
  note w = convert_body_writes[OF f CBB_add_asn1_ok[OF ok o] len b]
  show ?thesis
  proof (cases ?split)
    case split: True
    have "writes (Suc d) False st1 st2" using w unfolding writes_def by auto
    from writes_element[OF ok o this fl] split True and_not_constructed[of "el_tag e"] show ?thesis by simp
  next
    case False
    then have "?c = 0" by (simp only: if_False)
    then have "writes (Suc d) (el_tag e AND CBS_ASN1_CONSTRUCTED \<noteq> 0) st1 st2 \<or> writes (Suc d) True st1 st2"
      using w by (simp only: simp_thms)
    then show ?thesis using writes_element[OF ok o _ fl] False True by auto
  qed
qed

text \<open>The converter, whatever its fuel.\<close>

lemma convert_converts: "converts (cbs_convert_ber n)"
proof (induction n)
  case 0
  show ?case by (simp add: converts_def)
next
  case (Suc n)
  show ?case unfolding converts_def
  proof (intro allI impI)
    fix inp d t c k st r st'
    assume "cbb_ok st \<and> length inp < SIZE_MOD \<and> cbs_convert_ber (Suc n) inp d t c k st = (Some r, st')"
    then have ok: "cbb_ok st" and len: "length inp < SIZE_MOD"
      and s: "cbs_convert_ber (Suc n) inp d t c k st = (Some r, st')" by auto
    show "writes d (t = 0) st st'"
    proof (cases "CBS_len inp > 0")
      case False
      then show ?thesis using s ok by (auto simp: writes_refl split: if_splits)
    next
      case True
      with s obtain e inp1 where e: "CBS_get_any_ber_asn1_element inp = (Some e, inp1)"
        by (auto split: if_splits prod.splits option.splits)
      note sh = ber_element_shorter[OF e]
      have len': "length inp1 < SIZE_MOD" "length (el_out e) < SIZE_MOD"
        using sh len by (auto dest: arg_cong[of _ _ length])
      consider "st' = st" | inp2 st1 where
        "convert_element (cbs_convert_ber n) e inp1 d t k st = (Some inp2, st1)"
        "cbs_convert_ber n inp2 d t c k st1 = (Some r, st')"
        using s True e by (auto simp: op_inv split: if_splits)
      then show ?thesis
      proof cases
        case 1
        then show ?thesis using ok by (simp add: writes_refl)
      next
        case 2
        from convert_element_writes[OF Suc ok len' 2(1)] have w: "writes d (t = 0) st st1" .
        have "length inp2 \<le> length inp1" by (rule convert_element_shorter[OF 2(1)]) (rule convert_shorter)
        then have "length inp2 < SIZE_MOD" using len' by simp
        with Suc 2(2) w have "writes d (t = 0) st1 st'" unfolding converts_def writes_def by blast
        with w show ?thesis by (rule writes_trans)
      qed
    qed
  qed
qed

text \<open>A conversion returns DER throughout.\<close>

lemma ber_to_der_converted:
  assumes "CBS_asn1_ber_to_der alloc s = (Some (out, True), r)" and len: "length s < SIZE_MOD"
  shows "der_forest out"
proof -
  from assms obtain u cbb x cbb' y where init: "CBB_init alloc (CBS_len s) = (Some u, cbb)"
    and c: "cbs_convert_ber (Suc (CBS_len s)) s 0 0 False 0 cbb = (Some x, cbb')"
    and f: "CBB_finish 0 True True cbb' = (Some out, y)"
    unfolding CBS_asn1_ber_to_der_def
    by (auto simp: op_inv CBS_init_def simp del: cbs_convert_ber.simps split: if_splits prod.splits option.splits)
  have "CBS_len s < SIZE_MOD" using len by (simp add: CBS_len_def)
  from CBB_init_ok[OF init this] have ok: "cbb_ok cbb" and l: "levels cbb = ([[]], [])" by auto
  from convert_converts c ok len have w: "writes 0 True cbb cbb'" unfolding converts_def by fastforce
  then have ok': "cbb_ok cbb'" by (simp add: writes_def)
  from w obtain bs where "levels cbb' = ([bs], [])" "der_forest bs"
    using l der_forest.empty by (cases rule: writes_cases) (auto simp: lv_append_alt dest: sym)
  with CBB_finish_Some[OF ok' f] show ?thesis by simp
qed

section \<open>What the walk finds\<close>

text \<open>Where the DER reader accepts an element, the BER reader returns the same.\<close>

lemma ber_reads_der:
  "CBS_get_any_asn1_element s = (Some e, r) \<Longrightarrow> CBS_get_any_ber_asn1_element s = (Some e, r)"
  unfolding CBS_get_any_asn1_element_def CBS_get_any_ber_asn1_element_def cbs_get_any_asn1_element_def
  by (auto simp: Let_def split: if_splits prod.splits option.splits)

text \<open>DER with constructed elements nested at most \<open>n\<close> deep.\<close>

inductive der_nested :: "nat \<Rightarrow> u8 list \<Rightarrow> bool" where
  empty: "der_nested n []"
| primitive: "length c < 2 ^ 32 \<Longrightarrow> t AND CBS_ASN1_CONSTRUCTED = 0 \<Longrightarrow> der_nested n r \<Longrightarrow>
    der_nested n (der_tlv t c @ r)"
| constructed: "length c < 2 ^ 32 \<Longrightarrow> t AND CBS_ASN1_CONSTRUCTED \<noteq> 0 \<Longrightarrow> \<not> is_string_type t \<Longrightarrow>
    der_nested n c \<Longrightarrow> der_nested (Suc n) r \<Longrightarrow> der_nested (Suc n) (der_tlv t c @ r)"

lemma der_tlv_nonempty [simp]: "der_tlv t c \<noteq> []"
  by (simp add: der_tlv_def)

lemma ber_element_tlv: "length c < 2 ^ 32 \<Longrightarrow>
    CBS_get_any_ber_asn1_element (der_tlv t c @ r) = (Some (tlv_element t c), r)"
  by (rule ber_reads_der) (simp add: der_element_parse)

lemma CBS_skip_tlv: "CBS_skip (el_header_len (tlv_element t c)) (el_out (tlv_element t c)) = (Some (), c)"
  by (simp add: CBS_skip_Some length_der_tlv)

lemma find_ber_der:
  "der_nested n s \<Longrightarrow> n + depth \<le> kMaxDepth \<Longrightarrow> cbs_find_ber_loop s False depth = Some False"
proof (induction arbitrary: depth rule: der_nested.induct)
  case (empty n)
  show ?case by (simp add: cbs_find_ber_loop.simps CBS_len_def)
next
  case (primitive c t n r)
  then show ?case
    by (subst cbs_find_ber_loop.simps) (simp add: CBS_len_def ber_element_tlv)
next
  case (constructed c t n r)
  have "cbs_find_ber_loop c False (Suc depth) = Some False" using constructed by simp
  then show ?case using constructed
    by (subst cbs_find_ber_loop.simps)
      (simp add: CBS_len_def ber_element_tlv CBS_skip_Some length_der_tlv)
qed

lemma ber_to_der_der:
  assumes "length c < 2 ^ 32" and "der_nested n (der_tlv t c @ r)" and "n \<le> kMaxDepth"
  shows "CBS_asn1_ber_to_der alloc (der_tlv t c @ r) = (Some (der_tlv t c, False), r)"
  using find_ber_der[OF assms(2), of 0] assms
  by (simp add: CBS_asn1_ber_to_der_def cbs_find_ber_def der_element_parse)

text \<open>An indefinite-length element is overlooked when its parent has a sibling after it: the
  sequence of a sequence holding one, and a null.\<close>

definition overlooked :: "u8 list" where
  "overlooked = [0x30, 8, 0x30, 4, 0x30, 0x80, 0, 0, 5, 0]"

lemma find_ber_overlooks: "cbs_find_ber overlooked 0 = Some False"
  by code_simp

lemma find_ber_finds: "cbs_find_ber [0x30, 8, 5, 0, 0x30, 4, 0x30, 0x80, 0, 0] 0 = Some True"
  by code_simp

section \<open>Strings in chunks\<close>

lemma implicit_string_loop_implements:
  assumes "length (concat chunks) < SIZE_MOD" and "\<forall>c\<in>set chunks. length c < 2 ^ 32"
  shows "cbb_implements (implicit_string_loop t (concat (map (der_tlv t) chunks)))
    (each (lv_append 0) chunks)"
  using assms
proof (induction chunks)
  case Nil
  have "implicit_string_loop t [] = ret ()"
    by (subst implicit_string_loop.simps) (simp add: CBS_len_def)
  moreover have "each (lv_append 0) [] = Some" by (rule ext) simp
  ultimately show ?case by (simp only: list.map concat.simps builder.ret)
next
  case (Cons c chunks)
  have "implicit_string_loop t (concat (map (der_tlv t) (c # chunks))) =
      sbind (CBB_add_bytes 0 c) (\<lambda>_. implicit_string_loop t (concat (map (der_tlv t) chunks)))"
    using Cons.prems by (subst implicit_string_loop.simps) (simp add: CBS_len_def CBS_data_def asn1.dec_enc)
  moreover have "cbb_implements \<dots> (each (lv_append 0) (c # chunks))"
    using Cons.prems
    by (intro builder.bind_both[OF CBB_add_bytes_implements Cons.IH]) simp_all
  ultimately show ?case by (simp only:)
qed

lemma implicit_string_loop_sound:
  "implicit_string_loop t s st = (Some u, st') \<Longrightarrow>
   \<exists>chunks. s = concat (map (der_tlv t) chunks) \<and> (\<forall>c\<in>set chunks. length c < 2 ^ 32)"
proof (induction t s arbitrary: st rule: implicit_string_loop.induct)
  case (1 t s)
  show ?case
  proof (cases "s = []")
    case True
    then show ?thesis by (intro exI[of _ "[]"]) simp
  next
    case False
    with 1(2) obtain c s' st1 where c: "CBS_get_asn1 t s = (Some c, s')"
      and r: "implicit_string_loop t s' st1 = (Some u, st')"
      by (subst (asm) implicit_string_loop.simps) (auto simp: CBS_len_def op_inv split: prod.splits option.splits)
    from 1(1)[OF _ c[symmetric] refl r] False obtain chunks where
      "s' = concat (map (der_tlv t) chunks)" "\<forall>c\<in>set chunks. length c < 2 ^ 32" by (auto simp: CBS_len_def)
    with c show ?thesis by (intro exI[of _ "c # chunks"]) (auto simp: CBS_get_asn1_iff)
  qed
qed

text \<open>A string is the contents of one primitive element, or the contents of the chunks of a
  constructed one put together.\<close>

lemma CBS_get_asn1_implicit_string_Some:
  assumes "CBS_get_asn1_implicit_string alloc outer inner s = (Some (out, copied), r)"
    and "length s < SIZE_MOD"
  shows "(\<not> copied \<and> s = der_tlv outer out @ r) \<or>
    (copied \<and> (\<exists>chunks. s = der_tlv (outer OR CBS_ASN1_CONSTRUCTED) (concat (map (der_tlv inner) chunks)) @ r \<and>
       out = concat chunks))"
proof (cases "CBS_peek_asn1_tag s outer")
  case True
  with assms(1) have "CBS_get_asn1 outer s = (Some out, r)" "\<not> copied"
    by (auto simp: CBS_get_asn1_implicit_string_def op_inv)
  then show ?thesis by (simp add: CBS_get_asn1_iff)
next
  case False
  with assms(1) obtain u st child st' where init: "CBB_init alloc (CBS_len s) = (Some u, st)"
    and child: "CBS_get_asn1 (outer OR CBS_ASN1_CONSTRUCTED) s = (Some child, r)"
    and fin: "sbind (implicit_string_loop inner child) (\<lambda>_. CBB_finish 0 True True) st = (Some out, st')"
    and "copied"
    by (auto simp: CBS_get_asn1_implicit_string_def CBS_init_def split: if_splits prod.splits option.splits)
  from fin obtain v st1 where l: "implicit_string_loop inner child st = (Some v, st1)"
    and f: "CBB_finish 0 True True st1 = (Some out, st')" by (auto simp: op_inv)
  from implicit_string_loop_sound[OF l] obtain chunks where chunks:
    "child = concat (map (der_tlv inner) chunks)" "\<forall>c\<in>set chunks. length c < 2 ^ 32" by blast
  have "length (concat chunks) \<le> length child"
    unfolding chunks(1) by (induction chunks) (auto simp: length_der_tlv)
  moreover have s: "s = der_tlv (outer OR CBS_ASN1_CONSTRUCTED) child @ r"
    using child by (simp add: CBS_get_asn1_iff)
  ultimately have "length (concat chunks) < SIZE_MOD"
    using arg_cong[OF s, of length] assms(2) by (simp add: length_der_tlv)
  note imp = implicit_string_loop_implements[OF this chunks(2), of inner]
  have "CBS_len s < SIZE_MOD" using assms(2) by (simp add: CBS_len_def)
  from CBB_init_ok[OF init this] have ok: "cbb_ok st" "levels st = ([[]], [])" by auto
  from implementsD(1)[OF imp ok(1)] l chunks(1) have s1: "cbb_ok st1"
    "each (lv_append 0) chunks ([[]], []) = Some (levels st1)" by (auto simp: ok(2))
  have "levels st1 = ([concat chunks], [])"
  proof (cases chunks)
    case (Cons x xs)
    with s1(2) each_append[of 0 id x xs "([[]], [])"] show ?thesis by (simp add: lv_append_alt)
  qed (use s1(2) in simp)
  with CBB_finish_Some[OF s1(1) f] have "out = concat chunks" by simp
  with s chunks(1) \<open>copied\<close> show ?thesis by blast
qed

end
