(* ===== verification/Unicode.thy ===== *)
theory Unicode
  imports Cbb_Asn1
begin

text \<open>
  The code-point readers and writers of \<open>crypto/bytestring/unicode.c\<close>: UTF-8, Latin-1, UCS-2
  and UTF-32. The UTF-8 reader is shown to accept exactly what the writer produces: no
  overlong form, no surrogate and no reserved value gets through.
\<close>

section \<open>Operations\<close>

definition is_valid_code_point :: "u32 \<Rightarrow> bool" where
  "is_valid_code_point v \<longleftrightarrow>
     \<not> (v > 0x10ffff \<or> v AND 0xfffe = 0xfffe \<or> (v \<ge> 0xfdd0 \<and> v \<le> 0xfdef) \<or> (v \<ge> 0xd800 \<and> v \<le> 0xdfff))"

definition BOTTOM_BITS :: "nat \<Rightarrow> u8" where
  "BOTTOM_BITS n = ucast (push_bit n (1 :: u32) - 1)"

definition TOP_BITS :: "nat \<Rightarrow> u8" where
  "TOP_BITS n = NOT (BOTTOM_BITS (8 - n))"

text \<open>The bits of the value in the first byte, the number of bytes to follow and the least value.\<close>

definition utf8_lead :: "u8 \<Rightarrow> (u32 \<times> nat \<times> u32) option" where
  "utf8_lead c =
     (if c AND TOP_BITS 3 = TOP_BITS 2 then Some (ucast (c AND BOTTOM_BITS 5), 1, 0x80)
      else if c AND TOP_BITS 4 = TOP_BITS 3 then Some (ucast (c AND BOTTOM_BITS 4), 2, 0x800)
      else if c AND TOP_BITS 5 = TOP_BITS 4 then Some (ucast (c AND BOTTOM_BITS 3), 3, 0x10000)
      else None)"

fun utf8_continue :: "nat \<Rightarrow> u32 \<Rightarrow> (cbs, u32) op" where
  "utf8_continue 0 v = ret v"
| "utf8_continue (Suc n) v = sbind CBS_get_u8 (\<lambda>c.
     if c AND TOP_BITS 2 \<noteq> TOP_BITS 1 then fail
     else utf8_continue n (push_bit 6 v OR ucast (c AND BOTTOM_BITS 6)))"

definition cbs_get_utf8 :: "(cbs, u32) op" where
  "cbs_get_utf8 = sbind CBS_get_u8 (\<lambda>c.
     if c \<le> 0x7f then ret (ucast c)
     else case utf8_lead c of None \<Rightarrow> fail | Some (v, len, lower_bound) \<Rightarrow>
       sbind (utf8_continue len v) (\<lambda>v.
       if \<not> is_valid_code_point v \<or> v < lower_bound then fail else ret v))"

definition cbs_get_latin1 :: "(cbs, u32) op" where
  "cbs_get_latin1 = sbind CBS_get_u8 (\<lambda>c. ret (ucast c))"

definition cbs_get_ucs2_be :: "(cbs, u32) op" where
  "cbs_get_ucs2_be = sbind CBS_get_u16 (\<lambda>c.
     if \<not> is_valid_code_point (ucast c) then fail else ret (ucast c))"

definition cbs_get_utf32_be :: "(cbs, u32) op" where
  "cbs_get_utf32_be = sbind CBS_get_u32 (\<lambda>out.
     if is_valid_code_point out then ret out else fail)"

definition cbb_get_utf8_len :: "u32 \<Rightarrow> nat" where
  "cbb_get_utf8_len u = (if u \<le> 0x7f then 1 else if u \<le> 0x7ff then 2 else if u \<le> 0xffff then 3 else 4)"

definition cbb_add_utf8 :: "nat \<Rightarrow> u32 \<Rightarrow> (cbb, unit) op" where
  "cbb_add_utf8 d u =
     (if \<not> is_valid_code_point u then fail
      else if u \<le> 0x7f then CBB_add_u8 d (ucast u)
      else if u \<le> 0x7ff then
        sbind (CBB_add_u8 d (TOP_BITS 2 OR ucast (drop_bit 6 u))) (\<lambda>_.
        CBB_add_u8 d (TOP_BITS 1 OR (ucast u AND BOTTOM_BITS 6)))
      else if u \<le> 0xffff then
        sbind (CBB_add_u8 d (TOP_BITS 3 OR ucast (drop_bit 12 u))) (\<lambda>_.
        sbind (CBB_add_u8 d (TOP_BITS 1 OR (ucast (drop_bit 6 u) AND BOTTOM_BITS 6))) (\<lambda>_.
        CBB_add_u8 d (TOP_BITS 1 OR (ucast u AND BOTTOM_BITS 6))))
      else if u \<le> 0x10ffff then
        sbind (CBB_add_u8 d (TOP_BITS 4 OR ucast (drop_bit 18 u))) (\<lambda>_.
        sbind (CBB_add_u8 d (TOP_BITS 1 OR (ucast (drop_bit 12 u) AND BOTTOM_BITS 6))) (\<lambda>_.
        sbind (CBB_add_u8 d (TOP_BITS 1 OR (ucast (drop_bit 6 u) AND BOTTOM_BITS 6))) (\<lambda>_.
        CBB_add_u8 d (TOP_BITS 1 OR (ucast u AND BOTTOM_BITS 6)))))
      else fail)"

definition cbb_add_latin1 :: "nat \<Rightarrow> u32 \<Rightarrow> (cbb, unit) op" where
  "cbb_add_latin1 d u = (if u \<le> 0xff then CBB_add_u8 d (ucast u) else fail)"

definition cbb_add_ucs2_be :: "nat \<Rightarrow> u32 \<Rightarrow> (cbb, unit) op" where
  "cbb_add_ucs2_be d u = (if u \<le> 0xffff \<and> is_valid_code_point u then CBB_add_u16 d (ucast u) else fail)"

definition cbb_add_utf32_be :: "nat \<Rightarrow> u32 \<Rightarrow> (cbb, unit) op" where
  "cbb_add_utf32_be d u = (if is_valid_code_point u then CBB_add_u32 d u else fail)"

section \<open>The encodings\<close>

lemma unicode_masks [simp]:
  "TOP_BITS 1 = 0x80" "TOP_BITS 2 = 0xc0" "TOP_BITS 3 = 0xe0" "TOP_BITS 4 = 0xf0" "TOP_BITS 5 = 0xf8"
  "BOTTOM_BITS 3 = 0x07" "BOTTOM_BITS 4 = 0x0f" "BOTTOM_BITS 5 = 0x1f" "BOTTOM_BITS 6 = 0x3f"
  by (simp_all add: TOP_BITS_def BOTTOM_BITS_def)

lemma TOP_BITS_Suc_0 [simp]: "TOP_BITS (Suc 0) = 0x80"
  using unicode_masks(1) by simp

definition utf8_bytes :: "u32 \<Rightarrow> u8 list" where
  "utf8_bytes u =
     (if u \<le> 0x7f then [ucast u]
      else if u \<le> 0x7ff then [0xc0 OR ucast (drop_bit 6 u), 0x80 OR (ucast u AND 0x3f)]
      else if u \<le> 0xffff then [0xe0 OR ucast (drop_bit 12 u),
        0x80 OR (ucast (drop_bit 6 u) AND 0x3f), 0x80 OR (ucast u AND 0x3f)]
      else [0xf0 OR ucast (drop_bit 18 u), 0x80 OR (ucast (drop_bit 12 u) AND 0x3f),
        0x80 OR (ucast (drop_bit 6 u) AND 0x3f), 0x80 OR (ucast u AND 0x3f)])"

lemma length_utf8_bytes: "length (utf8_bytes u) = cbb_get_utf8_len u"
  by (simp add: utf8_bytes_def cbb_get_utf8_len_def)

text \<open>Continuation bytes.\<close>

lemma continuation_byte:
  "(0x80 OR (x AND 0x3f) :: u8) AND 0xc0 = 0x80" "(0x80 OR (x AND 0x3f) :: u8) AND 0x3f = x AND 0x3f"
  by (rule bit_word_eqI, auto simp: bit_simps bit_literals)+

lemma utf8_continue_Suc:
  "utf8_continue (Suc n) v ((0x80 OR (x AND 0x3f)) # s) = utf8_continue n (push_bit 6 v OR ucast (x AND 0x3f)) s"
  by (simp add: continuation_byte)

lemma utf8_continue_eval:
  "utf8_continue 1 v ((0x80 OR (x AND 0x3f)) # s) = (Some (push_bit 6 v OR ucast (x AND 0x3f)), s)"
  "utf8_continue 2 v ((0x80 OR (x AND 0x3f)) # (0x80 OR (y AND 0x3f)) # s) =
     (Some (push_bit 6 (push_bit 6 v OR ucast (x AND 0x3f)) OR ucast (y AND 0x3f)), s)"
  "utf8_continue 3 v ((0x80 OR (x AND 0x3f)) # (0x80 OR (y AND 0x3f)) # (0x80 OR (z AND 0x3f)) # s) =
     (Some (push_bit 6 (push_bit 6 (push_bit 6 v OR ucast (x AND 0x3f)) OR ucast (y AND 0x3f)) OR
        ucast (z AND 0x3f)), s)"
  by (simp_all only: One_nat_def numeral_2_eq_2 numeral_3_eq_3 utf8_continue_Suc utf8_continue.simps(1) ret_apply)

lemma split_byte: "(c :: u8) = (c AND 0xe0) OR (c AND 0x1f)" "c = (c AND 0xf0) OR (c AND 0x0f)"
  "c = (c AND 0xf8) OR (c AND 0x07)" "c = (c AND 0xc0) OR (c AND 0x3f)"
  by (rule bit_word_eqI, auto simp: bit_simps bit_literals)+

lemma le_mask_iff: "(u :: 'a::len word) \<le> w \<longleftrightarrow> unat u \<le> unat w"
  by (rule word_le_nat_alt)

lemma byte_7f: "\<not> (0xc0 OR x :: u8) \<le> 0x7f" "\<not> (0xe0 OR x :: u8) \<le> 0x7f" "\<not> (0xf0 OR x :: u8) \<le> 0x7f"
proof -
  have "\<not> c \<le> 0x7f" if "bit c 7" for c :: u8
  proof
    assume "c \<le> 0x7f"
    then have "unat c < 2 ^ 7" by (simp add: word_le_nat_alt)
    from small_bits[OF this that] show False by simp
  qed
  then show "\<not> (0xc0 OR x :: u8) \<le> 0x7f" "\<not> (0xe0 OR x :: u8) \<le> 0x7f" "\<not> (0xf0 OR x :: u8) \<le> 0x7f"
    by (auto simp: bit_simps bit_literals)
qed

lemma lead_two:
  assumes "unat (u :: u32) < 2 ^ 11"
  shows "utf8_lead (0xc0 OR ucast (drop_bit 6 u)) = Some (drop_bit 6 u, 1, 0x80)"
proof -
  note small = small_bits[OF assms]
  have "(0xc0 OR ucast (drop_bit 6 u) :: u8) AND 0xe0 = 0xc0"
    by (rule bit_word_eqI) (auto simp: bit_simps bit_literals dest: small)
  moreover have "ucast ((0xc0 OR ucast (drop_bit 6 u) :: u8) AND 0x1f) = drop_bit 6 u"
    by (rule bit_word_eqI) (auto simp: bit_simps bit_literals dest: small)
  ultimately show ?thesis by (simp add: utf8_lead_def)
qed

lemma bit_neq: "bit (a :: 'a::len word) i \<noteq> bit b i \<Longrightarrow> a \<noteq> b"
  by auto

lemma lead_three:
  assumes "unat (u :: u32) < 2 ^ 16"
  shows "utf8_lead (0xe0 OR ucast (drop_bit 12 u)) = Some (drop_bit 12 u, 2, 0x800)"
proof -
  note small = small_bits[OF assms]
  let ?c = "0xe0 OR ucast (drop_bit 12 u) :: u8"
  have "?c AND 0xe0 \<noteq> 0xc0" by (rule bit_neq[where i = 5]) (simp add: bit_simps bit_literals)
  moreover have "?c AND 0xf0 = 0xe0"
    by (rule bit_word_eqI) (auto simp: bit_simps bit_literals dest: small)
  moreover have "ucast (?c AND 0x0f) = drop_bit 12 u"
    by (rule bit_word_eqI) (auto simp: bit_simps bit_literals dest: small)
  ultimately show ?thesis by (simp add: utf8_lead_def)
qed

lemma lead_four:
  assumes "unat (u :: u32) < 2 ^ 21"
  shows "utf8_lead (0xf0 OR ucast (drop_bit 18 u)) = Some (drop_bit 18 u, 3, 0x10000)"
proof -
  note small = small_bits[OF assms]
  let ?c = "0xf0 OR ucast (drop_bit 18 u) :: u8"
  have "?c AND 0xe0 \<noteq> 0xc0" by (rule bit_neq[where i = 5]) (simp add: bit_simps bit_literals)
  moreover have "?c AND 0xf0 \<noteq> 0xe0" by (rule bit_neq[where i = 4]) (simp add: bit_simps bit_literals)
  moreover have "?c AND 0xf8 = 0xf0"
    by (rule bit_word_eqI) (auto simp: bit_simps bit_literals dest: small)
  moreover have "ucast (?c AND 0x07) = drop_bit 18 u"
    by (rule bit_word_eqI) (auto simp: bit_simps bit_literals dest: small)
  ultimately show ?thesis by (simp add: utf8_lead_def)
qed

lemmas join_sixes = join_six[of 0 u for u, simplified] join_six[of 6 u for u, simplified] join_six[of 12 u for u, simplified]

lemma split_six:
  fixes x :: u32 and b :: u8
  assumes "unat x < 2 ^ n" and "n \<le> 26"
  shows "drop_bit 6 (push_bit 6 x OR ucast (b AND 0x3f)) = x"
    and "ucast (push_bit 6 x OR ucast (b AND 0x3f)) AND 0x3f = b AND 0x3f"
    and "unat (push_bit 6 x OR ucast (b AND 0x3f)) < 2 ^ (n + 6)"
proof -
  note small = small_bits[OF assms(1)]
  show "drop_bit 6 (push_bit 6 x OR ucast (b AND 0x3f)) = x"
    using assms(2) by (intro bit_word_eqI) (auto simp: bit_simps bit_literals dest: small)
  show "ucast (push_bit 6 x OR ucast (b AND 0x3f)) AND 0x3f = b AND 0x3f"
    by (rule bit_word_eqI) (auto simp: bit_simps bit_literals)
  show "unat (push_bit 6 x OR ucast (b AND 0x3f)) < 2 ^ (n + 6)"
    by (rule bits_small) (auto simp: bit_simps bit_literals dest: small)
qed

lemma utf8_bound:
  "unat (u :: u32) < 2 ^ 11 \<Longrightarrow> u \<le> 0x7ff" "unat u < 2 ^ 16 \<Longrightarrow> u \<le> 0xffff"
  "u \<le> 0x7ff \<Longrightarrow> unat u < 2 ^ 11" "u \<le> 0xffff \<Longrightarrow> unat u < 2 ^ 16" "u \<le> 0x10ffff \<Longrightarrow> unat u < 2 ^ 21"
  by (auto simp: word_le_nat_alt)

section \<open>UTF-8 round trip\<close>

lemma cbs_get_utf8_bytes:
  assumes "is_valid_code_point u"
  shows "cbs_get_utf8 (utf8_bytes u @ s) = (Some u, s)"
proof -
  have max: "u \<le> 0x10ffff" using assms by (auto simp: is_valid_code_point_def)
  consider "u \<le> 0x7f" | "\<not> u \<le> 0x7f" "u \<le> 0x7ff" | "\<not> u \<le> 0x7f" "\<not> u \<le> 0x7ff" "u \<le> 0xffff"
    | "\<not> u \<le> 0x7f" "\<not> u \<le> 0x7ff" "\<not> u \<le> 0xffff" by blast
  then show ?thesis
  proof cases
    case 1
    then have "unat u < 2 ^ 7" by (simp add: word_le_nat_alt)
    note small = small_bits[OF this]
    have "ucast (ucast u :: u8) = u" by (rule bit_word_eqI) (auto simp: bit_simps dest: small)
    moreover have "(ucast u :: u8) \<le> 0x7f"
      using \<open>unat u < 2 ^ 7\<close> by (simp add: word_le_nat_alt unsigned_ucast_eq take_bit_nat_eq_self)
    ultimately show ?thesis using 1 by (simp add: cbs_get_utf8_def utf8_bytes_def)
  next
    case 2
    have "\<not> u < 0x80" using 2(1) by (simp add: word_le_nat_alt word_less_nat_alt)
    then show ?thesis
      using 2 lead_two[OF utf8_bound(3)[OF 2(2)]] join_sixes[of u] byte_7f assms
      by (simp add: cbs_get_utf8_def utf8_bytes_def utf8_continue_eval[simplified])
  next
    case 3
    have "\<not> u < 0x800" using 3(2) by (simp add: word_le_nat_alt word_less_nat_alt)
    then show ?thesis
      using 3 lead_three[OF utf8_bound(4)[OF 3(3)]] join_sixes[of u] byte_7f assms
      by (simp add: cbs_get_utf8_def utf8_bytes_def utf8_continue_eval)
  next
    case 4
    have "\<not> u < 0x10000" using 4(3) by (simp add: word_le_nat_alt word_less_nat_alt)
    then show ?thesis
      using 4 lead_four[OF utf8_bound(5)[OF max]] join_sixes[of u] byte_7f assms
      by (simp add: cbs_get_utf8_def utf8_bytes_def utf8_continue_eval)
  qed
qed

lemma utf8_continue_Some:
  assumes "utf8_continue (Suc n) v s = (Some w, r)"
  obtains b s' where "s = (0x80 OR (b AND 0x3f)) # s'"
    "utf8_continue n (push_bit 6 v OR ucast (b AND 0x3f)) s' = (Some w, r)"
proof -
  from assms obtain b s' where s: "s = b # s'" and c: "b AND 0xc0 = 0x80"
    and u: "utf8_continue n (push_bit 6 v OR ucast (b AND 0x3f)) s' = (Some w, r)"
    by (cases s) (auto simp: op_inv split: if_splits)
  have "b = 0x80 OR (b AND 0x3f)" using split_byte(4)[of b] c by simp
  with s u that show ?thesis by simp
qed

lemma unat_and_small: "unat (ucast ((c :: u8) AND 0x1f) :: u32) < 2 ^ 5"
  "unat (ucast (c AND 0x0f) :: u32) < 2 ^ 4" "unat (ucast (c AND 0x07) :: u32) < 2 ^ 3"
  by (rule bits_small, simp add: bit_simps bit_literals)+

lemma utf8_lead_cases:
  assumes "utf8_lead c = Some (v, n, lb)"
  obtains (two) x where "n = 1" "lb = 0x80" "c = 0xc0 OR x" "v = ucast x" "unat v < 2 ^ 5"
    | (three) x where "n = 2" "lb = 0x800" "c = 0xe0 OR x" "v = ucast x" "unat v < 2 ^ 4"
    | (four) x where "n = 3" "lb = 0x10000" "c = 0xf0 OR x" "v = ucast x" "unat v < 2 ^ 3"
  using assms split_byte(1-3)[of c] unat_and_small[of c] that
  by (auto simp: utf8_lead_def split: if_splits)

lemma ucast_down_up: "ucast (ucast (x :: u8) :: u32) = x"
  by (rule bit_word_eqI) (auto simp: bit_simps)

lemma ascii_valid:
  assumes "unat v < 2 ^ 7"
  shows "is_valid_code_point v"
proof -
  have "v AND 0xfffe \<noteq> 0xfffe"
    by (rule bit_neq[where i = 15]) (use small_bits[OF assms, of 15] in \<open>auto simp: bit_simps\<close>)
  then show ?thesis using assms by (auto simp: is_valid_code_point_def word_le_nat_alt word_less_nat_alt)
qed

text \<open>The bytes of a value built from its groups of six bits.\<close>

lemma utf8_bytes_two:
  fixes x b :: u8
  assumes "unat (ucast x :: u32) < 2 ^ 5"
  defines "v \<equiv> push_bit 6 (ucast x) OR ucast ((b :: u8) AND 0x3f) :: u32"
  assumes "\<not> v < 0x80"
  shows "utf8_bytes v = [0xc0 OR x, 0x80 OR (b AND 0x3f)]"
proof -
  note s = split_six[OF assms(1), of b, folded v_def]
  have "v \<le> 0x7ff" "\<not> v \<le> 0x7f" using s(3) assms(3) by (auto simp: word_le_nat_alt word_less_nat_alt)
  then show ?thesis using s(1,2) by (simp add: utf8_bytes_def ucast_down_up)
qed

lemma drop_bit_six: "drop_bit 6 v = w \<Longrightarrow> drop_bit 6 w = x \<Longrightarrow> drop_bit 12 (v :: u32) = x"
  "drop_bit 12 v = w \<Longrightarrow> drop_bit 6 w = x \<Longrightarrow> drop_bit 18 (v :: u32) = x"
  by (auto simp: drop_bit_drop_bit)

lemma utf8_bytes_three:
  fixes x b d :: u8
  assumes "unat (ucast x :: u32) < 2 ^ 4"
  defines "w \<equiv> push_bit 6 (ucast x) OR ucast ((b :: u8) AND 0x3f) :: u32"
  defines "v \<equiv> push_bit 6 w OR ucast ((d :: u8) AND 0x3f) :: u32"
  assumes "\<not> v < 0x800"
  shows "utf8_bytes v = [0xe0 OR x, 0x80 OR (b AND 0x3f), 0x80 OR (d AND 0x3f)]"
proof -
  note s = split_six[OF assms(1), of b, folded w_def]
  from s(3) have "unat w < 2 ^ 10" by simp
  note r = split_six[OF this, of d, folded v_def]
  note drop_bit_six(1)[OF r(1) s(1)]
  moreover have "v \<le> 0xffff" "\<not> v \<le> 0x7ff" "\<not> v \<le> 0x7f"
    using r(3) assms(4) by (auto simp: word_le_nat_alt word_less_nat_alt)
  ultimately show ?thesis using r(1,2) s(2) by (simp add: utf8_bytes_def ucast_down_up)
qed

lemma utf8_bytes_four:
  fixes x b d e :: u8
  assumes "unat (ucast x :: u32) < 2 ^ 3"
  defines "w \<equiv> push_bit 6 (ucast x) OR ucast ((b :: u8) AND 0x3f) :: u32"
  defines "y \<equiv> push_bit 6 w OR ucast ((d :: u8) AND 0x3f) :: u32"
  defines "v \<equiv> push_bit 6 y OR ucast ((e :: u8) AND 0x3f) :: u32"
  assumes "\<not> v < 0x10000"
  shows "utf8_bytes v = [0xf0 OR x, 0x80 OR (b AND 0x3f), 0x80 OR (d AND 0x3f), 0x80 OR (e AND 0x3f)]"
proof -
  note s = split_six[OF assms(1), of b, folded w_def]
  from s(3) have "unat w < 2 ^ 9" by simp
  note r = split_six[OF this, of d, folded y_def]
  from r(3) have "unat y < 2 ^ 15" by simp
  note q = split_six[OF this, of e, folded v_def]
  note d12 = drop_bit_six(1)[OF q(1) r(1)]
  note drop_bit_six(2)[OF d12 s(1)]
  moreover have "\<not> v \<le> 0xffff" "\<not> v \<le> 0x7ff" "\<not> v \<le> 0x7f"
    using assms(5) by (auto simp: word_le_nat_alt word_less_nat_alt)
  ultimately show ?thesis using q(1,2) r(2) s(2) d12 by (simp add: utf8_bytes_def ucast_down_up)
qed

lemma cbs_get_utf8_sound:
  assumes "cbs_get_utf8 s = (Some v, r)"
  shows "is_valid_code_point v \<and> s = utf8_bytes v @ r"
proof -
  from assms obtain c s0 where s: "s = c # s0" by (cases s) (auto simp: cbs_get_utf8_def op_inv)
  show ?thesis
  proof (cases "c \<le> 0x7f")
    case True
    then have c: "unat c < 2 ^ 7" by (simp add: word_le_nat_alt)
    then have "unat (ucast c :: u32) < 2 ^ 7" by (simp add: unsigned_ucast_eq take_bit_nat_eq_self)
    moreover from this have "(ucast c :: u32) \<le> 0x7f" by (simp add: word_le_nat_alt)
    ultimately show ?thesis using assms s True ascii_valid
      by (auto simp: cbs_get_utf8_def utf8_bytes_def ucast_down_up)
  next
    case False
    with assms s obtain v0 n lb where lead: "utf8_lead c = Some (v0, n, lb)"
      and cont: "utf8_continue n v0 s0 = (Some v, r)" and v: "is_valid_code_point v" "\<not> v < lb"
      by (auto simp: cbs_get_utf8_def op_inv split: option.splits if_splits)
    from lead show ?thesis
    proof (cases rule: utf8_lead_cases)
      case (two x)
      with cont obtain b s1 where "s0 = (0x80 OR (b AND 0x3f)) # s1"
        "utf8_continue 0 (push_bit 6 v0 OR ucast (b AND 0x3f)) s1 = (Some v, r)"
        using utf8_continue_Some[of 0 v0 s0 v r] by auto
      then show ?thesis using two v utf8_bytes_two[of x b] s by (simp add: op_inv)
    next
      case (three x)
      with cont have "utf8_continue (Suc (Suc 0)) v0 s0 = (Some v, r)" by (simp only: numeral_2_eq_2)
      then obtain b s1 where "s0 = (0x80 OR (b AND 0x3f)) # s1"
        and "utf8_continue (Suc 0) (push_bit 6 v0 OR ucast (b AND 0x3f)) s1 = (Some v, r)"
        by (rule utf8_continue_Some)
      moreover from this(2) obtain d s2 where "s1 = (0x80 OR (d AND 0x3f)) # s2"
        "utf8_continue 0 (push_bit 6 (push_bit 6 v0 OR ucast (b AND 0x3f)) OR ucast (d AND 0x3f)) s2 = (Some v, r)"
        by (rule utf8_continue_Some)
      ultimately show ?thesis using three v utf8_bytes_three[of x b d] s by (simp add: op_inv)
    next
      case (four x)
      with cont have "utf8_continue (Suc (Suc (Suc 0))) v0 s0 = (Some v, r)" by (simp only: numeral_3_eq_3)
      then obtain b s1 where "s0 = (0x80 OR (b AND 0x3f)) # s1"
        and "utf8_continue (Suc (Suc 0)) (push_bit 6 v0 OR ucast (b AND 0x3f)) s1 = (Some v, r)"
        by (rule utf8_continue_Some)
      moreover from this(2) obtain d s2 where "s1 = (0x80 OR (d AND 0x3f)) # s2"
        and "utf8_continue (Suc 0) (push_bit 6 (push_bit 6 v0 OR ucast (b AND 0x3f)) OR ucast (d AND 0x3f)) s2 = (Some v, r)"
        by (rule utf8_continue_Some)
      moreover from this(2) obtain e s3 where "s2 = (0x80 OR (e AND 0x3f)) # s3"
        "utf8_continue 0 (push_bit 6 (push_bit 6 (push_bit 6 v0 OR ucast (b AND 0x3f)) OR ucast (d AND 0x3f)) OR
           ucast (e AND 0x3f)) s3 = (Some v, r)"
        by (rule utf8_continue_Some)
      ultimately show ?thesis using four v utf8_bytes_four[of x b d e] s by (simp add: op_inv)
    qed
  qed
qed

interpretation utf8: canonical_codec utf8_bytes cbs_get_utf8 is_valid_code_point
  by unfold_locales (simp_all add: cbs_get_utf8_bytes cbs_get_utf8_sound)

text \<open>The writer.\<close>

lemma emit_bytes:
  "cbb_implements (sbind (CBB_add_u8 d a) (\<lambda>_. CBB_add_u8 d b)) (lv_append d [a, b])"
  "cbb_implements (sbind (CBB_add_u8 d a) (\<lambda>_. sbind (CBB_add_u8 d b) (\<lambda>_. CBB_add_u8 d c))) (lv_append d [a, b, c])"
  "cbb_implements (sbind (CBB_add_u8 d a) (\<lambda>_. sbind (CBB_add_u8 d b) (\<lambda>_. sbind (CBB_add_u8 d c)
     (\<lambda>_. CBB_add_u8 d e)))) (lv_append d [a, b, c, e])"
proof -
  show two: "cbb_implements (sbind (CBB_add_u8 d a) (\<lambda>_. CBB_add_u8 d b)) (lv_append d [a, b])" for a b
    by (rule builder.bind_both[OF CBB_add_u8_implements CBB_add_u8_implements]) (simp add: lv_append_append)
  show three: "cbb_implements (sbind (CBB_add_u8 d a) (\<lambda>_. sbind (CBB_add_u8 d b) (\<lambda>_. CBB_add_u8 d c)))
      (lv_append d [a, b, c])" for a b c
    by (rule builder.bind_both[OF CBB_add_u8_implements two]) (simp add: lv_append_append)
  show "cbb_implements (sbind (CBB_add_u8 d a) (\<lambda>_. sbind (CBB_add_u8 d b) (\<lambda>_. sbind (CBB_add_u8 d c)
     (\<lambda>_. CBB_add_u8 d e)))) (lv_append d [a, b, c, e])"
    by (rule builder.bind_both[OF CBB_add_u8_implements three]) (simp add: lv_append_append)
qed

lemma cbb_add_utf8_implements:
  "cbb_implements (cbb_add_utf8 d u) (\<lambda>l. if is_valid_code_point u then lv_append d (utf8_bytes u) l else None)"
proof (cases "is_valid_code_point u")
  case True
  then have "u \<le> 0x10ffff" by (auto simp: is_valid_code_point_def)
  then show ?thesis
    using True emit_bytes CBB_add_u8_implements by (simp add: cbb_add_utf8_def utf8_bytes_def)
next
  case False
  then show ?thesis by (simp add: builder.fail cbb_add_utf8_def)
qed

section \<open>The fixed-width encodings\<close>

text \<open>Reading what was written.\<close>

lemma latin1_round_trip: "u \<le> 0xff \<Longrightarrow> cbs_get_latin1 (ucast u # s) = (Some u, s)"
proof -
  assume "u \<le> 0xff"
  then have "unat u < 2 ^ 8" by (simp add: word_le_nat_alt)
  then have "ucast (ucast u :: u8) = u"
    by (intro bit_word_eqI) (auto simp: bit_simps dest: small_bits[OF \<open>unat u < 2 ^ 8\<close>])
  then show ?thesis by (simp add: cbs_get_latin1_def)
qed

lemma cbb_add_latin1_implements:
  "cbb_implements (cbb_add_latin1 d u) (\<lambda>l. if u \<le> 0xff then lv_append d [ucast u] l else None)"
  using CBB_add_u8_implements by (simp add: builder.fail cbb_add_latin1_def)

lemma cbb_add_ucs2_be_implements:
  "cbb_implements (cbb_add_ucs2_be d u)
    (\<lambda>l. if u \<le> 0xffff \<and> is_valid_code_point u then lv_append d (be_bytes 2 (ucast (ucast u :: u16))) l else None)"
  using CBB_add_u16_implements
  by (cases "u \<le> 0xffff \<and> is_valid_code_point u") (simp_all only: builder.fail cbb_add_ucs2_be_def if_True if_False simp_thms)

lemma cbb_add_utf32_be_implements:
  "cbb_implements (cbb_add_utf32_be d u)
    (\<lambda>l. if is_valid_code_point u then lv_append d (be_bytes 4 (ucast u)) l else None)"
  using CBB_add_u32_implements by (simp add: builder.fail cbb_add_utf32_be_def)

lemma ucs2_round_trip:
  assumes "u \<le> 0xffff" and "is_valid_code_point u"
  shows "cbs_get_ucs2_be (be_bytes 2 (ucast (ucast u :: u16)) @ s) = (Some u, s)"
proof -
  from assms(1) have "unat u < 2 ^ 16" by (simp add: word_le_nat_alt)
  then have "ucast (ucast (be_value (be_bytes 2 (ucast (ucast u :: u16)))) :: u16) = u"
    unfolding be_value_bytes
    by (intro bit_word_eqI) (auto simp: bit_simps dest: small_bits[OF \<open>unat u < 2 ^ 16\<close>])
  then show ?thesis using assms(2)
    by (simp add: cbs_get_ucs2_be_def CBS_get_u16_def cbs_get_u_append[where n = 2] del: be_bytes.simps)
qed

lemma utf32_round_trip:
  assumes "is_valid_code_point u"
  shows "cbs_get_utf32_be (be_bytes 4 (ucast u) @ s) = (Some u, s)"
proof -
  have "ucast (be_value (be_bytes 4 (ucast u))) = u"
    unfolding be_value_bytes by (intro bit_word_eqI) (auto simp: bit_simps)
  then show ?thesis using assms
    by (simp add: cbs_get_utf32_be_def CBS_get_u32_def cbs_get_u_append[where n = 4] del: be_bytes.simps)
qed

end
