(* ===== verification/Const_Time.thy ===== *)
theory Const_Time
  imports Prelude
begin

text \<open>
  The constant-time comparisons and selections of \<open>crypto/internal.h\<close>, which compute masks
  without branching, and the proof that each mask is what the comparison says. A
  \<open>crypto_word_t\<close> is 64 bits wide; \<open>value_barrier_w\<close> returns its argument.
\<close>

section \<open>Operations\<close>

definition value_barrier_w :: "u64 \<Rightarrow> u64" where
  "value_barrier_w a = a"

definition constant_time_msb_w :: "u64 \<Rightarrow> u64" where
  "constant_time_msb_w a = 0 - drop_bit (8 * 8 - 1) a"

definition constant_time_lt_w :: "u64 \<Rightarrow> u64 \<Rightarrow> u64" where
  "constant_time_lt_w a b = constant_time_msb_w (a XOR ((a XOR b) OR ((a - b) XOR a)))"

definition constant_time_lt_8 :: "u64 \<Rightarrow> u64 \<Rightarrow> u8" where
  "constant_time_lt_8 a b = ucast (constant_time_lt_w a b)"

definition constant_time_ge_w :: "u64 \<Rightarrow> u64 \<Rightarrow> u64" where
  "constant_time_ge_w a b = NOT (constant_time_lt_w a b)"

definition constant_time_ge_8 :: "u64 \<Rightarrow> u64 \<Rightarrow> u8" where
  "constant_time_ge_8 a b = ucast (constant_time_ge_w a b)"

definition constant_time_is_zero_w :: "u64 \<Rightarrow> u64" where
  "constant_time_is_zero_w a = constant_time_msb_w (NOT a AND (a - 1))"

definition constant_time_is_zero_8 :: "u64 \<Rightarrow> u8" where
  "constant_time_is_zero_8 a = ucast (constant_time_is_zero_w a)"

definition constant_time_eq_w :: "u64 \<Rightarrow> u64 \<Rightarrow> u64" where
  "constant_time_eq_w a b = constant_time_is_zero_w (a XOR b)"

definition constant_time_eq_8 :: "u64 \<Rightarrow> u64 \<Rightarrow> u8" where
  "constant_time_eq_8 a b = ucast (constant_time_eq_w a b)"

text \<open>An \<open>int\<close> is sign-extended when it becomes a \<open>crypto_word_t\<close>.\<close>

definition constant_time_eq_int :: "u32 \<Rightarrow> u32 \<Rightarrow> u64" where
  "constant_time_eq_int a b = constant_time_eq_w (scast a) (scast b)"

definition constant_time_eq_int_8 :: "u32 \<Rightarrow> u32 \<Rightarrow> u8" where
  "constant_time_eq_int_8 a b = constant_time_eq_8 (scast a) (scast b)"

definition constant_time_select_w :: "u64 \<Rightarrow> u64 \<Rightarrow> u64 \<Rightarrow> u64" where
  "constant_time_select_w m a b = (value_barrier_w m AND a) OR (value_barrier_w (NOT m) AND b)"

definition constant_time_select_8 :: "u8 \<Rightarrow> u8 \<Rightarrow> u8 \<Rightarrow> u8" where
  "constant_time_select_8 m a b = ucast (constant_time_select_w (ucast m) (ucast a) (ucast b))"

definition constant_time_select_int :: "u64 \<Rightarrow> u32 \<Rightarrow> u32 \<Rightarrow> u32" where
  "constant_time_select_int m a b = ucast (constant_time_select_w m (scast a) (scast b))"

section \<open>What they compute\<close>

lemma bit_63_iff: "bit (w :: u64) 63 \<longleftrightarrow> 2 ^ 63 \<le> unat w"
proof
  assume "bit w 63"
  show "2 ^ 63 \<le> unat w"
  proof (rule ccontr)
    assume "\<not> 2 ^ 63 \<le> unat w"
    then have "unat w < 2 ^ 63" by simp
    from small_bits[OF this \<open>bit w 63\<close>] show False by simp
  qed
next
  assume "2 ^ 63 \<le> unat w"
  show "bit w 63"
  proof (rule ccontr)
    assume "\<not> bit w 63"
    then have "bit w i \<Longrightarrow> i < 63" for i by (cases "i = 63") (auto dest: bit_imp_le_length)
    then have "unat w < 2 ^ 63" by (rule bits_small)
    with \<open>2 ^ 63 \<le> unat w\<close> show False by simp
  qed
qed

lemma constant_time_msb_w_eq: "constant_time_msb_w a = (if bit a 63 then - 1 else 0)"
proof -
  have "drop_bit 63 a = (if bit a 63 then 1 else 0)"
  proof (rule bit_word_eqI)
    fix i
    show "bit (drop_bit 63 a) i = bit (if bit a 63 then 1 else 0 :: u64) i"
      by (cases "i = 0") (auto simp: bit_simps dest: bit_imp_le_length)
  qed
  then show ?thesis by (simp add: constant_time_msb_w_def)
qed

lemma unat_minus_word: "unat (a - b :: u64) = (if b \<le> a then unat a - unat b else unat a + 2 ^ 64 - unat b)"
  by (simp add: unat_sub_if_size word_size word_le_nat_alt)

lemma constant_time_lt_w_eq: "constant_time_lt_w a b = (if a < b then - 1 else 0)"
proof -
  have "unat a < 2 ^ 64" "unat b < 2 ^ 64"
    using unsigned_less[of a, where 'a = nat] unsigned_less[of b, where 'a = nat] by simp_all
  then have "(bit a 63 \<noteq> (bit a 63 \<noteq> bit b 63 \<or> bit (a - b) 63 \<noteq> bit a 63)) \<longleftrightarrow> a < b"
    unfolding bit_63_iff unat_minus_word word_less_nat_alt word_le_nat_alt by auto
  then show ?thesis by (simp add: constant_time_lt_w_def constant_time_msb_w_eq bit_simps)
qed

lemma constant_time_ge_w_eq: "constant_time_ge_w a b = (if a \<ge> b then - 1 else 0)"
  by (auto simp: constant_time_ge_w_def constant_time_lt_w_eq)

lemma constant_time_is_zero_w_eq: "constant_time_is_zero_w a = (if a = 0 then - 1 else 0)"
proof -
  have "unat a < 2 ^ 64" using unsigned_less[of a, where 'a = nat] by simp
  then have "(\<not> bit a 63 \<and> bit (a - 1) 63) \<longleftrightarrow> a = 0"
    unfolding bit_63_iff unat_minus_word word_unat_eq_iff word_le_nat_alt by auto
  then show ?thesis by (simp add: constant_time_is_zero_w_def constant_time_msb_w_eq bit_simps)
qed

lemma constant_time_eq_w_eq: "constant_time_eq_w a b = (if a = b then - 1 else 0)"
  by (simp add: constant_time_eq_w_def constant_time_is_zero_w_eq xor_zero_iff)

lemma ucast_minus_1: "ucast (- 1 :: u64) = (- 1 :: u8)"
  by (rule bit_word_eqI) (auto simp: bit_simps)

lemma constant_time_8_eq:
  "constant_time_lt_8 a b = (if a < b then - 1 else 0)"
  "constant_time_ge_8 a b = (if a \<ge> b then - 1 else 0)"
  "constant_time_is_zero_8 a = (if a = 0 then - 1 else 0)"
  "constant_time_eq_8 a b = (if a = b then - 1 else 0)"
  by (simp_all add: constant_time_lt_8_def constant_time_ge_8_def constant_time_is_zero_8_def
      constant_time_eq_8_def constant_time_lt_w_eq constant_time_ge_w_eq constant_time_is_zero_w_eq
      constant_time_eq_w_eq ucast_minus_1)

lemma constant_time_select_w_eq: "constant_time_select_w (if c then - 1 else 0) a b = (if c then a else b)"
  by (simp add: constant_time_select_w_def value_barrier_w_def)

lemma constant_time_select_8_eq: "constant_time_select_8 (if c then - 1 else 0) a b = (if c then a else b)"
proof -
  have "ucast (ucast (- 1 :: u8) AND (ucast a :: u64) OR NOT (ucast (- 1 :: u8)) AND ucast b) = a" for a b :: u8
    by (rule bit_word_eqI) (auto simp: bit_simps)
  moreover have "ucast (ucast b :: u64) = b" for b :: u8
    by (rule bit_word_eqI) (auto simp: bit_simps)
  ultimately show ?thesis
    by (simp add: constant_time_select_8_def constant_time_select_w_def value_barrier_w_def)
qed

lemma constant_time_eq_int_eq: "constant_time_eq_int a b = (if a = b then - 1 else 0)"
proof -
  have "ucast (scast c :: u64) = c" for c :: u32
  proof (rule bit_word_eqI)
    fix n assume "n < LENGTH(32)"
    then show "bit (ucast (scast c :: u64) :: u32) n = bit c n"
      by (cases "n = 31") (auto simp: bit_simps min_def)
  qed
  then have "(scast a :: u64) = scast b \<longleftrightarrow> a = b" by metis
  then show ?thesis by (simp add: constant_time_eq_int_def constant_time_eq_w_eq)
qed

end
