(* ===== verification/Base64.thy ===== *)
theory Base64
  imports Const_Time
begin

text \<open>
  Base64 encoding and decoding, \<open>crypto/base64/base64.c\<close>: the constant-time conversion of
  single characters, blocks, and the streaming interface with its lines of 64 characters.
  Output that the code writes through a pointer is the list of the bytes written.
\<close>

section \<open>Characters\<close>

definition constant_time_lt_args_8 :: "u8 \<Rightarrow> u8 \<Rightarrow> u8" where
  "constant_time_lt_args_8 a b =
     (let aw = ucast a; bw = ucast b in ucast (constant_time_msb_w (aw - bw)))"

definition constant_time_in_range_8 :: "u8 \<Rightarrow> u8 \<Rightarrow> u8 \<Rightarrow> u8" where
  "constant_time_in_range_8 a lo hi = (let a = a - lo in constant_time_lt_args_8 a (hi - lo + 1))"

definition conv_bin2ascii :: "u8 \<Rightarrow> u8" where
  "conv_bin2ascii a =
     (let a = a AND 0x3f;
          r = constant_time_select_8 (constant_time_eq_8 (ucast a) 62) 0x2b 0x2f;
          r = constant_time_select_8 (constant_time_lt_args_8 a 62) (a - 52 + 0x30) r;
          r = constant_time_select_8 (constant_time_lt_args_8 a 52) (a - 26 + 0x61) r;
          r = constant_time_select_8 (constant_time_lt_args_8 a 26) (a + 0x41) r
      in r)"

definition base64_ascii_to_bin :: "u8 \<Rightarrow> u8" where
  "base64_ascii_to_bin a =
     (let is_upper = constant_time_in_range_8 a 0x41 0x5a;
          is_lower = constant_time_in_range_8 a 0x61 0x7a;
          is_digit = constant_time_in_range_8 a 0x30 0x39;
          is_plus = constant_time_eq_8 (ucast a) 0x2b;
          is_slash = constant_time_eq_8 (ucast a) 0x2f;
          is_equals = constant_time_eq_8 (ucast a) 0x3d;
          r = 0;
          r = r OR (is_upper AND (a - 0x41));
          r = r OR (is_lower AND (a - 0x61 + 26));
          r = r OR (is_digit AND (a - 0x30 + 52));
          r = r OR (is_plus AND 62);
          r = r OR (is_slash AND 63);
          is_valid = is_upper OR is_lower OR is_digit OR is_plus OR is_slash OR is_equals
      in r OR NOT is_valid)"

section \<open>Blocks\<close>

text \<open>\<open>EVP_EncodedLength\<close> with \<open>size_t\<close> arithmetic; \<open>None\<close> is a return of zero.\<close>

definition EVP_EncodedLength :: "nat \<Rightarrow> nat option" where
  "EVP_EncodedLength len =
     (if (len + 2) mod SIZE_MOD < len then None
      else let len = (len + 2) mod SIZE_MOD div 3 in
        if (len * 4) mod SIZE_MOD div 4 \<noteq> len then None
        else let len = (len * 4) mod SIZE_MOD in
          if (len + 1) mod SIZE_MOD < len then None else Some ((len + 1) mod SIZE_MOD))"

text \<open>The characters written, without the terminating zero; their number is the result.\<close>

fun EVP_EncodeBlock :: "u8 list \<Rightarrow> u8 list" where
  "EVP_EncodeBlock (s0 # s1 # s2 # src) =
     (let l = push_bit 16 (ucast s0 :: u32) OR push_bit 8 (ucast s1) OR ucast s2
      in conv_bin2ascii (ucast (drop_bit 18 l)) # conv_bin2ascii (ucast (drop_bit 12 l)) #
         conv_bin2ascii (ucast (drop_bit 6 l)) # conv_bin2ascii (ucast l) # EVP_EncodeBlock src)"
| "EVP_EncodeBlock [s0, s1] =
     (let l = push_bit 16 (ucast s0 :: u32) OR push_bit 8 (ucast s1)
      in [conv_bin2ascii (ucast (drop_bit 18 l)), conv_bin2ascii (ucast (drop_bit 12 l)),
          conv_bin2ascii (ucast (drop_bit 6 l)), 0x3d])"
| "EVP_EncodeBlock [s0] =
     (let l = push_bit 16 (ucast s0 :: u32)
      in [conv_bin2ascii (ucast (drop_bit 18 l)), conv_bin2ascii (ucast (drop_bit 12 l)), 0x3d, 0x3d])"
| "EVP_EncodeBlock [] = []"

definition EVP_DecodedLength :: "nat \<Rightarrow> nat option" where
  "EVP_DecodedLength len = (if len mod 4 \<noteq> 0 then None else Some (len div 4 * 3))"

definition base64_decode_quad :: "u8 \<Rightarrow> u8 \<Rightarrow> u8 \<Rightarrow> u8 \<Rightarrow> u8 list option" where
  "base64_decode_quad i0 i1 i2 i3 =
     (let a = base64_ascii_to_bin i0; b = base64_ascii_to_bin i1;
          c = base64_ascii_to_bin i2; d = base64_ascii_to_bin i3
      in if a = 0xff \<or> b = 0xff \<or> c = 0xff \<or> d = 0xff then None
      else let v = push_bit 18 (ucast a :: u32) OR push_bit 12 (ucast b) OR push_bit 6 (ucast c) OR ucast d
      in case (i0 = 0x3d, i1 = 0x3d, i2 = 0x3d, i3 = 0x3d) of
          (False, False, False, False) \<Rightarrow> Some [ucast (drop_bit 16 v), ucast (drop_bit 8 v), ucast v]
        | (False, False, False, True) \<Rightarrow> Some [ucast (drop_bit 16 v), ucast (drop_bit 8 v)]
        | (False, False, True, True) \<Rightarrow> Some [ucast (drop_bit 16 v)]
        | _ \<Rightarrow> None)"

text \<open>The loop of \<open>EVP_DecodeBase64\<close> over an input whose length is a multiple of four.\<close>

fun decode_quads :: "u8 list \<Rightarrow> u8 list option" where
  "decode_quads (i0 # i1 # i2 # i3 # inp) =
     (case base64_decode_quad i0 i1 i2 i3 of None \<Rightarrow> None | Some out \<Rightarrow>
        if length out \<noteq> 3 \<and> inp \<noteq> [] then None
        else map_option ((@) out) (decode_quads inp))"
| "decode_quads _ = Some []"

definition EVP_DecodeBase64 :: "nat \<Rightarrow> u8 list \<Rightarrow> u8 list option" where
  "EVP_DecodeBase64 max_out inp =
     (if length inp mod 4 \<noteq> 0 then None
      else case EVP_DecodedLength (length inp) of None \<Rightarrow> None | Some max_len \<Rightarrow>
        if max_out < max_len then None else decode_quads inp)"

definition is_blank :: "u8 \<Rightarrow> bool" where
  "is_blank c \<longleftrightarrow> c = 0x20 \<or> c = 0x09"

definition is_space :: "u8 \<Rightarrow> bool" where
  "is_space c \<longleftrightarrow> c \<in> {0x20, 0x09, 0x0d, 0x0a}"

text \<open>\<open>EVP_DecodeBlock\<close>: \<open>None\<close> is a return of \<open>-1\<close>; otherwise the bytes written, whose
  number is the result.\<close>

definition EVP_DecodeBlock :: "u8 list \<Rightarrow> u8 list option" where
  "EVP_DecodeBlock src =
     (let src = dropWhile is_blank src; src = rev (dropWhile is_space (rev src))
      in case EVP_DecodedLength (length src) of None \<Rightarrow> None | Some dst_len \<Rightarrow>
        if dst_len > INT_MAX then None
        else case EVP_DecodeBase64 dst_len src of None \<Rightarrow> None | Some out \<Rightarrow>
          Some (out @ replicate ((3 - length out mod 3) mod 3) 0))"

section \<open>Streams\<close>

text \<open>\<open>struct evp_encode_ctx_st\<close>; \<open>ctx_data\<close> is the list of the \<open>data_used\<close> valid bytes.\<close>

record evp_encode_ctx =
  ctx_data :: "u8 list"
  ctx_eof_seen :: bool
  ctx_error_encountered :: bool

definition ctx_data_size :: nat where
  "ctx_data_size = 48"

definition ctx_zero :: evp_encode_ctx where
  "ctx_zero = \<lparr>ctx_data = [], ctx_eof_seen = False, ctx_error_encountered = False\<rparr>"

definition EVP_ENCODE_CTX_new :: "bool \<Rightarrow> evp_encode_ctx option" where
  "EVP_ENCODE_CTX_new alloc_ok = (if \<not> alloc_ok then None else Some ctx_zero)"

definition EVP_EncodeInit :: "evp_encode_ctx \<Rightarrow> evp_encode_ctx" where
  "EVP_EncodeInit ctx = ctx_zero"

definition EVP_DecodeInit :: "evp_encode_ctx \<Rightarrow> evp_encode_ctx" where
  "EVP_DecodeInit ctx = ctx_zero"

text \<open>The loop over whole lines: the lines written, \<open>total\<close>, and the input that is left, or
  \<open>None\<close> with the lines written when \<open>total\<close> overflows.\<close>

function encode_lines :: "u8 list \<Rightarrow> nat \<Rightarrow> u8 list \<times> (nat \<times> u8 list) option" where
  "encode_lines inp tot =
     (if length inp \<ge> ctx_data_size then
        let line = EVP_EncodeBlock (take ctx_data_size inp);
            tot' = (tot + length line + 1) mod SIZE_MOD
        in if tot' < tot then (line @ [0x0a], None)
           else case encode_lines (drop ctx_data_size inp) tot' of (out, r) \<Rightarrow> (line @ 0x0a # out, r)
      else ([], Some (tot, inp)))"
  by pat_completeness auto
termination by (relation "measure (length \<circ> fst)") (auto simp: ctx_data_size_def)

declare encode_lines.simps [simp del]

text \<open>The context afterwards, the bytes written and \<open>*out_len\<close>.\<close>

definition EVP_EncodeUpdate :: "evp_encode_ctx \<Rightarrow> u8 list \<Rightarrow> evp_encode_ctx \<times> u8 list \<times> nat" where
  "EVP_EncodeUpdate ctx inp =
     (if inp = [] then (ctx, [], 0)
      else if ctx_data_size - length (ctx_data ctx) > length inp
      then (ctx\<lparr>ctx_data := ctx_data ctx @ inp\<rparr>, [], 0)
      else let todo = ctx_data_size - length (ctx_data ctx);
               first = (if ctx_data ctx \<noteq> [] then EVP_EncodeBlock (ctx_data ctx @ take todo inp) @ [0x0a] else []);
               ctx1 = (if ctx_data ctx \<noteq> [] then ctx\<lparr>ctx_data := []\<rparr> else ctx);
               inp1 = (if ctx_data ctx \<noteq> [] then drop todo inp else inp)
           in case encode_lines inp1 (length first) of
                (out, None) \<Rightarrow> (ctx1, first @ out, 0)
              | (out, Some (tot, inp2)) \<Rightarrow>
                  (ctx1\<lparr>ctx_data := inp2\<rparr>, first @ out, if tot > INT_MAX then 0 else tot))"

definition EVP_EncodeFinal :: "evp_encode_ctx \<Rightarrow> evp_encode_ctx \<times> u8 list \<times> nat" where
  "EVP_EncodeFinal ctx =
     (if ctx_data ctx = [] then (ctx, [], 0)
      else let encoded = EVP_EncodeBlock (ctx_data ctx) @ [0x0a]
           in (ctx\<lparr>ctx_data := []\<rparr>, encoded, length encoded))"

text \<open>The loop of \<open>EVP_DecodeUpdate\<close>: the context and the bytes written, and whether it ran to
  its end.\<close>

fun decode_update_loop :: "evp_encode_ctx \<Rightarrow> u8 list \<Rightarrow> u8 list \<Rightarrow> bool \<times> evp_encode_ctx \<times> u8 list" where
  "decode_update_loop ctx out [] = (True, ctx, out)"
| "decode_update_loop ctx out (c # inp) =
     (if is_space c then decode_update_loop ctx out inp
      else if ctx_eof_seen ctx then (False, ctx\<lparr>ctx_error_encountered := True\<rparr>, out)
      else let data = ctx_data ctx @ [c] in
        if length data = 4 then
          (case base64_decode_quad (data ! 0) (data ! 1) (data ! 2) (data ! 3) of
             None \<Rightarrow> (False, ctx\<lparr>ctx_data := data, ctx_error_encountered := True\<rparr>, out)
           | Some bytes \<Rightarrow>
               decode_update_loop (ctx\<lparr>ctx_data := [],
                 ctx_eof_seen := (if length bytes < 3 then True else ctx_eof_seen ctx)\<rparr>) (out @ bytes) inp)
        else decode_update_loop (ctx\<lparr>ctx_data := data\<rparr>) out inp)"

text \<open>The return value, the context, the bytes written and \<open>*out_len\<close>.\<close>

definition EVP_DecodeUpdate :: "evp_encode_ctx \<Rightarrow> u8 list \<Rightarrow> int \<times> evp_encode_ctx \<times> u8 list \<times> nat" where
  "EVP_DecodeUpdate ctx inp =
     (if ctx_error_encountered ctx then (-1, ctx, [], 0)
      else case decode_update_loop ctx [] inp of
        (False, ctx', out) \<Rightarrow> (-1, ctx', out, 0)
      | (True, ctx', out) \<Rightarrow>
          if length out > INT_MAX then (-1, ctx'\<lparr>ctx_error_encountered := True\<rparr>, out, 0)
          else (if ctx_eof_seen ctx' then 0 else 1, ctx', out, length out))"

definition EVP_DecodeFinal :: "evp_encode_ctx \<Rightarrow> int" where
  "EVP_DecodeFinal ctx = (if ctx_error_encountered ctx \<or> ctx_data ctx \<noteq> [] then -1 else 1)"

section \<open>What the constant-time code computes\<close>

lemma constant_time_lt_args_8_eq: "constant_time_lt_args_8 a b = (if a < b then - 1 else 0)"
proof -
  have u: "unat (ucast c :: u64) = unat c" "unat c < 2 ^ 8" for c :: u8
    using unsigned_less[of c, where 'a = nat] by (simp_all add: unsigned_ucast_eq take_bit_nat_eq_self)
  have "bit (ucast a - ucast b :: u64) 63 \<longleftrightarrow> a < b"
    using u[of a] u[of b] unfolding bit_63_iff unat_minus_word word_less_nat_alt word_le_nat_alt by auto
  then show ?thesis by (simp add: constant_time_lt_args_8_def constant_time_msb_w_eq ucast_minus_1)
qed

lemma constant_time_in_range_8_eq:
  "constant_time_in_range_8 a lo hi = (if a - lo < hi - lo + 1 then - 1 else 0)"
  by (simp add: constant_time_in_range_8_def constant_time_lt_args_8_eq)

lemma eq_8_ucast: "constant_time_eq_8 (ucast (a :: u8)) (ucast (b :: u8)) = (if a = b then - 1 else 0)"
proof -
  have "ucast (ucast c :: u64) = c" for c :: u8 by (rule bit_word_eqI) (auto simp: bit_simps)
  then have "(ucast a :: u64) = ucast b \<longleftrightarrow> a = b" by metis
  then show ?thesis by (simp add: constant_time_8_eq)
qed

lemma conv_bin2ascii_eq: "conv_bin2ascii x =
   (let a = x AND 0x3f in if a < 26 then a + 0x41 else if a < 52 then a - 26 + 0x61
      else if a < 62 then a - 52 + 0x30 else if a = 62 then 0x2b else 0x2f)"
  using eq_8_ucast[of "x AND 0x3f" 62]
  by (simp add: conv_bin2ascii_def constant_time_lt_args_8_eq constant_time_select_8_eq Let_def)

lemma byte_ranges:
  "(a :: u8) - 0x41 < 26 \<longleftrightarrow> 65 \<le> unat a \<and> unat a < 91"
  "a - 0x61 < 26 \<longleftrightarrow> 97 \<le> unat a \<and> unat a < 123"
  "a - 0x30 < 10 \<longleftrightarrow> 48 \<le> unat a \<and> unat a < 58"
  using unsigned_less[of a, where 'a = nat]
  by (auto simp: word_less_nat_alt unat_sub_if_size word_size)

lemma base64_ascii_to_bin_eq: "base64_ascii_to_bin a =
   (if a - 0x41 < 26 then a - 0x41 else if a - 0x61 < 26 then a - 0x61 + 26
    else if a - 0x30 < 10 then a - 0x30 + 52 else if a = 0x2b then 62 else if a = 0x2f then 63
    else if a = 0x3d then 0 else 0xff)"
  using eq_8_ucast[of a "0x2b"] eq_8_ucast[of a "0x2f"] eq_8_ucast[of a "0x3d"]
  by (simp add: base64_ascii_to_bin_def constant_time_in_range_8_eq Let_def)
    (auto simp: byte_ranges)

lemma base64_chars: "\<forall>k\<in>set [0..<64].
    base64_ascii_to_bin (conv_bin2ascii (of_nat k)) = of_nat k \<and> conv_bin2ascii (of_nat k) \<noteq> 0x3d"
  unfolding base64_ascii_to_bin_eq conv_bin2ascii_eq by code_simp

lemma conv_bin2ascii_mask: "conv_bin2ascii x = conv_bin2ascii (x AND 0x3f)"
proof -
  have "(x AND 0x3f) AND 0x3f = x AND 0x3f" by simp
  then show ?thesis by (simp only: conv_bin2ascii_eq)
qed

lemma base64_char: "base64_ascii_to_bin (conv_bin2ascii x) = x AND 0x3f" "conv_bin2ascii x \<noteq> 0x3d"
proof -
  have "unat (x AND 0x3f) < 2 ^ 6" by (rule bits_small) (simp add: bit_simps bit_literals)
  then have "unat (x AND 0x3f) \<in> set [0..<64]" by simp
  from bspec[OF base64_chars this]
  show "base64_ascii_to_bin (conv_bin2ascii x) = x AND 0x3f" "conv_bin2ascii x \<noteq> 0x3d"
    by (simp_all add: conv_bin2ascii_mask[of x])
qed

section \<open>Blocks round-trip\<close>

lemma sextet_not_invalid: "(x AND 0x3f :: u8) \<noteq> 0xff"
proof
  assume "x AND 0x3f = 0xff"
  from arg_cong[OF this, of "\<lambda>w. bit w 7"] show False by (simp add: bit_simps bit_literals)
qed

lemma base64_equals [simp]: "base64_ascii_to_bin 0x3d = 0"
  by (simp add: base64_ascii_to_bin_eq)

text \<open>The four sextets of 24 bits.\<close>

lemma join_sextets:
  assumes "unat (l :: u32) < 2 ^ 24"
  shows "push_bit 18 (ucast (ucast (drop_bit 18 l) AND 0x3f :: u8)) OR push_bit 12 (ucast (ucast (drop_bit 12 l) AND 0x3f :: u8)) OR
    push_bit 6 (ucast (ucast (drop_bit 6 l) AND 0x3f :: u8)) OR ucast (ucast l AND 0x3f :: u8) = l"
proof -
  have top: "ucast (ucast (drop_bit 18 l) AND 0x3f :: u8) = drop_bit 18 l"
    by (rule bit_word_eqI) (auto simp: bit_simps bit_literals dest: small_bits[OF assms])
  have nest: "push_bit 18 x OR push_bit 12 y OR push_bit 6 z OR w =
      push_bit 6 (push_bit 6 (push_bit 6 x OR y) OR z) OR w" for x y z w :: u32
    by (simp add: push_bit_or or.assoc)
  show ?thesis unfolding nest top
    using join_six[of 12 l] join_six[of 6 l] join_six[of 0 l] by simp
qed

lemma octets:
  fixes a b c :: u8
  defines "l \<equiv> push_bit 16 (ucast a) OR push_bit 8 (ucast b) OR ucast c :: u32"
  shows "ucast (drop_bit 16 l) = a" "ucast (drop_bit 8 l) = b" "ucast l = c" "unat l < 2 ^ 24"
proof -
  show "ucast (drop_bit 16 l) = a" "ucast (drop_bit 8 l) = b" "ucast l = c"
    unfolding l_def by (rule bit_word_eqI, auto simp: bit_simps dest: bit_imp_le_length)+
  show "unat l < 2 ^ 24"
    unfolding l_def by (rule bits_small) (auto simp: bit_simps dest: bit_imp_le_length)
qed

lemma decode_quad_three:
  fixes a b c :: u8
  defines "l \<equiv> push_bit 16 (ucast a) OR push_bit 8 (ucast b) OR ucast c :: u32"
  shows "base64_decode_quad (conv_bin2ascii (ucast (drop_bit 18 l))) (conv_bin2ascii (ucast (drop_bit 12 l)))
    (conv_bin2ascii (ucast (drop_bit 6 l))) (conv_bin2ascii (ucast l)) = Some [a, b, c]"
  using join_sextets[OF octets(4)[of a b c]] octets(1-3)[of a b c]
  by (simp add: base64_decode_quad_def base64_char sextet_not_invalid Let_def l_def)

lemma decode_quad_two:
  fixes a b :: u8
  defines "l \<equiv> push_bit 16 (ucast a) OR push_bit 8 (ucast b) :: u32"
  shows "base64_decode_quad (conv_bin2ascii (ucast (drop_bit 18 l))) (conv_bin2ascii (ucast (drop_bit 12 l)))
    (conv_bin2ascii (ucast (drop_bit 6 l))) 0x3d = Some [a, b]"
proof -
  have "ucast (ucast l AND 0x3f :: u8) = (0 :: u32)"
    unfolding l_def by (rule bit_word_eqI) (auto simp: bit_simps bit_literals)
  then show ?thesis
    using join_sextets[OF octets(4)[of a b 0]] octets(1-2)[of a b 0]
    by (simp add: base64_decode_quad_def base64_char sextet_not_invalid Let_def l_def)
qed

lemma decode_quad_one:
  fixes a :: u8
  defines "l \<equiv> push_bit 16 (ucast a) :: u32"
  shows "base64_decode_quad (conv_bin2ascii (ucast (drop_bit 18 l))) (conv_bin2ascii (ucast (drop_bit 12 l)))
    0x3d 0x3d = Some [a]"
proof -
  have "ucast (ucast l AND 0x3f :: u8) = (0 :: u32)" "ucast (ucast (drop_bit 6 l) AND 0x3f :: u8) = (0 :: u32)"
    unfolding l_def by (rule bit_word_eqI, auto simp: bit_simps bit_literals)+
  then show ?thesis
    using join_sextets[OF octets(4)[of a 0 0]] octets(1)[of a 0 0]
    by (simp add: base64_decode_quad_def base64_char sextet_not_invalid Let_def l_def)
qed

lemma EncodeBlock_Nil [simp]: "EVP_EncodeBlock s = [] \<longleftrightarrow> s = []"
  by (cases s rule: EVP_EncodeBlock.cases) (auto simp: Let_def)

lemma length_EncodeBlock: "length (EVP_EncodeBlock s) = (length s + 2) div 3 * 4"
proof (induction s rule: EVP_EncodeBlock.induct)
  case (1 a b c s)
  have "(length s + 5) div 3 = (length s + 2) div 3 + 1" by presburger
  with 1 show ?case by (simp add: Let_def add.commute)
qed (simp_all add: Let_def)

lemma decode_quads_EncodeBlock: "decode_quads (EVP_EncodeBlock s) = Some s"
proof (induction s rule: EVP_EncodeBlock.induct)
  case (1 a b c s)
  then show ?case using decode_quad_three[of a b c] by (simp add: Let_def)
next
  case (2 a b)
  then show ?case using decode_quad_two[of a b] by (simp add: Let_def)
next
  case (3 a)
  then show ?case using decode_quad_one[of a] by (simp add: Let_def)
qed simp

lemma EVP_DecodeBase64_EncodeBlock:
  "(length s + 2) div 3 * 3 \<le> max_out \<Longrightarrow> EVP_DecodeBase64 max_out (EVP_EncodeBlock s) = Some s"
  by (simp add: EVP_DecodeBase64_def EVP_DecodedLength_def length_EncodeBlock decode_quads_EncodeBlock)

text \<open>The decoder never writes more than it announced.\<close>

lemma length_decode_quad: "base64_decode_quad a b c d = Some out \<Longrightarrow> length out \<le> 3"
  by (auto simp: base64_decode_quad_def Let_def split: if_splits bool.splits)

lemma length_decode_quads: "decode_quads inp = Some out \<Longrightarrow> length out \<le> length inp div 4 * 3"
proof (induction inp arbitrary: out rule: decode_quads.induct)
  case (1 i0 i1 i2 i3 inp)
  then obtain q rest where q: "base64_decode_quad i0 i1 i2 i3 = Some q" "decode_quads inp = Some rest"
    "out = q @ rest" "\<not> (length q \<noteq> 3 \<and> inp \<noteq> [])"
    by (auto split: option.splits if_splits)
  have "(4 + length inp) div 4 = length inp div 4 + 1" by simp
  with 1(1)[OF q(1,4,2)] length_decode_quad[OF q(1)] q(3) show ?case by (simp del: div_add_self1)
qed auto

lemma EVP_DecodeBase64_bound:
  assumes "EVP_DecodeBase64 max_out inp = Some out"
  shows "length inp mod 4 = 0 \<and> length out \<le> length inp div 4 * 3 \<and> length out \<le> max_out"
proof -
  from assms have "length inp mod 4 = 0" "length inp div 4 * 3 \<le> max_out" "decode_quads inp = Some out"
    unfolding EVP_DecodeBase64_def EVP_DecodedLength_def by (simp_all split: if_splits)
  with length_decode_quads[of inp out] show ?thesis by simp
qed

text \<open>\<open>EVP_EncodedLength\<close> is exact and fails exactly when the length does not fit \<open>size_t\<close>.\<close>

lemma EVP_EncodedLength_eq:
  assumes "length s < SIZE_MOD"
  shows "EVP_EncodedLength (length s) =
    (if length (EVP_EncodeBlock s) + 1 < SIZE_MOD then Some (length (EVP_EncodeBlock s) + 1) else None)"
proof -
  let ?n = "(length s + 2) div 3"
  have four: "4 * k < SIZE_MOD \<Longrightarrow> 4 * k + 1 < SIZE_MOD" for k
  proof -
    have "SIZE_MOD = 4 * (SIZE_MOD div 4)" by (simp add: SIZE_MOD_def)
    then show "4 * k < SIZE_MOD \<Longrightarrow> 4 * k + 1 < SIZE_MOD" by presburger
  qed
  show ?thesis
  proof (cases "length s + 2 < SIZE_MOD")
    case True
    have "(?n * 4) mod SIZE_MOD div 4 = ?n \<longleftrightarrow> ?n * 4 < SIZE_MOD"
    proof (cases "?n * 4 < SIZE_MOD")
      case False
      have "(?n * 4) mod SIZE_MOD < SIZE_MOD" by (simp add: SIZE_MOD_def)
      then have "(?n * 4) mod SIZE_MOD < ?n * 4" using False by simp
      then have "(?n * 4) mod SIZE_MOD div 4 < ?n" by (rule less_mult_imp_div_less)
      then show ?thesis using False by simp
    qed simp
    then show ?thesis using True four[of ?n]
      by (auto simp: EVP_EncodedLength_def length_EncodeBlock Let_def mult.commute)
  next
    case False
    then have "(length s + 2) mod SIZE_MOD < length s"
      using assms by (auto simp: mod_if SIZE_MOD_def)
    moreover have "SIZE_MOD - 2 \<le> length s" using False by simp
    then have "(SIZE_MOD - 2 + 2) div 3 \<le> ?n" by (intro div_le_mono) simp
    then have "\<not> ?n * 4 + 1 < SIZE_MOD" by (simp add: SIZE_MOD_def)
    ultimately show ?thesis by (simp add: EVP_EncodedLength_def length_EncodeBlock)
  qed
qed

section \<open>Streams\<close>

text \<open>The whole lines of an input and what is left of it.\<close>

function full_lines :: "u8 list \<Rightarrow> u8 list" where
  "full_lines s = (if length s \<ge> 48 then EVP_EncodeBlock (take 48 s) @ 0x0a # full_lines (drop 48 s) else [])"
  by pat_completeness auto
termination by (relation "measure length") auto

function pending :: "u8 list \<Rightarrow> u8 list" where
  "pending s = (if length s \<ge> 48 then pending (drop 48 s) else s)"
  by pat_completeness auto
termination by (relation "measure length") auto

declare full_lines.simps [simp del] pending.simps [simp del]

lemma lines_short [simp]: "length s < 48 \<Longrightarrow> full_lines s = []" "length s < 48 \<Longrightarrow> pending s = s"
  by (simp_all add: full_lines.simps pending.simps)

lemma lines_long:
  "length l = 48 \<Longrightarrow> full_lines (l @ s) = EVP_EncodeBlock l @ 0x0a # full_lines s"
  "length l = 48 \<Longrightarrow> pending (l @ s) = pending s"
  by (simp_all add: full_lines.simps[of "l @ s"] pending.simps[of "l @ s"])

lemma length_pending: "length (pending s) < 48"
  by (induction s rule: pending.induct) (simp add: pending.simps)

lemma lines_append:
  "full_lines (a @ b) = full_lines a @ full_lines (pending a @ b) \<and> pending (a @ b) = pending (pending a @ b)"
proof (induction a rule: full_lines.induct)
  case (1 a)
  show ?case
  proof (cases "length a \<ge> 48")
    case True
    then have "a = take 48 a @ drop 48 a" "length (take 48 a) = 48" by simp_all
    with 1[OF True] lines_long[of "take 48 a"] show ?thesis by (metis append.assoc append_Cons)
  qed (simp add: not_le)
qed

lemma encode_lines_eq:
  "tot + length (full_lines inp) < SIZE_MOD \<Longrightarrow>
   encode_lines inp tot = (full_lines inp, Some (tot + length (full_lines inp), pending inp))"
proof (induction inp tot rule: encode_lines.induct)
  case (1 inp tot)
  show ?case
  proof (cases "length inp \<ge> 48")
    case True
    then have split: "inp = take 48 inp @ drop 48 inp" and len: "length (take 48 inp) = 48" by simp_all
    from lines_long[OF len, of "drop 48 inp"] split
    have f: "full_lines inp = EVP_EncodeBlock (take 48 inp) @ 0x0a # full_lines (drop 48 inp)"
      "pending inp = pending (drop 48 inp)" by simp_all
    have "(tot + length (EVP_EncodeBlock (take 48 inp)) + 1) mod SIZE_MOD =
        tot + length (EVP_EncodeBlock (take 48 inp)) + 1"
      using 1(2) f by simp
    with 1 True f show ?thesis
      by (subst encode_lines.simps) (simp add: ctx_data_size_def Let_def)
  next
    case False
    then show ?thesis by (subst encode_lines.simps) (simp add: ctx_data_size_def)
  qed
qed

lemma EVP_EncodeUpdate_eq:
  assumes "length (ctx_data ctx) < 48" and "length (full_lines (ctx_data ctx @ inp)) \<le> INT_MAX"
  shows "EVP_EncodeUpdate ctx inp =
    (ctx\<lparr>ctx_data := pending (ctx_data ctx @ inp)\<rparr>, full_lines (ctx_data ctx @ inp),
     length (full_lines (ctx_data ctx @ inp)))"
proof -
  let ?d = "ctx_data ctx"
  have max: "n \<le> INT_MAX \<Longrightarrow> n < SIZE_MOD" for n by (simp add: INT_MAX_def SIZE_MOD_def)
  consider "inp = []" | "inp \<noteq> []" "48 - length ?d > length inp" | "inp \<noteq> []" "48 - length ?d \<le> length inp" "?d = []"
    | "inp \<noteq> []" "48 - length ?d \<le> length inp" "?d \<noteq> []" by linarith
  then show ?thesis
  proof cases
    case 3
    then show ?thesis using assms max encode_lines_eq[of 0 inp]
      by (simp add: EVP_EncodeUpdate_def ctx_data_size_def)
  next
    case 4
    let ?n = "48 - length ?d"
    let ?line = "?d @ take ?n inp"
    have "length ?line = 48" using assms(1) 4(2) by simp
    from lines_long[OF this, of "drop ?n inp"] have
      f: "full_lines (?d @ inp) = EVP_EncodeBlock ?line @ 0x0a # full_lines (drop ?n inp)"
        "pending (?d @ inp) = pending (drop ?n inp)" by simp_all
    then have "encode_lines (drop ?n inp) (length (EVP_EncodeBlock ?line @ [0x0a])) =
        (full_lines (drop ?n inp), Some (length (full_lines (?d @ inp)), pending (drop ?n inp)))"
      using encode_lines_eq[of "length (EVP_EncodeBlock ?line @ [0x0a])" "drop ?n inp"] max[OF assms(2)]
      by simp
    then show ?thesis using 4 assms(2) f
      by (simp add: EVP_EncodeUpdate_def ctx_data_size_def Let_def)
  qed (use assms in \<open>auto simp: EVP_EncodeUpdate_def ctx_data_size_def\<close>)
qed

text \<open>A caller that feeds the input in chunks and collects the output.\<close>

fun encode_chunks :: "evp_encode_ctx \<Rightarrow> u8 list list \<Rightarrow> u8 list" where
  "encode_chunks ctx [] = (case EVP_EncodeFinal ctx of (_, out, _) \<Rightarrow> out)"
| "encode_chunks ctx (c # cs) = (case EVP_EncodeUpdate ctx c of (ctx', out, _) \<Rightarrow> out @ encode_chunks ctx' cs)"

definition pem_lines :: "u8 list \<Rightarrow> u8 list" where
  "pem_lines s = full_lines s @ (if pending s = [] then [] else EVP_EncodeBlock (pending s) @ [0x0a])"

lemma encode_chunks_eq:
  "length (ctx_data ctx) < 48 \<Longrightarrow> length (full_lines (ctx_data ctx @ concat cs)) \<le> INT_MAX \<Longrightarrow>
   encode_chunks ctx cs = pem_lines (ctx_data ctx @ concat cs)"
proof (induction cs arbitrary: ctx)
  case Nil
  then show ?case by (simp add: EVP_EncodeFinal_def pem_lines_def)
next
  case (Cons c cs)
  let ?d = "ctx_data ctx @ c"
  have split: "full_lines (?d @ concat cs) = full_lines ?d @ full_lines (pending ?d @ concat cs)"
    "pending (?d @ concat cs) = pending (pending ?d @ concat cs)" using lines_append by blast+
  then have "length (full_lines ?d) \<le> INT_MAX" "length (full_lines (pending ?d @ concat cs)) \<le> INT_MAX"
    using Cons.prems(2) by simp_all
  with Cons.IH[of "ctx\<lparr>ctx_data := pending ?d\<rparr>"] EVP_EncodeUpdate_eq[OF Cons.prems(1), of c] split
    length_pending[of ?d] show ?case by (simp add: pem_lines_def)
qed

section \<open>Decoding a stream\<close>

text \<open>However the input is cut, the decoder does the same.\<close>

lemma decode_update_loop_append:
  "decode_update_loop ctx out (a @ b) =
     (case decode_update_loop ctx out a of (False, ctx', out') \<Rightarrow> (False, ctx', out')
      | (True, ctx', out') \<Rightarrow> decode_update_loop ctx' out' b)"
  by (induction ctx out a rule: decode_update_loop.induct)
    (auto simp: Let_def split: option.splits prod.splits bool.splits)

lemma conv_not_space: "\<not> is_space (conv_bin2ascii x)"
proof
  assume "is_space (conv_bin2ascii x)"
  then have "base64_ascii_to_bin (conv_bin2ascii x) = 0xff"
    by (auto simp: is_space_def base64_ascii_to_bin_eq)
  then show False by (simp add: base64_char sextet_not_invalid)
qed

lemma ctx_data_Nil [simp]: "ctx_data ctx = [] \<Longrightarrow> ctx\<lparr>ctx_data := [], ctx_eof_seen := e\<rparr> = ctx\<lparr>ctx_eof_seen := e\<rparr>"
  by (cases ctx) simp

lemma decode_update_quad:
  assumes "\<not> is_space c0" "\<not> is_space c1" "\<not> is_space c2" "\<not> is_space c3"
    and "base64_decode_quad c0 c1 c2 c3 = Some bytes" and "ctx_data ctx = []" and "\<not> ctx_eof_seen ctx"
  shows "decode_update_loop ctx out (c0 # c1 # c2 # c3 # inp) =
    decode_update_loop (ctx\<lparr>ctx_eof_seen := length bytes < 3\<rparr>) (out @ bytes) inp"
  using assms by (simp add: Let_def eval_nat_numeral)

lemma equals_not_space: "\<not> is_space 0x3d"
  by (simp add: is_space_def)

lemma decode_update_block:
  "ctx_data ctx = [] \<Longrightarrow> \<not> ctx_eof_seen ctx \<Longrightarrow>
   decode_update_loop ctx out (EVP_EncodeBlock s @ r) =
   decode_update_loop (ctx\<lparr>ctx_eof_seen := length s mod 3 \<noteq> 0\<rparr>) (out @ s) r"
proof (induction s arbitrary: ctx out rule: EVP_EncodeBlock.induct)
  case (1 a b c s)
  have "(3 + length s) mod 3 = length s mod 3" by simp
  with 1 decode_quad_three[of a b c] show ?case
    by (simp add: Let_def decode_update_quad conv_not_space)
next
  case (2 a b)
  then show ?case using decode_quad_two[of a b]
    by (simp add: Let_def decode_update_quad conv_not_space equals_not_space)
next
  case (3 a)
  then show ?case using decode_quad_one[of a]
    by (simp add: Let_def decode_update_quad conv_not_space equals_not_space)
next
  case 4
  then show ?case by (cases ctx) simp
qed

lemma newline_space [simp]: "is_space 0x0a"
  by (simp add: is_space_def)

lemma decode_full_lines:
  "ctx_data ctx = [] \<Longrightarrow> \<not> ctx_eof_seen ctx \<Longrightarrow>
   \<exists>l. s = l @ pending s \<and> decode_update_loop ctx out (full_lines s @ r) = decode_update_loop ctx (out @ l) r"
proof (induction s arbitrary: out rule: full_lines.induct)
  case (1 s)
  show ?case
  proof (cases "length s \<ge> 48")
    case True
    then have split: "s = take 48 s @ drop 48 s" and len: "length (take 48 s) = 48" by simp_all
    from 1(1)[OF True 1(2,3), of "out @ take 48 s"] obtain l where
      l: "drop 48 s = l @ pending (drop 48 s)"
        "decode_update_loop ctx (out @ take 48 s) (full_lines (drop 48 s) @ r) =
         decode_update_loop ctx (out @ take 48 s @ l) r" by auto
    have "ctx\<lparr>ctx_eof_seen := False\<rparr> = ctx" using 1(3) by (cases ctx) simp
    then have "decode_update_loop ctx out (full_lines s @ r) =
        decode_update_loop ctx (out @ take 48 s) (full_lines (drop 48 s) @ r)"
      using lines_long(1)[OF len, of "drop 48 s"] decode_update_block[OF 1(2,3), of out "take 48 s"] len
      by simp
    moreover have "s = (take 48 s @ l) @ pending s"
      using l(1) lines_long(2)[OF len, of "drop 48 s"] by simp
    ultimately show ?thesis using l(2) by (intro exI[of _ "take 48 s @ l"]) simp
  next
    case False
    then show ?thesis by (intro exI[of _ "[]"]) simp
  qed
qed

lemma decode_pem_lines:
  "decode_update_loop ctx_zero [] (pem_lines s) =
     (True, ctx_zero\<lparr>ctx_eof_seen := length (pending s) mod 3 \<noteq> 0\<rparr>, s)"
proof -
  have z: "ctx_data ctx_zero = []" "\<not> ctx_eof_seen ctx_zero" by (simp_all add: ctx_zero_def)
  obtain l where l: "s = l @ pending s"
    "decode_update_loop ctx_zero [] (full_lines s @ (if pending s = [] then [] else EVP_EncodeBlock (pending s) @ [0x0a])) =
     decode_update_loop ctx_zero l (if pending s = [] then [] else EVP_EncodeBlock (pending s) @ [0x0a])"
    using decode_full_lines[OF z, of s "[]"] by auto
  show ?thesis
  proof (cases "pending s = []")
    case True
    then show ?thesis using l by (simp add: pem_lines_def ctx_zero_def)
  next
    case False
    then show ?thesis using l decode_update_block[OF z, of l "pending s" "[0x0a]"]
      by (simp add: pem_lines_def)
  qed
qed

lemma EVP_DecodeUpdate_pem:
  assumes "length s \<le> INT_MAX"
  shows "EVP_DecodeUpdate ctx_zero (pem_lines s) =
    (if length (pending s) mod 3 \<noteq> 0 then 0 else 1, ctx_zero\<lparr>ctx_eof_seen := length (pending s) mod 3 \<noteq> 0\<rparr>, s, length s)"
  using assms by (simp add: EVP_DecodeUpdate_def decode_pem_lines) (simp add: ctx_zero_def)

end
