(* ===== verification/Pb_Stream.thy ===== *)
theory Pb_Stream
  imports Cbs
begin

text \<open>
  The streams of nanopb: \<open>pb_ostream_t\<close> and \<open>pb_write\<close> of \<open>pb_encode.c\<close>, \<open>pb_istream_t\<close> and
  \<open>pb_read\<close> of \<open>pb_decode.c\<close>. Every function returning \<open>bool\<close> is an operation on its stream;
  \<open>PB_RETURN_ERROR\<close> keeps the first message. Sizes are \<open>size_t\<close>: sums are reduced modulo
  \<open>SIZE_MOD\<close> where the code adds them. The second half states what it means for an operation to
  emit a string of bytes, on streams that only count and on streams that write.
\<close>

section \<open>Output\<close>

text \<open>A stream without a callback only counts. The callback gets the bytes and the \<open>state\<close>
  field, which it may change.\<close>

record 's pb_ostream =
  os_callback :: "('s \<Rightarrow> u8 list \<Rightarrow> bool \<times> 's) option"
  os_state :: 's
  os_max_size :: nat
  os_bytes_written :: nat
  os_errmsg :: "string option"

definition os_error :: "string \<Rightarrow> ('s pb_ostream, 'a) op" where
  "os_error msg st = (None, st\<lparr>os_errmsg :=
     (case os_errmsg st of None \<Rightarrow> Some msg | Some e \<Rightarrow> Some e)\<rparr>)"

text \<open>\<open>state\<close> of a buffer stream points into the buffer given to \<open>pb_ostream_from_buffer\<close>.\<close>

record out_buffer =
  ob_bytes :: "u8 list"
  ob_pos :: nat

fun buf_write_loop :: "u8 list \<Rightarrow> nat \<Rightarrow> u8 list \<Rightarrow> u8 list" where
  "buf_write_loop dest i [] = dest"
| "buf_write_loop dest i (b # bs) = buf_write_loop (dest[i := b]) (Suc i) bs"

definition buf_write :: "out_buffer \<Rightarrow> u8 list \<Rightarrow> bool \<times> out_buffer" where
  "buf_write st buf = (True, \<lparr>ob_bytes = buf_write_loop (ob_bytes st) (ob_pos st) buf,
     ob_pos = ob_pos st + length buf\<rparr>)"

definition pb_ostream_from_buffer :: "u8 list \<Rightarrow> nat \<Rightarrow> out_buffer pb_ostream" where
  "pb_ostream_from_buffer buf bufsize =
     \<lparr>os_callback = Some buf_write, os_state = \<lparr>ob_bytes = buf, ob_pos = 0\<rparr>, os_max_size = bufsize,
      os_bytes_written = 0, os_errmsg = None\<rparr>"

text \<open>The state of a counting stream is never looked at; C has a null pointer there.\<close>

definition PB_OSTREAM_SIZING :: "'s \<Rightarrow> 's pb_ostream" where
  "PB_OSTREAM_SIZING state = \<lparr>os_callback = None, os_state = state, os_max_size = 0,
     os_bytes_written = 0, os_errmsg = None\<rparr>"

text \<open>The buffer is given by the bytes from the pointer on; a null pointer is the empty list.\<close>

definition pb_write :: "u8 list \<Rightarrow> nat \<Rightarrow> ('s pb_ostream, unit) op" where
  "pb_write buf count st =
     (let bw = (os_bytes_written st + count) mod SIZE_MOD in
      if count > 0 \<and> os_callback st \<noteq> None then
        if bw < os_bytes_written st \<or> bw > os_max_size st then os_error ''stream full'' st
        else (case the (os_callback st) (os_state st) (take count buf) of
            (ok, state) \<Rightarrow> if \<not> ok then os_error ''io error'' (st\<lparr>os_state := state\<rparr>)
              else (Some (), st\<lparr>os_state := state, os_bytes_written := bw\<rparr>))
      else (Some (), st\<lparr>os_bytes_written := bw\<rparr>))"

section \<open>Input\<close>

text \<open>\<open>callback\<close> and \<open>state\<close> of an input stream as one: \<open>buf_read\<close> with the bytes its pointer
  points to, or a caller's own function and its state. A caller's function returns the bytes it
  read.\<close>

datatype 's in_source =
    Buf_read "u8 list"
  | Custom_read "'s \<Rightarrow> nat \<Rightarrow> u8 list option \<times> 's" 's

record 's pb_istream =
  is_source :: "'s in_source"
  is_bytes_left :: nat
  is_errmsg :: "string option"

definition is_error :: "string \<Rightarrow> ('s pb_istream, 'a) op" where
  "is_error msg st = (None, st\<lparr>is_errmsg :=
     (case is_errmsg st of None \<Rightarrow> Some msg | Some e \<Rightarrow> Some e)\<rparr>)"

text \<open>\<open>stream->callback(stream, buf, count)\<close>.\<close>

fun call_source :: "nat \<Rightarrow> 's in_source \<Rightarrow> u8 list option \<times> 's in_source" where
  "call_source count (Buf_read source) = (Some (take count source), Buf_read (drop count source))"
| "call_source count (Custom_read f state) =
     (case f state count of (r, state') \<Rightarrow> (r, Custom_read f state'))"

definition pb_istream_from_buffer :: "u8 list \<Rightarrow> nat \<Rightarrow> 's pb_istream" where
  "pb_istream_from_buffer buf bufsize =
     \<lparr>is_source = Buf_read buf, is_bytes_left = bufsize, is_errmsg = None\<rparr>"

text \<open>\<open>pb_read\<close> into a buffer, and its tail for a null buffer on \<open>buf_read\<close>.\<close>

definition pb_read :: "nat \<Rightarrow> ('s pb_istream, u8 list) op" where
  "pb_read count st =
     (if count = 0 then (Some [], st)
      else if is_bytes_left st < count then is_error ''end-of-stream'' st
      else case call_source count (is_source st) of
        (None, src) \<Rightarrow> is_error ''io error'' (st\<lparr>is_source := src\<rparr>)
      | (Some buf, src) \<Rightarrow>
          (Some buf, st\<lparr>is_source := src, is_bytes_left := is_bytes_left st - count\<rparr>))"

text \<open>\<open>pb_read\<close> with a null buffer: other sources are read sixteen bytes at a time.\<close>

function pb_skip_loop :: "nat \<Rightarrow> ('s pb_istream, unit) op" where
  "pb_skip_loop count = (if count > 16 then sbind (pb_read 16) (\<lambda>_. pb_skip_loop (count - 16))
     else sbind (pb_read count) (\<lambda>_. ret ()))"
  by pat_completeness auto
termination by (relation "measure id") auto

declare pb_skip_loop.simps [simp del]

definition pb_read_null :: "nat \<Rightarrow> ('s pb_istream, unit) op" where
  "pb_read_null count st =
     (case is_source st of
        Buf_read _ \<Rightarrow> sbind (pb_read count) (\<lambda>_. ret ()) st
      | Custom_read _ _ \<Rightarrow> pb_skip_loop count st)"

definition pb_readbyte :: "('s pb_istream, u8) op" where
  "pb_readbyte st =
     (if is_bytes_left st = 0 then is_error ''end-of-stream'' st
      else case call_source 1 (is_source st) of
        (None, src) \<Rightarrow> is_error ''io error'' (st\<lparr>is_source := src\<rparr>)
      | (Some buf, src) \<Rightarrow>
          (Some (hd buf), st\<lparr>is_source := src, is_bytes_left := is_bytes_left st - 1\<rparr>))"

text \<open>A byte read is a byte fewer left.\<close>

lemma pb_readbyte_Some: "pb_readbyte st = (Some b, st') \<Longrightarrow> is_bytes_left st = Suc (is_bytes_left st')"
  by (auto simp: pb_readbyte_def is_error_def split: if_splits prod.splits option.splits)

section \<open>What an operation emits\<close>

text \<open>
  A sink takes bytes and never fails; taking two strings one after the other is taking them
  together.
\<close>

locale sink =
  fixes feed :: "'s \<Rightarrow> u8 list \<Rightarrow> 's"
  assumes feed_Nil: "feed s [] = s" and feed_append: "feed (feed s xs) ys = feed s (xs @ ys)"

definition into :: "('s \<Rightarrow> u8 list \<Rightarrow> 's) \<Rightarrow> 's \<Rightarrow> u8 list \<Rightarrow> bool \<times> 's" where
  "into feed s bs = (True, feed s bs)"

text \<open>
  Buffers are smaller than half the address space, and nothing is claimed of outputs that are
  not: \<open>pb_encode_submessage\<close> adds sizes without the test for wrap-around that \<open>pb_write\<close> makes.
\<close>

definition OUT_LIMIT :: nat where
  "OUT_LIMIT = 2 ^ 63"

definition ostream_ok :: "('s \<Rightarrow> u8 list \<Rightarrow> 's) \<Rightarrow> 's pb_ostream \<Rightarrow> bool" where
  "ostream_ok feed st \<longleftrightarrow> os_errmsg st = None \<and> os_bytes_written st < SIZE_MOD \<and>
     (os_callback st = None \<or>
      os_callback st = Some (into feed) \<and> os_bytes_written st \<le> os_max_size st \<and> os_max_size st < OUT_LIMIT)"

definition os_room :: "'s pb_ostream \<Rightarrow> nat \<Rightarrow> bool" where
  "os_room st n \<longleftrightarrow> os_callback st = None \<or> os_bytes_written st + n \<le> os_max_size st"

definition os_push :: "('s \<Rightarrow> u8 list \<Rightarrow> 's) \<Rightarrow> u8 list \<Rightarrow> 's pb_ostream \<Rightarrow> 's pb_ostream" where
  "os_push feed bs st = st\<lparr>
     os_state := if os_callback st = None then os_state st else feed (os_state st) bs,
     os_bytes_written := (os_bytes_written st + length bs) mod SIZE_MOD\<rparr>"

text \<open>
  \<open>emits feed p (Some bs)\<close>: on every stream \<open>p\<close> appends exactly \<open>bs\<close> and succeeds, or fails
  because there is no room for it; \<open>emits feed p None\<close>: \<open>p\<close> always fails. A failed operation has
  appended some bytes that fit, and may have set the message.
\<close>

definition emit_fails :: "('s \<Rightarrow> u8 list \<Rightarrow> 's) \<Rightarrow> 's pb_ostream \<Rightarrow> unit option \<times> 's pb_ostream \<Rightarrow> bool" where
  "emit_fails feed st r \<longleftrightarrow>
     (\<exists>pre m. os_room st (length pre) \<and> r = (None, (os_push feed pre st)\<lparr>os_errmsg := m\<rparr>))"

definition slim :: "u8 list option \<Rightarrow> bool" where
  "slim out \<longleftrightarrow> (case out of None \<Rightarrow> True | Some bs \<Rightarrow> length bs < OUT_LIMIT)"

definition emits :: "('s \<Rightarrow> u8 list \<Rightarrow> 's) \<Rightarrow> ('s pb_ostream, unit) op \<Rightarrow> u8 list option \<Rightarrow> bool" where
  "emits feed p out \<longleftrightarrow> (\<forall>st. ostream_ok feed st \<and> slim out \<longrightarrow>
     (case out of
        Some bs \<Rightarrow> if os_room st (length bs) then p st = (Some (), os_push feed bs st)
          else emit_fails feed st (p st)
      | None \<Rightarrow> emit_fails feed st (p st)))"

text \<open>The concatenation of two outputs, unless the first alone is too large.\<close>

definition and_then :: "u8 list option \<Rightarrow> u8 list option \<Rightarrow> u8 list option" where
  "and_then a b = (case a of None \<Rightarrow> None | Some xs \<Rightarrow>
     if OUT_LIMIT \<le> length xs then Some xs else map_option ((@) xs) b)"

lemma OUT_LIMIT_pos [simp]: "0 < OUT_LIMIT" "\<not> OUT_LIMIT \<le> 0" "OUT_LIMIT \<noteq> 0"
  by (simp_all add: OUT_LIMIT_def)

lemma and_then_simps [simp]:
  "and_then None b = None" "and_then (Some []) b = b" "and_then a (Some []) = a"
  "length xs < OUT_LIMIT \<Longrightarrow> and_then (Some xs) None = None"
  by (auto simp: and_then_def map_option_case split: option.splits)

lemma and_then_slim: "slim (and_then (Some xs) (Some ys)) \<Longrightarrow>
    and_then (Some xs) (Some ys) = Some (xs @ ys) \<and> length (xs @ ys) < OUT_LIMIT"
  by (auto simp: and_then_def slim_def split: if_splits)

fun outputs :: "('a \<Rightarrow> u8 list option) \<Rightarrow> 'a list \<Rightarrow> u8 list option" where
  "outputs f [] = Some []"
| "outputs f (x # xs) = and_then (f x) (outputs f xs)"

lemma os_room_0 [simp]: "ostream_ok feed st \<Longrightarrow> os_room st 0"
  by (auto simp: ostream_ok_def os_room_def)

lemma os_room_le: "os_room st n \<Longrightarrow> m \<le> n \<Longrightarrow> os_room st m"
  by (auto simp: os_room_def)

lemma os_push_select [simp]: "os_callback (os_push feed bs st) = os_callback st"
  "os_max_size (os_push feed bs st) = os_max_size st" "os_errmsg (os_push feed bs st) = os_errmsg st"
  "os_bytes_written (os_push feed bs st) = (os_bytes_written st + length bs) mod SIZE_MOD"
  by (simp_all add: os_push_def)

lemma ostream_ok_push: "ostream_ok feed st \<Longrightarrow> os_room st (length bs) \<Longrightarrow> ostream_ok feed (os_push feed bs st)"
  by (auto simp: ostream_ok_def os_room_def SIZE_MOD_def OUT_LIMIT_def)

lemma os_room_push: "ostream_ok feed st \<Longrightarrow> os_room st (length bs) \<Longrightarrow>
    os_room (os_push feed bs st) n \<longleftrightarrow> os_room st (length bs + n)"
  by (auto simp: ostream_ok_def os_room_def add.assoc SIZE_MOD_def OUT_LIMIT_def)

lemma emitsI:
  assumes "\<And>st bs. ostream_ok feed st \<Longrightarrow> out = Some bs \<Longrightarrow> length bs < OUT_LIMIT \<Longrightarrow> os_room st (length bs) \<Longrightarrow>
      p st = (Some (), os_push feed bs st)"
    and "\<And>st. ostream_ok feed st \<Longrightarrow> slim out \<Longrightarrow> (\<And>bs. out = Some bs \<Longrightarrow> \<not> os_room st (length bs)) \<Longrightarrow>
      emit_fails feed st (p st)"
  shows "emits feed p out"
  using assms by (auto simp: emits_def slim_def split: option.splits)

lemma emits_huge: "\<not> slim out \<Longrightarrow> emits feed p out"
  by (simp add: emits_def)

lemma emits_cases:
  assumes "emits feed p out" and "ostream_ok feed st" and "slim out"
  obtains (some) bs where "out = Some bs" "os_room st (length bs)" "p st = (Some (), os_push feed bs st)"
  | (none) "\<And>bs. out = Some bs \<Longrightarrow> \<not> os_room st (length bs)" "emit_fails feed st (p st)"
proof (cases out)
  case None
  with assms none show thesis by (simp add: emits_def)
next
  case (Some bs)
  with assms some none show thesis by (cases "os_room st (length bs)") (simp_all add: emits_def)
qed

lemma emit_failsE:
  assumes "emit_fails feed st r"
  obtains pre m where "os_room st (length pre)" "r = (None, (os_push feed pre st)\<lparr>os_errmsg := m\<rparr>)"
  using assms by (auto simp: emit_fails_def)

text \<open>Success and failure of one run.\<close>

lemma emits_success:
  assumes "emits feed p (Some bs)" and "ostream_ok feed st" and "os_room st (length bs)" and "length bs < OUT_LIMIT"
  shows "p st = (Some (), os_push feed bs st)"
  by (rule emits_cases[OF assms(1,2)]) (use assms(3,4) in \<open>auto simp: slim_def\<close>)

lemma emits_failure: "emits feed p None \<Longrightarrow> ostream_ok feed st \<Longrightarrow> fst (p st) = None"
  by (erule (1) emits_cases) (auto elim: emit_failsE simp: slim_def)

context sink
begin

lemma push_Nil [simp]: "os_push feed [] st = st" if "ostream_ok feed st"
  using that by (auto simp: os_push_def ostream_ok_def feed_Nil)

lemma push_append: "os_push feed ys (os_push feed xs st) = os_push feed (xs @ ys) st"
  by (simp add: os_push_def feed_append mod_simps algebra_simps)

lemma fails_at_once: "ostream_ok feed st \<Longrightarrow> r = (None, st\<lparr>os_errmsg := m\<rparr>) \<Longrightarrow> emit_fails feed st r"
  using push_Nil[of st] os_room_0[of feed st]
  by (auto simp: emit_fails_def intro!: exI[of _ "[]"] exI[of _ m])

lemma error: "emits feed (os_error msg) None"
  by (rule emitsI) (auto simp: os_error_def intro: fails_at_once)

lemma fail: "emits feed fail None"
proof (rule emitsI)
  fix st assume ok: "ostream_ok feed st"
  show "emit_fails feed st (fail st)" by (rule fails_at_once[OF ok, where m = "os_errmsg st"]) simp
qed simp

lemma silent: "emits feed (ret ()) (Some [])"
  by (rule emitsI) (simp_all only: option.inject list.size os_room_0 ret_apply push_Nil, simp)

lemma bind_small:
  assumes p: "emits feed p (Some xs)" and q: "emits feed q b" and small: "length xs < OUT_LIMIT"
    and c: "slim (map_option ((@) xs) b)"
  shows "emits feed (sbind p (\<lambda>_. q)) (map_option ((@) xs) b)"
proof (rule emitsI)
  fix st bs assume ok: "ostream_ok feed st" and bs: "map_option ((@) xs) b = Some bs"
    and room: "os_room st (length bs)" and len: "length bs < OUT_LIMIT"
  from bs obtain ys where ys: "b = Some ys" "bs = xs @ ys" by auto
  have r: "os_room st (length xs)" using room by (rule os_room_le) (simp add: ys)
  have "p st = (Some (), os_push feed xs st)" using p ok r small by (intro emits_success) simp_all
  moreover have "q (os_push feed xs st) = (Some (), os_push feed ys (os_push feed xs st))"
    using q ys ostream_ok_push[OF ok r] room len os_room_push[OF ok r]
    by (intro emits_success) simp_all
  ultimately show "sbind p (\<lambda>_. q) st = (Some (), os_push feed bs st)"
    by (simp add: ys push_append)
next
  fix st assume ok: "ostream_ok feed st"
    and n: "\<And>bs. map_option ((@) xs) b = Some bs \<Longrightarrow> \<not> os_room st (length bs)"
  have s: "slim b" using c by (auto simp: slim_def split: option.splits)
  have sx: "slim (Some xs)" using small by (simp add: slim_def)
  show "emit_fails feed st (sbind p (\<lambda>_. q) st)"
  proof (rule emits_cases[OF p ok sx])
    fix xs' assume "Some xs = Some xs'" "os_room st (length xs')" "p st = (Some (), os_push feed xs' st)"
    then have xs: "os_room st (length xs)" "p st = (Some (), os_push feed xs st)" by simp_all
    show ?thesis
    proof (rule emits_cases[OF q ostream_ok_push[OF ok xs(1)] s])
      fix ys assume "b = Some ys" "os_room (os_push feed xs st) (length ys)"
      with n[of "xs @ ys"] xs os_room_push[OF ok xs(1)] show ?thesis by simp
    next
      assume "emit_fails feed (os_push feed xs st) (q (os_push feed xs st))"
      then obtain pre m where "os_room (os_push feed xs st) (length pre)"
        "q (os_push feed xs st) = (None, (os_push feed pre (os_push feed xs st))\<lparr>os_errmsg := m\<rparr>)"
        by (rule emit_failsE)
      then show ?thesis using xs os_room_push[OF ok xs(1)]
        unfolding emit_fails_def by (intro exI[of _ "xs @ pre"] exI[of _ m]) (simp add: push_append)
    qed
  next
    assume "emit_fails feed st (p st)"
    then show ?thesis by (rule emit_failsE) (auto simp: emit_fails_def)
  qed
qed

lemma bind:
  assumes p: "emits feed p a" and q: "emits feed q b"
  shows "emits feed (sbind p (\<lambda>_. q)) (and_then a b)"
proof (cases a)
  case None
  show ?thesis
  proof (rule emitsI)
    fix st assume ok: "ostream_ok feed st"
    from p None have "emit_fails feed st (p st)" using ok by (simp add: emits_def slim_def)
    then show "emit_fails feed st (sbind p (\<lambda>_. q) st)"
      by (rule emit_failsE) (auto simp: emit_fails_def)
  qed (simp add: None)
next
  case (Some xs)
  show ?thesis
  proof (cases "length xs < OUT_LIMIT \<and> slim (map_option ((@) xs) b)")
    case True
    then show ?thesis using bind_small[of p xs q b] p q Some by (simp add: and_then_def)
  next
    case False
    then have "\<not> slim (and_then a b)" using Some by (auto simp: and_then_def slim_def)
    then show ?thesis by (rule emits_huge)
  qed
qed

text \<open>Two known outputs, whatever their sizes.\<close>

lemma bind_Some:
  assumes "emits feed p (Some xs)" and "emits feed q (Some ys)"
  shows "emits feed (sbind p (\<lambda>_. q)) (Some (xs @ ys))"
proof (cases "length (xs @ ys) < OUT_LIMIT")
  case True
  then show ?thesis using bind[OF assms] by (simp add: and_then_def)
next
  case False
  then show ?thesis by (intro emits_huge) (simp add: slim_def)
qed

lemma bind_eq: "emits feed p a \<Longrightarrow> emits feed q b \<Longrightarrow> c = and_then a b \<Longrightarrow> emits feed (sbind p (\<lambda>_. q)) c"
  using bind by blast

lemma each:
  "(\<And>x. x \<in> set xs \<Longrightarrow> emits feed (p x) (f x)) \<Longrightarrow> emits feed (op_each p xs) (outputs f xs)"
proof (induction xs)
  case Nil
  show ?case unfolding op_each.simps outputs.simps by (rule silent)
next
  case (Cons x xs)
  then show ?case unfolding op_each.simps outputs.simps by (intro bind) simp_all
qed

lemma emit_write: "emits feed (pb_write bs (length bs)) (Some bs)"
proof (rule emitsI)
  fix st bs' assume ok: "ostream_ok feed st" and "Some bs = Some bs'" and "os_room st (length bs')"
  then show "pb_write bs (length bs) st = (Some (), os_push feed bs' st)"
    by (auto simp: pb_write_def os_room_def ostream_ok_def os_push_def into_def feed_Nil Let_def SIZE_MOD_def OUT_LIMIT_def)
next
  fix st assume ok: "ostream_ok feed st" and "slim (Some bs)"
    and n: "\<And>bs'. Some bs = Some bs' \<Longrightarrow> \<not> os_room st (length bs')"
  then have "0 < length bs" "os_callback st \<noteq> None" "os_max_size st < os_bytes_written st + length bs"
    "os_bytes_written st < SIZE_MOD" "length bs < SIZE_MOD"
    by (auto simp: os_room_def ostream_ok_def slim_def OUT_LIMIT_def SIZE_MOD_def)
  moreover from this have "(os_bytes_written st + length bs) mod SIZE_MOD < os_bytes_written st \<or>
      (os_bytes_written st + length bs) mod SIZE_MOD > os_max_size st"
    by (cases "os_bytes_written st + length bs < SIZE_MOD") (auto simp: mod_if)
  ultimately have "pb_write bs (length bs) st = os_error ''stream full'' st"
    by (simp add: pb_write_def Let_def)
  then show "emit_fails feed st (pb_write bs (length bs) st)"
    using ok by (auto simp: os_error_def intro: fails_at_once)
qed

end

text \<open>The sink of a buffer.\<close>

definition buf_feed :: "out_buffer \<Rightarrow> u8 list \<Rightarrow> out_buffer" where
  "buf_feed st bs = snd (buf_write st bs)"

lemma buf_write_loop_append:
  "buf_write_loop dest i (xs @ ys) = buf_write_loop (buf_write_loop dest i xs) (i + length xs) ys"
  by (induction xs arbitrary: dest i) auto

interpretation buffer: sink buf_feed
  by unfold_locales (simp_all add: buf_feed_def buf_write_def buf_write_loop_append)

lemma buf_write_into: "buf_write = into buf_feed"
  by (intro ext) (simp add: into_def buf_feed_def buf_write_def)

lemma buf_write_loop_eq: "i + length bs \<le> length dest \<Longrightarrow>
    buf_write_loop dest i bs = take i dest @ bs @ drop (i + length bs) dest"
proof (induction bs arbitrary: dest i)
  case (Cons b bs)
  then have "i < length dest" by simp
  then have "take (Suc i) (dest[i := b]) = take i dest @ [b]"
    by (simp add: take_Suc_conv_app_nth)
  with Cons show ?case by simp
qed simp

text \<open>What a stream made from a buffer leaves in it.\<close>

lemma emits_buffer:
  assumes "emits buf_feed p out" and "slim out" and "bufsize \<le> length buf" and "bufsize < OUT_LIMIT"
  shows "case p (pb_ostream_from_buffer buf bufsize) of
      (Some _, st) \<Rightarrow> (\<exists>bs. out = Some bs \<and> length bs \<le> bufsize \<and> os_bytes_written st = length bs \<and>
        ob_bytes (os_state st) = bs @ drop (length bs) buf)
    | (None, st) \<Rightarrow> (\<forall>bs. out = Some bs \<longrightarrow> bufsize < length bs) \<and>
        (\<exists>bs. length bs \<le> bufsize \<and> ob_bytes (os_state st) = bs @ drop (length bs) buf)"
proof -
  let ?st = "pb_ostream_from_buffer buf bufsize"
  have ok: "ostream_ok buf_feed ?st"
    using assms(4) by (simp add: ostream_ok_def pb_ostream_from_buffer_def buf_write_into SIZE_MOD_def)
  have room: "os_room ?st n \<longleftrightarrow> n \<le> bufsize" for n
    by (simp add: os_room_def pb_ostream_from_buffer_def)
  have push: "length bs \<le> bufsize \<Longrightarrow> ob_bytes (os_state (os_push buf_feed bs ?st)) = bs @ drop (length bs) buf \<and>
      os_bytes_written (os_push buf_feed bs ?st) = length bs" for bs
    using assms(3,4)
    by (simp add: os_push_def pb_ostream_from_buffer_def buf_feed_def buf_write_def buf_write_loop_eq OUT_LIMIT_def SIZE_MOD_def)
  show ?thesis
    by (rule emits_cases[OF assms(1) ok assms(2)]) (use room push in \<open>auto simp: not_le emit_fails_def\<close>)
qed

text \<open>What a counting stream counts.\<close>

lemma emits_sizing:
  assumes "emits feed p out" and "slim out"
  shows "case p (PB_OSTREAM_SIZING s) of
      (Some _, st) \<Rightarrow> (\<exists>bs. out = Some bs \<and> os_bytes_written st = length bs)
    | (None, st) \<Rightarrow> out = None"
proof -
  let ?st = "PB_OSTREAM_SIZING s"
  have ok: "ostream_ok feed ?st" by (simp add: ostream_ok_def PB_OSTREAM_SIZING_def SIZE_MOD_def)
  have room: "os_room ?st n" for n by (simp add: os_room_def PB_OSTREAM_SIZING_def)
  show ?thesis
    by (rule emits_cases[OF assms(1) ok assms(2)]; cases out)
      (use room assms(2) in \<open>auto simp: emit_fails_def slim_def PB_OSTREAM_SIZING_def OUT_LIMIT_def SIZE_MOD_def\<close>)
qed

section \<open>What an operation reads\<close>

text \<open>
  A stream over a buffer, seen as the bytes it may still read; the bytes beyond are the rest of
  an enclosing stream. \<open>follows p d\<close>: \<open>p\<close> does on every such stream what the parser \<open>d\<close> does on
  the bytes, touches nothing beyond, and sets the message only when it fails.
\<close>

definition source_bytes :: "'s pb_istream \<Rightarrow> u8 list" where
  "source_bytes st = (case is_source st of Buf_read buf \<Rightarrow> buf | Custom_read _ _ \<Rightarrow> [])"

definition istream_ok :: "'s pb_istream \<Rightarrow> bool" where
  "istream_ok st \<longleftrightarrow> (case is_source st of Buf_read buf \<Rightarrow> is_bytes_left st \<le> length buf | _ \<Rightarrow> False)"

definition in_view :: "'s pb_istream \<Rightarrow> u8 list" where
  "in_view st = take (is_bytes_left st) (source_bytes st)"

definition in_beyond :: "'s pb_istream \<Rightarrow> u8 list" where
  "in_beyond st = drop (is_bytes_left st) (source_bytes st)"

definition follows :: "('s pb_istream, 'a) op \<Rightarrow> (u8 list, 'a) op \<Rightarrow> bool" where
  "follows p d \<longleftrightarrow> (\<forall>st. istream_ok st \<longrightarrow>
     (case p st of (r, st') \<Rightarrow> istream_ok st' \<and> d (in_view st) = (r, in_view st') \<and>
       in_beyond st' = in_beyond st \<and> (r = None \<or> is_errmsg st' = is_errmsg st)))"

lemma followsI:
  assumes "\<And>st r st'. istream_ok st \<Longrightarrow> p st = (r, st') \<Longrightarrow> istream_ok st' \<and> d (in_view st) = (r, in_view st') \<and>
    in_beyond st' = in_beyond st \<and> (r = None \<or> is_errmsg st' = is_errmsg st)"
  shows "follows p d"
  using assms by (auto simp: follows_def split: prod.splits)

lemma followsD:
  assumes "follows p d" and "istream_ok st" and "p st = (r, st')"
  shows "istream_ok st'" "d (in_view st) = (r, in_view st')" "in_beyond st' = in_beyond st"
    "r = Some x \<Longrightarrow> is_errmsg st' = is_errmsg st"
  using assms by (auto simp: follows_def)

text \<open>The converse direction: what the parser does, the stream operation does.\<close>

lemma follows_run:
  assumes "follows p d" and "istream_ok st" and "d (in_view st) = (r, rest)"
  obtains st' where "p st = (r, st')" "istream_ok st'" "in_view st' = rest" "in_beyond st' = in_beyond st"
    "r = None \<or> is_errmsg st' = is_errmsg st"
  using assms by (cases "p st") (auto simp: follows_def)

lemma in_view_length: "istream_ok st \<Longrightarrow> length (in_view st) = is_bytes_left st"
  by (auto simp: istream_ok_def in_view_def source_bytes_def split: in_source.splits)

lemma source_split: "source_bytes st = in_view st @ in_beyond st"
  by (simp add: in_view_def in_beyond_def)

lemma istream_eqI:
  assumes "istream_ok st" and "istream_ok st'" and "in_view st = in_view st'" and "in_beyond st = in_beyond st'"
    and "is_errmsg st = is_errmsg st'"
  shows "st = st'"
proof -
  have "source_bytes st = source_bytes st'" by (simp only: source_split assms(3,4))
  moreover have "is_bytes_left st = is_bytes_left st'" using assms(1-3) by (metis in_view_length)
  ultimately show ?thesis using assms
    by (cases st; cases st') (auto simp: istream_ok_def source_bytes_def split: in_source.splits)
qed

lemma follows_ret: "follows (ret x) (ret x)"
  by (rule followsI) auto

lemma source_bytes_errmsg [simp]: "source_bytes (st\<lparr>is_errmsg := m\<rparr>) = source_bytes st"
  by (simp add: source_bytes_def)

lemma in_view_errmsg [simp]: "istream_ok (st\<lparr>is_errmsg := m\<rparr>) = istream_ok st"
  "in_view (st\<lparr>is_errmsg := m\<rparr>) = in_view st" "in_beyond (st\<lparr>is_errmsg := m\<rparr>) = in_beyond st"
  by (simp_all add: istream_ok_def in_view_def in_beyond_def cong: in_source.case_cong)

lemma follows_error: "follows (is_error m) fail"
  by (rule followsI) (auto simp: is_error_def)

lemma follows_bind:
  assumes p: "follows p d" and q: "\<And>x. follows (q x) (e x)"
  shows "follows (sbind p q) (sbind d e)"
proof (rule followsI)
  fix st r st' assume ok: "istream_ok st" and run: "sbind p q st = (r, st')"
  obtain x st1 where p1: "p st = (x, st1)" by (cases "p st")
  note f = followsD[OF p ok p1]
  show "istream_ok st' \<and> sbind d e (in_view st) = (r, in_view st') \<and>
    in_beyond st' = in_beyond st \<and> (r = None \<or> is_errmsg st' = is_errmsg st)"
  proof (cases x)
    case None
    with run p1 f show ?thesis by (auto simp: sbind_def)
  next
    case (Some y)
    with run p1 have run': "q y st1 = (r, st')" by simp
    from followsD[OF q f(1) run'] f Some show ?thesis by (cases r) (auto simp: sbind_def)
  qed
qed

lemma follows_if: "(c \<Longrightarrow> follows p d) \<Longrightarrow> (\<not> c \<Longrightarrow> follows q e) \<Longrightarrow> follows (if c then p else q) (if c then d else e)"
  by simp

lemma follows_read: "follows (pb_read n) (cbs_get n)"
  by (rule followsI)
    (auto simp: pb_read_def cbs_get_eq is_error_def istream_ok_def in_view_def in_beyond_def source_bytes_def
      min_def drop_take split: if_splits in_source.splits)

lemma follows_readbyte: "follows pb_readbyte CBS_get_u8"
proof (rule followsI)
  fix st :: "'a pb_istream" and r st' assume ok: "istream_ok st" and run: "pb_readbyte st = (r, st')"
  from ok obtain buf where src: "is_source st = Buf_read buf" "is_bytes_left st \<le> length buf"
    by (auto simp: istream_ok_def split: in_source.splits)
  show "istream_ok st' \<and> CBS_get_u8 (in_view st) = (r, in_view st') \<and>
    in_beyond st' = in_beyond st \<and> (r = None \<or> is_errmsg st' = is_errmsg st)"
  proof (cases "is_bytes_left st")
    case 0
    with run ok show ?thesis by (auto simp: pb_readbyte_def is_error_def in_view_def)
  next
    case (Suc n)
    with src obtain b buf' where "buf = b # buf'" by (cases buf) auto
    with run ok Suc src show ?thesis
      by (auto simp: pb_readbyte_def istream_ok_def in_view_def in_beyond_def source_bytes_def)
  qed
qed

lemma follows_read_null: "follows (pb_read_null n) (CBS_skip n)"
proof -
  have "follows (sbind (pb_read n) (\<lambda>_. ret ())) (sbind (cbs_get n) (\<lambda>_. ret ()))"
    by (intro follows_bind follows_read follows_ret)
  moreover have "sbind (cbs_get n) (\<lambda>_. ret ()) = CBS_skip n"
    by (rule ext) (simp add: sbind_def cbs_get_eq)
  moreover have "istream_ok st \<Longrightarrow> pb_read_null n st = sbind (pb_read n) (\<lambda>_. ret ()) st" for st :: "'a pb_istream"
    by (auto simp: pb_read_null_def istream_ok_def split: in_source.splits)
  ultimately show ?thesis by (simp add: follows_def)
qed

text \<open>An operation run on a buffer.\<close>

definition on_bytes :: "(unit pb_istream, 'a) op \<Rightarrow> (u8 list, 'a) op" where
  "on_bytes p s = (case p (pb_istream_from_buffer s (length s)) of (r, st) \<Rightarrow> (r, in_view st))"

lemma on_bytes_eq: "follows p d \<Longrightarrow> on_bytes p = d"
proof
  fix s assume f: "follows p d"
  let ?st = "pb_istream_from_buffer s (length s) :: unit pb_istream"
  have "istream_ok ?st" "in_view ?st = s"
    by (simp_all add: pb_istream_from_buffer_def istream_ok_def in_view_def source_bytes_def)
  moreover obtain r st where "p ?st = (r, st)" by (cases "p ?st")
  ultimately show "on_bytes p s = d s" using followsD(2)[OF f, of ?st r st] by (simp add: on_bytes_def)
qed

end
