(* ===== verification/Pb_Varint.thy ===== *)
theory Pb_Varint
  imports Pb_Stream Base128
begin

text \<open>
  The wire format of nanopb below the messages: varints, zigzag integers, fixed-width integers,
  tags, lengths and strings, their encoders from \<open>pb_encode.c\<close> and their decoders from
  \<open>pb_decode.c\<close>. \<open>uint_fast8_t\<close> is eight bits wide, as on the platforms the application is
  built for.
\<close>

section \<open>Encoders\<close>

text \<open>The loop that fills \<open>buffer\<close>.\<close>

function varint_fill :: "u64 \<Rightarrow> u8 list" where
  "varint_fill value =
     (if value \<noteq> 0 then (ucast (value AND 0x7f) OR 0x80) # varint_fill (drop_bit 7 value) else [])"
  by pat_completeness auto
termination
proof (relation "measure unat")
  fix v :: u64 assume "v \<noteq> 0"
  then have "0 < unat v" by (simp add: unat_gt_0)
  then show "(drop_bit 7 v, v) \<in> measure unat" by (simp add: drop_bit_eq_div unat_div)
qed simp

declare varint_fill.simps [simp del]

definition pb_encode_varint :: "u64 \<Rightarrow> ('s pb_ostream, unit) op" where
  "pb_encode_varint value =
     (if value \<le> 0x7f then pb_write [ucast value] 1
      else let buffer = varint_fill value; i = length buffer;
               buffer = buffer[i - 1 := buffer ! (i - 1) AND 0x7f]
           in pb_write buffer i)"

definition pb_encode_svarint :: "i64 \<Rightarrow> ('s pb_ostream, unit) op" where
  "pb_encode_svarint value =
     (let zigzagged = if sint value < 0 then NOT (push_bit 1 (ucast value)) else push_bit 1 (ucast value)
      in pb_encode_varint zigzagged)"

definition pb_encode_fixed32 :: "u32 \<Rightarrow> ('s pb_ostream, unit) op" where
  "pb_encode_fixed32 val = pb_write
     [ucast (val AND 0xff), ucast (drop_bit 8 val AND 0xff), ucast (drop_bit 16 val AND 0xff),
      ucast (drop_bit 24 val AND 0xff)] 4"

definition pb_encode_fixed64 :: "u64 \<Rightarrow> ('s pb_ostream, unit) op" where
  "pb_encode_fixed64 val = pb_write
     [ucast (val AND 0xff), ucast (drop_bit 8 val AND 0xff), ucast (drop_bit 16 val AND 0xff),
      ucast (drop_bit 24 val AND 0xff), ucast (drop_bit 32 val AND 0xff), ucast (drop_bit 40 val AND 0xff),
      ucast (drop_bit 48 val AND 0xff), ucast (drop_bit 56 val AND 0xff)] 8"

text \<open>Wire types, a C enumeration.\<close>

definition PB_WT_VARINT :: u32 where "PB_WT_VARINT = 0"
definition PB_WT_64BIT :: u32 where "PB_WT_64BIT = 1"
definition PB_WT_STRING :: u32 where "PB_WT_STRING = 2"
definition PB_WT_32BIT :: u32 where "PB_WT_32BIT = 5"

definition pb_encode_tag :: "u32 \<Rightarrow> u32 \<Rightarrow> ('s pb_ostream, unit) op" where
  "pb_encode_tag wiretype field_number =
     pb_encode_varint (push_bit 3 (ucast field_number) OR ucast wiretype)"

definition pb_encode_string :: "u8 list \<Rightarrow> nat \<Rightarrow> ('s pb_ostream, unit) op" where
  "pb_encode_string buffer n = sbind (pb_encode_varint (of_nat n)) (\<lambda>_. pb_write buffer n)"

section \<open>Decoders\<close>

text \<open>The body of the multibyte case of \<open>pb_decode_varint32_eof\<close>; \<open>bitpos\<close> has eight bits.\<close>

function varint32_loop :: "nat \<Rightarrow> u32 \<Rightarrow> ('s pb_istream, u32) op" where
  "varint32_loop bitpos result st = sbind pb_readbyte (\<lambda>byte st'.
     let sign_extension = (if bitpos < 63 then 0xff else 0x01);
         result' = (if bitpos \<ge> 32 then result else result OR push_bit bitpos (ucast (byte AND 0x7f)));
         bitpos' = (bitpos + 7) mod 256
     in if bitpos \<ge> 32 \<and> byte AND 0x7f \<noteq> 0 \<and> (drop_bit 31 result = 0 \<or> byte \<noteq> sign_extension)
        then is_error ''varint overflow'' st'
        else if byte AND 0x80 \<noteq> 0 then varint32_loop bitpos' result' st'
        else if bitpos' = 35 \<and> byte AND 0x70 \<noteq> 0 then is_error ''varint overflow'' st'
        else ret result' st') st"
  by pat_completeness auto
termination
  by (relation "measure (\<lambda>(_, _, st). is_bytes_left st)") (auto dest: pb_readbyte_Some)

declare varint32_loop.simps [simp del]

text \<open>The result, whether \<open>*eof\<close> was set, and the stream.\<close>

definition pb_decode_varint32_eof :: "'s pb_istream \<Rightarrow> u32 option \<times> bool \<times> 's pb_istream" where
  "pb_decode_varint32_eof st =
     (case pb_readbyte st of
        (None, st') \<Rightarrow> (None, is_bytes_left st' = 0, st')
      | (Some byte, st') \<Rightarrow>
          if byte AND 0x80 = 0 then (Some (ucast byte), False, st')
          else case varint32_loop 7 (ucast (byte AND 0x7f)) st' of (r, st'') \<Rightarrow> (r, False, st''))"

definition pb_decode_varint32 :: "('s pb_istream, u32) op" where
  "pb_decode_varint32 st = (case pb_decode_varint32_eof st of (r, _, st') \<Rightarrow> (r, st'))"

function varint_loop :: "nat \<Rightarrow> u64 \<Rightarrow> ('s pb_istream, u64) op" where
  "varint_loop bitpos result =
     (if bitpos \<ge> 64 then is_error ''varint overflow''
      else sbind pb_readbyte (\<lambda>byte.
        let result' = result OR push_bit bitpos (ucast (byte AND 0x7f));
            bitpos' = (bitpos + 7) mod 256
        in if byte AND 0x80 \<noteq> 0 then varint_loop bitpos' result' else ret result'))"
  by pat_completeness auto
termination by (relation "measure (\<lambda>(bitpos, _). 71 - bitpos)") auto

declare varint_loop.simps [simp del]

definition pb_decode_varint :: "('s pb_istream, u64) op" where
  "pb_decode_varint = varint_loop 0 0"

function pb_skip_varint :: "('s pb_istream, unit) op" where
  "pb_skip_varint st = sbind (pb_read 1) (\<lambda>buf st'. if hd buf AND 0x80 \<noteq> 0 then pb_skip_varint st' else ret () st') st"
  by pat_completeness auto
termination
  by (relation "measure is_bytes_left")
    (auto simp: pb_read_def is_error_def split: if_splits prod.splits option.splits)

declare pb_skip_varint.simps [simp del]

definition pb_skip_string :: "('s pb_istream, unit) op" where
  "pb_skip_string = sbind pb_decode_varint32 (\<lambda>len. pb_read_null (unat len))"

text \<open>Success, wire type, tag, end of file and the stream.\<close>

definition pb_decode_tag :: "'s pb_istream \<Rightarrow> bool \<times> u32 \<times> u32 \<times> bool \<times> 's pb_istream" where
  "pb_decode_tag st =
     (case pb_decode_varint32_eof st of
        (None, eof, st') \<Rightarrow> (False, 0, 0, eof, st')
      | (Some temp, eof, st') \<Rightarrow>
          if temp = 0 then (False, 0, 0, True, st')
          else (True, temp AND 7, drop_bit 3 temp, eof, st'))"

definition pb_skip_field :: "u32 \<Rightarrow> ('s pb_istream, unit) op" where
  "pb_skip_field wire_type =
     (if wire_type = PB_WT_VARINT then pb_skip_varint
      else if wire_type = PB_WT_64BIT then pb_read_null 8
      else if wire_type = PB_WT_STRING then pb_skip_string
      else if wire_type = PB_WT_32BIT then pb_read_null 4
      else is_error ''invalid wire_type'')"

text \<open>\<open>read_raw_value\<close>: the bytes stored in the buffer; \<open>*size\<close> is their number.\<close>

fun raw_varint_loop :: "nat \<Rightarrow> ('s pb_istream, u8 list) op" where
  "raw_varint_loop 0 = fail"
| "raw_varint_loop (Suc max_size) = sbind (pb_read 1) (\<lambda>buf.
     if hd buf AND 0x80 \<noteq> 0 then sbind (raw_varint_loop max_size) (\<lambda>bs. ret (hd buf # bs))
     else ret [hd buf])"

definition read_raw_value :: "u32 \<Rightarrow> nat \<Rightarrow> ('s pb_istream, u8 list) op" where
  "read_raw_value wire_type max_size =
     (if wire_type = PB_WT_VARINT then raw_varint_loop max_size
      else if wire_type = PB_WT_64BIT then pb_read 8
      else if wire_type = PB_WT_32BIT then pb_read 4
      else is_error ''invalid wire_type'')"

definition pb_make_string_substream :: "('s pb_istream, 's pb_istream) op" where
  "pb_make_string_substream = sbind pb_decode_varint32 (\<lambda>size st.
     if is_bytes_left st < unat size then is_error ''parent stream too short'' st
     else (Some (st\<lparr>is_bytes_left := unat size\<rparr>), st\<lparr>is_bytes_left := is_bytes_left st - unat size\<rparr>))"

definition pb_close_string_substream :: "'s pb_istream \<Rightarrow> ('s pb_istream, unit) op" where
  "pb_close_string_substream substream st =
     (case (if is_bytes_left substream \<noteq> 0 then pb_read_null (is_bytes_left substream) substream
            else (Some (), substream)) of
        (None, _) \<Rightarrow> (None, st)
      | (Some _, substream') \<Rightarrow>
          (Some (), st\<lparr>is_source := is_source substream', is_errmsg := is_errmsg substream'\<rparr>))"

definition pb_decode_svarint :: "('s pb_istream, i64) op" where
  "pb_decode_svarint = sbind pb_decode_varint (\<lambda>value.
     ret (if value AND 1 \<noteq> 0 then ucast (NOT (drop_bit 1 value)) else ucast (drop_bit 1 value)))"

definition pb_decode_fixed32 :: "('s pb_istream, u32) op" where
  "pb_decode_fixed32 = sbind (pb_read 4) (\<lambda>bytes.
     ret (ucast (bytes ! 0) OR push_bit 8 (ucast (bytes ! 1)) OR push_bit 16 (ucast (bytes ! 2)) OR
          push_bit 24 (ucast (bytes ! 3))))"

definition pb_decode_fixed64 :: "('s pb_istream, u64) op" where
  "pb_decode_fixed64 = sbind (pb_read 8) (\<lambda>bytes.
     ret (ucast (bytes ! 0) OR push_bit 8 (ucast (bytes ! 1)) OR push_bit 16 (ucast (bytes ! 2)) OR
          push_bit 24 (ucast (bytes ! 3)) OR push_bit 32 (ucast (bytes ! 4)) OR
          push_bit 40 (ucast (bytes ! 5)) OR push_bit 48 (ucast (bytes ! 6)) OR
          push_bit 56 (ucast (bytes ! 7))))"

section \<open>Varints as bytes\<close>

function varint_bytes :: "u64 \<Rightarrow> u8 list" where
  "varint_bytes v = (if v \<le> 0x7f then [ucast v] else (ucast (v AND 0x7f) OR 0x80) # varint_bytes (drop_bit 7 v))"
  by pat_completeness auto
termination
proof (relation "measure unat")
  fix v :: u64 assume "\<not> v \<le> 0x7f"
  then have "0 < unat v" by (auto simp: word_le_nat_alt)
  then show "(drop_bit 7 v, v) \<in> measure unat" by (simp add: drop_bit_eq_div unat_div)
qed simp

declare varint_bytes.simps [simp del]

text \<open>A varint: bytes with the continuation flag, and one without; its value in 64 bits.\<close>

fun varint_form :: "u8 list \<Rightarrow> bool" where
  "varint_form [] = False"
| "varint_form (b # bs) = (if b AND 0x80 = 0 then bs = [] else varint_form bs)"

fun varint_value :: "u8 list \<Rightarrow> u64" where
  "varint_value [] = 0"
| "varint_value (b # bs) = ucast (b AND 0x7f) OR push_bit 7 (varint_value bs)"

lemma varint_bytes_short: "v \<le> 0x7f \<Longrightarrow> varint_bytes v = [ucast v]"
  by (simp add: varint_bytes.simps)

lemma varint_bytes_long: "\<not> v \<le> 0x7f \<Longrightarrow>
    varint_bytes v = (ucast (v AND 0x7f) OR 0x80) # varint_bytes (drop_bit 7 v)"
  by (simp add: varint_bytes.simps)

lemma le_7f_iff: "(v :: 'a::len word) \<le> 0x7f \<longleftrightarrow> unat v < 2 ^ 7" if "8 \<le> LENGTH('a)"
proof -
  have "(2 :: nat) ^ 8 \<le> 2 ^ LENGTH('a)" using that by (rule power_increasing) simp
  then have "unat (0x7f :: 'a word) = 0x7f" by (simp add: take_bit_nat_eq_self_iff unsigned_numeral take_bit_nat_eq_self)
  then show ?thesis by (auto simp: word_le_nat_alt)
qed

lemma le_7f_bits: "(v :: u64) \<le> 0x7f \<Longrightarrow> bit v i \<Longrightarrow> i < 7"
  by (rule small_bits[of v 7]) (simp_all add: le_7f_iff)

lemma unat_drop_7: "unat (drop_bit 7 v) = unat (v :: u64) div 2 ^ 7"
  unfolding unat_drop_bit_eq unfolding drop_bit_eq_div by (rule refl)

lemma drop_bit_7_zero_iff: "drop_bit 7 (v :: u64) = 0 \<longleftrightarrow> v \<le> 0x7f"
  by (simp add: le_7f_iff drop_bit_eq_div word_unat_eq_iff unat_div div_eq_0_iff del: unat_eq_zero)

lemma varint_form_bytes: "varint_form (varint_bytes v)"
proof (induction v rule: varint_bytes.induct)
  case (1 v)
  show ?case
  proof (cases "v \<le> 0x7f")
    case True
    then have "(ucast v :: u8) AND 0x80 = 0"
      by (auto simp: and_high_bit bit_simps dest: le_7f_bits)
    then show ?thesis using True by (simp add: varint_bytes_short)
  next
    case False
    then show ?thesis using 1 by (simp add: varint_bytes_long and_high_bit bit_simps bit_literals)
  qed
qed

lemma varint_value_bytes [simp]: "varint_value (varint_bytes v) = v"
proof (induction v rule: varint_bytes.induct)
  case (1 v)
  show ?case
  proof (cases "v \<le> 0x7f")
    case True
    then have "ucast ((ucast v :: u8) AND 0x7f) = v"
      by (intro bit_word_eqI) (auto simp: bit_simps bit_literals dest: le_7f_bits)
    then show ?thesis using True by (simp add: varint_bytes_short)
  next
    case False
    have "ucast ((ucast (v AND 0x7f) OR 0x80 :: u8) AND 0x7f) = (v AND 0x7f)"
      by (rule bit_word_eqI) (auto simp: bit_simps bit_literals)
    moreover have "(v AND 0x7f) OR push_bit 7 (drop_bit 7 v) = v"
    proof (rule bit_word_eqI)
      fix i assume "i < LENGTH(64)"
      then show "bit ((v AND 0x7f) OR push_bit 7 (drop_bit 7 v)) i = bit v i"
        by (cases "i < 7") (auto simp: bit_simps bit_literals)
    qed
    ultimately show ?thesis using False 1 by (simp add: varint_bytes_long)
  qed
qed

lemma length_varint_bytes: "unat v < 2 ^ (7 * Suc n) \<Longrightarrow> length (varint_bytes v) \<le> Suc n"
proof (induction n arbitrary: v)
  case 0
  then show ?case by (simp add: varint_bytes_short le_7f_iff)
next
  case (Suc n)
  have "unat (drop_bit 7 v) < 2 ^ (7 * Suc n)"
    using Suc.prems unfolding unat_drop_7 by (intro less_mult_imp_div_less) (simp add: power_add algebra_simps)
  with Suc.IH show ?case by (cases "v \<le> 0x7f") (simp_all add: varint_bytes_short varint_bytes_long)
qed

lemma length_varint_bytes_le: "length (varint_bytes v) \<le> 10"
proof -
  have "unat v < 2 ^ 64" using unsigned_less[of v, where 'a = nat] by simp
  also have "\<dots> \<le> 2 ^ (7 * Suc 9)" by (rule power_increasing) simp_all
  finally show ?thesis using length_varint_bytes[of v 9] by simp
qed

lemma varint_bytes_nonempty [simp]: "varint_bytes v \<noteq> []" "0 < length (varint_bytes v)"
  using varint_form_bytes[of v] by auto

text \<open>What the encoder's buffer holds: never more than its ten bytes, and the varint once the
  last flag is cleared.\<close>

lemma varint_fill_nonzero: "v \<noteq> 0 \<Longrightarrow>
    varint_fill v = (ucast (v AND 0x7f) OR 0x80) # varint_fill (drop_bit 7 v)"
  by (subst varint_fill.simps) simp

lemma varint_fill_bytes: "v \<noteq> 0 \<Longrightarrow> length (varint_fill v) = length (varint_bytes v) \<and>
    (varint_fill v)[length (varint_fill v) - 1 := varint_fill v ! (length (varint_fill v) - 1) AND 0x7f] = varint_bytes v"
proof (induction v rule: varint_bytes.induct)
  case (1 v)
  show ?case
  proof (cases "v \<le> 0x7f")
    case True
    then have "(ucast (v AND 0x7f) OR 0x80 :: u8) AND 0x7f = ucast v"
      by (intro bit_word_eqI) (auto simp: bit_simps bit_literals dest: le_7f_bits)
    moreover have "varint_fill (drop_bit 7 v) = []"
      using True by (simp add: drop_bit_7_zero_iff varint_fill.simps)
    ultimately show ?thesis using True 1(2) by (simp add: varint_fill_nonzero varint_bytes_short)
  next
    case False
    then have nz: "drop_bit 7 v \<noteq> 0" by (simp add: drop_bit_7_zero_iff)
    then obtain n where n: "length (varint_fill (drop_bit 7 v)) = Suc n" by (simp add: varint_fill_nonzero)
    with 1(1)[OF False nz] have "length (varint_bytes (drop_bit 7 v)) = Suc n"
      "(varint_fill (drop_bit 7 v))[n := varint_fill (drop_bit 7 v) ! n AND 0x7f] = varint_bytes (drop_bit 7 v)"
      by simp_all
    then show ?thesis using False 1(2) n by (simp add: varint_fill_nonzero[of v] varint_bytes_long)
  qed
qed

lemma pb_encode_varint_eq: "pb_encode_varint v = pb_write (varint_bytes v) (length (varint_bytes v))"
proof (cases "v \<le> 0x7f")
  case True
  then show ?thesis by (simp add: pb_encode_varint_def varint_bytes_short)
next
  case False
  then have "v \<noteq> 0" by auto
  from varint_fill_bytes[OF this] have l: "length (varint_fill v) = length (varint_bytes v)"
    and b: "(varint_fill v)[length (varint_fill v) - 1 := varint_fill v ! (length (varint_fill v) - 1) AND 0x7f] =
      varint_bytes v" by blast+
  show ?thesis using False unfolding pb_encode_varint_def Let_def b unfolding l by simp
qed

end
