(* ===== verification/Pb_Wire.thy ===== *)
theory Pb_Wire
  imports Pb_Varint
begin

text \<open>
  The wire format: what the encoders of \<open>Pb_Varint\<close> emit, which inputs its decoders accept, and
  that they read back what was emitted.
\<close>

section \<open>What is emitted\<close>

definition le_bytes :: "nat \<Rightarrow> u64 \<Rightarrow> u8 list" where
  "le_bytes n v = map (\<lambda>i. ucast (drop_bit (8 * i) v)) [0..<n]"

lemma length_le_bytes [simp]: "length (le_bytes n v) = n"
  by (simp add: le_bytes_def)

lemma upt_lists: "[0..<4] = [0, 1, 2, 3]" "[0..<8] = [0, 1, 2, 3, 4, 5, 6, 7]"
  by (simp_all add: upt_rec eval_nat_numeral)

definition zigzag :: "i64 \<Rightarrow> u64" where
  "zigzag value = (if sint value < 0 then NOT (push_bit 1 (ucast value)) else push_bit 1 (ucast value))"

definition tag_bytes :: "u32 \<Rightarrow> u32 \<Rightarrow> u8 list" where
  "tag_bytes wiretype field_number = varint_bytes (push_bit 3 (ucast field_number) OR ucast wiretype)"

definition string_bytes :: "u8 list \<Rightarrow> u8 list" where
  "string_bytes s = varint_bytes (of_nat (length s)) @ s"

lemma length_varint_SIZE [simp]: "length (varint_bytes v) < SIZE_MOD"
  using length_varint_bytes_le[of v] by (simp add: SIZE_MOD_def)

lemma ucast_and_ff: "ucast (w AND 0xff) = (ucast w :: u8)" for w :: "'a::len word"
proof (rule bit_word_eqI)
  have "(0xff :: int) = mask 8" by (simp add: mask_eq_exp_minus_1)
  then have "bit (0xff :: int) i \<longleftrightarrow> i < 8" for i by (simp only: bit_mask_iff) simp
  then show "i < LENGTH(8) \<Longrightarrow> bit (ucast (w AND 0xff) :: u8) i = bit (ucast w :: u8) i" for i
    by (auto simp: bit_simps dest: bit_imp_le_length)
qed

lemma ucast_drop_ucast: "ucast (drop_bit n (ucast (v :: u32) :: u64)) = (ucast (drop_bit n v) :: u8)"
  by (rule bit_word_eqI) (auto simp: bit_simps dest: bit_imp_le_length)

lemma le_bytes_4: "le_bytes 4 (ucast (v :: u32)) =
    [ucast (v AND 0xff), ucast (drop_bit 8 v AND 0xff), ucast (drop_bit 16 v AND 0xff), ucast (drop_bit 24 v AND 0xff)]"
  using ucast_drop_ucast[of 0 v] by (simp add: le_bytes_def upt_lists ucast_and_ff ucast_drop_ucast)

lemma le_bytes_8: "le_bytes 8 v =
    [ucast (v AND 0xff), ucast (drop_bit 8 v AND 0xff), ucast (drop_bit 16 v AND 0xff),
     ucast (drop_bit 24 v AND 0xff), ucast (drop_bit 32 v AND 0xff), ucast (drop_bit 40 v AND 0xff),
     ucast (drop_bit 48 v AND 0xff), ucast (drop_bit 56 v AND 0xff)]"
  by (simp add: le_bytes_def upt_lists ucast_and_ff)

context sink
begin

lemma varint: "emits feed (pb_encode_varint v) (Some (varint_bytes v))"
  unfolding pb_encode_varint_eq by (rule emit_write)

lemma svarint: "emits feed (pb_encode_svarint v) (Some (varint_bytes (zigzag v)))"
  unfolding pb_encode_svarint_def Let_def zigzag_def by (rule varint)

lemma fixed32: "emits feed (pb_encode_fixed32 v) (Some (le_bytes 4 (ucast v)))"
  using emit_write[of "le_bytes 4 (ucast v)"] unfolding pb_encode_fixed32_def le_bytes_4[symmetric] by simp

lemma fixed64: "emits feed (pb_encode_fixed64 v) (Some (le_bytes 8 v))"
  using emit_write[of "le_bytes 8 v"] unfolding pb_encode_fixed64_def le_bytes_8[symmetric] by simp

lemma tag: "emits feed (pb_encode_tag wt n) (Some (tag_bytes wt n))"
  unfolding pb_encode_tag_def tag_bytes_def by (rule varint)

lemma string_emitted: "emits feed (pb_encode_string s (length s)) (Some (string_bytes s))"
  unfolding pb_encode_string_def string_bytes_def by (intro bind_Some varint emit_write)

end

section \<open>Decoders as parsers\<close>

function varint_dec :: "nat \<Rightarrow> u64 \<Rightarrow> (u8 list, u64) op" where
  "varint_dec bitpos result =
     (if bitpos \<ge> 64 then fail
      else sbind CBS_get_u8 (\<lambda>byte.
        let result' = result OR push_bit bitpos (ucast (byte AND 0x7f));
            bitpos' = (bitpos + 7) mod 256
        in if byte AND 0x80 \<noteq> 0 then varint_dec bitpos' result' else ret result'))"
  by pat_completeness auto
termination by (relation "measure (\<lambda>(bitpos, _). 71 - bitpos)") auto

declare varint_dec.simps [simp del]

lemma follows_varint_loop: "follows (varint_loop bitpos result) (varint_dec bitpos result)"
proof (induction bitpos result rule: varint_dec.induct)
  case (1 bitpos result)
  show ?case
    unfolding varint_loop.simps[of bitpos] varint_dec.simps[of bitpos] Let_def
    by (intro follows_if follows_error follows_bind follows_readbyte 1 follows_ret) simp_all
qed

lemma follows_varint: "follows pb_decode_varint (varint_dec 0 0)"
  unfolding pb_decode_varint_def by (rule follows_varint_loop)

text \<open>Exactly the varints of at most ten bytes are accepted, bits beyond the 64th being dropped.\<close>

lemma varint_dec_iff:
  "k \<le> 10 \<Longrightarrow> varint_dec (7 * k) res s = (Some v, r) \<longleftrightarrow>
    (\<exists>bs. s = bs @ r \<and> varint_form bs \<and> k + length bs \<le> 10 \<and> v = res OR push_bit (7 * k) (varint_value bs))"
proof (induction s arbitrary: k res)
  case Nil
  then show ?case by (subst varint_dec.simps) (auto simp: sbind_def)
next
  case (Cons b s)
  show ?case
  proof (cases "k = 10")
    case True
    then show ?thesis by (subst varint_dec.simps) auto
  next
    case False
    then have k: "7 * k < 64" "(7 * k + 7) mod 256 = 7 * Suc k" "Suc k \<le> 10" using Cons.prems by simp_all
    let ?res = "res OR push_bit (7 * k) (ucast (b AND 0x7f))"
    have step: "varint_dec (7 * k) res (b # s) =
        (if b AND 0x80 \<noteq> 0 then varint_dec (7 * Suc k) ?res s else (Some ?res, s))"
      using k by (subst varint_dec.simps) (simp add: Let_def add.commute)
    have shift: "?res OR push_bit (7 * Suc k) w = res OR push_bit (7 * k) (ucast (b AND 0x7f) OR push_bit 7 w)" for w
      by (simp add: push_bit_or or.assoc algebra_simps)
    show ?thesis
    proof (cases "b AND 0x80 = 0")
      case True
      have "(\<exists>bs. b # s = bs @ r \<and> varint_form bs \<and> k + length bs \<le> 10 \<and>
          v = res OR push_bit (7 * k) (varint_value bs)) \<longleftrightarrow> s = r \<and> v = ?res"
      proof safe
        fix bs assume bs: "b # s = bs @ r" "varint_form bs" "k + length bs \<le> 10"
        then show "s = r" "res OR push_bit (7 * k) (varint_value bs) = ?res"
          using True by (cases bs; simp split: if_splits)+
      next
        show "\<exists>bs. b # r = bs @ r \<and> varint_form bs \<and> k + length bs \<le> 10 \<and>
            ?res = res OR push_bit (7 * k) (varint_value bs)"
          using True k by (intro exI[of _ "[b]"]) simp
      qed
      then show ?thesis using True step by auto
    next
      case False
      have "(\<exists>bs. b # s = bs @ r \<and> varint_form bs \<and> k + length bs \<le> 10 \<and>
          v = res OR push_bit (7 * k) (varint_value bs)) \<longleftrightarrow>
        (\<exists>bs. s = bs @ r \<and> varint_form bs \<and> Suc k + length bs \<le> 10 \<and>
          v = ?res OR push_bit (7 * Suc k) (varint_value bs))" (is "?L \<longleftrightarrow> ?R")
      proof
        assume ?L
        then obtain bs where bs: "b # s = bs @ r" "varint_form bs" "k + length bs \<le> 10"
          "v = res OR push_bit (7 * k) (varint_value bs)" by blast
        then obtain bs' where "bs = b # bs'" by (cases bs) auto
        with bs False shift show ?R by (intro exI[of _ bs']) simp
      next
        assume ?R
        then obtain bs where "s = bs @ r" "varint_form bs" "Suc k + length bs \<le> 10"
          "v = ?res OR push_bit (7 * Suc k) (varint_value bs)" by blast
        with False shift show ?L by (intro exI[of _ "b # bs"]) simp
      qed
      then show ?thesis using False step Cons.IH[OF k(3)] by simp
    qed
  qed
qed

lemma pb_decode_varint_iff: "on_bytes pb_decode_varint s = (Some v, r) \<longleftrightarrow>
    (\<exists>bs. s = bs @ r \<and> varint_form bs \<and> length bs \<le> 10 \<and> v = varint_value bs)"
  using varint_dec_iff[of 0 0 s v r] by (simp add: on_bytes_eq[OF follows_varint])

interpretation pb_varint: prefix_codec varint_bytes "on_bytes pb_decode_varint" "\<lambda>_. True"
  by unfold_locales (metis pb_decode_varint_iff varint_form_bytes varint_value_bytes length_varint_bytes_le)

subsection \<open>Thirty-two bits\<close>

fun varint32_dec :: "nat \<Rightarrow> u32 \<Rightarrow> (u8 list, u32) op" where
  "varint32_dec bitpos result [] = (None, [])"
| "varint32_dec bitpos result (byte # s) =
     (let sign_extension = (if bitpos < 63 then 0xff else 0x01);
          result' = (if bitpos \<ge> 32 then result else result OR push_bit bitpos (ucast (byte AND 0x7f)));
          bitpos' = (bitpos + 7) mod 256
      in if bitpos \<ge> 32 \<and> byte AND 0x7f \<noteq> 0 \<and> (drop_bit 31 result = 0 \<or> byte \<noteq> sign_extension) then (None, s)
         else if byte AND 0x80 \<noteq> 0 then varint32_dec bitpos' result' s
         else if bitpos' = 35 \<and> byte AND 0x70 \<noteq> 0 then (None, s)
         else (Some result', s))"

fun decode32 :: "(u8 list, u32) op" where
  "decode32 [] = (None, [])"
| "decode32 (byte # s) =
     (if byte AND 0x80 = 0 then (Some (ucast byte), s) else varint32_dec 7 (ucast (byte AND 0x7f)) s)"

lemma readbyte_view:
  assumes "istream_ok st"
  shows "in_view st = [] \<Longrightarrow> \<exists>st'. pb_readbyte st = (None, st') \<and> istream_ok st' \<and> in_view st' = [] \<and>
      in_beyond st' = in_beyond st"
    and "in_view st = b # s \<Longrightarrow> \<exists>st'. pb_readbyte st = (Some b, st') \<and> istream_ok st' \<and> in_view st' = s \<and>
      in_beyond st' = in_beyond st \<and> is_errmsg st' = is_errmsg st"
  using follows_run[OF follows_readbyte assms, of None "[]"] follows_run[OF follows_readbyte assms, of "Some b" s]
  by auto

lemma follows_varint32_loop: "follows (varint32_loop bitpos result) (varint32_dec bitpos result)"
proof (rule followsI)
  fix st :: "'s pb_istream" and r st'
  assume "istream_ok st" and "varint32_loop bitpos result st = (r, st')"
  then show "istream_ok st' \<and> varint32_dec bitpos result (in_view st) = (r, in_view st') \<and>
    in_beyond st' = in_beyond st \<and> (r = None \<or> is_errmsg st' = is_errmsg st)"
  proof (induction "in_view st" arbitrary: st bitpos result)
    case Nil
    from readbyte_view(1)[OF Nil(2) Nil(1)[symmetric]] obtain st1 where
      "pb_readbyte st = (None, st1)" "istream_ok st1" "in_view st1 = []" "in_beyond st1 = in_beyond st" by blast
    with Nil show ?case by (subst (asm) varint32_loop.simps) auto
  next
    case (Cons b s)
    from readbyte_view(2)[OF Cons(3) Cons(2)[symmetric]] obtain st1 where st1:
      "pb_readbyte st = (Some b, st1)" "istream_ok st1" "in_view st1 = s" "in_beyond st1 = in_beyond st"
      "is_errmsg st1 = is_errmsg st" by blast
    let ?result = "if bitpos \<ge> 32 then result else result OR push_bit bitpos (ucast (b AND 0x7f))"
    let ?bitpos = "(bitpos + 7) mod 256"
    note IH = Cons(1)[OF st1(3)[symmetric] st1(2), of ?bitpos ?result]
    have run: "varint32_loop bitpos result st =
      (if bitpos \<ge> 32 \<and> b AND 0x7f \<noteq> 0 \<and> (drop_bit 31 result = 0 \<or> b \<noteq> (if bitpos < 63 then 0xff else 0x01))
       then is_error ''varint overflow'' st1
       else if b AND 0x80 \<noteq> 0 then varint32_loop ?bitpos ?result st1
       else if ?bitpos = 35 \<and> b AND 0x70 \<noteq> 0 then is_error ''varint overflow'' st1 else (Some ?result, st1))"
      by (subst varint32_loop.simps) (simp only: sbind_def st1(1) prod.case option.case Let_def ret_apply)
    show ?case unfolding Cons(2)[symmetric] varint32_dec.simps Let_def
      using Cons(4) IH st1 unfolding run by (simp add: is_error_def split: if_splits) auto
  qed
qed

lemma varint32_eof_view:
  assumes "istream_ok st" and "pb_decode_varint32_eof st = (r, eof, st')"
  shows "istream_ok st' \<and> decode32 (in_view st) = (r, in_view st') \<and> in_beyond st' = in_beyond st \<and>
    (r = None \<or> is_errmsg st' = is_errmsg st) \<and> eof = (in_view st = [])"
proof (cases "in_view st")
  case Nil
  from readbyte_view(1)[OF assms(1) this] obtain st1 where st1: "pb_readbyte st = (None, st1)" "istream_ok st1"
    "in_view st1 = []" "in_beyond st1 = in_beyond st" by blast
  then have "is_bytes_left st1 = 0" using in_view_length[of st1] by simp
  with assms(2) st1 Nil show ?thesis by (auto simp: pb_decode_varint32_eof_def)
next
  case (Cons b s)
  from readbyte_view(2)[OF assms(1) this] obtain st1 where st1: "pb_readbyte st = (Some b, st1)" "istream_ok st1"
    "in_view st1 = s" "in_beyond st1 = in_beyond st" "is_errmsg st1 = is_errmsg st" by blast
  show ?thesis
  proof (cases "b AND 0x80 = 0")
    case True
    with assms(2) st1 Cons show ?thesis by (auto simp: pb_decode_varint32_eof_def)
  next
    case False
    obtain r1 st2 where run: "varint32_loop 7 (ucast (b AND 0x7f)) st1 = (r1, st2)" by force
    with assms(2) st1(1) False have "r = r1" "eof = False" "st' = st2"
      by (auto simp: pb_decode_varint32_eof_def)
    with followsD[OF follows_varint32_loop st1(2) run] st1 Cons False show ?thesis by (cases r1) auto
  qed
qed

lemma follows_varint32: "follows pb_decode_varint32 decode32"
proof (rule followsI)
  fix st :: "'s pb_istream" and r st' assume "istream_ok st" and "pb_decode_varint32 st = (r, st')"
  then show "istream_ok st' \<and> decode32 (in_view st) = (r, in_view st') \<and> in_beyond st' = in_beyond st \<and>
    (r = None \<or> is_errmsg st' = is_errmsg st)"
    using varint32_eof_view[of st r _ st'] by (auto simp: pb_decode_varint32_def split: prod.splits)
qed

text \<open>One continued byte, below the 35th bit.\<close>

lemma varint32_step:
  assumes "k \<le> 4" and "\<not> w \<le> 0x7f"
  shows "varint32_dec (7 * k) res (varint_bytes w @ r) =
    varint32_dec (7 * Suc k) (res OR push_bit (7 * k) (ucast (w AND 0x7f))) (varint_bytes (drop_bit 7 w) @ r)"
proof -
  have "(ucast (w AND 0x7f) OR 0x80 :: u8) AND 0x80 \<noteq> 0" by (simp add: and_high_bit bit_simps bit_literals)
  moreover have "ucast ((ucast (w AND 0x7f) OR 0x80 :: u8) AND 0x7f) = (ucast (w AND 0x7f) :: u32)"
    by (rule bit_word_eqI) (auto simp: bit_simps bit_literals)
  ultimately show ?thesis using assms
    by (simp add: varint_bytes_long Let_def add.commute)
qed

lemma join_septet32: "push_bit m (ucast (w AND 0x7f)) OR push_bit (m + 7) (ucast (drop_bit 7 w)) =
    (push_bit m (ucast (w :: u64)) :: u32)"
proof (rule bit_word_eqI)
  fix i assume "i < LENGTH(32)"
  then show "bit (push_bit m (ucast (w AND 0x7f)) OR push_bit (m + 7) (ucast (drop_bit 7 w)) :: u32) i =
      bit (push_bit m (ucast w) :: u32) i"
    by (cases "i < m + 7") (auto simp: bit_simps bit_literals)
qed

lemma and_70_nibble: "unat (w :: u64) < 2 ^ 4 \<Longrightarrow> (ucast w :: u8) AND 0x70 = 0"
proof (rule bit_word_eqI)
  fix i assume w: "unat w < 2 ^ 4" and "i < LENGTH(8)"
  have "(0x70 :: int) = push_bit 4 (mask 3)" by (simp add: mask_eq_exp_minus_1)
  then have "bit (0x70 :: int) i \<Longrightarrow> 4 \<le> i" by (simp only: bit_push_bit_iff)
  with small_bits[OF w, of i] \<open>i < LENGTH(8)\<close> show "bit ((ucast w :: u8) AND 0x70) i = bit (0 :: u8) i"
    by (auto simp: bit_simps)
qed

lemma varint32_last:
  assumes "w \<le> 0x7f" and "k \<le> 4" and "k = 4 \<Longrightarrow> unat w < 2 ^ 4"
  shows "varint32_dec (7 * k) res (varint_bytes w @ r) = (Some (res OR push_bit (7 * k) (ucast w)), r)"
proof -
  have "(ucast w :: u8) AND 0x80 = 0" using assms(1) by (auto simp: and_high_bit bit_simps dest: le_7f_bits)
  moreover have "ucast ((ucast w :: u8) AND 0x7f) = (ucast w :: u32)"
    using assms(1) by (intro bit_word_eqI) (auto simp: bit_simps bit_literals dest: le_7f_bits)
  moreover have "k = 4 \<Longrightarrow> (ucast w :: u8) AND 0x70 = 0" using assms(3) and_70_nibble by blast
  moreover have "\<not> 32 \<le> 7 * k" "((7 * k + 7) mod 256 = 35) = (k = 4)" using assms(2) by simp_all
  ultimately show ?thesis by (simp add: varint_bytes_short[OF assms(1)] Let_def)
qed

lemma varint32_dec_bytes:
  "k \<le> 4 \<Longrightarrow> unat w < 2 ^ (32 - 7 * k) \<Longrightarrow>
   varint32_dec (7 * k) res (varint_bytes w @ r) = (Some (res OR push_bit (7 * k) (ucast w)), r)"
proof (induction w arbitrary: k res rule: varint_bytes.induct)
  case (1 w)
  have four: "k = 4 \<Longrightarrow> unat w < 2 ^ 4" using "1.prems"(2) by simp
  show ?case
  proof (cases "w \<le> 0x7f")
    case True
    then show ?thesis using "1.prems"(1) four by (rule varint32_last)
  next
    case False
    then have "\<not> unat w < 2 ^ 7" by (simp add: le_7f_iff)
    then have "k \<noteq> 4" using four by auto
    then have k: "Suc k \<le> 4" using "1.prems"(1) by simp
    then have "32 - 7 * k = 7 + (32 - 7 * Suc k)" by simp
    then have "unat w < 2 ^ 7 * 2 ^ (32 - 7 * Suc k)" using "1.prems"(2) by (simp only: power_add)
    then have "unat (drop_bit 7 w) < 2 ^ (32 - 7 * Suc k)"
      unfolding unat_drop_7 by (intro less_mult_imp_div_less) (simp only: mult.commute)
    note IH = "1.IH"[OF False k this]
    have "push_bit (7 * k) (ucast (w AND 0x7f)) OR push_bit (7 * Suc k) (ucast (drop_bit 7 w)) =
        (push_bit (7 * k) (ucast w) :: u32)"
      using join_septet32[of "7 * k" w] by (simp only: mult_Suc_right add.commute)
    then show ?thesis by (simp only: varint32_step[OF "1.prems"(1) False] IH or.assoc)
  qed
qed

lemma decode32_long:
  assumes "\<not> w \<le> 0x7f"
  shows "decode32 (varint_bytes w @ r) = varint32_dec 7 (ucast (w AND 0x7f)) (varint_bytes (drop_bit 7 w) @ r)"
proof -
  have "(ucast (w AND 0x7f) OR 0x80 :: u8) AND 0x80 \<noteq> 0" by (simp add: and_high_bit bit_simps bit_literals)
  moreover have "ucast ((ucast (w AND 0x7f) OR 0x80 :: u8) AND 0x7f) = (ucast (w AND 0x7f) :: u32)"
    by (rule bit_word_eqI) (auto simp: bit_simps bit_literals)
  ultimately show ?thesis using assms by (simp add: varint_bytes_long)
qed

lemma decode32_bytes: "unat w < 2 ^ 32 \<Longrightarrow> decode32 (varint_bytes w @ r) = (Some (ucast w), r)"
proof (cases "w \<le> 0x7f")
  case True
  then have "(ucast w :: u8) AND 0x80 = 0" "ucast (ucast w :: u8) = (ucast w :: u32)"
    by (auto simp: and_high_bit bit_simps dest: le_7f_bits intro!: bit_word_eqI)
  with True show ?thesis by (simp add: varint_bytes_short)
next
  case False
  assume "unat w < 2 ^ 32"
  then have "unat (drop_bit 7 w) < 2 ^ (32 - 7 * 1)"
    unfolding unat_drop_7 by (intro less_mult_imp_div_less) simp
  from varint32_dec_bytes[OF _ this] decode32_long[OF False] join_septet32[of 0 w] show ?thesis by simp
qed

end
