(* ===== verification/Pb_Codec.thy ===== *)
theory Pb_Codec
  imports Pb_Wire
begin

text \<open>
  The decoders of \<open>pb_decode.c\<close> on what the encoders emit: negative numbers in ten bytes,
  zigzag, fixed widths, tags, substreams, and skipping a field. The codecs of the wire format
  are instances of \<open>prefix_codec\<close>. The last section records inputs the 32-bit decoder accepts
  although they encode no 32-bit value.
\<close>

section \<open>Negative numbers\<close>

lemma decode32_sign_tail:
  assumes "bit res 31"
  shows "varint32_dec 35 res ([0xff, 0xff, 0xff, 0xff, 0x01] @ r) = (Some res, r)"
proof -
  have "drop_bit 31 res \<noteq> 0" using assms by (auto simp: bit_eq_iff bit_simps intro!: exI[of _ 0])
  moreover have "(0xff :: u8) AND 0x80 \<noteq> 0" "(1 :: u8) AND 0x80 = 0" "(0xff :: u8) AND 0x7f \<noteq> 0" by simp_all
  ultimately show ?thesis by (simp add: Let_def)
qed

lemma unat_drop_bit: "unat (drop_bit n v) = unat (v :: u64) div 2 ^ n"
  unfolding unat_drop_bit_eq unfolding drop_bit_eq_div by (rule refl)

lemma sign_extended_bits:
  assumes "2 ^ 64 - 2 ^ 31 \<le> unat (v :: u64)"
  shows "drop_bit 31 v = drop_bit 31 (- 1)"
proof -
  have "unat v < 2 ^ 64" using unsigned_less[of v, where 'a = nat] by simp
  with assms have "unat v div 2 ^ 31 = 2 ^ 33 - 1" by simp
  moreover have "unat (- 1 :: u64) = 2 ^ 64 - 1" by (simp add: unsigned_minus_1_eq_mask mask_eq_exp_minus_1)
  then have "unat (- 1 :: u64) div 2 ^ 31 = 2 ^ 33 - 1" by simp
  ultimately have "unat (drop_bit 31 v) = unat (drop_bit 31 (- 1 :: u64))" by (simp only: unat_drop_bit)
  then show ?thesis by (simp only: word_unat_eq_iff)
qed

text \<open>A negative \<open>int32\<close>, sign-extended to 64 bits by its encoder.\<close>

lemma decode32_negative:
  assumes "2 ^ 64 - 2 ^ 31 \<le> unat v"
  shows "decode32 (varint_bytes v @ r) = (Some (ucast v), r)"
proof -
  have bits: "bit v i" if "31 \<le> i" "i < 64" for i
  proof -
    have "bit (drop_bit 31 v) (i - 31) = bit (drop_bit 31 (- 1 :: u64)) (i - 31)"
      using sign_extended_bits[OF assms] by simp
    moreover have "i - 31 < 33" using that by arith
    ultimately show ?thesis using that by (simp add: bit_simps)
  qed
  have long: "\<not> drop_bit n v \<le> 0x7f" if "n \<le> 28" for n
  proof
    assume "drop_bit n v \<le> 0x7f"
    from le_7f_bits[OF this, of "63 - n"] show False using that bits[of 63] by (simp add: bit_simps)
  qed
  have "drop_bit 35 v = 0x1fffffff"
  proof (rule bit_word_eqI)
    fix i assume "i < LENGTH(64)"
    have "(0x1fffffff :: int) = mask 29" by (simp add: mask_eq_exp_minus_1)
    then have "bit (0x1fffffff :: int) i \<longleftrightarrow> i < 29" by (simp only: bit_mask_iff) simp
    then show "bit (drop_bit 35 v) i = bit (0x1fffffff :: u64) i"
      using bits[of "35 + i"] \<open>i < LENGTH(64)\<close> by (auto simp: bit_simps dest: bit_imp_le_length)
  qed
  moreover have "varint_bytes 0x1fffffff = [0xff, 0xff, 0xff, 0xff, 0x01]" by code_simp
  ultimately have tail: "varint_bytes (drop_bit 35 v) = [0xff, 0xff, 0xff, 0xff, 0x01]" by simp
  let ?p = "\<lambda>n. push_bit n (ucast (drop_bit n v AND 0x7f)) :: u32"
  have shift: "drop_bit 7 (drop_bit n v) = drop_bit (7 + n) v" for n by simp
  have step: "varint32_dec (7 * k) res (varint_bytes (drop_bit (7 * k) v) @ r) =
      varint32_dec (7 * Suc k) (res OR ?p (7 * k)) (varint_bytes (drop_bit (7 * Suc k) v) @ r)"
    if "k \<le> 4" for k res
    using varint32_step[OF that long[of "7 * k"], of res r] that by (simp only: shift mult_Suc_right)
  have "varint32_dec 7 (ucast (v AND 0x7f)) (varint_bytes (drop_bit 7 v) @ r) =
      varint32_dec 35 (ucast (v AND 0x7f) OR ?p 7 OR ?p 14 OR ?p 21 OR ?p 28) (varint_bytes (drop_bit 35 v) @ r)"
    using step[of 1] step[of 2] step[of 3] step[of 4] by (simp add: or.assoc)
  moreover have "ucast (v AND 0x7f) OR ?p 7 OR ?p 14 OR ?p 21 OR ?p 28 = ucast v"
  proof (rule bit_word_eqI)
    fix i assume "i < LENGTH(32)"
    then consider "i < 7" | "7 \<le> i" "i < 14" | "14 \<le> i" "i < 21" | "21 \<le> i" "i < 28" | "28 \<le> i" by linarith
    then show "bit (ucast (v AND 0x7f) OR ?p 7 OR ?p 14 OR ?p 21 OR ?p 28) i = bit (ucast v :: u32) i"
      using \<open>i < LENGTH(32)\<close> by cases (auto simp: bit_simps bit_literals)
  qed
  ultimately show ?thesis
    using decode32_long[of v r] long[of 0] tail decode32_sign_tail[of "ucast v" r] bits[of 31]
    by (simp add: bit_simps)
qed

text \<open>Both signs of an \<open>int32\<close>.\<close>

lemma decode32_signed: "decode32 (varint_bytes (scast (v :: u32)) @ r) = (Some v, r)"
proof -
  have down: "ucast (scast v :: u64) = v" by (rule bit_word_eqI) (auto simp: bit_simps)
  have s: "sint v < 2 ^ 31" "- (2 ^ 31) \<le> sint v" using sint_less[of v] sint_ge[of v] by simp_all
  have u: "uint (scast v :: u64) = take_bit 64 (sint v)"
    by (simp only: scast_eq uint_word_of_int take_bit_eq_mod) simp
  show ?thesis
  proof (cases "0 \<le> sint v")
    case True
    then have "uint (scast v :: u64) = sint v"
      unfolding u using s by (intro take_bit_int_eq_self) simp_all
    moreover have "sint v < 2 ^ 32" using s(1) by simp
    ultimately have "uint (scast v :: u64) < 2 ^ 32" by (simp only:)
    then have "unat (scast v :: u64) < 2 ^ 32" unfolding unat_eq_nat_uint by (subst nat_less_iff) simp_all
    from decode32_bytes[OF this] show ?thesis by (simp add: down)
  next
    case False
    note u
    also have "take_bit 64 (sint v) = take_bit 64 (sint v + 2 ^ 64)" unfolding take_bit_eq_mod by simp
    also have "\<dots> = sint v + 2 ^ 64" using False s by (intro take_bit_int_eq_self) simp_all
    finally have "uint (scast v :: u64) = sint v + 2 ^ 64" .
    moreover have "2 ^ 64 - 2 ^ 31 \<le> sint v + 2 ^ 64" using s(2) by simp
    ultimately have "2 ^ 64 - 2 ^ 31 \<le> uint (scast v :: u64)" by (simp only:)
    then have "2 ^ 64 - 2 ^ 31 \<le> unat (scast v :: u64)" unfolding unat_eq_nat_uint by (subst le_nat_iff) simp_all
    from decode32_negative[OF this] show ?thesis by (simp add: down)
  qed
qed

section \<open>Zigzag\<close>

definition unzigzag :: "u64 \<Rightarrow> i64" where
  "unzigzag value = (if value AND 1 \<noteq> 0 then ucast (NOT (drop_bit 1 value)) else ucast (drop_bit 1 value))"

lemma sint_neg_iff: "sint (v :: i64) < 0 \<longleftrightarrow> bit v 63"
  using bit_last_iff[of v] by simp

lemma and_1_iff: "(w :: u64) AND 1 = 0 \<longleftrightarrow> \<not> bit w 0"
  by (simp add: and_one_eq bit_0 even_iff_mod_2_eq_zero)

lemma unzigzag_zigzag [simp]: "unzigzag (zigzag v) = v"
proof (cases "bit v 63")
  case True
  then have "zigzag v = NOT (push_bit 1 v)" by (simp add: zigzag_def sint_neg_iff)
  moreover have "NOT (push_bit 1 v) AND 1 \<noteq> 0" unfolding and_1_iff by (simp add: bit_simps del: push_bit_Suc)
  moreover have "NOT (drop_bit 1 (NOT (push_bit 1 v))) = v"
  proof (rule bit_word_eqI)
    fix i assume "i < LENGTH(64)"
    then show "bit (NOT (drop_bit 1 (NOT (push_bit 1 v)))) i = bit v i"
      using True by (cases "i = 63") (auto simp: bit_simps simp del: push_bit_Suc)
  qed
  ultimately show ?thesis by (simp add: unzigzag_def)
next
  case False
  then have "zigzag v = push_bit 1 v" by (simp add: zigzag_def sint_neg_iff)
  moreover have "push_bit 1 v AND 1 = 0" unfolding and_1_iff by (simp add: bit_simps del: push_bit_Suc)
  moreover have "drop_bit 1 (push_bit 1 v) = v"
  proof (rule bit_word_eqI)
    fix i assume "i < LENGTH(64)"
    then show "bit (drop_bit 1 (push_bit 1 v)) i = bit v i"
      using False by (cases "i = 63") (auto simp: bit_simps simp del: push_bit_Suc)
  qed
  ultimately show ?thesis by (simp add: unzigzag_def)
qed

lemma zigzag_unzigzag [simp]: "zigzag (unzigzag w) = w"
proof -
  have b0: "w AND 1 \<noteq> 0 \<longleftrightarrow> bit w 0" by (simp add: and_1_iff)
  show ?thesis
  proof (cases "bit w 0")
    case True
    then have u: "unzigzag w = NOT (drop_bit 1 w)" by (simp add: unzigzag_def b0)
    have "bit (NOT (drop_bit 1 w)) 63" by (auto simp: bit_simps dest: bit_imp_le_length)
    then have "zigzag (unzigzag w) = NOT (push_bit 1 (NOT (drop_bit 1 w)))"
      by (simp add: u zigzag_def sint_neg_iff)
    also have "\<dots> = w"
    proof (rule bit_word_eqI)
      fix i assume "i < LENGTH(64)"
      then show "bit (NOT (push_bit 1 (NOT (drop_bit 1 w)))) i = bit w i"
        using True by (cases i) (auto simp: bit_simps simp del: push_bit_Suc)
    qed
    finally show ?thesis .
  next
    case False
    then have u: "unzigzag w = drop_bit 1 w" by (simp add: unzigzag_def b0)
    have "\<not> bit (drop_bit 1 w) 63" by (auto simp: bit_simps dest: bit_imp_le_length)
    then have "zigzag (unzigzag w) = push_bit 1 (drop_bit 1 w)" by (simp add: u zigzag_def sint_neg_iff)
    also have "\<dots> = w"
    proof (rule bit_word_eqI)
      fix i assume "i < LENGTH(64)"
      then show "bit (push_bit 1 (drop_bit 1 w)) i = bit w i"
        using False by (cases i) (auto simp: bit_simps simp del: push_bit_Suc)
    qed
    finally show ?thesis .
  qed
qed

lemma varint_dec_bytes: "varint_dec 0 0 (varint_bytes v @ r) = (Some v, r)"
  using varint_dec_iff[of 0 0 "varint_bytes v @ r" v r] varint_form_bytes[of v] length_varint_bytes_le[of v] by auto

lemma follows_svarint: "follows pb_decode_svarint (sbind (varint_dec 0 0) (\<lambda>v. ret (unzigzag v)))"
  unfolding pb_decode_svarint_def unzigzag_def by (intro follows_bind follows_varint follows_ret)

interpretation pb_svarint: prefix_codec "\<lambda>v. varint_bytes (zigzag v)" "on_bytes pb_decode_svarint" "\<lambda>_. True"
  by unfold_locales (simp add: on_bytes_eq[OF follows_svarint] varint_dec_bytes)

section \<open>Fixed widths\<close>

definition le32 :: "u8 list \<Rightarrow> u32" where
  "le32 bytes = ucast (bytes ! 0) OR push_bit 8 (ucast (bytes ! 1)) OR push_bit 16 (ucast (bytes ! 2)) OR
     push_bit 24 (ucast (bytes ! 3))"

definition le64 :: "u8 list \<Rightarrow> u64" where
  "le64 bytes = ucast (bytes ! 0) OR push_bit 8 (ucast (bytes ! 1)) OR push_bit 16 (ucast (bytes ! 2)) OR
     push_bit 24 (ucast (bytes ! 3)) OR push_bit 32 (ucast (bytes ! 4)) OR push_bit 40 (ucast (bytes ! 5)) OR
     push_bit 48 (ucast (bytes ! 6)) OR push_bit 56 (ucast (bytes ! 7))"

lemma follows_fixed32: "follows pb_decode_fixed32 (sbind (cbs_get 4) (\<lambda>bs. ret (le32 bs)))"
  unfolding pb_decode_fixed32_def le32_def by (intro follows_bind follows_read follows_ret)

lemma follows_fixed64: "follows pb_decode_fixed64 (sbind (cbs_get 8) (\<lambda>bs. ret (le64 bs)))"
  unfolding pb_decode_fixed64_def le64_def by (intro follows_bind follows_read follows_ret)

lemma nth_le_bytes: "i < n \<Longrightarrow> le_bytes n v ! i = ucast (drop_bit (8 * i) v)"
  by (simp add: le_bytes_def)

lemma le64_bytes [simp]: "le64 (le_bytes 8 v) = v"
proof (rule bit_word_eqI)
  fix i assume "i < LENGTH(64)"
  then consider "i < 8" | "8 \<le> i" "i < 16" | "16 \<le> i" "i < 24" | "24 \<le> i" "i < 32" | "32 \<le> i" "i < 40"
    | "40 \<le> i" "i < 48" | "48 \<le> i" "i < 56" | "56 \<le> i" by linarith
  then show "bit (le64 (le_bytes 8 v)) i = bit v i"
    using \<open>i < LENGTH(64)\<close> unfolding le64_def by cases (simp_all add: nth_le_bytes bit_simps less_diff_conv2)
qed

lemma le32_bytes [simp]: "le32 (le_bytes 4 (ucast v)) = v"
proof (rule bit_word_eqI)
  fix i assume "i < LENGTH(32)"
  then consider "i < 8" | "8 \<le> i" "i < 16" | "16 \<le> i" "i < 24" | "24 \<le> i" by linarith
  then show "bit (le32 (le_bytes 4 (ucast v))) i = bit v i"
    using \<open>i < LENGTH(32)\<close> unfolding le32_def by cases (simp_all add: nth_le_bytes bit_simps less_diff_conv2)
qed

interpretation pb_fixed32: prefix_codec "\<lambda>v. le_bytes 4 (ucast (v :: u32))" "on_bytes pb_decode_fixed32" "\<lambda>_. True"
  by unfold_locales (simp add: on_bytes_eq[OF follows_fixed32] sbind_def cbs_get_eq)

interpretation pb_fixed64: prefix_codec "le_bytes 8" "on_bytes pb_decode_fixed64" "\<lambda>_. True"
  by unfold_locales (simp add: on_bytes_eq[OF follows_fixed64] sbind_def cbs_get_eq)

lemma ucast_up_down_32: "ucast (ucast v :: u64) = (v :: u32)"
  by (rule bit_word_eqI) (auto simp: bit_simps)

interpretation pb_varint32: prefix_codec "\<lambda>v. varint_bytes (ucast (v :: u32))" "on_bytes pb_decode_varint32" "\<lambda>_. True"
proof unfold_locales
  fix v :: u32 and r
  have "unat (ucast v :: u64) = unat v" by (simp add: unsigned_ucast_eq take_bit_nat_eq_self order_less_le_trans[OF unsigned_less])
  then have "unat (ucast v :: u64) < 2 ^ 32" using unsigned_less[of v, where 'a = nat] by simp
  from decode32_bytes[OF this] show "on_bytes pb_decode_varint32 (varint_bytes (ucast v) @ r) = (Some v, r)"
    by (simp add: on_bytes_eq[OF follows_varint32] ucast_up_down_32)
qed

section \<open>Tags\<close>

definition tag_word :: "u32 \<Rightarrow> u32 \<Rightarrow> u64" where
  "tag_word wt n = push_bit 3 (ucast n) OR ucast wt"

lemma tag_word:
  assumes "unat wt < 2 ^ 3" and "unat n < 2 ^ 29"
  shows "unat (tag_word wt n) < 2 ^ 32" "(ucast (tag_word wt n) :: u32) AND 7 = wt"
    "drop_bit 3 (ucast (tag_word wt n) :: u32) = n"
proof -
  note wt = small_bits[OF assms(1)] and n = small_bits[OF assms(2)]
  have seven: "bit (7 :: int) i \<longleftrightarrow> i < 3" for i
  proof -
    have "(7 :: int) = mask 3" by (simp add: mask_eq_exp_minus_1)
    then show ?thesis by (simp only: bit_mask_iff) simp
  qed
  show "unat (tag_word wt n) < 2 ^ 32"
    by (rule bits_small) (auto simp: tag_word_def bit_simps dest: wt n)
  show "(ucast (tag_word wt n) :: u32) AND 7 = wt"
    by (rule bit_word_eqI) (auto simp: tag_word_def bit_simps seven dest: wt)
  show "drop_bit 3 (ucast (tag_word wt n) :: u32) = n"
    by (rule bit_word_eqI) (auto simp: tag_word_def bit_simps dest: wt n)
qed

lemma decode_tag_bytes:
  assumes "istream_ok st" and "in_view st = tag_bytes wt n @ r"
    and wt: "unat wt < 2 ^ 3" and n: "unat n < 2 ^ 29" and nz: "n \<noteq> 0 \<or> wt \<noteq> 0"
  obtains st' where "pb_decode_tag st = (True, wt, n, False, st')" "istream_ok st'" "in_view st' = r"
    "in_beyond st' = in_beyond st" "is_errmsg st' = is_errmsg st"
proof -
  have d: "decode32 (in_view st) = (Some (ucast (tag_word wt n)), r)"
    using decode32_bytes[OF tag_word(1)[OF wt n]] assms(2) by (simp add: tag_bytes_def tag_word_def)
  obtain x eof st' where run: "pb_decode_varint32_eof st = (x, eof, st')" by (cases "pb_decode_varint32_eof st") auto
  note v = varint32_eof_view[OF assms(1) run]
  have "ucast (tag_word wt n) \<noteq> (0 :: u32)" using tag_word(2,3)[OF wt n] nz by auto
  moreover have "in_view st \<noteq> []" using assms(2) by (simp add: tag_bytes_def)
  ultimately have "pb_decode_tag st = (True, wt, n, False, st')"
    using v d run tag_word(2,3)[OF wt n] by (auto simp: pb_decode_tag_def)
  with that v d show thesis by auto
qed

section \<open>Skipping\<close>

fun skip_varint_dec :: "(u8 list, unit) op" where
  "skip_varint_dec [] = (None, [])"
| "skip_varint_dec (b # s) = (if b AND 0x80 \<noteq> 0 then skip_varint_dec s else (Some (), s))"

definition skip_dec :: "u32 \<Rightarrow> (u8 list, unit) op" where
  "skip_dec wt =
     (if wt = PB_WT_VARINT then skip_varint_dec
      else if wt = PB_WT_64BIT then CBS_skip 8
      else if wt = PB_WT_STRING then sbind decode32 (\<lambda>len. CBS_skip (unat len))
      else if wt = PB_WT_32BIT then CBS_skip 4
      else fail)"

lemma follows_skip_varint: "follows pb_skip_varint skip_varint_dec"
proof (rule followsI)
  fix st :: "'s pb_istream" and r st'
  assume "istream_ok st" and "pb_skip_varint st = (r, st')"
  then show "istream_ok st' \<and> skip_varint_dec (in_view st) = (r, in_view st') \<and>
    in_beyond st' = in_beyond st \<and> (r = None \<or> is_errmsg st' = is_errmsg st)"
  proof (induction "in_view st" arbitrary: st)
    case Nil
    then obtain st1 where "pb_read 1 st = (None, st1)" "istream_ok st1" "in_view st1 = []" "in_beyond st1 = in_beyond st"
      using follows_run[OF follows_read Nil(2), of 1 None "[]"] by (auto simp: cbs_get_eq)
    with Nil show ?case by (subst (asm) pb_skip_varint.simps) auto
  next
    case (Cons b s)
    then obtain st1 where st1: "pb_read 1 st = (Some [b], st1)" "istream_ok st1" "in_view st1 = s"
      "in_beyond st1 = in_beyond st" "is_errmsg st1 = is_errmsg st"
      using follows_run[OF follows_read Cons(3), of 1 "Some [b]" s] by (auto simp: cbs_get_eq Cons(2)[symmetric])
    have "pb_skip_varint st = (if b AND 0x80 \<noteq> 0 then pb_skip_varint st1 else (Some (), st1))"
      by (subst pb_skip_varint.simps) (simp only: sbind_def st1(1) prod.case option.case list.sel ret_apply)
    with Cons(1)[OF st1(3)[symmetric] st1(2)] Cons(2)[symmetric] Cons(4) st1 show ?case
      by (auto split: if_splits)
  qed
qed

lemma follows_skip: "follows (pb_skip_field wt) (skip_dec wt)"
  unfolding pb_skip_field_def skip_dec_def pb_skip_string_def
  by (intro follows_if follows_skip_varint follows_read_null follows_bind follows_varint32 follows_error)

text \<open>The value of a field of each wire type.\<close>

definition payload :: "u32 \<Rightarrow> u8 list \<Rightarrow> bool" where
  "payload wt bs \<longleftrightarrow>
     (wt = PB_WT_VARINT \<and> varint_form bs) \<or> (wt = PB_WT_64BIT \<and> length bs = 8) \<or>
     (wt = PB_WT_STRING \<and> (\<exists>s. bs = string_bytes s \<and> length s < 2 ^ 32)) \<or> (wt = PB_WT_32BIT \<and> length bs = 4)"

lemma skip_varint_form: "varint_form bs \<Longrightarrow> skip_varint_dec (bs @ r) = (Some (), r)"
  by (induction bs) (auto split: if_splits)

lemma decode32_length:
  "length s < 2 ^ 32 \<Longrightarrow> decode32 (varint_bytes (of_nat (length s)) @ r) = (Some (of_nat (length s)), r)"
proof -
  assume l: "length s < 2 ^ 32"
  then have u: "unat (of_nat (length s) :: u64) = length s" by (simp add: unsigned_of_nat take_bit_nat_eq_self)
  with l have "unat (of_nat (length s) :: u64) < 2 ^ 32" by simp
  from decode32_bytes[OF this, of r] have "decode32 (varint_bytes (of_nat (length s)) @ r) =
      (Some (ucast (of_nat (length s) :: u64)), r)" .
  moreover have "ucast (of_nat (length s) :: u64) = (of_nat (length s) :: u32)"
    using l u by (simp add: word_unat_eq_iff unsigned_ucast_eq unsigned_of_nat take_bit_nat_eq_self)
  ultimately show ?thesis by simp
qed

lemma skip_payload: "payload wt bs \<Longrightarrow> skip_dec wt (bs @ r) = (Some (), r)"
  unfolding payload_def
proof (elim disjE conjE exE)
  fix s assume "wt = PB_WT_STRING" "bs = string_bytes s" and l: "length s < 2 ^ 32"
  moreover have "unat (of_nat (length s) :: u32) = length s" using l by (simp add: unsigned_of_nat take_bit_nat_eq_self)
  ultimately show ?thesis
    using decode32_length[OF l, of "s @ r"]
    by (simp add: skip_dec_def string_bytes_def sbind_def PB_WT_VARINT_def PB_WT_64BIT_def PB_WT_STRING_def)
qed (auto simp: skip_dec_def skip_varint_form PB_WT_VARINT_def PB_WT_64BIT_def PB_WT_STRING_def PB_WT_32BIT_def)

section \<open>Substreams\<close>

text \<open>
  An operation run on the contents of a length-delimited value: the substream is made, the
  operation reads some of it, and closing leaves the parent stream after the value.
\<close>

lemma make_substream_view:
  assumes "istream_ok st" and "decode32 (in_view st) = (Some n, s)" and "unat n \<le> length s"
  obtains sub st' where "pb_make_string_substream st = (Some sub, st')" "istream_ok sub"
    "in_view sub = take (unat n) s" "in_beyond sub = drop (unat n) s @ in_beyond st"
    "is_bytes_left st' = length s - unat n" "is_errmsg sub = is_errmsg st"
proof -
  obtain st1 where st1: "pb_decode_varint32 st = (Some n, st1)" "istream_ok st1" "in_view st1 = s"
    "in_beyond st1 = in_beyond st" "is_errmsg st1 = is_errmsg st"
    using follows_run[OF follows_varint32 assms(1,2)] by auto
  let ?sub = "st1\<lparr>is_bytes_left := unat n\<rparr>"
  have left: "is_bytes_left st1 = length s" using in_view_length[OF st1(2)] st1(3) by simp
  with st1 assms(3) have "pb_make_string_substream st = (Some ?sub, st1\<lparr>is_bytes_left := length s - unat n\<rparr>)"
    by (simp add: pb_make_string_substream_def)
  moreover have src: "source_bytes st1 = s @ in_beyond st"
    by (simp only: source_split st1)
  moreover have "source_bytes ?sub = source_bytes st1" by (simp add: source_bytes_def)
  moreover have "istream_ok ?sub" using st1(2) left assms(3) by (auto simp: istream_ok_def split: in_source.splits)
  ultimately show thesis using that[of ?sub] assms(3) st1(5) by (simp add: in_view_def in_beyond_def)
qed

lemma close_substream_view:
  assumes "istream_ok sub" and "in_beyond sub = d @ e" and "is_bytes_left st = length d"
  obtains st' where "pb_close_string_substream sub st = (Some (), st')" "istream_ok st'" "in_view st' = d"
    "in_beyond st' = e" "is_errmsg st' = is_errmsg sub"
proof -
  have "CBS_skip (is_bytes_left sub) (in_view sub) = (Some (), [])" using in_view_length[OF assms(1)] by simp
  from follows_run[OF follows_read_null assms(1) this] obtain sub' where sub':
    "pb_read_null (is_bytes_left sub) sub = (Some (), sub')" "istream_ok sub'" "in_view sub' = []"
    "in_beyond sub' = d @ e" "is_errmsg sub' = is_errmsg sub" using assms(2) by auto
  define end_sub where "end_sub = (if is_bytes_left sub = 0 then sub else sub')"
  have e: "istream_ok end_sub" "in_view end_sub = []" "in_beyond end_sub = d @ e" "is_errmsg end_sub = is_errmsg sub"
    using sub' assms(1,2) in_view_length[OF assms(1)] by (auto simp: end_sub_def)
  let ?st = "st\<lparr>is_source := is_source end_sub, is_errmsg := is_errmsg end_sub\<rparr>"
  have "pb_close_string_substream sub st = (Some (), ?st)"
    using sub'(1) by (simp add: pb_close_string_substream_def end_sub_def)
  moreover have "source_bytes ?st = source_bytes end_sub" by (simp add: source_bytes_def)
  then have "source_bytes ?st = d @ e" by (simp only: source_split[of end_sub] e append_Nil)
  moreover have "istream_ok ?st"
    using e(1) assms(3) \<open>source_bytes ?st = d @ e\<close>
    by (auto simp: istream_ok_def source_bytes_def split: in_source.splits)
  ultimately show thesis using that[of ?st] e(4) assms(3) by (simp add: in_view_def in_beyond_def)
qed

lemma substream_round:
  assumes "istream_ok st" and "in_view st = string_bytes s @ r" and "length s < 2 ^ 32" and "follows p d"
  obtains sub st1 st2 where "pb_make_string_substream st = (Some sub, st1)" "in_view sub = s"
    "pb_close_string_substream (snd (p sub)) st1 = (Some (), st2)"
    "istream_ok st2" "in_view st2 = r" "in_beyond st2 = in_beyond st"
proof -
  have n: "unat (of_nat (length s) :: u32) = length s" using assms(3) by (simp add: unsigned_of_nat take_bit_nat_eq_self)
  have d: "decode32 (in_view st) = (Some (of_nat (length s)), s @ r)"
    using decode32_length[OF assms(3), of "s @ r"] assms(2) by (simp add: string_bytes_def)
  obtain sub st1 where
    made: "pb_make_string_substream st = (Some sub, st1)" "istream_ok sub" "in_view sub = s"
      "in_beyond sub = r @ in_beyond st" "is_bytes_left st1 = length r"
    by (rule make_substream_view[OF assms(1) d]) (use n in auto)
  obtain v sub' where "p sub = (v, sub')" by (cases "p sub")
  with followsD[OF assms(4) made(2)] made(4) have sub': "snd (p sub) = sub'" "istream_ok sub'"
    "in_beyond sub' = r @ in_beyond st" by auto
  from close_substream_view[OF sub'(2,3) made(5)] that made(1,3) sub'(1) show thesis by metis
qed

section \<open>Inputs accepted by mistake\<close>

text \<open>
  \<open>bitpos\<close> is an eight-bit counter that the 32-bit decoder, unlike the 64-bit one, does not
  bound: after thirty-seven continuation bytes it has wrapped to three, and the next byte is
  put at bit three of the result.
\<close>

definition wrapped_varint :: "u8 list" where
  "wrapped_varint = replicate 37 0x80 @ [1]"

lemma decode32_wraps: "decode32 wrapped_varint = (Some 8, [])"
  unfolding wrapped_varint_def by code_simp

lemma varint_rejects_wrapped: "fst (varint_dec 0 0 wrapped_varint) = None"
  unfolding wrapped_varint_def by code_simp

text \<open>The byte at bit 28 is checked for bits beyond the 32nd only when it is the last one.\<close>

definition wide_varint :: "u8 list" where
  "wide_varint = [0x80, 0x80, 0x80, 0x80, 0xf0, 0]"

lemma decode32_truncates: "decode32 wide_varint = (Some 0, [])"
  unfolding wide_varint_def by code_simp

lemma varint_reads_wide: "varint_dec 0 0 wide_varint = (Some (7 * 2 ^ 32), [])"
  unfolding wide_varint_def by code_simp

end
