(* ===== verification/Pb_Fields.thy ===== *)
theory Pb_Fields
  imports Prelude
begin

text \<open>
  Messages in memory: \<open>pb_field_t\<close> and the type byte from \<open>pb.h\<close>, loads from a little-endian
  byte-addressed memory, and the field iterator of \<open>pb_common.c\<close>, built with
  \<open>PB_FIELD_32BIT\<close>. Addresses are 64-bit words. An array of descriptors is a list; beyond its
  end is the terminator \<open>PB_LAST_FIELD\<close>.
\<close>

section \<open>Memory\<close>

type_synonym addr = u64
type_synonym memory = "addr \<Rightarrow> u8"

fun load_bytes :: "memory \<Rightarrow> addr \<Rightarrow> nat \<Rightarrow> u8 list" where
  "load_bytes mem a 0 = []"
| "load_bytes mem a (Suc n) = mem a # load_bytes mem (a + 1) n"

lemma length_load_bytes [simp]: "length (load_bytes mem a n) = n"
  by (induction n arbitrary: a) auto

fun le_value :: "u8 list \<Rightarrow> u64" where
  "le_value [] = 0"
| "le_value (b # bs) = ucast b OR push_bit 8 (le_value bs)"

definition load8 :: "memory \<Rightarrow> addr \<Rightarrow> u8" where "load8 mem a = mem a"
definition load16 :: "memory \<Rightarrow> addr \<Rightarrow> u16" where "load16 mem a = ucast (le_value (load_bytes mem a 2))"
definition load32 :: "memory \<Rightarrow> addr \<Rightarrow> u32" where "load32 mem a = ucast (le_value (load_bytes mem a 4))"
definition load64 :: "memory \<Rightarrow> addr \<Rightarrow> u64" where "load64 mem a = le_value (load_bytes mem a 8)"

section \<open>Field types\<close>

type_synonym pb_type_t = u8
type_synonym pb_size_t = u32

definition PB_LTYPE_BOOL :: pb_type_t where "PB_LTYPE_BOOL = 0x00"
definition PB_LTYPE_VARINT :: pb_type_t where "PB_LTYPE_VARINT = 0x01"
definition PB_LTYPE_UVARINT :: pb_type_t where "PB_LTYPE_UVARINT = 0x02"
definition PB_LTYPE_SVARINT :: pb_type_t where "PB_LTYPE_SVARINT = 0x03"
definition PB_LTYPE_FIXED32 :: pb_type_t where "PB_LTYPE_FIXED32 = 0x04"
definition PB_LTYPE_FIXED64 :: pb_type_t where "PB_LTYPE_FIXED64 = 0x05"
definition PB_LTYPE_LAST_PACKABLE :: pb_type_t where "PB_LTYPE_LAST_PACKABLE = 0x05"
definition PB_LTYPE_BYTES :: pb_type_t where "PB_LTYPE_BYTES = 0x06"
definition PB_LTYPE_STRING :: pb_type_t where "PB_LTYPE_STRING = 0x07"
definition PB_LTYPE_SUBMESSAGE :: pb_type_t where "PB_LTYPE_SUBMESSAGE = 0x08"
definition PB_LTYPE_EXTENSION :: pb_type_t where "PB_LTYPE_EXTENSION = 0x09"
definition PB_LTYPE_FIXED_LENGTH_BYTES :: pb_type_t where "PB_LTYPE_FIXED_LENGTH_BYTES = 0x0a"
definition PB_HTYPE_REQUIRED :: pb_type_t where "PB_HTYPE_REQUIRED = 0x00"
definition PB_HTYPE_OPTIONAL :: pb_type_t where "PB_HTYPE_OPTIONAL = 0x10"
definition PB_HTYPE_REPEATED :: pb_type_t where "PB_HTYPE_REPEATED = 0x20"
definition PB_HTYPE_ONEOF :: pb_type_t where "PB_HTYPE_ONEOF = 0x30"
definition PB_ATYPE_STATIC :: pb_type_t where "PB_ATYPE_STATIC = 0x00"
definition PB_ATYPE_POINTER :: pb_type_t where "PB_ATYPE_POINTER = 0x80"
definition PB_ATYPE_CALLBACK :: pb_type_t where "PB_ATYPE_CALLBACK = 0x40"

lemmas pb_types = PB_LTYPE_BOOL_def PB_LTYPE_VARINT_def PB_LTYPE_UVARINT_def PB_LTYPE_SVARINT_def
  PB_LTYPE_FIXED32_def PB_LTYPE_FIXED64_def PB_LTYPE_LAST_PACKABLE_def PB_LTYPE_BYTES_def
  PB_LTYPE_STRING_def PB_LTYPE_SUBMESSAGE_def PB_LTYPE_EXTENSION_def PB_LTYPE_FIXED_LENGTH_BYTES_def
  PB_HTYPE_REQUIRED_def PB_HTYPE_OPTIONAL_def PB_HTYPE_REPEATED_def PB_HTYPE_ONEOF_def
  PB_ATYPE_STATIC_def PB_ATYPE_POINTER_def PB_ATYPE_CALLBACK_def

definition PB_ATYPE :: "pb_type_t \<Rightarrow> pb_type_t" where "PB_ATYPE x = x AND 0xc0"
definition PB_HTYPE :: "pb_type_t \<Rightarrow> pb_type_t" where "PB_HTYPE x = x AND 0x30"
definition PB_LTYPE :: "pb_type_t \<Rightarrow> pb_type_t" where "PB_LTYPE x = x AND 0x0f"

definition PB_SIZE_MAX :: pb_size_t where "PB_SIZE_MAX = - 1"

section \<open>Descriptors and the iterator\<close>

text \<open>\<open>size_offset\<close> is a signed word; \<open>ptr\<close> is an address, zero for a null pointer.\<close>

record pb_field =
  pf_tag :: pb_size_t
  pf_type :: pb_type_t
  pf_data_offset :: pb_size_t
  pf_size_offset :: "32 word"
  pf_data_size :: pb_size_t
  pf_array_size :: pb_size_t
  pf_ptr :: addr

definition PB_LAST_FIELD :: pb_field where
  "PB_LAST_FIELD = \<lparr>pf_tag = 0, pf_type = 0, pf_data_offset = 0, pf_size_offset = 0, pf_data_size = 0,
     pf_array_size = 0, pf_ptr = 0\<rparr>"

definition field_at :: "pb_field list \<Rightarrow> nat \<Rightarrow> pb_field" where
  "field_at fs i = (if i < length fs then fs ! i else PB_LAST_FIELD)"

text \<open>\<open>start\<close> and \<open>pos\<close> of the iterator are the array and an index into it.\<close>

record pb_field_iter =
  it_start :: "pb_field list"
  it_pos :: nat
  it_required_field_index :: u32
  it_dest_struct :: addr
  it_pData :: addr
  it_pSize :: addr

abbreviation it_field :: "pb_field_iter \<Rightarrow> pb_field" where
  "it_field it \<equiv> field_at (it_start it) (it_pos it)"

definition pb_field_iter_begin :: "pb_field list \<Rightarrow> addr \<Rightarrow> bool \<times> pb_field_iter" where
  "pb_field_iter_begin fs dest_struct =
     (let pos = field_at fs 0;
          pData = (if dest_struct = 0 then 0 else dest_struct + ucast (pf_data_offset pos));
          pSize = (if dest_struct = 0 then 0 else pData + scast (pf_size_offset pos))
      in (pf_tag pos \<noteq> 0,
          \<lparr>it_start = fs, it_pos = 0, it_required_field_index = 0, it_dest_struct = dest_struct,
           it_pData = pData, it_pSize = pSize\<rparr>))"

definition pb_field_iter_next :: "pb_field_iter \<Rightarrow> bool \<times> pb_field_iter" where
  "pb_field_iter_next it =
     (let prev_field = it_field it in
      if pf_tag prev_field = 0 then (False, it)
      else let it = it\<lparr>it_pos := it_pos it + 1\<rparr>; pos = it_field it in
      if pf_tag pos = 0 then (False, snd (pb_field_iter_begin (it_start it) (it_dest_struct it)))
      else if PB_HTYPE (pf_type prev_field) = PB_HTYPE_ONEOF \<and> PB_HTYPE (pf_type pos) = PB_HTYPE_ONEOF \<and>
          pf_data_offset pos = PB_SIZE_MAX
        then (True, it)
      else
        let prev_size =
              (if PB_ATYPE (pf_type prev_field) = PB_ATYPE_STATIC \<and> PB_HTYPE (pf_type prev_field) = PB_HTYPE_REPEATED
               then ucast (pf_data_size prev_field) * ucast (pf_array_size prev_field)
               else if PB_ATYPE (pf_type prev_field) = PB_ATYPE_POINTER then 8
               else ucast (pf_data_size prev_field));
            pData = it_pData it + prev_size + ucast (pf_data_offset pos)
        in (True, it\<lparr>
             it_required_field_index := (if PB_HTYPE (pf_type prev_field) = PB_HTYPE_REQUIRED
               then it_required_field_index it + 1 else it_required_field_index it),
             it_pData := pData, it_pSize := pData + scast (pf_size_offset pos)\<rparr>))"

lemma iter_next_True: "pb_field_iter_next it = (True, it') \<Longrightarrow>
    it_start it' = it_start it \<and> it_pos it' = Suc (it_pos it) \<and> it_pos it' < length (it_start it)"
  by (auto simp: pb_field_iter_next_def Let_def field_at_def PB_LAST_FIELD_def split: if_splits)

lemma iter_next_measure: "(True, it') = pb_field_iter_next it \<Longrightarrow>
    length (it_start it') - it_pos it' < length (it_start it) - it_pos it"
  using iter_next_True[of it it'] by (metis diff_less_mono2 lessI less_trans)

text \<open>The loop stops when it is back at \<open>start\<close>: one round is at most one step per descriptor.\<close>

fun iter_find_loop :: "nat \<Rightarrow> nat \<Rightarrow> (pb_field \<Rightarrow> bool) \<Rightarrow> pb_field_iter \<Rightarrow> bool \<times> pb_field_iter" where
  "iter_find_loop 0 start wanted it = (False, it)"
| "iter_find_loop (Suc n) start wanted it =
     (if wanted (it_field it) then (True, it)
      else let it' = snd (pb_field_iter_next it) in
        if it_pos it' \<noteq> start then iter_find_loop n start wanted it' else (False, it'))"

definition pb_field_iter_find :: "pb_field_iter \<Rightarrow> u32 \<Rightarrow> bool \<times> pb_field_iter" where
  "pb_field_iter_find it tag = iter_find_loop (Suc (length (it_start it))) (it_pos it)
     (\<lambda>pos. pf_tag pos = tag \<and> PB_LTYPE (pf_type pos) \<noteq> PB_LTYPE_EXTENSION) it"

section \<open>Walking the descriptors\<close>

text \<open>The iterator at each position, starting from the first descriptor.\<close>

fun iter_at :: "pb_field list \<Rightarrow> addr \<Rightarrow> nat \<Rightarrow> pb_field_iter" where
  "iter_at fs dest 0 = snd (pb_field_iter_begin fs dest)"
| "iter_at fs dest (Suc k) = snd (pb_field_iter_next (iter_at fs dest k))"

definition fields_ok :: "pb_field list \<Rightarrow> bool" where
  "fields_ok fs \<longleftrightarrow> fs \<noteq> [] \<and> (\<forall>f\<in>set fs. pf_tag f \<noteq> 0)"

lemma field_at_tag: "fields_ok fs \<Longrightarrow> pf_tag (field_at fs k) = 0 \<longleftrightarrow> length fs \<le> k"
  by (auto simp: fields_ok_def field_at_def PB_LAST_FIELD_def)

lemma iter_begin_simps [simp]:
  "it_start (snd (pb_field_iter_begin fs dest)) = fs" "it_pos (snd (pb_field_iter_begin fs dest)) = 0"
  "it_dest_struct (snd (pb_field_iter_begin fs dest)) = dest"
  "fst (pb_field_iter_begin fs dest) = (pf_tag (field_at fs 0) \<noteq> 0)"
  by (simp_all add: pb_field_iter_begin_def Let_def)

lemma iter_next_cases:
  assumes "fields_ok (it_start it)" and "it_pos it < length (it_start it)"
  shows "Suc (it_pos it) < length (it_start it) \<Longrightarrow> fst (pb_field_iter_next it) \<and>
      it_start (snd (pb_field_iter_next it)) = it_start it \<and> it_pos (snd (pb_field_iter_next it)) = Suc (it_pos it) \<and>
      it_dest_struct (snd (pb_field_iter_next it)) = it_dest_struct it"
    and "\<not> Suc (it_pos it) < length (it_start it) \<Longrightarrow>
      pb_field_iter_next it = (False, snd (pb_field_iter_begin (it_start it) (it_dest_struct it)))"
  using assms by (simp_all add: pb_field_iter_next_def Let_def field_at_tag)

lemma iter_at_pos:
  "fields_ok fs \<Longrightarrow> k < length fs \<Longrightarrow>
   it_start (iter_at fs dest k) = fs \<and> it_pos (iter_at fs dest k) = k \<and> it_dest_struct (iter_at fs dest k) = dest"
proof (induction k)
  case (Suc k)
  with iter_next_cases(1)[of "iter_at fs dest k"] show ?case by simp
qed simp

text \<open>Every iterator that the two operations produce is the one of its position: where its
  pointers are depends on the descriptors before it and on nothing else.\<close>

inductive iterator :: "pb_field list \<Rightarrow> addr \<Rightarrow> pb_field_iter \<Rightarrow> bool" for fs dest where
  started: "iterator fs dest (snd (pb_field_iter_begin fs dest))"
| advanced: "iterator fs dest it \<Longrightarrow> iterator fs dest (snd (pb_field_iter_next it))"

inductive_cases iteratorE: "iterator fs dest it"

lemma iterator_at:
  assumes "iterator fs dest it" and "fields_ok fs"
  shows "it_pos it < length fs \<and> it = iter_at fs dest (it_pos it)"
  using assms
proof (induction rule: iterator.induct)
  case started
  then show ?case by (simp add: fields_ok_def)
next
  case (advanced it)
  then have it: "it_pos it < length fs" "it = iter_at fs dest (it_pos it)" by auto
  note p = iter_at_pos[OF advanced.prems it(1), of dest]
  have here: "it_start it = fs" "it_dest_struct it = dest" using it(2) p by metis+
  show ?case
  proof (cases "Suc (it_pos it) < length fs")
    case True
    then have "it_pos (snd (pb_field_iter_next it)) = Suc (it_pos it)"
      using iter_next_cases(1)[of it] here it(1) advanced.prems by simp
    moreover have "snd (pb_field_iter_next it) = iter_at fs dest (Suc (it_pos it))"
      using it(2) by simp
    ultimately show ?thesis using True by metis
  next
    case False
    then show ?thesis using iter_next_cases(2)[of it] here it(1) advanced.prems
      by (simp add: fields_ok_def)
  qed
qed

lemma iterator_iter_at: "iterator fs dest (iter_at fs dest k)"
  by (induction k) (auto intro: iterator.intros)

lemma iterator_start: "iterator fs dest it \<Longrightarrow> fields_ok fs \<Longrightarrow> it_start it = fs \<and> it_dest_struct it = dest"
  using iterator_at iter_at_pos by metis

text \<open>The search goes once round, and a search that fails ends where it began.\<close>

definition round_pos :: "nat \<Rightarrow> nat \<Rightarrow> nat \<Rightarrow> nat" where
  "round_pos n start k = (start + k) mod n"

lemma round_pos_less: "start < n \<Longrightarrow> round_pos n start k < n"
  unfolding round_pos_def by (rule mod_less_divisor) linarith

lemma iter_next_round:
  assumes "fields_ok fs" and "iterator fs dest it"
  shows "snd (pb_field_iter_next it) = iter_at fs dest (Suc (it_pos it) mod length fs)"
proof -
  note at = iterator_at[OF assms(2,1)] and here = iterator_start[OF assms(2,1)]
  show ?thesis
  proof (cases "Suc (it_pos it) < length fs")
    case True
    then show ?thesis using at by (metis iter_at.simps(2) mod_less)
  next
    case False
    then have "Suc (it_pos it) mod length fs = 0" using at by (simp add: not_less_eq le_antisym Suc_le_eq less_Suc_eq)
    then show ?thesis using iter_next_cases(2)[of it] at here assms(1) False by simp
  qed
qed

lemma iter_find_loop_round:
  assumes ok: "fields_ok fs" and start: "start < length fs"
  shows "k < length fs \<Longrightarrow> length fs \<le> k + n \<Longrightarrow> \<forall>j<k. \<not> wanted (field_at fs (round_pos (length fs) start j)) \<Longrightarrow>
    (case iter_find_loop n start wanted (iter_at fs dest (round_pos (length fs) start k)) of
       (True, it') \<Rightarrow> (\<exists>j<length fs. it' = iter_at fs dest (round_pos (length fs) start j) \<and>
          wanted (field_at fs (round_pos (length fs) start j)) \<and>
          (\<forall>i<j. \<not> wanted (field_at fs (round_pos (length fs) start i))))
     | (False, it') \<Rightarrow> it' = iter_at fs dest start \<and> (\<forall>j<length fs. \<not> wanted (field_at fs (round_pos (length fs) start j))))"
proof (induction n arbitrary: k)
  case (Suc n)
  let ?p = "round_pos (length fs) start" and ?it = "iter_at fs dest (round_pos (length fs) start k)"
  have p: "?p j < length fs" for j by (rule round_pos_less[OF start])
  have here: "it_start ?it = fs" "it_pos ?it = ?p k" using iter_at_pos[OF ok p] by auto
  show ?case
  proof (cases "wanted (field_at fs (?p k))")
    case True
    then show ?thesis using Suc.prems(1,3) here by (auto intro!: exI[of _ k])
  next
    case False
    have next_it: "snd (pb_field_iter_next ?it) = iter_at fs dest (?p (Suc k))"
      using iter_next_round[OF ok iterator_iter_at[of fs dest "?p k"]] here
      by (simp add: round_pos_def mod_Suc_eq)
    have next_pos: "it_pos (iter_at fs dest (?p (Suc k))) = ?p (Suc k)" using iter_at_pos[OF ok p] by simp
    have none: "\<forall>j<Suc k. \<not> wanted (field_at fs (?p j))" using Suc.prems(3) False less_Suc_eq by auto
    show ?thesis
    proof (cases "Suc k = length fs")
      case True
      then have "?p (Suc k) = start" using start by (simp add: round_pos_def)
      with False here next_it next_pos none True show ?thesis by (simp add: Let_def)
    next
      case False
      then have k: "Suc k < length fs" using Suc.prems(1) by simp
      have ne: "?p (Suc k) \<noteq> start"
      proof
        assume "?p (Suc k) = start"
        then have "(start + Suc k) mod length fs = start mod length fs" using start by (simp add: round_pos_def)
        then have "length fs dvd Suc k" by (metis add.commute mod_eq_dvd_iff_nat le_add1 add_diff_cancel_left')
        with k show False by (auto dest: dvd_imp_le)
      qed
      have "length fs \<le> Suc k + n" using Suc.prems(2) by simp
      from Suc.IH[OF k this none] show ?thesis
        using \<open>\<not> wanted (field_at fs (?p k))\<close> here next_it next_pos ne by (simp add: Let_def)
    qed
  qed
qed simp

lemma round_pos_onto: "start < n \<Longrightarrow> i < n \<Longrightarrow> \<exists>j<n. round_pos n start j = i"
  by (rule exI[of _ "(i + n - start) mod n"]) (simp add: round_pos_def mod_simps)

lemma pb_field_iter_find_spec:
  assumes "fields_ok fs" and "iterator fs dest it"
  shows "case pb_field_iter_find it tag of
      (True, it') \<Rightarrow> iterator fs dest it' \<and> pf_tag (it_field it') = tag \<and> PB_LTYPE (pf_type (it_field it')) \<noteq> PB_LTYPE_EXTENSION
    | (False, it') \<Rightarrow> it' = it \<and> (\<forall>f\<in>set fs. pf_tag f = tag \<longrightarrow> PB_LTYPE (pf_type f) = PB_LTYPE_EXTENSION)"
proof -
  note at = iterator_at[OF assms(2,1)] and here = iterator_start[OF assms(2,1)]
  let ?w = "\<lambda>pos. pf_tag pos = tag \<and> PB_LTYPE (pf_type pos) \<noteq> PB_LTYPE_EXTENSION"
  let ?p = "round_pos (length fs) (it_pos it)"
  have p: "?p j < length fs" for j using at round_pos_less by simp
  have "iter_at fs dest (?p 0) = it" using at by (simp add: round_pos_def)
  then have find: "pb_field_iter_find it tag = iter_find_loop (Suc (length fs)) (it_pos it) ?w (iter_at fs dest (?p 0))"
    using here by (simp add: pb_field_iter_find_def)
  have fs: "0 < length fs" using at by linarith
  have r: "case pb_field_iter_find it tag of
      (True, it') \<Rightarrow> (\<exists>j<length fs. it' = iter_at fs dest (?p j) \<and> ?w (field_at fs (?p j)) \<and>
        (\<forall>i<j. \<not> ?w (field_at fs (?p i))))
    | (False, it') \<Rightarrow> it' = iter_at fs dest (it_pos it) \<and> (\<forall>j<length fs. \<not> ?w (field_at fs (?p j)))"
    unfolding find by (rule iter_find_loop_round[OF assms(1) _ fs]) (use at in simp_all)
  show ?thesis
  proof (cases "pb_field_iter_find it tag")
    case (Pair found it')
    show ?thesis
    proof (cases found)
      case True
      with r Pair obtain j where "it' = iter_at fs dest (?p j)" "?w (field_at fs (?p j))" by auto
      with iter_at_pos[OF assms(1) p] Pair True show ?thesis by (simp add: iterator_iter_at)
    next
      case False
      with r Pair have it': "it' = it" and none: "\<forall>j<length fs. \<not> ?w (field_at fs (?p j))" using at by auto
      have "\<not> ?w f" if f: "f \<in> set fs" for f
      proof -
        obtain i where i: "i < length fs" "f = fs ! i" using f by (metis in_set_conv_nth)
        obtain j where "j < length fs" "?p j = i" using round_pos_onto[of "it_pos it" "length fs" i] at i by auto
        with none i show ?thesis by (metis field_at_def)
      qed
      with it' Pair False show ?thesis by auto
    qed
  qed
qed

end
