(* ===== verification/Pb_Encode.thy ===== *)
theory Pb_Encode
  imports Pb_Codec Pb_Fields
begin

text \<open>
  The field and message encoders of \<open>pb_encode.c\<close>. Messages lie in memory and are described by
  arrays of descriptors, which point to the arrays of their submessages: the encoder recurses
  through both, so it takes the depth it may go as a number. Callback functions, which belong to
  the caller, are parameters.
\<close>

section \<open>Reading a message\<close>

record 's pb_env =
  env_mem :: memory
  env_descr :: "addr \<Rightarrow> pb_field list"
  env_encode :: "addr \<Rightarrow> pb_field \<Rightarrow> addr \<Rightarrow> ('s pb_ostream, unit) op"
  env_ext_encode :: "addr \<Rightarrow> addr \<Rightarrow> ('s pb_ostream, unit) op"

definition safe_read_bool :: "memory \<Rightarrow> addr \<Rightarrow> bool" where
  "safe_read_bool mem p \<longleftrightarrow> load8 mem p \<noteq> 0"

definition load_signed :: "memory \<Rightarrow> pb_field \<Rightarrow> addr \<Rightarrow> i64 option" where
  "load_signed mem field src =
     (if pf_data_size field = 1 then Some (scast (load8 mem src))
      else if pf_data_size field = 2 then Some (scast (load16 mem src))
      else if pf_data_size field = 4 then Some (scast (load32 mem src))
      else if pf_data_size field = 8 then Some (load64 mem src)
      else None)"

definition load_unsigned :: "memory \<Rightarrow> pb_field \<Rightarrow> addr \<Rightarrow> u64 option" where
  "load_unsigned mem field src =
     (if pf_data_size field = 1 then Some (ucast (load8 mem src))
      else if pf_data_size field = 2 then Some (ucast (load16 mem src))
      else if pf_data_size field = 4 then Some (ucast (load32 mem src))
      else if pf_data_size field = 8 then Some (load64 mem src)
      else None)"

text \<open>A walk over the fields of a message, while \<open>chk\<close> holds.\<close>

function all_fields :: "(pb_field \<Rightarrow> addr \<Rightarrow> bool) \<Rightarrow> pb_field_iter \<Rightarrow> bool" where
  "all_fields chk it =
     (if \<not> chk (it_field it) (it_pData it) then False
      else case pb_field_iter_next it of (True, it') \<Rightarrow> all_fields chk it' | (False, _) \<Rightarrow> True)"
  by pat_completeness auto
termination by (relation "measure (\<lambda>(_, it). length (it_start it) - it_pos it)") (auto dest: iter_next_measure)

declare all_fields.simps [simp del]

primrec pb_check_proto3_default_value ::
  "nat \<Rightarrow> memory \<Rightarrow> (addr \<Rightarrow> pb_field list) \<Rightarrow> pb_field \<Rightarrow> addr \<Rightarrow> bool" where
  "pb_check_proto3_default_value 0 mem descr field pData = False"
| "pb_check_proto3_default_value (Suc n) mem descr field pData =
     (let htype = PB_HTYPE (pf_type field); atype = PB_ATYPE (pf_type field); ltype = PB_LTYPE (pf_type field);
          pSize = pData + scast (pf_size_offset field)
      in if htype = PB_HTYPE_REQUIRED then False
      else if htype = PB_HTYPE_REPEATED \<and> pf_size_offset field \<noteq> 0 then load32 mem pSize = 0
      else if htype = PB_HTYPE_REPEATED \<and> atype = PB_ATYPE_STATIC then False
      else if htype = PB_HTYPE_ONEOF then load32 mem pSize = 0
      else if htype = PB_HTYPE_OPTIONAL \<and> pf_size_offset field \<noteq> 0 then \<not> safe_read_bool mem pSize
      else if atype = PB_ATYPE_STATIC \<and> ltype = PB_LTYPE_BYTES then load32 mem pData = 0
      else if atype = PB_ATYPE_STATIC \<and> ltype = PB_LTYPE_STRING then load8 mem pData = 0
      else if atype = PB_ATYPE_STATIC \<and> ltype = PB_LTYPE_FIXED_LENGTH_BYTES then pf_data_size field = 0
      else if atype = PB_ATYPE_STATIC \<and> ltype = PB_LTYPE_SUBMESSAGE then
        (case pb_field_iter_begin (descr (pf_ptr field)) pData of
           (True, it) \<Rightarrow> all_fields (pb_check_proto3_default_value n mem descr) it
         | (False, _) \<Rightarrow> True)
      else if atype = PB_ATYPE_POINTER \<and> ltype > PB_LTYPE_LAST_PACKABLE then load64 mem pData = 0
      else list_all (\<lambda>b. b = 0) (load_bytes mem pData (unat (pf_data_size field))))"

section \<open>Field encoders\<close>

definition pb_enc_bool :: "'s pb_env \<Rightarrow> pb_field \<Rightarrow> addr \<Rightarrow> ('s pb_ostream, unit) op" where
  "pb_enc_bool env field src = pb_encode_varint (if safe_read_bool (env_mem env) src then 1 else 0)"

definition pb_enc_varint :: "'s pb_env \<Rightarrow> pb_field \<Rightarrow> addr \<Rightarrow> ('s pb_ostream, unit) op" where
  "pb_enc_varint env field src =
     (case load_signed (env_mem env) field src of
        None \<Rightarrow> os_error ''invalid data_size'' | Some value \<Rightarrow> pb_encode_varint value)"

definition pb_enc_uvarint :: "'s pb_env \<Rightarrow> pb_field \<Rightarrow> addr \<Rightarrow> ('s pb_ostream, unit) op" where
  "pb_enc_uvarint env field src =
     (case load_unsigned (env_mem env) field src of
        None \<Rightarrow> os_error ''invalid data_size'' | Some value \<Rightarrow> pb_encode_varint value)"

definition pb_enc_svarint :: "'s pb_env \<Rightarrow> pb_field \<Rightarrow> addr \<Rightarrow> ('s pb_ostream, unit) op" where
  "pb_enc_svarint env field src =
     (case load_signed (env_mem env) field src of
        None \<Rightarrow> os_error ''invalid data_size'' | Some value \<Rightarrow> pb_encode_svarint value)"

definition pb_enc_fixed32 :: "'s pb_env \<Rightarrow> pb_field \<Rightarrow> addr \<Rightarrow> ('s pb_ostream, unit) op" where
  "pb_enc_fixed32 env field src = pb_encode_fixed32 (load32 (env_mem env) src)"

definition pb_enc_fixed64 :: "'s pb_env \<Rightarrow> pb_field \<Rightarrow> addr \<Rightarrow> ('s pb_ostream, unit) op" where
  "pb_enc_fixed64 env field src = pb_encode_fixed64 (load64 (env_mem env) src)"

text \<open>\<open>pb_bytes_array_t\<close>: a 32-bit size, then the bytes at offset four.\<close>

definition pb_enc_bytes :: "'s pb_env \<Rightarrow> pb_field \<Rightarrow> addr \<Rightarrow> ('s pb_ostream, unit) op" where
  "pb_enc_bytes env field src =
     (if src = 0 then pb_encode_string [] 0
      else let len = load32 (env_mem env) src in
        if PB_ATYPE (pf_type field) = PB_ATYPE_STATIC \<and> (ucast len :: u64) > ucast (pf_data_size field) - 4
        then os_error ''bytes size exceeded''
        else pb_encode_string (load_bytes (env_mem env) (src + 4) (unat len)) (unat len))"

function string_length :: "memory \<Rightarrow> addr \<Rightarrow> nat \<Rightarrow> nat \<Rightarrow> nat" where
  "string_length mem p len max_size =
     (if len < max_size \<and> load8 mem p \<noteq> 0 then string_length mem (p + 1) (Suc len) max_size else len)"
  by pat_completeness auto
termination by (relation "measure (\<lambda>(_, _, len, max_size). max_size - len)") auto

declare string_length.simps [simp del]

definition pb_enc_string :: "'s pb_env \<Rightarrow> pb_field \<Rightarrow> addr \<Rightarrow> ('s pb_ostream, unit) op" where
  "pb_enc_string env field src =
     (let max_size = (if PB_ATYPE (pf_type field) = PB_ATYPE_POINTER then SIZE_MOD - 1 else unat (pf_data_size field));
          len = (if src = 0 then 0 else string_length (env_mem env) src 0 max_size)
      in pb_encode_string (load_bytes (env_mem env) src len) len)"

definition pb_enc_fixed_length_bytes :: "'s pb_env \<Rightarrow> pb_field \<Rightarrow> addr \<Rightarrow> ('s pb_ostream, unit) op" where
  "pb_enc_fixed_length_bytes env field src =
     (let len = unat (pf_data_size field) in pb_encode_string (load_bytes (env_mem env) src len) len)"

text \<open>\<open>encode\<close> is \<open>pb_encode\<close> on the descriptors and the address of the submessage. The second
  half of \<open>pb_encode_submessage\<close>, after the size \<open>n\<close> has been written.\<close>

definition write_submessage :: "('s pb_ostream, unit) op \<Rightarrow> nat \<Rightarrow> ('s pb_ostream, unit) op" where
  "write_submessage encode n st =
     (if os_callback st = None then pb_write [] n st
      else if (os_bytes_written st + n) mod SIZE_MOD > os_max_size st then os_error ''stream full'' st
      else case encode \<lparr>os_callback = os_callback st, os_state = os_state st, os_max_size = n,
          os_bytes_written = 0, os_errmsg = None\<rparr> of (status, substream) \<Rightarrow>
        let st = st\<lparr>os_bytes_written := (os_bytes_written st + os_bytes_written substream) mod SIZE_MOD,
                    os_state := os_state substream, os_errmsg := os_errmsg substream\<rparr>
        in if os_bytes_written substream \<noteq> n then os_error ''submsg size changed'' st else (status, st))"

definition pb_encode_submessage :: "('s pb_ostream, unit) op \<Rightarrow> ('s pb_ostream, unit) op" where
  "pb_encode_submessage encode st =
     (case encode (PB_OSTREAM_SIZING (os_state st)) of
        (None, substream) \<Rightarrow> (None, st\<lparr>os_errmsg := os_errmsg substream\<rparr>)
      | (Some _, substream) \<Rightarrow>
          let n = os_bytes_written substream
          in sbind (pb_encode_varint (of_nat n)) (\<lambda>_. write_submessage encode n) st)"

definition pb_enc_submessage ::
  "'s pb_env \<Rightarrow> (pb_field list \<Rightarrow> addr \<Rightarrow> ('s pb_ostream, unit) op) \<Rightarrow> pb_field \<Rightarrow> addr \<Rightarrow> ('s pb_ostream, unit) op" where
  "pb_enc_submessage env encode field src =
     (if pf_ptr field = 0 then os_error ''invalid field descriptor''
      else pb_encode_submessage (encode (env_descr env (pf_ptr field)) src))"

text \<open>The table \<open>PB_ENCODERS\<close>. A call through its null entry, or beyond its end, crashes; here
  it fails.\<close>

definition PB_ENCODERS ::
  "'s pb_env \<Rightarrow> (pb_field list \<Rightarrow> addr \<Rightarrow> ('s pb_ostream, unit) op) \<Rightarrow> pb_type_t \<Rightarrow>
   pb_field \<Rightarrow> addr \<Rightarrow> ('s pb_ostream, unit) op" where
  "PB_ENCODERS env encode ltype =
     (if ltype = PB_LTYPE_BOOL then pb_enc_bool env
      else if ltype = PB_LTYPE_VARINT then pb_enc_varint env
      else if ltype = PB_LTYPE_UVARINT then pb_enc_uvarint env
      else if ltype = PB_LTYPE_SVARINT then pb_enc_svarint env
      else if ltype = PB_LTYPE_FIXED32 then pb_enc_fixed32 env
      else if ltype = PB_LTYPE_FIXED64 then pb_enc_fixed64 env
      else if ltype = PB_LTYPE_BYTES then pb_enc_bytes env
      else if ltype = PB_LTYPE_STRING then pb_enc_string env
      else if ltype = PB_LTYPE_SUBMESSAGE then pb_enc_submessage env encode
      else if ltype = PB_LTYPE_FIXED_LENGTH_BYTES then pb_enc_fixed_length_bytes env
      else (\<lambda>_ _. fail))"

section \<open>Fields\<close>

definition wire_type_of :: "pb_type_t \<Rightarrow> u32 option" where
  "wire_type_of ltype =
     (if ltype \<in> {PB_LTYPE_BOOL, PB_LTYPE_VARINT, PB_LTYPE_UVARINT, PB_LTYPE_SVARINT} then Some PB_WT_VARINT
      else if ltype = PB_LTYPE_FIXED32 then Some PB_WT_32BIT
      else if ltype = PB_LTYPE_FIXED64 then Some PB_WT_64BIT
      else if ltype \<in> {PB_LTYPE_BYTES, PB_LTYPE_STRING, PB_LTYPE_SUBMESSAGE, PB_LTYPE_FIXED_LENGTH_BYTES}
      then Some PB_WT_STRING else None)"

definition pb_encode_tag_for_field :: "pb_field \<Rightarrow> ('s pb_ostream, unit) op" where
  "pb_encode_tag_for_field field =
     (case wire_type_of (PB_LTYPE (pf_type field)) of
        None \<Rightarrow> os_error ''invalid field type'' | Some wiretype \<Rightarrow> pb_encode_tag wiretype (pf_tag field))"

text \<open>The address of each entry of an array.\<close>

definition entries :: "pb_field \<Rightarrow> addr \<Rightarrow> nat \<Rightarrow> addr list" where
  "entries field pData count = map (\<lambda>i. pData + of_nat i * ucast (pf_data_size field)) [0..<count]"

definition encode_packed ::
  "pb_field \<Rightarrow> addr list \<Rightarrow> (pb_field \<Rightarrow> addr \<Rightarrow> ('s pb_ostream, unit) op) \<Rightarrow> ('s pb_ostream, unit) op" where
  "encode_packed field ps func =
     (let ltype = PB_LTYPE (pf_type field) in
      sbind (if ltype = PB_LTYPE_FIXED32 then ret (4 * length ps)
             else if ltype = PB_LTYPE_FIXED64 then ret (8 * length ps)
             else (\<lambda>st. case op_each (func field) ps (PB_OSTREAM_SIZING (os_state st)) of
               (None, _) \<Rightarrow> (None, st) | (Some _, sizestream) \<Rightarrow> (Some (os_bytes_written sizestream), st)))
      (\<lambda>n. sbind (pb_encode_varint (of_nat n)) (\<lambda>_ st.
        if os_callback st = None then pb_write [] n st else op_each (func field) ps st)))"

definition encode_array ::
  "'s pb_env \<Rightarrow> pb_field \<Rightarrow> addr \<Rightarrow> u32 \<Rightarrow> (pb_field \<Rightarrow> addr \<Rightarrow> ('s pb_ostream, unit) op) \<Rightarrow> ('s pb_ostream, unit) op" where
  "encode_array env field pData count func =
     (let ltype = PB_LTYPE (pf_type field); atype = PB_ATYPE (pf_type field);
          ps = entries field pData (unat count)
      in if count = 0 then ret ()
      else if atype \<noteq> PB_ATYPE_POINTER \<and> count > pf_array_size field then os_error ''array max size exceeded''
      else if ltype \<le> PB_LTYPE_LAST_PACKABLE then
        sbind (pb_encode_tag PB_WT_STRING (pf_tag field)) (\<lambda>_. encode_packed field ps func)
      else op_each (\<lambda>p. sbind (pb_encode_tag_for_field field) (\<lambda>_.
          if atype = PB_ATYPE_POINTER \<and> (ltype = PB_LTYPE_STRING \<or> ltype = PB_LTYPE_BYTES)
          then func field (load64 (env_mem env) p) else func field p)) ps)"

text \<open>\<open>pSize\<close> points to the local \<open>implicit_has\<close> when the descriptor has no offset for it.\<close>

definition encode_basic_field ::
  "nat \<Rightarrow> 's pb_env \<Rightarrow> (pb_field list \<Rightarrow> addr \<Rightarrow> ('s pb_ostream, unit) op) \<Rightarrow> pb_field \<Rightarrow> addr \<Rightarrow> ('s pb_ostream, unit) op" where
  "encode_basic_field n env encode field pData =
     (let mem = env_mem env; htype = PB_HTYPE (pf_type field);
          func = PB_ENCODERS env encode (PB_LTYPE (pf_type field));
          pSize = pData + scast (pf_size_offset field);
          implicit_has = (if pf_size_offset field \<noteq> 0 then True
            else if htype = PB_HTYPE_OPTIONAL
            then \<not> pb_check_proto3_default_value n mem (env_descr env) field pData else True);
          is_pointer = (PB_ATYPE (pf_type field) = PB_ATYPE_POINTER);
          pData = (if is_pointer then load64 mem pData else pData);
          implicit_has = (if is_pointer then pData \<noteq> 0 else implicit_has)
      in if htype = PB_HTYPE_REQUIRED then
           if pData = 0 then os_error ''missing required field''
           else sbind (pb_encode_tag_for_field field) (\<lambda>_. func field pData)
         else if htype = PB_HTYPE_OPTIONAL then
           if (if pf_size_offset field \<noteq> 0 then safe_read_bool mem pSize else implicit_has)
           then sbind (pb_encode_tag_for_field field) (\<lambda>_. func field pData) else ret ()
         else if htype = PB_HTYPE_REPEATED then
           encode_array env field pData (if pf_size_offset field \<noteq> 0 then load32 mem pSize else pf_array_size field) func
         else if htype = PB_HTYPE_ONEOF then
           if (if pf_size_offset field \<noteq> 0 then load32 mem pSize else of_bool implicit_has) = pf_tag field
           then sbind (pb_encode_tag_for_field field) (\<lambda>_. func field pData) else ret ()
         else os_error ''invalid field type'')"

text \<open>\<open>pb_callback_t\<close>: the function pointer, and \<open>arg\<close> at offset eight.\<close>

definition encode_callback_field :: "'s pb_env \<Rightarrow> pb_field \<Rightarrow> addr \<Rightarrow> ('s pb_ostream, unit) op" where
  "encode_callback_field env field pData =
     (let encode = load64 (env_mem env) pData in
      if encode \<noteq> 0 then (\<lambda>st. case env_encode env encode field (pData + 8) st of
          (None, st') \<Rightarrow> os_error ''callback error'' st' | (Some _, st') \<Rightarrow> (Some (), st'))
      else ret ())"

definition encode_field ::
  "nat \<Rightarrow> 's pb_env \<Rightarrow> (pb_field list \<Rightarrow> addr \<Rightarrow> ('s pb_ostream, unit) op) \<Rightarrow> pb_field \<Rightarrow> addr \<Rightarrow> ('s pb_ostream, unit) op" where
  "encode_field n env encode field pData =
     (let atype = PB_ATYPE (pf_type field) in
      if atype = PB_ATYPE_STATIC \<or> atype = PB_ATYPE_POINTER then encode_basic_field n env encode field pData
      else if atype = PB_ATYPE_CALLBACK then encode_callback_field env field pData
      else os_error ''invalid field type'')"

text \<open>\<open>pb_extension_t\<close>: \<open>type\<close>, \<open>dest\<close> and \<open>next\<close> at offsets 0, 8 and 16;
  \<open>pb_extension_type_t\<close>: \<open>encode\<close> and \<open>arg\<close> at offsets 8 and 16.\<close>

definition default_extension_encoder ::
  "nat \<Rightarrow> 's pb_env \<Rightarrow> (pb_field list \<Rightarrow> addr \<Rightarrow> ('s pb_ostream, unit) op) \<Rightarrow> addr \<Rightarrow> ('s pb_ostream, unit) op" where
  "default_extension_encoder n env encode extension =
     (let mem = env_mem env; field = field_at (env_descr env (load64 mem (load64 mem extension + 16))) 0 in
      if PB_ATYPE (pf_type field) = PB_ATYPE_POINTER then encode_field n env encode field (extension + 8)
      else encode_field n env encode field (load64 mem (extension + 8)))"

primrec encode_extension_loop ::
  "nat \<Rightarrow> nat \<Rightarrow> 's pb_env \<Rightarrow> (pb_field list \<Rightarrow> addr \<Rightarrow> ('s pb_ostream, unit) op) \<Rightarrow> addr \<Rightarrow> ('s pb_ostream, unit) op" where
  "encode_extension_loop 0 n env encode extension = fail"
| "encode_extension_loop (Suc k) n env encode extension =
     (if extension = 0 then ret ()
      else let mem = env_mem env; fn = load64 mem (load64 mem extension + 8) in
        sbind (if fn \<noteq> 0 then env_ext_encode env fn extension else default_extension_encoder n env encode extension)
          (\<lambda>_. encode_extension_loop k n env encode (load64 mem (extension + 16))))"

definition encode_extension_field ::
  "nat \<Rightarrow> 's pb_env \<Rightarrow> (pb_field list \<Rightarrow> addr \<Rightarrow> ('s pb_ostream, unit) op) \<Rightarrow> addr \<Rightarrow> ('s pb_ostream, unit) op" where
  "encode_extension_field n env encode pData =
     encode_extension_loop n n env encode (load64 (env_mem env) pData)"

section \<open>Messages\<close>

function encode_loop :: "(pb_field \<Rightarrow> addr \<Rightarrow> ('s pb_ostream, unit) op) \<Rightarrow> pb_field_iter \<Rightarrow> ('s pb_ostream, unit) op" where
  "encode_loop one it = sbind (one (it_field it) (it_pData it))
     (\<lambda>_. case pb_field_iter_next it of (True, it') \<Rightarrow> encode_loop one it' | (False, _) \<Rightarrow> ret ())"
  by pat_completeness auto
termination by (relation "measure (\<lambda>(_, it). length (it_start it) - it_pos it)") (auto dest: iter_next_measure)

declare encode_loop.simps [simp del]

primrec pb_encode :: "nat \<Rightarrow> 's pb_env \<Rightarrow> pb_field list \<Rightarrow> addr \<Rightarrow> ('s pb_ostream, unit) op" where
  "pb_encode 0 env fs src_struct = fail"
| "pb_encode (Suc n) env fs src_struct =
     (case pb_field_iter_begin fs src_struct of
        (False, _) \<Rightarrow> ret ()
      | (True, it) \<Rightarrow> encode_loop (\<lambda>field pData.
          if PB_LTYPE (pf_type field) = PB_LTYPE_EXTENSION
          then encode_extension_field (Suc n) env (pb_encode n env) pData
          else encode_field (Suc n) env (pb_encode n env) field pData) it)"

definition pb_encode_delimited :: "nat \<Rightarrow> 's pb_env \<Rightarrow> pb_field list \<Rightarrow> addr \<Rightarrow> ('s pb_ostream, unit) op" where
  "pb_encode_delimited n env fs src_struct = pb_encode_submessage (pb_encode n env fs src_struct)"

definition pb_encode_nullterminated :: "nat \<Rightarrow> 's pb_env \<Rightarrow> pb_field list \<Rightarrow> addr \<Rightarrow> ('s pb_ostream, unit) op" where
  "pb_encode_nullterminated n env fs src_struct = sbind (pb_encode n env fs src_struct) (\<lambda>_. pb_write [0] 1)"

definition pb_get_encoded_size :: "nat \<Rightarrow> unit pb_env \<Rightarrow> pb_field list \<Rightarrow> addr \<Rightarrow> nat option" where
  "pb_get_encoded_size n env fs src_struct =
     (case pb_encode n env fs src_struct (PB_OSTREAM_SIZING ()) of
        (None, _) \<Rightarrow> None | (Some _, stream) \<Rightarrow> Some (os_bytes_written stream))"

end
