(* ===== verification/Pb_Message.thy ===== *)
theory Pb_Message
  imports Pb_Encode
begin

text \<open>
  What the message encoder emits: the bytes of a message as a function of memory alone, and the
  proof that \<open>pb_encode\<close> emits exactly these, on counting streams, on buffers and on the
  substreams of submessages.
\<close>

section \<open>The bytes of a message\<close>

record pb_out =
  out_mem :: memory
  out_descr :: "addr \<Rightarrow> pb_field list"
  out_callback :: "addr \<Rightarrow> pb_field \<Rightarrow> addr \<Rightarrow> u8 list option"
  out_extension :: "addr \<Rightarrow> addr \<Rightarrow> u8 list option"

definition bytes_out :: "pb_out \<Rightarrow> pb_field \<Rightarrow> addr \<Rightarrow> u8 list option" where
  "bytes_out sp field src =
     (if src = 0 then Some (string_bytes [])
      else let len = load32 (out_mem sp) src in
        if PB_ATYPE (pf_type field) = PB_ATYPE_STATIC \<and> (ucast len :: u64) > ucast (pf_data_size field) - 4 then None
        else Some (string_bytes (load_bytes (out_mem sp) (src + 4) (unat len))))"

definition c_string :: "memory \<Rightarrow> pb_field \<Rightarrow> addr \<Rightarrow> u8 list" where
  "c_string mem field src =
     (if src = 0 then []
      else load_bytes mem src (string_length mem src 0
        (if PB_ATYPE (pf_type field) = PB_ATYPE_POINTER then SIZE_MOD - 1 else unat (pf_data_size field))))"

definition value_out ::
  "pb_out \<Rightarrow> (pb_field list \<Rightarrow> addr \<Rightarrow> u8 list option) \<Rightarrow> pb_field \<Rightarrow> addr \<Rightarrow> u8 list option" where
  "value_out sp message field src =
     (let ltype = PB_LTYPE (pf_type field); mem = out_mem sp in
      if ltype = PB_LTYPE_BOOL then Some (varint_bytes (if safe_read_bool mem src then 1 else 0))
      else if ltype = PB_LTYPE_VARINT then map_option varint_bytes (load_signed mem field src)
      else if ltype = PB_LTYPE_UVARINT then map_option varint_bytes (load_unsigned mem field src)
      else if ltype = PB_LTYPE_SVARINT then map_option (\<lambda>v. varint_bytes (zigzag v)) (load_signed mem field src)
      else if ltype = PB_LTYPE_FIXED32 then Some (le_bytes 4 (ucast (load32 mem src)))
      else if ltype = PB_LTYPE_FIXED64 then Some (le_bytes 8 (load64 mem src))
      else if ltype = PB_LTYPE_BYTES then bytes_out sp field src
      else if ltype = PB_LTYPE_STRING then Some (string_bytes (c_string mem field src))
      else if ltype = PB_LTYPE_SUBMESSAGE then
        (if pf_ptr field = 0 then None else map_option string_bytes (message (out_descr sp (pf_ptr field)) src))
      else if ltype = PB_LTYPE_FIXED_LENGTH_BYTES
        then Some (string_bytes (load_bytes mem src (unat (pf_data_size field))))
      else None)"

definition tag_out :: "pb_field \<Rightarrow> u8 list option" where
  "tag_out field = map_option (\<lambda>wt. tag_bytes wt (pf_tag field)) (wire_type_of (PB_LTYPE (pf_type field)))"

definition array_out :: "pb_out \<Rightarrow> pb_field \<Rightarrow> addr \<Rightarrow> u32 \<Rightarrow> (addr \<Rightarrow> u8 list option) \<Rightarrow> u8 list option" where
  "array_out sp field pData count val =
     (let ltype = PB_LTYPE (pf_type field); atype = PB_ATYPE (pf_type field);
          ps = entries field pData (unat count)
      in if count = 0 then Some []
      else if atype \<noteq> PB_ATYPE_POINTER \<and> count > pf_array_size field then None
      else if ltype \<le> PB_LTYPE_LAST_PACKABLE
        then and_then (Some (tag_bytes PB_WT_STRING (pf_tag field))) (map_option string_bytes (outputs val ps))
      else outputs (\<lambda>p. and_then (tag_out field)
          (if atype = PB_ATYPE_POINTER \<and> (ltype = PB_LTYPE_STRING \<or> ltype = PB_LTYPE_BYTES)
           then val (load64 (out_mem sp) p) else val p)) ps)"

definition basic_out ::
  "nat \<Rightarrow> pb_out \<Rightarrow> (pb_field list \<Rightarrow> addr \<Rightarrow> u8 list option) \<Rightarrow> pb_field \<Rightarrow> addr \<Rightarrow> u8 list option" where
  "basic_out n sp message field slot =
     (let mem = out_mem sp; htype = PB_HTYPE (pf_type field);
          counter = slot + scast (pf_size_offset field);
          explicit = (pf_size_offset field \<noteq> 0);
          is_pointer = (PB_ATYPE (pf_type field) = PB_ATYPE_POINTER);
          src = (if is_pointer then load64 mem slot else slot);
          implicit = (if is_pointer then src \<noteq> 0
            else htype = PB_HTYPE_OPTIONAL \<and> \<not> explicit \<longrightarrow>
              \<not> pb_check_proto3_default_value n mem (out_descr sp) field slot);
          tagged = and_then (tag_out field) (value_out sp message field src)
      in if htype = PB_HTYPE_REQUIRED then if src = 0 then None else tagged
         else if htype = PB_HTYPE_OPTIONAL then
           if (if explicit then safe_read_bool mem counter else implicit) then tagged else Some []
         else if htype = PB_HTYPE_REPEATED then
           array_out sp field src (if explicit then load32 mem counter else pf_array_size field) (value_out sp message field)
         else if htype = PB_HTYPE_ONEOF then
           if (if explicit then load32 mem counter else of_bool implicit) = pf_tag field then tagged else Some []
         else None)"

definition field_out ::
  "nat \<Rightarrow> pb_out \<Rightarrow> (pb_field list \<Rightarrow> addr \<Rightarrow> u8 list option) \<Rightarrow> pb_field \<Rightarrow> addr \<Rightarrow> u8 list option" where
  "field_out n sp message field slot =
     (let atype = PB_ATYPE (pf_type field) in
      if atype = PB_ATYPE_STATIC \<or> atype = PB_ATYPE_POINTER then basic_out n sp message field slot
      else if atype = PB_ATYPE_CALLBACK then
        (let fn = load64 (out_mem sp) slot in if fn \<noteq> 0 then out_callback sp fn field (slot + 8) else Some [])
      else None)"

primrec extensions_out ::
  "nat \<Rightarrow> nat \<Rightarrow> pb_out \<Rightarrow> (pb_field list \<Rightarrow> addr \<Rightarrow> u8 list option) \<Rightarrow> addr \<Rightarrow> u8 list option" where
  "extensions_out 0 n sp message ext = None"
| "extensions_out (Suc k) n sp message ext =
     (if ext = 0 then Some []
      else let mem = out_mem sp; fn = load64 mem (load64 mem ext + 8);
               field = field_at (out_descr sp (load64 mem (load64 mem ext + 16))) 0;
               slot = (if PB_ATYPE (pf_type field) = PB_ATYPE_POINTER then ext + 8 else load64 mem (ext + 8))
        in and_then (if fn \<noteq> 0 then out_extension sp fn ext else field_out n sp message field slot)
             (extensions_out k n sp message (load64 mem (ext + 16))))"

function loop_out :: "(pb_field \<Rightarrow> addr \<Rightarrow> u8 list option) \<Rightarrow> pb_field_iter \<Rightarrow> u8 list option" where
  "loop_out one it = and_then (one (it_field it) (it_pData it))
     (case pb_field_iter_next it of (True, it') \<Rightarrow> loop_out one it' | (False, _) \<Rightarrow> Some [])"
  by pat_completeness auto
termination by (relation "measure (\<lambda>(_, it). length (it_start it) - it_pos it)") (auto dest: iter_next_measure)

declare loop_out.simps [simp del]

primrec message_out :: "nat \<Rightarrow> pb_out \<Rightarrow> pb_field list \<Rightarrow> addr \<Rightarrow> u8 list option" where
  "message_out 0 sp fs src = None"
| "message_out (Suc n) sp fs src =
     (case pb_field_iter_begin fs src of
        (False, _) \<Rightarrow> Some []
      | (True, it) \<Rightarrow> loop_out (\<lambda>field slot.
          if PB_LTYPE (pf_type field) = PB_LTYPE_EXTENSION
          then extensions_out (Suc n) (Suc n) sp (message_out n sp) (load64 (out_mem sp) slot)
          else field_out (Suc n) sp (message_out n sp) field slot) it)"

section \<open>The encoder emits them\<close>

text \<open>The caller's functions emit the same bytes whenever they are called.\<close>

definition env_emits :: "('s \<Rightarrow> u8 list \<Rightarrow> 's) \<Rightarrow> 's pb_env \<Rightarrow> pb_out \<Rightarrow> bool" where
  "env_emits feed env sp \<longleftrightarrow> out_mem sp = env_mem env \<and> out_descr sp = env_descr env \<and>
     (\<forall>fn f a. emits feed (env_encode env fn f a) (out_callback sp fn f a)) \<and>
     (\<forall>fn a. emits feed (env_ext_encode env fn a) (out_extension sp fn a))"

lemma emits_cong: "(\<And>st. ostream_ok feed st \<Longrightarrow> p st = q st) \<Longrightarrow> emits feed q out \<Longrightarrow> emits feed p out"
  by (auto simp: emits_def split: option.splits)

lemma slim_map_option: "slim (map_option f out) \<Longrightarrow> (\<And>bs. length bs \<le> length (f bs)) \<Longrightarrow> slim out"
  by (cases out) (auto simp: slim_def intro: order_le_less_trans)

lemma length_string_bytes: "length bs \<le> length (string_bytes bs)"
  by (simp add: string_bytes_def)

lemma ostream_ok_sizing [simp]: "ostream_ok feed (PB_OSTREAM_SIZING s)"
  by (simp add: ostream_ok_def PB_OSTREAM_SIZING_def SIZE_MOD_def)

text \<open>A sizing pass, whatever the state it carries.\<close>

lemma sizing_Some:
  assumes "emits feed p (Some bs)" and "length bs < OUT_LIMIT"
  obtains st where "p (PB_OSTREAM_SIZING s) = (Some (), st)" "os_bytes_written st = length bs"
proof -
  have "os_room (PB_OSTREAM_SIZING s) (length bs)" by (simp add: os_room_def PB_OSTREAM_SIZING_def)
  from emits_success[OF assms(1) ostream_ok_sizing this assms(2)] that show thesis
    using assms(2) by (simp add: PB_OSTREAM_SIZING_def OUT_LIMIT_def SIZE_MOD_def)
qed

lemma sizing_None:
  assumes "emits feed p None"
  obtains st where "p (PB_OSTREAM_SIZING s) = (None, st)"
  using emits_failure[OF assms ostream_ok_sizing[of feed s]] that by (cases "p (PB_OSTREAM_SIZING s)") auto

context sink
begin

text \<open>Counting is as good as writing, on a stream that counts.\<close>

lemma counted:
  assumes "ostream_ok feed st" and "os_callback st = None"
  shows "pb_write [] (length bs) st = (Some (), os_push feed bs st)" "os_room st (length bs)"
  using assms by (simp_all add: pb_write_def os_push_def os_room_def Let_def)

lemma counted_or_written:
  assumes "emits feed q (Some bs)"
  shows "emits feed (\<lambda>st. if os_callback st = None then pb_write [] (length bs) st else q st) (Some bs)"
proof (rule emitsI)
  fix st bs' assume ok: "ostream_ok feed st" and "Some bs = Some bs'" and "length bs' < OUT_LIMIT" "os_room st (length bs')"
  with emits_success[OF assms ok] counted(1)[OF ok]
  show "(if os_callback st = None then pb_write [] (length bs) st else q st) = (Some (), os_push feed bs' st)" by auto
next
  fix st assume ok: "ostream_ok feed st" and s: "slim (Some bs)" and "\<And>bs'. Some bs = Some bs' \<Longrightarrow> \<not> os_room st (length bs')"
  then have r: "\<not> os_room st (length bs)" by simp
  then have "os_callback st \<noteq> None" using counted(2)[OF ok] by blast
  moreover have "emit_fails feed st (q st)" using assms ok s r by (simp add: emits_def)
  ultimately show "emit_fails feed st (if os_callback st = None then pb_write [] (length bs) st else q st)" by auto
qed

text \<open>A submessage: the second pass writes what the first one counted.\<close>

lemma substream:
  assumes p: "emits feed p (Some bs)" and n: "length bs < OUT_LIMIT"
  shows "emits feed (write_submessage p (length bs)) (Some bs)"
proof (rule emitsI)
  fix st bs' assume ok: "ostream_ok feed st" and "Some bs = Some bs'" and "os_room st (length bs')"
  then have room: "os_room st (length bs)" and bs': "bs' = bs" by simp_all
  show "write_submessage p (length bs) st = (Some (), os_push feed bs' st)"
  proof (cases "os_callback st")
    case None
    with counted(1)[OF ok] show ?thesis by (simp add: write_submessage_def bs')
  next
    case (Some c)
    let ?sub = "\<lparr>os_callback = os_callback st, os_state = os_state st, os_max_size = length bs,
      os_bytes_written = 0, os_errmsg = None\<rparr>"
    have c: "os_callback st = Some (into feed)" using ok Some by (simp add: ostream_ok_def)
    have sub: "ostream_ok feed ?sub" "os_room ?sub (length bs)"
      using c n by (simp_all add: ostream_ok_def os_room_def SIZE_MOD_def)
    have run: "p ?sub = (Some (), os_push feed bs ?sub)" by (rule emits_success[OF p sub n])
    have fit: "os_bytes_written st + length bs \<le> os_max_size st" "(os_bytes_written st + length bs) mod SIZE_MOD =
        os_bytes_written st + length bs" "length bs mod SIZE_MOD = length bs"
      using ok room c n by (simp_all add: ostream_ok_def os_room_def OUT_LIMIT_def SIZE_MOD_def)
    have "os_bytes_written (os_push feed bs ?sub) = length bs" "os_errmsg (os_push feed bs ?sub) = None"
      "os_state (os_push feed bs ?sub) = feed (os_state st) bs"
      using fit(3) c by (simp_all add: os_push_def)
    then show ?thesis using fit ok c unfolding write_submessage_def run
      by (simp add: Let_def bs' ostream_ok_def) (simp add: os_push_def)
  qed
next
  fix st assume ok: "ostream_ok feed st" and "\<And>bs'. Some bs = Some bs' \<Longrightarrow> \<not> os_room st (length bs')"
  then have "\<not> os_room st (length bs)" by simp
  moreover from this have c: "os_callback st \<noteq> None" using counted(2)[OF ok] by blast
  ultimately have "os_max_size st < (os_bytes_written st + length bs) mod SIZE_MOD"
    using ok n by (auto simp: ostream_ok_def os_room_def OUT_LIMIT_def SIZE_MOD_def)
  then have "write_submessage p (length bs) st = os_error ''stream full'' st"
    using c by (auto simp: write_submessage_def)
  then show "emit_fails feed st (write_submessage p (length bs) st)"
    using ok by (auto simp: os_error_def intro: fails_at_once)
qed

lemma submessage:
  assumes p: "emits feed p out"
  shows "emits feed (pb_encode_submessage p) (map_option string_bytes out)"
proof (cases out)
  case None
  show ?thesis
  proof (rule emitsI)
    fix st assume ok: "ostream_ok feed st"
    show "emit_fails feed st (pb_encode_submessage p st)"
      by (rule sizing_None[OF p[unfolded None], of "os_state st"])
        (simp add: pb_encode_submessage_def fails_at_once[OF ok])
  qed (simp add: None)
next
  case (Some bs)
  show ?thesis
  proof (cases "length (string_bytes bs) < OUT_LIMIT")
    case False
    then show ?thesis using Some by (intro emits_huge) (simp add: slim_def)
  next
    case True
    then have n: "length bs < OUT_LIMIT" using length_string_bytes[of bs] by simp
    have whole: "pb_encode_submessage p st =
        sbind (pb_encode_varint (of_nat (length bs))) (\<lambda>_. write_submessage p (length bs)) st" for st
      by (rule sizing_Some[OF p[unfolded Some] n, of "os_state st"]) (simp add: pb_encode_submessage_def Let_def)
    have "emits feed (sbind (pb_encode_varint (of_nat (length bs))) (\<lambda>_. write_submessage p (length bs)))
        (Some (string_bytes bs))"
      unfolding string_bytes_def using p Some n by (intro bind_Some varint substream) simp_all
    then have "emits feed (pb_encode_submessage p) (Some (string_bytes bs))"
      by (rule emits_cong[rotated]) (rule whole)
    then show ?thesis by (simp add: Some)
  qed
qed

text \<open>Packed arrays. The sizes of fixed-width entries are not counted but computed.\<close>

lemma fixed_outputs:
  "(\<And>p. p \<in> set ps \<Longrightarrow> \<exists>bs. val p = Some bs \<and> length bs = k) \<Longrightarrow> slim (outputs val ps) \<Longrightarrow>
   \<exists>bs. outputs val ps = Some bs \<and> length bs = k * length ps"
proof (induction ps)
  case (Cons p ps)
  then obtain bs where bs: "val p = Some bs" "length bs = k" by auto
  show ?case
  proof (cases "length bs < OUT_LIMIT")
    case True
    then have o: "outputs val (p # ps) = map_option ((@) bs) (outputs val ps)" using bs by (simp add: and_then_def)
    have "slim (outputs val ps)" using Cons.prems(2) unfolding o by (rule slim_map_option) simp
    with Cons.IH Cons.prems(1) bs o show ?thesis by force
  next
    case False
    then show ?thesis using Cons.prems(2) bs by (simp add: and_then_def slim_def)
  qed
qed simp

lemma sbind_ret: "sbind (ret x) f = f x"
  by (rule ext) simp

lemma packed:
  assumes items: "\<And>p. p \<in> set ps \<Longrightarrow> emits feed (func field p) (val p)"
    and "\<And>p. PB_LTYPE (pf_type field) = PB_LTYPE_FIXED32 \<Longrightarrow> \<exists>bs. val p = Some bs \<and> length bs = 4"
    and "\<And>p. PB_LTYPE (pf_type field) = PB_LTYPE_FIXED64 \<Longrightarrow> \<exists>bs. val p = Some bs \<and> length bs = 8"
  shows "emits feed (encode_packed field ps func) (map_option string_bytes (outputs val ps))"
proof (cases "slim (map_option string_bytes (outputs val ps))")
  case False
  then show ?thesis by (rule emits_huge)
next
  case True
  have s: "slim (outputs val ps)" using True by (rule slim_map_option) (rule length_string_bytes)
  have all: "emits feed (op_each (func field) ps) (outputs val ps)" using items by (rule each)
  let ?fixed = "PB_LTYPE (pf_type field) = PB_LTYPE_FIXED32 \<or> PB_LTYPE (pf_type field) = PB_LTYPE_FIXED64"
  show ?thesis
  proof (cases "outputs val ps")
    case None
    with fixed_outputs[of ps val 4] fixed_outputs[of ps val 8] assms(2,3) s have "\<not> ?fixed" by auto
    show ?thesis
    proof (rule emitsI)
      fix st assume ok: "ostream_ok feed st"
      show "emit_fails feed st (encode_packed field ps func st)"
        by (rule sizing_None[OF all[unfolded None], of "os_state st"])
          (use \<open>\<not> ?fixed\<close> in \<open>simp add: encode_packed_def Let_def sbind_def fails_at_once[OF ok, of _ "os_errmsg st"]\<close>)
    qed (simp add: None)
  next
    case (Some bs)
    then have n: "length bs < OUT_LIMIT" using s by (simp add: slim_def)
    let ?rest = "\<lambda>st. if os_callback st = None then pb_write [] (length bs) st else op_each (func field) ps st"
    have whole: "encode_packed field ps func st = sbind (pb_encode_varint (of_nat (length bs))) (\<lambda>_. ?rest) st" for st
    proof -
      consider "PB_LTYPE (pf_type field) = PB_LTYPE_FIXED32" "length bs = 4 * length ps"
        | "PB_LTYPE (pf_type field) = PB_LTYPE_FIXED64" "length bs = 8 * length ps" | "\<not> ?fixed"
        using fixed_outputs[of ps val 4] fixed_outputs[of ps val 8] assms(2,3) s Some by auto
      then show ?thesis
      proof cases
        case 1
        show ?thesis unfolding 1(2) by (simp add: encode_packed_def 1(1) sbind_ret)
      next
        case 2
        show ?thesis unfolding 2(2) by (simp add: encode_packed_def 2(1) sbind_ret pb_types)
      next
        case False: 3
        show ?thesis
        by (rule sizing_Some[OF all[unfolded Some] n, of "os_state st"])
          (use False in \<open>simp add: encode_packed_def Let_def sbind_def\<close>)
      qed
    qed
    have "emits feed (sbind (pb_encode_varint (of_nat (length bs))) (\<lambda>_. ?rest)) (Some (string_bytes bs))"
      unfolding string_bytes_def using all Some by (intro bind_Some varint counted_or_written) simp
    then have "emits feed (encode_packed field ps func) (Some (string_bytes bs))"
      by (rule emits_cong[rotated]) (rule whole)
    then show ?thesis by (simp add: Some)
  qed
qed

text \<open>Values of each type.\<close>

lemma tag_for_field: "emits feed (pb_encode_tag_for_field field) (tag_out field)"
  by (simp add: pb_encode_tag_for_field_def tag_out_def error tag split: option.splits)

lemma string_out: "emits feed (pb_encode_string s n) (Some (string_bytes s))" if "n = length s"
  using string_emitted that by simp

lemma emits_if: "(c \<Longrightarrow> emits feed p a) \<Longrightarrow> (\<not> c \<Longrightarrow> emits feed q b) \<Longrightarrow>
    emits feed (if c then p else q) (if c then a else b)"
  by simp

lemma emits_if_apply: "(c \<Longrightarrow> emits feed (p x y) a) \<Longrightarrow> (\<not> c \<Longrightarrow> emits feed (q x y) b) \<Longrightarrow>
    emits feed ((if c then p else q) x y) (if c then a else b)"
  by simp

lemma message_value:
  assumes env: "env_emits feed env sp" and enc: "\<And>fs a. emits feed (encode fs a) (message fs a)"
  shows "emits feed (PB_ENCODERS env encode (PB_LTYPE (pf_type field)) field src) (value_out sp message field src)"
proof -
  have mem: "out_mem sp = env_mem env" "out_descr sp = env_descr env" using env by (simp_all add: env_emits_def)
  have sg: "emits feed (case load_signed (env_mem env) field src of None \<Rightarrow> os_error m | Some v \<Rightarrow> f v)
      (map_option g (load_signed (env_mem env) field src))" if "\<And>v. emits feed (f v) (Some (g v))" for m f g
    using that error by (auto split: option.splits)
  have us: "emits feed (case load_unsigned (env_mem env) field src of None \<Rightarrow> os_error m | Some v \<Rightarrow> f v)
      (map_option g (load_unsigned (env_mem env) field src))" if "\<And>v. emits feed (f v) (Some (g v))" for m f g
    using that error by (auto split: option.splits)
  have b: "emits feed (pb_enc_bytes env field src) (bytes_out sp field src)"
    unfolding pb_enc_bytes_def bytes_out_def mem Let_def by (intro emits_if error string_out) simp_all
  have s: "emits feed (pb_enc_string env field src) (Some (string_bytes (c_string (env_mem env) field src)))"
    unfolding pb_enc_string_def c_string_def Let_def by (cases "src = 0") (simp_all add: string_out)
  have m: "emits feed (pb_enc_submessage env encode field src)
      (if pf_ptr field = 0 then None else map_option string_bytes (message (env_descr env (pf_ptr field)) src))"
    unfolding pb_enc_submessage_def by (intro emits_if error submessage enc)
  show ?thesis
    unfolding PB_ENCODERS_def value_out_def Let_def mem
    by (intro emits_if_apply b s m fail)
      (simp_all only: pb_enc_bool_def pb_enc_varint_def pb_enc_uvarint_def pb_enc_svarint_def
        pb_enc_fixed32_def pb_enc_fixed64_def pb_enc_fixed_length_bytes_def Let_def
        varint sg us svarint fixed32 fixed64 string_out length_load_bytes)
qed

text \<open>Arrays, and fields of every kind.\<close>

lemma array:
  assumes mem: "out_mem sp = env_mem env" and val: "\<And>p. emits feed (func field p) (val p)"
    and "\<And>p. PB_LTYPE (pf_type field) = PB_LTYPE_FIXED32 \<Longrightarrow> \<exists>bs. val p = Some bs \<and> length bs = 4"
    and "\<And>p. PB_LTYPE (pf_type field) = PB_LTYPE_FIXED64 \<Longrightarrow> \<exists>bs. val p = Some bs \<and> length bs = 8"
  shows "emits feed (encode_array env field pData count func) (array_out sp field pData count val)"
  unfolding encode_array_def array_out_def Let_def mem
  by (intro emits_if silent error bind tag packed each tag_for_field val assms(3,4))

lemma fixed_values:
  "PB_LTYPE (pf_type field) = PB_LTYPE_FIXED32 \<Longrightarrow> \<exists>bs. value_out sp message field src = Some bs \<and> length bs = 4"
  "PB_LTYPE (pf_type field) = PB_LTYPE_FIXED64 \<Longrightarrow> \<exists>bs. value_out sp message field src = Some bs \<and> length bs = 8"
  by (simp_all add: value_out_def pb_types Let_def)

lemma basic_field:
  assumes env: "env_emits feed env sp" and enc: "\<And>fs a. emits feed (encode fs a) (message fs a)"
  shows "emits feed (encode_basic_field n env encode field slot) (basic_out n sp message field slot)"
proof -
  have mem: "out_mem sp = env_mem env" "out_descr sp = env_descr env" using env by (simp_all add: env_emits_def)
  note vals = message_value[OF env enc]
  have tagged: "emits feed (sbind (pb_encode_tag_for_field field)
      (\<lambda>_. PB_ENCODERS env encode (PB_LTYPE (pf_type field)) field src))
      (and_then (tag_out field) (value_out sp message field src))" for src
    by (intro bind tag_for_field vals)
  have implicit: "(if p then a else if c then True else if d then \<not> e else True) = (if p then a else d \<and> \<not> c \<longrightarrow> \<not> e)"
    for p a c d e :: bool by simp
  show ?thesis
    unfolding encode_basic_field_def basic_out_def Let_def mem implicit
    by (intro emits_if error silent tagged array[OF mem(1)] vals fixed_values) assumption+
qed

lemma callback_field:
  assumes env: "env_emits feed env sp"
  shows "emits feed (encode_callback_field env field slot)
    (if load64 (env_mem env) slot \<noteq> 0 then out_callback sp (load64 (env_mem env) slot) field (slot + 8) else Some [])"
proof -
  have "emits feed (\<lambda>st. case q st of (None, st') \<Rightarrow> os_error m st' | (Some _, st') \<Rightarrow> (Some (), st')) out"
    if q: "emits feed q out" for q out m
  proof (rule emitsI)
    fix st bs assume "ostream_ok feed st" "out = Some bs" "length bs < OUT_LIMIT" "os_room st (length bs)"
    with q show "(case q st of (None, st') \<Rightarrow> os_error m st' | (Some _, st') \<Rightarrow> (Some (), st')) = (Some (), os_push feed bs st)"
      by (simp add: emits_success)
  next
    fix st assume ok: "ostream_ok feed st" and s: "slim out" and n: "\<And>bs. out = Some bs \<Longrightarrow> \<not> os_room st (length bs)"
    have "emit_fails feed st (q st)" by (rule emits_cases[OF q ok s]) (use n in blast)+
    then show "emit_fails feed st (case q st of (None, st') \<Rightarrow> os_error m st' | (Some _, st') \<Rightarrow> (Some (), st'))"
      by (rule emit_failsE) (auto simp: os_error_def emit_fails_def)
  qed
  with env show ?thesis
    unfolding encode_callback_field_def Let_def by (intro emits_if silent) (simp add: env_emits_def)
qed

lemma field:
  assumes env: "env_emits feed env sp" and enc: "\<And>fs a. emits feed (encode fs a) (message fs a)"
  shows "emits feed (encode_field n env encode field slot) (field_out n sp message field slot)"
proof -
  have mem: "out_mem sp = env_mem env" using env by (simp add: env_emits_def)
  show ?thesis
    unfolding encode_field_def field_out_def Let_def mem
    by (intro emits_if error basic_field callback_field env enc)
qed

lemma extensions:
  assumes env: "env_emits feed env sp" and enc: "\<And>fs a. emits feed (encode fs a) (message fs a)"
  shows "emits feed (encode_extension_loop k n env encode ext) (extensions_out k n sp message ext)"
proof (induction k arbitrary: ext)
  case 0
  show ?case unfolding encode_extension_loop.simps extensions_out.simps by (rule fail)
next
  case (Suc k)
  have mem: "out_mem sp = env_mem env" "out_descr sp = env_descr env" using env by (simp_all add: env_emits_def)
  have ext_fn: "emits feed (env_ext_encode env fn a) (out_extension sp fn a)" for fn a
    using env by (simp add: env_emits_def)
  have default: "emits feed (default_extension_encoder n env encode ext) (field_out n sp message
      (field_at (env_descr env (load64 (env_mem env) (load64 (env_mem env) ext + 16))) 0)
      (if PB_ATYPE (pf_type (field_at (env_descr env (load64 (env_mem env) (load64 (env_mem env) ext + 16))) 0)) =
          PB_ATYPE_POINTER then ext + 8 else load64 (env_mem env) (ext + 8)))"
    using field[OF env enc] by (simp add: default_extension_encoder_def Let_def)
  show ?case
    unfolding encode_extension_loop.simps extensions_out.simps Let_def mem
    by (intro emits_if silent bind Suc.IH ext_fn default)
qed

lemma fields_loop:
  assumes "\<And>f a. emits feed (one f a) (val f a)"
  shows "emits feed (encode_loop one it) (loop_out val it)"
  using assms
proof (induction one it rule: encode_loop.induct)
  case (1 one it)
  show ?case
  proof (cases "pb_field_iter_next it")
    case (Pair more it')
    have rest: "emits feed (case more of True \<Rightarrow> encode_loop one it' | False \<Rightarrow> ret ())
        (case more of True \<Rightarrow> loop_out val it' | False \<Rightarrow> Some [])"
    proof (cases more)
      case True
      with 1 Pair show ?thesis by simp
    next
      case False
      then show ?thesis by (simp only: bool.case silent)
    qed
    show ?thesis
      unfolding encode_loop.simps[of one it] loop_out.simps[of val it] Pair prod.case
      by (intro bind 1(2) rest)
  qed
qed

theorem encode:
  assumes env: "env_emits feed env sp"
  shows "emits feed (pb_encode n env fs src) (message_out n sp fs src)"
proof (induction n arbitrary: fs src)
  case 0
  show ?case unfolding pb_encode.simps message_out.simps by (rule fail)
next
  case (Suc n)
  have mem: "out_mem sp = env_mem env" using env by (simp add: env_emits_def)
  have one: "emits feed (if PB_LTYPE (pf_type f) = PB_LTYPE_EXTENSION
        then encode_extension_field (Suc n) env (pb_encode n env) a
        else encode_field (Suc n) env (pb_encode n env) f a)
      (if PB_LTYPE (pf_type f) = PB_LTYPE_EXTENSION
        then extensions_out (Suc n) (Suc n) sp (message_out n sp) (load64 (out_mem sp) a)
        else field_out (Suc n) sp (message_out n sp) f a)" for f a
    unfolding encode_extension_field_def mem by (intro emits_if extensions field env Suc.IH)
  show ?case
  proof (cases "pb_field_iter_begin fs src")
    case (Pair more it)
    then show ?thesis
      unfolding pb_encode.simps message_out.simps Pair prod.case
      by (cases more) (simp_all only: bool.case silent fields_loop[OF one])
  qed
qed

end

end
