(* ===== verification/Pb_Results.thy ===== *)
theory Pb_Results
  imports Pb_Message "HOL-Library.Code_Target_Nat"
begin

text \<open>
  What the message encoder guarantees to its callers: the size it announces is the size it
  writes, a nesting depth of descriptors that bounds its recursion, and outputs that are
  sequences of fields which the decoder's tag reader and skipper walk through.
\<close>

section \<open>Sizes\<close>

text \<open>The sink of a stream that only counts.\<close>

definition count_feed :: "unit \<Rightarrow> u8 list \<Rightarrow> unit" where
  "count_feed s bs = s"

interpretation counting: sink count_feed
  by unfold_locales (simp_all add: count_feed_def)

lemma encoded_size:
  assumes "env_emits count_feed env sp" and "slim (message_out n sp fs src)"
  shows "pb_get_encoded_size n env fs src = map_option length (message_out n sp fs src)"
  using emits_sizing[OF counting.encode[OF assms(1)] assms(2), of "()"]
  by (auto simp: pb_get_encoded_size_def split: prod.splits option.splits)

lemma encoded_into_buffer:
  assumes "env_emits buf_feed env sp" and "slim (message_out n sp fs src)"
    and "bufsize \<le> length buf" and "bufsize < OUT_LIMIT"
  shows "case pb_encode n env fs src (pb_ostream_from_buffer buf bufsize) of
      (Some _, st) \<Rightarrow> (\<exists>bs. message_out n sp fs src = Some bs \<and> length bs \<le> bufsize \<and> os_bytes_written st = length bs \<and>
        ob_bytes (os_state st) = bs @ drop (length bs) buf)
    | (None, st) \<Rightarrow> (\<forall>bs. message_out n sp fs src = Some bs \<longrightarrow> bufsize < length bs) \<and>
        (\<exists>bs. length bs \<le> bufsize \<and> ob_bytes (os_state st) = bs @ drop (length bs) buf)"
  using assms by (intro emits_buffer buffer.encode)

lemma size_announced_is_written:
  assumes "env_emits count_feed counter sp" and "env_emits buf_feed env sp" and "slim (message_out n sp fs src)"
    and "bufsize \<le> length buf" and "bufsize < OUT_LIMIT"
  shows "(case pb_encode n env fs src (pb_ostream_from_buffer buf bufsize) of
      (Some _, st) \<Rightarrow> Some (os_bytes_written st) | (None, st) \<Rightarrow> None) =
    (case pb_get_encoded_size n counter fs src of
      Some k \<Rightarrow> if k \<le> bufsize then Some k else None | None \<Rightarrow> None)"
  using encoded_into_buffer[OF assms(2-5)] unfolding encoded_size[OF assms(1,3)]
  by (auto split: prod.splits option.splits)

lemma delimited:
  assumes "env_emits count_feed env sp"
  shows "emits count_feed (pb_encode_delimited n env fs src) (map_option string_bytes (message_out n sp fs src))"
  unfolding pb_encode_delimited_def by (intro counting.submessage counting.encode assms)

section \<open>Depth\<close>

text \<open>Message types without extensions that nest at most so deep.\<close>

primrec nested :: "nat \<Rightarrow> (addr \<Rightarrow> pb_field list) \<Rightarrow> pb_field list \<Rightarrow> bool" where
  "nested 0 descr fs \<longleftrightarrow> False"
| "nested (Suc n) descr fs \<longleftrightarrow> (\<forall>f\<in>set fs. PB_LTYPE (pf_type f) \<noteq> PB_LTYPE_EXTENSION \<and>
     (PB_LTYPE (pf_type f) = PB_LTYPE_SUBMESSAGE \<longrightarrow> nested n descr (descr (pf_ptr f))))"

lemma it_field_set: "it_pos it < length (it_start it) \<Longrightarrow> it_field it \<in> set (it_start it)"
  by (simp add: field_at_def)

lemma iter_begin_True: "pb_field_iter_begin fs src = (True, it) \<Longrightarrow>
    it_start it = fs \<and> it_pos it < length fs \<and> pf_tag (it_field it) \<noteq> 0"
  by (auto simp: pb_field_iter_begin_def Let_def field_at_def PB_LAST_FIELD_def split: if_splits)

lemma all_fields_cong:
  assumes "\<And>f p. f \<in> set (it_start it) \<Longrightarrow> chk f p = chk' f p" and "it_pos it < length (it_start it)"
  shows "all_fields chk it = all_fields chk' it"
  using assms
proof (induction chk it rule: all_fields.induct)
  case (1 chk it)
  obtain more it' where n: "pb_field_iter_next it = (more, it')" by (cases "pb_field_iter_next it")
  have here: "chk (it_field it) p = chk' (it_field it) p" for p using 1(2) it_field_set[OF 1(3)] .
  have rest: "all_fields chk it' = all_fields chk' it'" if "more" "chk (it_field it) (it_pData it)"
    using 1(1)[OF _ n[symmetric]] 1(2) iter_next_True[of it it'] n that by simp
  show ?case unfolding all_fields.simps[of _ it] n prod.case here
    using rest here by (cases more) auto
qed

lemma check_depth:
  assumes "PB_LTYPE (pf_type f) = PB_LTYPE_SUBMESSAGE \<longrightarrow> nested d descr (descr (pf_ptr f))" and "d \<le> n"
  shows "pb_check_proto3_default_value (Suc n) mem descr f p = pb_check_proto3_default_value (Suc d) mem descr f p"
  using assms
proof (induction d arbitrary: n f p)
  case 0
  then have "PB_LTYPE (pf_type f) \<noteq> PB_LTYPE_SUBMESSAGE" by auto
  then show ?case by (simp only: pb_check_proto3_default_value.simps Let_def if_False simp_thms)
next
  case (Suc d)
  then obtain n' where n: "n = Suc n'" "d \<le> n'" by (cases n) auto
  have "(case pb_field_iter_begin (descr (pf_ptr f)) p of
      (True, it) \<Rightarrow> all_fields (pb_check_proto3_default_value n mem descr) it | (False, _) \<Rightarrow> True) =
    (case pb_field_iter_begin (descr (pf_ptr f)) p of
      (True, it) \<Rightarrow> all_fields (pb_check_proto3_default_value (Suc d) mem descr) it | (False, _) \<Rightarrow> True)"
    if s: "PB_LTYPE (pf_type f) = PB_LTYPE_SUBMESSAGE"
  proof (cases "pb_field_iter_begin (descr (pf_ptr f)) p")
    case (Pair more it)
    show ?thesis
    proof (cases more)
      case True
      with Pair have it: "it_start it = descr (pf_ptr f)" "it_pos it < length (descr (pf_ptr f))"
        using iter_begin_True by auto
      have "all_fields (pb_check_proto3_default_value n mem descr) it =
          all_fields (pb_check_proto3_default_value (Suc d) mem descr) it"
        using Suc.prems(1) s it n unfolding n(1) by (intro all_fields_cong Suc.IH) auto
      then show ?thesis by (simp only: Pair True prod.case bool.case)
    qed (simp add: Pair)
  qed
  then show ?case by (simp only: pb_check_proto3_default_value.simps Let_def n(1) cong: if_cong)
qed

lemma encode_array_cong:
  "func field = func' field \<Longrightarrow> encode_array env field pData count func = encode_array env field pData count func'"
  by (simp only: encode_array_def encode_packed_def Let_def)

lemma encode_field_depth:
  assumes "PB_LTYPE (pf_type f) = PB_LTYPE_SUBMESSAGE \<longrightarrow> nested d (env_descr env) (env_descr env (pf_ptr f)) \<and>
      (\<forall>a. enc (env_descr env (pf_ptr f)) a = enc' (env_descr env (pf_ptr f)) a)" and "d \<le> n"
  shows "encode_field (Suc n) env enc f p = encode_field (Suc d) env enc' f p"
proof -
  have "pb_check_proto3_default_value (Suc n) mem (env_descr env) f p =
      pb_check_proto3_default_value (Suc d) mem (env_descr env) f p" for mem
    using assms by (intro check_depth) auto
  moreover have func: "PB_ENCODERS env enc (PB_LTYPE (pf_type f)) f = PB_ENCODERS env enc' (PB_LTYPE (pf_type f)) f"
    using assms(1) by (auto simp: PB_ENCODERS_def pb_enc_submessage_def pb_types)
  moreover have "encode_array env f q c (PB_ENCODERS env enc (PB_LTYPE (pf_type f))) =
      encode_array env f q c (PB_ENCODERS env enc' (PB_LTYPE (pf_type f)))" for q c
    using func by (rule encode_array_cong)
  ultimately have "encode_basic_field (Suc n) env enc f p = encode_basic_field (Suc d) env enc' f p"
    unfolding encode_basic_field_def Let_def by presburger
  then show ?thesis by (simp only: encode_field_def Let_def)
qed

lemma encode_loop_cong:
  assumes "\<And>f p. f \<in> set (it_start it) \<Longrightarrow> one f p = one' f p" and "it_pos it < length (it_start it)"
  shows "encode_loop one it = encode_loop one' it"
  using assms
proof (induction one it rule: encode_loop.induct)
  case (1 one it)
  obtain more it' where n: "pb_field_iter_next it = (more, it')" by (cases "pb_field_iter_next it")
  have here: "one (it_field it) p = one' (it_field it) p" for p using 1(2) it_field_set[OF 1(3)] .
  have rest: "encode_loop one it' = encode_loop one' it'" if "more"
    using 1(1)[OF n[symmetric]] 1(2) iter_next_True[of it it'] n that by simp
  show ?case unfolding encode_loop.simps[of _ it] n prod.case here
    using rest by (cases more) auto
qed

lemma encode_depth:
  assumes "nested d (env_descr env) fs" and "d \<le> n"
  shows "pb_encode n env fs src = pb_encode d env fs src"
  using assms
proof (induction d arbitrary: n fs src)
  case (Suc d)
  then obtain n' where n: "n = Suc n'" "d \<le> n'" by (cases n) auto
  show ?case
  proof (cases "pb_field_iter_begin fs src")
    case (Pair more it)
    show ?thesis
    proof (cases more)
      case True
      with Pair have it: "it_start it = fs" "it_pos it < length fs" using iter_begin_True by auto
      have "encode_loop (\<lambda>f p. if PB_LTYPE (pf_type f) = PB_LTYPE_EXTENSION
            then encode_extension_field n env (pb_encode n' env) p else encode_field n env (pb_encode n' env) f p) it =
          encode_loop (\<lambda>f p. if PB_LTYPE (pf_type f) = PB_LTYPE_EXTENSION
            then encode_extension_field (Suc d) env (pb_encode d env) p
            else encode_field (Suc d) env (pb_encode d env) f p) it"
      proof (rule encode_loop_cong)
        fix f p assume "f \<in> set (it_start it)"
        with Suc.prems it have "PB_LTYPE (pf_type f) \<noteq> PB_LTYPE_EXTENSION"
          and s: "PB_LTYPE (pf_type f) = PB_LTYPE_SUBMESSAGE \<longrightarrow> nested d (env_descr env) (env_descr env (pf_ptr f))" by auto
        moreover have "encode_field n env (pb_encode n' env) f p = encode_field (Suc d) env (pb_encode d env) f p"
          unfolding n(1) using s Suc.IH[OF _ n(2)] n(2) by (intro encode_field_depth) blast+
        ultimately show "(if PB_LTYPE (pf_type f) = PB_LTYPE_EXTENSION
            then encode_extension_field n env (pb_encode n' env) p else encode_field n env (pb_encode n' env) f p) =
          (if PB_LTYPE (pf_type f) = PB_LTYPE_EXTENSION then encode_extension_field (Suc d) env (pb_encode d env) p
            else encode_field (Suc d) env (pb_encode d env) f p)" by simp
      qed (use it in simp)
      then show ?thesis unfolding n(1) pb_encode.simps Pair by (simp only: True prod.case bool.case)
    qed (simp add: n(1) Pair)
  qed
qed simp

section \<open>Fields on the wire\<close>

text \<open>A field: wire type, number and value.\<close>

type_synonym wire_field = "u32 \<times> u32 \<times> u8 list"

fun field_bytes :: "wire_field \<Rightarrow> u8 list" where
  "field_bytes (wt, n, p) = tag_bytes wt n @ p"

fun field_ok :: "wire_field \<Rightarrow> bool" where
  "field_ok (wt, n, p) \<longleftrightarrow> n \<noteq> 0 \<and> unat n < 2 ^ 29 \<and> payload wt p"

definition wire :: "u8 list \<Rightarrow> bool" where
  "wire bs \<longleftrightarrow> (\<exists>parts. bs = concat (map field_bytes parts) \<and> (\<forall>f\<in>set parts. field_ok f))"

lemma wire_Nil: "wire []"
  unfolding wire_def by (rule exI[of _ "[]"]) simp

lemma wire_append: "wire xs \<Longrightarrow> wire ys \<Longrightarrow> wire (xs @ ys)"
  unfolding wire_def by (elim exE conjE, rule_tac x = "parts @ partsa" in exI) auto

lemma wire_field: "field_ok (wt, n, p) \<Longrightarrow> wire (tag_bytes wt n @ p)"
  unfolding wire_def by (rule exI[of _ "[(wt, n, p)]"]) simp

lemma payload_wt: "payload wt p \<Longrightarrow> unat wt < 2 ^ 3"
  by (auto simp: payload_def PB_WT_VARINT_def PB_WT_64BIT_def PB_WT_STRING_def PB_WT_32BIT_def)

text \<open>The decoder reads the number and skips the value of one field.\<close>

lemma skip_one:
  assumes "istream_ok st" and "in_view st = field_bytes (wt, n, p) @ r" and "field_ok (wt, n, p)"
  obtains st1 st2 where "pb_decode_tag st = (True, wt, n, False, st1)" "pb_skip_field wt st1 = (Some (), st2)"
    "istream_ok st2" "in_view st2 = r" "in_beyond st2 = in_beyond st" "is_errmsg st2 = is_errmsg st"
proof -
  have ok: "n \<noteq> 0" "unat n < 2 ^ 29" "payload wt p" using assms(3) by auto
  obtain st1 where st1: "pb_decode_tag st = (True, wt, n, False, st1)" "istream_ok st1" "in_view st1 = p @ r"
    "in_beyond st1 = in_beyond st" "is_errmsg st1 = is_errmsg st"
    by (rule decode_tag_bytes[OF assms(1), of wt n "p @ r"]) (use assms(2) ok payload_wt in auto)
  have "skip_dec wt (in_view st1) = (Some (), r)" using skip_payload[OF ok(3)] st1(3) by simp
  from follows_run[OF follows_skip st1(2) this] that st1 show thesis by auto
qed


section \<open>Every message is a sequence of fields\<close>

text \<open>Lengths on the wire have 32 bits, so nothing is claimed of longer outputs.\<close>

definition wires :: "u8 list option \<Rightarrow> bool" where
  "wires out \<longleftrightarrow> (\<forall>bs. out = Some bs \<longrightarrow> length bs < 2 ^ 32 \<longrightarrow> wire bs)"

lemma and_then_Some: "and_then a b = Some bs \<Longrightarrow> length bs < 2 ^ 32 \<Longrightarrow> \<exists>xs ys. a = Some xs \<and> b = Some ys \<and> bs = xs @ ys"
  by (auto simp: and_then_def OUT_LIMIT_def split: option.splits if_splits)

lemma wires_None: "wires None"
  by (simp add: wires_def)

lemma wires_Nil: "wires (Some [])"
  by (simp add: wires_def wire_Nil)

lemma wires_and_then: "wires a \<Longrightarrow> wires b \<Longrightarrow> wires (and_then a b)"
  unfolding wires_def by (auto dest!: and_then_Some intro: wire_append)

lemma wires_if: "(c \<Longrightarrow> wires a) \<Longrightarrow> (\<not> c \<Longrightarrow> wires b) \<Longrightarrow> wires (if c then a else b)"
  by simp

lemma wires_outputs: "(\<And>x. wires (f x)) \<Longrightarrow> wires (outputs f xs)"
  by (induction xs) (auto intro: wires_and_then wires_Nil)

definition tag_ok :: "pb_field \<Rightarrow> bool" where
  "tag_ok f \<longleftrightarrow> pf_tag f \<noteq> 0 \<and> unat (pf_tag f) < 2 ^ 29"

lemma wires_tagged:
  assumes "tag_ok f" and "\<And>bs. out = Some bs \<Longrightarrow> length bs < 2 ^ 32 \<Longrightarrow> payload wt bs"
  shows "wires (and_then (Some (tag_bytes wt (pf_tag f))) out)"
  unfolding wires_def
proof (intro allI impI)
  fix bs assume "and_then (Some (tag_bytes wt (pf_tag f))) out = Some bs" and l: "length bs < 2 ^ 32"
  then obtain ys where "out = Some ys" "bs = tag_bytes wt (pf_tag f) @ ys" by (auto dest!: and_then_Some)
  with assms l show "wire bs" by (auto intro!: wire_field simp: tag_ok_def)
qed

lemma payload_string: "length (string_bytes s) < 2 ^ 32 \<Longrightarrow> payload PB_WT_STRING (string_bytes s)"
  using length_string_bytes[of s] by (auto simp: payload_def)

lemma value_payload:
  assumes "value_out sp message f src = Some bs" and "wire_type_of (PB_LTYPE (pf_type f)) = Some wt" and "length bs < 2 ^ 32"
  shows "payload wt bs"
proof (cases "wt = PB_WT_STRING")
  case True
  with assms(2) have "PB_LTYPE (pf_type f) \<in> {PB_LTYPE_BYTES, PB_LTYPE_STRING, PB_LTYPE_SUBMESSAGE, PB_LTYPE_FIXED_LENGTH_BYTES}"
    by (auto simp: wire_type_of_def PB_WT_VARINT_def PB_WT_64BIT_def PB_WT_STRING_def PB_WT_32BIT_def split: if_splits)
  with assms(1) have "\<exists>s. bs = string_bytes s"
    by (auto simp: value_out_def bytes_out_def Let_def pb_types split: if_splits)
  with assms(3) True show ?thesis using payload_string by auto
next
  case False
  with assms(1,2) show ?thesis
    by (auto simp: value_out_def wire_type_of_def payload_def Let_def pb_types varint_form_bytes
        PB_WT_VARINT_def PB_WT_64BIT_def PB_WT_STRING_def PB_WT_32BIT_def split: if_splits)
qed

lemma wires_field: "tag_ok f \<Longrightarrow> wires (and_then (tag_out f) (value_out sp message f src))"
  by (cases "wire_type_of (PB_LTYPE (pf_type f))")
    (auto simp: tag_out_def wires_None intro!: wires_tagged intro: value_payload)

lemma wires_array: "tag_ok f \<Longrightarrow> wires (array_out sp f p count (value_out sp message f))"
  unfolding array_out_def Let_def
  by (intro wires_if wires_Nil wires_None wires_tagged wires_outputs)
    (auto intro: payload_string wires_field)

lemma wires_basic: "tag_ok f \<Longrightarrow> wires (basic_out n sp message f slot)"
  unfolding basic_out_def Let_def by (intro wires_if wires_Nil wires_None wires_field wires_array)

text \<open>The caller's functions emit fields, and extensions have proper numbers.\<close>

definition callers_wire :: "pb_out \<Rightarrow> bool" where
  "callers_wire sp \<longleftrightarrow> (\<forall>fn f a. wires (out_callback sp fn f a)) \<and> (\<forall>fn a. wires (out_extension sp fn a)) \<and>
     (\<forall>d. tag_ok (field_at (out_descr sp d) 0))"

lemma wires_any_field: "callers_wire sp \<Longrightarrow> tag_ok f \<Longrightarrow> wires (field_out n sp message f slot)"
  unfolding field_out_def Let_def by (intro wires_if wires_Nil wires_None wires_basic) (auto simp: callers_wire_def)

lemma wires_extensions: "callers_wire sp \<Longrightarrow> wires (extensions_out k n sp message ext)"
proof (induction k arbitrary: ext)
  case (Suc k)
  show ?case unfolding extensions_out.simps Let_def
    by (intro wires_if wires_Nil wires_and_then wires_any_field Suc) (use Suc.prems in \<open>auto simp: callers_wire_def\<close>)
qed (simp add: wires_None)

lemma wires_loop:
  assumes "\<And>f slot. f \<in> set (it_start it) \<Longrightarrow> wires (val f slot)" and "it_pos it < length (it_start it)"
  shows "wires (loop_out val it)"
  using assms
proof (induction val it rule: loop_out.induct)
  case (1 val it)
  obtain more it' where n: "pb_field_iter_next it = (more, it')" by (cases "pb_field_iter_next it")
  have "wires (case more of True \<Rightarrow> loop_out val it' | False \<Rightarrow> Some [])"
    using 1(1)[OF n[symmetric]] 1(2) iter_next_True[of it it'] n by (cases more) (auto simp: wires_Nil)
  moreover have "wires (val (it_field it) (it_pData it))" using 1(2) it_field_set[OF 1(3)] .
  ultimately show ?case unfolding loop_out.simps[of val it] n prod.case by (intro wires_and_then)
qed

lemma wires_message:
  assumes "callers_wire sp" and "\<forall>f\<in>set fs. tag_ok f"
  shows "wires (message_out n sp fs src)"
proof (cases n)
  case (Suc k)
  show ?thesis
  proof (cases "pb_field_iter_begin fs src")
    case (Pair more it)
    show ?thesis
    proof (cases more)
      case True
      with Pair have it: "it_start it = fs" "it_pos it < length fs" using iter_begin_True by auto
      show ?thesis unfolding Suc message_out.simps Pair prod.case
        by (simp only: True bool.case, rule wires_loop, intro wires_if wires_extensions wires_any_field)
          (use it assms in auto)
    next
      case False
      then show ?thesis by (simp add: Suc Pair wires_Nil)
    qed
  qed
qed (simp add: wires_None)

lemma encoder_writes_fields:
  assumes "env_emits feed env sp" and "callers_wire sp" and "\<forall>f\<in>set fs. tag_ok f" and "slim (message_out n sp fs src)"
    and "sink feed" and "ostream_ok feed st" and "pb_encode n env fs src st = (Some (), st')"
  obtains bs where "st' = os_push feed bs st" "message_out n sp fs src = Some bs" "length bs < 2 ^ 32 \<Longrightarrow> wire bs"
proof -
  have e: "emits feed (pb_encode n env fs src) (message_out n sp fs src)" by (rule sink.encode[OF assms(5,1)])
  show thesis
  proof (rule emits_cases[OF e assms(6,4)])
    fix bs assume "message_out n sp fs src = Some bs" "pb_encode n env fs src st = (Some (), os_push feed bs st)"
    with that wires_message[OF assms(2,3), of n src] assms(7) show thesis by (auto simp: wires_def)
  next
    assume "emit_fails feed st (pb_encode n env fs src st)"
    with assms(7) show thesis by (auto elim: emit_failsE)
  qed
qed


section \<open>An example\<close>

text \<open>A message whose only field is a submessage, stored in it, whose only field is a pointer to
  a Boolean; the struct is at 0x1000, and the pointer is 0x2000 plus \<open>lo\<close>.\<close>

definition boxed_descr :: "addr \<Rightarrow> pb_field list" where
  "boxed_descr a = (if a = 1 then [\<lparr>pf_tag = 1, pf_type = 0x90, pf_data_offset = 0, pf_size_offset = 0,
     pf_data_size = 1, pf_array_size = 0, pf_ptr = 0\<rparr>]
   else [\<lparr>pf_tag = 1, pf_type = 0x18, pf_data_offset = 0, pf_size_offset = 0, pf_data_size = 8,
     pf_array_size = 0, pf_ptr = 1\<rparr>])"

definition boxed_memory :: "u8 \<Rightarrow> memory" where
  "boxed_memory lo a =
     (if a = 0x1000 then lo else if a = 0x1001 then 0x20 else if a = 0x2000 + ucast lo then 1 else 0)"

definition boxed_env :: "u8 \<Rightarrow> 's pb_env" where
  "boxed_env lo = \<lparr>env_mem = boxed_memory lo, env_descr = boxed_descr,
     env_encode = (\<lambda>_ _ _. fail), env_ext_encode = (\<lambda>_ _. fail)\<rparr>"

definition boxed_out :: "u8 \<Rightarrow> pb_out" where
  "boxed_out lo = \<lparr>out_mem = boxed_memory lo, out_descr = boxed_descr,
     out_callback = (\<lambda>_ _ _. None), out_extension = (\<lambda>_ _. None)\<rparr>"

lemma boxed_emits: "sink feed \<Longrightarrow> env_emits feed (boxed_env lo) (boxed_out lo)"
  by (simp add: env_emits_def boxed_env_def boxed_out_def sink.fail)

lemma boxed_message: "message_out 2 (boxed_out 0x10) (boxed_descr 0) 0x1000 = Some [0x0a, 2, 8, 1]"
  by code_simp

lemma boxed_nested: "nested 2 boxed_descr (boxed_descr 0)"
  by code_simp

lemma boxed_callers: "callers_wire (boxed_out lo)"
  by (simp add: callers_wire_def boxed_out_def wires_None boxed_descr_def field_at_def tag_ok_def)

text \<open>
  Whether a submessage stored in a message is sent depends on its fields being zero, and of a
  pointer to a packable value only as many bytes are compared as the value has, not the pointer
  has: the Boolean at 0x2000 is not sent, the one at 0x2010 is.
\<close>

lemma boxed_empty: "message_out 2 (boxed_out 0) (boxed_descr 0) 0x1000 = Some []"
  by code_simp

lemma boxed_size: "message_out 2 (boxed_out lo) (boxed_descr 0) 0x1000 = Some bs \<Longrightarrow> length bs < OUT_LIMIT \<Longrightarrow>
    pb_get_encoded_size 2 (boxed_env lo) (boxed_descr 0) 0x1000 = Some (length bs)"
  using encoded_size[OF boxed_emits[OF counting.sink_axioms]] by (simp add: slim_def)

lemma boxed_lost: "pb_get_encoded_size 2 (boxed_env 0) (boxed_descr 0) 0x1000 = Some 0"
  using boxed_size[OF boxed_empty] by simp

lemma boxed_sent: "pb_get_encoded_size 2 (boxed_env 0x10) (boxed_descr 0) 0x1000 = Some 4"
  using boxed_size[OF boxed_message] by (simp add: OUT_LIMIT_def)

end
