(* ===== verification/Pb_Heap.thy ===== *)
theory Pb_Heap
  imports Pb_Fields Pb_Wire
begin

text \<open>
  Memory as the message decoder uses it: stores, the caller's allocator as a parameter, the
  initialisation of messages to their default values, and their release. Structs have the
  layout of a 64-bit machine.
\<close>

section \<open>Stores\<close>

definition store_bytes :: "addr \<Rightarrow> u8 list \<Rightarrow> memory \<Rightarrow> memory" where
  "store_bytes a bs mem = (\<lambda>x. if unat (x - a) < length bs then bs ! unat (x - a) else mem x)"

definition store8 :: "addr \<Rightarrow> u8 \<Rightarrow> memory \<Rightarrow> memory" where "store8 a v = store_bytes a [v]"
definition store16 :: "addr \<Rightarrow> u16 \<Rightarrow> memory \<Rightarrow> memory" where "store16 a v = store_bytes a (le_bytes 2 (ucast v))"
definition store32 :: "addr \<Rightarrow> u32 \<Rightarrow> memory \<Rightarrow> memory" where "store32 a v = store_bytes a (le_bytes 4 (ucast v))"
definition store64 :: "addr \<Rightarrow> u64 \<Rightarrow> memory \<Rightarrow> memory" where "store64 a v = store_bytes a (le_bytes 8 v)"

text \<open>Memory, and the state of the allocator, which may change memory when it moves a block.\<close>

record 'h heap =
  hp_mem :: memory
  hp_alloc :: 'h

record 'h allocator =
  al_realloc :: "addr \<Rightarrow> nat \<Rightarrow> 'h heap \<Rightarrow> addr \<times> 'h heap"
  al_free :: "addr \<Rightarrow> 'h heap \<Rightarrow> 'h heap"

definition put :: "(memory \<Rightarrow> memory) \<Rightarrow> ('h heap, unit) op" where
  "put f hp = (Some (), hp\<lparr>hp_mem := f (hp_mem hp)\<rparr>)"

definition peek :: "(memory \<Rightarrow> 'a) \<Rightarrow> ('h heap, 'a) op" where
  "peek f hp = (Some (f (hp_mem hp)), hp)"

definition pb_free :: "'h allocator \<Rightarrow> addr \<Rightarrow> ('h heap, unit) op" where
  "pb_free al p = modify (al_free al p)"

section \<open>Walking fields and extensions\<close>

text \<open>A loop over the fields of a message, \<open>do \<dots> while (pb_field_iter_next(&iter))\<close>.\<close>

function iter_each :: "(pb_field_iter \<Rightarrow> ('m, unit) op) \<Rightarrow> pb_field_iter \<Rightarrow> ('m, unit) op" where
  "iter_each f it = sbind (f it)
     (\<lambda>_. case pb_field_iter_next it of (True, it') \<Rightarrow> iter_each f it' | (False, _) \<Rightarrow> ret ())"
  by pat_completeness auto
termination by (relation "measure (\<lambda>(_, it). length (it_start it) - it_pos it)") (auto dest: iter_next_measure)

declare iter_each.simps [simp del]

definition message_each :: "(pb_field_iter \<Rightarrow> ('m, unit) op) \<Rightarrow> pb_field list \<Rightarrow> addr \<Rightarrow> ('m, unit) op" where
  "message_each f fs dest_struct =
     (case pb_field_iter_begin fs dest_struct of (True, it) \<Rightarrow> iter_each f it | (False, _) \<Rightarrow> ret ())"

text \<open>\<open>pb_extension_t\<close>: \<open>type\<close>, \<open>dest\<close>, \<open>next\<close> and \<open>found\<close> at offsets 0, 8, 16 and 24;
  \<open>pb_extension_type_t\<close>: \<open>decode\<close> and \<open>arg\<close> at offsets 0 and 16. A list may be circular.\<close>

primrec each_extension :: "nat \<Rightarrow> (addr \<Rightarrow> ('h heap, unit) op) \<Rightarrow> addr \<Rightarrow> ('h heap, unit) op" where
  "each_extension 0 f ext = fail"
| "each_extension (Suc k) f ext =
     (if ext = 0 then ret ()
      else sbind (f ext) (\<lambda>_. sbind (peek (\<lambda>m. load64 m (ext + 16))) (each_extension k f)))"

definition extension_field :: "(addr \<Rightarrow> pb_field list) \<Rightarrow> addr \<Rightarrow> memory \<Rightarrow> pb_field list" where
  "extension_field descr extension mem = descr (load64 mem (load64 mem extension + 16))"

definition iter_from_extension :: "(addr \<Rightarrow> pb_field list) \<Rightarrow> addr \<Rightarrow> memory \<Rightarrow> pb_field_iter" where
  "iter_from_extension descr extension mem =
     (let field = extension_field descr extension mem; dest = load64 mem (extension + 8);
          it = snd (pb_field_iter_begin field dest)
      in it\<lparr>it_pData := (if PB_ATYPE (pf_type (field_at field 0)) = PB_ATYPE_POINTER then extension + 8 else dest),
            it_pSize := extension + 24\<rparr>)"

section \<open>Default values\<close>

text \<open>Recursion along descriptors and extensions is bounded by a number.\<close>

primrec pb_field_set_to_default :: "nat \<Rightarrow> (addr \<Rightarrow> pb_field list) \<Rightarrow> pb_field_iter \<Rightarrow> ('h heap, unit) op" where
  "pb_field_set_to_default 0 descr it = fail"
| "pb_field_set_to_default (Suc n) descr it =
     (let field = it_field it; htype = PB_HTYPE (pf_type field); atype = PB_ATYPE (pf_type field);
          ltype = PB_LTYPE (pf_type field); counted = (htype = PB_HTYPE_REPEATED \<or> htype = PB_HTYPE_ONEOF)
      in if ltype = PB_LTYPE_EXTENSION then
           sbind (peek (\<lambda>m. load64 m (it_pData it))) (each_extension (Suc n) (\<lambda>ext.
             sbind (put (store8 (ext + 24) 0)) (\<lambda>_.
             sbind (peek (iter_from_extension descr ext)) (pb_field_set_to_default n descr))))
         else if atype = PB_ATYPE_STATIC then
           sbind (if htype = PB_HTYPE_OPTIONAL \<and> it_pSize it \<noteq> it_pData it then put (store8 (it_pSize it) 0)
                  else if counted then put (store32 (it_pSize it) 0) else ret ()) (\<lambda>_.
             if counted then ret ()
             else if ltype = PB_LTYPE_SUBMESSAGE
             then message_each (pb_field_set_to_default n descr) (descr (pf_ptr field)) (it_pData it)
             else if pf_ptr field \<noteq> 0
             then put (\<lambda>m. store_bytes (it_pData it) (load_bytes m (pf_ptr field) (unat (pf_data_size field))) m)
             else put (store_bytes (it_pData it) (replicate (unat (pf_data_size field)) 0)))
         else if atype = PB_ATYPE_POINTER then
           sbind (put (store64 (it_pData it) 0)) (\<lambda>_. if counted then put (store32 (it_pSize it) 0) else ret ())
         else ret ())"

definition pb_message_set_to_defaults ::
  "nat \<Rightarrow> (addr \<Rightarrow> pb_field list) \<Rightarrow> pb_field list \<Rightarrow> addr \<Rightarrow> ('h heap, unit) op" where
  "pb_message_set_to_defaults n descr fs dest_struct = message_each (pb_field_set_to_default n descr) fs dest_struct"

section \<open>Release\<close>

text \<open>The fields of a message, unless it is a null pointer.\<close>

definition release_fields :: "(pb_field_iter \<Rightarrow> ('h heap, unit) op) \<Rightarrow> pb_field list \<Rightarrow> addr \<Rightarrow> ('h heap, unit) op" where
  "release_fields release fs dest_struct = (if dest_struct = 0 then ret () else message_each release fs dest_struct)"

primrec release_items :: "nat \<Rightarrow> (addr \<Rightarrow> ('h heap, unit) op) \<Rightarrow> addr \<Rightarrow> u64 \<Rightarrow> ('h heap, unit) op" where
  "release_items 0 release pItem data_size = ret ()"
| "release_items (Suc n) release pItem data_size =
     sbind (release pItem) (\<lambda>_. release_items n release (pItem + data_size) data_size)"

primrec release_entries :: "nat \<Rightarrow> 'h allocator \<Rightarrow> addr \<Rightarrow> ('h heap, unit) op" where
  "release_entries 0 al pItem = ret ()"
| "release_entries (Suc n) al pItem =
     sbind (peek (\<lambda>m. load64 m pItem)) (\<lambda>p. sbind (pb_free al p) (\<lambda>_.
     sbind (put (store64 pItem 0)) (\<lambda>_. release_entries n al (pItem + 8))))"

text \<open>How many submessages a field holds.\<close>

definition item_count :: "pb_field_iter \<Rightarrow> memory \<Rightarrow> u32" where
  "item_count it mem =
     (let field = it_field it; atype = PB_ATYPE (pf_type field) in
      if PB_HTYPE (pf_type field) \<noteq> PB_HTYPE_REPEATED then 1
      else let count = (if atype = PB_ATYPE_STATIC \<and> it_pSize it = it_pData it then pf_array_size field
                        else load32 mem (it_pSize it))
        in if atype = PB_ATYPE_STATIC \<and> count > pf_array_size field then pf_array_size field else count)"

primrec pb_release_single_field ::
  "nat \<Rightarrow> (addr \<Rightarrow> pb_field list) \<Rightarrow> 'h allocator \<Rightarrow> pb_field_iter \<Rightarrow> ('h heap, unit) op" where
  "pb_release_single_field 0 descr al it = fail"
| "pb_release_single_field (Suc n) descr al it =
     (let field = it_field it; htype = PB_HTYPE (pf_type field); atype = PB_ATYPE (pf_type field);
          ltype = PB_LTYPE (pf_type field)
      in sbind (peek (\<lambda>m. htype = PB_HTYPE_ONEOF \<and> load32 m (it_pSize it) \<noteq> pf_tag field)) (\<lambda>other.
         if other then ret ()
         else sbind
           (if ltype = PB_LTYPE_EXTENSION then
              sbind (peek (\<lambda>m. load64 m (it_pData it))) (each_extension (Suc n) (\<lambda>ext.
                sbind (peek (iter_from_extension descr ext)) (pb_release_single_field n descr al)))
            else if ltype = PB_LTYPE_SUBMESSAGE \<and> atype \<noteq> PB_ATYPE_CALLBACK then
              sbind (peek (\<lambda>m. if atype = PB_ATYPE_POINTER then load64 m (it_pData it) else it_pData it)) (\<lambda>pItem.
              sbind (peek (item_count it)) (\<lambda>count.
                if pItem \<noteq> 0 then release_items (unat count)
                  (release_fields (pb_release_single_field n descr al) (descr (pf_ptr field))) pItem (ucast (pf_data_size field))
                else ret ()))
            else ret ())
           (\<lambda>_. if atype = PB_ATYPE_POINTER then
              sbind (if htype = PB_HTYPE_REPEATED \<and> (ltype = PB_LTYPE_STRING \<or> ltype = PB_LTYPE_BYTES) then
                  sbind (peek (\<lambda>m. load64 m (it_pData it))) (\<lambda>pItem.
                  sbind (peek (\<lambda>m. load32 m (it_pSize it))) (\<lambda>count. release_entries (unat count) al pItem))
                else ret ()) (\<lambda>_.
              sbind (if htype = PB_HTYPE_REPEATED then put (store32 (it_pSize it) 0) else ret ()) (\<lambda>_.
              sbind (peek (\<lambda>m. load64 m (it_pData it))) (\<lambda>p.
              sbind (pb_free al p) (\<lambda>_. put (store64 (it_pData it) 0)))))
            else ret ())))"

definition pb_release :: "nat \<Rightarrow> (addr \<Rightarrow> pb_field list) \<Rightarrow> 'h allocator \<Rightarrow> pb_field list \<Rightarrow> addr \<Rightarrow> ('h heap, unit) op" where
  "pb_release n descr al fs dest_struct = release_fields (pb_release_single_field n descr al) fs dest_struct"

end
