(* ===== verification/Pb_Decode.thy ===== *)
theory Pb_Decode
  imports Pb_Heap
begin

text \<open>
  The field and message decoders of \<open>pb_decode.c\<close>, built with an allocator. Callback functions
  and the allocator belong to the caller and are parameters. The local variable of
  \<open>pb_decode_noinit\<close> whose address escapes, \<open>fixed_count_size\<close>, lies in memory: where, is a
  parameter too. Loops and recursion that the input bounds, and only that, take a number.
\<close>

section \<open>State\<close>

record ('s, 'h) dec =
  d_in :: "'s pb_istream"
  d_heap :: "'h heap"

record ('s, 'h) dec_env =
  de_descr :: "addr \<Rightarrow> pb_field list"
  de_alloc :: "'h allocator"
  de_decode :: "addr \<Rightarrow> pb_field \<Rightarrow> addr \<Rightarrow> (('s, 'h) dec, unit) op"
  de_ext_decode :: "addr \<Rightarrow> addr \<Rightarrow> u32 \<Rightarrow> u32 \<Rightarrow> (('s, 'h) dec, unit) op"
  de_local :: "nat \<Rightarrow> addr"

definition on_stream :: "('s pb_istream, 'a) op \<Rightarrow> (('s, 'h) dec, 'a) op" where
  "on_stream p st = (case p (d_in st) of (r, s) \<Rightarrow> (r, st\<lparr>d_in := s\<rparr>))"

definition on_heap :: "('h heap, 'a) op \<Rightarrow> (('s, 'h) dec, 'a) op" where
  "on_heap p st = (case p (d_heap st) of (r, h) \<Rightarrow> (r, st\<lparr>d_heap := h\<rparr>))"

definition d_error :: "string \<Rightarrow> (('s, 'h) dec, 'a) op" where
  "d_error msg = on_stream (is_error msg)"

definition store :: "(memory \<Rightarrow> memory) \<Rightarrow> (('s, 'h) dec, unit) op" where
  "store f = on_heap (put f)"

definition load :: "(memory \<Rightarrow> 'a) \<Rightarrow> (('s, 'h) dec, 'a) op" where
  "load f = on_heap (peek f)"

text \<open>Reading through a pointer. A caller's function that stores more bytes than it was asked for
  breaks its contract: here they are dropped.\<close>

definition read_into :: "addr \<Rightarrow> nat \<Rightarrow> (('s, 'h) dec, unit) op" where
  "read_into a n = sbind (on_stream (pb_read n)) (\<lambda>bs. store (store_bytes a (take n bs)))"

text \<open>A substream, and back: the parent stream is kept aside. An error between the two is an
  error of the parent.\<close>

definition open_substream :: "(('s, 'h) dec, 's pb_istream) op" where
  "open_substream st = (case pb_make_string_substream (d_in st) of
     (None, s) \<Rightarrow> (None, st\<lparr>d_in := s\<rparr>) | (Some sub, s) \<Rightarrow> (Some s, st\<lparr>d_in := sub\<rparr>))"

definition close_substream :: "'s pb_istream \<Rightarrow> (('s, 'h) dec, unit) op" where
  "close_substream parent st =
     (case pb_close_string_substream (d_in st) parent of (r, s) \<Rightarrow> (r, st\<lparr>d_in := s\<rparr>))"

definition parent_error :: "'s pb_istream \<Rightarrow> string \<Rightarrow> (('s, 'h) dec, 'a) op" where
  "parent_error parent msg st = d_error msg (st\<lparr>d_in := parent\<rparr>)"

section \<open>Allocation\<close>

definition allocate_field :: "('s, 'h) dec_env \<Rightarrow> addr \<Rightarrow> nat \<Rightarrow> nat \<Rightarrow> (('s, 'h) dec, unit) op" where
  "allocate_field env pData data_size array_size =
     (let check_limit = 2 ^ 32 in
      if data_size = 0 \<or> array_size = 0 then d_error ''invalid size''
      else if (data_size \<ge> check_limit \<or> array_size \<ge> check_limit) \<and> (SIZE_MOD - 1) div array_size < data_size
      then d_error ''size too large''
      else sbind (load (\<lambda>m. load64 m pData)) (\<lambda>ptr st.
        case al_realloc (de_alloc env) ptr (array_size * data_size mod SIZE_MOD) (d_heap st) of (ptr', h) \<Rightarrow>
          let st = st\<lparr>d_heap := h\<rparr> in
          if ptr' = 0 then d_error ''realloc failed'' st else store (store64 pData ptr') st))"

definition initialize_pointer_field :: "nat \<Rightarrow> ('s, 'h) dec_env \<Rightarrow> addr \<Rightarrow> pb_field \<Rightarrow> (('s, 'h) dec, unit) op" where
  "initialize_pointer_field n env pItem field =
     (let ltype = PB_LTYPE (pf_type field) in
      if ltype = PB_LTYPE_STRING \<or> ltype = PB_LTYPE_BYTES then store (store64 pItem 0)
      else if ltype = PB_LTYPE_SUBMESSAGE then
        sbind (store (store_bytes pItem (replicate (unat (pf_data_size field)) 0)))
          (\<lambda>_. on_heap (pb_message_set_to_defaults n (de_descr env) (de_descr env (pf_ptr field)) pItem))
      else ret ())"

section \<open>Field decoders\<close>

definition pb_dec_bool :: "pb_field \<Rightarrow> addr \<Rightarrow> (('s, 'h) dec, unit) op" where
  "pb_dec_bool field dest =
     sbind (on_stream pb_decode_varint32) (\<lambda>value. store (store8 dest (if value \<noteq> 0 then 1 else 0)))"

definition pb_decode_bool :: "addr \<Rightarrow> (('s, 'h) dec, unit) op" where
  "pb_decode_bool dest = pb_dec_bool PB_LAST_FIELD dest"

text \<open>The value cast to the size of the field, stored, and the value that was stored.\<close>

definition clamp_signed :: "pb_field \<Rightarrow> addr \<Rightarrow> i64 \<Rightarrow> (('s, 'h) dec, i64) op" where
  "clamp_signed field dest value =
     (if pf_data_size field = 8 then sbind (store (store64 dest value)) (\<lambda>_. ret value)
      else if pf_data_size field = 4 then
        let v = ucast value :: u32 in sbind (store (store32 dest v)) (\<lambda>_. ret (scast v))
      else if pf_data_size field = 2 then
        let v = ucast value :: u16 in sbind (store (store16 dest v)) (\<lambda>_. ret (scast v))
      else if pf_data_size field = 1 then
        let v = ucast value :: u8 in sbind (store (store8 dest v)) (\<lambda>_. ret (scast v))
      else d_error ''invalid data_size'')"

definition clamp_unsigned :: "pb_field \<Rightarrow> addr \<Rightarrow> u64 \<Rightarrow> (('s, 'h) dec, u64) op" where
  "clamp_unsigned field dest value =
     (if pf_data_size field = 8 then sbind (store (store64 dest value)) (\<lambda>_. ret value)
      else if pf_data_size field = 4 then
        let v = ucast value :: u32 in sbind (store (store32 dest v)) (\<lambda>_. ret (ucast v))
      else if pf_data_size field = 2 then
        let v = ucast value :: u16 in sbind (store (store16 dest v)) (\<lambda>_. ret (ucast v))
      else if pf_data_size field = 1 then
        let v = ucast value :: u8 in sbind (store (store8 dest v)) (\<lambda>_. ret (ucast v))
      else d_error ''invalid data_size'')"

definition pb_dec_varint :: "pb_field \<Rightarrow> addr \<Rightarrow> (('s, 'h) dec, unit) op" where
  "pb_dec_varint field dest = sbind (on_stream pb_decode_varint) (\<lambda>value.
     let svalue = (if pf_data_size field = 8 then value else scast (ucast value :: u32))
     in sbind (clamp_signed field dest svalue) (\<lambda>clamped.
       if clamped \<noteq> svalue then d_error ''integer too large'' else ret ()))"

definition pb_dec_uvarint :: "pb_field \<Rightarrow> addr \<Rightarrow> (('s, 'h) dec, unit) op" where
  "pb_dec_uvarint field dest = sbind (on_stream pb_decode_varint) (\<lambda>value.
     sbind (clamp_unsigned field dest value) (\<lambda>clamped.
       if clamped \<noteq> value then d_error ''integer too large'' else ret ()))"

definition pb_dec_svarint :: "pb_field \<Rightarrow> addr \<Rightarrow> (('s, 'h) dec, unit) op" where
  "pb_dec_svarint field dest = sbind (on_stream pb_decode_svarint) (\<lambda>value.
     sbind (clamp_signed field dest value) (\<lambda>clamped.
       if clamped \<noteq> value then d_error ''integer too large'' else ret ()))"

definition pb_dec_fixed32 :: "pb_field \<Rightarrow> addr \<Rightarrow> (('s, 'h) dec, unit) op" where
  "pb_dec_fixed32 field dest = sbind (on_stream pb_decode_fixed32) (\<lambda>v. store (store32 dest v))"

definition pb_dec_fixed64 :: "pb_field \<Rightarrow> addr \<Rightarrow> (('s, 'h) dec, unit) op" where
  "pb_dec_fixed64 field dest = sbind (on_stream pb_decode_fixed64) (\<lambda>v. store (store64 dest v))"

text \<open>Room for \<open>len\<close> bytes: a new block for a pointer field, else the field itself.\<close>

definition claim_room ::
  "('s, 'h) dec_env \<Rightarrow> pb_field \<Rightarrow> addr \<Rightarrow> u32 \<Rightarrow> nat \<Rightarrow> string \<Rightarrow> (('s, 'h) dec, addr) op" where
  "claim_room env field dest len alloc_size overflow =
     (if PB_ATYPE (pf_type field) = PB_ATYPE_POINTER then
        (\<lambda>st. if is_bytes_left (d_in st) < unat len then d_error ''end-of-stream'' st
          else sbind (allocate_field env dest alloc_size 1) (\<lambda>_. load (\<lambda>m. load64 m dest)) st)
      else if alloc_size > unat (pf_data_size field) then d_error overflow else ret dest)"

definition pb_dec_bytes :: "('s, 'h) dec_env \<Rightarrow> pb_field \<Rightarrow> addr \<Rightarrow> (('s, 'h) dec, unit) op" where
  "pb_dec_bytes env field dest = sbind (on_stream pb_decode_varint32) (\<lambda>size.
     if size > PB_SIZE_MAX then d_error ''bytes overflow''
     else let alloc_size = (unat size + 4) mod SIZE_MOD in
       if unat size > alloc_size then d_error ''size too large''
       else sbind (claim_room env field dest size alloc_size ''bytes overflow'') (\<lambda>bdest.
         sbind (store (store32 bdest size)) (\<lambda>_. read_into (bdest + 4) (unat size))))"

definition pb_dec_string :: "('s, 'h) dec_env \<Rightarrow> pb_field \<Rightarrow> addr \<Rightarrow> (('s, 'h) dec, unit) op" where
  "pb_dec_string env field dest = sbind (on_stream pb_decode_varint32) (\<lambda>size.
     let alloc_size = unat (size + 1) in
       if alloc_size < unat size then d_error ''size too large''
       else sbind (claim_room env field dest size alloc_size ''string overflow'') (\<lambda>dest st.
         case read_into dest (unat size) st of (status, st') \<Rightarrow>
           sbind (store (store8 (dest + ucast size) 0)) (\<lambda>_ st''. (status, st'')) st'))"

text \<open>\<open>decode\<close> is \<open>pb_decode\<close> when its first argument is set, and \<open>pb_decode_noinit\<close> if not.\<close>

definition pb_dec_submessage ::
  "('s, 'h) dec_env \<Rightarrow> (bool \<Rightarrow> pb_field list \<Rightarrow> addr \<Rightarrow> (('s, 'h) dec, unit) op) \<Rightarrow>
   pb_field \<Rightarrow> addr \<Rightarrow> (('s, 'h) dec, unit) op" where
  "pb_dec_submessage env decode field dest = sbind open_substream (\<lambda>parent.
     if pf_ptr field = 0 then parent_error parent ''invalid field descriptor''
     else (\<lambda>st. case decode (PB_HTYPE (pf_type field) = PB_HTYPE_REPEATED) (de_descr env (pf_ptr field)) dest st of
       (status, st') \<Rightarrow> sbind (close_substream parent) (\<lambda>_ st''. (status, st'')) st'))"

definition pb_dec_fixed_length_bytes :: "pb_field \<Rightarrow> addr \<Rightarrow> (('s, 'h) dec, unit) op" where
  "pb_dec_fixed_length_bytes field dest = sbind (on_stream pb_decode_varint32) (\<lambda>size.
     if size > PB_SIZE_MAX then d_error ''bytes overflow''
     else if size = 0 then store (store_bytes dest (replicate (unat (pf_data_size field)) 0))
     else if size \<noteq> pf_data_size field then d_error ''incorrect fixed length bytes size''
     else read_into dest (unat (pf_data_size field)))"

text \<open>The table \<open>PB_DECODERS\<close>; a call through its null entry, or beyond its end, crashes.\<close>

definition PB_DECODERS ::
  "('s, 'h) dec_env \<Rightarrow> (bool \<Rightarrow> pb_field list \<Rightarrow> addr \<Rightarrow> (('s, 'h) dec, unit) op) \<Rightarrow> pb_type_t \<Rightarrow>
   pb_field \<Rightarrow> addr \<Rightarrow> (('s, 'h) dec, unit) op" where
  "PB_DECODERS env decode ltype =
     (if ltype = PB_LTYPE_BOOL then pb_dec_bool
      else if ltype = PB_LTYPE_VARINT then pb_dec_varint
      else if ltype = PB_LTYPE_UVARINT then pb_dec_uvarint
      else if ltype = PB_LTYPE_SVARINT then pb_dec_svarint
      else if ltype = PB_LTYPE_FIXED32 then pb_dec_fixed32
      else if ltype = PB_LTYPE_FIXED64 then pb_dec_fixed64
      else if ltype = PB_LTYPE_BYTES then pb_dec_bytes env
      else if ltype = PB_LTYPE_STRING then pb_dec_string env
      else if ltype = PB_LTYPE_SUBMESSAGE then pb_dec_submessage env decode
      else if ltype = PB_LTYPE_FIXED_LENGTH_BYTES then pb_dec_fixed_length_bytes
      else (\<lambda>_ _. fail))"

section \<open>Static fields\<close>

text \<open>\<open>*size\<close> behind the iterator's \<open>pSize\<close>, and the address of the next entry of the array at
  \<open>pData\<close>; the product has 32 bits.\<close>

definition counter :: "pb_field_iter \<Rightarrow> memory \<Rightarrow> u32" where
  "counter it mem = load32 mem (it_pSize it)"

definition bump :: "pb_field_iter \<Rightarrow> (('s, 'h) dec, unit) op" where
  "bump it = store (\<lambda>m. store32 (it_pSize it) (counter it m + 1) m)"

definition next_item :: "pb_field_iter \<Rightarrow> addr \<Rightarrow> u32 \<Rightarrow> addr" where
  "next_item it base count = base + ucast (pf_data_size (it_field it) * count)"

text \<open>The loop over a packed array in its substream; whether no entry failed. An entry has at
  least one byte, so there are no more rounds than bytes.\<close>

primrec packed_loop ::
  "nat \<Rightarrow> (pb_field \<Rightarrow> addr \<Rightarrow> (('s, 'h) dec, unit) op) \<Rightarrow> pb_field_iter \<Rightarrow> (('s, 'h) dec, bool) op" where
  "packed_loop 0 func it = fail"
| "packed_loop (Suc k) func it = sbind (load (counter it)) (\<lambda>count st.
     if is_bytes_left (d_in st) > 0 \<and> count < pf_array_size (it_field it) then
       (case func (it_field it) (next_item it (it_pData it) count) st of
          (None, st') \<Rightarrow> (Some False, st')
        | (Some _, st') \<Rightarrow> sbind (bump it) (\<lambda>_. packed_loop k func it) st')
     else (Some True, st))"

text \<open>Returning \<open>status\<close> after closing the substream.\<close>

definition close_with :: "'s pb_istream \<Rightarrow> bool \<Rightarrow> (('s, 'h) dec, unit) op" where
  "close_with parent status = sbind (close_substream parent) (\<lambda>_. if status then ret () else fail)"

definition decode_static_field ::
  "nat \<Rightarrow> ('s, 'h) dec_env \<Rightarrow> (bool \<Rightarrow> pb_field list \<Rightarrow> addr \<Rightarrow> (('s, 'h) dec, unit) op) \<Rightarrow>
   u32 \<Rightarrow> pb_field_iter \<Rightarrow> (('s, 'h) dec, unit) op" where
  "decode_static_field n env decode wire_type it =
     (let field = it_field it; htype = PB_HTYPE (pf_type field); ltype = PB_LTYPE (pf_type field);
          func = PB_DECODERS env decode ltype
      in if htype = PB_HTYPE_REQUIRED then func field (it_pData it)
         else if htype = PB_HTYPE_OPTIONAL then
           sbind (if it_pSize it \<noteq> it_pData it then store (store8 (it_pSize it) 1) else ret ())
             (\<lambda>_. func field (it_pData it))
         else if htype = PB_HTYPE_REPEATED then
           if wire_type = PB_WT_STRING \<and> ltype \<le> PB_LTYPE_LAST_PACKABLE then
             sbind open_substream (\<lambda>parent.
             sbind (\<lambda>st. packed_loop (Suc (is_bytes_left (d_in st))) func it st) (\<lambda>status st.
               if is_bytes_left (d_in st) \<noteq> 0 then parent_error parent ''array overflow'' st
               else close_with parent status st))
           else
             sbind (load (counter it)) (\<lambda>count.
             sbind (bump it) (\<lambda>_.
               if count \<ge> pf_array_size field then d_error ''array overflow''
               else func field (next_item it (it_pData it) count)))
         else if htype = PB_HTYPE_ONEOF then
           sbind (load (counter it)) (\<lambda>which.
           sbind (if ltype = PB_LTYPE_SUBMESSAGE \<and> which \<noteq> pf_tag field then
               sbind (store (store_bytes (it_pData it) (replicate (unat (pf_data_size field)) 0))) (\<lambda>_.
                 on_heap (pb_message_set_to_defaults n (de_descr env) (de_descr env (pf_ptr field)) (it_pData it)))
             else ret ()) (\<lambda>_.
           sbind (store (store32 (it_pSize it) (pf_tag field))) (\<lambda>_. func field (it_pData it))))
         else d_error ''invalid field type'')"

section \<open>Pointer fields\<close>

text \<open>The loop over a packed array in its substream; whether no entry failed, and whether it
  stopped because there were too many. A division by a \<open>data_size\<close> of zero crashes.\<close>

primrec packed_pointer_loop ::
  "nat \<Rightarrow> nat \<Rightarrow> ('s, 'h) dec_env \<Rightarrow> (pb_field \<Rightarrow> addr \<Rightarrow> (('s, 'h) dec, unit) op) \<Rightarrow> pb_field_iter \<Rightarrow> nat \<Rightarrow>
   (('s, 'h) dec, bool \<times> bool) op" where
  "packed_pointer_loop 0 n env func it allocated_size = fail"
| "packed_pointer_loop (Suc k) n env func it allocated_size = sbind (load (counter it)) (\<lambda>count st.
     let field = it_field it; bytes_left = is_bytes_left (d_in st); size_max = unat PB_SIZE_MAX in
     if bytes_left = 0 then (Some (True, False), st)
     else if count = PB_SIZE_MAX then (Some (False, True), st)
     else
       let grow = (unat count + 1 > allocated_size);
           remain = (bytes_left - 1) div unat (pf_data_size field) + 1;
           allocated_size' = (if \<not> grow then allocated_size
             else if remain < size_max - allocated_size then allocated_size + remain else allocated_size + 1)
       in case (if grow then allocate_field env (it_pData it) (unat (pf_data_size field)) allocated_size' else ret ()) st of
         (None, st') \<Rightarrow> (Some (False, False), st')
       | (Some _, st') \<Rightarrow> sbind (load (\<lambda>m. next_item it (load64 m (it_pData it)) (counter it m))) (\<lambda>pItem st.
           if pItem = 0 then (Some (False, False), st)
           else sbind (initialize_pointer_field n env pItem field) (\<lambda>_ st. case func field pItem st of
               (None, st') \<Rightarrow> (Some (False, False), st')
             | (Some _, st') \<Rightarrow> sbind (bump it) (\<lambda>_. packed_pointer_loop k n env func it allocated_size') st') st) st')"

definition decode_pointer_field ::
  "nat \<Rightarrow> ('s, 'h) dec_env \<Rightarrow> (bool \<Rightarrow> pb_field list \<Rightarrow> addr \<Rightarrow> (('s, 'h) dec, unit) op) \<Rightarrow>
   u32 \<Rightarrow> pb_field_iter \<Rightarrow> (('s, 'h) dec, unit) op" where
  "decode_pointer_field n env decode wire_type it =
     (let field = it_field it; htype = PB_HTYPE (pf_type field); ltype = PB_LTYPE (pf_type field);
          func = PB_DECODERS env decode ltype; slot = (\<lambda>m. load64 m (it_pData it));
          data_size = unat (pf_data_size field)
      in if htype = PB_HTYPE_REQUIRED \<or> htype = PB_HTYPE_OPTIONAL \<or> htype = PB_HTYPE_ONEOF then
           sbind (load slot) (\<lambda>old.
           sbind (if ltype = PB_LTYPE_SUBMESSAGE \<and> old \<noteq> 0
             then on_heap (pb_release_single_field n (de_descr env) (de_alloc env) it) else ret ()) (\<lambda>_.
           sbind (if htype = PB_HTYPE_ONEOF then store (store32 (it_pSize it) (pf_tag field)) else ret ()) (\<lambda>_.
             if ltype = PB_LTYPE_STRING \<or> ltype = PB_LTYPE_BYTES then func field (it_pData it)
             else sbind (allocate_field env (it_pData it) data_size 1) (\<lambda>_.
               sbind (load slot) (\<lambda>p. sbind (initialize_pointer_field n env p field) (\<lambda>_.
               sbind (load slot) (\<lambda>p. func field p)))))))
         else if htype = PB_HTYPE_REPEATED then
           if wire_type = PB_WT_STRING \<and> ltype \<le> PB_LTYPE_LAST_PACKABLE then
             sbind (load (counter it)) (\<lambda>count.
             sbind open_substream (\<lambda>parent.
             sbind (\<lambda>st. packed_pointer_loop (Suc (is_bytes_left (d_in st))) n env func it (unat count) st)
               (\<lambda>(status, full). close_with
                 (if full then parent\<lparr>is_errmsg := Some ''too many array entries''\<rparr> else parent) status)))
           else
             sbind (load (counter it)) (\<lambda>count.
               if count = PB_SIZE_MAX then d_error ''too many array entries''
               else sbind (allocate_field env (it_pData it) data_size (unat (count + 1))) (\<lambda>_.
                 sbind (load (\<lambda>m. next_item it (slot m) (counter it m))) (\<lambda>pItem.
                 sbind (bump it) (\<lambda>_.
                 sbind (initialize_pointer_field n env pItem field) (\<lambda>_. func field pItem)))))
         else d_error ''invalid field type'')"

section \<open>Callback fields\<close>

text \<open>A callback that reads nothing and reports success is called for ever.\<close>

primrec callback_loop ::
  "nat \<Rightarrow> ('s, 'h) dec_env \<Rightarrow> 's pb_istream \<Rightarrow> pb_field_iter \<Rightarrow> (('s, 'h) dec, unit) op" where
  "callback_loop 0 env parent it = fail"
| "callback_loop (Suc k) env parent it = sbind (load (\<lambda>m. load64 m (it_pData it))) (\<lambda>fn st.
     case de_decode env fn (it_field it) (it_pData it + 8) st of
       (None, st') \<Rightarrow> parent_error parent ''callback failed'' st'
     | (Some _, st') \<Rightarrow> if is_bytes_left (d_in st') \<noteq> 0 then callback_loop k env parent it st' else (Some (), st'))"

definition decode_callback_field ::
  "nat \<Rightarrow> ('s, 'h) dec_env \<Rightarrow> u32 \<Rightarrow> pb_field_iter \<Rightarrow> (('s, 'h) dec, unit) op" where
  "decode_callback_field n env wire_type it = sbind (load (\<lambda>m. load64 m (it_pData it))) (\<lambda>fn.
     if it_pData it = 0 \<or> fn = 0 then on_stream (pb_skip_field wire_type)
     else if wire_type = PB_WT_STRING then
       sbind open_substream (\<lambda>parent. sbind (callback_loop n env parent it) (\<lambda>_. close_substream parent))
     else sbind (on_stream (read_raw_value wire_type 10)) (\<lambda>buffer st.
       case de_decode env fn (it_field it) (it_pData it + 8)
         (st\<lparr>d_in := pb_istream_from_buffer buffer (length buffer)\<rparr>) of (status, st') \<Rightarrow>
       (status, st'\<lparr>d_in := d_in st\<rparr>)))"

section \<open>Any field\<close>

text \<open>The iterator it leaves is the one it was given, unless the previous member of the union had
  to be released.\<close>

definition pb_release_union_field ::
  "nat \<Rightarrow> ('s, 'h) dec_env \<Rightarrow> pb_field_iter \<Rightarrow> (('s, 'h) dec, pb_field_iter) op" where
  "pb_release_union_field n env it = sbind (load (counter it)) (\<lambda>old_tag.
     let new_tag = pf_tag (it_field it) in
     if old_tag = 0 then ret it
     else if old_tag = new_tag then ret it
     else case pb_field_iter_find it old_tag of
       (False, _) \<Rightarrow> d_error ''invalid union tag''
     | (True, it) \<Rightarrow>
         sbind (on_heap (pb_release_single_field n (de_descr env) (de_alloc env) it)) (\<lambda>_.
         case pb_field_iter_find it new_tag of
           (False, _) \<Rightarrow> d_error ''iterator error''
         | (True, it) \<Rightarrow>
             sbind (if PB_ATYPE (pf_type (it_field it)) = PB_ATYPE_POINTER then store (store64 (it_pData it) 0) else ret ())
               (\<lambda>_. ret it)))"

definition decode_field ::
  "nat \<Rightarrow> ('s, 'h) dec_env \<Rightarrow> (bool \<Rightarrow> pb_field list \<Rightarrow> addr \<Rightarrow> (('s, 'h) dec, unit) op) \<Rightarrow>
   u32 \<Rightarrow> pb_field_iter \<Rightarrow> (('s, 'h) dec, pb_field_iter) op" where
  "decode_field n env decode wire_type it =
     sbind (if PB_HTYPE (pf_type (it_field it)) = PB_HTYPE_ONEOF then pb_release_union_field n env it else ret it) (\<lambda>it.
       let atype = PB_ATYPE (pf_type (it_field it)) in
       sbind (if atype = PB_ATYPE_STATIC then decode_static_field n env decode wire_type it
              else if atype = PB_ATYPE_POINTER then decode_pointer_field n env decode wire_type it
              else if atype = PB_ATYPE_CALLBACK then decode_callback_field n env wire_type it
              else d_error ''invalid field type'')
         (\<lambda>_. ret it))"

section \<open>Extensions\<close>

definition default_extension_decoder ::
  "nat \<Rightarrow> ('s, 'h) dec_env \<Rightarrow> (bool \<Rightarrow> pb_field list \<Rightarrow> addr \<Rightarrow> (('s, 'h) dec, unit) op) \<Rightarrow>
   addr \<Rightarrow> u32 \<Rightarrow> u32 \<Rightarrow> (('s, 'h) dec, unit) op" where
  "default_extension_decoder n env decode extension tag wire_type =
     sbind (load (extension_field (de_descr env) extension)) (\<lambda>field.
       if pf_tag (field_at field 0) \<noteq> tag then ret ()
       else sbind (load (iter_from_extension (de_descr env) extension)) (\<lambda>it.
         sbind (store (store8 (extension + 24) 1)) (\<lambda>_.
         sbind (decode_field n env decode wire_type it) (\<lambda>_. ret ()))))"

text \<open>The list is followed until one extension has read something.\<close>

primrec decode_extension_loop ::
  "nat \<Rightarrow> nat \<Rightarrow> ('s, 'h) dec_env \<Rightarrow> (bool \<Rightarrow> pb_field list \<Rightarrow> addr \<Rightarrow> (('s, 'h) dec, unit) op) \<Rightarrow>
   nat \<Rightarrow> u32 \<Rightarrow> u32 \<Rightarrow> addr \<Rightarrow> (('s, 'h) dec, unit) op" where
  "decode_extension_loop 0 n env decode pos tag wire_type extension = fail"
| "decode_extension_loop (Suc k) n env decode pos tag wire_type extension = (\<lambda>st.
     if extension \<noteq> 0 \<and> pos = is_bytes_left (d_in st) then
       sbind (load (\<lambda>m. load64 m (load64 m extension))) (\<lambda>fn.
       sbind (if fn \<noteq> 0 then de_ext_decode env fn extension tag wire_type
              else default_extension_decoder n env decode extension tag wire_type) (\<lambda>_.
       sbind (load (\<lambda>m. load64 m (extension + 16))) (\<lambda>next_ext.
         decode_extension_loop k n env decode pos tag wire_type next_ext))) st
     else (Some (), st))"

definition decode_extension ::
  "nat \<Rightarrow> ('s, 'h) dec_env \<Rightarrow> (bool \<Rightarrow> pb_field list \<Rightarrow> addr \<Rightarrow> (('s, 'h) dec, unit) op) \<Rightarrow>
   u32 \<Rightarrow> u32 \<Rightarrow> pb_field_iter \<Rightarrow> (('s, 'h) dec, unit) op" where
  "decode_extension n env decode tag wire_type it = sbind (load (\<lambda>m. load64 m (it_pData it))) (\<lambda>extension st.
     decode_extension_loop n n env decode (is_bytes_left (d_in st)) tag wire_type extension st)"

definition find_extension_field :: "pb_field_iter \<Rightarrow> bool \<times> pb_field_iter" where
  "find_extension_field it = iter_find_loop (Suc (length (it_start it))) (it_pos it)
     (\<lambda>pos. PB_LTYPE (pf_type pos) = PB_LTYPE_EXTENSION) it"

section \<open>Messages\<close>

definition PB_MAX_REQUIRED_FIELDS :: nat where
  "PB_MAX_REQUIRED_FIELDS = 64"

text \<open>The local variables of \<open>pb_decode_noinit\<close>, but for \<open>fixed_count_size\<close>, which is at
  \<open>de_local\<close>; \<open>fixed_count_field\<close> is an index of the descriptor array.\<close>

record noinit =
  ni_iter :: pb_field_iter
  ni_seen :: "u32 list"
  ni_extension_range_start :: u32
  ni_fixed_count_field :: "nat option"

definition fixed_count_wrong :: "nat \<Rightarrow> ('s, 'h) dec_env \<Rightarrow> noinit \<Rightarrow> memory \<Rightarrow> bool" where
  "fixed_count_wrong n env loc mem =
     (case ni_fixed_count_field loc of None \<Rightarrow> False
      | Some pos \<Rightarrow> load32 mem (de_local env n) \<noteq> pf_array_size (field_at (it_start (ni_iter loc)) pos))"

definition unknown_field ::
  "nat \<Rightarrow> ('s, 'h) dec_env \<Rightarrow> (bool \<Rightarrow> pb_field list \<Rightarrow> addr \<Rightarrow> (('s, 'h) dec, unit) op) \<Rightarrow>
   u32 \<Rightarrow> u32 \<Rightarrow> noinit \<Rightarrow> (('s, 'h) dec, noinit) op" where
  "unknown_field n env decode wire_type tag loc =
     (let skip = sbind (on_stream (pb_skip_field wire_type)) in
      if tag \<ge> ni_extension_range_start loc then
        (case find_extension_field (ni_iter loc) of (found, it) \<Rightarrow>
          let start = (if found then pf_tag (it_field it) else - 1);
              loc = loc\<lparr>ni_iter := it, ni_extension_range_start := start\<rparr>
          in if tag \<ge> start then (\<lambda>st.
               sbind (decode_extension n env decode tag wire_type it) (\<lambda>_ st'.
                 if is_bytes_left (d_in st) \<noteq> is_bytes_left (d_in st') then (Some loc, st')
                 else skip (\<lambda>_. ret loc) st') st)
             else skip (\<lambda>_. ret loc))
      else skip (\<lambda>_. ret loc))"

definition known_field ::
  "nat \<Rightarrow> ('s, 'h) dec_env \<Rightarrow> (bool \<Rightarrow> pb_field list \<Rightarrow> addr \<Rightarrow> (('s, 'h) dec, unit) op) \<Rightarrow>
   u32 \<Rightarrow> noinit \<Rightarrow> (('s, 'h) dec, noinit) op" where
  "known_field n env decode wire_type loc =
     sbind
       (if PB_HTYPE (pf_type (it_field (ni_iter loc))) = PB_HTYPE_REPEATED \<and>
           it_pSize (ni_iter loc) = it_pData (ni_iter loc) then
          sbind
            (if ni_fixed_count_field loc \<noteq> Some (it_pos (ni_iter loc)) then
               sbind (load (fixed_count_wrong n env loc)) (\<lambda>wrong.
                 if wrong then d_error ''wrong size for fixed count field''
                 else store (store32 (de_local env n) 0))
             else ret ())
            (\<lambda>_. ret (loc\<lparr>ni_fixed_count_field := Some (it_pos (ni_iter loc)),
                          ni_iter := (ni_iter loc)\<lparr>it_pSize := de_local env n\<rparr>\<rparr>))
        else ret loc)
       (\<lambda>loc.
         let i = unat (it_required_field_index (ni_iter loc));
             loc = (if PB_HTYPE (pf_type (it_field (ni_iter loc))) = PB_HTYPE_REQUIRED \<and> i < PB_MAX_REQUIRED_FIELDS
               then loc\<lparr>ni_seen := (ni_seen loc)[i div 32 := ni_seen loc ! (i div 32) OR push_bit (i mod 32) 1]\<rparr>
               else loc)
         in sbind (decode_field n env decode wire_type (ni_iter loc)) (\<lambda>it. ret (loc\<lparr>ni_iter := it\<rparr>)))"

text \<open>One round of the loop: whether there is another, and the variables.\<close>

definition noinit_step ::
  "nat \<Rightarrow> ('s, 'h) dec_env \<Rightarrow> (bool \<Rightarrow> pb_field list \<Rightarrow> addr \<Rightarrow> (('s, 'h) dec, unit) op) \<Rightarrow>
   noinit \<Rightarrow> (('s, 'h) dec, bool \<times> noinit) op" where
  "noinit_step n env decode loc st =
     (case pb_decode_tag (d_in st) of (ok, wire_type, tag, eof, s) \<Rightarrow>
        let st = st\<lparr>d_in := s\<rparr> in
        if \<not> ok then if eof then (Some (False, loc), st) else (None, st)
        else case pb_field_iter_find (ni_iter loc) tag of (found, it) \<Rightarrow>
          let loc = loc\<lparr>ni_iter := it\<rparr> in
          sbind (if found then known_field n env decode wire_type loc
                 else unknown_field n env decode wire_type tag loc) (\<lambda>loc. ret (True, loc)) st)"

text \<open>A round reads at least one byte: there are no more than bytes.\<close>

primrec noinit_loop ::
  "nat \<Rightarrow> nat \<Rightarrow> ('s, 'h) dec_env \<Rightarrow> (bool \<Rightarrow> pb_field list \<Rightarrow> addr \<Rightarrow> (('s, 'h) dec, unit) op) \<Rightarrow>
   noinit \<Rightarrow> (('s, 'h) dec, noinit) op" where
  "noinit_loop 0 n env decode loc = fail"
| "noinit_loop (Suc k) n env decode loc = (\<lambda>st.
     if is_bytes_left (d_in st) = 0 then (Some loc, st)
     else sbind (noinit_step n env decode loc) (\<lambda>(more, loc). if more then noinit_loop k n env decode loc else ret loc) st)"

text \<open>The last of the fields that the iterator comes to: its index among the required ones, its
  type, and the iterator after it.\<close>

function last_field :: "pb_field_iter \<Rightarrow> u32 \<times> pb_type_t \<times> pb_field_iter" where
  "last_field it = (case pb_field_iter_next it of
     (True, it') \<Rightarrow> last_field it' | (False, it') \<Rightarrow> (it_required_field_index it, pf_type (it_field it), it'))"
  by pat_completeness auto
termination by (relation "measure (\<lambda>it. length (it_start it) - it_pos it)") (auto dest: iter_next_measure)

declare last_field.simps [simp del]

definition required_field_count :: "pb_field_iter \<Rightarrow> nat" where
  "required_field_count it =
     (case last_field it of (req_field_count, last_type, it') \<Rightarrow>
        let req_field_count = (if PB_HTYPE last_type = PB_HTYPE_REQUIRED \<and> pf_tag (it_field it') \<noteq> 0
          then req_field_count + 1 else req_field_count)
        in min (unat req_field_count) PB_MAX_REQUIRED_FIELDS)"

definition all_seen :: "u32 list \<Rightarrow> nat \<Rightarrow> bool" where
  "all_seen seen count \<longleftrightarrow> list_all (\<lambda>i. seen ! i = - 1) [0..<count div 32] \<and>
     (count mod 32 \<noteq> 0 \<longrightarrow> seen ! (count div 32) = drop_bit (32 - count mod 32) (- 1))"

text \<open>The body of \<open>pb_decode_noinit\<close>, given the decoder of submessages.\<close>

definition noinit_body ::
  "nat \<Rightarrow> ('s, 'h) dec_env \<Rightarrow> (bool \<Rightarrow> pb_field list \<Rightarrow> addr \<Rightarrow> (('s, 'h) dec, unit) op) \<Rightarrow>
   pb_field list \<Rightarrow> addr \<Rightarrow> (('s, 'h) dec, unit) op" where
  "noinit_body n env decode fs dest_struct =
     sbind (store (store32 (de_local env n) 0)) (\<lambda>_.
     sbind (\<lambda>st. noinit_loop (Suc (is_bytes_left (d_in st))) n env decode
       \<lparr>ni_iter = snd (pb_field_iter_begin fs dest_struct), ni_seen = [0, 0], ni_extension_range_start = 0,
        ni_fixed_count_field = None\<rparr> st) (\<lambda>loc.
     sbind (load (fixed_count_wrong n env loc)) (\<lambda>wrong.
       if wrong then d_error ''wrong size for fixed count field''
       else if \<not> all_seen (ni_seen loc) (required_field_count (ni_iter loc)) then d_error ''missing required field''
       else ret ())))"

text \<open>\<open>pb_decode\<close>, given \<open>pb_decode_noinit\<close>.\<close>

definition decode_with ::
  "nat \<Rightarrow> ('s, 'h) dec_env \<Rightarrow> (pb_field list \<Rightarrow> addr \<Rightarrow> (('s, 'h) dec, unit) op) \<Rightarrow>
   pb_field list \<Rightarrow> addr \<Rightarrow> (('s, 'h) dec, unit) op" where
  "decode_with n env noinit fs dest_struct =
     sbind (on_heap (pb_message_set_to_defaults n (de_descr env) fs dest_struct)) (\<lambda>_ st.
       case noinit fs dest_struct st of
         (Some u, st') \<Rightarrow> (Some u, st')
       | (None, st') \<Rightarrow> sbind (on_heap (pb_release n (de_descr env) (de_alloc env) fs dest_struct)) (\<lambda>_. fail) st')"

primrec pb_decode_noinit ::
  "nat \<Rightarrow> ('s, 'h) dec_env \<Rightarrow> pb_field list \<Rightarrow> addr \<Rightarrow> (('s, 'h) dec, unit) op" where
  "pb_decode_noinit 0 env = (\<lambda>_ _. fail)"
| "pb_decode_noinit (Suc n) env = noinit_body (Suc n) env (\<lambda>init.
     if init then decode_with n env (pb_decode_noinit n env) else pb_decode_noinit n env)"

definition pb_decode :: "nat \<Rightarrow> ('s, 'h) dec_env \<Rightarrow> pb_field list \<Rightarrow> addr \<Rightarrow> (('s, 'h) dec, unit) op" where
  "pb_decode n env = decode_with n env (pb_decode_noinit n env)"

definition delimited_with :: "(('s, 'h) dec, unit) op \<Rightarrow> (('s, 'h) dec, unit) op" where
  "delimited_with decode = sbind open_substream (\<lambda>parent st. case decode st of
     (status, st') \<Rightarrow> close_with parent (status \<noteq> None) st')"

definition pb_decode_delimited_noinit :: "nat \<Rightarrow> ('s, 'h) dec_env \<Rightarrow> pb_field list \<Rightarrow> addr \<Rightarrow> (('s, 'h) dec, unit) op" where
  "pb_decode_delimited_noinit n env fs dest_struct = delimited_with (pb_decode_noinit n env fs dest_struct)"

definition pb_decode_delimited :: "nat \<Rightarrow> ('s, 'h) dec_env \<Rightarrow> pb_field list \<Rightarrow> addr \<Rightarrow> (('s, 'h) dec, unit) op" where
  "pb_decode_delimited n env fs dest_struct = delimited_with (pb_decode n env fs dest_struct)"

definition pb_decode_nullterminated :: "nat \<Rightarrow> ('s, 'h) dec_env \<Rightarrow> pb_field list \<Rightarrow> addr \<Rightarrow> (('s, 'h) dec, unit) op" where
  "pb_decode_nullterminated n env fs dest_struct = pb_decode n env fs dest_struct"

end
