(* ===== verification/Pb_Safety.thy ===== *)
theory Pb_Safety
  imports Pb_Decode
begin

text \<open>
  Where the message decoder writes. For message types whose fields lie in the struct or are
  left to callbacks, decoding any input at all changes nothing outside the struct, whether it
  succeeds or fails; the condition is on the layout that the descriptors describe.
\<close>

section \<open>Footprints\<close>

text \<open>The addresses of a block, and operations that leave the rest of memory alone.\<close>

definition block :: "addr \<Rightarrow> nat \<Rightarrow> addr set" where
  "block a n = {x. unat (x - a) < n}"

definition confined :: "('m \<Rightarrow> memory) \<Rightarrow> addr set \<Rightarrow> ('m, 'a) op \<Rightarrow> bool" where
  "confined view R p \<longleftrightarrow> (\<forall>s x. x \<notin> R \<longrightarrow> view (snd (p s)) x = view s x)"

definition dec_mem :: "('s, 'h) dec \<Rightarrow> memory" where
  "dec_mem st = hp_mem (d_heap st)"

named_theorems confined_intros \<open>footprints of operations\<close>

lemma block_mono: "m \<le> n \<Longrightarrow> block a m \<subseteq> block a n"
  by (auto simp: block_def)

lemma block_inside: "unat (b - a) + m \<le> n \<Longrightarrow> block b m \<subseteq> block a n"
proof
  fix x assume le: "unat (b - a) + m \<le> n" and "x \<in> block b m"
  then have x: "unat (x - b) < m" by (simp add: block_def)
  have "x - a = (b - a) + (x - b)" by simp
  then have "unat (x - a) \<le> unat (b - a) + unat (x - b)" by (metis unat_plus_if' add_leD1 diff_le_self le_refl)
  with x le show "x \<in> block a n" by (simp add: block_def)
qed

lemma confinedI: "(\<And>s x. x \<notin> R \<Longrightarrow> view (snd (p s)) x = view s x) \<Longrightarrow> confined view R p"
  by (simp add: confined_def)

lemma confinedD: "confined view R p \<Longrightarrow> p s = (r, s') \<Longrightarrow> x \<notin> R \<Longrightarrow> view s' x = view s x"
  by (metis confined_def snd_conv)

lemma confined_ret [confined_intros]: "confined view R (ret x)"
  by (simp add: confined_def)

lemma confined_fail [confined_intros]: "confined view R fail"
  by (simp add: confined_def)

lemma confined_bind [confined_intros]:
  "confined view R p \<Longrightarrow> (\<And>x. confined view R (f x)) \<Longrightarrow> confined view R (sbind p f)"
  unfolding confined_def sbind_def by (auto split: prod.splits option.splits) (metis snd_conv)+

lemma confined_if [confined_intros]:
  "(b \<Longrightarrow> confined view R p) \<Longrightarrow> (\<not> b \<Longrightarrow> confined view R q) \<Longrightarrow> confined view R (if b then p else q)"
  by simp

lemma confined_at: "(\<And>y. confined view R (f y)) \<Longrightarrow> confined view R (\<lambda>s. f (g s) s)"
  by (simp add: confined_def)

lemma confined_choice: "confined view R p \<Longrightarrow> confined view R q \<Longrightarrow> confined view R (\<lambda>s. if b s then p s else q s)"
  by (simp add: confined_def)

lemma confined_after:
  assumes "confined view R p" and "\<And>r. confined view R (q r)"
  shows "confined view R (\<lambda>s. case p s of (r, s') \<Rightarrow> q r s')"
  using assms unfolding confined_def by (auto split: prod.splits) (metis snd_conv)

lemma confined_outcome: "confined view R p \<Longrightarrow> confined view R (sbind p (\<lambda>_ s. (r, s)))"
  unfolding confined_def sbind_def by (auto split: prod.splits option.splits) (metis snd_conv)+

lemma confined_peek [confined_intros]: "confined hp_mem R (peek f)"
  by (simp add: confined_def peek_def)

lemma confined_put: "(\<And>m x. x \<notin> R \<Longrightarrow> f m x = m x) \<Longrightarrow> confined hp_mem R (put f)"
  by (simp add: confined_def put_def)

lemma store_bytes_outside: "block a (length bs) \<subseteq> R \<Longrightarrow> x \<notin> R \<Longrightarrow> store_bytes a bs m x = m x"
  by (auto simp: store_bytes_def block_def)

lemma stores_outside:
  "block a 1 \<subseteq> R \<Longrightarrow> x \<notin> R \<Longrightarrow> store8 a v8 m x = m x"
  "block a 2 \<subseteq> R \<Longrightarrow> x \<notin> R \<Longrightarrow> store16 a v16 m x = m x"
  "block a 4 \<subseteq> R \<Longrightarrow> x \<notin> R \<Longrightarrow> store32 a v32 m x = m x"
  "block a 8 \<subseteq> R \<Longrightarrow> x \<notin> R \<Longrightarrow> store64 a v64 m x = m x"
  by (simp_all add: store8_def store16_def store32_def store64_def store_bytes_outside)

lemma confined_puts [confined_intros]:
  "block a 1 \<subseteq> R \<Longrightarrow> confined hp_mem R (put (store8 a v8))"
  "block a 2 \<subseteq> R \<Longrightarrow> confined hp_mem R (put (store16 a v16))"
  "block a 4 \<subseteq> R \<Longrightarrow> confined hp_mem R (put (store32 a v32))"
  "block a 8 \<subseteq> R \<Longrightarrow> confined hp_mem R (put (store64 a v64))"
  "block a (length bs) \<subseteq> R \<Longrightarrow> confined hp_mem R (put (store_bytes a bs))"
  by (auto intro!: confined_put simp: stores_outside store_bytes_outside)

lemma confined_on_stream [confined_intros]: "confined dec_mem R (on_stream p)"
  by (simp add: confined_def on_stream_def dec_mem_def split: prod.splits)

lemma confined_on_heap [confined_intros]: "confined hp_mem R p \<Longrightarrow> confined dec_mem R (on_heap p)"
  by (auto simp: confined_def on_heap_def dec_mem_def split: prod.splits) (metis snd_conv)

lemma confined_error [confined_intros]: "confined dec_mem R (d_error msg)"
  unfolding d_error_def by (rule confined_on_stream)

lemma confined_load [confined_intros]: "confined dec_mem R (load f)"
  unfolding load_def by (intro confined_intros)

lemma confined_stores [confined_intros]:
  "block a 1 \<subseteq> R \<Longrightarrow> confined dec_mem R (store (store8 a v8))"
  "block a 2 \<subseteq> R \<Longrightarrow> confined dec_mem R (store (store16 a v16))"
  "block a 4 \<subseteq> R \<Longrightarrow> confined dec_mem R (store (store32 a v32))"
  "block a 8 \<subseteq> R \<Longrightarrow> confined dec_mem R (store (store64 a v64))"
  "block a (length bs) \<subseteq> R \<Longrightarrow> confined dec_mem R (store (store_bytes a bs))"
  unfolding store_def by (intro confined_intros; assumption)+

lemma confined_substreams [confined_intros]:
  "confined dec_mem R open_substream" "confined dec_mem R (close_substream parent)"
  "confined dec_mem R (parent_error parent msg)" "confined dec_mem R (close_with parent status)"
proof -
  show "confined dec_mem R open_substream" "confined dec_mem R (close_substream parent)"
    by (simp_all add: confined_def open_substream_def close_substream_def dec_mem_def split: prod.splits option.splits)
  then show "confined dec_mem R (close_with parent status)" unfolding close_with_def by (intro confined_intros)
  show "confined dec_mem R (parent_error parent msg)"
    by (simp add: confined_def parent_error_def d_error_def on_stream_def dec_mem_def split: prod.splits)
qed

lemma confined_read_into [confined_intros]:
  assumes "block a n \<subseteq> R"
  shows "confined dec_mem R (read_into a n)"
proof -
  have "block a (length (take n bs)) \<subseteq> R" for bs :: "u8 list" using assms block_mono[of "length (take n bs)" n a] by simp
  then show ?thesis unfolding read_into_def by (intro confined_intros)
qed

section \<open>Values\<close>

definition elem_fits :: "pb_field \<Rightarrow> bool" where
  "elem_fits f \<longleftrightarrow> (PB_LTYPE (pf_type f) = PB_LTYPE_BOOL \<longrightarrow> 1 \<le> unat (pf_data_size f)) \<and>
     (PB_LTYPE (pf_type f) = PB_LTYPE_FIXED32 \<longrightarrow> 4 \<le> unat (pf_data_size f)) \<and>
     (PB_LTYPE (pf_type f) = PB_LTYPE_FIXED64 \<longrightarrow> 8 \<le> unat (pf_data_size f))"

lemma confined_clamp:
  assumes "block dest (unat (pf_data_size f)) \<subseteq> R"
  shows "confined dec_mem R (clamp_signed f dest v)" "confined dec_mem R (clamp_unsigned f dest w)"
proof -
  have b: "pf_data_size f = 8 \<Longrightarrow> block dest 8 \<subseteq> R" "pf_data_size f = 4 \<Longrightarrow> block dest 4 \<subseteq> R"
    "pf_data_size f = 2 \<Longrightarrow> block dest 2 \<subseteq> R" "pf_data_size f = 1 \<Longrightarrow> block dest 1 \<subseteq> R"
    using assms by simp_all
  show "confined dec_mem R (clamp_signed f dest v)" "confined dec_mem R (clamp_unsigned f dest w)"
    unfolding clamp_signed_def clamp_unsigned_def Let_def
    by - (intro confined_if confined_bind confined_stores(1-4) confined_ret confined_error b; assumption)+
qed

lemma confined_room:
  assumes "PB_ATYPE (pf_type f) \<noteq> PB_ATYPE_POINTER"
    and "alloc_size \<le> unat (pf_data_size f) \<Longrightarrow> confined dec_mem R (k dest)"
  shows "confined dec_mem R (sbind (claim_room env f dest len alloc_size msg) k)"
proof (cases "alloc_size \<le> unat (pf_data_size f)")
  case True
  then have "claim_room env f dest len alloc_size msg = ret dest" using assms(1) by (simp add: claim_room_def)
  then show ?thesis using assms(2)[OF True] by (simp add: sbind_def)
next
  case False
  then have "claim_room env f dest len alloc_size msg = d_error msg" using assms(1) by (simp add: claim_room_def)
  moreover have "sbind (d_error msg) k = d_error msg"
    by (rule ext) (simp add: d_error_def on_stream_def is_error_def sbind_def)
  ultimately show ?thesis by (simp add: confined_error)
qed

lemma confined_bytes:
  assumes "block dest (unat (pf_data_size f)) \<subseteq> R" and "PB_ATYPE (pf_type f) \<noteq> PB_ATYPE_POINTER"
  shows "confined dec_mem R (pb_dec_bytes env f dest)"
proof -
  have "confined dec_mem R (sbind (store (store32 dest len)) (\<lambda>_. read_into (dest + 4) (unat len)))"
    if "(unat len + 4) mod SIZE_MOD \<le> unat (pf_data_size f)" for len :: u32
  proof -
    have "unat len < 2 ^ 32" using unsigned_less[of len, where 'a = nat] by simp
    then have le: "unat len + 4 \<le> unat (pf_data_size f)" using that by (simp add: SIZE_MOD_def)
    have "block dest 4 \<subseteq> R" "block (dest + 4) (unat len) \<subseteq> R"
      using assms(1) le block_mono[of 4 "unat (pf_data_size f)" dest]
        block_inside[of "dest + 4" dest "unat len" "unat (pf_data_size f)"] by auto
    then show ?thesis by (intro confined_intros)
  qed
  then show ?thesis unfolding pb_dec_bytes_def Let_def
    by (intro confined_bind[OF confined_on_stream] confined_if confined_error confined_room assms(2))
qed

lemma confined_string:
  assumes "block dest (unat (pf_data_size f)) \<subseteq> R" and "PB_ATYPE (pf_type f) \<noteq> PB_ATYPE_POINTER"
  shows "confined dec_mem R (pb_dec_string env f dest)"
proof -
  have "confined dec_mem R (\<lambda>st. case read_into dest (unat len) st of (status, st') \<Rightarrow>
      sbind (store (store8 (dest + ucast len) 0)) (\<lambda>_ st''. (status, st'')) st')"
    if "\<not> unat (len + 1) < unat len" "unat (len + 1) \<le> unat (pf_data_size f)" for len :: u32
  proof -
    have "unat (len + 1) = Suc (unat len)" using that(1) by (metis unat_plus_simple Suc_eq_plus1 unat_1 word_le_nat_alt
          leI add.commute unatSuc unat_0 le_zero_eq not_less_zero)
    then have le: "Suc (unat len) \<le> unat (pf_data_size f)" using that(2) by simp
    have u: "unat (ucast len :: u64) = unat len"
      by (simp add: unsigned_ucast_eq take_bit_nat_eq_self order_less_le_trans[OF unsigned_less])
    have "block dest (unat len) \<subseteq> R" "block (dest + ucast len) 1 \<subseteq> R"
      using assms(1) le u block_mono[of "unat len" "unat (pf_data_size f)" dest]
        block_inside[of "dest + ucast len" dest 1 "unat (pf_data_size f)"] by auto
    then show ?thesis by (intro confined_after confined_outcome confined_intros)
  qed
  then show ?thesis unfolding pb_dec_string_def Let_def
    by (intro confined_bind[OF confined_on_stream] confined_if confined_error confined_room assms(2))
qed

lemma confined_submessage:
  assumes "\<And>init. confined dec_mem R (decode init (de_descr env (pf_ptr f)) dest)"
  shows "confined dec_mem R (pb_dec_submessage env decode f dest)"
proof -
  note close = confined_outcome[OF confined_substreams(2)]
  show ?thesis unfolding pb_dec_submessage_def
    by (intro confined_bind confined_substreams confined_if confined_after close assms)
qed

lemma confined_if_apply: "(b \<Longrightarrow> confined view R (p x y)) \<Longrightarrow> (\<not> b \<Longrightarrow> confined view R (q x y)) \<Longrightarrow>
    confined view R ((if b then p else q) x y)"
  by simp

lemma confined_func:
  assumes b: "block dest (unat (pf_data_size f)) \<subseteq> R" and "elem_fits f" and a: "PB_ATYPE (pf_type f) \<noteq> PB_ATYPE_POINTER"
    and sub: "PB_LTYPE (pf_type f) = PB_LTYPE_SUBMESSAGE \<Longrightarrow> (\<And>init. confined dec_mem R (decode init (de_descr env (pf_ptr f)) dest))"
  shows "confined dec_mem R (PB_DECODERS env decode (PB_LTYPE (pf_type f)) f dest)"
proof -
  have small: "block dest k \<subseteq> R" if "k \<le> unat (pf_data_size f)" for k using block_mono[OF that] b by auto
  have bool: "confined dec_mem R (pb_dec_bool f dest)" if "PB_LTYPE (pf_type f) = PB_LTYPE_BOOL"
    unfolding pb_dec_bool_def using small[of 1] that assms(2) by (intro confined_intros) (simp add: elem_fits_def)
  have f32: "confined dec_mem R (pb_dec_fixed32 f dest)" if "PB_LTYPE (pf_type f) = PB_LTYPE_FIXED32"
    unfolding pb_dec_fixed32_def using small[of 4] that assms(2) by (intro confined_intros) (simp add: elem_fits_def)
  have f64: "confined dec_mem R (pb_dec_fixed64 f dest)" if "PB_LTYPE (pf_type f) = PB_LTYPE_FIXED64"
    unfolding pb_dec_fixed64_def using small[of 8] that assms(2) by (intro confined_intros) (simp add: elem_fits_def)
  have ints: "confined dec_mem R (pb_dec_varint f dest)" "confined dec_mem R (pb_dec_uvarint f dest)"
    "confined dec_mem R (pb_dec_svarint f dest)"
    unfolding pb_dec_varint_def pb_dec_uvarint_def pb_dec_svarint_def Let_def
    by (intro confined_intros confined_clamp b)+
  have flb: "confined dec_mem R (pb_dec_fixed_length_bytes f dest)"
    unfolding pb_dec_fixed_length_bytes_def using b by (intro confined_intros) simp_all
  show ?thesis unfolding PB_DECODERS_def
    by (intro confined_if_apply bool f32 f64 ints flb confined_bytes confined_string confined_submessage sub
        confined_fail a b) assumption+
qed

section \<open>Layouts\<close>

text \<open>Message types without pointer fields and extensions, down to a depth.\<close>

primrec stored_inline :: "nat \<Rightarrow> (addr \<Rightarrow> pb_field list) \<Rightarrow> pb_field list \<Rightarrow> bool" where
  "stored_inline 0 descr fs \<longleftrightarrow> True"
| "stored_inline (Suc n) descr fs \<longleftrightarrow> fields_ok fs \<and>
     (\<forall>f\<in>set fs. PB_ATYPE (pf_type f) \<in> {PB_ATYPE_STATIC, PB_ATYPE_CALLBACK} \<and> PB_LTYPE (pf_type f) \<noteq> PB_LTYPE_EXTENSION \<and>
       (PB_LTYPE (pf_type f) = PB_LTYPE_SUBMESSAGE \<and> PB_ATYPE (pf_type f) = PB_ATYPE_STATIC \<longrightarrow>
         stored_inline n descr (descr (pf_ptr f))))"

text \<open>The data and the counter of a field lie in the region. A fixed-size array has no counter,
  but \<open>pb_field_set_to_default\<close> clears one: where the data begins.\<close>

definition field_fits :: "addr set \<Rightarrow> pb_field_iter \<Rightarrow> bool" where
  "field_fits R it \<longleftrightarrow>
     (let f = it_field it; ds = unat (pf_data_size f); htype = PB_HTYPE (pf_type f) in
      PB_ATYPE (pf_type f) = PB_ATYPE_STATIC \<longrightarrow> elem_fits f \<and>
        (htype = PB_HTYPE_REPEATED \<or> htype = PB_HTYPE_ONEOF \<longrightarrow> block (it_pSize it) 4 \<subseteq> R) \<and>
        (htype = PB_HTYPE_OPTIONAL \<and> it_pSize it \<noteq> it_pData it \<longrightarrow> block (it_pSize it) 1 \<subseteq> R) \<and>
        (if htype = PB_HTYPE_REPEATED
         then ds * unat (pf_array_size f) < 2 ^ 32 \<and> block (it_pData it) (ds * unat (pf_array_size f)) \<subseteq> R
         else block (it_pData it) ds \<subseteq> R))"

definition item_bound :: "pb_field \<Rightarrow> nat" where
  "item_bound f = (if PB_HTYPE (pf_type f) = PB_HTYPE_REPEATED then unat (pf_array_size f) else 1)"

primrec layout :: "nat \<Rightarrow> (addr \<Rightarrow> pb_field list) \<Rightarrow> addr set \<Rightarrow> pb_field list \<Rightarrow> addr \<Rightarrow> bool" where
  "layout 0 descr R fs dest \<longleftrightarrow> True"
| "layout (Suc n) descr R fs dest \<longleftrightarrow>
     (\<forall>k<length fs. let it = iter_at fs dest k; f = it_field it in
       field_fits R it \<and>
       (PB_ATYPE (pf_type f) = PB_ATYPE_STATIC \<and> PB_LTYPE (pf_type f) = PB_LTYPE_SUBMESSAGE \<longrightarrow>
         (\<forall>i<item_bound f. layout n descr R (descr (pf_ptr f)) (it_pData it + of_nat (unat (pf_data_size f) * i)))))"

lemma field_fits_mono: "R \<subseteq> S \<Longrightarrow> field_fits R it \<Longrightarrow> field_fits S it"
  unfolding field_fits_def Let_def by (meson order_trans)

lemma layout_mono: "R \<subseteq> S \<Longrightarrow> layout n descr R fs dest \<Longrightarrow> layout n descr S fs dest"
proof (induction n arbitrary: fs dest)
  case (Suc n)
  then show ?case unfolding layout.simps Let_def using field_fits_mono by blast
qed simp

lemma layout_at:
  assumes "layout (Suc n) descr R fs dest" and "fields_ok fs" and "iterator fs dest it"
  shows "field_fits R it"
    and "PB_ATYPE (pf_type (it_field it)) = PB_ATYPE_STATIC \<Longrightarrow> PB_LTYPE (pf_type (it_field it)) = PB_LTYPE_SUBMESSAGE \<Longrightarrow>
      i < item_bound (it_field it) \<Longrightarrow>
      layout n descr R (descr (pf_ptr (it_field it))) (it_pData it + of_nat (unat (pf_data_size (it_field it)) * i))"
  using assms(1) iterator_at[OF assms(3,2)] unfolding layout.simps Let_def by metis+

lemma iterator_field: "fields_ok fs \<Longrightarrow> iterator fs dest it \<Longrightarrow> it_field it \<in> set fs"
  using iterator_at[of fs dest it] iterator_start[of fs dest it] by (simp add: field_at_def)

lemma inline_at:
  assumes "stored_inline (Suc n) descr fs" and "iterator fs dest it"
  shows "PB_ATYPE (pf_type (it_field it)) \<in> {PB_ATYPE_STATIC, PB_ATYPE_CALLBACK}"
    and "PB_LTYPE (pf_type (it_field it)) \<noteq> PB_LTYPE_EXTENSION"
    and "PB_LTYPE (pf_type (it_field it)) = PB_LTYPE_SUBMESSAGE \<Longrightarrow> PB_ATYPE (pf_type (it_field it)) = PB_ATYPE_STATIC \<Longrightarrow>
      stored_inline n descr (descr (pf_ptr (it_field it)))"
  using assms iterator_field[of fs dest it] by auto

section \<open>Defaults and release\<close>

lemma confined_iter_each:
  assumes "\<And>it. iterator fs dest it \<Longrightarrow> confined view R (f it)" and "iterator fs dest it"
  shows "confined view R (iter_each f it)"
  using assms
proof (induction f it rule: iter_each.induct)
  case (1 f it)
  obtain more it' where n: "pb_field_iter_next it = (more, it')" by (cases "pb_field_iter_next it")
  have "iterator fs dest it'" using iterator.advanced[OF 1(3)] n by simp
  then have "confined view R (case more of True \<Rightarrow> iter_each f it' | False \<Rightarrow> ret ())"
    using 1(1)[OF n[symmetric]] 1(2) by (cases more) (simp_all add: confined_ret)
  then show ?case unfolding iter_each.simps[of f it] n prod.case by (intro confined_bind 1(2,3))
qed

lemma confined_message_each:
  assumes "\<And>it. iterator fs dest it \<Longrightarrow> confined view R (f it)"
  shows "confined view R (message_each f fs dest)"
proof (cases "pb_field_iter_begin fs dest")
  case (Pair more it)
  then have "iterator fs dest it" using iterator.started[of fs dest] by simp
  from confined_iter_each[OF assms this] Pair show ?thesis
    by (cases more) (simp_all add: message_each_def confined_ret)
qed

lemma confined_defaults:
  assumes "stored_inline n descr fs" and "layout n descr R fs dest" and "iterator fs dest it"
  shows "confined hp_mem R (pb_field_set_to_default n descr it :: ('h heap, unit) op)"
  using assms
proof (induction n arbitrary: fs dest it)
  case 0
  show ?case unfolding pb_field_set_to_default.simps by (rule confined_fail)
next
  case (Suc n)
  have ok: "fields_ok fs" using Suc.prems(1) by simp
  note at = inline_at[OF Suc.prems(1,3)] and fit = layout_at[OF Suc.prems(2) ok Suc.prems(3)]
  let ?f = "it_field it"
  have sub: "confined hp_mem R (message_each (pb_field_set_to_default n descr :: _ \<Rightarrow> ('h heap, unit) op)
      (descr (pf_ptr ?f)) (it_pData it))"
    if "PB_ATYPE (pf_type ?f) = PB_ATYPE_STATIC" "PB_LTYPE (pf_type ?f) = PB_LTYPE_SUBMESSAGE"
      "\<not> (PB_HTYPE (pf_type ?f) = PB_HTYPE_REPEATED \<or> PB_HTYPE (pf_type ?f) = PB_HTYPE_ONEOF)"
  proof -
    have "layout n descr R (descr (pf_ptr ?f)) (it_pData it)"
      using fit(2)[OF that(1,2), of 0] that(3) by (simp add: item_bound_def)
    with at(3)[OF that(2,1)] show ?thesis by (intro confined_message_each Suc.IH)
  qed
  have fits: "field_fits R it" by (rule fit(1))
  have data: "confined hp_mem R (put (store_bytes (it_pData it) (replicate (unat (pf_data_size ?f)) 0)))"
    "confined hp_mem R (put (\<lambda>m. store_bytes (it_pData it) (load_bytes m p (unat (pf_data_size ?f))) m))"
    if "PB_ATYPE (pf_type ?f) = PB_ATYPE_STATIC"
      "\<not> (PB_HTYPE (pf_type ?f) = PB_HTYPE_REPEATED \<or> PB_HTYPE (pf_type ?f) = PB_HTYPE_ONEOF)" for p
  proof -
    have "block (it_pData it) (unat (pf_data_size ?f)) \<subseteq> R" using fits that by (simp add: field_fits_def Let_def)
    then show "confined hp_mem R (put (store_bytes (it_pData it) (replicate (unat (pf_data_size ?f)) 0)))"
      "confined hp_mem R (put (\<lambda>m. store_bytes (it_pData it) (load_bytes m p (unat (pf_data_size ?f))) m))"
      by (auto intro!: confined_put store_bytes_outside)
  qed
  have heads: "PB_ATYPE (pf_type ?f) = PB_ATYPE_STATIC \<Longrightarrow>
      PB_HTYPE (pf_type ?f) = PB_HTYPE_REPEATED \<or> PB_HTYPE (pf_type ?f) = PB_HTYPE_ONEOF \<Longrightarrow>
      confined hp_mem R (put (store32 (it_pSize it) 0))"
    "PB_ATYPE (pf_type ?f) = PB_ATYPE_STATIC \<Longrightarrow> PB_HTYPE (pf_type ?f) = PB_HTYPE_OPTIONAL \<and> it_pSize it \<noteq> it_pData it \<Longrightarrow>
      confined hp_mem R (put (store8 (it_pSize it) 0))"
    using fits by (auto intro!: confined_puts simp: field_fits_def Let_def)
  have np: "PB_ATYPE (pf_type ?f) \<noteq> PB_ATYPE_POINTER" using at(1) by (auto simp: pb_types)
  show ?case
    unfolding pb_field_set_to_default.simps Let_def
    by (simp only: at(2) np if_False, intro confined_if confined_bind confined_ret heads sub data; (assumption | simp))
qed

lemma confined_set_to_defaults:
  "stored_inline n descr fs \<Longrightarrow> layout n descr R fs dest \<Longrightarrow> confined hp_mem R (pb_message_set_to_defaults n descr fs dest)"
  unfolding pb_message_set_to_defaults_def by (rule confined_message_each) (rule confined_defaults)

lemma confined_release_items: "(\<And>p. confined hp_mem R (release p)) \<Longrightarrow> confined hp_mem R (release_items k release p ds)"
  by (induction k arbitrary: p) (auto intro: confined_intros)

lemma confined_release:
  assumes "stored_inline n descr fs" and "iterator fs dest it"
  shows "confined hp_mem R (pb_release_single_field n descr al it)"
  using assms
proof (induction n arbitrary: fs dest it)
  case 0
  show ?case unfolding pb_release_single_field.simps by (rule confined_fail)
next
  case (Suc n)
  note at = inline_at[OF Suc.prems]
  let ?f = "it_field it"
  have np: "PB_ATYPE (pf_type ?f) \<noteq> PB_ATYPE_POINTER" using at(1) by (auto simp: pb_types)
  have items: "confined hp_mem R (release_items k (release_fields (pb_release_single_field n descr al) (descr (pf_ptr ?f))) p ds)"
    if "PB_LTYPE (pf_type ?f) = PB_LTYPE_SUBMESSAGE \<and> PB_ATYPE (pf_type ?f) \<noteq> PB_ATYPE_CALLBACK" for k p ds
  proof (rule confined_release_items)
    fix p
    have "stored_inline n descr (descr (pf_ptr ?f))" using at that by blast
    then show "confined hp_mem R (release_fields (pb_release_single_field n descr al) (descr (pf_ptr ?f)) p)"
      unfolding release_fields_def by (intro confined_if confined_ret confined_message_each Suc.IH)
  qed
  show ?case
    unfolding pb_release_single_field.simps Let_def
    by (simp only: at(2) np if_False, intro confined_if confined_bind confined_ret confined_peek items; assumption)
qed

section \<open>Iterators of the main loop\<close>

text \<open>Of a fixed-size array the loop makes the counter its own variable.\<close>

definition loop_iterator :: "addr \<Rightarrow> pb_field list \<Rightarrow> addr \<Rightarrow> pb_field_iter \<Rightarrow> bool" where
  "loop_iterator own fs dest it \<longleftrightarrow> iterator fs dest it \<or>
     (\<exists>it0. iterator fs dest it0 \<and> PB_HTYPE (pf_type (it_field it0)) = PB_HTYPE_REPEATED \<and> it = it0\<lparr>it_pSize := own\<rparr>)"

lemma next_redirected:
  assumes "pf_tag (it_field it) \<noteq> 0" and "PB_HTYPE (pf_type (it_field it)) = PB_HTYPE_REPEATED"
  shows "pb_field_iter_next (it\<lparr>it_pSize := own\<rparr>) = pb_field_iter_next it"
  using assms by (simp add: pb_field_iter_next_def Let_def pb_types)

lemma find_loop_redirected:
  assumes "pf_tag (it_field it) \<noteq> 0" and "PB_HTYPE (pf_type (it_field it)) = PB_HTYPE_REPEATED"
  shows "iter_find_loop (Suc k) start wanted (it\<lparr>it_pSize := own\<rparr>) =
    (if wanted (it_field it) then (True, it\<lparr>it_pSize := own\<rparr>) else iter_find_loop (Suc k) start wanted it)"
  using next_redirected[OF assms, of own] by (simp add: Let_def)

lemma iter_find_loop_iterator:
  "iterator fs dest it \<Longrightarrow> iter_find_loop k start wanted it = (found, it') \<Longrightarrow> iterator fs dest it'"
proof (induction k arbitrary: it)
  case (Suc k)
  have "iterator fs dest (snd (pb_field_iter_next it))" using Suc.prems(1) by (rule iterator.advanced)
  with Suc show ?case by (auto simp: Let_def split: if_splits)
qed simp

lemma find_loop_iterator:
  assumes "loop_iterator own fs dest it" and "fields_ok fs" and "iter_find_loop (Suc k) start wanted it = (found, it')"
  shows "loop_iterator own fs dest it'"
  using assms(1) unfolding loop_iterator_def
proof (elim disjE exE conjE)
  assume "iterator fs dest it"
  from iter_find_loop_iterator[OF this assms(3)] show "iterator fs dest it' \<or>
      (\<exists>it0. iterator fs dest it0 \<and> PB_HTYPE (pf_type (it_field it0)) = PB_HTYPE_REPEATED \<and> it' = it0\<lparr>it_pSize := own\<rparr>)" ..
next
  fix it0 assume it0: "iterator fs dest it0" "PB_HTYPE (pf_type (it_field it0)) = PB_HTYPE_REPEATED" "it = it0\<lparr>it_pSize := own\<rparr>"
  have "it_field it0 \<in> set fs" by (rule iterator_field[OF assms(2) it0(1)])
  then have "pf_tag (it_field it0) \<noteq> 0" using assms(2) by (simp add: fields_ok_def)
  from find_loop_redirected[OF this it0(2), of k start wanted own] assms(3) it0(3)
  have "it' = it0\<lparr>it_pSize := own\<rparr> \<or> iter_find_loop (Suc k) start wanted it0 = (found, it')"
    by (auto split: if_splits)
  then show "iterator fs dest it' \<or>
      (\<exists>it0. iterator fs dest it0 \<and> PB_HTYPE (pf_type (it_field it0)) = PB_HTYPE_REPEATED \<and> it' = it0\<lparr>it_pSize := own\<rparr>)"
    using it0(1,2) iter_find_loop_iterator[OF it0(1)] by blast
qed

lemma find_iterator: "loop_iterator own fs dest it \<Longrightarrow> fields_ok fs \<Longrightarrow> pb_field_iter_find it tag = (found, it') \<Longrightarrow>
    loop_iterator own fs dest it'"
  unfolding pb_field_iter_find_def by (rule find_loop_iterator)

lemma find_extension_iterator: "loop_iterator own fs dest it \<Longrightarrow> fields_ok fs \<Longrightarrow> find_extension_field it = (found, it') \<Longrightarrow>
    loop_iterator own fs dest it'"
  unfolding find_extension_field_def by (rule find_loop_iterator)

lemma loop_iterator_field: "loop_iterator own fs dest it \<Longrightarrow> fields_ok fs \<Longrightarrow> it_field it \<in> set fs"
  by (auto simp: loop_iterator_def iterator_field)

text \<open>The layout of the field an iterator of the loop is at, in a region with the loop's variable.\<close>

lemma loop_iterator_fits:
  assumes "layout (Suc n) descr R fs dest" and "fields_ok fs" and "loop_iterator own fs dest it" and own: "block own 4 \<subseteq> R"
  shows "field_fits R it"
    and "PB_ATYPE (pf_type (it_field it)) = PB_ATYPE_STATIC \<Longrightarrow> PB_LTYPE (pf_type (it_field it)) = PB_LTYPE_SUBMESSAGE \<Longrightarrow>
      i < item_bound (it_field it) \<Longrightarrow>
      layout n descr R (descr (pf_ptr (it_field it))) (it_pData it + of_nat (unat (pf_data_size (it_field it)) * i))"
proof -
  obtain it0 where it0: "iterator fs dest it0" "it = it0 \<or> it = it0\<lparr>it_pSize := own\<rparr> \<and>
      PB_HTYPE (pf_type (it_field it0)) = PB_HTYPE_REPEATED"
    using assms(3) by (auto simp: loop_iterator_def)
  note fit = layout_at[OF assms(1,2) it0(1)]
  show "field_fits R it" using fit(1) it0(2) own by (auto simp: field_fits_def Let_def pb_types)
  show "PB_ATYPE (pf_type (it_field it)) = PB_ATYPE_STATIC \<Longrightarrow> PB_LTYPE (pf_type (it_field it)) = PB_LTYPE_SUBMESSAGE \<Longrightarrow>
      i < item_bound (it_field it) \<Longrightarrow>
      layout n descr R (descr (pf_ptr (it_field it))) (it_pData it + of_nat (unat (pf_data_size (it_field it)) * i))"
    using fit(2)[of i] it0(2) by auto
qed

section \<open>Decoding a field\<close>

text \<open>The caller's functions write inside the region, and the loop variables lie in it.\<close>

definition env_confined :: "addr set \<Rightarrow> ('s, 'h) dec_env \<Rightarrow> bool" where
  "env_confined R env \<longleftrightarrow> (\<forall>fn f a. confined dec_mem R (de_decode env fn f a)) \<and> (\<forall>k. block (de_local env k) 4 \<subseteq> R)"

text \<open>The decoder of submessages writes inside the region on messages that lie in it.\<close>

definition inside :: "addr set \<Rightarrow> (addr \<Rightarrow> pb_field list) \<Rightarrow> pb_field list \<Rightarrow> addr \<Rightarrow> bool" where
  "inside R descr fs dest \<longleftrightarrow> (\<forall>n. stored_inline n descr fs \<and> layout n descr R fs dest)"

definition sub_confined ::
  "addr set \<Rightarrow> ('s, 'h) dec_env \<Rightarrow> (bool \<Rightarrow> pb_field list \<Rightarrow> addr \<Rightarrow> (('s, 'h) dec, unit) op) \<Rightarrow> bool" where
  "sub_confined R env decode \<longleftrightarrow> (\<forall>init fs dest. inside R (de_descr env) fs dest \<longrightarrow> confined dec_mem R (decode init fs dest))"

lemma inside_fields: "inside R descr fs dest \<Longrightarrow> fields_ok fs"
  unfolding inside_def by (metis stored_inline.simps(2))

lemma inside_at:
  assumes "inside R descr fs dest" and "loop_iterator own fs dest it" and "block own 4 \<subseteq> R"
  shows "field_fits R it" and "PB_ATYPE (pf_type (it_field it)) \<in> {PB_ATYPE_STATIC, PB_ATYPE_CALLBACK}"
    and "PB_LTYPE (pf_type (it_field it)) \<noteq> PB_LTYPE_EXTENSION"
    and "PB_ATYPE (pf_type (it_field it)) = PB_ATYPE_STATIC \<Longrightarrow> PB_LTYPE (pf_type (it_field it)) = PB_LTYPE_SUBMESSAGE \<Longrightarrow>
      i < item_bound (it_field it) \<Longrightarrow>
      inside R descr (descr (pf_ptr (it_field it))) (it_pData it + of_nat (unat (pf_data_size (it_field it)) * i))"
proof -
  note ok = inside_fields[OF assms(1)]
  have l: "layout n descr R fs dest" and s: "stored_inline n descr fs" for n using assms(1) by (simp_all add: inside_def)
  have f: "it_field it \<in> set fs" by (rule loop_iterator_field[OF assms(2) ok])
  show "field_fits R it" by (rule loop_iterator_fits(1)[OF l ok assms(2,3)])
  show "PB_ATYPE (pf_type (it_field it)) \<in> {PB_ATYPE_STATIC, PB_ATYPE_CALLBACK}"
    "PB_LTYPE (pf_type (it_field it)) \<noteq> PB_LTYPE_EXTENSION"
    using s[of "Suc 0"] f by simp_all
  assume "PB_ATYPE (pf_type (it_field it)) = PB_ATYPE_STATIC" "PB_LTYPE (pf_type (it_field it)) = PB_LTYPE_SUBMESSAGE"
    "i < item_bound (it_field it)"
  then show "inside R descr (descr (pf_ptr (it_field it))) (it_pData it + of_nat (unat (pf_data_size (it_field it)) * i))"
    using loop_iterator_fits(2)[OF l ok assms(2,3)] s[of "Suc _"] f unfolding inside_def stored_inline.simps by blast
qed

lemma next_item_eq:
  assumes "unat (pf_data_size (it_field it)) * unat (pf_array_size (it_field it)) < 2 ^ 32" and "c < pf_array_size (it_field it)"
  shows "next_item it base c = base + of_nat (unat (pf_data_size (it_field it)) * unat c)"
    and "block (next_item it base c) (unat (pf_data_size (it_field it))) \<subseteq>
      block base (unat (pf_data_size (it_field it)) * unat (pf_array_size (it_field it)))"
proof -
  let ?ds = "pf_data_size (it_field it)" and ?as = "pf_array_size (it_field it)"
  have c: "Suc (unat c) \<le> unat ?as" using assms(2) by (simp add: word_less_nat_alt)
  then have le: "unat ?ds * Suc (unat c) \<le> unat ?ds * unat ?as" by (rule mult_le_mono2)
  then have lt: "unat ?ds * unat c < 2 ^ 32" using assms(1) by simp
  then have u: "unat (?ds * c) = unat ?ds * unat c" by (simp add: unat_word_ariths)
  have up: "unat (ucast (?ds * c) :: u64) = unat ?ds * unat c"
    using lt u by (simp add: unsigned_ucast_eq take_bit_nat_eq_self)
  have "unat (of_nat k :: u64) = k" if "k < 2 ^ 32" for k
    using that by (simp add: unsigned_of_nat take_bit_nat_eq_self)
  then have "ucast (?ds * c) = (of_nat (unat ?ds * unat c) :: u64)"
    using up lt by (simp only: word_unat_eq_iff)
  then show "next_item it base c = base + of_nat (unat ?ds * unat c)" by (simp add: next_item_def)
  show "block (next_item it base c) (unat ?ds) \<subseteq> block base (unat ?ds * unat ?as)"
    by (rule block_inside) (use up le in \<open>simp add: next_item_def\<close>)
qed

lemma confined_bump: "block (it_pSize it) 4 \<subseteq> R \<Longrightarrow> confined dec_mem R (bump it)"
  unfolding bump_def store_def by (intro confined_on_heap confined_put) (rule stores_outside(3))

lemma confined_guarded: "(c \<Longrightarrow> confined view R p) \<Longrightarrow> confined view R q \<Longrightarrow> confined view R (\<lambda>s. if b s \<and> c then p s else q s)"
  by (auto simp: confined_def)

lemma confined_option:
  assumes "confined view R p" and "confined view R q" and "\<And>x. confined view R (f x)"
  shows "confined view R (\<lambda>s. case p s of (None, s') \<Rightarrow> q s' | (Some x, s') \<Rightarrow> f x s')"
proof (rule confinedI)
  fix s x assume x: "x \<notin> R"
  obtain r s' where p: "p s = (r, s')" by fastforce
  show "view (snd (case p s of (None, s') \<Rightarrow> q s' | (Some x, s') \<Rightarrow> f x s')) x = view s x"
    using confinedD[OF assms(1) p x] assms(2,3) x p by (cases r) (auto simp: confined_def)
qed

lemma confined_packed_loop:
  assumes "\<And>c. c < pf_array_size (it_field it) \<Longrightarrow> confined dec_mem R (func (it_field it) (next_item it (it_pData it) c))"
    and "block (it_pSize it) 4 \<subseteq> R"
  shows "confined dec_mem R (packed_loop k func it)"
proof (induction k)
  case 0
  show ?case unfolding packed_loop.simps by (rule confined_fail)
next
  case (Suc k)
  have round: "confined dec_mem R (\<lambda>st. case p st of (None, st') \<Rightarrow> (Some False, st')
      | (Some _, st') \<Rightarrow> sbind (bump it) (\<lambda>_. packed_loop k func it) st')" if p: "confined dec_mem R p" for p
    using confined_option[OF p confined_ret[of dec_mem R False], of "\<lambda>_. sbind (bump it) (\<lambda>_. packed_loop k func it)"]
      confined_bind[OF confined_bump[OF assms(2)] Suc] unfolding ret_apply by blast
  have finished: "confined dec_mem R (\<lambda>st. (Some True, st))" by (simp add: confined_def)
  show ?case unfolding packed_loop.simps
    by (intro confined_bind confined_load confined_guarded round finished assms(1))
qed

lemma confined_static:
  assumes ins: "inside R (de_descr env) fs dest" and it: "loop_iterator own fs dest it" and own: "block own 4 \<subseteq> R"
    and sub: "sub_confined R env decode" and static: "PB_ATYPE (pf_type (it_field it)) = PB_ATYPE_STATIC"
  shows "confined dec_mem R (decode_static_field n env decode wire_type it)"
proof -
  let ?f = "it_field it"
  note at = inside_at[OF ins it own]
  have fits: "field_fits R it" by (rule at(1))
  have np: "PB_ATYPE (pf_type ?f) \<noteq> PB_ATYPE_POINTER" using static by (simp add: pb_types)
  have elem: "elem_fits ?f" using fits static by (simp add: field_fits_def Let_def)
  have sub_at: "confined dec_mem R (decode init (de_descr env (pf_ptr ?f)) (it_pData it + of_nat (unat (pf_data_size ?f) * i)))"
    if "PB_LTYPE (pf_type ?f) = PB_LTYPE_SUBMESSAGE" "i < item_bound ?f" for init i
    using sub at(4)[OF static that] unfolding sub_confined_def by blast
  have one: "confined dec_mem R (PB_DECODERS env decode (PB_LTYPE (pf_type ?f)) ?f (it_pData it))"
    if "PB_HTYPE (pf_type ?f) \<noteq> PB_HTYPE_REPEATED"
    using fits static that sub_at[of 0] by (intro confined_func elem np) (simp_all add: field_fits_def item_bound_def Let_def)
  have item: "confined dec_mem R (PB_DECODERS env decode (PB_LTYPE (pf_type ?f)) ?f (next_item it (it_pData it) c))"
    if "PB_HTYPE (pf_type ?f) = PB_HTYPE_REPEATED" "c < pf_array_size ?f" for c
  proof -
    have size: "unat (pf_data_size ?f) * unat (pf_array_size ?f) < 2 ^ 32"
      "block (it_pData it) (unat (pf_data_size ?f) * unat (pf_array_size ?f)) \<subseteq> R"
      using fits static that(1) by (simp_all add: field_fits_def Let_def)
    note next_item = next_item_eq[OF size(1) that(2), of "it_pData it"]
    have "unat c < item_bound ?f" using that by (simp add: item_bound_def word_less_nat_alt)
    from sub_at[OF _ this] next_item size(2) show ?thesis by (intro confined_func elem np) auto
  qed
  have rep: "block (it_pSize it) 4 \<subseteq> R" if "PB_HTYPE (pf_type ?f) = PB_HTYPE_REPEATED"
    using fits static that by (simp add: field_fits_def Let_def)
  have union: "block (it_pSize it) 4 \<subseteq> R" if "PB_HTYPE (pf_type ?f) = PB_HTYPE_ONEOF"
    using fits static that by (simp add: field_fits_def Let_def)
  have flag: "block (it_pSize it) 1 \<subseteq> R" if "PB_HTYPE (pf_type ?f) = PB_HTYPE_OPTIONAL" "it_pSize it \<noteq> it_pData it"
    using fits static that by (simp add: field_fits_def Let_def)
  have packed: "confined dec_mem R (\<lambda>st. packed_loop (Suc (is_bytes_left (d_in st))) (PB_DECODERS env decode (PB_LTYPE (pf_type ?f))) it st)"
    if "PB_HTYPE (pf_type ?f) = PB_HTYPE_REPEATED"
  proof -
    have "confined dec_mem R (packed_loop k (PB_DECODERS env decode (PB_LTYPE (pf_type ?f))) it)" for k
      by (rule confined_packed_loop) (use item rep that in blast)+
    then show ?thesis unfolding confined_def by blast
  qed
  have closing: "confined dec_mem R (\<lambda>st. if is_bytes_left (d_in st) \<noteq> 0 then parent_error parent msg st else close_with parent status st)"
    for parent msg status by (intro confined_choice confined_substreams)
  have union_data: "confined dec_mem R (store (store_bytes (it_pData it) (replicate (unat (pf_data_size ?f)) 0)))"
    if "PB_HTYPE (pf_type ?f) = PB_HTYPE_ONEOF"
  proof -
    have "block (it_pData it) (unat (pf_data_size ?f)) \<subseteq> R" using fits static that by (simp add: field_fits_def Let_def pb_types)
    then show ?thesis by (intro confined_stores) simp
  qed
  have union_defaults: "confined dec_mem R (on_heap (pb_message_set_to_defaults n (de_descr env) (de_descr env (pf_ptr ?f)) (it_pData it)))"
    if "PB_HTYPE (pf_type ?f) = PB_HTYPE_ONEOF" "PB_LTYPE (pf_type ?f) = PB_LTYPE_SUBMESSAGE \<and> other"  for other
  proof -
    have "inside R (de_descr env) (de_descr env (pf_ptr ?f)) (it_pData it)"
      using at(4)[OF static _, of 0] that by (simp add: item_bound_def pb_types)
    then show ?thesis by (intro confined_on_heap confined_set_to_defaults) (simp_all add: inside_def)
  qed
  show ?thesis
    unfolding decode_static_field_def Let_def
    by (intro confined_if confined_bind confined_substreams confined_ret confined_error confined_load confined_bump
        confined_stores(1,3) one item packed closing union_data union_defaults flag rep union; (assumption | simp add: pb_types not_le)?)
qed

text \<open>What an operation returns, when it does.\<close>

definition yields :: "('m, 'a) op \<Rightarrow> ('a \<Rightarrow> bool) \<Rightarrow> bool" where
  "yields p Q \<longleftrightarrow> (\<forall>s x s'. p s = (Some x, s') \<longrightarrow> Q x)"

lemma confined_bind_yields:
  "confined view R p \<Longrightarrow> yields p Q \<Longrightarrow> (\<And>x. Q x \<Longrightarrow> confined view R (f x)) \<Longrightarrow> confined view R (sbind p f)"
  unfolding confined_def yields_def sbind_def by (auto split: prod.splits option.splits) (metis snd_conv)+

lemma yields_ret: "Q x \<Longrightarrow> yields (ret x) Q"
  by (simp add: yields_def)

lemma yields_bind: "(\<And>x. yields (f x) Q) \<Longrightarrow> yields (sbind p f) Q"
  unfolding yields_def sbind_def by (auto split: prod.splits option.splits)

lemma yields_bind_yields: "yields p P \<Longrightarrow> (\<And>x. P x \<Longrightarrow> yields (f x) Q) \<Longrightarrow> yields (sbind p f) Q"
  unfolding yields_def sbind_def by (auto split: prod.splits option.splits) blast

lemma yields_if: "(b \<Longrightarrow> yields p Q) \<Longrightarrow> (\<not> b \<Longrightarrow> yields q Q) \<Longrightarrow> yields (if b then p else q) Q"
  by simp

lemma yields_error: "yields (d_error msg) Q"
  by (simp add: yields_def d_error_def on_stream_def is_error_def)

lemma yields_fail: "yields fail Q"
  by (simp add: yields_def)

lemma confined_callback_loop:
  assumes "env_confined R env"
  shows "confined dec_mem R (callback_loop k env parent it)"
proof (induction k)
  case 0
  show ?case unfolding callback_loop.simps by (rule confined_fail)
next
  case (Suc k)
  have fin: "confined dec_mem R (\<lambda>st. (Some (), st))" by (simp add: confined_def)
  have fn: "confined dec_mem R (de_decode env fn f a)" for fn f a using assms by (simp add: env_confined_def)
  show ?case unfolding callback_loop.simps
    by (intro confined_bind confined_load confined_option confined_choice confined_substreams fin fn Suc)
qed

lemma confined_callback:
  assumes "env_confined R env"
  shows "confined dec_mem R (decode_callback_field n env wire_type it)"
proof -
  have "confined dec_mem R (\<lambda>st. case de_decode env fn f a (st\<lparr>d_in := s\<rparr>) of (status, st') \<Rightarrow> (status, st'\<lparr>d_in := d_in st\<rparr>))"
    for fn f a s
  proof (rule confinedI)
    fix st x assume x: "x \<notin> R"
    have c: "confined dec_mem R (de_decode env fn f a)" using assms by (simp add: env_confined_def)
    obtain r st' where run: "de_decode env fn f a (st\<lparr>d_in := s\<rparr>) = (r, st')" by fastforce
    from confinedD[OF c run x] run
    show "dec_mem (snd (case de_decode env fn f a (st\<lparr>d_in := s\<rparr>) of (status, st') \<Rightarrow> (status, st'\<lparr>d_in := d_in st\<rparr>))) x = dec_mem st x"
      by (simp add: dec_mem_def)
  qed
  then show ?thesis unfolding decode_callback_field_def
    by (intro confined_bind confined_load confined_if confined_on_stream confined_substreams confined_callback_loop assms)
qed

lemma union_released:
  assumes ins: "inside R (de_descr env) fs dest" and it: "iterator fs dest it" and own: "block own 4 \<subseteq> R"
  shows "confined dec_mem R (pb_release_union_field n env it)"
    and "yields (pb_release_union_field n env it) (iterator fs dest)"
proof -
  note ok = inside_fields[OF ins]
  have find: "iterator fs dest it'" if "iterator fs dest i" "pb_field_iter_find i tag = (b, it')" for i tag b it'
    using that iter_find_loop_iterator unfolding pb_field_iter_find_def by blast
  have static: "PB_ATYPE (pf_type (it_field i)) \<noteq> PB_ATYPE_POINTER" if "iterator fs dest i" for i
    using inside_at(2)[OF ins _ own, of i] that by (auto simp: loop_iterator_def pb_types)
  have inl: "stored_inline n (de_descr env) fs" using ins by (simp add: inside_def)
  have again: "confined dec_mem R (case pb_field_iter_find i tag of (False, _) \<Rightarrow> d_error m
      | (True, it) \<Rightarrow> sbind (if PB_ATYPE (pf_type (it_field it)) = PB_ATYPE_POINTER then store (store64 (it_pData it) 0) else ret ())
          (\<lambda>_. ret it)) \<and>
    yields (case pb_field_iter_find i tag of (False, _) \<Rightarrow> d_error m
      | (True, it) \<Rightarrow> sbind (if PB_ATYPE (pf_type (it_field it)) = PB_ATYPE_POINTER then store (store64 (it_pData it) 0) else ret ())
          (\<lambda>_. ret it)) (iterator fs dest)" if "iterator fs dest i" for i tag m
    using find[OF that, of tag] static
    by (auto split: prod.splits bool.splits intro!: confined_error yields_error yields_bind yields_ret confined_bind confined_ret)
  have once: "confined dec_mem R (case pb_field_iter_find it old of (False, _) \<Rightarrow> d_error m
      | (True, i) \<Rightarrow> sbind (on_heap (pb_release_single_field n (de_descr env) (de_alloc env) i)) (\<lambda>_. g i)) \<and>
    yields (case pb_field_iter_find it old of (False, _) \<Rightarrow> d_error m
      | (True, i) \<Rightarrow> sbind (on_heap (pb_release_single_field n (de_descr env) (de_alloc env) i)) (\<lambda>_. g i)) (iterator fs dest)"
    if "\<And>i. iterator fs dest i \<Longrightarrow> confined dec_mem R (g i) \<and> yields (g i) (iterator fs dest)" for g old m
    using find[OF it, of old] that
    by (auto split: prod.splits bool.splits
        intro!: confined_error yields_error yields_bind confined_bind confined_on_heap confined_release[OF inl])
  show "confined dec_mem R (pb_release_union_field n env it)"
    unfolding pb_release_union_field_def Let_def
    by (intro confined_bind confined_load confined_if confined_ret conjunct1[OF once] again)
  show "yields (pb_release_union_field n env it) (iterator fs dest)"
    unfolding pb_release_union_field_def Let_def
    by (intro yields_bind yields_if yields_ret it conjunct2[OF once] again)
qed

lemma decode_field_confined:
  assumes ins: "inside R (de_descr env) fs dest" and it: "loop_iterator own fs dest it" and own: "block own 4 \<subseteq> R"
    and sub: "sub_confined R env decode" and env: "env_confined R env"
  shows "confined dec_mem R (decode_field n env decode wire_type it)"
    and "yields (decode_field n env decode wire_type it) (loop_iterator own fs dest)"
proof -
  let ?first = "if PB_HTYPE (pf_type (it_field it)) = PB_HTYPE_ONEOF then pb_release_union_field n env it else ret it"
  have plain: "iterator fs dest it" if "PB_HTYPE (pf_type (it_field it)) = PB_HTYPE_ONEOF"
    using it that by (auto simp: loop_iterator_def pb_types)
  have first: "confined dec_mem R ?first" "yields ?first (loop_iterator own fs dest)"
  proof -
    show "confined dec_mem R ?first" by (intro confined_if confined_ret union_released(1)[OF ins plain own])
    have "yields (pb_release_union_field n env it) (loop_iterator own fs dest)"
      if "PB_HTYPE (pf_type (it_field it)) = PB_HTYPE_ONEOF"
      using union_released(2)[OF ins plain[OF that] own] by (auto simp: yields_def loop_iterator_def)
    then show "yields ?first (loop_iterator own fs dest)" using it by (intro yields_if yields_ret)
  qed
  show "confined dec_mem R (decode_field n env decode wire_type it)"
    unfolding decode_field_def Let_def
  proof (rule confined_bind_yields[OF first])
    fix i assume i: "loop_iterator own fs dest i"
    have "PB_ATYPE (pf_type (it_field i)) \<noteq> PB_ATYPE_POINTER" using inside_at(2)[OF ins i own] by (auto simp: pb_types)
    then show "confined dec_mem R (sbind
        (if PB_ATYPE (pf_type (it_field i)) = PB_ATYPE_STATIC then decode_static_field n env decode wire_type i
         else if PB_ATYPE (pf_type (it_field i)) = PB_ATYPE_POINTER then decode_pointer_field n env decode wire_type i
         else if PB_ATYPE (pf_type (it_field i)) = PB_ATYPE_CALLBACK then decode_callback_field n env wire_type i
         else d_error ''invalid field type'') (\<lambda>_. ret i))"
      by (simp only: if_False)
        (intro confined_bind confined_if confined_ret confined_error confined_callback[OF env] confined_static[OF ins i own sub])
  qed
  show "yields (decode_field n env decode wire_type it) (loop_iterator own fs dest)"
    unfolding decode_field_def Let_def
    by (rule yields_bind_yields[OF first(2)]) (intro yields_bind yields_ret)
qed

section \<open>Decoding a message\<close>

text \<open>The variables of the loop.\<close>

definition loop_ok :: "addr \<Rightarrow> pb_field list \<Rightarrow> addr \<Rightarrow> noinit \<Rightarrow> bool" where
  "loop_ok own fs dest loc \<longleftrightarrow> loop_iterator own fs dest (ni_iter loc)"

lemma known_field_confined:
  assumes ins: "inside R (de_descr env) fs dest" and loc: "loop_ok (de_local env n) fs dest loc"
    and sub: "sub_confined R env decode" and env: "env_confined R env"
  shows "confined dec_mem R (known_field n env decode wire_type loc)"
    and "yields (known_field n env decode wire_type loc) (loop_ok (de_local env n) fs dest)"
proof -
  have own: "block (de_local env n) 4 \<subseteq> R" using env by (simp add: env_confined_def)
  let ?it = "ni_iter loc"
  let ?redirect = "loc\<lparr>ni_fixed_count_field := Some (it_pos ?it), ni_iter := ?it\<lparr>it_pSize := de_local env n\<rparr>\<rparr>"
  have it: "loop_iterator (de_local env n) fs dest ?it" using loc by (simp add: loop_ok_def)
  have redirect: "loop_ok (de_local env n) fs dest ?redirect" if "PB_HTYPE (pf_type (it_field ?it)) = PB_HTYPE_REPEATED"
    using it that by (auto simp: loop_ok_def loop_iterator_def)
  let ?select = "if PB_HTYPE (pf_type (it_field ?it)) = PB_HTYPE_REPEATED \<and> it_pSize ?it = it_pData ?it then
      sbind (if ni_fixed_count_field loc \<noteq> Some (it_pos ?it) then
          sbind (load (fixed_count_wrong n env loc)) (\<lambda>wrong.
            if wrong then d_error ''wrong size for fixed count field'' else store (store32 (de_local env n) 0))
        else ret ()) (\<lambda>_. ret ?redirect)
    else ret loc"
  have select: "confined dec_mem R ?select" "yields ?select (loop_ok (de_local env n) fs dest)"
    by (intro confined_if confined_bind confined_ret confined_load confined_error confined_stores own)
      (intro yields_if yields_bind yields_ret redirect loc; blast)
  define rest where "rest (loc' :: noinit) = (let i = unat (it_required_field_index (ni_iter loc'));
      loc'' = (if PB_HTYPE (pf_type (it_field (ni_iter loc'))) = PB_HTYPE_REQUIRED \<and> i < PB_MAX_REQUIRED_FIELDS
        then loc'\<lparr>ni_seen := (ni_seen loc')[i div 32 := ni_seen loc' ! (i div 32) OR push_bit (i mod 32) 1]\<rparr> else loc')
      in sbind (decode_field n env decode wire_type (ni_iter loc'')) (\<lambda>it. ret (loc''\<lparr>ni_iter := it\<rparr>)))" for loc'
  have k: "known_field n env decode wire_type loc = sbind ?select rest"
    unfolding known_field_def rest_def by (rule refl)
  have rest: "confined dec_mem R (rest loc')" "yields (rest loc') (loop_ok (de_local env n) fs dest)"
    if "loop_ok (de_local env n) fs dest loc'" for loc'
  proof -
    have i: "loop_iterator (de_local env n) fs dest (ni_iter loc')" using that by (simp add: loop_ok_def)
    note f = decode_field_confined[OF ins i own sub env]
    have same: "ni_iter (if b then loc'\<lparr>ni_seen := s\<rparr> else loc') = ni_iter loc'" for b s by simp
    show "confined dec_mem R (rest loc')" unfolding rest_def Let_def same by (intro confined_bind f confined_ret)
    show "yields (rest loc') (loop_ok (de_local env n) fs dest)"
      unfolding rest_def Let_def same by (rule yields_bind_yields[OF f(2)]) (simp add: yields_ret loop_ok_def)
  qed
  show "confined dec_mem R (known_field n env decode wire_type loc)"
    unfolding k by (rule confined_bind_yields[OF select rest(1)])
  show "yields (known_field n env decode wire_type loc) (loop_ok (de_local env n) fs dest)"
    unfolding k by (rule yields_bind_yields[OF select(2) rest(2)])
qed

lemma find_loop_wanted: "iter_find_loop k start wanted it = (True, it') \<Longrightarrow> wanted (it_field it')"
  by (induction k arbitrary: it) (auto simp: Let_def split: if_splits)

lemma no_extension_found:
  assumes "inside R descr fs dest" and "loop_iterator own fs dest it" and "block own 4 \<subseteq> R"
  shows "fst (find_extension_field it) = False"
proof -
  obtain found it' where f: "find_extension_field it = (found, it')" by fastforce
  have "PB_LTYPE (pf_type (it_field it')) \<noteq> PB_LTYPE_EXTENSION"
    by (rule inside_at(3)[OF assms(1) find_extension_iterator[OF assms(2) inside_fields[OF assms(1)] f] assms(3)])
  with find_loop_wanted[of "Suc (length (it_start it))" "it_pos it" "\<lambda>pos. PB_LTYPE (pf_type pos) = PB_LTYPE_EXTENSION" it it'] f
  show ?thesis unfolding find_extension_field_def by (cases found) (auto simp del: iter_find_loop.simps)
qed

lemma unknown_field_confined:
  assumes ins: "inside R (de_descr env) fs dest" and loc: "loop_ok own fs dest loc" and own: "block own 4 \<subseteq> R"
    and tag: "tag < - 1"
  shows "confined dec_mem R (unknown_field n env decode wire_type tag loc)"
    and "yields (unknown_field n env decode wire_type tag loc) (loop_ok own fs dest)"
proof -
  have it: "loop_iterator own fs dest (ni_iter loc)" using loc by (simp add: loop_ok_def)
  obtain it' where f: "find_extension_field (ni_iter loc) = (False, it')"
    using no_extension_found[OF ins it own] by (cases "find_extension_field (ni_iter loc)") auto
  have it': "loop_iterator own fs dest it'" by (rule find_extension_iterator[OF it inside_fields[OF ins] f])
  have "unknown_field n env decode wire_type tag loc =
      (let loc' = (if tag \<ge> ni_extension_range_start loc then loc\<lparr>ni_iter := it', ni_extension_range_start := - 1\<rparr> else loc)
       in sbind (on_stream (pb_skip_field wire_type)) (\<lambda>_. ret loc'))"
  proof -
    have nt: "(- 1 \<le> tag) = False" using tag by (simp add: not_le)
    show ?thesis unfolding unknown_field_def Let_def f prod.case
      by (cases "ni_extension_range_start loc \<le> tag") (simp_all only: if_True if_False nt)
  qed
  moreover have "loop_ok own fs dest (if tag \<ge> ni_extension_range_start loc
      then loc\<lparr>ni_iter := it', ni_extension_range_start := - 1\<rparr> else loc)"
    using loc it' by (simp add: loop_ok_def)
  ultimately show "confined dec_mem R (unknown_field n env decode wire_type tag loc)"
    "yields (unknown_field n env decode wire_type tag loc) (loop_ok own fs dest)"
    by (simp_all add: Let_def confined_bind confined_on_stream confined_ret yields_bind yields_ret)
qed

lemma decode_tag_small:
  assumes "pb_decode_tag s = (True, wire_type, tag, eof, s')"
  shows "tag < - 1"
proof -
  obtain temp where t: "tag = drop_bit 3 (temp :: u32)"
    using assms by (auto simp: pb_decode_tag_def split: prod.splits option.splits if_splits)
  have "unat (drop_bit 3 temp) < 2 ^ 29"
    by (rule bits_small) (auto simp: bit_simps dest: bit_imp_le_length)
  moreover have "unat (- 1 :: u32) = 2 ^ 32 - 1" by (simp add: unsigned_minus_1_eq_mask mask_eq_exp_minus_1)
  ultimately show ?thesis using t by (simp add: word_less_nat_alt)
qed

lemma noinit_step_confined:
  assumes ins: "inside R (de_descr env) fs dest" and loc: "loop_ok (de_local env n) fs dest loc"
    and sub: "sub_confined R env decode" and env: "env_confined R (env :: ('s, 'h) dec_env)"
  shows "confined dec_mem R (noinit_step n env decode loc)"
    and "yields (noinit_step n env decode loc) (\<lambda>r. loop_ok (de_local env n) fs dest (snd r))"
proof -
  have own: "block (de_local env n) 4 \<subseteq> R" using env by (simp add: env_confined_def)
  have found: "loop_ok (de_local env n) fs dest (loc\<lparr>ni_iter := it\<rparr>)" if "pb_field_iter_find (ni_iter loc) tag = (b, it)" for tag b it
    using find_iterator[OF _ inside_fields[OF ins] that] loc by (simp add: loop_ok_def)
  have body: "confined dec_mem R (sbind (if b then known_field n env decode wt l else unknown_field n env decode wt tag l) (\<lambda>loc. ret (True, loc)))"
    "yields (sbind (if b then known_field n env decode wt l else unknown_field n env decode wt tag l) (\<lambda>loc. ret (True, loc)))
      (\<lambda>r. loop_ok (de_local env n) fs dest (snd r))"
    if l: "loop_ok (de_local env n) fs dest l" "tag < - 1" for b wt tag l
  proof -
    note k = known_field_confined[OF ins l(1) sub env] and u = unknown_field_confined[OF ins l(1) own l(2)]
    show "confined dec_mem R (sbind (if b then known_field n env decode wt l else unknown_field n env decode wt tag l) (\<lambda>loc. ret (True, loc)))"
      by (intro confined_bind confined_if confined_ret k u)
    show "yields (sbind (if b then known_field n env decode wt l else unknown_field n env decode wt tag l) (\<lambda>loc. ret (True, loc)))
      (\<lambda>r. loop_ok (de_local env n) fs dest (snd r))"
      by (rule yields_bind_yields[OF yields_if[OF k(2) u(2)]]) (simp add: yields_ret)
  qed
  show "confined dec_mem R (noinit_step n env decode loc)"
  proof (rule confinedI)
    fix st :: "('s, 'h) dec" and x assume x: "x \<notin> R"
    obtain ok wt tag eof s where t: "pb_decode_tag (d_in st) = (ok, wt, tag, eof, s)" by (metis prod_cases5)
    obtain b it where f: "pb_field_iter_find (ni_iter loc) tag = (b, it)" by fastforce
    show "dec_mem (snd (noinit_step n env decode loc st)) x = dec_mem st x"
      using body(1)[OF found[OF f], of tag] decode_tag_small[of "d_in st" wt tag eof s] t f x
      by (cases ok) (auto simp: noinit_step_def Let_def confined_def dec_mem_def)
  qed
  show "yields (noinit_step n env decode loc) (\<lambda>r. loop_ok (de_local env n) fs dest (snd r))"
    unfolding yields_def
  proof (intro allI impI)
    fix st :: "('s, 'h) dec" and r s' assume run: "noinit_step n env decode loc st = (Some r, s')"
    obtain ok wt tag eof s where t: "pb_decode_tag (d_in st) = (ok, wt, tag, eof, s)" by (metis prod_cases5)
    obtain b it where f: "pb_field_iter_find (ni_iter loc) tag = (b, it)" by fastforce
    show "loop_ok (de_local env n) fs dest (snd r)"
    proof (cases ok)
      case True
      then have "tag < - 1" using decode_tag_small[of "d_in st" wt tag eof s] t by simp
      then have "yields (sbind (if b then known_field n env decode wt (loc\<lparr>ni_iter := it\<rparr>)
          else unknown_field n env decode wt tag (loc\<lparr>ni_iter := it\<rparr>)) (\<lambda>loc. ret (True, loc)))
          (\<lambda>r. loop_ok (de_local env n) fs dest (snd r))"
        by (rule body(2)[OF found[OF f]])
      moreover have "sbind (if b then known_field n env decode wt (loc\<lparr>ni_iter := it\<rparr>)
          else unknown_field n env decode wt tag (loc\<lparr>ni_iter := it\<rparr>)) (\<lambda>loc. ret (True, loc)) (st\<lparr>d_in := s\<rparr>) = (Some r, s')"
        using run True t f by (simp add: noinit_step_def Let_def)
      ultimately show ?thesis unfolding yields_def by blast
    next
      case False
      then show ?thesis using run t loc by (auto simp: noinit_step_def Let_def split: if_splits)
    qed
  qed
qed

lemma noinit_loop_confined:
  assumes "inside R (de_descr env) fs dest" and "loop_ok (de_local env n) fs dest loc"
    and "sub_confined R env decode" and "env_confined R env"
  shows "confined dec_mem R (noinit_loop k n env decode loc)"
  using assms(2)
proof (induction k arbitrary: loc)
  case 0
  show ?case unfolding noinit_loop.simps by (rule confined_fail)
next
  case (Suc k)
  note step = noinit_step_confined[OF assms(1) Suc.prems assms(3,4)]
  have "confined dec_mem R (sbind (noinit_step n env decode loc)
      (\<lambda>(more, loc). if more then noinit_loop k n env decode loc else ret loc))"
    by (rule confined_bind_yields[OF step]) (auto intro!: confined_if confined_ret Suc.IH split: prod.split)
  moreover have "confined dec_mem R (\<lambda>st. (Some loc, st))" by (simp add: confined_def)
  ultimately show ?case unfolding noinit_loop.simps by (intro confined_choice)
qed

lemma noinit_body_confined:
  assumes "inside R (de_descr env) fs dest" and "sub_confined R env decode" and "env_confined R env"
  shows "confined dec_mem R (noinit_body n env decode fs dest)"
proof -
  have own: "block (de_local env n) 4 \<subseteq> R" using assms(3) by (simp add: env_confined_def)
  have "loop_ok (de_local env n) fs dest \<lparr>ni_iter = snd (pb_field_iter_begin fs dest), ni_seen = [0, 0],
      ni_extension_range_start = 0, ni_fixed_count_field = None\<rparr>"
    by (simp add: loop_ok_def loop_iterator_def iterator.started)
  from noinit_loop_confined[OF assms(1) this assms(2,3)]
  show ?thesis unfolding noinit_body_def
    by (intro confined_bind confined_stores own confined_load confined_if confined_error confined_ret) (rule confined_at)
qed

lemma decode_with_confined:
  assumes "inside R (de_descr env) fs dest" and "confined dec_mem R (noinit fs dest)"
  shows "confined dec_mem R (decode_with n env noinit fs dest)"
proof -
  have inl: "stored_inline n (de_descr env) fs" and lay: "layout n (de_descr env) R fs dest"
    using assms(1) by (simp_all add: inside_def)
  have rel: "confined dec_mem R (sbind (on_heap (pb_release n (de_descr env) (de_alloc env) fs dest)) (\<lambda>_. fail))"
    unfolding pb_release_def release_fields_def
    by (intro confined_bind confined_on_heap confined_if confined_ret confined_fail confined_message_each confined_release[OF inl])
  have "confined dec_mem R (\<lambda>st. (Some (u :: unit), st))" for u by (simp add: confined_def)
  from confined_option[OF assms(2) rel this]
  have "confined dec_mem R (\<lambda>st. case noinit fs dest st of
      (Some u, st') \<Rightarrow> (Some u, st')
    | (None, st') \<Rightarrow> sbind (on_heap (pb_release n (de_descr env) (de_alloc env) fs dest)) (\<lambda>_. fail) st')" .
  then show ?thesis unfolding decode_with_def
    by (intro confined_bind confined_on_heap confined_set_to_defaults inl lay)
qed

lemma pb_decode_noinit_confined:
  "env_confined R env \<Longrightarrow> inside R (de_descr env) fs dest \<Longrightarrow> confined dec_mem R (pb_decode_noinit n env fs dest)"
proof (induction n arbitrary: fs dest)
  case 0
  show ?case unfolding pb_decode_noinit.simps by (rule confined_fail)
next
  case (Suc n)
  have "sub_confined R env (\<lambda>init. if init then decode_with n env (pb_decode_noinit n env) else pb_decode_noinit n env)"
    unfolding sub_confined_def
  proof (intro allI impI)
    fix init fs dest assume i: "inside R (de_descr env) fs dest"
    note noinit = Suc.IH[OF Suc.prems(1) i]
    from decode_with_confined[of R env fs dest "pb_decode_noinit n env" n] i noinit
    show "confined dec_mem R ((if init then decode_with n env (pb_decode_noinit n env) else pb_decode_noinit n env) fs dest)"
      by simp
  qed
  then show ?case unfolding pb_decode_noinit.simps by (intro noinit_body_confined Suc.prems)
qed

lemma pb_decode_confined:
  "env_confined R env \<Longrightarrow> inside R (de_descr env) fs dest \<Longrightarrow> confined dec_mem R (pb_decode n env fs dest)"
  unfolding pb_decode_def by (intro decode_with_confined pb_decode_noinit_confined)

section \<open>An example, and a layout that is not safe\<close>

text \<open>A struct of a 32-bit integer and a union of an integer and a Boolean, at 0x1000.\<close>

definition plain_fields :: "pb_field list" where
  "plain_fields =
     [\<lparr>pf_tag = 1, pf_type = 0x01, pf_data_offset = 0, pf_size_offset = 0, pf_data_size = 4, pf_array_size = 0, pf_ptr = 0\<rparr>,
      \<lparr>pf_tag = 2, pf_type = 0x32, pf_data_offset = 4, pf_size_offset = - 4, pf_data_size = 4, pf_array_size = 0, pf_ptr = 0\<rparr>,
      \<lparr>pf_tag = 3, pf_type = 0x30, pf_data_offset = - 1, pf_size_offset = - 4, pf_data_size = 1, pf_array_size = 0, pf_ptr = 0\<rparr>]"

definition plain_region :: "addr set" where
  "plain_region = block 0x1000 12 \<union> block 0x2000 4"

definition plain_env :: "('s, 'h) dec_env" where
  "plain_env = \<lparr>de_descr = (\<lambda>_. []), de_alloc = \<lparr>al_realloc = (\<lambda>_ _ h. (0, h)), al_free = (\<lambda>_ h. h)\<rparr>,
     de_decode = (\<lambda>_ _ _. fail), de_ext_decode = (\<lambda>_ _ _ _. fail), de_local = (\<lambda>_. 0x2000)\<rparr>"

lemma plain_env_confined: "env_confined plain_region plain_env"
  by (auto simp: env_confined_def plain_env_def plain_region_def confined_fail)

lemma plain_iters:
  "it_pData (iter_at plain_fields 0x1000 0) = 0x1000 \<and> it_field (iter_at plain_fields 0x1000 0) = plain_fields ! 0"
  "it_pData (iter_at plain_fields 0x1000 1) = 0x1008 \<and> it_pSize (iter_at plain_fields 0x1000 1) = 0x1004 \<and>
   it_field (iter_at plain_fields 0x1000 1) = plain_fields ! 1"
  "it_pData (iter_at plain_fields 0x1000 2) = 0x1008 \<and> it_pSize (iter_at plain_fields 0x1000 2) = 0x1004 \<and>
   it_field (iter_at plain_fields 0x1000 2) = plain_fields ! 2"
  by code_simp+

lemma plain_blocks: "block 0x1000 4 \<subseteq> plain_region" "block 0x1004 4 \<subseteq> plain_region" "block 0x1008 4 \<subseteq> plain_region"
  "block 0x1008 (Suc 0) \<subseteq> plain_region"
  unfolding plain_region_def by (rule le_supI1, rule block_inside, simp)+

lemma plain_fits: "k < 3 \<Longrightarrow> field_fits plain_region (iter_at plain_fields 0x1000 k)"
proof -
  have types: "PB_ATYPE 1 = PB_ATYPE_STATIC" "PB_HTYPE 1 = PB_HTYPE_REQUIRED" "PB_LTYPE 1 = PB_LTYPE_VARINT"
    "PB_ATYPE 0x32 = PB_ATYPE_STATIC" "PB_HTYPE 0x32 = PB_HTYPE_ONEOF" "PB_LTYPE 0x32 = PB_LTYPE_UVARINT"
    "PB_ATYPE 0x30 = PB_ATYPE_STATIC" "PB_HTYPE 0x30 = PB_HTYPE_ONEOF" "PB_LTYPE 0x30 = PB_LTYPE_BOOL" by code_simp+
  assume "k < 3"
  then consider "k = 0" | "k = 1" | "k = 2" by linarith
  then show ?thesis
    by cases (simp_all only: plain_iters field_fits_def elem_fits_def Let_def,
      simp_all add: plain_fields_def types plain_blocks pb_types)
qed

lemma plain_inside: "inside plain_region descr plain_fields 0x1000"
proof -
  have "stored_inline n descr plain_fields" for n
    by (cases n) (simp_all add: plain_fields_def fields_ok_def pb_types PB_ATYPE_def PB_LTYPE_def)
  moreover have "layout n descr plain_region plain_fields 0x1000" for n
  proof (cases n)
    case (Suc m)
    have "PB_LTYPE (pf_type f) \<noteq> PB_LTYPE_SUBMESSAGE" if "f \<in> set plain_fields" for f
      using that by (auto simp: plain_fields_def pb_types PB_LTYPE_def)
    moreover have "fields_ok plain_fields" by (simp add: plain_fields_def fields_ok_def)
    moreover have "length plain_fields = 3" by (simp add: plain_fields_def)
    ultimately show ?thesis unfolding Suc layout.simps Let_def
      using plain_fits iterator_field[OF _ iterator_iter_at] by metis
  qed simp
  ultimately show ?thesis by (simp add: inside_def)
qed

text \<open>Clearing the counter that a fixed-size array does not have overwrites its first four bytes, and,
  if it is smaller, what comes after it.\<close>

definition pair_fields :: "pb_field list" where
  "pair_fields = [\<lparr>pf_tag = 1, pf_type = 0x20, pf_data_offset = 0, pf_size_offset = 0, pf_data_size = 1,
     pf_array_size = 2, pf_ptr = 0\<rparr>]"

definition pair_heap :: "unit heap" where
  "pair_heap = \<lparr>hp_mem = (\<lambda>_. 0xff), hp_alloc = ()\<rparr>"

lemma pair_overrun: "hp_mem (snd (pb_message_set_to_defaults 1 (\<lambda>_. []) pair_fields 0x1000 pair_heap)) 0x1002 = 0"
  by code_simp

end
