(* ===== verification/Pb_Roundtrip.thy ===== *)
theory Pb_Roundtrip
  imports Pb_Message Pb_Decode
begin

text \<open>
  The decoder reads back what the encoder writes: a scalar value of any type, encoded from one
  place in memory and decoded into another, is the same value there.
\<close>

section \<open>Loads after stores\<close>

lemma store_bytes_at: "i < length bs \<Longrightarrow> length bs \<le> 2 ^ 63 \<Longrightarrow> store_bytes a bs m (a + of_nat i) = bs ! i"
  by (simp add: store_bytes_def unsigned_of_nat take_bit_nat_eq_self)

lemma load_bytes_nth: "i < n \<Longrightarrow> load_bytes m a n ! i = m (a + of_nat i)"
proof (induction n arbitrary: a i)
  case (Suc n)
  then show ?case by (cases i) (simp_all add: add.commute add.left_commute)
qed simp

lemma load_store_bytes: "length bs \<le> 2 ^ 63 \<Longrightarrow> load_bytes (store_bytes a bs m) a (length bs) = bs"
  by (rule nth_equalityI) (simp_all add: load_bytes_nth store_bytes_at)

lemma le_bytes_Suc: "le_bytes (Suc n) v = ucast v # le_bytes n (drop_bit 8 v)"
  by (rule nth_equalityI) (auto simp: le_bytes_def nth_Cons add.commute simp del: upt_Suc split: nat.splits)

lemma bit_le_value: "bit (le_value (le_bytes n v)) i \<longleftrightarrow> i < 8 * n \<and> bit v i"
proof (induction n arbitrary: v i)
  case 0
  show ?case by (simp add: le_bytes_def)
next
  case (Suc n)
  show ?case
  proof (cases "i < 8")
    case True
    then show ?thesis by (auto simp: le_bytes_Suc bit_simps)
  next
    case False
    then show ?thesis by (auto simp: le_bytes_Suc bit_simps Suc dest: bit_imp_le_length)
  qed
qed

lemma le_value_le_bytes: "le_value (le_bytes n v) = take_bit (8 * n) v"
  by (rule bit_word_eqI) (auto simp: bit_le_value bit_take_bit_iff)

lemma load_store [simp]:
  "load8 (store8 a v8 m) a = v8"
  "load16 (store16 a v16 m) a = v16"
  "load32 (store32 a v32 m) a = v32"
  "load64 (store64 a v64 m) a = v64"
proof -
  have *: "le_value (load_bytes (store_bytes a (le_bytes n v) m) a n) = take_bit (8 * n) v" if "n \<le> 8" for n v
    using load_store_bytes[of "le_bytes n v" a m] that by (simp add: le_value_le_bytes)
  show "load8 (store8 a v8 m) a = v8" by (simp add: load8_def store8_def store_bytes_def)
  show "load16 (store16 a v16 m) a = v16"
    unfolding load16_def store16_def using *[of 2] by (simp, intro bit_word_eqI) (auto simp: bit_simps)
  show "load32 (store32 a v32 m) a = v32"
    unfolding load32_def store32_def using *[of 4] by (simp, intro bit_word_eqI) (auto simp: bit_simps)
  show "load64 (store64 a v64 m) a = v64"
    unfolding load64_def store64_def using *[of 8] by simp
qed

section \<open>Casts\<close>

lemma down_up:
  "ucast (scast (w8 :: u8) :: u64) = w8" "ucast (scast (w16 :: u16) :: u64) = w16" "ucast (scast (w32 :: u32) :: u64) = w32"
  "ucast (ucast w8 :: u64) = w8" "ucast (ucast w16 :: u64) = w16" "ucast (ucast w32 :: u64) = w32"
  by (rule bit_word_eqI; auto simp: bit_simps)+

lemma through_32:
  "scast (ucast (scast (w8 :: u8) :: u64) :: u32) = (scast w8 :: u64)"
  "scast (ucast (scast (w16 :: u16) :: u64) :: u32) = (scast w16 :: u64)"
  "scast (ucast (scast (w32 :: u32) :: u64) :: u32) = (scast w32 :: u64)"
  by (rule bit_word_eqI; auto simp: bit_simps min_def not_less)+

lemma load_signed_through_32:
  "load_signed m f src = Some v \<Longrightarrow> pf_data_size f \<noteq> 8 \<Longrightarrow> scast (ucast v :: u32) = v"
  by (auto simp: load_signed_def through_32 split: if_splits)

section \<open>Scalar fields\<close>

lemma store_run: "store f st = (Some (), st\<lparr>d_heap := (d_heap st)\<lparr>hp_mem := f (hp_mem (d_heap st))\<rparr>\<rparr>)"
  by (simp add: store_def on_heap_def put_def)

text \<open>The outcome of a decoder: success, with the stream as it should be and a property of memory.\<close>

definition decodes :: "(('s, 'h) dec, unit) op \<Rightarrow> u8 list \<Rightarrow> (memory \<Rightarrow> bool) \<Rightarrow> bool" where
  "decodes p bs Q \<longleftrightarrow> (\<forall>st r. istream_ok (d_in st) \<and> in_view (d_in st) = bs @ r \<longrightarrow>
     (case p st of (res, st') \<Rightarrow> res = Some () \<and> istream_ok (d_in st') \<and> in_view (d_in st') = r \<and>
        in_beyond (d_in st') = in_beyond (d_in st) \<and> is_errmsg (d_in st') = is_errmsg (d_in st) \<and>
        Q (hp_mem (d_heap st'))))"

lemma decodes_bind:
  fixes f :: "'a \<Rightarrow> (('s, 'h) dec, unit) op"
  assumes "follows p d" and "\<And>r. d (bs @ r) = (Some v, r)"
    and "\<And>st. case f v st of (res, st') \<Rightarrow> res = Some () \<and> d_in st' = d_in st \<and> Q (hp_mem (d_heap st'))"
  shows "decodes (sbind (on_stream p) f) bs Q"
  unfolding decodes_def
proof (intro allI impI, elim conjE)
  fix st :: "('s, 'h) dec" and r assume ok: "istream_ok (d_in st)" and v: "in_view (d_in st) = bs @ r"
  have "d (in_view (d_in st)) = (Some v, r)" using assms(2) v by simp
  from follows_run[OF assms(1) ok this] obtain s where s: "p (d_in st) = (Some v, s)" "istream_ok s" "in_view s = r"
    "in_beyond s = in_beyond (d_in st)" "is_errmsg s = is_errmsg (d_in st)" by auto
  then have "sbind (on_stream p) f st = f v (st\<lparr>d_in := s\<rparr>)" by (simp add: sbind_def on_stream_def)
  with assms(3)[of "st\<lparr>d_in := s\<rparr>"] s show "case sbind (on_stream p) f st of (res, st') \<Rightarrow> res = Some () \<and>
      istream_ok (d_in st') \<and> in_view (d_in st') = r \<and> in_beyond (d_in st') = in_beyond (d_in st) \<and>
      is_errmsg (d_in st') = is_errmsg (d_in st) \<and> Q (hp_mem (d_heap st'))"
    by (auto split: prod.splits)
qed

lemma clamp_signed_back:
  assumes "load_signed m f src = Some v"
  shows "case clamp_signed f dest v st of (res, st') \<Rightarrow> res = Some v \<and> d_in st' = d_in st \<and>
    load_signed (hp_mem (d_heap st')) f dest = Some v"
proof -
  consider "pf_data_size f = 8" | w :: u32 where "pf_data_size f = 4" "v = scast w"
    | w :: u16 where "pf_data_size f = 2" "v = scast w" | w :: u8 where "pf_data_size f = 1" "v = scast w"
    using assms by (auto simp: load_signed_def split: if_splits)
  then show ?thesis by cases (simp_all add: clamp_signed_def sbind_def store_run load_signed_def down_up Let_def)
qed

lemma clamp_unsigned_back:
  assumes "load_unsigned m f src = Some v"
  shows "case clamp_unsigned f dest v st of (res, st') \<Rightarrow> res = Some v \<and> d_in st' = d_in st \<and>
    load_unsigned (hp_mem (d_heap st')) f dest = Some v"
proof -
  consider "pf_data_size f = 8" | w :: u32 where "pf_data_size f = 4" "v = ucast w"
    | w :: u16 where "pf_data_size f = 2" "v = ucast w" | w :: u8 where "pf_data_size f = 1" "v = ucast w"
    using assms by (auto simp: load_unsigned_def split: if_splits)
  then show ?thesis by cases (simp_all add: clamp_unsigned_def sbind_def store_run load_unsigned_def down_up Let_def)
qed

lemma clamped:
  assumes "case p st of (res, st') \<Rightarrow> res = Some v \<and> d_in st' = d_in st \<and> Q (hp_mem (d_heap st'))"
  shows "case sbind p (\<lambda>c. if c \<noteq> v then d_error m else ret ()) st of
    (res, st') \<Rightarrow> res = Some () \<and> d_in st' = d_in st \<and> Q (hp_mem (d_heap st'))"
  using assms by (auto simp: sbind_def split: prod.splits)

lemma varint_back:
  "load_signed m f src = Some v \<Longrightarrow> decodes (pb_dec_varint f dest) (varint_bytes v) (\<lambda>m'. load_signed m' f dest = Some v)"
  "load_unsigned m f src = Some u \<Longrightarrow> decodes (pb_dec_uvarint f dest) (varint_bytes u) (\<lambda>m'. load_unsigned m' f dest = Some u)"
  "load_signed m f src = Some v \<Longrightarrow> decodes (pb_dec_svarint f dest) (varint_bytes (zigzag v)) (\<lambda>m'. load_signed m' f dest = Some v)"
proof -
  assume v: "load_signed m f src = Some v"
  have "(if pf_data_size f = 8 then v else scast (ucast v :: u32)) = v" using load_signed_through_32[OF v] by simp
  then show "decodes (pb_dec_varint f dest) (varint_bytes v) (\<lambda>m'. load_signed m' f dest = Some v)"
    unfolding pb_dec_varint_def Let_def
    by (intro decodes_bind[OF follows_varint varint_dec_bytes])
      (simp only:, rule clamped[where Q = "\<lambda>m'. load_signed m' f dest = Some v"], rule clamp_signed_back[OF v])
next
  assume u: "load_unsigned m f src = Some u"
  show "decodes (pb_dec_uvarint f dest) (varint_bytes u) (\<lambda>m'. load_unsigned m' f dest = Some u)"
    unfolding pb_dec_uvarint_def
    by (intro decodes_bind[OF follows_varint varint_dec_bytes])
      (rule clamped[where Q = "\<lambda>m'. load_unsigned m' f dest = Some u"], rule clamp_unsigned_back[OF u])
next
  assume v: "load_signed m f src = Some v"
  have "sbind (varint_dec 0 0) (\<lambda>v. ret (unzigzag v)) (varint_bytes (zigzag v) @ r) = (Some v, r)" for r
    by (simp add: sbind_def varint_dec_bytes)
  then show "decodes (pb_dec_svarint f dest) (varint_bytes (zigzag v)) (\<lambda>m'. load_signed m' f dest = Some v)"
    unfolding pb_dec_svarint_def
    by (intro decodes_bind[OF follows_svarint])
      (assumption, rule clamped[where Q = "\<lambda>m'. load_signed m' f dest = Some v"], rule clamp_signed_back[OF v])
qed

lemma fixed_back:
  "decodes (pb_dec_fixed32 f dest) (le_bytes 4 (ucast (v :: u32))) (\<lambda>m. load32 m dest = v)"
  "decodes (pb_dec_fixed64 f dest) (le_bytes 8 w) (\<lambda>m. load64 m dest = w)"
proof -
  have "sbind (cbs_get 4) (\<lambda>bs. ret (le32 bs)) (le_bytes 4 (ucast v) @ r) = (Some v, r)"
    "sbind (cbs_get 8) (\<lambda>bs. ret (le64 bs)) (le_bytes 8 w @ r) = (Some w, r)" for r
    by (simp_all add: sbind_def cbs_get_eq)
  then show "decodes (pb_dec_fixed32 f dest) (le_bytes 4 (ucast v)) (\<lambda>m. load32 m dest = v)"
    "decodes (pb_dec_fixed64 f dest) (le_bytes 8 w) (\<lambda>m. load64 m dest = w)"
    unfolding pb_dec_fixed32_def pb_dec_fixed64_def
    by (auto intro!: decodes_bind[OF follows_fixed32] decodes_bind[OF follows_fixed64] simp: store_run)
qed

lemma bool_back: "decodes (pb_dec_bool f dest) (varint_bytes (if b then 1 else 0)) (\<lambda>m. safe_read_bool m dest = b)"
proof -
  have "unat (if b then 1 else 0 :: u64) < 2 ^ 32" by simp
  from decode32_bytes[OF this] have "decode32 (varint_bytes (if b then 1 else 0) @ r) = (Some (if b then 1 else 0), r)" for r
    by (cases b) simp_all
  then show ?thesis unfolding pb_dec_bool_def
    by (intro decodes_bind[OF follows_varint32]) (auto simp: store_run safe_read_bool_def split: if_splits)
qed

lemma decodes_weaken: "decodes p bs Q \<Longrightarrow> (\<And>m. Q m \<Longrightarrow> Q' m) \<Longrightarrow> decodes p bs Q'"
  unfolding decodes_def case_prod_beta by blast

lemma packable_cases:
  assumes "t \<le> PB_LTYPE_LAST_PACKABLE"
  obtains "t = PB_LTYPE_BOOL" | "t = PB_LTYPE_VARINT" | "t = PB_LTYPE_UVARINT" | "t = PB_LTYPE_SVARINT"
    | "t = PB_LTYPE_FIXED32" | "t = PB_LTYPE_FIXED64"
proof -
  have "unat t \<le> 5" using assms by (simp add: word_le_nat_alt pb_types)
  then consider "unat t = 0" | "unat t = 1" | "unat t = 2" | "unat t = 3" | "unat t = 4" | "unat t = 5" by linarith
  then show thesis by cases (use that in \<open>simp_all add: pb_types word_unat_eq_iff\<close>)
qed

text \<open>Of every packable type: what is encoded from the memory after decoding is what was decoded.\<close>

lemma scalar_back:
  assumes "PB_LTYPE (pf_type f) \<le> PB_LTYPE_LAST_PACKABLE" and v: "value_out sp message f src = Some bs"
  shows "decodes (PB_DECODERS env decode (PB_LTYPE (pf_type f)) f dest) bs
    (\<lambda>m. value_out (sp\<lparr>out_mem := m\<rparr>) message f dest = Some bs)"
proof (cases rule: packable_cases[OF assms(1)])
  case 1
  then have "PB_DECODERS env decode (PB_LTYPE (pf_type f)) = pb_dec_bool"
    "bs = varint_bytes (if safe_read_bool (out_mem sp) src then 1 else 0)"
    using v by (simp_all add: PB_DECODERS_def value_out_def)
  then show ?thesis by (simp only:) (rule decodes_weaken[OF bool_back], simp add: value_out_def 1)
next
  case 2
  then obtain x where "PB_DECODERS env decode (PB_LTYPE (pf_type f)) = pb_dec_varint"
    "bs = varint_bytes x" "load_signed (out_mem sp) f src = Some x"
    using v by (auto simp: PB_DECODERS_def value_out_def pb_types)
  then show ?thesis by (simp only:) (rule decodes_weaken[OF varint_back(1)], simp_all add: value_out_def 2 pb_types)
next
  case 3
  then obtain x where "PB_DECODERS env decode (PB_LTYPE (pf_type f)) = pb_dec_uvarint"
    "bs = varint_bytes x" "load_unsigned (out_mem sp) f src = Some x"
    using v by (auto simp: PB_DECODERS_def value_out_def pb_types)
  then show ?thesis by (simp only:) (rule decodes_weaken[OF varint_back(2)], simp_all add: value_out_def 3 pb_types)
next
  case 4
  then obtain x where "PB_DECODERS env decode (PB_LTYPE (pf_type f)) = pb_dec_svarint"
    "bs = varint_bytes (zigzag x)" "load_signed (out_mem sp) f src = Some x"
    using v by (auto simp: PB_DECODERS_def value_out_def pb_types)
  then show ?thesis by (simp only:) (rule decodes_weaken[OF varint_back(3)], simp_all add: value_out_def 4 pb_types)
next
  case 5
  then have "PB_DECODERS env decode (PB_LTYPE (pf_type f)) = pb_dec_fixed32"
    "bs = le_bytes 4 (ucast (load32 (out_mem sp) src))"
    using v by (simp_all add: PB_DECODERS_def value_out_def pb_types)
  then show ?thesis by (simp only:) (rule decodes_weaken[OF fixed_back(1)], simp add: value_out_def 5 pb_types)
next
  case 6
  then have "PB_DECODERS env decode (PB_LTYPE (pf_type f)) = pb_dec_fixed64" "bs = le_bytes 8 (load64 (out_mem sp) src)"
    using v by (simp_all add: PB_DECODERS_def value_out_def pb_types)
  then show ?thesis by (simp only:) (rule decodes_weaken[OF fixed_back(2)], simp add: value_out_def 6 pb_types)
qed

end
