(* ===== verification/Md32.thy ===== *)
theory Md32
  imports Cbs
begin

text \<open>
  The collector of \<open>crypto/fipsmodule/digest/md32_common.h\<close>, on which MD4, MD5, SHA-1 and
  SHA-256 are built: it cuts a message that arrives in pieces into blocks, and pads the last one.
  A block function takes the chaining state, a pointer to the data (a list) and the number of
  blocks to process.

  The locales below are the contract of a block function and what follows from it for the
  collector: after any sequence of updates its state is a function of the message alone.
\<close>

section \<open>Memory helpers of internal.h\<close>

definition OPENSSL_memset :: "u8 list \<Rightarrow> nat \<Rightarrow> u8 \<Rightarrow> nat \<Rightarrow> u8 list" where
  "OPENSSL_memset dst off c n = OPENSSL_memcpy dst off (replicate n c)"

definition CRYPTO_load_u32_le :: "u8 list \<Rightarrow> u32" where
  "CRYPTO_load_u32_le p =
     ucast (p ! 0) OR push_bit 8 (ucast (p ! 1)) OR push_bit 16 (ucast (p ! 2)) OR push_bit 24 (ucast (p ! 3))"

definition CRYPTO_store_u32_le :: "u32 \<Rightarrow> u8 list" where
  "CRYPTO_store_u32_le v = [ucast v, ucast (drop_bit 8 v), ucast (drop_bit 16 v), ucast (drop_bit 24 v)]"

definition CRYPTO_load_u32_be :: "u8 list \<Rightarrow> u32" where
  "CRYPTO_load_u32_be p = CRYPTO_bswap4 (CRYPTO_load_u32_le p)"

definition CRYPTO_store_u32_be :: "u32 \<Rightarrow> u8 list" where
  "CRYPTO_store_u32_be v = CRYPTO_store_u32_le (CRYPTO_bswap4 v)"

definition CRYPTO_rotl_u32 :: "u32 \<Rightarrow> nat \<Rightarrow> u32" where
  "CRYPTO_rotl_u32 v shift = push_bit shift v OR drop_bit ((32 - shift) mod 32) v"

definition CRYPTO_rotr_u32 :: "u32 \<Rightarrow> nat \<Rightarrow> u32" where
  "CRYPTO_rotr_u32 v shift = drop_bit shift v OR push_bit ((32 - shift) mod 32) v"

section \<open>The collector\<close>

record md32_ctx =
  md_h :: "u32 list"
  md_Nl :: u32
  md_Nh :: u32
  md_data :: "u8 list"
  md_num :: nat

type_synonym 'w block_func = "'w list \<Rightarrow> u8 list \<Rightarrow> nat \<Rightarrow> 'w list"

text \<open>The last part of \<open>crypto_md32_update\<close>: whole blocks of the input, then the rest.\<close>

definition md32_blocks :: "u32 block_func \<Rightarrow> nat \<Rightarrow> u8 list \<Rightarrow> 'a md32_ctx_scheme \<Rightarrow> 'a md32_ctx_scheme" where
  "md32_blocks block_func block_size inp c =
     (let n = length inp div block_size;
          c = (if n > 0 then c\<lparr>md_h := block_func (md_h c) inp n\<rparr> else c);
          inp = drop (n * block_size) inp
      in if length inp \<noteq> 0 then c\<lparr>md_num := length inp, md_data := OPENSSL_memcpy (md_data c) 0 inp\<rparr> else c)"

definition crypto_md32_update ::
  "u32 block_func \<Rightarrow> nat \<Rightarrow> u8 list \<Rightarrow> 'a md32_ctx_scheme \<Rightarrow> 'a md32_ctx_scheme" where
  "crypto_md32_update block_func block_size inp c =
     (let len = length inp in
      if len = 0 then c
      else let l = md_Nl c + push_bit 3 (of_nat len);
               Nh = (if l < md_Nl c then md_Nh c + 1 else md_Nh c) + of_nat (len div 2 ^ 29);
               c = c\<lparr>md_Nh := Nh, md_Nl := l\<rparr>;
               n = md_num c
        in if n \<noteq> 0 then
             if len \<ge> block_size \<or> (len + n) mod SIZE_MOD \<ge> block_size then
               let data = OPENSSL_memcpy (md_data c) n (take (block_size - n) inp)
               in md32_blocks block_func block_size (drop (block_size - n) inp)
                    (c\<lparr>md_h := block_func (md_h c) data 1, md_num := 0, md_data := OPENSSL_memset data 0 0 block_size\<rparr>)
             else c\<lparr>md_data := OPENSSL_memcpy (md_data c) n inp, md_num := n + len\<rparr>
           else md32_blocks block_func block_size inp c)"

definition crypto_md32_final ::
  "u32 block_func \<Rightarrow> nat \<Rightarrow> bool \<Rightarrow> 'a md32_ctx_scheme \<Rightarrow> 'a md32_ctx_scheme" where
  "crypto_md32_final block_func block_size is_big_endian c =
     (let n = md_num c; data = (md_data c)[n := 0x80]; n = n + 1;
          (h, data, n) =
            (if n > block_size - 8 then
               let data = OPENSSL_memset data n 0 (block_size - n) in (block_func (md_h c) data 1, data, 0)
             else (md_h c, data, n));
          data = OPENSSL_memset data n 0 (block_size - 8 - n);
          data = (if is_big_endian
            then OPENSSL_memcpy (OPENSSL_memcpy data (block_size - 8) (CRYPTO_store_u32_be (md_Nh c)))
                   (block_size - 4) (CRYPTO_store_u32_be (md_Nl c))
            else OPENSSL_memcpy (OPENSSL_memcpy data (block_size - 8) (CRYPTO_store_u32_le (md_Nl c)))
                   (block_size - 4) (CRYPTO_store_u32_le (md_Nh c)))
      in c\<lparr>md_h := block_func h data 1, md_num := 0, md_data := OPENSSL_memset data 0 0 block_size\<rparr>)"

section \<open>Blocks of a message\<close>

primrec blocks_of :: "nat \<Rightarrow> nat \<Rightarrow> 'a list \<Rightarrow> 'a list list" where
  "blocks_of sz 0 d = []"
| "blocks_of sz (Suc n) d = take sz d # blocks_of sz n (drop sz d)"

lemma length_blocks_of [simp]: "length (blocks_of s n d) = n"
  by (induction n arbitrary: d) auto

lemma blocks_of_append: "length d = n * s \<Longrightarrow> blocks_of s (n + k) (d @ e) = blocks_of s n d @ blocks_of s k e"
  by (induction n arbitrary: d) auto

lemma blocks_of_prefix: "n * s \<le> length d \<Longrightarrow> blocks_of s n (d @ e) = blocks_of s n d"
  by (induction n arbitrary: d) auto

lemma blocks_of_take: "blocks_of s n (take (n * s) d) = blocks_of s n d"
  by (induction n arbitrary: d) (auto simp: drop_take)

text \<open>A block function is iterated compression: what it does with several blocks is what it does
  with one after the other, and it reads nothing behind them.\<close>

locale block_hash =
  fixes block_func :: "'w block_func" and block_size :: nat
  assumes block_size_pos: "0 < block_size"
    and block_one: "length b = block_size \<Longrightarrow> block_func h (b @ r) 1 = block_func h b 1"
    and block_more: "length b = block_size \<Longrightarrow> 0 < n \<Longrightarrow>
      block_func h (b @ r) (Suc n) = block_func (block_func h b 1) r n"
begin

definition compress :: "u8 list \<Rightarrow> 'w list \<Rightarrow> 'w list" where
  "compress b h = block_func h b 1"

text \<open>The chaining state after the complete blocks of \<open>m\<close>, and the bytes behind them.\<close>

definition absorb :: "'w list \<Rightarrow> u8 list \<Rightarrow> 'w list" where
  "absorb h m = fold compress (blocks_of block_size (length m div block_size) m) h"

definition pending :: "u8 list \<Rightarrow> u8 list" where
  "pending m = drop (length m div block_size * block_size) m"

lemma block_func_fold: "0 < n \<Longrightarrow> n * block_size \<le> length d \<Longrightarrow>
    block_func h d n = fold compress (blocks_of block_size n d) h"
proof (induction n arbitrary: d h)
  case (Suc n)
  have d: "d = take block_size d @ drop block_size d" and l: "length (take block_size d) = block_size"
    using Suc.prems by auto
  show ?case
  proof (cases "n = 0")
    case True
    then show ?thesis using block_one[OF l, of h "drop block_size d"] by (simp add: compress_def)
  next
    case False
    then have "block_func h d (Suc n) = block_func (block_func h (take block_size d) 1) (drop block_size d) n"
      using block_more[OF l, of n h "drop block_size d"] by simp
    with Suc.IH[of "drop block_size d"] Suc.prems False show ?thesis by (simp add: compress_def)
  qed
qed simp

lemma length_pending_block: "length (pending m) = length m mod block_size"
  by (simp add: pending_def minus_div_mult_eq_mod)

lemma pending_less: "length (pending m) < block_size"
  by (simp add: length_pending_block block_size_pos)

lemma pending_short: "length m < block_size \<Longrightarrow> pending m = m"
  by (simp add: pending_def)

lemma absorb_short: "length m < block_size \<Longrightarrow> absorb h m = h"
  by (simp add: absorb_def)

lemma div_shift: "(length m + length x) div block_size =
    length m div block_size + (length (pending m) + length x) div block_size"
proof -
  have "length m + length x = (length (pending m) + length x) + length m div block_size * block_size"
    by (simp add: length_pending_block)
  then have "(length m + length x) div block_size =
      ((length (pending m) + length x) + length m div block_size * block_size) div block_size"
    by (rule arg_cong[where f = "\<lambda>z. z div block_size"])
  also have "\<dots> = length m div block_size + (length (pending m) + length x) div block_size"
    by (rule div_mult_self1) (use block_size_pos in simp)
  finally show ?thesis .
qed

lemma absorb_append: "absorb h (m @ x) = absorb (absorb h m) (pending m @ x)"
proof -
  define k j where "k = length m div block_size" and "j = (length (pending m) + length x) div block_size"
  have m: "m @ x = take (k * block_size) m @ pending m @ x" by (simp add: pending_def k_def)
  have l: "length (take (k * block_size) m) = k * block_size" unfolding k_def by simp
  have "length (m @ x) div block_size = k + j"
    by (simp only: length_append div_shift[of m x] k_def j_def)
  then have "absorb h (m @ x) = fold compress (blocks_of block_size (k + j)
      (take (k * block_size) m @ pending m @ x)) h"
    by (simp only: absorb_def m)
  then show ?thesis
    by (simp add: blocks_of_append[OF l] blocks_of_take) (simp add: absorb_def k_def j_def)
qed

lemma pending_append: "pending (m @ x) = pending (pending m @ x)"
proof -
  define k j where "k = length m div block_size" and "j = (length (pending m) + length x) div block_size"
  have "pending (m @ x) = drop (j * block_size) (drop (k * block_size) (m @ x))"
    by (simp only: pending_def[of "m @ x"] length_append div_shift[of m x] k_def j_def add_mult_distrib drop_drop add.commute)
  also have "drop (k * block_size) (m @ x) = pending m @ x"
    by (simp add: pending_def k_def)
  finally show ?thesis by (simp add: pending_def[of "pending m @ x"] j_def)
qed

lemma absorb_block: "length b = block_size \<Longrightarrow> absorb h (b @ x) = absorb (compress b h) x"
  using block_size_pos by (simp add: absorb_def div_add_self1)

lemma pending_block: "length b = block_size \<Longrightarrow> pending (b @ x) = pending x"
  using block_size_pos by (simp add: pending_def div_add_self1)

lemma absorb_blocks: "absorb h m = (if length m div block_size > 0
    then block_func h m (length m div block_size) else h)"
  by (simp add: absorb_def block_func_fold)

end

section \<open>The message length\<close>

text \<open>The two words that count the bits: adding eight times \<open>len\<close> to the lower one, with a carry
  found by comparison, and the upper bits of \<open>len\<close> to the upper one.\<close>

lemma word_sum_carry:
  fixes a b :: "'a::len word"
  shows "a + b < a \<longleftrightarrow> 2 ^ LENGTH('a) \<le> unat a + unat b"
proof -
  have "unat (a + b) = (unat a + unat b) mod 2 ^ LENGTH('a)" by (simp add: unat_word_ariths)
  moreover have b: "unat a < 2 ^ LENGTH('a)" "unat b < 2 ^ LENGTH('a)" by auto
  moreover have "(unat a + unat b) mod 2 ^ LENGTH('a) = (if unat a + unat b < 2 ^ LENGTH('a)
      then unat a + unat b else unat a + unat b - 2 ^ LENGTH('a))"
  proof (cases "unat a + unat b < 2 ^ LENGTH('a)")
    case False
    then have "unat a + unat b - 2 ^ LENGTH('a) < 2 ^ LENGTH('a)" using b by linarith
    then show ?thesis using False by (simp add: le_mod_geq)
  qed simp
  ultimately show ?thesis unfolding word_less_nat_alt by (simp split: if_splits) (use b in linarith)
qed

lemma count_low: "of_nat (k * m) + push_bit s (of_nat n) = (of_nat (k * m + 2 ^ s * n) :: 'a::len word)"
  by (simp add: push_bit_eq_mult mult.commute)

lemma count_high:
  assumes "s < LENGTH('a)"
  shows "(if (of_nat (2 ^ s * m) + push_bit s (of_nat n) :: 'a::len word) < of_nat (2 ^ s * m)
     then of_nat (2 ^ s * m div 2 ^ LENGTH('a)) + 1 else of_nat (2 ^ s * m div 2 ^ LENGTH('a))) +
     of_nat (n div 2 ^ (LENGTH('a) - s)) = (of_nat (2 ^ s * (m + n) div 2 ^ LENGTH('a)) :: 'a::len word)"
proof -
  define W :: nat where "W = 2 ^ LENGTH('a)"
  have W: "W = 2 ^ s * 2 ^ (LENGTH('a) - s)" using assms by (simp add: W_def flip: power_add)
  have low: "(push_bit s (of_nat n) :: 'a word) = of_nat (2 ^ s * n)" by (simp add: push_bit_eq_mult)
  have u: "unat (of_nat k :: 'a word) = k mod W" for k by (simp add: W_def unat_of_nat)
  have n: "2 ^ s * n div W = n div 2 ^ (LENGTH('a) - s)" unfolding W by (rule div_mult_mult1) simp
  have "2 ^ s * (m + n) div W = 2 ^ s * m div W + 2 ^ s * n div W + (2 ^ s * m mod W + 2 ^ s * n mod W) div W"
    unfolding add_mult_distrib2 by (rule div_add1_eq)
  moreover have "(2 ^ s * m mod W + 2 ^ s * n mod W) div W =
      (if W \<le> 2 ^ s * m mod W + 2 ^ s * n mod W then 1 else 0)"
  proof -
    have "0 < W" by (simp add: W_def)
    then have "2 ^ s * m mod W < W" "2 ^ s * n mod W < W" by simp_all
    then have "2 ^ s * m mod W + 2 ^ s * n mod W < W * 2" by linarith
    then show ?thesis using div_nat_eqI[of W 1 "2 ^ s * m mod W + 2 ^ s * n mod W"] by simp
  qed
  ultimately show ?thesis
    unfolding low word_sum_carry u W_def[symmetric] n by simp
qed

lemma count_bits_32:
  "of_nat (8 * m) + push_bit 3 (of_nat n) = (of_nat (8 * (m + n)) :: u32)"
  "(if of_nat (8 * m) + push_bit 3 (of_nat n) < (of_nat (8 * m) :: u32)
     then of_nat (8 * m div 2 ^ 32) + 1 else of_nat (8 * m div 2 ^ 32)) + of_nat (n div 2 ^ 29) =
   (of_nat (8 * (m + n) div 2 ^ 32) :: u32)"
proof -
  have e: "(2::nat) ^ 3 = 8" "LENGTH(32) = (32::nat)" "(32::nat) - 3 = 29" by simp_all
  show "of_nat (8 * m) + push_bit 3 (of_nat n) = (of_nat (8 * (m + n)) :: u32)"
    using count_low[of 8 m 3 n] by (simp add: add_mult_distrib2)
  show "(if of_nat (8 * m) + push_bit 3 (of_nat n) < (of_nat (8 * m) :: u32)
       then of_nat (8 * m div 2 ^ 32) + 1 else of_nat (8 * m div 2 ^ 32)) + of_nat (n div 2 ^ 29) =
     (of_nat (8 * (m + n) div 2 ^ 32) :: u32)"
    by (rule count_high[where 'a = 32, of 3 m n, unfolded e]) simp
qed

section \<open>Padding\<close>

text \<open>The padding of a message of \<open>n\<close> bytes: a one bit, as many zeros as make the whole a multiple
  of the block size, and the number of bits in \<open>k\<close> bytes.\<close>

definition md_zeros :: "nat \<Rightarrow> nat \<Rightarrow> nat \<Rightarrow> nat" where
  "md_zeros bs k n = (bs - (n + 1 + k) mod bs) mod bs"

definition md_padding :: "nat \<Rightarrow> nat \<Rightarrow> (nat \<Rightarrow> u8 list) \<Rightarrow> nat \<Rightarrow> u8 list" where
  "md_padding bs k len_bytes n = 0x80 # replicate (md_zeros bs k n) 0 @ len_bytes n"

definition length_be :: "nat \<Rightarrow> u8 list" where
  "length_be n = be_bytes 8 (of_nat (8 * n))"

definition length_le :: "nat \<Rightarrow> u8 list" where
  "length_le n = rev (be_bytes 8 (of_nat (8 * n)))"

lemma round_up:
  fixes bs :: nat
  assumes "0 < bs"
  shows "bs dvd a + (bs - a mod bs) mod bs"
proof (cases "a mod bs = 0")
  case False
  have "a + (bs - a mod bs) = bs * (a div bs) + bs"
    using mult_div_mod_eq[of bs a] mod_less_divisor[OF assms, of a] by linarith
  then show ?thesis using False assms by simp
qed (simp add: mod_eq_0_iff_dvd)

lemma padded_length: "0 < bs \<Longrightarrow> length (len_bytes n) = k \<Longrightarrow> bs dvd n + length (md_padding bs k len_bytes n)"
  using round_up[of bs "n + 1 + k"] by (simp add: md_padding_def md_zeros_def add_ac)

text \<open>What the last blocks hold, by the room that the rest of the message leaves.\<close>

lemma md_zeros_cases:
  fixes bs :: nat
  assumes "r < bs" and "n mod bs = r" and "k < bs"
  shows "r + 1 + k \<le> bs \<Longrightarrow> md_zeros bs k n = bs - k - (r + 1)"
    and "bs < r + 1 + k \<Longrightarrow> md_zeros bs k n = (bs - (r + 1)) + (bs - k)"
proof -
  have m: "(n + 1 + k) mod bs = (r + (1 + k)) mod bs"
    using mod_add_left_eq[of n bs "1 + k"] assms(2) by (simp add: add_ac)
  show "md_zeros bs k n = bs - k - (r + 1)" if "r + 1 + k \<le> bs"
    using that assms m by (cases "r + 1 + k = bs") (auto simp: md_zeros_def)
  show "md_zeros bs k n = (bs - (r + 1)) + (bs - k)" if "bs < r + 1 + k"
  proof -
    have "r + (1 + k) - bs < bs" using assms by linarith
    then have "(r + (1 + k)) mod bs = r + (1 + k) - bs" using that by (simp add: le_mod_geq)
    then show ?thesis using m that assms by (simp add: md_zeros_def)
  qed
qed

context block_hash begin

text \<open>The last blocks: \<open>p\<close> is what is pending, \<open>ls\<close> the length field.\<close>

lemma absorb_last:
  assumes "length p < block_size" and "length m mod block_size = length p" and "length ls = k" and "k < block_size"
  shows "absorb h (p @ 0x80 # replicate (md_zeros block_size k (length m)) 0 @ ls) =
    (if length p + 1 + k \<le> block_size
     then compress (p @ 0x80 # replicate (block_size - k - (length p + 1)) 0 @ ls) h
     else compress (replicate (block_size - k) 0 @ ls)
            (compress (p @ 0x80 # replicate (block_size - (length p + 1)) 0) h))"
proof (cases "length p + 1 + k \<le> block_size")
  case True
  let ?b = "p @ 0x80 # replicate (block_size - k - (length p + 1)) 0 @ ls"
  have "length ?b = block_size" using True assms by simp
  from absorb_block[OF this, of h "[]"] show ?thesis
    using md_zeros_cases(1)[OF assms(1,2,4)] True by (simp add: absorb_short block_size_pos)
next
  case False
  let ?b = "p @ 0x80 # replicate (block_size - (length p + 1)) 0" and ?e = "replicate (block_size - k) 0 @ ls"
  have l: "length ?b = block_size" "length ?e = block_size" using False assms by auto
  have "p @ 0x80 # replicate (md_zeros block_size k (length m)) 0 @ ls = ?b @ ?e @ []"
    using md_zeros_cases(2)[OF assms(1,2,4)] False by (simp add: replicate_add)
  then show ?thesis using False by (simp only: absorb_block[OF l(1)] absorb_block[OF l(2)])
      (simp add: absorb_short block_size_pos)
qed

end

section \<open>The state after a message\<close>

locale md32_hash = block_hash block_func block_size
  for block_func :: "u32 block_func" and block_size :: nat +
  assumes room_for_length: "8 < block_size" and block_size_small: "block_size \<le> 2 ^ 32"
begin

definition tracks :: "u32 list \<Rightarrow> u8 list \<Rightarrow> 'a md32_ctx_scheme \<Rightarrow> bool" where
  "tracks iv m c \<longleftrightarrow> md_h c = absorb iv m \<and> md_num c = length (pending m) \<and>
     md_data c = pending m @ replicate (block_size - length (pending m)) 0 \<and>
     md_Nl c = of_nat (8 * length m) \<and> md_Nh c = of_nat (8 * length m div 2 ^ 32)"

lemma tracks_unique:
  fixes c c' :: "'a md32_ctx_scheme"
  assumes "tracks iv m c" and "tracks iv m c'" and "md32_ctx.more c = md32_ctx.more c'"
  shows "c = c'"
  using assms by (auto simp: tracks_def intro!: md32_ctx.equality)

lemma blocks_track:
  assumes "md_h c = absorb iv m" and "pending m = []" and "md_num c = 0"
    and "md_data c = replicate block_size 0"
  shows "md_h (md32_blocks block_func block_size x c) = absorb iv (m @ x)"
    and "md_num (md32_blocks block_func block_size x c) = length (pending (m @ x))"
    and "md_data (md32_blocks block_func block_size x c) =
      pending (m @ x) @ replicate (block_size - length (pending (m @ x))) 0"
    and "md_Nl (md32_blocks block_func block_size x c) = md_Nl c"
    and "md_Nh (md32_blocks block_func block_size x c) = md_Nh c"
    and "md32_ctx.more (md32_blocks block_func block_size x c) = md32_ctx.more c"
proof -
  have p: "pending (m @ x) = pending x" and a: "absorb iv (m @ x) = absorb (absorb iv m) x"
    using pending_append[of m x] absorb_append[of iv m x] assms(2) by simp_all
  show "md_h (md32_blocks block_func block_size x c) = absorb iv (m @ x)"
    "md_num (md32_blocks block_func block_size x c) = length (pending (m @ x))"
    "md_data (md32_blocks block_func block_size x c) =
      pending (m @ x) @ replicate (block_size - length (pending (m @ x))) 0"
    using assms unfolding p a
    by (auto simp add: md32_blocks_def Let_def OPENSSL_memcpy_def pending_def absorb_blocks
        dest!: le_antisym[OF _ div_times_less_eq_dividend])
qed (simp_all add: md32_blocks_def Let_def)

theorem update_tracks:
  assumes c: "tracks iv m c" and x: "length x < SIZE_MOD"
  shows "tracks iv (m @ x) (crypto_md32_update block_func block_size x c)"
proof (cases "x = []")
  case True
  then show ?thesis using c by (simp add: crypto_md32_update_def)
next
  case False
  let ?Nh = "(if md_Nl c + push_bit 3 (of_nat (length x)) < md_Nl c then md_Nh c + 1 else md_Nh c) +
    of_nat (length x div 2 ^ 29)"
  let ?Nl = "md_Nl c + push_bit 3 (of_nat (length x))"
  have l: "md_Nl c = of_nat (8 * length m)" "md_Nh c = of_nat (8 * length m div 2 ^ 32)"
    using c by (simp_all only: tracks_def)
  have Nh: "?Nh = of_nat (8 * length (m @ x) div 2 ^ 32)" and Nl: "?Nl = of_nat (8 * length (m @ x))"
    unfolding l length_append by (rule count_bits_32)+
  let ?c = "c\<lparr>md_Nh := ?Nh, md_Nl := ?Nl\<rparr>" and ?n = "md_num c"
  have n: "?n = length (pending m)" "?n < block_size" using c pending_less by (auto simp: tracks_def)
  have data: "md_data c = pending m @ replicate (block_size - ?n) 0" and h: "md_h c = absorb iv m"
    using c n by (auto simp: tracks_def)
  note upd = crypto_md32_update_def[of block_func block_size x c]
  show ?thesis
  proof (cases "?n = 0")
    case True
    then have eq: "crypto_md32_update block_func block_size x c = md32_blocks block_func block_size x ?c"
      using False upd by (simp add: Let_def)
    have "pending m = []" using n True by simp
    then show ?thesis unfolding eq tracks_def
      using blocks_track[of ?c iv m x] True h data Nh Nl n by (simp add: tracks_def)
  next
    case nz: False
    have cond: "(block_size \<le> length x \<or> block_size \<le> (length x + ?n) mod SIZE_MOD) \<longleftrightarrow> block_size \<le> length x + ?n"
    proof (cases "block_size \<le> length x")
      case False
      then have "length x + ?n < SIZE_MOD" using n block_size_small by (simp add: SIZE_MOD_def)
      then show ?thesis using False by simp
    qed simp
    show ?thesis
    proof (cases "block_size \<le> length x + ?n")
      case False
      then have eq: "crypto_md32_update block_func block_size x c =
          ?c\<lparr>md_data := OPENSSL_memcpy (md_data c) ?n x, md_num := ?n + length x\<rparr>"
        using \<open>x \<noteq> []\<close> nz upd cond by (simp add: Let_def)
      have s: "length (pending m @ x) < block_size" using False n by simp
      have "absorb iv (m @ x) = absorb iv m" "pending (m @ x) = pending m @ x"
        using absorb_append[of iv m x] absorb_short[OF s] pending_append[of m x] pending_short[OF s] by simp_all
      then show ?thesis unfolding eq tracks_def using h data n Nh Nl s
        by (simp add: OPENSSL_memcpy_def)
    next
      case True
      let ?b = "pending m @ take (block_size - ?n) x" and ?r = "drop (block_size - ?n) x"
      let ?d = "c\<lparr>md_Nh := ?Nh, md_Nl := ?Nl, md_h := compress ?b (md_h c), md_num := 0,
        md_data := replicate block_size 0\<rparr>"
      have b: "length ?b = block_size" using True n by simp
      have eq: "crypto_md32_update block_func block_size x c = md32_blocks block_func block_size ?r ?d"
        using \<open>x \<noteq> []\<close> nz upd cond True b n data
        by (simp add: Let_def OPENSSL_memcpy_def OPENSSL_memset_def compress_def)
      have m: "m @ x = (m @ take (block_size - ?n) x) @ ?r" by simp
      have p: "pending (m @ take (block_size - ?n) x) = []"
        using pending_append[of m "take (block_size - ?n) x"] pending_block[OF b, of "[]"] by (simp add: pending_def)
      have a: "md_h ?d = absorb iv (m @ take (block_size - ?n) x)"
        using absorb_append[of iv m "take (block_size - ?n) x"] absorb_block[OF b, of _ "[]"] h
        by (simp add: absorb_short block_size_pos)
      show ?thesis unfolding eq tracks_def m
        using blocks_track[OF a p] Nh Nl by simp
    qed
  qed
qed

end

text \<open>The two words of the length, as the code stores them.\<close>

lemma words_of_nat:
  "(of_nat k :: u32) = ucast (of_nat k :: u64)" "(of_nat (k div 2 ^ 32) :: u32) = ucast (drop_bit 32 (of_nat k :: u64))"
proof -
  have u: "(ucast (w :: u64) :: u32) = of_nat (unat w)" for w by simp
  show "(of_nat k :: u32) = ucast (of_nat k :: u64)"
    unfolding u by (simp only: unsigned_of_nat word_of_nat_eq_iff) simp
  have "take_bit 32 (k div 2 ^ 32) = take_bit 32 (drop_bit 32 (take_bit 64 k))"
    unfolding drop_bit_eq_div[symmetric] by (rule bit_eqI) (auto simp: bit_simps)
  then show "(of_nat (k div 2 ^ 32) :: u32) = ucast (drop_bit 32 (of_nat k :: u64))"
    unfolding u by (simp only: unsigned_drop_bit_eq unsigned_of_nat word_of_nat_eq_iff) simp
qed

lemma bit_swap_masks:
  "bit (0xff00ff00 :: int) i \<longleftrightarrow> 8 \<le> i \<and> i < 16 \<or> 24 \<le> i \<and> i < 32"
  "bit (0x00ff00ff :: int) i \<longleftrightarrow> i < 8 \<or> 16 \<le> i \<and> i < 24"
  "bit (0xff00 :: int) i \<longleftrightarrow> 8 \<le> i \<and> i < 16"
proof -
  have "(0xff00ff00 :: int) = push_bit 8 (mask 8) OR push_bit 24 (mask 8)"
    "(0x00ff00ff :: int) = mask 8 OR push_bit 16 (mask 8)"
    "(0xff00 :: int) = push_bit 8 (mask 8)" by (simp_all add: mask_eq_exp_minus_1)
  then show "bit (0xff00ff00 :: int) i \<longleftrightarrow> 8 \<le> i \<and> i < 16 \<or> 24 \<le> i \<and> i < 32"
    "bit (0x00ff00ff :: int) i \<longleftrightarrow> i < 8 \<or> 16 \<le> i \<and> i < 24"
    "bit (0xff00 :: int) i \<longleftrightarrow> 8 \<le> i \<and> i < 16"
    by (simp_all only: bit_or_iff bit_push_bit_iff bit_mask_iff) auto
qed

lemma store_u32_be_bytes:
  "CRYPTO_store_u32_be v = [ucast (drop_bit 24 v), ucast (drop_bit 16 v), ucast (drop_bit 8 v), ucast v]"
  unfolding CRYPTO_store_u32_be_def CRYPTO_store_u32_le_def CRYPTO_bswap4_def Let_def
  by (intro list.inject[THEN iffD2] conjI refl; rule bit_word_eqI; auto simp: bit_simps bit_swap_masks bit_literals dest: bit_imp_le_length)

lemma be_bytes_8: "be_bytes 8 v = CRYPTO_store_u32_be (ucast (drop_bit 32 v)) @ CRYPTO_store_u32_be (ucast v)"
proof -
  have step: "be_bytes (numeral k) v = ucast (drop_bit (8 * pred_numeral k) v) # be_bytes (pred_numeral k) v" for k v
    using be_bytes_Cons[of "pred_numeral k" v] by (simp only: numeral_eq_Suc)
  have "be_bytes 8 v = map (\<lambda>i. ucast (drop_bit (8 * i) v)) [7, 6, 5, 4, 3, 2, 1, 0]"
    by (simp add: step)
  also have "\<dots> = CRYPTO_store_u32_be (ucast (drop_bit 32 v)) @ CRYPTO_store_u32_be (ucast v)"
    unfolding store_u32_be_bytes list.map append.simps
    by (intro list.inject[THEN iffD2] conjI refl; rule bit_word_eqI; auto simp: bit_simps)
  finally show ?thesis .
qed

lemma length_words:
  "length_be n = CRYPTO_store_u32_be (of_nat (8 * n div 2 ^ 32)) @ CRYPTO_store_u32_be (of_nat (8 * n))"
  "length_le n = CRYPTO_store_u32_le (of_nat (8 * n)) @ CRYPTO_store_u32_le (of_nat (8 * n div 2 ^ 32))"
proof -
  have r: "rev (CRYPTO_store_u32_be v) = CRYPTO_store_u32_le v" for v
    by (simp add: store_u32_be_bytes CRYPTO_store_u32_le_def)
  show "length_be n = CRYPTO_store_u32_be (of_nat (8 * n div 2 ^ 32)) @ CRYPTO_store_u32_be (of_nat (8 * n))"
    unfolding length_be_def words_of_nat(2) words_of_nat(1)[of "8 * n"] by (rule be_bytes_8)
  then show "length_le n = CRYPTO_store_u32_le (of_nat (8 * n)) @ CRYPTO_store_u32_le (of_nat (8 * n div 2 ^ 32))"
    by (simp add: length_le_def length_be_def r)
qed

lemma length_length_bytes [simp]: "length (length_be n) = 8" "length (length_le n) = 8"
  by (simp_all add: length_be_def length_le_def)

lemma last_block:
  assumes "length d = bs" and "8 \<le> bs" and "n \<le> bs - 8" and "length a = 4" and "length b = 4"
  shows "OPENSSL_memcpy (OPENSSL_memcpy (OPENSSL_memset d n 0 (bs - 8 - n)) (bs - 8) a) (bs - 4) b =
    take n d @ replicate (bs - 8 - n) 0 @ a @ b"
  using assms by (simp add: OPENSSL_memset_def OPENSSL_memcpy_def)

lemma length_store_u32 [simp]: "length (CRYPTO_store_u32_be v) = 4" "length (CRYPTO_store_u32_le v) = 4"
  by (simp_all add: CRYPTO_store_u32_be_def CRYPTO_store_u32_le_def)

context md32_hash begin

lemma final_tracks:
  assumes "tracks iv m c"
  shows "md_h (crypto_md32_final block_func block_size be c) =
    absorb iv (m @ md_padding block_size 8 (if be then length_be else length_le) (length m))"
proof -
  let ?p = "pending m" and ?ls = "(if be then length_be else length_le) (length m)"
  have p: "length ?p < block_size" "length m mod block_size = length ?p" "8 < block_size" "length ?ls = 8"
    using pending_less room_for_length by (simp_all add: length_pending_block)
  have c: "md_num c = length ?p" "md_h c = absorb iv m"
    "md_data c = ?p @ replicate (block_size - length ?p) 0"
    "md_Nl c = of_nat (8 * length m)" "md_Nh c = of_nat (8 * length m div 2 ^ 32)"
    using assms by (simp_all only: tracks_def)
  have z: "replicate (block_size - length ?p) (0::u8) = 0 # replicate (block_size - (length ?p + 1)) 0"
    using p(1) by (metis Suc_diff_Suc Suc_eq_plus1 replicate_Suc)
  let ?d = "?p @ 0x80 # replicate (block_size - (length ?p + 1)) 0"
  have data: "(md_data c)[length ?p := 0x80] = ?d" unfolding c(3) z by simp
  have d: "length ?d = block_size" "take (length ?p + 1) ?d = ?p @ [0x80]" using p(1) by simp_all
  have ls: "?ls = (if be then CRYPTO_store_u32_be (md_Nh c) else CRYPTO_store_u32_le (md_Nl c)) @
      (if be then CRYPTO_store_u32_be (md_Nl c) else CRYPTO_store_u32_le (md_Nh c))"
    unfolding c(4,5) by (simp only: length_words split: if_split) simp
  let ?pad = "?p @ 0x80 # replicate (md_zeros block_size 8 (length m)) 0 @ ?ls"
  have "absorb iv (m @ md_padding block_size 8 (if be then length_be else length_le) (length m)) =
      absorb (md_h c) ?pad"
    unfolding c(2) md_padding_def by (rule absorb_append)
  also have "\<dots> = md_h (crypto_md32_final block_func block_size be c)"
  proof (cases "length ?p + 1 + 8 \<le> block_size")
    case True
    then have fits: "\<not> block_size - 8 < Suc (length ?p)" by simp
    have "md_h (crypto_md32_final block_func block_size be c) =
        compress (take (length ?p + 1) ?d @ replicate (block_size - 8 - (length ?p + 1)) 0 @ ?ls) (md_h c)"
      unfolding crypto_md32_final_def Let_def c(1) data ls
      using True fits p(3) last_block[OF d(1), of "length ?p + 1"] by (cases be) (simp_all add: compress_def)
    then show ?thesis unfolding absorb_last[OF p(1,2,4,3)] d(2) using True by simp
  next
    case False
    then have tight: "block_size - 8 < Suc (length ?p)" by simp
    have f: "OPENSSL_memset ?d (length ?p + 1) 0 (block_size - (length ?p + 1)) = ?d"
      by (simp add: OPENSSL_memset_def OPENSSL_memcpy_def)
    have "md_h (crypto_md32_final block_func block_size be c) =
        compress (replicate (block_size - 8) 0 @ ?ls) (compress ?d (md_h c))"
      unfolding crypto_md32_final_def Let_def c(1) data ls f
      using False tight p(3) last_block[OF d(1), of 0] by (cases be) (simp_all add: compress_def f)
    then show ?thesis unfolding absorb_last[OF p(1,2,4,3)] using False by simp
  qed
  finally show ?thesis by simp
qed

end

lemma load_u32_append: "n + 4 \<le> length b \<Longrightarrow> CRYPTO_load_u32_le (drop n (b @ r)) = CRYPTO_load_u32_le (drop n b)"
  by (simp add: CRYPTO_load_u32_le_def nth_append)

lemma fold_compress:
  assumes "\<And>b h. length h = n \<Longrightarrow> f b h = g b h \<and> length (g b h) = n" and "length h = n"
  shows "fold f bs h = fold g bs h \<and> length (fold g bs h) = n"
  using assms(2) by (induction bs arbitrary: h) (auto simp: assms(1))

section \<open>Message schedules\<close>

text \<open>After round \<open>n\<close> the sixteen words are the last sixteen of the schedule \<open>W\<close>.\<close>

definition window :: "nat \<Rightarrow> 'a list \<Rightarrow> (nat \<Rightarrow> 'a) \<Rightarrow> bool" where
  "window n X W \<longleftrightarrow> length X = 16 \<and> (\<forall>j < n. n \<le> j + 16 \<longrightarrow> X ! (j mod 16) = W j)"

lemma window_step:
  assumes "window n X W"
  shows "window (Suc n) (X[n mod 16 := W n]) W"
proof -
  have "X[n mod 16 := W n] ! (j mod 16) = W j" if "j < Suc n" "Suc n \<le> j + 16" for j
  proof (cases "j = n")
    case False
    have j: "0 < n - j" "n - j < 16" "j \<le> n" using that False by simp_all
    then have "\<not> 16 dvd n - j" using nat_dvd_not_less by blast
    then have "j mod 16 \<noteq> n mod 16" using mod_eq_dvd_iff_nat[OF j(3), of 16] by auto
    then show ?thesis using assms that False by (simp add: window_def)
  qed (use assms in \<open>simp add: window_def\<close>)
  then show ?thesis using assms by (simp add: window_def)
qed

lemma window_at: "window n X W \<Longrightarrow> j < n \<Longrightarrow> n \<le> j + 16 \<Longrightarrow> k mod 16 = j mod 16 \<Longrightarrow> X ! (k mod 16) = W j"
  by (simp add: window_def)

section \<open>Rotations\<close>

lemma shifts_rotate:
  fixes v :: "'a::len word"
  assumes n: "0 < n" "n < LENGTH('a)"
  shows "drop_bit n v OR push_bit (LENGTH('a) - n) v = word_rotr n v"
    and "push_bit n v OR drop_bit (LENGTH('a) - n) v = word_rotl n v"
proof -
  have r: "drop_bit k v OR push_bit (LENGTH('a) - k) v = word_rotr k v" if k: "0 < k" "k < LENGTH('a)" for k
  proof (rule bit_word_eqI)
    fix i assume i: "i < LENGTH('a)"
    show "bit (drop_bit k v OR push_bit (LENGTH('a) - k) v) i = bit (word_rotr k v) i"
    proof (cases "i + k < LENGTH('a)")
      case True
      then have "\<not> LENGTH('a) - k \<le> i" by linarith
      then show ?thesis using i True by (simp add: bit_simps add.commute)
    next
      case False
      then have "(i + k) mod LENGTH('a) = i - (LENGTH('a) - k)" using i k by (simp add: le_mod_geq)
      moreover have "\<not> bit v (k + i)" using False by (auto dest: bit_imp_le_length)
      moreover have "LENGTH('a) - k \<le> i" using False by linarith
      ultimately show ?thesis using i False by (simp add: bit_simps)
    qed
  qed
  show "drop_bit n v OR push_bit (LENGTH('a) - n) v = word_rotr n v" by (rule r[OF n])
  show "push_bit n v OR drop_bit (LENGTH('a) - n) v = word_rotl n v"
    using r[of "LENGTH('a) - n"] n by (simp add: word_rotl_eq_word_rotr or.commute)
qed

lemma rotations:
  "0 < n \<Longrightarrow> n < 32 \<Longrightarrow> CRYPTO_rotr_u32 v n = word_rotr n v"
  "0 < n \<Longrightarrow> n < 32 \<Longrightarrow> CRYPTO_rotl_u32 v n = word_rotl n v"
  using shifts_rotate[of n v] by (simp_all add: CRYPTO_rotr_u32_def CRYPTO_rotl_u32_def)

end
