(* ===== verification/Sha2.thy ===== *)
theory Sha2
  imports Md32
begin

text \<open>
  SHA-224, SHA-256 (\<open>crypto/fipsmodule/sha/sha256.c\<close>), SHA-384, SHA-512 and SHA-512/256
  (\<open>sha512.c\<close>). The two files hold the same macros for words of 32 and of 64 bits; they are one
  definition here, with the constants of the algorithm as a record.

  The eight variables \<open>a\<close> to \<open>h\<close> of the block functions are a list. The source does not move their
  values from round to round; it passes them to the round macro in an order that is rotated by one
  place each time, which \<open>sha_arg\<close> gives.
\<close>

section \<open>Rounds\<close>

record 'w sha2 =
  s_Sigma0 :: "'w \<Rightarrow> 'w"
  s_Sigma1 :: "'w \<Rightarrow> 'w"
  s_sigma0 :: "'w \<Rightarrow> 'w"
  s_sigma1 :: "'w \<Rightarrow> 'w"
  s_K :: "'w list"

definition Ch :: "'w::len word \<Rightarrow> 'w word \<Rightarrow> 'w word \<Rightarrow> 'w word" where
  "Ch x y z = (x AND y) XOR (NOT x AND z)"

definition Maj :: "'w::len word \<Rightarrow> 'w word \<Rightarrow> 'w word \<Rightarrow> 'w word" where
  "Maj x y z = (x AND y) XOR (x AND z) XOR (y AND z)"

text \<open>In round \<open>i\<close> the macro parameter number \<open>k\<close> is variable number \<open>sha_arg i k\<close>.\<close>

definition sha_arg :: "nat \<Rightarrow> nat \<Rightarrow> nat" where
  "sha_arg i k = (k + 8 - i mod 8) mod 8"

definition ROUND_00_15 :: "'w::len word sha2 \<Rightarrow> nat \<Rightarrow> 'w word \<Rightarrow> 'w word list \<Rightarrow> 'w word list" where
  "ROUND_00_15 alg i T1 v =
     (let a = sha_arg i 0; b = sha_arg i 1; c = sha_arg i 2; d = sha_arg i 3;
          e = sha_arg i 4; f = sha_arg i 5; g = sha_arg i 6; h = sha_arg i 7;
          T1 = T1 + (v ! h + s_Sigma1 alg (v ! e) + Ch (v ! e) (v ! f) (v ! g) + s_K alg ! i);
          v = v[h := s_Sigma0 alg (v ! a) + Maj (v ! a) (v ! b) (v ! c)];
          v = v[d := v ! d + T1]
      in v[h := v ! h + T1])"

definition ROUND_16_63 ::
  "'w::len word sha2 \<Rightarrow> nat \<Rightarrow> 'w word list \<times> 'w word list \<Rightarrow> 'w word list \<times> 'w word list" where
  "ROUND_16_63 alg i = (\<lambda>(X, v).
     let s0 = s_sigma0 alg (X ! ((i + 1) mod 16));
         s1 = s_sigma1 alg (X ! ((i + 14) mod 16));
         T1 = X ! (i mod 16) + (s0 + s1 + X ! ((i + 9) mod 16))
     in (X[i mod 16 := T1], ROUND_00_15 alg i T1 v))"

text \<open>One block: sixteen rounds that load the words of the block, then the others. \<open>word_at\<close> loads
  a word of the block.\<close>

definition sha2_block ::
  "'w::len word sha2 \<Rightarrow> nat \<Rightarrow> (nat \<Rightarrow> 'w word) \<Rightarrow> 'w word list \<Rightarrow> 'w word list" where
  "sha2_block alg rounds word_at state =
     (let start = fold (\<lambda>i (X, v). (X[i := word_at i], ROUND_00_15 alg i (word_at i) v)) [0..<16]
            (replicate 16 0, state);
          (X, v) = fold (ROUND_16_63 alg) [16..<rounds] start
      in map2 (+) state v)"

section \<open>SHA-256\<close>

definition K256 :: "u32 list" where
  "K256 = concat [
     [0x428a2f98, 0x71374491, 0xb5c0fbcf, 0xe9b5dba5, 0x3956c25b],
     [0x59f111f1, 0x923f82a4, 0xab1c5ed5, 0xd807aa98, 0x12835b01],
     [0x243185be, 0x550c7dc3, 0x72be5d74, 0x80deb1fe, 0x9bdc06a7],
     [0xc19bf174, 0xe49b69c1, 0xefbe4786, 0x0fc19dc6, 0x240ca1cc],
     [0x2de92c6f, 0x4a7484aa, 0x5cb0a9dc, 0x76f988da, 0x983e5152],
     [0xa831c66d, 0xb00327c8, 0xbf597fc7, 0xc6e00bf3, 0xd5a79147],
     [0x06ca6351, 0x14292967, 0x27b70a85, 0x2e1b2138, 0x4d2c6dfc],
     [0x53380d13, 0x650a7354, 0x766a0abb, 0x81c2c92e, 0x92722c85],
     [0xa2bfe8a1, 0xa81a664b, 0xc24b8b70, 0xc76c51a3, 0xd192e819],
     [0xd6990624, 0xf40e3585, 0x106aa070, 0x19a4c116, 0x1e376c08],
     [0x2748774c, 0x34b0bcb5, 0x391c0cb3, 0x4ed8aa4a, 0x5b9cca4f],
     [0x682e6ff3, 0x748f82ee, 0x78a5636f, 0x84c87814, 0x8cc70208],
     [0x90befffa, 0xa4506ceb, 0xbef9a3f7, 0xc67178f2]]"

definition sha256_alg :: "u32 sha2" where
  "sha256_alg = \<lparr>
     s_Sigma0 = (\<lambda>x. CRYPTO_rotr_u32 x 2 XOR CRYPTO_rotr_u32 x 13 XOR CRYPTO_rotr_u32 x 22),
     s_Sigma1 = (\<lambda>x. CRYPTO_rotr_u32 x 6 XOR CRYPTO_rotr_u32 x 11 XOR CRYPTO_rotr_u32 x 25),
     s_sigma0 = (\<lambda>x. CRYPTO_rotr_u32 x 7 XOR CRYPTO_rotr_u32 x 18 XOR drop_bit 3 x),
     s_sigma1 = (\<lambda>x. CRYPTO_rotr_u32 x 17 XOR CRYPTO_rotr_u32 x 19 XOR drop_bit 10 x),
     s_K = K256\<rparr>"

primrec sha256_loop :: "nat \<Rightarrow> u32 list \<Rightarrow> u8 list \<Rightarrow> u32 list" where
  "sha256_loop 0 state data = state"
| "sha256_loop (Suc num) state data =
     sha256_loop num (sha2_block sha256_alg 64 (\<lambda>i. CRYPTO_load_u32_be (drop (4 * i) data)) state) (drop 64 data)"

definition sha256_block_data_order :: "u32 block_func" where
  "sha256_block_data_order state data num = sha256_loop num state data"

record sha256_ctx = md32_ctx +
  sha_md_len :: nat

definition SHA256_CBLOCK :: nat where
  "SHA256_CBLOCK = 64"

definition SHA256_DIGEST_LENGTH :: nat where
  "SHA256_DIGEST_LENGTH = 32"

definition SHA224_DIGEST_LENGTH :: nat where
  "SHA224_DIGEST_LENGTH = 28"

definition SHA224_Init :: sha256_ctx where
  "SHA224_Init = \<lparr>md_h = [0xc1059ed8, 0x367cd507, 0x3070dd17, 0xf70e5939, 0xffc00b31, 0x68581511, 0x64f98fa7, 0xbefa4fa4],
     md_Nl = 0, md_Nh = 0, md_data = replicate SHA256_CBLOCK 0, md_num = 0, sha_md_len = SHA224_DIGEST_LENGTH\<rparr>"

definition SHA256_Init :: sha256_ctx where
  "SHA256_Init = \<lparr>md_h = [0x6a09e667, 0xbb67ae85, 0x3c6ef372, 0xa54ff53a, 0x510e527f, 0x9b05688c, 0x1f83d9ab, 0x5be0cd19],
     md_Nl = 0, md_Nh = 0, md_data = replicate SHA256_CBLOCK 0, md_num = 0, sha_md_len = SHA256_DIGEST_LENGTH\<rparr>"

definition SHA256_Transform :: "u8 list \<Rightarrow> sha256_ctx \<Rightarrow> sha256_ctx" where
  "SHA256_Transform data c = c\<lparr>md_h := sha256_block_data_order (md_h c) data 1\<rparr>"

definition SHA256_TransformBlocks :: "u32 list \<Rightarrow> u8 list \<Rightarrow> nat \<Rightarrow> u32 list" where
  "SHA256_TransformBlocks state data num_blocks = sha256_block_data_order state data num_blocks"

definition SHA256_Update :: "u8 list \<Rightarrow> sha256_ctx \<Rightarrow> sha256_ctx" where
  "SHA256_Update data c = crypto_md32_update sha256_block_data_order SHA256_CBLOCK data c"

definition SHA224_Update :: "u8 list \<Rightarrow> sha256_ctx \<Rightarrow> sha256_ctx" where
  "SHA224_Update data c = SHA256_Update data c"

text \<open>\<open>None\<close> is a failure; the digest is what is written to \<open>out\<close>.\<close>

definition sha256_final_impl :: "(sha256_ctx, u8 list) op" where
  "sha256_final_impl c =
     (let c = crypto_md32_final sha256_block_data_order SHA256_CBLOCK True c in
      if sha_md_len c > SHA256_DIGEST_LENGTH then (None, c)
      else (Some (concat (map CRYPTO_store_u32_be (take (sha_md_len c div 4) (md_h c)))), c))"

definition SHA256_Final :: "(sha256_ctx, u8 list) op" where
  "SHA256_Final c = sha256_final_impl c"

definition SHA224_Final :: "(sha256_ctx, u8 list) op" where
  "SHA224_Final c = sha256_final_impl c"

definition SHA224 :: "u8 list \<Rightarrow> u8 list option" where
  "SHA224 data = fst (SHA224_Final (SHA224_Update data SHA224_Init))"

definition SHA256 :: "u8 list \<Rightarrow> u8 list option" where
  "SHA256 data = fst (SHA256_Final (SHA256_Update data SHA256_Init))"

section \<open>SHA-512\<close>

definition CRYPTO_load_u64_be :: "u8 list \<Rightarrow> u64" where
  "CRYPTO_load_u64_be p =
     CRYPTO_bswap8 (ucast (CRYPTO_load_u32_le p) OR push_bit 32 (ucast (CRYPTO_load_u32_le (drop 4 p))))"

definition CRYPTO_store_u64_be :: "u64 \<Rightarrow> u8 list" where
  "CRYPTO_store_u64_be v =
     (let v = CRYPTO_bswap8 v in CRYPTO_store_u32_le (ucast v) @ CRYPTO_store_u32_le (ucast (drop_bit 32 v)))"

definition CRYPTO_rotr_u64 :: "u64 \<Rightarrow> nat \<Rightarrow> u64" where
  "CRYPTO_rotr_u64 v shift = drop_bit shift v OR push_bit ((64 - shift) mod 64) v"

definition K512 :: "u64 list" where
  "K512 = concat [
     [0x428a2f98d728ae22, 0x7137449123ef65cd],
     [0xb5c0fbcfec4d3b2f, 0xe9b5dba58189dbbc],
     [0x3956c25bf348b538, 0x59f111f1b605d019],
     [0x923f82a4af194f9b, 0xab1c5ed5da6d8118],
     [0xd807aa98a3030242, 0x12835b0145706fbe],
     [0x243185be4ee4b28c, 0x550c7dc3d5ffb4e2],
     [0x72be5d74f27b896f, 0x80deb1fe3b1696b1],
     [0x9bdc06a725c71235, 0xc19bf174cf692694],
     [0xe49b69c19ef14ad2, 0xefbe4786384f25e3],
     [0x0fc19dc68b8cd5b5, 0x240ca1cc77ac9c65],
     [0x2de92c6f592b0275, 0x4a7484aa6ea6e483],
     [0x5cb0a9dcbd41fbd4, 0x76f988da831153b5],
     [0x983e5152ee66dfab, 0xa831c66d2db43210],
     [0xb00327c898fb213f, 0xbf597fc7beef0ee4],
     [0xc6e00bf33da88fc2, 0xd5a79147930aa725],
     [0x06ca6351e003826f, 0x142929670a0e6e70],
     [0x27b70a8546d22ffc, 0x2e1b21385c26c926],
     [0x4d2c6dfc5ac42aed, 0x53380d139d95b3df],
     [0x650a73548baf63de, 0x766a0abb3c77b2a8],
     [0x81c2c92e47edaee6, 0x92722c851482353b],
     [0xa2bfe8a14cf10364, 0xa81a664bbc423001],
     [0xc24b8b70d0f89791, 0xc76c51a30654be30],
     [0xd192e819d6ef5218, 0xd69906245565a910],
     [0xf40e35855771202a, 0x106aa07032bbd1b8],
     [0x19a4c116b8d2d0c8, 0x1e376c085141ab53],
     [0x2748774cdf8eeb99, 0x34b0bcb5e19b48a8],
     [0x391c0cb3c5c95a63, 0x4ed8aa4ae3418acb],
     [0x5b9cca4f7763e373, 0x682e6ff3d6b2b8a3],
     [0x748f82ee5defb2fc, 0x78a5636f43172f60],
     [0x84c87814a1f0ab72, 0x8cc702081a6439ec],
     [0x90befffa23631e28, 0xa4506cebde82bde9],
     [0xbef9a3f7b2c67915, 0xc67178f2e372532b],
     [0xca273eceea26619c, 0xd186b8c721c0c207],
     [0xeada7dd6cde0eb1e, 0xf57d4f7fee6ed178],
     [0x06f067aa72176fba, 0x0a637dc5a2c898a6],
     [0x113f9804bef90dae, 0x1b710b35131c471b],
     [0x28db77f523047d84, 0x32caab7b40c72493],
     [0x3c9ebe0a15c9bebc, 0x431d67c49c100d4c],
     [0x4cc5d4becb3e42b6, 0x597f299cfc657e2a],
     [0x5fcb6fab3ad6faec, 0x6c44198c4a475817]]"

definition sha512_alg :: "u64 sha2" where
  "sha512_alg = \<lparr>
     s_Sigma0 = (\<lambda>x. CRYPTO_rotr_u64 x 28 XOR CRYPTO_rotr_u64 x 34 XOR CRYPTO_rotr_u64 x 39),
     s_Sigma1 = (\<lambda>x. CRYPTO_rotr_u64 x 14 XOR CRYPTO_rotr_u64 x 18 XOR CRYPTO_rotr_u64 x 41),
     s_sigma0 = (\<lambda>x. CRYPTO_rotr_u64 x 1 XOR CRYPTO_rotr_u64 x 8 XOR drop_bit 7 x),
     s_sigma1 = (\<lambda>x. CRYPTO_rotr_u64 x 19 XOR CRYPTO_rotr_u64 x 61 XOR drop_bit 6 x),
     s_K = K512\<rparr>"

primrec sha512_loop :: "nat \<Rightarrow> u64 list \<Rightarrow> u8 list \<Rightarrow> u64 list" where
  "sha512_loop 0 state data = state"
| "sha512_loop (Suc num) state data =
     sha512_loop num (sha2_block sha512_alg 80 (\<lambda>i. CRYPTO_load_u64_be (drop (8 * i) data)) state) (drop 128 data)"

definition sha512_block_data_order :: "u64 block_func" where
  "sha512_block_data_order state data num = sha512_loop num state data"

text \<open>The buffer \<open>p\<close> is not initialised and not cleared: only its first \<open>num\<close> bytes mean anything.\<close>

record sha512_ctx =
  s5_h :: "u64 list"
  s5_Nl :: u64
  s5_Nh :: u64
  s5_p :: "u8 list"
  s5_num :: nat
  s5_md_len :: nat

definition SHA512_CBLOCK :: nat where
  "SHA512_CBLOCK = 128"

definition SHA384_Init :: "u8 list \<Rightarrow> sha512_ctx" where
  "SHA384_Init p = \<lparr>s5_h = [0xcbbb9d5dc1059ed8, 0x629a292a367cd507, 0x9159015a3070dd17, 0x152fecd8f70e5939,
       0x67332667ffc00b31, 0x8eb44a8768581511, 0xdb0c2e0d64f98fa7, 0x47b5481dbefa4fa4],
     s5_Nl = 0, s5_Nh = 0, s5_p = p, s5_num = 0, s5_md_len = 48\<rparr>"

definition SHA512_Init :: "u8 list \<Rightarrow> sha512_ctx" where
  "SHA512_Init p = \<lparr>s5_h = [0x6a09e667f3bcc908, 0xbb67ae8584caa73b, 0x3c6ef372fe94f82b, 0xa54ff53a5f1d36f1,
       0x510e527fade682d1, 0x9b05688c2b3e6c1f, 0x1f83d9abfb41bd6b, 0x5be0cd19137e2179],
     s5_Nl = 0, s5_Nh = 0, s5_p = p, s5_num = 0, s5_md_len = 64\<rparr>"

definition SHA512_256_Init :: "u8 list \<Rightarrow> sha512_ctx" where
  "SHA512_256_Init p = \<lparr>s5_h = [0x22312194fc2bf72c, 0x9f555fa3c84c64c2, 0x2393b86b6f53b151, 0x963877195940eabd,
       0x96283ee2a88effe3, 0xbe5e1e2553863992, 0x2b0199fc2c85b8aa, 0x0eb72ddc81c52ca2],
     s5_Nl = 0, s5_Nh = 0, s5_p = p, s5_num = 0, s5_md_len = 32\<rparr>"

definition SHA512_Transform :: "u8 list \<Rightarrow> sha512_ctx \<Rightarrow> sha512_ctx" where
  "SHA512_Transform block c = c\<lparr>s5_h := sha512_block_data_order (s5_h c) block 1\<rparr>"

definition sha512_blocks :: "u8 list \<Rightarrow> sha512_ctx \<Rightarrow> sha512_ctx" where
  "sha512_blocks data c =
     (let len = length data;
          c = (if len \<ge> SHA512_CBLOCK then c\<lparr>s5_h := sha512_block_data_order (s5_h c) data (len div SHA512_CBLOCK)\<rparr> else c);
          data = (if len \<ge> SHA512_CBLOCK then drop (len - len mod SHA512_CBLOCK) data else data)
      in if length data \<noteq> 0 then c\<lparr>s5_p := OPENSSL_memcpy (s5_p c) 0 data, s5_num := length data\<rparr> else c)"

definition SHA512_Update :: "u8 list \<Rightarrow> sha512_ctx \<Rightarrow> sha512_ctx" where
  "SHA512_Update data c =
     (let len = length data in
      if len = 0 then c
      else let l = s5_Nl c + push_bit 3 (of_nat len);
               Nh = (if l < s5_Nl c then s5_Nh c + 1 else s5_Nh c) + of_nat (len div 2 ^ 61);
               c = c\<lparr>s5_Nh := Nh, s5_Nl := l\<rparr>
        in if s5_num c \<noteq> 0 then
             let n = SHA512_CBLOCK - s5_num c in
             if len < n then c\<lparr>s5_p := OPENSSL_memcpy (s5_p c) (s5_num c) data, s5_num := s5_num c + len\<rparr>
             else let p = OPENSSL_memcpy (s5_p c) (s5_num c) (take n data)
               in sha512_blocks (drop n data)
                    (c\<lparr>s5_p := p, s5_num := 0, s5_h := sha512_block_data_order (s5_h c) p 1\<rparr>)
           else sha512_blocks data c)"

definition SHA384_Update :: "u8 list \<Rightarrow> sha512_ctx \<Rightarrow> sha512_ctx" where
  "SHA384_Update data c = SHA512_Update data c"

definition SHA512_256_Update :: "u8 list \<Rightarrow> sha512_ctx \<Rightarrow> sha512_ctx" where
  "SHA512_256_Update data c = SHA512_Update data c"

text \<open>\<open>out\<close> says whether the caller gave a place for the digest; without one the function fails.\<close>

definition sha512_final_impl :: "bool \<Rightarrow> (sha512_ctx, u8 list) op" where
  "sha512_final_impl out c =
     (let p = (s5_p c)[s5_num c := 0x80]; n = s5_num c + 1;
          (h, p, n) =
            (if n > SHA512_CBLOCK - 16 then
               let p = OPENSSL_memset p n 0 (SHA512_CBLOCK - n) in (sha512_block_data_order (s5_h c) p 1, p, 0)
             else (s5_h c, p, n));
          p = OPENSSL_memset p n 0 (SHA512_CBLOCK - 16 - n);
          p = OPENSSL_memcpy p (SHA512_CBLOCK - 16) (CRYPTO_store_u64_be (s5_Nh c));
          p = OPENSSL_memcpy p (SHA512_CBLOCK - 8) (CRYPTO_store_u64_be (s5_Nl c));
          h = sha512_block_data_order h p 1;
          c = c\<lparr>s5_h := h, s5_p := p\<rparr>
      in if \<not> out then (None, c)
         else (Some (concat (map CRYPTO_store_u64_be (take (s5_md_len c div 8) h))), c))"

definition SHA384_Final :: "bool \<Rightarrow> (sha512_ctx, u8 list) op" where
  "SHA384_Final out c = sha512_final_impl out c"

definition SHA512_Final :: "bool \<Rightarrow> (sha512_ctx, u8 list) op" where
  "SHA512_Final out c = sha512_final_impl out c"

definition SHA512_256_Final :: "bool \<Rightarrow> (sha512_ctx, u8 list) op" where
  "SHA512_256_Final out c = sha512_final_impl out c"

text \<open>The one-shot functions; \<open>p\<close> is what the buffer on the stack holds at the start.\<close>

definition SHA384 :: "u8 list \<Rightarrow> u8 list \<Rightarrow> u8 list option" where
  "SHA384 p data = fst (SHA384_Final True (SHA384_Update data (SHA384_Init p)))"

definition SHA512 :: "u8 list \<Rightarrow> u8 list \<Rightarrow> u8 list option" where
  "SHA512 p data = fst (SHA512_Final True (SHA512_Update data (SHA512_Init p)))"

definition SHA512_256 :: "u8 list \<Rightarrow> u8 list \<Rightarrow> u8 list option" where
  "SHA512_256 p data = fst (SHA512_256_Final True (SHA512_256_Update data (SHA512_256_Init p)))"

end
