(* ===== verification/Sha2_Spec.thy ===== *)
theory Sha2_Spec
  imports Sha2
begin

text \<open>
  What the SHA-2 functions of \<open>Sha2\<close> compute. First the block functions: the code keeps sixteen
  words of the message schedule and renames its variables from round to round; FIPS 180-4 computes
  the whole schedule and moves the values. Both give the same chaining state. Then the messages:
  the block functions satisfy the contract of the collector, SHA-512 has its own collector with
  the same effect, and a digest is the standard's, however the message was cut into updates.
\<close>

section \<open>The compression functions of FIPS 180-4\<close>

definition fips_round :: "'w::len word sha2 \<Rightarrow> nat \<Rightarrow> 'w word \<Rightarrow> 'w word list \<Rightarrow> 'w word list" where
  "fips_round alg t W v =
     (let T1 = v ! 7 + s_Sigma1 alg (v ! 4) + Ch (v ! 4) (v ! 5) (v ! 6) + s_K alg ! t + W;
          T2 = s_Sigma0 alg (v ! 0) + Maj (v ! 0) (v ! 1) (v ! 2)
      in [T1 + T2, v ! 0, v ! 1, v ! 2, v ! 3 + T1, v ! 4, v ! 5, v ! 6])"

fun fips_schedule :: "'w::len word sha2 \<Rightarrow> (nat \<Rightarrow> 'w word) \<Rightarrow> nat \<Rightarrow> 'w word" where
  "fips_schedule alg M t =
     (if t < 16 then M t
      else s_sigma1 alg (fips_schedule alg M (t - 2)) + fips_schedule alg M (t - 7) +
        s_sigma0 alg (fips_schedule alg M (t - 15)) + fips_schedule alg M (t - 16))"

declare fips_schedule.simps [simp del]

definition fips_compress ::
  "'w::len word sha2 \<Rightarrow> nat \<Rightarrow> (nat \<Rightarrow> 'w word) \<Rightarrow> 'w word list \<Rightarrow> 'w word list" where
  "fips_compress alg rounds M H =
     map2 (+) H (fold (\<lambda>t. fips_round alg t (fips_schedule alg M t)) [0..<rounds] H)"

section \<open>Rounds\<close>

text \<open>The variables in the order in which round \<open>i\<close> names them.\<close>

definition renamed :: "nat \<Rightarrow> 'a list \<Rightarrow> 'a list" where
  "renamed i v = map (\<lambda>k. v ! sha_arg i k) [0..<8]"

lemma length_8: "length v = 8 \<longleftrightarrow> (\<exists>a b c d e f g h. v = [a, b, c, d, e, f, g, h])"
  by (auto simp: numeral_eq_Suc length_Suc_conv)

lemma upt_8: "[0..<8] = [0, 1, 2, 3, 4, 5, 6, 7 :: nat]"
  by (simp add: upt_rec)

lemma round_renamed:
  assumes "length v = 8"
  shows "renamed (Suc i) (ROUND_00_15 alg i W v) = fips_round alg i W (renamed i v)"
proof -
  obtain a b c d e f g h where v: "v = [a, b, c, d, e, f, g, h]" using assms unfolding length_8 by blast
  have "i mod 8 < 8" by simp
  then consider "i mod 8 = 0" | "i mod 8 = 1" | "i mod 8 = 2" | "i mod 8 = 3" | "i mod 8 = 4"
    | "i mod 8 = 5" | "i mod 8 = 6" | "i mod 8 = 7" by linarith
  then show ?thesis
    by cases (simp_all add: v renamed_def upt_8 sha_arg_def mod_Suc ROUND_00_15_def fips_round_def Let_def add_ac)
qed

lemma length_round: "length (ROUND_00_15 alg i W v) = length v"
  by (simp add: ROUND_00_15_def Let_def)

lemma length_fips_round [simp]: "length (fips_round alg t W v) = 8"
  by (simp add: fips_round_def Let_def)

lemma schedule_from_window:
  assumes w: "window n X (fips_schedule alg M)" and n: "16 \<le> n"
  shows "X ! (n mod 16) + (s_sigma0 alg (X ! ((n + 1) mod 16)) + s_sigma1 alg (X ! ((n + 14) mod 16)) +
    X ! ((n + 9) mod 16)) = fips_schedule alg M n"
proof -
  have m: "n mod 16 = (n - 16) mod 16" "(n + 1) mod 16 = (n - 15) mod 16" "(n + 14) mod 16 = (n - 2) mod 16"
    "(n + 9) mod 16 = (n - 7) mod 16"
    using n by (simp_all add: mod_eq_dvd_iff_nat le_mod_geq)
  show ?thesis
    using n window_at[OF w _ _ m(1)] window_at[OF w _ _ m(2)] window_at[OF w _ _ m(3)] window_at[OF w _ _ m(4)]
    by (subst fips_schedule.simps) (simp add: add_ac)
qed

text \<open>The two loops.\<close>

lemma first_rounds:
  assumes "length v = 8" and "n \<le> 16"
  shows "\<exists>X v'. fold (\<lambda>i (X, v). (X[i := M i], ROUND_00_15 alg i (M i) v)) [0..<n] (replicate 16 0, v) = (X, v') \<and>
    window n X (fips_schedule alg M) \<and> length v' = 8 \<and>
    renamed n v' = fold (\<lambda>t. fips_round alg t (fips_schedule alg M t)) [0..<n] (renamed 0 v)"
  using assms(2)
proof (induction n)
  case 0
  show ?case using assms(1) by (simp add: window_def)
next
  case (Suc n)
  then obtain X v' where e: "fold (\<lambda>i (X, v). (X[i := M i], ROUND_00_15 alg i (M i) v)) [0..<n] (replicate 16 0, v) = (X, v')"
    and w: "window n X (fips_schedule alg M)" and l: "length v' = 8"
    and r: "renamed n v' = fold (\<lambda>t. fips_round alg t (fips_schedule alg M t)) [0..<n] (renamed 0 v)"
    by auto
  have M: "fips_schedule alg M n = M n" using Suc.prems by (subst fips_schedule.simps) simp
  have "window (Suc n) (X[n := M n]) (fips_schedule alg M)"
    using window_step[OF w] Suc.prems by (simp add: M)
  then show ?case using e l r by (simp add: M round_renamed[OF l] length_round)
qed

lemma later_rounds:
  assumes "window 16 X (fips_schedule alg M)" and "length v = 8"
    and "renamed 16 v = fold (\<lambda>t. fips_round alg t (fips_schedule alg M t)) [0..<16] v0"
    and "16 \<le> n"
  shows "\<exists>X' v'. fold (ROUND_16_63 alg) [16..<n] (X, v) = (X', v') \<and>
    window n X' (fips_schedule alg M) \<and> length v' = 8 \<and>
    renamed n v' = fold (\<lambda>t. fips_round alg t (fips_schedule alg M t)) [0..<n] v0"
  using assms(4)
proof (induction n rule: dec_induct)
  case base
  show ?case using assms by simp
next
  case (step n)
  then obtain X' v' where e: "fold (ROUND_16_63 alg) [16..<n] (X, v) = (X', v')"
    and w: "window n X' (fips_schedule alg M)" and l: "length v' = 8"
    and r: "renamed n v' = fold (\<lambda>t. fips_round alg t (fips_schedule alg M t)) [0..<n] v0"
    by auto
  have "fold (ROUND_16_63 alg) [16..<Suc n] (X, v) =
      (X'[n mod 16 := fips_schedule alg M n], ROUND_00_15 alg n (fips_schedule alg M n) v')"
    using e schedule_from_window[OF w] step.hyps by (simp add: ROUND_16_63_def Let_def)
  then show ?case using r window_step[OF w] by (simp add: round_renamed[OF l] length_round l)
qed

lemma renamed_whole: "length v = 8 \<Longrightarrow> n mod 8 = 0 \<Longrightarrow> renamed n v = v"
  unfolding length_8 by (auto simp: renamed_def sha_arg_def upt_8)

theorem sha2_block_fips:
  assumes "length state = 8" and "16 \<le> rounds" and "rounds mod 8 = 0"
  shows "sha2_block alg rounds M state = fips_compress alg rounds M state"
proof -
  obtain X v where first: "fold (\<lambda>i (X, v). (X[i := M i], ROUND_00_15 alg i (M i) v)) [0..<16] (replicate 16 0, state) = (X, v)"
    "window 16 X (fips_schedule alg M)" "length v = 8"
    "renamed 16 v = fold (\<lambda>t. fips_round alg t (fips_schedule alg M t)) [0..<16] (renamed 0 state)"
    using first_rounds[OF assms(1), of 16 M alg] by auto
  from later_rounds[OF first(2-4) assms(2)] obtain X' v' where
    "fold (ROUND_16_63 alg) [16..<rounds] (X, v) = (X', v')" "length v' = 8"
    "renamed rounds v' = fold (\<lambda>t. fips_round alg t (fips_schedule alg M t)) [0..<rounds] (renamed 0 state)"
    by blast
  then show ?thesis
    using first(1) renamed_whole[of v' rounds] renamed_whole[of state 0] assms
    by (simp add: sha2_block_def fips_compress_def)
qed

section \<open>The contract of the block functions\<close>

lemma sha2_block_cong:
  assumes "\<And>i. i < 16 \<Longrightarrow> M i = M' i"
  shows "sha2_block alg rounds M state = sha2_block alg rounds M' state"
proof -
  have "fold (\<lambda>i (X, v). (X[i := M i], ROUND_00_15 alg i (M i) v)) [0..<16] (replicate 16 0, state) =
      fold (\<lambda>i (X, v). (X[i := M' i], ROUND_00_15 alg i (M' i) v)) [0..<16] (replicate 16 0, state)"
    by (rule fold_cong) (use assms in auto)
  then show ?thesis by (simp add: sha2_block_def)
qed

lemma sha2_block_append:
  "length b = 64 \<Longrightarrow> sha2_block alg n (\<lambda>i. CRYPTO_load_u32_be (drop (4 * i) (b @ r))) h =
    sha2_block alg n (\<lambda>i. CRYPTO_load_u32_be (drop (4 * i) b)) h"
  "length b = 128 \<Longrightarrow> sha2_block alg' n (\<lambda>i. CRYPTO_load_u64_be (drop (8 * i) (b @ r))) h' =
    sha2_block alg' n (\<lambda>i. CRYPTO_load_u64_be (drop (8 * i) b)) h'"
  by (rule sha2_block_cong, simp add: CRYPTO_load_u32_be_def CRYPTO_load_u64_be_def load_u32_append del: drop_append)+

interpretation sha256: md32_hash sha256_block_data_order SHA256_CBLOCK
proof unfold_locales
  fix b r :: "u8 list" and h n assume b: "length b = SHA256_CBLOCK"
  then have d: "drop 64 (b @ r) = r" by (simp add: SHA256_CBLOCK_def)
  show "sha256_block_data_order h (b @ r) 1 = sha256_block_data_order h b 1"
    "sha256_block_data_order h (b @ r) (Suc n) = sha256_block_data_order (sha256_block_data_order h b 1) r n"
    using b by (simp_all add: sha256_block_data_order_def SHA256_CBLOCK_def sha2_block_append d del: drop_append)
qed (simp_all add: SHA256_CBLOCK_def)

interpretation sha512: block_hash sha512_block_data_order SHA512_CBLOCK
proof unfold_locales
  fix b r :: "u8 list" and h n assume b: "length b = SHA512_CBLOCK"
  then have d: "drop 128 (b @ r) = r" by (simp add: SHA512_CBLOCK_def)
  show "sha512_block_data_order h (b @ r) 1 = sha512_block_data_order h b 1"
    "sha512_block_data_order h (b @ r) (Suc n) = sha512_block_data_order (sha512_block_data_order h b 1) r n"
    using b by (simp_all add: sha512_block_data_order_def SHA512_CBLOCK_def sha2_block_append d del: drop_append)
qed (simp_all add: SHA512_CBLOCK_def)

section \<open>Digests\<close>

text \<open>The digests of FIPS 180-4: pad, compress block by block, write the first words of the
  chaining state.\<close>

definition sha256_compress :: "u8 list \<Rightarrow> u32 list \<Rightarrow> u32 list" where
  "sha256_compress b = fips_compress sha256_alg 64 (\<lambda>i. CRYPTO_load_u32_be (drop (4 * i) b))"

definition sha256_digest :: "u32 list \<Rightarrow> nat \<Rightarrow> u8 list \<Rightarrow> u8 list" where
  "sha256_digest iv out_words m =
     (let padded = m @ md_padding 64 8 length_be (length m) in
      concat (map CRYPTO_store_u32_be (take out_words
        (fold sha256_compress (blocks_of 64 (length padded div 64) padded) iv))))"

definition length_be_16 :: "nat \<Rightarrow> u8 list" where
  "length_be_16 n = be_bytes 8 (of_nat (8 * n div 2 ^ 64)) @ be_bytes 8 (of_nat (8 * n))"

definition sha512_compress :: "u8 list \<Rightarrow> u64 list \<Rightarrow> u64 list" where
  "sha512_compress b = fips_compress sha512_alg 80 (\<lambda>i. CRYPTO_load_u64_be (drop (8 * i) b))"

definition sha512_digest :: "u64 list \<Rightarrow> nat \<Rightarrow> u8 list \<Rightarrow> u8 list" where
  "sha512_digest iv out_words m =
     (let padded = m @ md_padding 128 16 length_be_16 (length m) in
      concat (map CRYPTO_store_u64_be (take out_words
        (fold sha512_compress (blocks_of 128 (length padded div 128) padded) iv))))"

lemma length_fips_compress: "length H = 8 \<Longrightarrow> 0 < n \<Longrightarrow> length (fips_compress alg n M H) = 8"
proof -
  assume "length H = 8" "0 < n"
  moreover have "length (fold (\<lambda>t. fips_round alg t (fips_schedule alg M t)) [0..<Suc k] H) = 8" for k
    by simp
  ultimately show ?thesis by (cases n) (auto simp: fips_compress_def)
qed

lemma sha256_compress_eq: "length h = 8 \<Longrightarrow> sha256.compress b h = sha256_compress b h"
  by (simp add: sha256.compress_def sha256_block_data_order_def sha256_compress_def sha2_block_fips)

lemma sha512_compress_eq: "length h = 8 \<Longrightarrow> sha512.compress b h = sha512_compress b h"
  by (simp add: sha512.compress_def sha512_block_data_order_def sha512_compress_def sha2_block_fips)

lemma sha256_absorb: "length h = 8 \<Longrightarrow>
    sha256.absorb h m = fold sha256_compress (blocks_of 64 (length m div 64) m) h"
  unfolding sha256.absorb_def unfolding SHA256_CBLOCK_def
  by (rule conjunct1[OF fold_compress])
    (auto simp: sha256_compress_eq sha256_compress_def length_fips_compress)

lemma sha512_absorb: "length h = 8 \<Longrightarrow>
    sha512.absorb h m = fold sha512_compress (blocks_of 128 (length m div 128) m) h"
  unfolding sha512.absorb_def unfolding SHA512_CBLOCK_def
  by (rule conjunct1[OF fold_compress])
    (auto simp: sha512_compress_eq sha512_compress_def length_fips_compress)

section \<open>SHA-256\<close>

lemma SHA256_Update_tracks:
  "sha256.tracks iv m c \<Longrightarrow> length x < SIZE_MOD \<Longrightarrow> sha256.tracks iv (m @ x) (SHA256_Update x c)"
  unfolding SHA256_Update_def by (rule sha256.update_tracks)

lemma SHA256_Update_md_len: "sha_md_len (SHA256_Update x c) = sha_md_len c"
  by (simp add: SHA256_Update_def crypto_md32_update_def md32_blocks_def Let_def)

lemma SHA256_updates_track:
  assumes "sha256.tracks iv m c" and "\<forall>x\<in>set xs. length x < SIZE_MOD"
  shows "sha256.tracks iv (m @ concat xs) (fold SHA256_Update xs c) \<and>
    sha_md_len (fold SHA256_Update xs c) = sha_md_len c"
  using assms
proof (induction xs arbitrary: m c)
  case (Cons x xs)
  from Cons.IH[OF SHA256_Update_tracks[OF Cons.prems(1), of x]] Cons.prems(2)
  show ?case by (simp add: SHA256_Update_md_len)
qed simp

lemma sha256_final_digest:
  assumes "sha256.tracks iv m c" and "length iv = 8" and "sha_md_len c \<le> 32"
  shows "fst (sha256_final_impl c) = Some (sha256_digest iv (sha_md_len c div 4) m)"
proof -
  have "md_h (crypto_md32_final sha256_block_data_order SHA256_CBLOCK True c) =
      sha256.absorb iv (m @ md_padding 64 8 length_be (length m))"
    using sha256.final_tracks[OF assms(1), of True] by (simp add: SHA256_CBLOCK_def)
  moreover have "sha_md_len (crypto_md32_final sha256_block_data_order SHA256_CBLOCK True c) = sha_md_len c"
    by (simp add: crypto_md32_final_def Let_def split: prod.splits)
  ultimately show ?thesis using assms(3)
    by (simp add: sha256_final_impl_def Let_def SHA256_DIGEST_LENGTH_def sha256_digest_def sha256_absorb[OF assms(2)])
qed

lemma SHA256_Init_tracks:
  "sha256.tracks (md_h SHA256_Init) [] SHA256_Init" "sha256.tracks (md_h SHA224_Init) [] SHA224_Init"
  by (simp_all add: sha256.tracks_def sha256.absorb_def sha256.pending_def SHA256_Init_def SHA224_Init_def)

theorem SHA256_digest:
  assumes "\<forall>x\<in>set xs. length x < SIZE_MOD"
  shows "fst (SHA256_Final (fold SHA256_Update xs SHA256_Init)) =
      Some (sha256_digest (md_h SHA256_Init) 8 (concat xs))"
    and "fst (SHA224_Final (fold SHA224_Update xs SHA224_Init)) =
      Some (sha256_digest (md_h SHA224_Init) 7 (concat xs))"
proof -
  have u: "SHA224_Update = SHA256_Update" by (simp add: SHA224_Update_def fun_eq_iff)
  show "fst (SHA256_Final (fold SHA256_Update xs SHA256_Init)) =
      Some (sha256_digest (md_h SHA256_Init) 8 (concat xs))"
    using sha256_final_digest[of "md_h SHA256_Init" "concat xs" "fold SHA256_Update xs SHA256_Init"]
      SHA256_updates_track[OF SHA256_Init_tracks(1) assms]
    by (simp add: SHA256_Final_def) (simp add: SHA256_Init_def SHA256_DIGEST_LENGTH_def)
  show "fst (SHA224_Final (fold SHA224_Update xs SHA224_Init)) =
      Some (sha256_digest (md_h SHA224_Init) 7 (concat xs))"
    using sha256_final_digest[of "md_h SHA224_Init" "concat xs" "fold SHA256_Update xs SHA224_Init"]
      SHA256_updates_track[OF SHA256_Init_tracks(2) assms]
    by (simp add: SHA224_Final_def u) (simp add: SHA224_Init_def SHA224_DIGEST_LENGTH_def)
qed

section \<open>SHA-512\<close>

text \<open>The collector of SHA-512 does not clear its buffer: what the state tracks is only what the
  first \<open>num\<close> bytes hold.\<close>

definition tracks512 :: "u64 list \<Rightarrow> u8 list \<Rightarrow> sha512_ctx \<Rightarrow> bool" where
  "tracks512 iv m c \<longleftrightarrow> s5_h c = sha512.absorb iv m \<and> s5_num c = length (sha512.pending m) \<and>
     length (s5_p c) = 128 \<and> take (s5_num c) (s5_p c) = sha512.pending m \<and>
     s5_Nl c = of_nat (8 * length m) \<and> s5_Nh c = of_nat (8 * length m div 2 ^ 64)"

lemma count_bits_64:
  "of_nat (8 * m) + push_bit 3 (of_nat n) = (of_nat (8 * (m + n)) :: u64)"
  "(if of_nat (8 * m) + push_bit 3 (of_nat n) < (of_nat (8 * m) :: u64)
     then of_nat (8 * m div 2 ^ 64) + 1 else of_nat (8 * m div 2 ^ 64)) + of_nat (n div 2 ^ 61) =
   (of_nat (8 * (m + n) div 2 ^ 64) :: u64)"
proof -
  have e: "(2::nat) ^ 3 = 8" "LENGTH(64) = (64::nat)" "(64::nat) - 3 = 61" by simp_all
  show "of_nat (8 * m) + push_bit 3 (of_nat n) = (of_nat (8 * (m + n)) :: u64)"
    using count_low[of 8 m 3 n] by (simp add: add_mult_distrib2)
  show "(if of_nat (8 * m) + push_bit 3 (of_nat n) < (of_nat (8 * m) :: u64)
       then of_nat (8 * m div 2 ^ 64) + 1 else of_nat (8 * m div 2 ^ 64)) + of_nat (n div 2 ^ 61) =
     (of_nat (8 * (m + n) div 2 ^ 64) :: u64)"
    by (rule count_high[where 'a = 64, of 3 m n, unfolded e]) simp
qed

lemma sha512_blocks_track:
  assumes "s5_h c = sha512.absorb iv m" and "sha512.pending m = []" and "s5_num c = 0" and "length (s5_p c) = 128"
  shows "s5_h (sha512_blocks x c) = sha512.absorb iv (m @ x)"
    and "s5_num (sha512_blocks x c) = length (sha512.pending (m @ x))"
    and "length (s5_p (sha512_blocks x c)) = 128"
    and "take (s5_num (sha512_blocks x c)) (s5_p (sha512_blocks x c)) = sha512.pending (m @ x)"
    and "s5_Nl (sha512_blocks x c) = s5_Nl c" and "s5_Nh (sha512_blocks x c) = s5_Nh c"
    and "s5_md_len (sha512_blocks x c) = s5_md_len c"
proof -
  have p: "sha512.pending (m @ x) = sha512.pending x"
    and a: "sha512.absorb iv (m @ x) = sha512.absorb (sha512.absorb iv m) x"
    using sha512.pending_append[of m x] sha512.absorb_append[of iv m x] assms(2) by simp_all
  define r where "r = drop (length x - length x mod SHA512_CBLOCK) x"
  have r: "sha512.pending x = r" "\<not> SHA512_CBLOCK \<le> length x \<Longrightarrow> r = x" "length r < 128"
    unfolding r_def sha512.pending_def by (simp_all add: minus_mod_eq_div_mult SHA512_CBLOCK_def)
  have e: "sha512_blocks x c = (let c = c\<lparr>s5_h := sha512.absorb (s5_h c) x\<rparr> in
      if length r \<noteq> 0 then c\<lparr>s5_p := OPENSSL_memcpy (s5_p c) 0 r, s5_num := length r\<rparr> else c)"
  proof -
    have "sha512.absorb h x = (if 128 \<le> length x then sha512_block_data_order h x (length x div 128) else h)" for h
      unfolding sha512.absorb_blocks unfolding SHA512_CBLOCK_def by (simp add: div_greater_zero_iff)
    then show ?thesis using r(2) r_def unfolding sha512_blocks_def
      by (simp only: SHA512_CBLOCK_def) (cases "128 \<le> length x"; simp add: Let_def)
  qed
  show "s5_h (sha512_blocks x c) = sha512.absorb iv (m @ x)"
    "s5_num (sha512_blocks x c) = length (sha512.pending (m @ x))"
    "length (s5_p (sha512_blocks x c)) = 128"
    "take (s5_num (sha512_blocks x c)) (s5_p (sha512_blocks x c)) = sha512.pending (m @ x)"
    using assms r(3) unfolding p a r(1) e by (auto simp: Let_def OPENSSL_memcpy_def)
  show "s5_Nl (sha512_blocks x c) = s5_Nl c" "s5_Nh (sha512_blocks x c) = s5_Nh c"
    "s5_md_len (sha512_blocks x c) = s5_md_len c"
    unfolding e by (simp_all add: Let_def)
qed

lemma SHA512_Update_tracks:
  assumes c: "tracks512 iv m c" and x: "length x < SIZE_MOD"
  shows "tracks512 iv (m @ x) (SHA512_Update x c)" and "s5_md_len (SHA512_Update x c) = s5_md_len c"
proof -
  let ?Nh = "(if s5_Nl c + push_bit 3 (of_nat (length x)) < s5_Nl c then s5_Nh c + 1 else s5_Nh c) +
    of_nat (length x div 2 ^ 61)"
  let ?Nl = "s5_Nl c + push_bit 3 (of_nat (length x))"
  have l: "s5_Nl c = of_nat (8 * length m)" "s5_Nh c = of_nat (8 * length m div 2 ^ 64)"
    using c by (simp_all only: tracks512_def)
  have Nh: "?Nh = of_nat (8 * length (m @ x) div 2 ^ 64)" and Nl: "?Nl = of_nat (8 * length (m @ x))"
    unfolding l length_append by (rule count_bits_64)+
  let ?c = "c\<lparr>s5_Nh := ?Nh, s5_Nl := ?Nl\<rparr>" and ?n = "s5_num c" and ?p = "sha512.pending m"
  have p: "?n = length ?p" "?n < 128" "take ?n (s5_p c) = ?p" "length (s5_p c) = 128" "s5_h c = sha512.absorb iv m"
    using c sha512.pending_less[of m] by (auto simp: tracks512_def SHA512_CBLOCK_def)
  note upd = SHA512_Update_def[of x c]
  consider "x = []" | "x \<noteq> []" "?n = 0" | "x \<noteq> []" "?n \<noteq> 0" "length x < 128 - ?n"
    | "x \<noteq> []" "?n \<noteq> 0" "\<not> length x < 128 - ?n" by blast
  then have "tracks512 iv (m @ x) (SHA512_Update x c) \<and> s5_md_len (SHA512_Update x c) = s5_md_len c"
  proof cases
    case 1
    then show ?thesis using c by (simp add: SHA512_Update_def)
  next
    case 2
    then have eq: "SHA512_Update x c = sha512_blocks x ?c" by (simp add: upd Let_def)
    show ?thesis unfolding eq tracks512_def
      using sha512_blocks_track[of ?c iv m x] 2 p Nh Nl by simp
  next
    case 3
    then have eq: "SHA512_Update x c = ?c\<lparr>s5_p := OPENSSL_memcpy (s5_p c) ?n x, s5_num := ?n + length x\<rparr>"
      by (simp add: upd Let_def SHA512_CBLOCK_def)
    have s: "length (?p @ x) < SHA512_CBLOCK" using 3 p by (simp add: SHA512_CBLOCK_def)
    have "sha512.absorb iv (m @ x) = sha512.absorb iv m" "sha512.pending (m @ x) = ?p @ x"
      using sha512.absorb_append[of iv m x] sha512.absorb_short[OF s] sha512.pending_append[of m x]
        sha512.pending_short[OF s] by simp_all
    then show ?thesis unfolding eq tracks512_def using p Nh Nl s by (simp add: OPENSSL_memcpy_def SHA512_CBLOCK_def)
  next
    case 4
    let ?t = "take (128 - ?n) x" and ?r = "drop (128 - ?n) x"
    let ?b = "OPENSSL_memcpy (s5_p c) ?n ?t"
    define d where "d = c\<lparr>s5_Nh := ?Nh, s5_Nl := ?Nl, s5_p := ?b, s5_num := 0,
      s5_h := sha512_block_data_order (s5_h c) ?b 1\<rparr>"
    have b: "?b = ?p @ ?t" "length (?p @ ?t) = SHA512_CBLOCK"
      using 4 p by (auto simp: OPENSSL_memcpy_def SHA512_CBLOCK_def)
    have eq: "SHA512_Update x c = sha512_blocks ?r d"
      using 4 by (simp add: upd Let_def SHA512_CBLOCK_def d_def)
    have m: "(m @ ?t) @ ?r = m @ x" by simp
    have pt: "sha512.pending (m @ ?t) = []"
      using sha512.pending_append[of m ?t] sha512.pending_block[OF b(2), of "[]"] by (simp add: sha512.pending_def)
    have a: "s5_h d = sha512.absorb iv (m @ ?t)"
      using sha512.absorb_append[of iv m ?t] sha512.absorb_block[OF b(2), of _ "[]"] p(5)
      by (simp add: sha512.absorb_short sha512.block_size_pos sha512.compress_def b(1) d_def)
    have q: "s5_num d = 0" "length (s5_p d) = 128"
      using b(2) unfolding d_def b(1) by (simp_all add: SHA512_CBLOCK_def)
    have k: "s5_Nl d = of_nat (8 * length (m @ x))" "s5_Nh d = of_nat (8 * length (m @ x) div 2 ^ 64)"
      "s5_md_len d = s5_md_len c"
      unfolding d_def using Nh Nl by simp_all
    show ?thesis unfolding eq tracks512_def
      using sha512_blocks_track[OF a pt q, of ?r, unfolded m k] by blast
  qed
  then show "tracks512 iv (m @ x) (SHA512_Update x c)" "s5_md_len (SHA512_Update x c) = s5_md_len c" by auto
qed

lemma SHA512_updates_track:
  assumes "tracks512 iv m c" and "\<forall>x\<in>set xs. length x < SIZE_MOD"
  shows "tracks512 iv (m @ concat xs) (fold SHA512_Update xs c) \<and>
    s5_md_len (fold SHA512_Update xs c) = s5_md_len c"
  using assms
proof (induction xs arbitrary: m c)
  case (Cons x xs)
  from Cons.IH[OF SHA512_Update_tracks(1)[OF Cons.prems(1), of x]] Cons.prems SHA512_Update_tracks(2)
  show ?case by fastforce
qed simp

lemma store_u64_be_bytes: "CRYPTO_store_u64_be v = be_bytes 8 v"
proof -
  have swap: "CRYPTO_store_u32_le (CRYPTO_bswap4 w) = CRYPTO_store_u32_be w" for w
    by (simp add: CRYPTO_store_u32_be_def)
  have "(ucast (CRYPTO_bswap8 v) :: u32) = CRYPTO_bswap4 (ucast (drop_bit 32 v))"
    "(ucast (drop_bit 32 (CRYPTO_bswap8 v)) :: u32) = CRYPTO_bswap4 (ucast v)"
    unfolding CRYPTO_bswap8_def by (rule bit_word_eqI, auto simp: bit_simps dest: bit_imp_le_length)+
  then show ?thesis by (simp add: CRYPTO_store_u64_be_def Let_def swap be_bytes_8)
qed

lemma last_block_128:
  assumes "length d = 128" and "n \<le> 112" and "length a = 8" and "length b = 8"
  shows "OPENSSL_memcpy (OPENSSL_memcpy (OPENSSL_memset d n 0 (112 - n)) 112 a) 120 b =
    take n d @ replicate (112 - n) 0 @ a @ b"
  using assms by (simp add: OPENSSL_memset_def OPENSSL_memcpy_def)

lemma sha512_final_digest:
  assumes c: "tracks512 iv m c" and "length iv = 8"
  shows "fst (sha512_final_impl True c) = Some (sha512_digest iv (s5_md_len c div 8) m)"
proof -
  let ?p = "sha512.pending m" and ?ls = "length_be_16 (length m)" and ?n = "s5_num c"
  have p: "length ?p < SHA512_CBLOCK" "length m mod SHA512_CBLOCK = length ?p" "(16::nat) < SHA512_CBLOCK"
    "length ?ls = 16"
    using sha512.pending_less[of m] sha512.length_pending_block[of m]
    by (auto simp: length_be_16_def) (auto simp: SHA512_CBLOCK_def)
  have f: "?n = length ?p" "length (s5_p c) = 128" "take ?n (s5_p c) = ?p" "s5_h c = sha512.absorb iv m"
    "s5_Nl c = of_nat (8 * length m)" "s5_Nh c = of_nat (8 * length m div 2 ^ 64)"
    using c unfolding tracks512_def by blast+
  let ?d = "(s5_p c)[?n := 0x80]"
  have n: "?n < 128" using p(1) f(1) by (simp add: SHA512_CBLOCK_def)
  have d: "length ?d = 128" "take (?n + 1) ?d = ?p @ [0x80]"
    using f(1-3) n by (simp_all add: upd_conv_take_nth_drop)
  have ls: "?ls = CRYPTO_store_u64_be (s5_Nh c) @ CRYPTO_store_u64_be (s5_Nl c)"
    unfolding f(5,6) by (simp only: length_be_16_def store_u64_be_bytes)
  have l8: "length (CRYPTO_store_u64_be w) = 8" for w by (simp add: store_u64_be_bytes)
  let ?h = "sha512.absorb iv (m @ md_padding 128 16 length_be_16 (length m))"
  have out: "fst (sha512_final_impl True c) = Some (concat (map CRYPTO_store_u64_be (take (s5_md_len c div 8) ?h)))"
  proof (cases "?n + 1 + 16 \<le> 128")
    case True
    have "?h = sha512.compress (take (?n + 1) ?d @ replicate (112 - (?n + 1)) 0 @ ?ls) (s5_h c)"
      using sha512.absorb_append[of iv m] sha512.absorb_last[OF p(1,2,4,3), of "s5_h c"] True
      unfolding f(4) d(2) by (simp add: md_padding_def f(1) SHA512_CBLOCK_def)
    then show ?thesis
      using True last_block_128[OF d(1), of "?n + 1"] l8 unfolding ls
      by (simp add: sha512_final_impl_def Let_def SHA512_CBLOCK_def sha512.compress_def)
  next
    case False
    let ?e = "OPENSSL_memset ?d (?n + 1) 0 (128 - (?n + 1))"
    have e: "?e = ?p @ 0x80 # replicate (128 - (length ?p + 1)) 0" "length ?e = 128"
      using d n f(1) by (simp_all add: OPENSSL_memset_def OPENSSL_memcpy_def)
    have "?h = sha512.compress (replicate 112 0 @ ?ls) (sha512.compress ?e (s5_h c))"
      using sha512.absorb_append[of iv m] sha512.absorb_last[OF p(1,2,4,3), of "s5_h c"] False
      unfolding f(4) e(1) by (simp add: md_padding_def f(1) SHA512_CBLOCK_def)
    then show ?thesis
      using False last_block_128[OF e(2), of 0] l8 unfolding ls
      by (simp add: sha512_final_impl_def Let_def SHA512_CBLOCK_def sha512.compress_def)
  qed
  then show ?thesis by (simp add: sha512_digest_def sha512_absorb[OF assms(2)] Let_def)
qed

lemma SHA512_Init_tracks:
  assumes "length p = 128"
  shows "tracks512 (s5_h (SHA512_Init p)) [] (SHA512_Init p)" "tracks512 (s5_h (SHA384_Init p)) [] (SHA384_Init p)"
    "tracks512 (s5_h (SHA512_256_Init p)) [] (SHA512_256_Init p)"
  using assms by (simp_all add: tracks512_def sha512.absorb_def sha512.pending_def SHA512_Init_def
      SHA384_Init_def SHA512_256_Init_def)

theorem SHA512_digest:
  assumes "\<forall>x\<in>set xs. length x < SIZE_MOD" and p: "length p = 128"
  shows "fst (SHA512_Final True (fold SHA512_Update xs (SHA512_Init p))) =
      Some (sha512_digest (s5_h (SHA512_Init p)) 8 (concat xs))"
    and "fst (SHA384_Final True (fold SHA384_Update xs (SHA384_Init p))) =
      Some (sha512_digest (s5_h (SHA384_Init p)) 6 (concat xs))"
    and "fst (SHA512_256_Final True (fold SHA512_256_Update xs (SHA512_256_Init p))) =
      Some (sha512_digest (s5_h (SHA512_256_Init p)) 4 (concat xs))"
proof -
  have u: "SHA384_Update = SHA512_Update" "SHA512_256_Update = SHA512_Update"
    by (simp_all add: SHA384_Update_def SHA512_256_Update_def fun_eq_iff)
  have l: "length (s5_h (SHA512_Init p)) = 8" "length (s5_h (SHA384_Init p)) = 8"
    "length (s5_h (SHA512_256_Init p)) = 8" "s5_md_len (SHA512_Init p) = 64"
    "s5_md_len (SHA384_Init p) = 48" "s5_md_len (SHA512_256_Init p) = 32"
    by (simp_all add: SHA512_Init_def SHA384_Init_def SHA512_256_Init_def)
  show "fst (SHA512_Final True (fold SHA512_Update xs (SHA512_Init p))) =
      Some (sha512_digest (s5_h (SHA512_Init p)) 8 (concat xs))"
    using sha512_final_digest[OF conjunct1[OF SHA512_updates_track[OF SHA512_Init_tracks(1)[OF p] assms(1)]]]
      SHA512_updates_track[OF SHA512_Init_tracks(1)[OF p] assms(1)] l by (simp add: SHA512_Final_def)
  show "fst (SHA384_Final True (fold SHA384_Update xs (SHA384_Init p))) =
      Some (sha512_digest (s5_h (SHA384_Init p)) 6 (concat xs))"
    using sha512_final_digest[OF conjunct1[OF SHA512_updates_track[OF SHA512_Init_tracks(2)[OF p] assms(1)]]]
      SHA512_updates_track[OF SHA512_Init_tracks(2)[OF p] assms(1)] l by (simp add: SHA384_Final_def u)
  show "fst (SHA512_256_Final True (fold SHA512_256_Update xs (SHA512_256_Init p))) =
      Some (sha512_digest (s5_h (SHA512_256_Init p)) 4 (concat xs))"
    using sha512_final_digest[OF conjunct1[OF SHA512_updates_track[OF SHA512_Init_tracks(3)[OF p] assms(1)]]]
      SHA512_updates_track[OF SHA512_Init_tracks(3)[OF p] assms(1)] l by (simp add: SHA512_256_Final_def u)
qed

end
