(* ===== verification/Sha2_Constants.thy ===== *)
theory Sha2_Constants
  imports Sha2_Spec
begin

text \<open>
  The tables of \<open>Sha2\<close> against their definition in FIPS 180-4, by computation with integers.
\<close>

text \<open>The standard defines the constants of the rounds as the first bits of the fractional parts of
  the cube roots of the first primes, and the initial states by square roots. \<open>root_fraction k bits p w\<close>
  says that \<open>w\<close> are the first \<open>bits\<close> fractional bits of the \<open>k\<close>-th root of \<open>p\<close>, whose integer
  part is at most seven.\<close>

definition first_primes :: "nat list" where
  "first_primes = [2, 3, 5, 7, 11, 13, 17, 19, 23, 29, 31, 37, 41, 43, 47, 53, 59, 61, 67, 71, 73, 79, 83, 89, 97, 101, 103, 107, 109, 113, 127, 131, 137, 139, 149, 151, 157, 163, 167, 173,
     179, 181, 191, 193, 197, 199, 211, 223, 227, 229, 233, 239, 241, 251, 257, 263, 269, 271, 277, 281, 283, 293, 307, 311, 313, 317, 331, 337, 347, 349, 353, 359, 367, 373, 379, 383, 389, 397, 401, 409]"

definition root_fraction :: "nat \<Rightarrow> nat \<Rightarrow> nat \<Rightarrow> 'w::len word \<Rightarrow> bool" where
  "root_fraction k bits p w \<longleftrightarrow> list_ex (\<lambda>q. if q ^ k \<le> p \<and> p < (q + 1) ^ k
       then let r = q * 2 ^ bits + unat w in r ^ k \<le> p * 2 ^ (k * bits) \<and> p * 2 ^ (k * bits) < (r + 1) ^ k
       else False) [1, 2, 3, 4, 5, 6, 7]"

lemma K256_roots: "list_all2 (root_fraction 3 32) (take 64 first_primes) K256"
  by (simp add: root_fraction_def first_primes_def K256_def Let_def flip: numeral_2_eq_2)

lemma K512_roots: "list_all2 (root_fraction 3 64) first_primes K512"
  by (simp add: root_fraction_def first_primes_def K512_def Let_def flip: numeral_2_eq_2)

lemma initial_state_roots:
  "list_all2 (root_fraction 2 32) (take 8 first_primes) (md_h SHA256_Init)"
  "list_all2 (root_fraction 2 64) (take 8 first_primes) (s5_h (SHA512_Init p))"
  "list_all2 (root_fraction 2 64) (take 8 (drop 8 first_primes)) (s5_h (SHA384_Init p))"
  "md_h SHA224_Init = map ucast (s5_h (SHA384_Init p))"
  by (simp_all add: root_fraction_def first_primes_def SHA256_Init_def SHA512_Init_def SHA384_Init_def
      SHA224_Init_def Let_def flip: numeral_2_eq_2)

end
