(* ===== verification/Sha1.thy ===== *)
theory Sha1
  imports Md32
begin

text \<open>
  SHA-1 (\<open>crypto/fipsmodule/sha/sha1.c\<close>) and what it computes. As in SHA-2 the block function
  keeps sixteen words of the message schedule and renames its variables from round to round; there
  are six of them, \<open>A\<close> to \<open>E\<close> and \<open>T\<close>, for five values.
\<close>

section \<open>The code\<close>

definition F_00_19 :: "u32 \<Rightarrow> u32 \<Rightarrow> u32 \<Rightarrow> u32" where
  "F_00_19 b c d = ((c XOR d) AND b) XOR d"

definition F_20_39 :: "u32 \<Rightarrow> u32 \<Rightarrow> u32 \<Rightarrow> u32" where
  "F_20_39 b c d = b XOR c XOR d"

definition F_40_59 :: "u32 \<Rightarrow> u32 \<Rightarrow> u32 \<Rightarrow> u32" where
  "F_40_59 b c d = (b AND c) OR ((b OR c) AND d)"

definition F_60_79 :: "u32 \<Rightarrow> u32 \<Rightarrow> u32 \<Rightarrow> u32" where
  "F_60_79 b c d = F_20_39 b c d"

definition K_00_19 :: u32 where "K_00_19 = 0x5a827999"
definition K_20_39 :: u32 where "K_20_39 = 0x6ed9eba1"
definition K_40_59 :: u32 where "K_40_59 = 0x8f1bbcdc"
definition K_60_79 :: u32 where "K_60_79 = 0xca62c1d6"

text \<open>In round \<open>i\<close> the macro parameter number \<open>k\<close> is variable number \<open>sha1_arg i k\<close> of \<open>A\<close>, \<open>B\<close>, \<open>C\<close>, \<open>D\<close>,
  \<open>E\<close>, \<open>T\<close>.\<close>

definition sha1_arg :: "nat \<Rightarrow> nat \<Rightarrow> nat" where
  "sha1_arg i k = (k + 6 - i mod 6) mod 6"

text \<open>The macros \<open>BODY\<close> differ in the function, the constant and how the schedule word \<open>x\<close> is made.\<close>

definition sha1_BODY :: "(u32 \<Rightarrow> u32 \<Rightarrow> u32 \<Rightarrow> u32) \<Rightarrow> u32 \<Rightarrow> nat \<Rightarrow> u32 \<Rightarrow> u32 list \<Rightarrow> u32 list" where
  "sha1_BODY F K i x v =
     (let a = sha1_arg i 0; b = sha1_arg i 1; c = sha1_arg i 2; d = sha1_arg i 3; e = sha1_arg i 4; f = sha1_arg i 5;
          v = v[f := x + (v ! e + K + CRYPTO_rotl_u32 (v ! a) 5 + F (v ! b) (v ! c) (v ! d))]
      in v[b := CRYPTO_rotl_u32 (v ! b) 30])"

definition BODY_00_15 :: "nat \<Rightarrow> u32 \<Rightarrow> u32 list \<Rightarrow> u32 list" where
  "BODY_00_15 i xi v = sha1_BODY F_00_19 K_00_19 i xi v"

definition Xupdate :: "nat \<Rightarrow> u32 list \<Rightarrow> u32" where
  "Xupdate i X = CRYPTO_rotl_u32
     (X ! (i mod 16) XOR X ! ((i + 2) mod 16) XOR X ! ((i + 8) mod 16) XOR X ! ((i + 13) mod 16)) 1"

definition BODY_16_19 :: "nat \<Rightarrow> u32 list \<times> u32 list \<Rightarrow> u32 list \<times> u32 list" where
  "BODY_16_19 i = (\<lambda>(X, v). (X[i mod 16 := Xupdate i X], sha1_BODY F_00_19 K_00_19 i (Xupdate i X) v))"

definition BODY_20_39 :: "nat \<Rightarrow> u32 list \<times> u32 list \<Rightarrow> u32 list \<times> u32 list" where
  "BODY_20_39 i = (\<lambda>(X, v). (X[i mod 16 := Xupdate i X], sha1_BODY F_20_39 K_20_39 i (Xupdate i X) v))"

definition BODY_40_59 :: "nat \<Rightarrow> u32 list \<times> u32 list \<Rightarrow> u32 list \<times> u32 list" where
  "BODY_40_59 i = (\<lambda>(X, v). (X[i mod 16 := Xupdate i X], sha1_BODY F_40_59 K_40_59 i (Xupdate i X) v))"

definition BODY_60_79 :: "nat \<Rightarrow> u32 list \<times> u32 list \<Rightarrow> u32 list \<times> u32 list" where
  "BODY_60_79 i = (\<lambda>(X, v). (X[i mod 16 := Xupdate i X], sha1_BODY F_60_79 K_60_79 i (Xupdate i X) v))"

definition sha1_block :: "u32 list \<Rightarrow> u8 list \<Rightarrow> u32 list" where
  "sha1_block state data =
     (let start = fold (\<lambda>i (X, v). let x = CRYPTO_load_u32_be (drop (4 * i) data) in (X[i := x], BODY_00_15 i x v))
            [0..<16] (replicate 16 0, state @ [0]);
          (X, v) = fold BODY_60_79 [60..<80] (fold BODY_40_59 [40..<60]
            (fold BODY_20_39 [20..<40] (fold BODY_16_19 [16..<20] start)))
      in map2 (+) state [v ! 4, v ! 5, v ! 0, v ! 1, v ! 2])"

text \<open>The loop tests \<open>--num\<close> after each block, so that \<open>num = 0\<close> means two to the sixty-fourth.\<close>

primrec sha1_loop :: "nat \<Rightarrow> u32 list \<Rightarrow> u8 list \<Rightarrow> u32 list" where
  "sha1_loop 0 state data = state"
| "sha1_loop (Suc num) state data = sha1_loop num (sha1_block state data) (drop 64 data)"

definition sha1_block_data_order :: "u32 block_func" where
  "sha1_block_data_order state data num = sha1_loop (if num = 0 then SIZE_MOD else num) state data"

definition SHA_CBLOCK :: nat where
  "SHA_CBLOCK = 64"

definition SHA1_Init :: md32_ctx where
  "SHA1_Init = \<lparr>md_h = [0x67452301, 0xefcdab89, 0x98badcfe, 0x10325476, 0xc3d2e1f0],
     md_Nl = 0, md_Nh = 0, md_data = replicate SHA_CBLOCK 0, md_num = 0\<rparr>"

definition SHA1_Transform :: "u8 list \<Rightarrow> md32_ctx \<Rightarrow> md32_ctx" where
  "SHA1_Transform data c = c\<lparr>md_h := sha1_block_data_order (md_h c) data 1\<rparr>"

definition SHA1_Update :: "u8 list \<Rightarrow> md32_ctx \<Rightarrow> md32_ctx" where
  "SHA1_Update data c = crypto_md32_update sha1_block_data_order SHA_CBLOCK data c"

definition SHA1_Final :: "(md32_ctx, u8 list) op" where
  "SHA1_Final c =
     (let c = crypto_md32_final sha1_block_data_order SHA_CBLOCK True c
      in (Some (CRYPTO_store_u32_be (md_h c ! 0) @ CRYPTO_store_u32_be (md_h c ! 1) @ CRYPTO_store_u32_be (md_h c ! 2) @
            CRYPTO_store_u32_be (md_h c ! 3) @ CRYPTO_store_u32_be (md_h c ! 4)), c))"

definition SHA1 :: "u8 list \<Rightarrow> u8 list option" where
  "SHA1 data = fst (SHA1_Final (SHA1_Update data SHA1_Init))"

section \<open>FIPS 180-4\<close>

definition fips1_f :: "nat \<Rightarrow> u32 \<Rightarrow> u32 \<Rightarrow> u32 \<Rightarrow> u32" where
  "fips1_f t x y z =
     (if t < 20 then (x AND y) XOR (NOT x AND z)
      else if t < 40 then x XOR y XOR z
      else if t < 60 then (x AND y) XOR (x AND z) XOR (y AND z)
      else x XOR y XOR z)"

definition fips1_K :: "nat \<Rightarrow> u32" where
  "fips1_K t = (if t < 20 then 0x5a827999 else if t < 40 then 0x6ed9eba1 else if t < 60 then 0x8f1bbcdc else 0xca62c1d6)"

fun fips1_schedule :: "(nat \<Rightarrow> u32) \<Rightarrow> nat \<Rightarrow> u32" where
  "fips1_schedule M t =
     (if t < 16 then M t
      else word_rotl 1 (fips1_schedule M (t - 3) XOR fips1_schedule M (t - 8) XOR
        fips1_schedule M (t - 14) XOR fips1_schedule M (t - 16)))"

declare fips1_schedule.simps [simp del]

definition fips1_round :: "nat \<Rightarrow> u32 \<Rightarrow> u32 list \<Rightarrow> u32 list" where
  "fips1_round t W v =
     [word_rotl 5 (v ! 0) + fips1_f t (v ! 1) (v ! 2) (v ! 3) + v ! 4 + fips1_K t + W,
      v ! 0, word_rotl 30 (v ! 1), v ! 2, v ! 3]"

definition fips1_compress :: "u8 list \<Rightarrow> u32 list \<Rightarrow> u32 list" where
  "fips1_compress b H = map2 (+) H (fold (\<lambda>t. fips1_round t
     (fips1_schedule (\<lambda>i. CRYPTO_load_u32_be (drop (4 * i) b)) t)) [0..<80] H)"

definition sha1_digest :: "u8 list \<Rightarrow> u8 list" where
  "sha1_digest m =
     (let padded = m @ md_padding 64 8 length_be (length m) in
      concat (map CRYPTO_store_u32_be (fold fips1_compress (blocks_of 64 (length padded div 64) padded) (md_h SHA1_Init))))"

section \<open>Rounds\<close>

definition renamed6 :: "nat \<Rightarrow> 'a list \<Rightarrow> 'a list" where
  "renamed6 i v = map (\<lambda>k. v ! sha1_arg i k) [0..<5]"

lemma length_6: "length v = 6 \<longleftrightarrow> (\<exists>a b c d e f. v = [a, b, c, d, e, f])"
  by (auto simp: numeral_eq_Suc length_Suc_conv)

lemma upt_5: "[0..<5] = [0, 1, 2, 3, 4 :: nat]"
  by (simp add: upt_rec)

lemma body_renamed:
  assumes "length v = 6" and "\<And>b c d. F b c d = fips1_f i b c d" and "K = fips1_K i"
  shows "renamed6 (Suc i) (sha1_BODY F K i x v) = fips1_round i x (renamed6 i v)"
proof -
  obtain a b c d e f where v: "v = [a, b, c, d, e, f]" using assms(1) unfolding length_6 by blast
  have "i mod 6 < 6" by simp
  then consider "i mod 6 = 0" | "i mod 6 = 1" | "i mod 6 = 2" | "i mod 6 = 3" | "i mod 6 = 4" | "i mod 6 = 5"
    by linarith
  then show ?thesis
    by cases (simp_all add: v assms(2,3) renamed6_def upt_5 sha1_arg_def mod_Suc sha1_BODY_def fips1_round_def
        Let_def rotations add_ac)
qed

lemma length_sha1_BODY [simp]: "length (sha1_BODY F K i x v) = length v"
  by (simp add: sha1_BODY_def Let_def)

lemma round_functions:
  "i < 20 \<Longrightarrow> F_00_19 b c d = fips1_f i b c d" "20 \<le> i \<Longrightarrow> i < 40 \<Longrightarrow> F_20_39 b c d = fips1_f i b c d"
  "40 \<le> i \<Longrightarrow> i < 60 \<Longrightarrow> F_40_59 b c d = fips1_f i b c d" "60 \<le> i \<Longrightarrow> F_60_79 b c d = fips1_f i b c d"
  "i < 20 \<Longrightarrow> K_00_19 = fips1_K i" "20 \<le> i \<Longrightarrow> i < 40 \<Longrightarrow> K_20_39 = fips1_K i"
  "40 \<le> i \<Longrightarrow> i < 60 \<Longrightarrow> K_40_59 = fips1_K i" "60 \<le> i \<Longrightarrow> K_60_79 = fips1_K i"
  by (simp_all add: F_00_19_def F_20_39_def F_40_59_def F_60_79_def fips1_f_def fips1_K_def
      K_00_19_def K_20_39_def K_40_59_def K_60_79_def)
    (rule bit_word_eqI; auto simp: bit_simps)+

text \<open>The state of the loop after \<open>n\<close> rounds.\<close>

definition sha1_inv :: "(nat \<Rightarrow> u32) \<Rightarrow> u32 list \<Rightarrow> nat \<Rightarrow> u32 list \<times> u32 list \<Rightarrow> bool" where
  "sha1_inv M v0 n = (\<lambda>(X, v). window n X (fips1_schedule M) \<and> length v = 6 \<and>
     renamed6 n v = fold (\<lambda>t. fips1_round t (fips1_schedule M t)) [0..<n] v0)"

lemma Xupdate_schedule:
  assumes w: "window n X (fips1_schedule M)" and n: "16 \<le> n"
  shows "Xupdate n X = fips1_schedule M n"
proof -
  have m: "n mod 16 = (n - 16) mod 16" "(n + 2) mod 16 = (n - 14) mod 16" "(n + 8) mod 16 = (n - 8) mod 16"
    "(n + 13) mod 16 = (n - 3) mod 16"
    using n by (simp_all add: mod_eq_dvd_iff_nat le_mod_geq)
  show ?thesis
    using n window_at[OF w _ _ m(1)] window_at[OF w _ _ m(2)] window_at[OF w _ _ m(3)] window_at[OF w _ _ m(4)]
    by (subst fips1_schedule.simps) (simp add: Xupdate_def rotations xor.commute xor.left_commute)
qed

lemma sha1_step:
  assumes "sha1_inv M v0 n (X, v)" and "\<And>b c d. F b c d = fips1_f n b c d" and "K = fips1_K n"
  shows "sha1_inv M v0 (Suc n) (X[n mod 16 := fips1_schedule M n], sha1_BODY F K n (fips1_schedule M n) v)"
  using assms window_step[of n X "fips1_schedule M"] by (simp add: sha1_inv_def body_renamed)

lemma sha1_phase:
  assumes step: "\<And>n X v. k \<le> n \<Longrightarrow> n < l \<Longrightarrow> sha1_inv M v0 n (X, v) \<Longrightarrow> sha1_inv M v0 (Suc n) (f n (X, v))"
    and "sha1_inv M v0 k s" and "k \<le> l"
  shows "sha1_inv M v0 l (fold f [k..<l] s)"
proof -
  have "sha1_inv M v0 n (fold f [k..<n] s)" if "k \<le> n" "n \<le> l" for n
    using that
  proof (induction n rule: dec_induct)
    case base
    show ?case using assms(2) by simp
  next
    case (step n)
    obtain X v where "fold f [k..<n] s = (X, v)" by (cases "fold f [k..<n] s")
    with step assms(1)[of n X v] show ?case by simp
  qed
  then show ?thesis using assms(3) by simp
qed

theorem sha1_block_fips:
  assumes "length state = 5"
  shows "sha1_block state data = fips1_compress data state"
proof -
  define M where "M i = CRYPTO_load_u32_be (drop (4 * i) data)" for i
  define s1 where "s1 = fold (\<lambda>i (X, v). let x = M i in (X[i := x], BODY_00_15 i x v)) [0..<16] (replicate 16 0, state @ [0])"
  obtain a b c d e where st: "state = [a, b, c, d, e]"
    using assms by (auto simp: numeral_eq_Suc length_Suc_conv)
  have "sha1_inv M state 0 (replicate 16 0, state @ [0])"
    by (simp add: sha1_inv_def window_def st renamed6_def sha1_arg_def upt_5)
  then have i1: "sha1_inv M state 16 s1" unfolding s1_def
  proof (rule sha1_phase[rotated])
    fix n X v assume n: "n < 16" and inv: "sha1_inv M state n (X, v)"
    have "fips1_schedule M n = M n" using n by (subst fips1_schedule.simps) simp
    then show "sha1_inv M state (Suc n) (case (X, v) of (X, v) \<Rightarrow> let x = M n in (X[n := x], BODY_00_15 n x v))"
      using sha1_step[OF inv round_functions(1) round_functions(5)] n by (simp add: Let_def BODY_00_15_def)
  qed simp
  have i2: "sha1_inv M state 20 (fold BODY_16_19 [16..<20] s1)"
    by (rule sha1_phase[OF _ i1])
      (auto simp: BODY_16_19_def sha1_inv_def Xupdate_schedule body_renamed round_functions(1,5) window_step)
  have i3: "sha1_inv M state 40 (fold BODY_20_39 [20..<40] (fold BODY_16_19 [16..<20] s1))"
    by (rule sha1_phase[OF _ i2])
      (auto simp: BODY_20_39_def sha1_inv_def Xupdate_schedule body_renamed round_functions(2,6) window_step)
  have i4: "sha1_inv M state 60 (fold BODY_40_59 [40..<60] (fold BODY_20_39 [20..<40] (fold BODY_16_19 [16..<20] s1)))"
    by (rule sha1_phase[OF _ i3])
      (auto simp: BODY_40_59_def sha1_inv_def Xupdate_schedule body_renamed round_functions(3,7) window_step)
  obtain X v where s5: "fold BODY_60_79 [60..<80]
      (fold BODY_40_59 [40..<60] (fold BODY_20_39 [20..<40] (fold BODY_16_19 [16..<20] s1))) = (X, v)" by fastforce
  have "sha1_inv M state 80 (X, v)" unfolding s5[symmetric]
    by (rule sha1_phase[OF _ i4])
      (auto simp: BODY_60_79_def sha1_inv_def Xupdate_schedule body_renamed round_functions(4,8) window_step)
  moreover have "renamed6 80 v = [v ! 4, v ! 5, v ! 0, v ! 1, v ! 2]"
    by (simp add: renamed6_def sha1_arg_def upt_5)
  ultimately have "[v ! 4, v ! 5, v ! 0, v ! 1, v ! 2] =
      fold (\<lambda>t. fips1_round t (fips1_schedule M t)) [0..<80] state" by (simp only: sha1_inv_def prod.case)
  then show ?thesis
    using s5 unfolding sha1_block_def fips1_compress_def s1_def M_def Let_def by (simp only: prod.case)
qed

section \<open>Messages\<close>

lemma length_fips1_compress: "length H = 5 \<Longrightarrow> length (fips1_compress b H) = 5"
proof -
  have "length (fold (\<lambda>t. fips1_round t (fips1_schedule M t)) [0..<Suc k] H) = 5" for k M
    by (simp add: fips1_round_def)
  from this[of _ 79] show "length H = 5 \<Longrightarrow> length (fips1_compress b H) = 5"
    by (simp only: fips1_compress_def length_map length_zip) simp
qed

lemma sha1_block_append: "length b = 64 \<Longrightarrow> sha1_block h (b @ r) = sha1_block h b"
proof -
  assume b: "length b = 64"
  have "CRYPTO_load_u32_be (drop (4 * i) (b @ r)) = CRYPTO_load_u32_be (drop (4 * i) b)" if "i < 16" for i
    using that b by (simp add: CRYPTO_load_u32_be_def load_u32_append del: drop_append)
  then have "fold (\<lambda>i (X, v). let x = CRYPTO_load_u32_be (drop (4 * i) (b @ r)) in (X[i := x], BODY_00_15 i x v))
      [0..<16] (replicate 16 0, h @ [0]) =
    fold (\<lambda>i (X, v). let x = CRYPTO_load_u32_be (drop (4 * i) b) in (X[i := x], BODY_00_15 i x v))
      [0..<16] (replicate 16 0, h @ [0])" by (intro fold_cong) auto
  then show ?thesis by (simp only: sha1_block_def)
qed

interpretation sha1: md32_hash sha1_block_data_order SHA_CBLOCK
proof unfold_locales
  fix b r :: "u8 list" and h n assume b: "length b = SHA_CBLOCK"
  then have d: "drop 64 (b @ r) = r" by (simp add: SHA_CBLOCK_def)
  show "sha1_block_data_order h (b @ r) 1 = sha1_block_data_order h b 1"
    "0 < n \<Longrightarrow> sha1_block_data_order h (b @ r) (Suc n) = sha1_block_data_order (sha1_block_data_order h b 1) r n"
    using b by (simp_all add: sha1_block_data_order_def SHA_CBLOCK_def sha1_block_append d del: drop_append)
qed (simp_all add: SHA_CBLOCK_def)

lemma sha1_absorb: "length h = 5 \<Longrightarrow>
    sha1.absorb h m = fold fips1_compress (blocks_of 64 (length m div 64) m) h \<and> length (sha1.absorb h m) = 5"
  unfolding sha1.absorb_def unfolding SHA_CBLOCK_def
  using fold_compress[of 5 sha1.compress fips1_compress h "blocks_of 64 (length m div 64) m"]
  by (simp add: length_fips1_compress sha1.compress_def sha1_block_data_order_def sha1_block_fips)

lemma SHA1_updates_track:
  assumes "sha1.tracks iv m c" and "\<forall>x\<in>set xs. length x < SIZE_MOD"
  shows "sha1.tracks iv (m @ concat xs) (fold SHA1_Update xs c)"
  using assms
proof (induction xs arbitrary: m c)
  case (Cons x xs)
  then have "sha1.tracks iv (m @ x) (SHA1_Update x c)"
    unfolding SHA1_Update_def by (intro sha1.update_tracks) simp_all
  from Cons.IH[OF this] Cons.prems(2) show ?case by simp
qed simp

theorem SHA1_digest:
  assumes "\<forall>x\<in>set xs. length x < SIZE_MOD"
  shows "fst (SHA1_Final (fold SHA1_Update xs SHA1_Init)) = Some (sha1_digest (concat xs))"
proof -
  let ?c = "fold SHA1_Update xs SHA1_Init" and ?iv = "md_h SHA1_Init"
  have "sha1.tracks ?iv [] SHA1_Init"
    by (simp add: sha1.tracks_def sha1.absorb_def sha1.pending_def SHA1_Init_def)
  from sha1.final_tracks[OF SHA1_updates_track[OF this assms], of True]
  have h: "md_h (crypto_md32_final sha1_block_data_order SHA_CBLOCK True ?c) =
      sha1.absorb ?iv (concat xs @ md_padding 64 8 length_be (length (concat xs)))" by (simp add: SHA_CBLOCK_def)
  have iv: "length ?iv = 5" by (simp add: SHA1_Init_def)
  have five: "concat (map f l) = f (l ! 0) @ f (l ! 1) @ f (l ! 2) @ f (l ! 3) @ f (l ! 4)"
    if "length l = 5" for f and l :: "u32 list"
    using that by (auto simp: numeral_eq_Suc length_Suc_conv)
  show ?thesis
    unfolding SHA1_Final_def Let_def h sha1_digest_def fst_conv
    using sha1_absorb[OF iv, of "concat xs @ md_padding 64 8 length_be (length (concat xs))"] five by metis
qed

end
