(* ===== verification/Md5.thy ===== *)
theory Md5
  imports Md32
begin

text \<open>
  MD5 (\<open>crypto/fipsmodule/md5/md5.c\<close>) and MD4 (\<open>md4/md4.c\<close>), and what they compute. The source
  passes the four variables \<open>A\<close> to \<open>D\<close> to the round macros in an order rotated by one place each
  time; the RFCs move the values instead, and write the order of the message words as formulas.
\<close>

section \<open>MD5\<close>

definition md5_F :: "u32 \<Rightarrow> u32 \<Rightarrow> u32 \<Rightarrow> u32" where
  "md5_F b c d = ((c XOR d) AND b) XOR d"

definition md5_G :: "u32 \<Rightarrow> u32 \<Rightarrow> u32 \<Rightarrow> u32" where
  "md5_G b c d = ((b XOR c) AND d) XOR c"

definition md5_H :: "u32 \<Rightarrow> u32 \<Rightarrow> u32 \<Rightarrow> u32" where
  "md5_H b c d = b XOR c XOR d"

definition md5_I :: "u32 \<Rightarrow> u32 \<Rightarrow> u32 \<Rightarrow> u32" where
  "md5_I b c d = (NOT d OR b) XOR c"

text \<open>In round \<open>i\<close> the macro parameter number \<open>k\<close> is variable number \<open>md_arg i k\<close> of \<open>A\<close>, \<open>B\<close>, \<open>C\<close>, \<open>D\<close>.\<close>

definition md_arg :: "nat \<Rightarrow> nat \<Rightarrow> nat" where
  "md_arg i k = (k + 4 - i mod 4) mod 4"

text \<open>The macros \<open>R0\<close> to \<open>R3\<close> differ in the function only.\<close>

definition md5_R :: "(u32 \<Rightarrow> u32 \<Rightarrow> u32 \<Rightarrow> u32) \<Rightarrow> nat \<Rightarrow> u32 \<Rightarrow> nat \<Rightarrow> u32 \<Rightarrow> u32 list \<Rightarrow> u32 list" where
  "md5_R f i k s t v =
     (let a = md_arg i 0; b = md_arg i 1; c = md_arg i 2; d = md_arg i 3;
          v = v[a := v ! a + (k + t + f (v ! b) (v ! c) (v ! d))];
          v = v[a := CRYPTO_rotl_u32 (v ! a) s]
      in v[a := v ! a + v ! b])"

text \<open>The message word, the shift and the constant of each round, as the source lists them.\<close>

definition md5_rounds :: "(nat \<times> nat \<times> u32) list" where
  "md5_rounds = [
     (0, 7, 0xd76aa478), (1, 12, 0xe8c7b756), (2, 17, 0x242070db), (3, 22, 0xc1bdceee),
     (4, 7, 0xf57c0faf), (5, 12, 0x4787c62a), (6, 17, 0xa8304613), (7, 22, 0xfd469501),
     (8, 7, 0x698098d8), (9, 12, 0x8b44f7af), (10, 17, 0xffff5bb1), (11, 22, 0x895cd7be),
     (12, 7, 0x6b901122), (13, 12, 0xfd987193), (14, 17, 0xa679438e), (15, 22, 0x49b40821),
     (1, 5, 0xf61e2562), (6, 9, 0xc040b340), (11, 14, 0x265e5a51), (0, 20, 0xe9b6c7aa),
     (5, 5, 0xd62f105d), (10, 9, 0x02441453), (15, 14, 0xd8a1e681), (4, 20, 0xe7d3fbc8),
     (9, 5, 0x21e1cde6), (14, 9, 0xc33707d6), (3, 14, 0xf4d50d87), (8, 20, 0x455a14ed),
     (13, 5, 0xa9e3e905), (2, 9, 0xfcefa3f8), (7, 14, 0x676f02d9), (12, 20, 0x8d2a4c8a),
     (5, 4, 0xfffa3942), (8, 11, 0x8771f681), (11, 16, 0x6d9d6122), (14, 23, 0xfde5380c),
     (1, 4, 0xa4beea44), (4, 11, 0x4bdecfa9), (7, 16, 0xf6bb4b60), (10, 23, 0xbebfbc70),
     (13, 4, 0x289b7ec6), (0, 11, 0xeaa127fa), (3, 16, 0xd4ef3085), (6, 23, 0x04881d05),
     (9, 4, 0xd9d4d039), (12, 11, 0xe6db99e5), (15, 16, 0x1fa27cf8), (2, 23, 0xc4ac5665),
     (0, 6, 0xf4292244), (7, 10, 0x432aff97), (14, 15, 0xab9423a7), (5, 21, 0xfc93a039),
     (12, 6, 0x655b59c3), (3, 10, 0x8f0ccc92), (10, 15, 0xffeff47d), (1, 21, 0x85845dd1),
     (8, 6, 0x6fa87e4f), (15, 10, 0xfe2ce6e0), (6, 15, 0xa3014314), (13, 21, 0x4e0811a1),
     (4, 6, 0xf7537e82), (11, 10, 0xbd3af235), (2, 15, 0x2ad7d2bb), (9, 21, 0xeb86d391)]"

definition md5_fn :: "nat \<Rightarrow> u32 \<Rightarrow> u32 \<Rightarrow> u32 \<Rightarrow> u32" where
  "md5_fn i = (if i < 16 then md5_F else if i < 32 then md5_G else if i < 48 then md5_H else md5_I)"

definition md5_block :: "u32 list \<Rightarrow> u8 list \<Rightarrow> u32 list" where
  "md5_block state data = map2 (+) state
     (fold (\<lambda>i. case md5_rounds ! i of (k, s, t) \<Rightarrow> md5_R (md5_fn i) i (CRYPTO_load_u32_le (drop (4 * k) data)) s t)
       [0..<64] state)"

primrec md5_loop :: "nat \<Rightarrow> u32 list \<Rightarrow> u8 list \<Rightarrow> u32 list" where
  "md5_loop 0 state data = state"
| "md5_loop (Suc num) state data = md5_loop num (md5_block state data) (drop 64 data)"

definition md5_block_data_order :: "u32 block_func" where
  "md5_block_data_order state data num = md5_loop num state data"

definition MD5_CBLOCK :: nat where
  "MD5_CBLOCK = 64"

definition MD5_Init :: md32_ctx where
  "MD5_Init = \<lparr>md_h = [0x67452301, 0xefcdab89, 0x98badcfe, 0x10325476],
     md_Nl = 0, md_Nh = 0, md_data = replicate MD5_CBLOCK 0, md_num = 0\<rparr>"

definition MD5_Transform :: "u8 list \<Rightarrow> md32_ctx \<Rightarrow> md32_ctx" where
  "MD5_Transform data c = c\<lparr>md_h := md5_block_data_order (md_h c) data 1\<rparr>"

definition MD5_Update :: "u8 list \<Rightarrow> md32_ctx \<Rightarrow> md32_ctx" where
  "MD5_Update data c = crypto_md32_update md5_block_data_order MD5_CBLOCK data c"

definition MD5_Final :: "(md32_ctx, u8 list) op" where
  "MD5_Final c =
     (let c = crypto_md32_final md5_block_data_order MD5_CBLOCK False c
      in (Some (CRYPTO_store_u32_le (md_h c ! 0) @ CRYPTO_store_u32_le (md_h c ! 1) @ CRYPTO_store_u32_le (md_h c ! 2) @
            CRYPTO_store_u32_le (md_h c ! 3)), c))"

definition MD5 :: "u8 list \<Rightarrow> u8 list option" where
  "MD5 data = fst (MD5_Final (MD5_Update data MD5_Init))"

section \<open>MD4\<close>

definition md4_F :: "u32 \<Rightarrow> u32 \<Rightarrow> u32 \<Rightarrow> u32" where
  "md4_F b c d = ((c XOR d) AND b) XOR d"

definition md4_G :: "u32 \<Rightarrow> u32 \<Rightarrow> u32 \<Rightarrow> u32" where
  "md4_G b c d = (b AND c) OR (b AND d) OR (c AND d)"

definition md4_H :: "u32 \<Rightarrow> u32 \<Rightarrow> u32 \<Rightarrow> u32" where
  "md4_H b c d = b XOR c XOR d"

definition md4_R :: "(u32 \<Rightarrow> u32 \<Rightarrow> u32 \<Rightarrow> u32) \<Rightarrow> nat \<Rightarrow> u32 \<Rightarrow> nat \<Rightarrow> u32 \<Rightarrow> u32 list \<Rightarrow> u32 list" where
  "md4_R f i k s t v =
     (let a = md_arg i 0; b = md_arg i 1; c = md_arg i 2; d = md_arg i 3;
          v = v[a := v ! a + (k + t + f (v ! b) (v ! c) (v ! d))]
      in v[a := CRYPTO_rotl_u32 (v ! a) s])"

definition md4_rounds :: "(nat \<times> nat) list" where
  "md4_rounds = [
     (0, 3), (1, 7), (2, 11), (3, 19), (4, 3), (5, 7), (6, 11), (7, 19),
     (8, 3), (9, 7), (10, 11), (11, 19), (12, 3), (13, 7), (14, 11), (15, 19),
     (0, 3), (4, 5), (8, 9), (12, 13), (1, 3), (5, 5), (9, 9), (13, 13),
     (2, 3), (6, 5), (10, 9), (14, 13), (3, 3), (7, 5), (11, 9), (15, 13),
     (0, 3), (8, 9), (4, 11), (12, 15), (2, 3), (10, 9), (6, 11), (14, 15),
     (1, 3), (9, 9), (5, 11), (13, 15), (3, 3), (11, 9), (7, 11), (15, 15)]"

definition md4_fn :: "nat \<Rightarrow> (u32 \<Rightarrow> u32 \<Rightarrow> u32 \<Rightarrow> u32) \<times> u32" where
  "md4_fn i = (if i < 16 then (md4_F, 0) else if i < 32 then (md4_G, 0x5A827999) else (md4_H, 0x6ED9EBA1))"

definition md4_block :: "u32 list \<Rightarrow> u8 list \<Rightarrow> u32 list" where
  "md4_block state data = map2 (+) state
     (fold (\<lambda>i. case (md4_rounds ! i, md4_fn i) of ((k, s), (f, t)) \<Rightarrow>
         md4_R f i (CRYPTO_load_u32_le (drop (4 * k) data)) s t)
       [0..<48] state)"

primrec md4_loop :: "nat \<Rightarrow> u32 list \<Rightarrow> u8 list \<Rightarrow> u32 list" where
  "md4_loop 0 state data = state"
| "md4_loop (Suc num) state data = md4_loop num (md4_block state data) (drop 64 data)"

definition md4_block_data_order :: "u32 block_func" where
  "md4_block_data_order state data num = md4_loop num state data"

definition MD4_CBLOCK :: nat where
  "MD4_CBLOCK = 64"

definition MD4_Init :: md32_ctx where
  "MD4_Init = \<lparr>md_h = [0x67452301, 0xefcdab89, 0x98badcfe, 0x10325476],
     md_Nl = 0, md_Nh = 0, md_data = replicate MD4_CBLOCK 0, md_num = 0\<rparr>"

definition MD4_Transform :: "u8 list \<Rightarrow> md32_ctx \<Rightarrow> md32_ctx" where
  "MD4_Transform data c = c\<lparr>md_h := md4_block_data_order (md_h c) data 1\<rparr>"

definition MD4_Update :: "u8 list \<Rightarrow> md32_ctx \<Rightarrow> md32_ctx" where
  "MD4_Update data c = crypto_md32_update md4_block_data_order MD4_CBLOCK data c"

definition MD4_Final :: "(md32_ctx, u8 list) op" where
  "MD4_Final c =
     (let c = crypto_md32_final md4_block_data_order MD4_CBLOCK False c
      in (Some (CRYPTO_store_u32_le (md_h c ! 0) @ CRYPTO_store_u32_le (md_h c ! 1) @ CRYPTO_store_u32_le (md_h c ! 2) @
            CRYPTO_store_u32_le (md_h c ! 3)), c))"

definition MD4 :: "u8 list \<Rightarrow> u8 list option" where
  "MD4 data = fst (MD4_Final (MD4_Update data MD4_Init))"

section \<open>RFC 1321 and RFC 1186\<close>

definition rfc1321_f :: "nat \<Rightarrow> u32 \<Rightarrow> u32 \<Rightarrow> u32 \<Rightarrow> u32" where
  "rfc1321_f i x y z =
     (if i < 16 then (x AND y) OR (NOT x AND z)
      else if i < 32 then (x AND z) OR (y AND NOT z)
      else if i < 48 then x XOR y XOR z
      else y XOR (x OR NOT z))"

definition rfc1321_word :: "nat \<Rightarrow> nat" where
  "rfc1321_word i = (if i < 16 then i else if i < 32 then 5 * i + 1 else if i < 48 then 3 * i + 5 else 7 * i) mod 16"

definition rfc1321_shift :: "nat \<Rightarrow> nat" where
  "rfc1321_shift i =
     (if i < 16 then [7, 12, 17, 22] else if i < 32 then [5, 9, 14, 20]
      else if i < 48 then [4, 11, 16, 23] else [6, 10, 15, 21]) ! (i mod 4)"

text \<open>The constants are the sines of the RFC; they are those of the source.\<close>

definition rfc1321_round :: "(nat \<Rightarrow> u32) \<Rightarrow> nat \<Rightarrow> u32 list \<Rightarrow> u32 list" where
  "rfc1321_round X i v =
     [v ! 3, v ! 1 + word_rotl (rfc1321_shift i)
        (v ! 0 + rfc1321_f i (v ! 1) (v ! 2) (v ! 3) + X (rfc1321_word i) + snd (snd (md5_rounds ! i))), v ! 1, v ! 2]"

definition md5_compress :: "u8 list \<Rightarrow> u32 list \<Rightarrow> u32 list" where
  "md5_compress b H = map2 (+) H
     (fold (rfc1321_round (\<lambda>k. CRYPTO_load_u32_le (drop (4 * k) b))) [0..<64] H)"

definition rfc1186_f :: "nat \<Rightarrow> u32 \<Rightarrow> u32 \<Rightarrow> u32 \<Rightarrow> u32" where
  "rfc1186_f i x y z =
     (if i < 16 then (x AND y) OR (NOT x AND z)
      else if i < 32 then (x AND y) OR (x AND z) OR (y AND z)
      else x XOR y XOR z)"

text \<open>The words of the second pass are taken by columns, those of the third in bit-reversed order.\<close>

definition rfc1186_word :: "nat \<Rightarrow> nat" where
  "rfc1186_word i =
     (if i < 16 then i
      else if i < 32 then i mod 4 * 4 + i div 4 mod 4
      else i mod 2 * 8 + i div 2 mod 2 * 4 + i div 4 mod 2 * 2 + i div 8 mod 2)"

definition rfc1186_shift :: "nat \<Rightarrow> nat" where
  "rfc1186_shift i = (if i < 16 then [3, 7, 11, 19] else if i < 32 then [3, 5, 9, 13] else [3, 9, 11, 15]) ! (i mod 4)"

definition rfc1186_round :: "(nat \<Rightarrow> u32) \<Rightarrow> nat \<Rightarrow> u32 list \<Rightarrow> u32 list" where
  "rfc1186_round X i v =
     [v ! 3, word_rotl (rfc1186_shift i)
        (v ! 0 + rfc1186_f i (v ! 1) (v ! 2) (v ! 3) + X (rfc1186_word i) +
         (if i < 16 then 0 else if i < 32 then 0x5A827999 else 0x6ED9EBA1)), v ! 1, v ! 2]"

definition md4_compress :: "u8 list \<Rightarrow> u32 list \<Rightarrow> u32 list" where
  "md4_compress b H = map2 (+) H
     (fold (rfc1186_round (\<lambda>k. CRYPTO_load_u32_le (drop (4 * k) b))) [0..<48] H)"

definition md_digest :: "(u8 list \<Rightarrow> u32 list \<Rightarrow> u32 list) \<Rightarrow> u8 list \<Rightarrow> u8 list" where
  "md_digest cf m =
     (let padded = m @ md_padding 64 8 length_le (length m) in
      concat (map CRYPTO_store_u32_le (fold cf (blocks_of 64 (length padded div 64) padded)
        [0x67452301, 0xefcdab89, 0x98badcfe, 0x10325476])))"

section \<open>Rounds\<close>

definition renamed4 :: "nat \<Rightarrow> 'a list \<Rightarrow> 'a list" where
  "renamed4 i v = map (\<lambda>k. v ! md_arg i k) [0..<4]"

lemma length_4: "length v = 4 \<longleftrightarrow> (\<exists>a b c d. v = [a, b, c, d])"
  by (auto simp: numeral_eq_Suc length_Suc_conv)

lemma upt_4: "[0..<4] = [0, 1, 2, 3 :: nat]"
  by (simp add: upt_rec)

lemma renamed4_0: "length v = 4 \<Longrightarrow> i mod 4 = 0 \<Longrightarrow> renamed4 i v = v"
  by (auto simp: length_4 renamed4_def md_arg_def upt_4)

lemma R_renamed:
  assumes "length v = 4" and "0 < s" and "s < 32"
  shows "renamed4 (Suc i) (md5_R f i k s t v) = (let w = renamed4 i v in
      [w ! 3, w ! 1 + word_rotl s (w ! 0 + f (w ! 1) (w ! 2) (w ! 3) + k + t), w ! 1, w ! 2])"
    and "renamed4 (Suc i) (md4_R f i k s t v) = (let w = renamed4 i v in
      [w ! 3, word_rotl s (w ! 0 + f (w ! 1) (w ! 2) (w ! 3) + k + t), w ! 1, w ! 2])"
proof -
  obtain a b c d where v: "v = [a, b, c, d]" using assms(1) unfolding length_4 by blast
  have "i mod 4 < 4" by simp
  then consider "i mod 4 = 0" | "i mod 4 = 1" | "i mod 4 = 2" | "i mod 4 = 3" by linarith
  then show "renamed4 (Suc i) (md5_R f i k s t v) = (let w = renamed4 i v in
      [w ! 3, w ! 1 + word_rotl s (w ! 0 + f (w ! 1) (w ! 2) (w ! 3) + k + t), w ! 1, w ! 2])"
    and "renamed4 (Suc i) (md4_R f i k s t v) = (let w = renamed4 i v in
      [w ! 3, word_rotl s (w ! 0 + f (w ! 1) (w ! 2) (w ! 3) + k + t), w ! 1, w ! 2])"
    by (cases; simp add: v renamed4_def upt_4 md_arg_def mod_Suc md5_R_def md4_R_def Let_def
        rotations(2)[OF assms(2,3)] add_ac)+
qed

lemma length_R [simp]: "length (md5_R f i k s t v) = length v" "length (md4_R f i k s t v) = length v"
  by (simp_all add: md5_R_def md4_R_def Let_def)

text \<open>The tables of the source against the formulas.\<close>

lemma md5_table: "map (\<lambda>(k, s, t). (k, s)) md5_rounds = map (\<lambda>i. (rfc1321_word i, rfc1321_shift i)) [0..<64]"
  by code_simp

lemma md4_table: "md4_rounds = map (\<lambda>i. (rfc1186_word i, rfc1186_shift i)) [0..<48]"
  by code_simp

lemma round_fn: "md5_fn i = rfc1321_f i" "md4_fn i = (rfc1186_f i,
    if i < 16 then 0 else if i < 32 then 0x5A827999 else 0x6ED9EBA1)"
  unfolding md5_fn_def md4_fn_def
  by (auto simp: fun_eq_iff md5_F_def md5_G_def md5_H_def md5_I_def rfc1321_f_def md4_F_def md4_G_def md4_H_def
      rfc1186_f_def intro!: bit_word_eqI simp: bit_simps)

lemma table_entry:
  "i < 64 \<Longrightarrow> md5_rounds ! i = (rfc1321_word i, rfc1321_shift i, snd (snd (md5_rounds ! i)))"
  "i < 48 \<Longrightarrow> md4_rounds ! i = (rfc1186_word i, rfc1186_shift i)"
proof -
  have "map (\<lambda>(k, s, t). (k, s)) md5_rounds ! i = (rfc1321_word i, rfc1321_shift i)" if "i < 64"
    using that by (simp only: md5_table nth_map_upt) simp
  moreover have "length md5_rounds = 64" by (simp add: md5_rounds_def)
  ultimately show "i < 64 \<Longrightarrow> md5_rounds ! i = (rfc1321_word i, rfc1321_shift i, snd (snd (md5_rounds ! i)))"
    by (cases "md5_rounds ! i") auto
  show "i < 48 \<Longrightarrow> md4_rounds ! i = (rfc1186_word i, rfc1186_shift i)"
    by (simp only: md4_table nth_map_upt) simp
qed

lemma shift_bounds: "0 < rfc1321_shift i" "rfc1321_shift i < 32" "0 < rfc1186_shift i" "rfc1186_shift i < 32"
proof -
  have "i mod 4 = 0 \<or> i mod 4 = 1 \<or> i mod 4 = 2 \<or> i mod 4 = 3" by linarith
  then show "0 < rfc1321_shift i" "rfc1321_shift i < 32" "0 < rfc1186_shift i" "rfc1186_shift i < 32"
    by (auto simp: rfc1321_shift_def rfc1186_shift_def)
qed

lemma rounds_renamed:
  assumes "\<And>i v. i < n \<Longrightarrow> length v = 4 \<Longrightarrow> renamed4 (Suc i) (f i v) = g i (renamed4 i v) \<and> length (f i v) = 4"
    and "length v = 4" and "k \<le> n"
  shows "renamed4 k (fold f [0..<k] v) = fold g [0..<k] v \<and> length (fold f [0..<k] v) = 4"
  using assms(3)
proof (induction k)
  case 0
  show ?case using assms(2) by (simp add: renamed4_0)
next
  case (Suc k)
  then show ?case using assms(1)[of k "fold f [0..<k] v"] by simp
qed

lemma renamed_back:
  "renamed4 n v = w \<and> length v = 4 \<Longrightarrow> n mod 4 = 0 \<Longrightarrow> map2 (+) state v = map2 (+) state w"
  by (metis renamed4_0)

theorem md5_block_rfc: "length state = 4 \<Longrightarrow> md5_block state data = md5_compress data state"
proof -
  assume l: "length state = 4"
  let ?f = "\<lambda>i. case md5_rounds ! i of (k, s, t) \<Rightarrow> md5_R (md5_fn i) i (CRYPTO_load_u32_le (drop (4 * k) data)) s t"
  have "renamed4 64 (fold ?f [0..<64] state) =
      fold (rfc1321_round (\<lambda>k. CRYPTO_load_u32_le (drop (4 * k) data))) [0..<64] state \<and> length (fold ?f [0..<64] state) = 4"
  proof (rule rounds_renamed[OF _ l order_refl])
    fix i :: nat and v :: "u32 list" assume i: "i < 64" and v: "length v = 4"
    show "renamed4 (Suc i) (?f i v) = rfc1321_round (\<lambda>k. CRYPTO_load_u32_le (drop (4 * k) data)) i (renamed4 i v) \<and>
        length (?f i v) = 4"
      by (subst (1 2) table_entry(1)[OF i])
        (simp add: R_renamed[OF v shift_bounds(1,2)] rfc1321_round_def Let_def round_fn v)
  qed
  then show ?thesis unfolding md5_block_def md5_compress_def by (rule renamed_back) simp
qed

theorem md4_block_rfc: "length state = 4 \<Longrightarrow> md4_block state data = md4_compress data state"
proof -
  assume l: "length state = 4"
  let ?f = "\<lambda>i. case (md4_rounds ! i, md4_fn i) of ((k, s), (f, t)) \<Rightarrow>
    md4_R f i (CRYPTO_load_u32_le (drop (4 * k) data)) s t"
  have "renamed4 48 (fold ?f [0..<48] state) =
      fold (rfc1186_round (\<lambda>k. CRYPTO_load_u32_le (drop (4 * k) data))) [0..<48] state \<and> length (fold ?f [0..<48] state) = 4"
  proof (rule rounds_renamed[OF _ l order_refl])
    fix i :: nat and v :: "u32 list" assume i: "i < 48" and v: "length v = 4"
    show "renamed4 (Suc i) (?f i v) = rfc1186_round (\<lambda>k. CRYPTO_load_u32_le (drop (4 * k) data)) i (renamed4 i v) \<and>
        length (?f i v) = 4"
      by (simp add: table_entry(2)[OF i] R_renamed[OF v shift_bounds(3,4)] rfc1186_round_def Let_def round_fn v)
  qed
  then show ?thesis unfolding md4_block_def md4_compress_def by (rule renamed_back) simp
qed

section \<open>Messages\<close>

lemma word_in_block: "k < 16 \<Longrightarrow> length b = 64 \<Longrightarrow> CRYPTO_load_u32_le (drop (4 * k) (b @ r)) = CRYPTO_load_u32_le (drop (4 * k) b)"
  using load_u32_append[of "4 * k" b r] by simp

lemma word_bounds: "rfc1321_word i < 16" "i < 48 \<Longrightarrow> rfc1186_word i < 16"
proof -
  show "rfc1321_word i < 16" by (simp add: rfc1321_word_def)
  have "i mod 4 * 4 + i div 4 mod 4 < 16" by linarith
  moreover have "i mod 2 * 8 + i div 2 mod 2 * 4 + i div 4 mod 2 * 2 + i div 8 mod 2 < 16" by linarith
  ultimately show "i < 48 \<Longrightarrow> rfc1186_word i < 16" by (simp add: rfc1186_word_def)
qed

lemma block_append:
  assumes "length b = 64"
  shows "md5_block h (b @ r) = md5_block h b" "md4_block h (b @ r) = md4_block h b"
proof -
  have "fold (\<lambda>i. case md5_rounds ! i of (k, s, t) \<Rightarrow> md5_R (md5_fn i) i (CRYPTO_load_u32_le (drop (4 * k) (b @ r))) s t)
      [0..<64] h =
    fold (\<lambda>i. case md5_rounds ! i of (k, s, t) \<Rightarrow> md5_R (md5_fn i) i (CRYPTO_load_u32_le (drop (4 * k) b)) s t) [0..<64] h"
  proof (intro fold_cong refl)
    fix i assume "i \<in> set [0..<64::nat]"
    then have i: "i < 64" by simp
    show "(case md5_rounds ! i of (k, s, t) \<Rightarrow> md5_R (md5_fn i) i (CRYPTO_load_u32_le (drop (4 * k) (b @ r))) s t) =
        (case md5_rounds ! i of (k, s, t) \<Rightarrow> md5_R (md5_fn i) i (CRYPTO_load_u32_le (drop (4 * k) b)) s t)"
      by (subst (1 2) table_entry(1)[OF i]) (simp add: word_in_block word_bounds assms del: drop_append)
  qed
  then show "md5_block h (b @ r) = md5_block h b" by (simp only: md5_block_def)
  have "fold (\<lambda>i. case (md4_rounds ! i, md4_fn i) of ((k, s), (f, t)) \<Rightarrow>
      md4_R f i (CRYPTO_load_u32_le (drop (4 * k) (b @ r))) s t) [0..<48] h =
    fold (\<lambda>i. case (md4_rounds ! i, md4_fn i) of ((k, s), (f, t)) \<Rightarrow>
      md4_R f i (CRYPTO_load_u32_le (drop (4 * k) b)) s t) [0..<48] h"
    by (intro fold_cong refl)
      (simp add: table_entry(2) word_in_block word_bounds assms del: drop_append split: prod.split)
  then show "md4_block h (b @ r) = md4_block h b" by (simp only: md4_block_def)
qed

interpretation md5: md32_hash md5_block_data_order MD5_CBLOCK
proof unfold_locales
  fix b r :: "u8 list" and h n assume b: "length b = MD5_CBLOCK"
  then have d: "drop 64 (b @ r) = r" by (simp add: MD5_CBLOCK_def)
  show "md5_block_data_order h (b @ r) 1 = md5_block_data_order h b 1"
    "md5_block_data_order h (b @ r) (Suc n) = md5_block_data_order (md5_block_data_order h b 1) r n"
    using b by (simp_all add: md5_block_data_order_def MD5_CBLOCK_def block_append d del: drop_append)
qed (simp_all add: MD5_CBLOCK_def)

interpretation md4: md32_hash md4_block_data_order MD4_CBLOCK
proof unfold_locales
  fix b r :: "u8 list" and h n assume b: "length b = MD4_CBLOCK"
  then have d: "drop 64 (b @ r) = r" by (simp add: MD4_CBLOCK_def)
  show "md4_block_data_order h (b @ r) 1 = md4_block_data_order h b 1"
    "md4_block_data_order h (b @ r) (Suc n) = md4_block_data_order (md4_block_data_order h b 1) r n"
    using b by (simp_all add: md4_block_data_order_def MD4_CBLOCK_def block_append d del: drop_append)
qed (simp_all add: MD4_CBLOCK_def)

lemma length_md5_compress: "length H = 4 \<Longrightarrow> length (md5_compress b H) = 4"
proof -
  have "length (fold (rfc1321_round X) [0..<Suc k] H) = 4" for k X
    by (simp add: rfc1321_round_def)
  from this[of _ 63] show "length H = 4 \<Longrightarrow> length (md5_compress b H) = 4"
    by (simp only: md5_compress_def length_map length_zip) simp
qed

lemma md5_absorb: "length h = 4 \<Longrightarrow>
    md5.absorb h m = fold md5_compress (blocks_of 64 (length m div 64) m) h \<and> length (md5.absorb h m) = 4"
  unfolding md5.absorb_def unfolding MD5_CBLOCK_def
  using fold_compress[of 4 md5.compress md5_compress h "blocks_of 64 (length m div 64) m"]
  by (simp add: length_md5_compress md5.compress_def md5_block_data_order_def md5_block_rfc)

lemma MD5_updates_track:
  assumes "md5.tracks iv m c" and "\<forall>x\<in>set xs. length x < SIZE_MOD"
  shows "md5.tracks iv (m @ concat xs) (fold MD5_Update xs c)"
  using assms
proof (induction xs arbitrary: m c)
  case (Cons x xs)
  then have "md5.tracks iv (m @ x) (MD5_Update x c)"
    unfolding MD5_Update_def by (intro md5.update_tracks) simp_all
  from Cons.IH[OF this] Cons.prems(2) show ?case by simp
qed simp

theorem MD5_digest:
  assumes "\<forall>x\<in>set xs. length x < SIZE_MOD"
  shows "fst (MD5_Final (fold MD5_Update xs MD5_Init)) = Some (md_digest md5_compress (concat xs))"
proof -
  let ?c = "fold MD5_Update xs MD5_Init" and ?iv = "[0x67452301, 0xefcdab89, 0x98badcfe, 0x10325476] :: u32 list"
  have "md5.tracks ?iv [] MD5_Init"
    by (simp add: md5.tracks_def md5.absorb_def md5.pending_def MD5_Init_def)
  from md5.final_tracks[OF MD5_updates_track[OF this assms], of False]
  have h: "md_h (crypto_md32_final md5_block_data_order MD5_CBLOCK False ?c) =
      md5.absorb ?iv (concat xs @ md_padding 64 8 length_le (length (concat xs)))" by (simp add: MD5_CBLOCK_def)
  have iv: "length ?iv = 4" by simp
  have four: "concat (map f l) = f (l ! 0) @ f (l ! 1) @ f (l ! 2) @ f (l ! 3)"
    if "length l = 4" for f and l :: "u32 list"
    using that by (auto simp: length_4)
  show ?thesis
    unfolding MD5_Final_def Let_def h md_digest_def fst_conv
    using md5_absorb[OF iv, of "concat xs @ md_padding 64 8 length_le (length (concat xs))"] four by metis
qed

lemma length_md4_compress: "length H = 4 \<Longrightarrow> length (md4_compress b H) = 4"
proof -
  have "length (fold (rfc1186_round X) [0..<Suc k] H) = 4" for k X
    by (simp add: rfc1186_round_def)
  from this[of _ 47] show "length H = 4 \<Longrightarrow> length (md4_compress b H) = 4"
    by (simp only: md4_compress_def length_map length_zip) simp
qed

lemma md4_absorb: "length h = 4 \<Longrightarrow>
    md4.absorb h m = fold md4_compress (blocks_of 64 (length m div 64) m) h \<and> length (md4.absorb h m) = 4"
  unfolding md4.absorb_def unfolding MD4_CBLOCK_def
  using fold_compress[of 4 md4.compress md4_compress h "blocks_of 64 (length m div 64) m"]
  by (simp add: length_md4_compress md4.compress_def md4_block_data_order_def md4_block_rfc)

lemma MD4_updates_track:
  assumes "md4.tracks iv m c" and "\<forall>x\<in>set xs. length x < SIZE_MOD"
  shows "md4.tracks iv (m @ concat xs) (fold MD4_Update xs c)"
  using assms
proof (induction xs arbitrary: m c)
  case (Cons x xs)
  then have "md4.tracks iv (m @ x) (MD4_Update x c)"
    unfolding MD4_Update_def by (intro md4.update_tracks) simp_all
  from Cons.IH[OF this] Cons.prems(2) show ?case by simp
qed simp

theorem MD4_digest:
  assumes "\<forall>x\<in>set xs. length x < SIZE_MOD"
  shows "fst (MD4_Final (fold MD4_Update xs MD4_Init)) = Some (md_digest md4_compress (concat xs))"
proof -
  let ?c = "fold MD4_Update xs MD4_Init" and ?iv = "[0x67452301, 0xefcdab89, 0x98badcfe, 0x10325476] :: u32 list"
  have "md4.tracks ?iv [] MD4_Init"
    by (simp add: md4.tracks_def md4.absorb_def md4.pending_def MD4_Init_def)
  from md4.final_tracks[OF MD4_updates_track[OF this assms], of False]
  have h: "md_h (crypto_md32_final md4_block_data_order MD4_CBLOCK False ?c) =
      md4.absorb ?iv (concat xs @ md_padding 64 8 length_le (length (concat xs)))" by (simp add: MD4_CBLOCK_def)
  have iv: "length ?iv = 4" by simp
  have four: "concat (map f l) = f (l ! 0) @ f (l ! 1) @ f (l ! 2) @ f (l ! 3)"
    if "length l = 4" for f and l :: "u32 list"
    using that by (auto simp: length_4)
  show ?thesis
    unfolding MD4_Final_def Let_def h md_digest_def fst_conv
    using md4_absorb[OF iv, of "concat xs @ md_padding 64 8 length_le (length (concat xs))"] four by metis
qed

end
