(* ===== verification/Evp_Digest.thy ===== *)
theory Evp_Digest
  imports Sha2_Spec Sha1 Md5
begin

text \<open>
  The common interface of the digests: \<open>crypto/fipsmodule/digest/digest.c\<close>, the method tables of
  \<open>digests.c\<close> and the types of \<open>internal.h\<close> and \<open>digest.h\<close>.

  A \<open>const EVP_MD *\<close> is one of the functions that return the static tables, and \<open>evp_md\<close> gives the
  table. What \<open>md_data\<close> points to is one of the context structs, or memory that was just allocated
  (\<open>Raw\<close>); a method that finds the struct of another digest there fails. \<open>OPENSSL_malloc\<close> is an argument
  of the calls that use it: for a size, the memory it returns, if any. The contents of \<open>EVP_PKEY_CTX\<close>
  belong to other layers and are a type parameter; freeing has no result. The contexts of a copy are
  distinct objects. Null pointers that the code dereferences, and failing assertions, are failures.
\<close>

section \<open>Method tables\<close>

datatype EVP_MD = EVP_md4 | EVP_md5 | EVP_sha1 | EVP_sha224 | EVP_sha256 | EVP_sha384 | EVP_sha512
  | EVP_sha512_256 | EVP_md5_sha1

datatype md_data = Raw "u8 list" | Md32_data md32_ctx | Sha256_data sha256_ctx | Sha512_data sha512_ctx
  | Md5_sha1_data md32_ctx md32_ctx

record env_md =
  md_type :: int
  md_size :: nat
  md_flags :: u32
  md_init :: "md_data \<Rightarrow> md_data option"
  md_update :: "u8 list \<Rightarrow> md_data \<Rightarrow> md_data option"
  md_final :: "md_data \<Rightarrow> (u8 list \<times> md_data) option"
  md_block_size :: nat
  md_ctx_size :: nat

definition MD4_DIGEST_LENGTH :: nat where "MD4_DIGEST_LENGTH = 16"
definition MD5_DIGEST_LENGTH :: nat where "MD5_DIGEST_LENGTH = 16"
definition SHA_DIGEST_LENGTH :: nat where "SHA_DIGEST_LENGTH = 20"
definition SHA384_DIGEST_LENGTH :: nat where "SHA384_DIGEST_LENGTH = 48"
definition SHA512_DIGEST_LENGTH :: nat where "SHA512_DIGEST_LENGTH = 64"
definition SHA512_256_DIGEST_LENGTH :: nat where "SHA512_256_DIGEST_LENGTH = 32"

text \<open>What a final function, an \<open>op\<close> on its struct, is on \<open>md_data\<close>.\<close>

definition finalised :: "('c \<Rightarrow> md_data) \<Rightarrow> u8 list option \<times> 'c \<Rightarrow> (u8 list \<times> md_data) option" where
  "finalised data r = (case r of (Some out, c) \<Rightarrow> Some (out, data c) | (None, c) \<Rightarrow> None)"

fun md4_init :: "md_data \<Rightarrow> md_data option" where
  "md4_init (Raw bs) = Some (Md32_data MD4_Init)"
| "md4_init (Md32_data c) = Some (Md32_data MD4_Init)"
| "md4_init _ = None"

fun md4_update :: "u8 list \<Rightarrow> md_data \<Rightarrow> md_data option" where
  "md4_update x (Md32_data c) = Some (Md32_data (MD4_Update x c))"
| "md4_update x _ = None"

fun md4_final :: "md_data \<Rightarrow> (u8 list \<times> md_data) option" where
  "md4_final (Md32_data c) = finalised Md32_data (MD4_Final c)"
| "md4_final _ = None"

fun md5_init :: "md_data \<Rightarrow> md_data option" where
  "md5_init (Raw bs) = Some (Md32_data MD5_Init)"
| "md5_init (Md32_data c) = Some (Md32_data MD5_Init)"
| "md5_init _ = None"

fun md5_update :: "u8 list \<Rightarrow> md_data \<Rightarrow> md_data option" where
  "md5_update x (Md32_data c) = Some (Md32_data (MD5_Update x c))"
| "md5_update x _ = None"

fun md5_final :: "md_data \<Rightarrow> (u8 list \<times> md_data) option" where
  "md5_final (Md32_data c) = finalised Md32_data (MD5_Final c)"
| "md5_final _ = None"

fun sha1_init :: "md_data \<Rightarrow> md_data option" where
  "sha1_init (Raw bs) = Some (Md32_data SHA1_Init)"
| "sha1_init (Md32_data c) = Some (Md32_data SHA1_Init)"
| "sha1_init _ = None"

fun sha1_update :: "u8 list \<Rightarrow> md_data \<Rightarrow> md_data option" where
  "sha1_update x (Md32_data c) = Some (Md32_data (SHA1_Update x c))"
| "sha1_update x _ = None"

fun sha1_final :: "md_data \<Rightarrow> (u8 list \<times> md_data) option" where
  "sha1_final (Md32_data c) = finalised Md32_data (SHA1_Final c)"
| "sha1_final _ = None"

fun sha224_init :: "md_data \<Rightarrow> md_data option" where
  "sha224_init (Raw bs) = Some (Sha256_data SHA224_Init)"
| "sha224_init (Sha256_data c) = Some (Sha256_data SHA224_Init)"
| "sha224_init _ = None"

fun sha224_update :: "u8 list \<Rightarrow> md_data \<Rightarrow> md_data option" where
  "sha224_update x (Sha256_data c) = Some (Sha256_data (SHA224_Update x c))"
| "sha224_update x _ = None"

fun sha224_final :: "md_data \<Rightarrow> (u8 list \<times> md_data) option" where
  "sha224_final (Sha256_data c) = finalised Sha256_data (SHA224_Final c)"
| "sha224_final _ = None"

fun sha256_init :: "md_data \<Rightarrow> md_data option" where
  "sha256_init (Raw bs) = Some (Sha256_data SHA256_Init)"
| "sha256_init (Sha256_data c) = Some (Sha256_data SHA256_Init)"
| "sha256_init _ = None"

fun sha256_update :: "u8 list \<Rightarrow> md_data \<Rightarrow> md_data option" where
  "sha256_update x (Sha256_data c) = Some (Sha256_data (SHA256_Update x c))"
| "sha256_update x _ = None"

fun sha256_final :: "md_data \<Rightarrow> (u8 list \<times> md_data) option" where
  "sha256_final (Sha256_data c) = finalised Sha256_data (SHA256_Final c)"
| "sha256_final _ = None"

text \<open>In a \<open>SHA512_CTX\<close> the buffer, which the initialisation leaves as it is, follows eight words of
  state and two of length.\<close>

fun sha512_buffer :: "md_data \<Rightarrow> u8 list option" where
  "sha512_buffer (Raw bs) = Some (take 128 (drop 80 bs))"
| "sha512_buffer (Sha512_data c) = Some (s5_p c)"
| "sha512_buffer _ = None"

definition sha384_init :: "md_data \<Rightarrow> md_data option" where
  "sha384_init d = map_option (\<lambda>p. Sha512_data (SHA384_Init p)) (sha512_buffer d)"

fun sha384_update :: "u8 list \<Rightarrow> md_data \<Rightarrow> md_data option" where
  "sha384_update x (Sha512_data c) = Some (Sha512_data (SHA384_Update x c))"
| "sha384_update x _ = None"

fun sha384_final :: "md_data \<Rightarrow> (u8 list \<times> md_data) option" where
  "sha384_final (Sha512_data c) = finalised Sha512_data (SHA384_Final True c)"
| "sha384_final _ = None"

definition sha512_init :: "md_data \<Rightarrow> md_data option" where
  "sha512_init d = map_option (\<lambda>p. Sha512_data (SHA512_Init p)) (sha512_buffer d)"

fun sha512_update :: "u8 list \<Rightarrow> md_data \<Rightarrow> md_data option" where
  "sha512_update x (Sha512_data c) = Some (Sha512_data (SHA512_Update x c))"
| "sha512_update x _ = None"

fun sha512_final :: "md_data \<Rightarrow> (u8 list \<times> md_data) option" where
  "sha512_final (Sha512_data c) = finalised Sha512_data (SHA512_Final True c)"
| "sha512_final _ = None"

definition sha512_256_init :: "md_data \<Rightarrow> md_data option" where
  "sha512_256_init d = map_option (\<lambda>p. Sha512_data (SHA512_256_Init p)) (sha512_buffer d)"

fun sha512_256_update :: "u8 list \<Rightarrow> md_data \<Rightarrow> md_data option" where
  "sha512_256_update x (Sha512_data c) = Some (Sha512_data (SHA512_256_Update x c))"
| "sha512_256_update x _ = None"

fun sha512_256_final :: "md_data \<Rightarrow> (u8 list \<times> md_data) option" where
  "sha512_256_final (Sha512_data c) = finalised Sha512_data (SHA512_256_Final True c)"
| "sha512_256_final _ = None"

fun md5_sha1_init :: "md_data \<Rightarrow> md_data option" where
  "md5_sha1_init (Raw bs) = Some (Md5_sha1_data MD5_Init SHA1_Init)"
| "md5_sha1_init (Md5_sha1_data c c') = Some (Md5_sha1_data MD5_Init SHA1_Init)"
| "md5_sha1_init _ = None"

fun md5_sha1_update :: "u8 list \<Rightarrow> md_data \<Rightarrow> md_data option" where
  "md5_sha1_update x (Md5_sha1_data c c') = Some (Md5_sha1_data (MD5_Update x c) (SHA1_Update x c'))"
| "md5_sha1_update x _ = None"

fun md5_sha1_final :: "md_data \<Rightarrow> (u8 list \<times> md_data) option" where
  "md5_sha1_final (Md5_sha1_data c c') =
     (case (MD5_Final c, SHA1_Final c') of
        ((Some out, c), (Some out', c')) \<Rightarrow> Some (out @ out', Md5_sha1_data c c')
      | _ \<Rightarrow> None)"
| "md5_sha1_final _ = None"

definition md4_method :: env_md where
  "md4_method = \<lparr>md_type = 257, md_size = MD4_DIGEST_LENGTH, md_flags = 0, md_init = md4_init,
     md_update = md4_update, md_final = md4_final, md_block_size = 64, md_ctx_size = 92\<rparr>"

definition md5_method :: env_md where
  "md5_method = \<lparr>md_type = 4, md_size = MD5_DIGEST_LENGTH, md_flags = 0, md_init = md5_init,
     md_update = md5_update, md_final = md5_final, md_block_size = 64, md_ctx_size = 92\<rparr>"

definition sha1_method :: env_md where
  "sha1_method = \<lparr>md_type = 64, md_size = SHA_DIGEST_LENGTH, md_flags = 0, md_init = sha1_init,
     md_update = sha1_update, md_final = sha1_final, md_block_size = 64, md_ctx_size = 96\<rparr>"

definition sha224_method :: env_md where
  "sha224_method = \<lparr>md_type = 675, md_size = SHA224_DIGEST_LENGTH, md_flags = 0, md_init = sha224_init,
     md_update = sha224_update, md_final = sha224_final, md_block_size = 64, md_ctx_size = 112\<rparr>"

definition sha256_method :: env_md where
  "sha256_method = \<lparr>md_type = 672, md_size = SHA256_DIGEST_LENGTH, md_flags = 0, md_init = sha256_init,
     md_update = sha256_update, md_final = sha256_final, md_block_size = 64, md_ctx_size = 112\<rparr>"

definition sha384_method :: env_md where
  "sha384_method = \<lparr>md_type = 673, md_size = SHA384_DIGEST_LENGTH, md_flags = 0, md_init = sha384_init,
     md_update = sha384_update, md_final = sha384_final, md_block_size = 128, md_ctx_size = 216\<rparr>"

definition sha512_method :: env_md where
  "sha512_method = \<lparr>md_type = 674, md_size = SHA512_DIGEST_LENGTH, md_flags = 0, md_init = sha512_init,
     md_update = sha512_update, md_final = sha512_final, md_block_size = 128, md_ctx_size = 216\<rparr>"

definition sha512_256_method :: env_md where
  "sha512_256_method = \<lparr>md_type = 962, md_size = SHA512_256_DIGEST_LENGTH, md_flags = 0, md_init = sha512_256_init,
     md_update = sha512_256_update, md_final = sha512_256_final, md_block_size = 128, md_ctx_size = 216\<rparr>"

definition md5_sha1_method :: env_md where
  "md5_sha1_method = \<lparr>md_type = 114, md_size = MD5_DIGEST_LENGTH + SHA_DIGEST_LENGTH, md_flags = 0,
     md_init = md5_sha1_init, md_update = md5_sha1_update, md_final = md5_sha1_final, md_block_size = 64,
     md_ctx_size = 188\<rparr>"

fun evp_md :: "EVP_MD \<Rightarrow> env_md" where
  "evp_md EVP_md4 = md4_method"
| "evp_md EVP_md5 = md5_method"
| "evp_md EVP_sha1 = sha1_method"
| "evp_md EVP_sha224 = sha224_method"
| "evp_md EVP_sha256 = sha256_method"
| "evp_md EVP_sha384 = sha384_method"
| "evp_md EVP_sha512 = sha512_method"
| "evp_md EVP_sha512_256 = sha512_256_method"
| "evp_md EVP_md5_sha1 = md5_sha1_method"

lemmas method_defs [simp] = md4_method_def md5_method_def sha1_method_def sha224_method_def sha256_method_def
  sha384_method_def sha512_method_def sha512_256_method_def md5_sha1_method_def

definition EVP_MD_type :: "EVP_MD \<Rightarrow> int" where
  "EVP_MD_type md = md_type (evp_md md)"

definition EVP_MD_flags :: "EVP_MD \<Rightarrow> u32" where
  "EVP_MD_flags md = md_flags (evp_md md)"

definition EVP_MD_size :: "EVP_MD \<Rightarrow> nat" where
  "EVP_MD_size md = md_size (evp_md md)"

definition EVP_MD_block_size :: "EVP_MD \<Rightarrow> nat" where
  "EVP_MD_block_size md = md_block_size (evp_md md)"

definition EVP_MAX_MD_SIZE :: nat where "EVP_MAX_MD_SIZE = 64"

definition EVP_MAX_MD_BLOCK_SIZE :: nat where "EVP_MAX_MD_BLOCK_SIZE = 128"

section \<open>Contexts\<close>

type_synonym malloc = "nat \<Rightarrow> u8 list option"

record 'p evp_md_pctx_ops =
  pctx_dup :: "'p \<Rightarrow> 'p option"

record 'p evp_md_ctx =
  c_digest :: "EVP_MD option"
  c_md_data :: "md_data option"
  c_pctx :: "'p option"
  c_pctx_ops :: "'p evp_md_pctx_ops option"

definition EVP_MD_CTX_init :: "'p evp_md_ctx" where
  "EVP_MD_CTX_init = \<lparr>c_digest = None, c_md_data = None, c_pctx = None, c_pctx_ops = None\<rparr>"

text \<open>Memory that was overwritten with zeros.\<close>

definition zero_md32 :: "'a md32_ctx_scheme \<Rightarrow> 'a md32_ctx_scheme" where
  "zero_md32 c = c\<lparr>md_h := replicate (length (md_h c)) 0, md_Nl := 0, md_Nh := 0,
     md_data := replicate (length (md_data c)) 0, md_num := 0\<rparr>"

fun cleanse_md_data :: "md_data \<Rightarrow> md_data" where
  "cleanse_md_data (Raw bs) = Raw (replicate (length bs) 0)"
| "cleanse_md_data (Md32_data c) = Md32_data (zero_md32 c)"
| "cleanse_md_data (Sha256_data c) = Sha256_data ((zero_md32 c)\<lparr>sha_md_len := 0\<rparr>)"
| "cleanse_md_data (Sha512_data c) = Sha512_data (c\<lparr>s5_h := replicate (length (s5_h c)) 0, s5_Nl := 0, s5_Nh := 0,
     s5_p := replicate (length (s5_p c)) 0, s5_num := 0, s5_md_len := 0\<rparr>)"
| "cleanse_md_data (Md5_sha1_data c c') = Md5_sha1_data (zero_md32 c) (zero_md32 c')"

text \<open>Freeing a context leaves it as \<open>EVP_MD_CTX_init\<close> does.\<close>

definition EVP_MD_CTX_cleanup :: "('p evp_md_ctx, unit) op" where
  "EVP_MD_CTX_cleanup ctx =
     (if c_pctx ctx \<noteq> None \<and> c_pctx_ops ctx = None then (None, ctx) else (Some (), EVP_MD_CTX_init))"

definition EVP_MD_CTX_reset :: "('p evp_md_ctx, unit) op" where
  "EVP_MD_CTX_reset = sbind EVP_MD_CTX_cleanup (\<lambda>_ ctx. (Some (), EVP_MD_CTX_init))"

text \<open>The state is \<open>out\<close>; \<open>src\<close> is the pointer \<open>in\<close>, which may be null.\<close>

definition EVP_MD_CTX_copy_ex :: "malloc \<Rightarrow> 'p evp_md_ctx option \<Rightarrow> ('p evp_md_ctx, unit) op" where
  "EVP_MD_CTX_copy_ex malloc src out =
     (case src of
        None \<Rightarrow> (None, out)
      | Some inp \<Rightarrow>
          if c_pctx inp = None \<and> c_digest inp = None then (None, out)
          else
            let dup = (case (c_pctx inp, c_pctx_ops inp) of
                  (None, _) \<Rightarrow> Some None
                | (Some p, Some ops) \<Rightarrow> map_option Some (pctx_dup ops p)
                | (Some p, None) \<Rightarrow> None)
            in case dup of
                None \<Rightarrow> (None, out)
              | Some pctx \<Rightarrow>
                  let tmp_buf = (case c_digest inp of
                        None \<Rightarrow> Some None
                      | Some d \<Rightarrow> if c_digest out \<noteq> Some d then map_option (\<lambda>b. Some (Raw b)) (malloc (md_ctx_size (evp_md d)))
                          else Some (c_md_data out));
                      out = (if c_digest inp \<noteq> None \<and> c_digest out = c_digest inp then out\<lparr>c_md_data := None\<rparr> else out)
                  in case tmp_buf of
                      None \<Rightarrow> (None, out)
                    | Some buf \<Rightarrow>
                        sbind EVP_MD_CTX_cleanup (\<lambda>_ out.
                          (if c_digest inp \<noteq> None \<and> (buf = None \<or> c_md_data inp = None) then None else Some (),
                           out\<lparr>c_digest := c_digest inp,
                             c_md_data := (if c_digest inp \<noteq> None then c_md_data inp else None),
                             c_pctx := pctx, c_pctx_ops := c_pctx_ops inp\<rparr>)) out)"

definition EVP_MD_CTX_copy :: "malloc \<Rightarrow> 'p evp_md_ctx option \<Rightarrow> ('p evp_md_ctx, unit) op" where
  "EVP_MD_CTX_copy malloc src out = EVP_MD_CTX_copy_ex malloc src EVP_MD_CTX_init"

text \<open>Both contexts change: the result is \<open>out\<close>, the state \<open>in\<close>.\<close>

definition EVP_MD_CTX_move :: "'p evp_md_ctx \<Rightarrow> ('p evp_md_ctx, 'p evp_md_ctx) op" where
  "EVP_MD_CTX_move out inp =
     (case EVP_MD_CTX_cleanup out of (None, _) \<Rightarrow> (None, inp) | (Some _, _) \<Rightarrow> (Some inp, EVP_MD_CTX_init))"

section \<open>Hashing\<close>

definition EVP_DigestInit_ex :: "malloc \<Rightarrow> EVP_MD option \<Rightarrow> ('p evp_md_ctx, unit) op" where
  "EVP_DigestInit_ex malloc type ctx =
     (let ready = (if c_digest ctx \<noteq> type then
            (case type of
               None \<Rightarrow> None
             | Some md \<Rightarrow> map_option (\<lambda>b. ctx\<lparr>c_md_data := Some (Raw b), c_digest := type\<rparr>) (malloc (md_ctx_size (evp_md md))))
          else Some ctx)
      in case ready of
          None \<Rightarrow> (None, ctx)
        | Some ctx \<Rightarrow>
            if c_pctx ctx \<noteq> None \<and> c_pctx_ops ctx = None then (None, ctx)
            else case (c_digest ctx, c_md_data ctx) of
                (Some md, Some d) \<Rightarrow>
                  (case md_init (evp_md md) d of None \<Rightarrow> (None, ctx) | Some d' \<Rightarrow> (Some (), ctx\<lparr>c_md_data := Some d'\<rparr>))
              | _ \<Rightarrow> (None, ctx))"

definition EVP_DigestInit :: "malloc \<Rightarrow> EVP_MD option \<Rightarrow> ('p evp_md_ctx, unit) op" where
  "EVP_DigestInit malloc type ctx = EVP_DigestInit_ex malloc type EVP_MD_CTX_init"

definition EVP_DigestUpdate :: "u8 list \<Rightarrow> ('p evp_md_ctx, unit) op" where
  "EVP_DigestUpdate data ctx =
     (case (c_digest ctx, c_md_data ctx) of
        (Some md, Some d) \<Rightarrow>
          (case md_update (evp_md md) data d of None \<Rightarrow> (None, ctx) | Some d' \<Rightarrow> (Some (), ctx\<lparr>c_md_data := Some d'\<rparr>))
      | _ \<Rightarrow> (None, ctx))"

text \<open>The digest, and the size that is stored where \<open>size\<close> points.\<close>

definition EVP_DigestFinal_ex :: "('p evp_md_ctx, u8 list \<times> nat) op" where
  "EVP_DigestFinal_ex ctx =
     (case (c_digest ctx, c_md_data ctx) of
        (Some md, Some d) \<Rightarrow>
          if md_size (evp_md md) > EVP_MAX_MD_SIZE then (None, ctx)
          else (case md_final (evp_md md) d of
                  None \<Rightarrow> (None, ctx)
                | Some (out, d') \<Rightarrow>
                    (Some (out, md_size (evp_md md)), ctx\<lparr>c_md_data := Some (cleanse_md_data d')\<rparr>))
      | _ \<Rightarrow> (None, ctx))"

definition EVP_DigestFinal :: "('p evp_md_ctx, u8 list \<times> nat) op" where
  "EVP_DigestFinal = sbind EVP_DigestFinal_ex (\<lambda>r. sbind EVP_MD_CTX_cleanup (\<lambda>_. ret r))"

definition EVP_Digest :: "malloc \<Rightarrow> u8 list \<Rightarrow> EVP_MD option \<Rightarrow> (u8 list \<times> nat) option" where
  "EVP_Digest malloc data type = fst (sbind (EVP_DigestInit_ex malloc type) (\<lambda>_. sbind (EVP_DigestUpdate data) (\<lambda>_.
     EVP_DigestFinal_ex)) (EVP_MD_CTX_init :: unit evp_md_ctx))"

definition EVP_MD_CTX_md :: "'p evp_md_ctx option \<Rightarrow> EVP_MD option" where
  "EVP_MD_CTX_md ctx = (case ctx of None \<Rightarrow> None | Some c \<Rightarrow> c_digest c)"

definition EVP_MD_CTX_size :: "'p evp_md_ctx option \<Rightarrow> nat option" where
  "EVP_MD_CTX_size ctx = map_option EVP_MD_size (EVP_MD_CTX_md ctx)"

definition EVP_MD_CTX_block_size :: "'p evp_md_ctx option \<Rightarrow> nat option" where
  "EVP_MD_CTX_block_size ctx = map_option EVP_MD_block_size (EVP_MD_CTX_md ctx)"

definition EVP_MD_CTX_type :: "'p evp_md_ctx option \<Rightarrow> int option" where
  "EVP_MD_CTX_type ctx = map_option EVP_MD_type (EVP_MD_CTX_md ctx)"

section \<open>What a digest is\<close>

fun evp_digest :: "EVP_MD \<Rightarrow> u8 list \<Rightarrow> u8 list" where
  "evp_digest EVP_md4 = md_digest md4_compress"
| "evp_digest EVP_md5 = md_digest md5_compress"
| "evp_digest EVP_sha1 = sha1_digest"
| "evp_digest EVP_sha224 = sha256_digest (md_h SHA224_Init) 7"
| "evp_digest EVP_sha256 = sha256_digest (md_h SHA256_Init) 8"
| "evp_digest EVP_sha384 = sha512_digest (s5_h (SHA384_Init [])) 6"
| "evp_digest EVP_sha512 = sha512_digest (s5_h (SHA512_Init [])) 8"
| "evp_digest EVP_sha512_256 = sha512_digest (s5_h (SHA512_256_Init [])) 4"
| "evp_digest EVP_md5_sha1 = (\<lambda>m. md_digest md5_compress m @ sha1_digest m)"

text \<open>Memory of the right size, or the struct that the methods of the digest work on.\<close>

fun data_fits :: "EVP_MD \<Rightarrow> md_data \<Rightarrow> bool" where
  "data_fits md (Raw bs) = (length bs = md_ctx_size (evp_md md))"
| "data_fits md (Md32_data c) = (md \<in> {EVP_md4, EVP_md5, EVP_sha1})"
| "data_fits md (Sha256_data c) = (md \<in> {EVP_sha224, EVP_sha256})"
| "data_fits md (Sha512_data c) = (md \<in> {EVP_sha384, EVP_sha512, EVP_sha512_256} \<and> length (s5_p c) = 128)"
| "data_fits md (Md5_sha1_data c c') = (md = EVP_md5_sha1)"

text \<open>The structs that updates with the parts of a message \<open>m\<close> lead to.\<close>

fun hashing :: "EVP_MD \<Rightarrow> u8 list list \<Rightarrow> md_data \<Rightarrow> bool" where
  "hashing EVP_md4 xs (Md32_data c) = (c = fold MD4_Update xs MD4_Init)"
| "hashing EVP_md5 xs (Md32_data c) = (c = fold MD5_Update xs MD5_Init)"
| "hashing EVP_sha1 xs (Md32_data c) = (c = fold SHA1_Update xs SHA1_Init)"
| "hashing EVP_sha224 xs (Sha256_data c) = (c = fold SHA224_Update xs SHA224_Init)"
| "hashing EVP_sha256 xs (Sha256_data c) = (c = fold SHA256_Update xs SHA256_Init)"
| "hashing EVP_sha384 xs (Sha512_data c) = (\<exists>p. length p = 128 \<and> c = fold SHA384_Update xs (SHA384_Init p))"
| "hashing EVP_sha512 xs (Sha512_data c) = (\<exists>p. length p = 128 \<and> c = fold SHA512_Update xs (SHA512_Init p))"
| "hashing EVP_sha512_256 xs (Sha512_data c) = (\<exists>p. length p = 128 \<and> c = fold SHA512_256_Update xs (SHA512_256_Init p))"
| "hashing EVP_md5_sha1 xs (Md5_sha1_data c c') =
     (c = fold MD5_Update xs MD5_Init \<and> c' = fold SHA1_Update xs SHA1_Init)"
| "hashing _ xs _ = False"

definition holds :: "EVP_MD \<Rightarrow> u8 list \<Rightarrow> md_data \<Rightarrow> bool" where
  "holds md m d \<longleftrightarrow> (\<exists>xs. hashing md xs d \<and> (\<forall>x\<in>set xs. length x < SIZE_MOD) \<and> concat xs = m)"

lemmas DIGEST_LENGTHs = MD4_DIGEST_LENGTH_def MD5_DIGEST_LENGTH_def SHA_DIGEST_LENGTH_def SHA224_DIGEST_LENGTH_def
  SHA256_DIGEST_LENGTH_def SHA384_DIGEST_LENGTH_def SHA512_DIGEST_LENGTH_def SHA512_256_DIGEST_LENGTH_def

lemma md_init_hashing: "data_fits md d \<Longrightarrow> \<exists>d'. md_init (evp_md md) d = Some d' \<and> hashing md [] d'"
  by (cases md; cases d; auto simp: sha384_init_def sha512_init_def sha512_256_init_def;
      (rule exI, rule conjI[rotated], rule refl, simp))

lemma md_update_hashing:
  "hashing md xs d \<Longrightarrow> \<exists>d'. md_update (evp_md md) x d = Some d' \<and> hashing md (xs @ [x]) d'"
  by (cases md; cases d) auto

lemma length_concat_store_32: "length (concat (map CRYPTO_store_u32_be ws)) = 4 * length ws"
  "length (concat (map CRYPTO_store_u32_le ws)) = 4 * length ws"
  by (induction ws) (simp_all add: CRYPTO_store_u32_be_def CRYPTO_store_u32_le_def)

lemma length_concat_store_64: "length (concat (map CRYPTO_store_u64_be ws)) = 8 * length ws"
  by (induction ws) (simp_all add: store_u64_be_bytes)

lemma length_sha256_digest: "length iv = 8 \<Longrightarrow> n \<le> 8 \<Longrightarrow> length (sha256_digest iv n m) = 4 * n"
proof -
  assume iv: "length iv = 8" and n: "n \<le> 8"
  have "length (fold sha256_compress bs h) = 8" if "length h = 8" for bs h
    using that by (induction bs arbitrary: h) (simp_all add: length_fips_compress sha256_compress_def)
  then show ?thesis using iv n by (simp add: sha256_digest_def Let_def length_concat_store_32)
qed

lemma length_sha512_digest: "length iv = 8 \<Longrightarrow> n \<le> 8 \<Longrightarrow> length (sha512_digest iv n m) = 8 * n"
proof -
  assume iv: "length iv = 8" and n: "n \<le> 8"
  have "length (fold sha512_compress bs h) = 8" if "length h = 8" for bs h
    using that by (induction bs arbitrary: h) (simp_all add: length_fips_compress sha512_compress_def)
  then show ?thesis using iv n by (simp add: sha512_digest_def Let_def length_concat_store_64)
qed

lemma length_sha1_digest: "length (sha1_digest m) = 20"
proof -
  have "length (fold fips1_compress bs h) = 5" if "length h = 5" for bs h
    using that by (induction bs arbitrary: h) (simp_all add: length_fips1_compress)
  then show ?thesis by (simp add: sha1_digest_def Let_def length_concat_store_32 SHA1_Init_def)
qed

lemma length_md_digest:
  assumes "\<And>b h. length h = 4 \<Longrightarrow> length (cf b h) = 4"
  shows "length (md_digest cf m) = 16"
proof -
  have "length (fold cf bs h) = 4" if "length h = 4" for bs h
    using that by (induction bs arbitrary: h) (simp_all add: assms)
  then show ?thesis by (simp add: md_digest_def Let_def length_concat_store_32)
qed

lemma length_evp_digest: "length (evp_digest md m) = md_size (evp_md md)"
  by (cases md) (simp_all add: length_md_digest length_md4_compress length_md5_compress length_sha1_digest
      length_sha256_digest length_sha512_digest DIGEST_LENGTHs SHA224_Init_def SHA256_Init_def SHA384_Init_def
      SHA512_Init_def SHA512_256_Init_def)

lemma s5_h_Init: "s5_h (SHA384_Init p) = s5_h (SHA384_Init [])" "s5_h (SHA512_Init p) = s5_h (SHA512_Init [])"
  "s5_h (SHA512_256_Init p) = s5_h (SHA512_256_Init [])"
  by (simp_all add: SHA384_Init_def SHA512_Init_def SHA512_256_Init_def)


lemma SHA512_data_length:
  assumes "length p = 128" and "\<forall>x\<in>set xs. length x < SIZE_MOD"
  shows "length (s5_p (fold SHA512_Update xs (SHA512_Init p))) = 128 \<and> s5_num (fold SHA512_Update xs (SHA512_Init p)) < 128"
    "length (s5_p (fold SHA384_Update xs (SHA384_Init p))) = 128 \<and> s5_num (fold SHA384_Update xs (SHA384_Init p)) < 128"
    "length (s5_p (fold SHA512_256_Update xs (SHA512_256_Init p))) = 128 \<and>
     s5_num (fold SHA512_256_Update xs (SHA512_256_Init p)) < 128"
proof -
  have u: "SHA384_Update = SHA512_Update" "SHA512_256_Update = SHA512_Update"
    by (simp_all add: SHA384_Update_def SHA512_256_Update_def fun_eq_iff)
  have "tracks512 iv m c \<Longrightarrow> length (s5_p c) = 128 \<and> s5_num c < 128" for iv m c
    using sha512.pending_less[of m] unfolding tracks512_def SHA512_CBLOCK_def by simp
  then show "length (s5_p (fold SHA512_Update xs (SHA512_Init p))) = 128 \<and> s5_num (fold SHA512_Update xs (SHA512_Init p)) < 128"
    "length (s5_p (fold SHA384_Update xs (SHA384_Init p))) = 128 \<and> s5_num (fold SHA384_Update xs (SHA384_Init p)) < 128"
    "length (s5_p (fold SHA512_256_Update xs (SHA512_256_Init p))) = 128 \<and>
     s5_num (fold SHA512_256_Update xs (SHA512_256_Init p)) < 128"
    unfolding u using SHA512_updates_track[OF SHA512_Init_tracks(1)[OF assms(1)] assms(2)]
      SHA512_updates_track[OF SHA512_Init_tracks(2)[OF assms(1)] assms(2)]
      SHA512_updates_track[OF SHA512_Init_tracks(3)[OF assms(1)] assms(2)] by blast+
qed

lemma length_memcpy: "n + length x \<le> length p \<Longrightarrow> length (OPENSSL_memcpy p n x) = length p"
  by (simp add: OPENSSL_memcpy_def)

lemma length_memset: "n + k \<le> length p \<Longrightarrow> length (OPENSSL_memset p n v k) = length p"
  by (simp add: OPENSSL_memset_def length_memcpy)

lemma sha512_final_impl_length:
  assumes "length (s5_p c) = 128" and "s5_num c < 128"
  shows "length (s5_p (snd (sha512_final_impl True c))) = 128"
  using assms by (simp add: sha512_final_impl_def Let_def SHA512_CBLOCK_def length_memcpy length_memset store_u64_be_bytes)

lemma finalised_Some:
  assumes "fst r = Some out"
  shows "finalised data r = Some (out, data (snd r))"
  using assms by (cases r) (simp add: finalised_def)

lemma md_final_hashing:
  assumes "hashing md xs d" and xs: "\<forall>x\<in>set xs. length x < SIZE_MOD"
  shows "\<exists>d'. md_final (evp_md md) d = Some (evp_digest md (concat xs), d') \<and> data_fits md (cleanse_md_data d')"
proof -
  note f = finalised_Some[OF MD4_digest[OF xs]] finalised_Some[OF MD5_digest[OF xs]]
    finalised_Some[OF SHA1_digest[OF xs]] finalised_Some[OF SHA256_digest(1)[OF xs]]
    finalised_Some[OF SHA256_digest(2)[OF xs]]
  have f5: "finalised Sha512_data (SHA512_Final True (fold SHA512_Update xs (SHA512_Init p))) =
        Some (evp_digest EVP_sha512 (concat xs), Sha512_data (snd (SHA512_Final True (fold SHA512_Update xs (SHA512_Init p)))))"
    "finalised Sha512_data (SHA384_Final True (fold SHA384_Update xs (SHA384_Init p))) =
        Some (evp_digest EVP_sha384 (concat xs), Sha512_data (snd (SHA384_Final True (fold SHA384_Update xs (SHA384_Init p)))))"
    "finalised Sha512_data (SHA512_256_Final True (fold SHA512_256_Update xs (SHA512_256_Init p))) =
        Some (evp_digest EVP_sha512_256 (concat xs),
          Sha512_data (snd (SHA512_256_Final True (fold SHA512_256_Update xs (SHA512_256_Init p)))))"
    "length (s5_p (snd (SHA512_Final True (fold SHA512_Update xs (SHA512_Init p))))) = 128"
    "length (s5_p (snd (SHA384_Final True (fold SHA384_Update xs (SHA384_Init p))))) = 128"
    "length (s5_p (snd (SHA512_256_Final True (fold SHA512_256_Update xs (SHA512_256_Init p))))) = 128"
    if "length p = 128" for p
    using SHA512_digest[OF xs that, unfolded s5_h_Init[of p]] SHA512_data_length[OF that xs]
    by (simp_all only: finalised_Some evp_digest.simps)
      (simp_all add: SHA512_Final_def SHA384_Final_def SHA512_256_Final_def sha512_final_impl_length)
  obtain c5 c1 where md5: "MD5_Final (fold MD5_Update xs MD5_Init) = (Some (md_digest md5_compress (concat xs)), c5)"
    and sha1: "SHA1_Final (fold SHA1_Update xs SHA1_Init) = (Some (sha1_digest (concat xs)), c1)"
    using MD5_digest[OF xs] SHA1_digest[OF xs] by (metis prod.collapse)
  show ?thesis using assms(1)
    by (cases md; cases d) (auto simp: f f5 md5 sha1 finalised_Some)
qed

section \<open>The contract of a digest\<close>

text \<open>A method table implements the function \<open>H\<close>: the data it works on is fit for the next
  initialisation or holds the message given so far.\<close>

locale message_digest =
  fixes md :: env_md and H :: "u8 list \<Rightarrow> u8 list" and fits :: "md_data \<Rightarrow> bool"
    and holding :: "u8 list \<Rightarrow> md_data \<Rightarrow> bool"
  assumes fresh_fits: "length bs = md_ctx_size md \<Longrightarrow> fits (Raw bs)"
    and holding_fits: "holding m d \<Longrightarrow> fits d"
    and init_holds: "fits d \<Longrightarrow> \<exists>d'. md_init md d = Some d' \<and> holding [] d'"
    and update_holds: "holding m d \<Longrightarrow> length x < SIZE_MOD \<Longrightarrow> \<exists>d'. md_update md x d = Some d' \<and> holding (m @ x) d'"
    and final_digest: "holding m d \<Longrightarrow> \<exists>d'. md_final md d = Some (H m, d') \<and> fits (cleanse_md_data d')"
    and digest_size: "length (H m) = md_size md" and size_max: "md_size md \<le> EVP_MAX_MD_SIZE"
    and block_max: "md_size md \<le> md_block_size md \<and> md_block_size md \<le> EVP_MAX_MD_BLOCK_SIZE"
begin

text \<open>The parts of a message, one update each, then the end.\<close>

lemma updates_hold:
  "holding m d \<Longrightarrow> \<forall>x\<in>set xs. length x < SIZE_MOD \<Longrightarrow>
    \<exists>d'. foldl (\<lambda>r x. Option.bind r (md_update md x)) (Some d) xs = Some d' \<and> holding (m @ concat xs) d'"
proof (induction xs arbitrary: m d)
  case (Cons x xs)
  from update_holds[OF Cons.prems(1), of x] Cons.prems(2) obtain d1 where
    "md_update md x d = Some d1" "holding (m @ x) d1" by auto
  with Cons.IH[OF this(2)] Cons.prems(2) show ?case by simp
qed simp

lemma digest_of_parts:
  assumes "fits d" and "\<forall>x\<in>set xs. length x < SIZE_MOD"
  shows "\<exists>d1 d2 d3. md_init md d = Some d1 \<and>
    foldl (\<lambda>r x. Option.bind r (md_update md x)) (Some d1) xs = Some d2 \<and> md_final md d2 = Some (H (concat xs), d3)"
  using init_holds[OF assms(1)] updates_hold[OF _ assms(2)] final_digest by fastforce

end

interpretation evp: message_digest "evp_md alg" "evp_digest alg" "data_fits alg" "holds alg" for alg
proof unfold_locales
  fix m d x and bs :: "u8 list"
  show "length bs = md_ctx_size (evp_md alg) \<Longrightarrow> data_fits alg (Raw bs)" by simp
  show "\<exists>d'. md_init (evp_md alg) d = Some d' \<and> holds alg [] d'" if "data_fits alg d"
    using md_init_hashing[OF that] unfolding holds_def by (metis concat.simps(1) empty_iff empty_set)
  show "\<exists>d'. md_update (evp_md alg) x d = Some d' \<and> holds alg (m @ x) d'"
    if h: "holds alg m d" and x: "length x < SIZE_MOD"
  proof -
    from h obtain xs where xs: "hashing alg xs d" "\<forall>x\<in>set xs. length x < SIZE_MOD" "concat xs = m"
      by (auto simp: holds_def)
    with x have "\<forall>y\<in>set (xs @ [x]). length y < SIZE_MOD" "concat (xs @ [x]) = m @ x" by auto
    with md_update_hashing[OF xs(1), of x] show ?thesis unfolding holds_def by blast
  qed
  show "\<exists>d'. md_final (evp_md alg) d = Some (evp_digest alg m, d') \<and> data_fits alg (cleanse_md_data d')"
    if "holds alg m d"
    using that md_final_hashing unfolding holds_def by blast
  show "data_fits alg d" if h: "holds alg m d"
  proof -
    from h obtain xs where xs: "hashing alg xs d" "\<forall>x\<in>set xs. length x < SIZE_MOD" by (auto simp: holds_def)
    then show ?thesis by (cases alg; cases d) (auto simp: SHA512_data_length)
  qed
  show "md_size (evp_md alg) \<le> EVP_MAX_MD_SIZE"
    by (cases alg) (simp_all add: EVP_MAX_MD_SIZE_def DIGEST_LENGTHs)
  show "md_size (evp_md alg) \<le> md_block_size (evp_md alg) \<and> md_block_size (evp_md alg) \<le> EVP_MAX_MD_BLOCK_SIZE"
    by (cases alg) (simp_all add: EVP_MAX_MD_BLOCK_SIZE_def DIGEST_LENGTHs)
qed (rule length_evp_digest)

section \<open>Contexts that hold a message\<close>

text \<open>An allocator that never refuses.\<close>

definition gives :: "malloc \<Rightarrow> bool" where
  "gives malloc \<longleftrightarrow> (\<forall>n. \<exists>bs. malloc n = Some bs \<and> length bs = n)"

definition ctx_usable :: "'p evp_md_ctx \<Rightarrow> bool" where
  "ctx_usable ctx \<longleftrightarrow> c_pctx ctx = None \<and>
     (case c_digest ctx of None \<Rightarrow> True | Some md \<Rightarrow> \<exists>d. c_md_data ctx = Some d \<and> data_fits md d)"

definition ctx_holds :: "EVP_MD \<Rightarrow> u8 list \<Rightarrow> 'p evp_md_ctx \<Rightarrow> bool" where
  "ctx_holds md m ctx \<longleftrightarrow> c_pctx ctx = None \<and> c_digest ctx = Some md \<and> (\<exists>d. c_md_data ctx = Some d \<and> holds md m d)"

lemma ctx_holds_usable: "ctx_holds md m ctx \<Longrightarrow> ctx_usable ctx"
  using evp.holding_fits by (fastforce simp: ctx_holds_def ctx_usable_def)

lemma ctx_init_usable [simp]: "ctx_usable EVP_MD_CTX_init"
  by (simp add: ctx_usable_def EVP_MD_CTX_init_def)

lemma DigestInit_ex_holds:
  assumes "ctx_usable ctx" and "gives malloc"
  shows "\<exists>ctx'. EVP_DigestInit_ex malloc (Some md) ctx = (Some (), ctx') \<and> ctx_holds md [] ctx'"
proof (cases "c_digest ctx = Some md")
  case True
  with assms(1) obtain d where d: "c_md_data ctx = Some d" "data_fits md d" "c_pctx ctx = None"
    by (auto simp: ctx_usable_def)
  with evp.init_holds[OF d(2)] True show ?thesis
    by (auto simp: EVP_DigestInit_ex_def ctx_holds_def)
next
  case False
  obtain bs where bs: "malloc (md_ctx_size (evp_md md)) = Some bs" "length bs = md_ctx_size (evp_md md)"
    using assms(2) by (auto simp: gives_def)
  with evp.init_holds[OF evp.fresh_fits[OF bs(2)]] False assms(1) show ?thesis
    by (auto simp: EVP_DigestInit_ex_def ctx_holds_def ctx_usable_def)
qed

lemma DigestUpdate_holds:
  assumes "ctx_holds md m ctx" and "length x < SIZE_MOD"
  shows "\<exists>ctx'. EVP_DigestUpdate x ctx = (Some (), ctx') \<and> ctx_holds md (m @ x) ctx'"
  using assms evp.update_holds[OF _ assms(2)] by (fastforce simp: ctx_holds_def EVP_DigestUpdate_def)

lemma DigestFinal_ex_digest:
  assumes "ctx_holds md m ctx"
  shows "\<exists>ctx'. EVP_DigestFinal_ex ctx = (Some (evp_digest md m, md_size (evp_md md)), ctx') \<and>
    ctx_usable ctx' \<and> c_digest ctx' = Some md"
  using assms evp.final_digest[of md m] evp.size_max[of md]
  by (fastforce simp: ctx_holds_def ctx_usable_def EVP_DigestFinal_ex_def)

lemma copy_ex_holds:
  assumes "ctx_holds md m inp" and "ctx_usable out" and "gives malloc"
  shows "\<exists>out'. EVP_MD_CTX_copy_ex malloc (Some inp) out = (Some (), out') \<and> ctx_holds md m out'"
proof -
  obtain bs where "malloc (md_ctx_size (evp_md md)) = Some bs"
    using assms(3) by (auto simp: gives_def)
  with assms(1,2) show ?thesis
    by (auto simp: EVP_MD_CTX_copy_ex_def ctx_holds_def ctx_usable_def EVP_MD_CTX_cleanup_def sbind_def)
qed

text \<open>Without memory a copy fails, and leaves the target as it was.\<close>

lemma copy_ex_no_memory:
  assumes "ctx_holds md m inp" and "c_digest out \<noteq> Some md" and "malloc (md_ctx_size (evp_md md)) = None"
  shows "EVP_MD_CTX_copy_ex malloc (Some inp) out = (None, out)"
  using assms by (auto simp: EVP_MD_CTX_copy_ex_def ctx_holds_def)

lemma EVP_Digest_digest:
  assumes "gives malloc" and "length m < SIZE_MOD"
  shows "EVP_Digest malloc m (Some md) = Some (evp_digest md m, md_size (evp_md md))"
proof -
  obtain c1 where c1: "EVP_DigestInit_ex malloc (Some md) (EVP_MD_CTX_init :: unit evp_md_ctx) = (Some (), c1)" "ctx_holds md [] c1"
    using DigestInit_ex_holds[OF ctx_init_usable assms(1)] by blast
  from DigestUpdate_holds[OF c1(2) assms(2)] obtain c2 where c2: "EVP_DigestUpdate m c1 = (Some (), c2)" "ctx_holds md m c2" by auto
  from DigestFinal_ex_digest[OF c2(2)] c1(1) c2(1) show ?thesis by (auto simp: EVP_Digest_def sbind_def)
qed

end
