(* ===== verification/Hmac.thy ===== *)
theory Hmac
  imports Evp_Digest
begin

text \<open>
  HMAC (\<open>crypto/fipsmodule/hmac/hmac.c\<close>), against RFC 2104.

  A key is a list of bytes or the null pointer, which comes with length zero. Allocations are numbered
  within a call: \<open>mem k\<close> answers the \<open>k\<close>-th.
\<close>

section \<open>The code\<close>

record 'p hmac_ctx =
  h_md :: "EVP_MD option"
  h_md_ctx :: "'p evp_md_ctx"
  h_i_ctx :: "'p evp_md_ctx"
  h_o_ctx :: "'p evp_md_ctx"

definition HMAC_CTX_init :: "'p hmac_ctx" where
  "HMAC_CTX_init = \<lparr>h_md = None, h_md_ctx = EVP_MD_CTX_init, h_i_ctx = EVP_MD_CTX_init, h_o_ctx = EVP_MD_CTX_init\<rparr>"

text \<open>An operation on one of the three contexts.\<close>

definition on_md_ctx :: "('p evp_md_ctx, 'a) op \<Rightarrow> ('p hmac_ctx, 'a) op" where
  "on_md_ctx f ctx = (case f (h_md_ctx ctx) of (r, c) \<Rightarrow> (r, ctx\<lparr>h_md_ctx := c\<rparr>))"

definition on_i_ctx :: "('p evp_md_ctx, 'a) op \<Rightarrow> ('p hmac_ctx, 'a) op" where
  "on_i_ctx f ctx = (case f (h_i_ctx ctx) of (r, c) \<Rightarrow> (r, ctx\<lparr>h_i_ctx := c\<rparr>))"

definition on_o_ctx :: "('p evp_md_ctx, 'a) op \<Rightarrow> ('p hmac_ctx, 'a) op" where
  "on_o_ctx f ctx = (case f (h_o_ctx ctx) of (r, c) \<Rightarrow> (r, ctx\<lparr>h_o_ctx := c\<rparr>))"

definition HMAC_CTX_cleanup :: "('p hmac_ctx, unit) op" where
  "HMAC_CTX_cleanup = sbind (on_i_ctx EVP_MD_CTX_cleanup) (\<lambda>_. sbind (on_o_ctx EVP_MD_CTX_cleanup) (\<lambda>_.
     sbind (on_md_ctx EVP_MD_CTX_cleanup) (\<lambda>_ ctx. (Some (), HMAC_CTX_init))))"

definition HMAC_CTX_reset :: "('p hmac_ctx, unit) op" where
  "HMAC_CTX_reset = sbind HMAC_CTX_cleanup (\<lambda>_ ctx. (Some (), HMAC_CTX_init))"

text \<open>The key, or its digest when it is longer than a block, padded with zeros.\<close>

definition hmac_key_block :: "malloc \<Rightarrow> u8 list \<Rightarrow> EVP_MD \<Rightarrow> ('p hmac_ctx, u8 list) op" where
  "hmac_key_block malloc key md =
     (if EVP_MD_block_size md > EVP_MAX_MD_BLOCK_SIZE then fail
      else sbind
       (if EVP_MD_block_size md < length key then
          sbind (on_md_ctx (EVP_DigestInit_ex malloc (Some md))) (\<lambda>_.
          sbind (on_md_ctx (EVP_DigestUpdate key)) (\<lambda>_.
          sbind (on_md_ctx EVP_DigestFinal_ex) (\<lambda>(key_block, key_block_len). ret (take key_block_len key_block))))
        else ret key)
       (\<lambda>key_block. ret (key_block @ replicate (EVP_MAX_MD_BLOCK_SIZE - length key_block) 0)))"

definition hmac_set_key :: "(nat \<Rightarrow> malloc) \<Rightarrow> u8 list \<Rightarrow> EVP_MD \<Rightarrow> ('p hmac_ctx, unit) op" where
  "hmac_set_key mem key md =
     sbind (hmac_key_block (mem 0) key md) (\<lambda>key_block.
     sbind (on_i_ctx (EVP_DigestInit_ex (mem 1) (Some md))) (\<lambda>_.
     sbind (on_i_ctx (EVP_DigestUpdate (take (EVP_MD_block_size md) (map ((XOR) 0x36) key_block)))) (\<lambda>_.
     sbind (on_o_ctx (EVP_DigestInit_ex (mem 2) (Some md))) (\<lambda>_.
     sbind (on_o_ctx (EVP_DigestUpdate (take (EVP_MD_block_size md) (map ((XOR) 0x5c) key_block)))) (\<lambda>_ ctx.
     (Some (), ctx\<lparr>h_md := Some md\<rparr>))))))"

definition HMAC_Init_ex :: "(nat \<Rightarrow> malloc) \<Rightarrow> u8 list option \<Rightarrow> EVP_MD option \<Rightarrow> ('p hmac_ctx, unit) op" where
  "HMAC_Init_ex mem key md ctx =
     (let md = (if md = None then h_md ctx else md) in
      sbind
        (if md \<noteq> h_md ctx \<or> key \<noteq> None then
           (case md of
              None \<Rightarrow> fail
            | Some alg \<Rightarrow> hmac_set_key mem (case key of None \<Rightarrow> [] | Some k \<Rightarrow> k) alg)
         else ret ())
        (\<lambda>_ ctx. on_md_ctx (EVP_MD_CTX_copy_ex (mem 3) (Some (h_i_ctx ctx))) ctx) ctx)"

definition HMAC_Update :: "u8 list \<Rightarrow> ('p hmac_ctx, unit) op" where
  "HMAC_Update data = on_md_ctx (EVP_DigestUpdate data)"

text \<open>The result is the code and its length, which is stored where \<open>out_len\<close> points.\<close>

definition HMAC_Final :: "malloc \<Rightarrow> ('p hmac_ctx, u8 list \<times> nat) op" where
  "HMAC_Final malloc =
     sbind (on_md_ctx EVP_DigestFinal_ex) (\<lambda>(buf, i).
     sbind (\<lambda>ctx. on_md_ctx (EVP_MD_CTX_copy_ex malloc (Some (h_o_ctx ctx))) ctx) (\<lambda>_.
     sbind (on_md_ctx (EVP_DigestUpdate (take i buf))) (\<lambda>_.
     on_md_ctx EVP_DigestFinal_ex)))"

definition HMAC :: "(nat \<Rightarrow> malloc) \<Rightarrow> EVP_MD option \<Rightarrow> u8 list option \<Rightarrow> u8 list \<Rightarrow> (u8 list \<times> nat) option" where
  "HMAC mem alg key data = fst (sbind (HMAC_Init_ex mem key alg) (\<lambda>_. sbind (HMAC_Update data) (\<lambda>_.
     HMAC_Final (mem 4))) (HMAC_CTX_init :: unit hmac_ctx))"

definition HMAC_size :: "'p hmac_ctx \<Rightarrow> nat option" where
  "HMAC_size ctx = map_option EVP_MD_size (h_md ctx)"

definition HMAC_CTX_copy_ex :: "(nat \<Rightarrow> malloc) \<Rightarrow> 'p hmac_ctx \<Rightarrow> ('p hmac_ctx, unit) op" where
  "HMAC_CTX_copy_ex mem src =
     sbind (on_i_ctx (EVP_MD_CTX_copy_ex (mem 0) (Some (h_i_ctx src)))) (\<lambda>_.
     sbind (on_o_ctx (EVP_MD_CTX_copy_ex (mem 1) (Some (h_o_ctx src)))) (\<lambda>_.
     sbind (on_md_ctx (EVP_MD_CTX_copy_ex (mem 2) (Some (h_md_ctx src)))) (\<lambda>_ dest.
     (Some (), dest\<lparr>h_md := h_md src\<rparr>))))"

definition HMAC_Init :: "(nat \<Rightarrow> malloc) \<Rightarrow> u8 list option \<Rightarrow> EVP_MD option \<Rightarrow> ('p hmac_ctx, unit) op" where
  "HMAC_Init mem key md ctx =
     HMAC_Init_ex mem key md (if key \<noteq> None \<and> md \<noteq> None then HMAC_CTX_init else ctx)"

definition HMAC_CTX_copy :: "(nat \<Rightarrow> malloc) \<Rightarrow> 'p hmac_ctx \<Rightarrow> ('p hmac_ctx, unit) op" where
  "HMAC_CTX_copy mem src dest = HMAC_CTX_copy_ex mem src HMAC_CTX_init"

section \<open>RFC 2104\<close>

definition hmac_key :: "EVP_MD \<Rightarrow> u8 list \<Rightarrow> u8 list" where
  "hmac_key md key =
     (let B = EVP_MD_block_size md; k = (if length key > B then evp_digest md key else key)
      in k @ replicate (B - length k) 0)"

definition hmac_pad :: "EVP_MD \<Rightarrow> u8 \<Rightarrow> u8 list \<Rightarrow> u8 list" where
  "hmac_pad md byte key = map ((XOR) byte) (hmac_key md key)"

definition hmac :: "EVP_MD \<Rightarrow> u8 list \<Rightarrow> u8 list \<Rightarrow> u8 list" where
  "hmac md key m = evp_digest md (hmac_pad md 0x5c key @ evp_digest md (hmac_pad md 0x36 key @ m))"

section \<open>Contexts that hold a key\<close>

definition hmac_usable :: "'p hmac_ctx \<Rightarrow> bool" where
  "hmac_usable ctx \<longleftrightarrow> ctx_usable (h_md_ctx ctx) \<and> ctx_usable (h_i_ctx ctx) \<and> ctx_usable (h_o_ctx ctx)"

definition hmac_keyed :: "EVP_MD \<Rightarrow> u8 list \<Rightarrow> 'p hmac_ctx \<Rightarrow> bool" where
  "hmac_keyed md key ctx \<longleftrightarrow> h_md ctx = Some md \<and> ctx_usable (h_md_ctx ctx) \<and>
     ctx_holds md (hmac_pad md 0x36 key) (h_i_ctx ctx) \<and> ctx_holds md (hmac_pad md 0x5c key) (h_o_ctx ctx)"

definition hmac_running :: "EVP_MD \<Rightarrow> u8 list \<Rightarrow> u8 list \<Rightarrow> 'p hmac_ctx \<Rightarrow> bool" where
  "hmac_running md key m ctx \<longleftrightarrow> hmac_keyed md key ctx \<and> ctx_holds md (hmac_pad md 0x36 key @ m) (h_md_ctx ctx)"

lemma hmac_keyed_usable: "hmac_keyed md key ctx \<Longrightarrow> hmac_usable ctx"
  by (auto simp: hmac_keyed_def hmac_usable_def intro: ctx_holds_usable)

lemma hmac_init_usable [simp]: "hmac_usable HMAC_CTX_init"
  by (simp add: hmac_usable_def HMAC_CTX_init_def)

lemma length_hmac_pad: "length (hmac_pad md b key) = EVP_MD_block_size md"
  using evp.block_max[of md] by (auto simp: hmac_pad_def hmac_key_def Let_def length_evp_digest EVP_MD_block_size_def)

lemma block_size_small: "EVP_MD_block_size md < SIZE_MOD" "EVP_MD_size md < SIZE_MOD" "EVP_MD_size md > 0"
  by (cases md; simp add: EVP_MD_block_size_def EVP_MD_size_def SIZE_MOD_def DIGEST_LENGTHs)+

lemma hmac_key_block_ok:
  assumes "hmac_usable ctx" and "gives malloc" and "length key < SIZE_MOD"
  shows "\<exists>kb ctx'. hmac_key_block malloc key md ctx = (Some kb, ctx') \<and> take (EVP_MD_block_size md) kb = hmac_key md key \<and>
    ctx_usable (h_md_ctx ctx') \<and> h_i_ctx ctx' = h_i_ctx ctx \<and> h_o_ctx ctx' = h_o_ctx ctx"
proof -
  have bm: "\<not> EVP_MD_block_size md > EVP_MAX_MD_BLOCK_SIZE"
    using evp.block_max[of md] by (simp add: EVP_MD_block_size_def)
  have pad: "take (EVP_MD_block_size md) (k @ replicate (EVP_MAX_MD_BLOCK_SIZE - length k) 0) =
      k @ replicate (EVP_MD_block_size md - length k) 0"
    if "length k \<le> EVP_MD_block_size md" for k :: "u8 list"
    using that bm by simp
  show ?thesis
  proof (cases "EVP_MD_block_size md < length key")
    case True
    obtain c1 where c1: "EVP_DigestInit_ex malloc (Some md) (h_md_ctx ctx) = (Some (), c1)" "ctx_holds md [] c1"
      using DigestInit_ex_holds[OF _ assms(2)] assms(1) unfolding hmac_usable_def by blast
    from DigestUpdate_holds[OF c1(2) assms(3)] obtain c2 where
      c2: "EVP_DigestUpdate key c1 = (Some (), c2)" "ctx_holds md key c2" by auto
    from DigestFinal_ex_digest[OF c2(2)] obtain c3 where
      c3: "EVP_DigestFinal_ex c2 = (Some (evp_digest md key, md_size (evp_md md)), c3)" "ctx_usable c3" by auto
    have d: "length (evp_digest md key) \<le> EVP_MD_block_size md"
      using evp.block_max[of md] by (simp add: length_evp_digest EVP_MD_block_size_def)
    show ?thesis using True bm c1(1) c2(1) c3 pad[OF d] length_evp_digest[of md key]
      by (auto simp: hmac_key_block_def sbind_def on_md_ctx_def ret_def hmac_key_def Let_def)
  next
    case False
    then show ?thesis using bm pad[of key] assms(1)
      by (auto simp: hmac_key_block_def sbind_def ret_def hmac_key_def Let_def hmac_usable_def)
  qed
qed

lemma hmac_set_key_ok:
  assumes "hmac_usable ctx" and "\<forall>k. gives (mem k)" and "length key < SIZE_MOD"
  shows "\<exists>ctx'. hmac_set_key mem key md ctx = (Some (), ctx') \<and> hmac_keyed md key ctx'"
proof -
  have g: "gives (mem k)" for k using assms(2) by blast
  from hmac_key_block_ok[OF assms(1) g assms(3), of 0 md] obtain kb c1 where
    c1: "hmac_key_block (mem 0) key md ctx = (Some kb, c1)" "take (EVP_MD_block_size md) kb = hmac_key md key"
      "ctx_usable (h_md_ctx c1)" "h_i_ctx c1 = h_i_ctx ctx" "h_o_ctx c1 = h_o_ctx ctx" by blast
  have "ctx_usable (h_i_ctx c1)" "ctx_usable (h_o_ctx c1)" using assms(1) c1(4,5) by (simp_all add: hmac_usable_def)
  then obtain i1 o1 where i1: "EVP_DigestInit_ex (mem 1) (Some md) (h_i_ctx c1) = (Some (), i1)" "ctx_holds md [] i1"
    and o1: "EVP_DigestInit_ex (mem 2) (Some md) (h_o_ctx c1) = (Some (), o1)" "ctx_holds md [] o1"
    using DigestInit_ex_holds[OF _ g] by metis
  have p: "take (EVP_MD_block_size md) (map ((XOR) b) kb) = hmac_pad md b key" for b
    using c1(2) by (simp add: hmac_pad_def take_map)
  have l: "length (hmac_pad md b key) < SIZE_MOD" for b
    by (simp add: length_hmac_pad block_size_small)
  from DigestUpdate_holds[OF i1(2) l, of "0x36"] DigestUpdate_holds[OF o1(2) l, of "0x5c"] obtain i2 o2 where
    i2: "EVP_DigestUpdate (hmac_pad md 0x36 key) i1 = (Some (), i2)" "ctx_holds md (hmac_pad md 0x36 key) i2" and
    o2: "EVP_DigestUpdate (hmac_pad md 0x5c key) o1 = (Some (), o2)" "ctx_holds md (hmac_pad md 0x5c key) o2" by auto
  show ?thesis using c1 i1(1) o1(1) i2 o2 p
    by (auto simp: hmac_set_key_def sbind_def on_i_ctx_def on_o_ctx_def hmac_keyed_def)
qed

text \<open>Rewinding: with the null pointer for the key and the algorithm.\<close>

lemma HMAC_Init_ex_rewind:
  assumes "hmac_keyed md key ctx" and "gives (mem 3)" and "alg = None \<or> alg = Some md"
  shows "\<exists>ctx'. HMAC_Init_ex mem None alg ctx = (Some (), ctx') \<and> hmac_running md key [] ctx'"
proof -
  from assms(1) have k: "h_md ctx = Some md" "ctx_usable (h_md_ctx ctx)"
    "ctx_holds md (hmac_pad md 0x36 key) (h_i_ctx ctx)" by (simp_all add: hmac_keyed_def)
  from copy_ex_holds[OF k(3,2) assms(2)] obtain c where
    "EVP_MD_CTX_copy_ex (mem 3) (Some (h_i_ctx ctx)) (h_md_ctx ctx) = (Some (), c)"
    "ctx_holds md (hmac_pad md 0x36 key) c" by blast
  with k(1) assms(1,3) show ?thesis
    by (auto simp: HMAC_Init_ex_def Let_def sbind_def ret_def on_md_ctx_def hmac_running_def hmac_keyed_def
        intro: ctx_holds_usable)
qed

lemma HMAC_Init_ex_key:
  assumes "hmac_usable ctx" and "\<forall>k. gives (mem k)" and "length key < SIZE_MOD"
    and "alg = Some md \<or> alg = None \<and> h_md ctx = Some md"
  shows "\<exists>ctx'. HMAC_Init_ex mem (Some key) alg ctx = (Some (), ctx') \<and> hmac_running md key [] ctx'"
proof -
  from hmac_set_key_ok[OF assms(1-3), of md] obtain c1 where
    c1: "hmac_set_key mem key md ctx = (Some (), c1)" "hmac_keyed md key c1" by blast
  from HMAC_Init_ex_rewind[OF c1(2), of mem None] assms(2) obtain c2 where
    "HMAC_Init_ex mem None None c1 = (Some (), c2)" "hmac_running md key [] c2" by auto
  with c1 assms(4) show ?thesis
    by (auto simp: HMAC_Init_ex_def Let_def sbind_def ret_def)
qed

text \<open>The null pointer is the empty key where the algorithm changes.\<close>

lemma HMAC_Init_ex_no_key:
  assumes "hmac_usable ctx" and "\<forall>k. gives (mem k)" and "h_md ctx \<noteq> Some md"
  shows "\<exists>ctx'. HMAC_Init_ex mem None (Some md) ctx = (Some (), ctx') \<and> hmac_running md [] [] ctx'"
proof -
  from hmac_set_key_ok[OF assms(1,2), of "[]" md] obtain c1 where
    c1: "hmac_set_key mem [] md ctx = (Some (), c1)" "hmac_keyed md [] c1" by (auto simp: SIZE_MOD_def)
  from HMAC_Init_ex_rewind[OF c1(2), of mem None] assms(2) obtain c2 where
    "HMAC_Init_ex mem None None c1 = (Some (), c2)" "hmac_running md [] [] c2" by auto
  with c1 assms(3) show ?thesis
    by (auto simp: HMAC_Init_ex_def Let_def sbind_def ret_def)
qed

lemma HMAC_Update_running:
  assumes "hmac_running md key m ctx" and "length x < SIZE_MOD"
  shows "\<exists>ctx'. HMAC_Update x ctx = (Some (), ctx') \<and> hmac_running md key (m @ x) ctx'"
proof -
  from assms(1) have "ctx_holds md (hmac_pad md 0x36 key @ m) (h_md_ctx ctx)" by (simp add: hmac_running_def)
  from DigestUpdate_holds[OF this assms(2)] obtain c where
    "EVP_DigestUpdate x (h_md_ctx ctx) = (Some (), c)" "ctx_holds md (hmac_pad md 0x36 key @ m @ x) c" by auto
  with assms(1) show ?thesis
    by (auto simp: HMAC_Update_def on_md_ctx_def hmac_running_def hmac_keyed_def intro: ctx_holds_usable)
qed

lemma HMAC_Final_digest:
  assumes "hmac_running md key m ctx" and "gives malloc"
  shows "\<exists>ctx'. HMAC_Final malloc ctx = (Some (hmac md key m, EVP_MD_size md), ctx') \<and> hmac_keyed md key ctx'"
proof -
  let ?d = "evp_digest md (hmac_pad md 0x36 key @ m)"
  from assms(1) have h: "ctx_holds md (hmac_pad md 0x36 key @ m) (h_md_ctx ctx)"
    "ctx_holds md (hmac_pad md 0x5c key) (h_o_ctx ctx)" "hmac_keyed md key ctx" by (auto simp: hmac_running_def hmac_keyed_def)
  from DigestFinal_ex_digest[OF h(1)] obtain c1 where
    c1: "EVP_DigestFinal_ex (h_md_ctx ctx) = (Some (?d, md_size (evp_md md)), c1)" "ctx_usable c1" by blast
  from copy_ex_holds[OF h(2) c1(2) assms(2)] obtain c2 where
    c2: "EVP_MD_CTX_copy_ex malloc (Some (h_o_ctx ctx)) c1 = (Some (), c2)" "ctx_holds md (hmac_pad md 0x5c key) c2" by blast
  have l: "length ?d = md_size (evp_md md)" "length ?d < SIZE_MOD"
    using block_size_small(2)[of md] by (simp_all add: length_evp_digest EVP_MD_size_def)
  from DigestUpdate_holds[OF c2(2) l(2)] obtain c3 where
    c3: "EVP_DigestUpdate ?d c2 = (Some (), c3)" "ctx_holds md (hmac_pad md 0x5c key @ ?d) c3" by blast
  from DigestFinal_ex_digest[OF c3(2)] obtain c4 where
    c4: "EVP_DigestFinal_ex c3 = (Some (hmac md key m, md_size (evp_md md)), c4)" "ctx_usable c4"
    by (auto simp: hmac_def)
  show ?thesis using c1(1) c2(1) c3(1) c4 l(1) h(3)
    by (auto simp: HMAC_Final_def sbind_def on_md_ctx_def EVP_MD_size_def hmac_keyed_def)
qed

end
