(* ===== verification/Key_Derivation.thy ===== *)
theory Key_Derivation
  imports Hmac
begin

text \<open>
  HKDF (\<open>crypto/hkdf/hkdf.c\<close>, RFC 5869) and PBKDF2 (\<open>crypto/evp/pbkdf.c\<close>, RFC 8018) on top of HMAC.

  They see of HMAC that it can be rewound, fed and finished: the locale \<open>mac\<close>, which \<open>Hmac\<close> provides.
  Allocations are numbered by the round of the loop and within the call. A buffer for a digest is the
  bytes that HMAC wrote to it; no others are read.
\<close>

section \<open>A message authentication code as an interface\<close>

locale mac =
  fixes rewind :: "'e \<Rightarrow> ('s, unit) op" and update :: "u8 list \<Rightarrow> ('s, unit) op"
    and finish :: "'e \<Rightarrow> ('s, u8 list \<times> nat) op" and good :: "'e \<Rightarrow> bool"
    and F :: "u8 list \<Rightarrow> u8 list" and n :: nat
    and keyed :: "'s \<Rightarrow> bool" and running :: "u8 list \<Rightarrow> 's \<Rightarrow> bool"
  assumes rewind_running: "keyed s \<Longrightarrow> good e \<Longrightarrow> \<exists>s'. rewind e s = (Some (), s') \<and> running [] s'"
    and update_running: "running m s \<Longrightarrow> length x < SIZE_MOD \<Longrightarrow> \<exists>s'. update x s = (Some (), s') \<and> running (m @ x) s'"
    and finish_code: "running m s \<Longrightarrow> good e \<Longrightarrow> \<exists>s'. finish e s = (Some (F m, n), s') \<and> keyed s'"
    and length_code: "length (F m) = n"
begin

definition feed :: "'e \<Rightarrow> u8 list list \<Rightarrow> ('s, u8 list \<times> nat) op" where
  "feed e xs = foldr (\<lambda>x p. sbind (update x) (\<lambda>_. p)) xs (finish e)"

lemma feed_code:
  "running m s \<Longrightarrow> good e \<Longrightarrow> \<forall>x\<in>set xs. length x < SIZE_MOD \<Longrightarrow>
    \<exists>s'. feed e xs s = (Some (F (m @ concat xs), n), s') \<and> keyed s'"
proof (induction xs arbitrary: m s)
  case Nil
  then show ?case using finish_code by (simp add: feed_def)
next
  case (Cons x xs)
  from update_running[OF Cons.prems(1), of x] Cons.prems(3) obtain s1 where
    s1: "update x s = (Some (), s1)" "running (m @ x) s1" by auto
  with Cons.IH[OF s1(2) Cons.prems(2)] Cons.prems(3) show ?case by (simp add: feed_def sbind_def)
qed

lemma rewound_code:
  assumes "keyed s" and "good e" and "\<forall>x\<in>set xs. length x < SIZE_MOD"
  shows "\<exists>s'. sbind (rewind e) (\<lambda>_. feed e xs) s = (Some (F (concat xs), n), s') \<and> keyed s'"
  using rewind_running[OF assms(1,2)] feed_code[OF _ assms(2,3)] by (fastforce simp: sbind_def)

end

interpretation hmac: mac "\<lambda>mem. HMAC_Init_ex mem None None" HMAC_Update "\<lambda>mem. HMAC_Final (mem 4)"
  "\<lambda>mem. \<forall>k. gives (mem k)" "hmac md key" "EVP_MD_size md" "hmac_keyed md key" "hmac_running md key" for md key
proof unfold_locales
  show "length (hmac md key m) = EVP_MD_size md" for m
    by (simp add: hmac_def length_evp_digest EVP_MD_size_def)
qed (use HMAC_Init_ex_rewind HMAC_Update_running HMAC_Final_digest in blast)+

section \<open>HKDF\<close>

definition HKDF_extract ::
  "(nat \<Rightarrow> malloc) \<Rightarrow> EVP_MD option \<Rightarrow> u8 list \<Rightarrow> u8 list option \<Rightarrow> (u8 list \<times> nat) option" where
  "HKDF_extract mem digest secret salt =
     (case HMAC mem digest salt secret of
        None \<Rightarrow> None
      | Some (out_key, len) \<Rightarrow> if Some len = map_option EVP_MD_size digest then Some (out_key, len) else None)"

text \<open>A round computes the next block; the loop is \<open>k\<close> rounds before its end, and \<open>out\<close> is what was
  copied to \<open>out_key\<close>, \<open>done\<close> bytes.\<close>

definition hkdf_block :: "(nat \<Rightarrow> malloc) \<Rightarrow> nat \<Rightarrow> u8 list \<Rightarrow> nat \<Rightarrow> u8 list \<Rightarrow> ('p hmac_ctx, u8 list \<times> nat) op" where
  "hkdf_block mem digest_len info i previous =
     sbind (if i \<noteq> 0 then sbind (HMAC_Init_ex mem None None) (\<lambda>_. HMAC_Update (take digest_len previous)) else ret ()) (\<lambda>_.
     sbind (HMAC_Update info) (\<lambda>_.
     sbind (HMAC_Update [of_nat (i + 1)]) (\<lambda>_.
     HMAC_Final (mem 4))))"

primrec hkdf_loop ::
  "(nat \<Rightarrow> nat \<Rightarrow> malloc) \<Rightarrow> nat \<Rightarrow> nat \<Rightarrow> u8 list \<Rightarrow> nat \<Rightarrow> nat \<Rightarrow> u8 list \<Rightarrow> u8 list \<Rightarrow> ('p hmac_ctx, u8 list) op" where
  "hkdf_loop mem digest_len out_len info 0 i previous out = ret out"
| "hkdf_loop mem digest_len out_len info (Suc k) i previous out =
     sbind (hkdf_block (mem i) digest_len info i previous) (\<lambda>(previous, _).
     let todo = (if length out + digest_len > out_len then out_len - length out else digest_len)
     in hkdf_loop mem digest_len out_len info k (i + 1) previous (out @ take todo previous))"

definition HKDF_expand ::
  "(nat \<Rightarrow> nat \<Rightarrow> malloc) \<Rightarrow> nat \<Rightarrow> EVP_MD \<Rightarrow> u8 list \<Rightarrow> u8 list \<Rightarrow> u8 list option" where
  "HKDF_expand mem out_len digest prk info =
     (let digest_len = EVP_MD_size digest;
          n = (out_len + digest_len + SIZE_MOD - 1) mod SIZE_MOD div digest_len
      in if (out_len + digest_len) mod SIZE_MOD < out_len \<or> n > 255 then None
         else fst (sbind (HMAC_Init_ex (mem 0) (Some prk) (Some digest)) (\<lambda>_. hkdf_loop mem digest_len out_len info n 0 [] [])
                (HMAC_CTX_init :: unit hmac_ctx)))"

definition HKDF ::
  "(nat \<Rightarrow> nat \<Rightarrow> malloc) \<Rightarrow> nat \<Rightarrow> EVP_MD \<Rightarrow> u8 list \<Rightarrow> u8 list option \<Rightarrow> u8 list \<Rightarrow> u8 list option" where
  "HKDF mem out_len digest secret salt info =
     (case HKDF_extract (mem 0) (Some digest) secret salt of
        None \<Rightarrow> None
      | Some (prk, prk_len) \<Rightarrow> HKDF_expand (\<lambda>i. mem (i + 1)) out_len digest (take prk_len prk) info)"

subsection \<open>RFC 5869\<close>

primrec hkdf_T :: "EVP_MD \<Rightarrow> u8 list \<Rightarrow> u8 list \<Rightarrow> nat \<Rightarrow> u8 list" where
  "hkdf_T md prk info 0 = []"
| "hkdf_T md prk info (Suc k) = hmac md prk (hkdf_T md prk info k @ info @ [of_nat (Suc k)])"

definition hkdf_okm :: "EVP_MD \<Rightarrow> u8 list \<Rightarrow> u8 list \<Rightarrow> nat \<Rightarrow> u8 list" where
  "hkdf_okm md prk info L =
     (let N = (L + EVP_MD_size md - 1) div EVP_MD_size md in take L (concat (map (hkdf_T md prk info) [1..<Suc N])))"

lemma length_hkdf_T: "length (hkdf_T md prk info k) = (if k = 0 then 0 else EVP_MD_size md)"
  by (cases k) (simp_all add: hmac.length_code)

lemma length_hkdf_Ts: "length (concat (map (hkdf_T md prk info) [1..<Suc i])) = i * EVP_MD_size md"
  by (induction i) (simp_all add: length_hkdf_T del: hkdf_T.simps)

lemma hkdf_block_T:
  assumes "if i = 0 then hmac_running md prk [] s else hmac_keyed md prk s" and "\<forall>k. gives (mem k)"
    and "length info < SIZE_MOD"
  shows "\<exists>s'. hkdf_block mem (EVP_MD_size md) info i (hkdf_T md prk info i) s =
    (Some (hkdf_T md prk info (Suc i), EVP_MD_size md), s') \<and> hmac_keyed md prk s'"
proof -
  note f = hmac.feed_code[OF _ assms(2), of _ _ _ _ "[info, [of_nat (i + 1)]]"]
  show ?thesis
  proof (cases "i = 0")
    case True
    with assms(1) have "hmac_running md prk [] s" by simp
    from f[OF this] True assms(3) show ?thesis
      by (auto simp: hkdf_block_def hmac.feed_def sbind_def ret_def SIZE_MOD_def)
  next
    case False
    with assms(1) have k: "hmac_keyed md prk s" by simp
    have l: "length (hkdf_T md prk info i) < SIZE_MOD" "take (EVP_MD_size md) (hkdf_T md prk info i) = hkdf_T md prk info i"
      using False block_size_small(2)[of md] by (simp_all add: length_hkdf_T)
    from hmac.rewound_code[OF k assms(2), of "[hkdf_T md prk info i, info, [of_nat (i + 1)]]"] False l assms(3)
    show ?thesis by (auto simp: hkdf_block_def hmac.feed_def sbind_assoc SIZE_MOD_def)
  qed
qed

lemma hkdf_loop_okm:
  assumes "if i = 0 then hmac_running md prk [] s else hmac_keyed md prk s" and "\<forall>i k. gives (mem i k)"
    and "length info < SIZE_MOD" and "(i + k - 1) * EVP_MD_size md < L" and "0 < i + k"
  shows "fst (hkdf_loop mem (EVP_MD_size md) L info k i (hkdf_T md prk info i)
      (take L (concat (map (hkdf_T md prk info) [1..<Suc i]))) s) =
    Some (take L (concat (map (hkdf_T md prk info) [1..<Suc (i + k)])))"
  using assms(1,4,5)
proof (induction k arbitrary: i s)
  case 0
  then show ?case by (simp add: ret_def)
next
  case (Suc k)
  let ?C = "concat (map (hkdf_T md prk info) [1..<Suc i])" and ?T = "hkdf_T md prk info (Suc i)" and ?h = "EVP_MD_size md"
  have C: "length ?C = i * ?h" and T: "length ?T = ?h" by (simp_all only: length_hkdf_Ts length_hkdf_T) simp_all
  have "i * ?h \<le> (i + Suc k - 1) * ?h" by (intro mult_right_mono) simp_all
  then have i: "i * ?h < L" using Suc.prems(2) by linarith
  then have t: "take L ?C = ?C" using C by simp
  have out: "take L ?C @ take (if length (take L ?C) + ?h > L then L - length (take L ?C) else ?h) ?T =
      take L (concat (map (hkdf_T md prk info) [1..<Suc (Suc i)]))"
    unfolding t using C T i by (auto simp del: hkdf_T.simps)
  from hkdf_block_T[OF Suc.prems(1) _ assms(3), of "mem i"] assms(2) obtain s' where
    r: "hkdf_block (mem i) ?h info i (hkdf_T md prk info i) s = (Some (?T, ?h), s')" "hmac_keyed md prk s'" by blast
  have "hkdf_loop mem ?h L info (Suc k) i (hkdf_T md prk info i) (take L ?C) s =
      hkdf_loop mem ?h L info k (Suc i) ?T (take L (concat (map (hkdf_T md prk info) [1..<Suc (Suc i)]))) s'"
    using r(1) by (simp only: hkdf_loop.simps sbind_def prod.case option.case Let_def out Suc_eq_plus1[symmetric])
  with Suc.IH[of "Suc i" s'] r(2) Suc.prems(2) show ?case by simp
qed

lemma HKDF_expand_okm:
  assumes "\<forall>i k. gives (mem i k)" and "length prk < SIZE_MOD" and "length info < SIZE_MOD" and "L < SIZE_MOD"
  shows "HKDF_expand mem L md prk info =
    (if (L + EVP_MD_size md - 1) div EVP_MD_size md \<le> 255 then Some (hkdf_okm md prk info L) else None)"
proof -
  let ?h = "EVP_MD_size md" and ?N = "(L + EVP_MD_size md - 1) div EVP_MD_size md"
  have h: "0 < ?h" "?h \<le> 64" using block_size_small[of md] evp.size_max[of md]
    by (simp_all add: EVP_MD_size_def EVP_MAX_MD_SIZE_def)
  obtain s where s: "HMAC_Init_ex (mem 0) (Some prk) (Some md) (HMAC_CTX_init :: unit hmac_ctx) = (Some (), s)"
    "hmac_running md prk [] s"
    using HMAC_Init_ex_key[of "HMAC_CTX_init :: unit hmac_ctx" "mem 0" prk "Some md" md] assms(1,2) by auto
  show ?thesis
  proof (cases "L + ?h < SIZE_MOD")
    case True
    have m: "(L + ?h) mod SIZE_MOD = L + ?h" using True by simp
    have "L + ?h + SIZE_MOD - 1 = (L + ?h - 1) + SIZE_MOD" "L + ?h - 1 < SIZE_MOD" using h True by simp_all
    then have n: "(L + ?h + SIZE_MOD - 1) mod SIZE_MOD = L + ?h - 1" by (metis mod_add_self2 mod_less)
    have e: "HKDF_expand mem L md prk info =
        (if ?N \<le> 255 then fst (hkdf_loop mem ?h L info ?N 0 [] [] s) else None)"
      unfolding HKDF_expand_def Let_def n m sbind_def s(1) by (simp add: not_less)
    have "fst (hkdf_loop mem ?h L info ?N 0 [] [] s) = Some (hkdf_okm md prk info L)"
    proof (cases "L = 0")
      case True
      then have "?N = 0" using h by simp
      with True show ?thesis by (simp add: ret_def hkdf_okm_def)
    next
      case False
      have N: "0 < ?N" using False h by (simp add: div_greater_zero_iff)
      have "?N * ?h \<le> L + ?h - 1" by (rule div_times_less_eq_dividend)
      moreover have "(?N - 1) * ?h = ?N * ?h - ?h" by (simp only: diff_mult_distrib nat_mult_1)
      ultimately have "(?N - 1) * ?h < L" using False h by linarith
      from hkdf_loop_okm[of 0 md prk s mem info ?N L] this N s(2) assms(1,3) show ?thesis
        by (simp add: hkdf_okm_def Let_def)
    qed
    with e show ?thesis by simp
  next
    case False
    have "(L + ?h) mod SIZE_MOD = L + ?h - SIZE_MOD"
      using False assms(4) h by (simp add: mod_if SIZE_MOD_def)
    then have "(L + ?h) mod SIZE_MOD < L" using h assms(4) False by (simp add: SIZE_MOD_def)
    moreover have "SIZE_MOD - 1 \<le> L + ?h - 1" using False by simp
    then have "(SIZE_MOD - 1) div 64 \<le> ?N"
      using h div_le_mono[of "SIZE_MOD - 1" "L + ?h - 1" "?h"] div_le_mono2[of ?h 64 "SIZE_MOD - 1"] by linarith
    then have "\<not> ?N \<le> 255" by (simp add: SIZE_MOD_def)
    ultimately show ?thesis by (simp add: HKDF_expand_def)
  qed
qed

lemma HMAC_Init_any_key:
  assumes "\<forall>k. gives (mem k)" and "length k < SIZE_MOD" and "key = Some k \<or> key = None \<and> k = []"
  shows "\<exists>s. HMAC_Init_ex mem key (Some md) (HMAC_CTX_init :: unit hmac_ctx) = (Some (), s) \<and> hmac_running md k [] s"
proof (cases "key = None")
  case True
  have "h_md (HMAC_CTX_init :: unit hmac_ctx) \<noteq> Some md" by (simp add: HMAC_CTX_init_def)
  with True assms HMAC_Init_ex_no_key[of "HMAC_CTX_init :: unit hmac_ctx" mem md] show ?thesis by simp
next
  case False
  then show ?thesis using assms HMAC_Init_ex_key[of "HMAC_CTX_init :: unit hmac_ctx" mem k "Some md" md] by auto
qed

lemma HMAC_code:
  assumes "\<forall>k. gives (mem k)" and "length k < SIZE_MOD" and "length m < SIZE_MOD"
    and "key = Some k \<or> key = None \<and> k = []"
  shows "HMAC mem (Some md) key m = Some (hmac md k m, EVP_MD_size md)"
proof -
  from HMAC_Init_any_key[OF assms(1,2,4)] obtain s where
    s: "HMAC_Init_ex mem key (Some md) (HMAC_CTX_init :: unit hmac_ctx) = (Some (), s)" "hmac_running md k [] s" by blast
  from hmac.feed_code[OF s(2) assms(1), of "[m]"] assms(3) s(1) show ?thesis
    by (auto simp: HMAC_def hmac.feed_def sbind_def split: prod.splits option.splits)
qed

text \<open>A missing salt stands for as many zeros as the digest is long.\<close>

lemma hmac_zero_salt: "hmac md (replicate (EVP_MD_size md) 0) m = hmac md [] m"
proof -
  have "EVP_MD_size md \<le> EVP_MD_block_size md"
    using evp.block_max[of md] by (simp add: EVP_MD_size_def EVP_MD_block_size_def)
  then have "hmac_key md (replicate (EVP_MD_size md) 0) = hmac_key md []"
    by (simp add: hmac_key_def Let_def flip: replicate_add)
  then show ?thesis by (simp add: hmac_def hmac_pad_def)
qed

lemma HKDF_okm:
  assumes "\<forall>i k. gives (mem i k)" and "length secret < SIZE_MOD" and "length info < SIZE_MOD" and "L < SIZE_MOD"
    and "length salt < SIZE_MOD" and "s = Some salt \<or> s = None \<and> salt = replicate (EVP_MD_size md) 0"
  shows "HKDF mem L md secret s info =
    (if (L + EVP_MD_size md - 1) div EVP_MD_size md \<le> 255 then Some (hkdf_okm md (hmac md salt secret) info L) else None)"
proof -
  have g: "\<forall>k. gives (mem 0 k)" "\<forall>i k. gives (mem (i + 1) k)" using assms(1) by blast+
  have "HMAC (mem 0) (Some md) s secret = Some (hmac md salt secret, EVP_MD_size md)"
  proof (cases "s = None")
    case True
    with assms(6) have e: "hmac md salt secret = hmac md [] secret" by (simp add: hmac_zero_salt)
    show ?thesis unfolding e by (rule HMAC_code[OF g(1)]) (use True assms(2) in \<open>simp_all add: SIZE_MOD_def\<close>)
  next
    case False
    then show ?thesis using HMAC_code[OF g(1) assms(5,2), of s md] assms(6) by auto
  qed
  then show ?thesis
    using HKDF_expand_okm[OF g(2) _ assms(3,4), of "hmac md salt secret" md] block_size_small(2)[of md]
    by (simp add: HKDF_def HKDF_extract_def hmac.length_code)
qed

section \<open>PBKDF2\<close>

text \<open>The state is the context and what was written to \<open>out_key\<close>.\<close>

definition on_hctx :: "('p hmac_ctx, 'a) op \<Rightarrow> ('p hmac_ctx \<times> u8 list, 'a) op" where
  "on_hctx f = (\<lambda>(ctx, out). case f ctx of (r, ctx) \<Rightarrow> (r, (ctx, out)))"

text \<open>One call of HMAC in the loops, on the given parts.\<close>

definition pbkdf2_prf :: "(nat \<Rightarrow> malloc) \<Rightarrow> u8 list list \<Rightarrow> ('p hmac_ctx \<times> u8 list, u8 list \<times> nat) op" where
  "pbkdf2_prf mem xs = on_hctx (sbind (HMAC_Init_ex mem None None)
     (\<lambda>_. foldr (\<lambda>x p. sbind (HMAC_Update x) (\<lambda>_. p)) xs (HMAC_Final (mem 4))))"

text \<open>The inner loop, \<open>k\<close> rounds before its end: the last \<open>todo\<close> bytes of the output are combined with
  the next digest.\<close>

primrec pbkdf2_iterate ::
  "(nat \<Rightarrow> nat \<Rightarrow> malloc) \<Rightarrow> nat \<Rightarrow> nat \<Rightarrow> nat \<Rightarrow> nat \<Rightarrow> u8 list \<Rightarrow> ('p hmac_ctx \<times> u8 list, unit) op" where
  "pbkdf2_iterate mem md_len todo 0 j digest_tmp = ret ()"
| "pbkdf2_iterate mem md_len todo (Suc k) j digest_tmp =
     sbind (pbkdf2_prf (mem j) [take md_len digest_tmp]) (\<lambda>(digest_tmp, _).
     sbind (\<lambda>(ctx, out). (Some (), (ctx,
       take (length out - todo) out @ map2 (XOR) (drop (length out - todo) out) (take todo digest_tmp)))) (\<lambda>_.
     pbkdf2_iterate mem md_len todo k (j + 1) digest_tmp))"

definition pbkdf2_i_buf :: "u32 \<Rightarrow> u8 list" where
  "pbkdf2_i_buf i = [ucast (drop_bit 24 i AND 0xff), ucast (drop_bit 16 i AND 0xff), ucast (drop_bit 8 i AND 0xff), ucast (i AND 0xff)]"

function pbkdf2_loop ::
  "(u32 \<Rightarrow> nat \<Rightarrow> nat \<Rightarrow> malloc) \<Rightarrow> u8 list \<Rightarrow> u32 \<Rightarrow> EVP_MD \<Rightarrow> u32 \<Rightarrow> nat \<Rightarrow> ('p hmac_ctx \<times> u8 list, unit) op" where
  "pbkdf2_loop mem salt iterations digest i key_len =
     (if key_len = 0 then ret ()
      else let md_len = EVP_MD_size digest; todo = (if md_len > key_len then key_len else md_len) in
        sbind (pbkdf2_prf (mem i 0) [salt, pbkdf2_i_buf i]) (\<lambda>(digest_tmp, _).
        sbind (\<lambda>(ctx, out). (Some (), (ctx, out @ take todo digest_tmp))) (\<lambda>_.
        sbind (pbkdf2_iterate (mem i) md_len todo (unat iterations - 1) 1 digest_tmp) (\<lambda>_.
        pbkdf2_loop mem salt iterations digest (i + 1) (key_len - todo)))))"
  by pat_completeness auto
termination by (relation "measure (\<lambda>(mem, salt, iterations, digest, i, key_len). key_len)")
    (use block_size_small(3) in \<open>auto split: if_splits\<close>)

declare pbkdf2_loop.simps [simp del]

text \<open>The result, and what \<open>out_key\<close> then holds.\<close>

definition PKCS5_PBKDF2_HMAC ::
  "(u32 \<Rightarrow> nat \<Rightarrow> nat \<Rightarrow> malloc) \<Rightarrow> u8 list option \<Rightarrow> u8 list \<Rightarrow> u32 \<Rightarrow> EVP_MD \<Rightarrow> nat \<Rightarrow> bool \<times> u8 list" where
  "PKCS5_PBKDF2_HMAC mem password salt iterations digest key_len =
     (case sbind (on_hctx (HMAC_Init_ex (mem 0 0) password (Some digest)))
         (\<lambda>_. pbkdf2_loop mem salt iterations digest 1 key_len) (HMAC_CTX_init :: unit hmac_ctx, []) of
        (r, (ctx, out)) \<Rightarrow> (r \<noteq> None \<and> iterations \<noteq> 0, out))"

definition PKCS5_PBKDF2_HMAC_SHA1 ::
  "(u32 \<Rightarrow> nat \<Rightarrow> nat \<Rightarrow> malloc) \<Rightarrow> u8 list option \<Rightarrow> u8 list \<Rightarrow> u32 \<Rightarrow> nat \<Rightarrow> bool \<times> u8 list" where
  "PKCS5_PBKDF2_HMAC_SHA1 mem password salt iterations key_len =
     PKCS5_PBKDF2_HMAC mem password salt iterations EVP_sha1 key_len"

subsection \<open>RFC 8018\<close>

primrec pbkdf2_U :: "EVP_MD \<Rightarrow> u8 list \<Rightarrow> u8 list \<Rightarrow> u32 \<Rightarrow> nat \<Rightarrow> u8 list" where
  "pbkdf2_U md P S i 0 = hmac md P (S @ be_bytes 4 (ucast i))"
| "pbkdf2_U md P S i (Suc j) = hmac md P (pbkdf2_U md P S i j)"

primrec pbkdf2_F :: "EVP_MD \<Rightarrow> u8 list \<Rightarrow> u8 list \<Rightarrow> u32 \<Rightarrow> nat \<Rightarrow> u8 list" where
  "pbkdf2_F md P S i 0 = pbkdf2_U md P S i 0"
| "pbkdf2_F md P S i (Suc j) = map2 (XOR) (pbkdf2_F md P S i j) (pbkdf2_U md P S i (Suc j))"

text \<open>\<open>c\<close> iterations; the blocks are numbered from one.\<close>

definition pbkdf2_dk :: "EVP_MD \<Rightarrow> u8 list \<Rightarrow> u8 list \<Rightarrow> nat \<Rightarrow> nat \<Rightarrow> u8 list" where
  "pbkdf2_dk md P S c dkLen =
     take dkLen (concat (map (\<lambda>i. pbkdf2_F md P S (of_nat i) (c - 1)) [1..<Suc ((dkLen + EVP_MD_size md - 1) div EVP_MD_size md)]))"

lemma length_pbkdf2_U: "length (pbkdf2_U md P S i j) = EVP_MD_size md"
  by (cases j) (simp_all add: hmac.length_code)

lemma length_pbkdf2_F: "length (pbkdf2_F md P S i j) = EVP_MD_size md"
  by (induction j) (simp_all add: length_pbkdf2_U del: pbkdf2_U.simps)

lemma i_buf_bytes: "pbkdf2_i_buf i = be_bytes 4 (ucast i)"
proof -
  have n: "(4::nat) = Suc (Suc (Suc (Suc 0)))" by simp
  have b: "ucast (w AND 0xff) = (ucast w :: u8)" for w :: u32
    by (rule bit_word_eqI) (auto simp: bit_simps bit_literals)
  show ?thesis unfolding pbkdf2_i_buf_def n be_bytes_Cons b
    by simp (intro conjI bit_word_eqI; auto simp: bit_simps dest: bit_imp_le_length)
qed

lemma pbkdf2_prf_code:
  assumes "hmac_keyed md P ctx" and "\<forall>k. gives (mem k)" and "\<forall>x\<in>set xs. length x < SIZE_MOD"
  shows "\<exists>ctx'. hmac_keyed md P ctx' \<and>
    (\<forall>out. pbkdf2_prf mem xs (ctx, out) = (Some (hmac md P (concat xs), EVP_MD_size md), (ctx', out)))"
  using hmac.rewound_code[OF assms] by (auto simp: pbkdf2_prf_def on_hctx_def hmac.feed_def)

lemma xor_blocks: "map2 (XOR) (take n a) (take n b) = take n (map2 (XOR) a (b :: u8 list))"
  by (simp add: take_map take_zip)

lemma pbkdf2_iterate_F:
  assumes "hmac_keyed md P ctx" and "\<forall>j k. gives (mem j k)" and "todo \<le> EVP_MD_size md"
  shows "\<exists>ctx'. pbkdf2_iterate mem (EVP_MD_size md) todo k j (pbkdf2_U md P S i j0) (ctx, pre @ take todo (pbkdf2_F md P S i j0)) =
      (Some (), (ctx', pre @ take todo (pbkdf2_F md P S i (j0 + k)))) \<and> hmac_keyed md P ctx'"
  using assms(1)
proof (induction k arbitrary: j j0 ctx)
  case 0
  then show ?case by (simp add: ret_def)
next
  case (Suc k)
  have u: "length (pbkdf2_U md P S i j0) < SIZE_MOD" "take (EVP_MD_size md) (pbkdf2_U md P S i j0) = pbkdf2_U md P S i j0"
    using block_size_small(2)[of md] by (simp_all add: length_pbkdf2_U)
  from pbkdf2_prf_code[OF Suc.prems, of "mem j" "[pbkdf2_U md P S i j0]"] assms(2) u obtain ctx1 where
    c: "hmac_keyed md P ctx1" "\<And>out. pbkdf2_prf (mem j) [pbkdf2_U md P S i j0] (ctx, out) =
      (Some (pbkdf2_U md P S i (Suc j0), EVP_MD_size md), (ctx1, out))"
    by auto
  let ?out = "pre @ take todo (pbkdf2_F md P S i j0)"
  have l: "length ?out - todo = length pre" using assms(3) by (simp add: length_pbkdf2_F)
  have x: "take (length ?out - todo) ?out @ map2 (XOR) (drop (length ?out - todo) ?out) (take todo (pbkdf2_U md P S i (Suc j0))) =
      pre @ take todo (pbkdf2_F md P S i (Suc j0))"
    unfolding l by (simp add: xor_blocks del: pbkdf2_U.simps)
  show ?case
    using Suc.IH[OF c(1), of "j + 1" "Suc j0"]
    by (simp only: pbkdf2_iterate.simps sbind_def prod.case option.case u(2) c(2) x add_Suc_shift)
qed

lemma pbkdf2_loop_dk:
  assumes "hmac_keyed md P ctx" and "\<forall>i j k. gives (mem i j k)" and "length S < SIZE_MOD"
  shows "\<exists>ctx'. pbkdf2_loop mem S it md (of_nat b) L (ctx, out) =
    (Some (), (ctx', out @ take L (concat (map (\<lambda>i. pbkdf2_F md P S (of_nat i) (unat it - 1))
       [b..<b + (L + EVP_MD_size md - 1) div EVP_MD_size md]))))"
  using assms(1)
proof (induction L arbitrary: b ctx out rule: less_induct)
  case (less L)
  let ?h = "EVP_MD_size md" and ?F = "\<lambda>i. pbkdf2_F md P S (of_nat i) (unat it - 1)"
  have h: "0 < ?h" by (rule block_size_small)
  show ?case
  proof (cases "L = 0")
    case True
    then show ?thesis using h by (subst pbkdf2_loop.simps) (simp add: ret_def)
  next
    case False
    let ?todo = "if ?h > L then L else ?h"
    have t: "?todo \<le> ?h" "L - ?todo < L" using False h by auto
    from pbkdf2_prf_code[OF less.prems, of "mem (of_nat b) 0" "[S, pbkdf2_i_buf (of_nat b)]"] assms(2,3)
    obtain ctx1 where c1: "hmac_keyed md P ctx1" "\<And>out. pbkdf2_prf (mem (of_nat b) 0) [S, pbkdf2_i_buf (of_nat b)] (ctx, out) =
        (Some (pbkdf2_U md P S (of_nat b) 0, ?h), (ctx1, out))"
      by (auto simp: i_buf_bytes SIZE_MOD_def)
    have "\<forall>j k. gives (mem (of_nat b) j k)" using assms(2) by blast
    from pbkdf2_iterate_F[OF c1(1) this t(1), where k = "unat it - 1" and j = 1 and S = S and i = "of_nat b" and ?j0.0 = 0 and pre = out]
    obtain ctx2 where c2: "hmac_keyed md P ctx2" "pbkdf2_iterate (mem (of_nat b)) ?h ?todo (unat it - 1) 1 (pbkdf2_U md P S (of_nat b) 0)
        (ctx1, out @ take ?todo (pbkdf2_U md P S (of_nat b) 0)) = (Some (), (ctx2, out @ take ?todo (?F b)))" by auto
    have step: "pbkdf2_loop mem S it md (of_nat b) L (ctx, out) =
        pbkdf2_loop mem S it md (of_nat (Suc b)) (L - ?todo) (ctx2, out @ take ?todo (?F b))"
      by (subst pbkdf2_loop.simps)
        (simp only: False if_False sbind_def Let_def prod.case option.case c1(2) c2(2) of_nat_Suc add.commute)
    have n: "b + (L + ?h - 1) div ?h = Suc b + (L - ?todo + ?h - 1) div ?h"
    proof (cases "?h > L")
      case True
      then show ?thesis using False h by (simp add: div_nat_eqI)
    next
      case False
      have "(L + ?h - 1) div ?h = (L - ?h + ?h - 1 + ?h) div ?h" using False h by (intro arg_cong[of _ _ "\<lambda>x. x div ?h"]) simp
      also have "\<dots> = (L - ?h + ?h - 1) div ?h + 1" by (rule div_add_self2) (use h in simp)
      finally show ?thesis using False by simp
    qed
    have F: "take L (concat (map ?F [b..<Suc b + m])) = take ?todo (?F b) @ take (L - ?todo) (concat (map ?F [Suc b..<Suc b + m]))" for m
    proof -
      have e: "[b..<Suc b + m] = b # [Suc b..<Suc b + m]" by (rule upt_conv_Cons) simp
      show ?thesis unfolding e list.map concat.simps take_append by (simp add: length_pbkdf2_F del: upt_Suc)
    qed
    from less.IH[OF t(2) c2(1), of "Suc b" "out @ take ?todo (?F b)"] show ?thesis
      unfolding step n F by simp
  qed
qed

lemma PBKDF2_dk:
  assumes "\<forall>i j k. gives (mem i j k)" and "length S < SIZE_MOD" and "length P < SIZE_MOD"
    and "password = Some P \<or> password = None \<and> P = []"
  shows "PKCS5_PBKDF2_HMAC mem password S it md L = (it \<noteq> 0, pbkdf2_dk md P S (unat it) L)"
proof -
  have g: "\<forall>k. gives (mem 0 0 k)" using assms(1) by blast
  have "\<exists>s. HMAC_Init_ex (mem 0 0) password (Some md) (HMAC_CTX_init :: unit hmac_ctx) = (Some (), s) \<and> hmac_running md P [] s"
    using HMAC_Init_any_key[OF g assms(3,4)] by blast
  then obtain s where s: "HMAC_Init_ex (mem 0 0) password (Some md) (HMAC_CTX_init :: unit hmac_ctx) = (Some (), s)"
    "hmac_keyed md P s" by (auto simp: hmac_running_def)
  from pbkdf2_loop_dk[OF s(2) assms(1,2), of it 1 L "[]"] show ?thesis using s(1)
    by (auto simp: PKCS5_PBKDF2_HMAC_def pbkdf2_dk_def sbind_def on_hctx_def)
qed

end
