(* ===== verification/Stack.thy ===== *)
theory Stack
  imports Cbb_Asn1 "HOL-Library.Multiset"
begin

text \<open>
  The stacks of BoringSSL (\<open>crypto/stack/stack.c\<close>): growing arrays of pointers with an optional
  comparison function and a flag that says whether they are sorted.

  An element is a pointer, \<open>None\<close> the null pointer; a \<open>_STACK *\<close> is an optional record. The buffer is
  kept at its allocated length, so that an index out of its bounds would show. A comparison function
  is a pointer too, of type \<open>'c\<close>, and \<open>call_cmp_func\<close>, which the code gets as an argument, calls it.
  \<open>mem n\<close> is what an allocation of \<open>n\<close> pointers returns. What \<open>qsort\<close> does is an argument of \<open>sk_sort\<close>, for the C
  library leaves open how it orders equal elements. Freeing an array has no result; calls of the
  caller's free function are listed.
\<close>

section \<open>The code\<close>

record ('p, 'c) stack =
  stk_num :: nat
  stk_data :: "'p option list"
  stk_sorted :: bool
  stk_num_alloc :: nat
  stk_comp :: "'c option"

type_synonym ('p, 'c) stack_ptr = "('p, 'c) stack option"

type_synonym 'p mem = "nat \<Rightarrow> 'p option list option"

type_synonym ('p, 'c) stack_cmp = "'c \<Rightarrow> 'p option \<Rightarrow> 'p option \<Rightarrow> int"

definition kMinSize :: nat where "kMinSize = 4"

definition sk_new :: "bool \<Rightarrow> 'p mem \<Rightarrow> 'c option \<Rightarrow> ('p, 'c) stack_ptr" where
  "sk_new got_stack mem cmp_fn =
     (if \<not> got_stack then None
      else case mem kMinSize of
          None \<Rightarrow> None
        | Some data \<Rightarrow> Some \<lparr>stk_num = 0, stk_data = replicate kMinSize None, stk_sorted = False,
            stk_num_alloc = kMinSize, stk_comp = cmp_fn\<rparr>)"

definition sk_new_null :: "bool \<Rightarrow> 'p mem \<Rightarrow> ('p, 'c) stack_ptr" where
  "sk_new_null got_stack mem = sk_new got_stack mem None"

definition sk_num :: "('p, 'c) stack_ptr \<Rightarrow> nat" where
  "sk_num sk = (case sk of None \<Rightarrow> 0 | Some s \<Rightarrow> stk_num s)"

definition sk_zero :: "('p, 'c) stack_ptr \<Rightarrow> ('p, 'c) stack_ptr" where
  "sk_zero sk = (case sk of None \<Rightarrow> None | Some s \<Rightarrow>
     if stk_num s = 0 then Some s
     else Some (s\<lparr>stk_data := replicate (stk_num s) None @ drop (stk_num s) (stk_data s), stk_num := 0, stk_sorted := False\<rparr>))"

definition sk_value :: "('p, 'c) stack_ptr \<Rightarrow> nat \<Rightarrow> 'p option" where
  "sk_value sk i = (case sk of None \<Rightarrow> None | Some s \<Rightarrow> if i \<ge> stk_num s then None else stk_data s ! i)"

definition sk_set :: "('p, 'c) stack_ptr \<Rightarrow> nat \<Rightarrow> 'p option \<Rightarrow> 'p option \<times> ('p, 'c) stack_ptr" where
  "sk_set sk i v = (case sk of None \<Rightarrow> (None, None) | Some s \<Rightarrow>
     if i \<ge> stk_num s then (None, sk) else (v, Some (s\<lparr>stk_data := (stk_data s)[i := v]\<rparr>)))"

text \<open>The pointers the free function is called with, in order.\<close>

definition sk_pop_free_ex :: "('p, 'c) stack_ptr \<Rightarrow> 'p list" where
  "sk_pop_free_ex sk = (case sk of None \<Rightarrow> [] | Some s \<Rightarrow>
     fold (\<lambda>i freed. case stk_data s ! i of None \<Rightarrow> freed | Some p \<Rightarrow> freed @ [p]) [0..<stk_num s] [])"

definition memmove_ptrs :: "'a list \<Rightarrow> nat \<Rightarrow> nat \<Rightarrow> nat \<Rightarrow> 'a list" where
  "memmove_ptrs b dst src n = take dst b @ take n (drop src b) @ drop (dst + n) b"

definition sk_grow :: "'p mem \<Rightarrow> ('p, 'c) stack \<Rightarrow> ('p, 'c) stack option" where
  "sk_grow mem s =
     (let new_alloc = (stk_num_alloc s * 2) mod SIZE_MOD;
          alloc_size = (new_alloc * 8) mod SIZE_MOD;
          new_alloc = (if new_alloc < stk_num_alloc s \<or> alloc_size div 8 \<noteq> new_alloc
            then (stk_num_alloc s + 1) mod SIZE_MOD else new_alloc);
          alloc_size = (new_alloc * 8) mod SIZE_MOD
      in if new_alloc < stk_num_alloc s \<or> alloc_size div 8 \<noteq> new_alloc then None
         else case mem (alloc_size div 8) of
             None \<Rightarrow> None
           | Some b \<Rightarrow> Some (s\<lparr>stk_data := stk_data s @ drop (length (stk_data s)) b, stk_num_alloc := new_alloc\<rparr>))"

definition sk_insert :: "'p mem \<Rightarrow> 'p option \<Rightarrow> nat \<Rightarrow> ('p, 'c) stack_ptr \<Rightarrow> nat \<times> ('p, 'c) stack_ptr" where
  "sk_insert mem p pos sk = (case sk of None \<Rightarrow> (0, None) | Some s \<Rightarrow>
     (case (if stk_num_alloc s \<le> stk_num s + 1 then sk_grow mem s else Some s) of
        None \<Rightarrow> (0, sk)
      | Some s \<Rightarrow>
          let n = stk_num s;
              data = (if pos \<ge> n then (stk_data s)[n := p]
                else (memmove_ptrs (stk_data s) (pos + 1) pos (n - pos))[pos := p])
          in (n + 1, Some (s\<lparr>stk_data := data, stk_num := n + 1, stk_sorted := False\<rparr>))))"

definition sk_delete :: "nat \<Rightarrow> ('p, 'c) stack_ptr \<Rightarrow> 'p option \<times> ('p, 'c) stack_ptr" where
  "sk_delete pos sk = (case sk of None \<Rightarrow> (None, None) | Some s \<Rightarrow>
     if pos \<ge> stk_num s then (None, sk)
     else let data = (if pos \<noteq> stk_num s - 1 then memmove_ptrs (stk_data s) pos (pos + 1) (stk_num s - pos - 1) else stk_data s)
       in (stk_data s ! pos, Some (s\<lparr>stk_data := data, stk_num := stk_num s - 1\<rparr>)))"

text \<open>A loop over the elements that stops at the first that fits.\<close>

fun first_index :: "('p option \<Rightarrow> bool) \<Rightarrow> ('p, 'c) stack \<Rightarrow> nat \<Rightarrow> nat \<Rightarrow> nat option" where
  "first_index fits s 0 i = None"
| "first_index fits s (Suc k) i = (if fits (stk_data s ! i) then Some i else first_index fits s k (i + 1))"

definition sk_delete_ptr :: "'p option \<Rightarrow> ('p, 'c) stack_ptr \<Rightarrow> 'p option \<times> ('p, 'c) stack_ptr" where
  "sk_delete_ptr p sk = (case sk of None \<Rightarrow> (None, None) | Some s \<Rightarrow>
     (case first_index (\<lambda>e. e = p) s (stk_num s) 0 of None \<Rightarrow> (None, sk) | Some i \<Rightarrow> sk_delete i sk))"

definition sk_is_sorted :: "('p, 'c) stack_ptr \<Rightarrow> bool" where
  "sk_is_sorted sk = (case sk of None \<Rightarrow> True | Some s \<Rightarrow> stk_sorted s)"

text \<open>The binary search. The outer \<open>None\<close> is a failed assertion, the inner one an absent element.\<close>

function sk_bsearch :: "('e \<Rightarrow> int) \<Rightarrow> 'e list \<Rightarrow> nat \<Rightarrow> nat \<Rightarrow> nat option option" where
  "sk_bsearch call data lo hi =
     (if \<not> lo < hi then if lo = hi then Some None else None
      else let mid = lo + (hi - lo - 1) div 2 in
        if \<not> (lo \<le> mid \<and> mid < hi) then None
        else let r = call (data ! mid) in
          if r > 0 then sk_bsearch call data (mid + 1) hi
          else if r < 0 then sk_bsearch call data lo mid
          else if hi - lo = 1 then Some (Some mid)
          else if \<not> mid + 1 < hi then None
          else sk_bsearch call data lo (mid + 1))"
  by pat_completeness auto
termination by (relation "measure (\<lambda>(call, data, lo, hi). hi - lo)") (auto simp: less_diff_conv)

declare sk_bsearch.simps [simp del]

definition sk_find :: "('p, 'c) stack_cmp \<Rightarrow> 'p option \<Rightarrow> ('p, 'c) stack_ptr \<Rightarrow> nat option option" where
  "sk_find call_cmp_func p sk = (case sk of None \<Rightarrow> Some None | Some s \<Rightarrow>
     (case stk_comp s of
        None \<Rightarrow> Some (first_index (\<lambda>e. e = p) s (stk_num s) 0)
      | Some c \<Rightarrow>
          if p = None then Some None
          else if \<not> sk_is_sorted sk then Some (first_index (\<lambda>e. call_cmp_func c p e = 0) s (stk_num s) 0)
          else sk_bsearch (call_cmp_func c p) (stk_data s) 0 (stk_num s)))"

definition sk_shift :: "('p, 'c) stack_ptr \<Rightarrow> 'p option \<times> ('p, 'c) stack_ptr" where
  "sk_shift sk = (case sk of None \<Rightarrow> (None, None) | Some s \<Rightarrow> if stk_num s = 0 then (None, sk) else sk_delete 0 sk)"

definition sk_push :: "'p mem \<Rightarrow> 'p option \<Rightarrow> ('p, 'c) stack_ptr \<Rightarrow> (nat \<times> ('p, 'c) stack_ptr) option" where
  "sk_push mem p sk = (case sk of None \<Rightarrow> None | Some s \<Rightarrow> Some (sk_insert mem p (stk_num s) sk))"

definition sk_pop :: "('p, 'c) stack_ptr \<Rightarrow> 'p option \<times> ('p, 'c) stack_ptr" where
  "sk_pop sk = (case sk of None \<Rightarrow> (None, None) | Some s \<Rightarrow>
     if stk_num s = 0 then (None, sk) else sk_delete (stk_num s - 1) sk)"

definition sk_dup :: "bool \<Rightarrow> 'p mem \<Rightarrow> ('p, 'c) stack_ptr \<Rightarrow> ('p, 'c) stack_ptr" where
  "sk_dup got_stack mem sk = (case sk of None \<Rightarrow> None | Some s \<Rightarrow>
     if \<not> got_stack then None
     else case mem ((8 * stk_num_alloc s) mod SIZE_MOD div 8) of
         None \<Rightarrow> None
       | Some b \<Rightarrow> Some \<lparr>stk_num = stk_num s, stk_data = take (stk_num s) (stk_data s) @ drop (stk_num s) b,
           stk_sorted = stk_sorted s, stk_num_alloc = stk_num_alloc s, stk_comp = stk_comp s\<rparr>)"

definition sk_sort ::
  "(('p option \<Rightarrow> 'p option \<Rightarrow> int) \<Rightarrow> 'p option list \<Rightarrow> 'p option list) \<Rightarrow> ('p, 'c) stack_cmp \<Rightarrow>
     ('p, 'c) stack_ptr \<Rightarrow> ('p, 'c) stack_ptr" where
  "sk_sort sorter call_cmp_func sk = (case sk of None \<Rightarrow> None | Some s \<Rightarrow>
     (case stk_comp s of
        None \<Rightarrow> sk
      | Some c \<Rightarrow>
          if stk_sorted s then sk
          else let data = (if stk_num s \<ge> 2
              then sorter (call_cmp_func c) (take (stk_num s) (stk_data s)) @ drop (stk_num s) (stk_data s) else stk_data s)
            in Some (s\<lparr>stk_data := data, stk_sorted := True\<rparr>)))"

definition sk_set_cmp_func :: "'c option \<Rightarrow> ('p, 'c) stack \<Rightarrow> 'c option \<times> ('p, 'c) stack" where
  "sk_set_cmp_func cmp_fn s =
     (stk_comp s, (if stk_comp s \<noteq> cmp_fn then s\<lparr>stk_sorted := False\<rparr> else s)\<lparr>stk_comp := cmp_fn\<rparr>)"

text \<open>The copy, if there is one, and the pointers that were freed.\<close>

fun deep_copy_loop :: "('p \<Rightarrow> 'p option) \<Rightarrow> nat \<Rightarrow> nat \<Rightarrow> 'p option list \<Rightarrow> 'p option list option \<times> 'p list" where
  "deep_copy_loop copy_func 0 i data = (Some data, [])"
| "deep_copy_loop copy_func (Suc k) i data =
     (case data ! i of
        None \<Rightarrow> deep_copy_loop copy_func k (i + 1) data
      | Some p \<Rightarrow>
          (case copy_func p of
             None \<Rightarrow> (None, fold (\<lambda>j freed. case data ! j of None \<Rightarrow> freed | Some q \<Rightarrow> freed @ [q]) [0..<i] [])
           | Some q \<Rightarrow> deep_copy_loop copy_func k (i + 1) (data[i := Some q])))"

definition sk_deep_copy ::
  "bool \<Rightarrow> 'p mem \<Rightarrow> ('p \<Rightarrow> 'p option) \<Rightarrow> ('p, 'c) stack_ptr \<Rightarrow> ('p, 'c) stack_ptr \<times> 'p list" where
  "sk_deep_copy got_stack mem copy_func sk =
     (case sk_dup got_stack mem sk of
        None \<Rightarrow> (None, [])
      | Some s \<Rightarrow>
          (case deep_copy_loop copy_func (stk_num s) 0 (stk_data s) of
             (None, freed) \<Rightarrow> (None, freed)
           | (Some data, freed) \<Rightarrow> (Some (s\<lparr>stk_data := data\<rparr>), freed)))"

section \<open>A stack as a list\<close>

definition sk_list :: "('p, 'c) stack \<Rightarrow> 'p option list" where
  "sk_list s = take (stk_num s) (stk_data s)"

definition sk_wf :: "('p, 'c) stack \<Rightarrow> bool" where
  "sk_wf s \<longleftrightarrow> length (stk_data s) = stk_num_alloc s \<and> stk_num s \<le> stk_num_alloc s \<and>
     0 < stk_num_alloc s \<and> stk_num_alloc s * 8 < SIZE_MOD"

text \<open>What the flag says: the elements are in ascending order.\<close>

definition sk_ok :: "('p, 'c) stack_cmp \<Rightarrow> ('p, 'c) stack \<Rightarrow> bool" where
  "sk_ok cmp s \<longleftrightarrow> sk_wf s \<and>
     (stk_sorted s \<longrightarrow> (\<exists>c. stk_comp s = Some c \<and> sorted_wrt (\<lambda>a b. cmp c a b \<le> 0) (sk_list s)))"

definition mem_ok :: "'p mem \<Rightarrow> bool" where
  "mem_ok mem \<longleftrightarrow> (\<forall>n b. mem n = Some b \<longrightarrow> length b = n)"

lemma length_sk_list: "sk_wf s \<Longrightarrow> length (sk_list s) = stk_num s"
  by (simp add: sk_wf_def sk_list_def)

lemma nth_sk_list: "i < stk_num s \<Longrightarrow> sk_list s ! i = stk_data s ! i"
  by (simp add: sk_list_def)

lemma sk_grow_wf:
  assumes "sk_wf s" and "mem_ok mem" and "sk_grow mem s = Some s'"
  shows "sk_wf s' \<and> stk_num_alloc s < stk_num_alloc s' \<and> sk_list s' = sk_list s \<and> stk_num s' = stk_num s \<and>
    stk_comp s' = stk_comp s \<and> stk_sorted s' = stk_sorted s"
proof -
  let ?a = "stk_num_alloc s"
  have a: "?a * 8 < SIZE_MOD" "0 < ?a" "length (stk_data s) = ?a" "stk_num s \<le> ?a"
    using assms(1) by (simp_all add: sk_wf_def)
  have m: "(?a * 2) mod SIZE_MOD = ?a * 2" "(?a + 1) mod SIZE_MOD = ?a + 1"
    using a(1,2) by (simp_all add: SIZE_MOD_def)
  define n where "n = (if ((?a * 2) * 8) mod SIZE_MOD div 8 \<noteq> ?a * 2 then ?a + 1 else ?a * 2)"
  from assms(3) obtain b where b: "(n * 8) mod SIZE_MOD div 8 = n" "mem n = Some b"
    "s' = s\<lparr>stk_data := stk_data s @ drop ?a b, stk_num_alloc := n\<rparr>"
    unfolding sk_grow_def Let_def m n_def using a(2,3) by (auto split: if_splits option.splits)
  have n: "?a < n" using a(2) by (simp add: n_def)
  have "length b = n" using assms(2) b(2) by (simp add: mem_ok_def)
  moreover have "n * 8 < SIZE_MOD"
  proof (rule ccontr)
    assume *: "\<not> n * 8 < SIZE_MOD"
    have "n * 8 \<le> ?a * 16 \<or> n * 8 = ?a * 8 + 8" by (simp add: n_def)
    then have "n * 8 < 2 * SIZE_MOD" using a(1) by (auto simp: SIZE_MOD_def)
    with * have "(n * 8) mod SIZE_MOD = n * 8 - SIZE_MOD" by (simp add: mod_if)
    with * b(1) show False by (simp add: SIZE_MOD_def)
  qed
  ultimately show ?thesis using a n b(3) by (simp add: sk_wf_def sk_list_def)
qed

lemma sk_insert_list:
  assumes "sk_wf s" and "mem_ok mem" and "sk_insert mem p pos (Some s) = (n, sk)"
  shows "(n = 0 \<and> sk = Some s) \<or>
    (\<exists>s'. sk = Some s' \<and> sk_wf s' \<and> n = stk_num s + 1 \<and> sk_list s' = take pos (sk_list s) @ p # drop pos (sk_list s) \<and>
      \<not> stk_sorted s' \<and> stk_comp s' = stk_comp s)"
proof (cases "if stk_num_alloc s \<le> stk_num s + 1 then sk_grow mem s else Some s")
  case None
  with assms(3) show ?thesis by (simp add: sk_insert_def)
next
  case (Some t)
  have t: "sk_wf t" "stk_num t < stk_num_alloc t" "sk_list t = sk_list s" "stk_num t = stk_num s" "stk_comp t = stk_comp s"
    using Some sk_grow_wf[OF assms(1,2), of t] assms(1) by (auto simp: sk_wf_def split: if_splits)
  have l: "length (stk_data t) = stk_num_alloc t" using t(1) by (simp add: sk_wf_def)
  let ?n = "stk_num t"
  let ?d = "if pos \<ge> ?n then (stk_data t)[?n := p] else (memmove_ptrs (stk_data t) (pos + 1) pos (?n - pos))[pos := p]"
  have d: "length ?d = length (stk_data t) \<and> take (?n + 1) ?d = take pos (sk_list t) @ p # drop pos (sk_list t)"
  proof (cases "pos \<ge> ?n")
    case True
    then show ?thesis using t(2) l by (simp add: sk_list_def take_Suc_conv_app_nth)
  next
    case False
    have "memmove_ptrs (stk_data t) (pos + 1) pos (?n - pos) =
        take pos (stk_data t) @ stk_data t ! pos # take (?n - pos) (drop pos (stk_data t)) @ drop (?n + 1) (stk_data t)"
      using False t(2) l by (simp add: memmove_ptrs_def take_Suc_conv_app_nth)
    then show ?thesis using False t(2) l
      by (simp add: sk_list_def list_update_append drop_take min_def Suc_diff_le)
  qed
  from assms(3) Some have "n = ?n + 1" "sk = Some (t\<lparr>stk_data := ?d, stk_num := ?n + 1, stk_sorted := False\<rparr>)"
    by (auto simp: sk_insert_def Let_def)
  moreover have "sk_wf (t\<lparr>stk_data := ?d, stk_num := ?n + 1, stk_sorted := False\<rparr>)"
    using t(1,2) d by (simp add: sk_wf_def)
  moreover have "sk_list (t\<lparr>stk_data := ?d, stk_num := ?n + 1, stk_sorted := False\<rparr>) = take pos (sk_list s) @ p # drop pos (sk_list s)"
    using d t(3) unfolding sk_list_def[of "t\<lparr>stk_data := ?d, stk_num := ?n + 1, stk_sorted := False\<rparr>"] by simp
  ultimately show ?thesis using t(4,5) by simp
qed

lemma sk_delete_list:
  assumes "sk_wf s" and "pos < stk_num s"
  shows "\<exists>s'. sk_delete pos (Some s) = (sk_list s ! pos, Some s') \<and> sk_wf s' \<and>
    sk_list s' = take pos (sk_list s) @ drop (pos + 1) (sk_list s) \<and> stk_num s' = stk_num s - 1 \<and>
    stk_comp s' = stk_comp s \<and> stk_sorted s' = stk_sorted s"
proof -
  have l: "length (stk_data s) = stk_num_alloc s" "stk_num s \<le> stk_num_alloc s" using assms(1) by (simp_all add: sk_wf_def)
  let ?d = "if pos \<noteq> stk_num s - 1 then memmove_ptrs (stk_data s) pos (pos + 1) (stk_num s - pos - 1) else stk_data s"
  have d: "length ?d = length (stk_data s)" "take (stk_num s - 1) ?d = take pos (sk_list s) @ drop (pos + 1) (sk_list s)"
    using assms(2) l by (auto simp: memmove_ptrs_def sk_list_def drop_take min_def)
  show ?thesis
    using assms d by (auto simp: sk_delete_def Let_def sk_wf_def nth_sk_list)
      (auto simp: sk_list_def)
qed

section \<open>Comparison functions\<close>

lemma find_append: "List.find P (xs @ ys) = (case List.find P xs of None \<Rightarrow> List.find P ys | Some x \<Rightarrow> Some x)"
  by (induction xs) simp_all

lemma find_none: "(\<And>x. x \<in> set xs \<Longrightarrow> \<not> P x) \<Longrightarrow> List.find P xs = None"
  by (simp add: find_None_iff)

text \<open>What \<open>sk_find\<close> and \<open>sk_sort\<close> rely on: on the pointers it is meant for, a comparison function is
  the sign of a total preorder.\<close>

locale comparison =
  fixes cmp :: "'a \<Rightarrow> 'a \<Rightarrow> int" and valid :: "'a \<Rightarrow> bool"
  assumes flip: "valid a \<Longrightarrow> valid b \<Longrightarrow> cmp a b < 0 \<longleftrightarrow> cmp b a > 0"
    and trans: "valid a \<Longrightarrow> valid b \<Longrightarrow> valid c \<Longrightarrow> cmp a b \<le> 0 \<Longrightarrow> cmp b c \<le> 0 \<Longrightarrow> cmp a c \<le> 0"
begin

lemma above_earlier: "valid p \<Longrightarrow> valid a \<Longrightarrow> valid b \<Longrightarrow> cmp p a > 0 \<Longrightarrow> cmp b a \<le> 0 \<Longrightarrow> cmp p b > 0"
  using trans[of p b a] by linarith

lemma below_later: "valid p \<Longrightarrow> valid a \<Longrightarrow> valid b \<Longrightarrow> cmp p a < 0 \<Longrightarrow> cmp a b \<le> 0 \<Longrightarrow> cmp p b < 0"
  using trans[of a b p] flip[of p a] flip[of b p] flip[of p b] by linarith

text \<open>The binary search finds the first match of its range, and its assertions hold.\<close>

lemma bsearch_first:
  assumes "valid p" and "\<forall>i<n. valid (data ! i)"
    and ord: "\<forall>i j. i \<le> j \<longrightarrow> j < n \<longrightarrow> cmp (data ! i) (data ! j) \<le> 0" and "lo \<le> hi" and "hi \<le> n"
  shows "sk_bsearch (cmp p) data lo hi = Some (List.find (\<lambda>i. cmp p (data ! i) = 0) [lo..<hi])"
  using assms(4,5)
proof (induction "hi - lo" arbitrary: lo hi rule: less_induct)
  case less
  let ?P = "\<lambda>i. cmp p (data ! i) = 0"
  show ?case
  proof (cases "lo < hi")
    case False
    then show ?thesis using less.prems by (subst sk_bsearch.simps) simp
  next
    case True
    define mid where "mid = lo + (hi - lo - 1) div 2"
    have mid: "lo \<le> mid" "mid < hi" using True by (auto simp: mid_def)
    have split: "[lo..<hi] = [lo..<mid] @ mid # [mid + 1..<hi]"
      using upt_add_eq_append[OF mid(1), of "hi - mid"] mid by (simp add: upt_conv_Cons)
    have v: "valid (data ! i)" if "i < hi" for i using that assms(2) less.prems(2) by simp
    have rec: "sk_bsearch (cmp p) data lo hi =
        (let r = cmp p (data ! mid) in
          if r > 0 then sk_bsearch (cmp p) data (mid + 1) hi
          else if r < 0 then sk_bsearch (cmp p) data lo mid
          else if hi - lo = 1 then Some (Some mid)
          else if \<not> mid + 1 < hi then None else sk_bsearch (cmp p) data lo (mid + 1))"
      using sk_bsearch.simps[of "cmp p" data lo hi] True mid unfolding mid_def[symmetric] Let_def by simp
    consider "cmp p (data ! mid) > 0" | "cmp p (data ! mid) < 0" | "cmp p (data ! mid) = 0" by linarith
    then show ?thesis
    proof cases
      case 1
      have "\<not> ?P i" if "i \<in> set [lo..<mid]" for i
        using above_earlier[OF assms(1) v[OF mid(2)] v[of i] 1] ord[rule_format, of i mid] that mid less.prems(2) by auto
      then have "List.find ?P [lo..<mid] = None" by (rule find_none)
      then have "List.find ?P [lo..<hi] = List.find ?P [mid + 1..<hi]" using 1 by (simp add: split find_append)
      then show ?thesis using 1 rec less.hyps[of hi "mid + 1"] mid less.prems by (simp add: Let_def)
    next
      case 2
      have "\<not> ?P i" if "i \<in> set [mid + 1..<hi]" for i
        using below_later[OF assms(1) v[OF mid(2)] v[of i] 2] ord[rule_format, of mid i] that mid less.prems(2) by auto
      then have "List.find ?P [mid + 1..<hi] = None" by (rule find_none)
      then have "List.find ?P [lo..<hi] = List.find ?P [lo..<mid]"
        using 2 by (simp add: split find_append split: option.splits)
      then show ?thesis using 2 rec less.hyps[of mid lo] mid less.prems by (simp add: Let_def)
    next
      case 3
      have f: "List.find ?P [lo..<hi] = List.find ?P [lo..<mid + 1]"
        using 3 mid(1) by (simp add: split find_append split: option.splits)
      show ?thesis
      proof (cases "hi - lo = 1")
        case True
        then have "mid = lo" by (simp add: mid_def)
        then show ?thesis using True 3 rec f by (simp add: Let_def)
      next
        case False
        have "mid + 1 < hi" using False \<open>lo < hi\<close> by (simp add: mid_def)
        then show ?thesis using False 3 rec f less.hyps[of "mid + 1" lo] mid less.prems by (simp add: Let_def)
      qed
    qed
  qed
qed

end

lemma first_index_find: "first_index fits s k i = List.find (\<lambda>i. fits (stk_data s ! i)) [i..<i + k]"
  by (induction k arbitrary: i) (simp_all add: upt_conv_Cons del: upt_Suc)

lemma find_cong_set: "(\<And>x. x \<in> set xs \<Longrightarrow> P x = Q x) \<Longrightarrow> List.find P xs = List.find Q xs"
  by (induction xs) simp_all

text \<open>Whatever search is used, the first equal element is found.\<close>

theorem sk_find_first:
  assumes "sk_ok cmp s" and "stk_comp s = Some c" and "comparison (cmp c) valid"
    and "valid (Some p)" and "\<forall>e\<in>set (sk_list s). valid e"
  shows "sk_find cmp (Some p) (Some s) =
    Some (List.find (\<lambda>i. cmp c (Some p) (sk_list s ! i) = 0) [0..<length (sk_list s)])"
proof -
  have wf: "sk_wf s" using assms(1) by (simp add: sk_ok_def)
  let ?P = "\<lambda>i. cmp c (Some p) (stk_data s ! i) = 0"
  have e: "List.find (\<lambda>i. cmp c (Some p) (sk_list s ! i) = 0) [0..<length (sk_list s)] = List.find ?P [0..<stk_num s]"
    unfolding length_sk_list[OF wf] by (rule find_cong_set) (simp add: nth_sk_list)
  show ?thesis
  proof (cases "stk_sorted s")
    case False
    then show ?thesis using assms(2) by (simp add: sk_find_def sk_is_sorted_def first_index_find e)
  next
    case True
    have v: "\<forall>i < stk_num s. valid (stk_data s ! i)"
      using assms(5) by (metis length_sk_list[OF wf] nth_mem nth_sk_list)
    have o: "sorted_wrt (\<lambda>a b. cmp c a b \<le> 0) (sk_list s)" using assms(1,2) True by (auto simp: sk_ok_def)
    have "cmp c (stk_data s ! i) (stk_data s ! j) \<le> 0" if "i \<le> j" "j < stk_num s" for i j
    proof (cases "i = j")
      case True
      have "valid (stk_data s ! j)" using v that by simp
      then show ?thesis using comparison.flip[OF assms(3)] True by (metis linorder_not_less order.asym)
    next
      case False
      then show ?thesis using sorted_wrt_nth_less[OF o, of i j] that by (simp add: length_sk_list[OF wf] nth_sk_list)
    qed
    then have "sk_bsearch (cmp c (Some p)) (stk_data s) 0 (stk_num s) = Some (List.find ?P [0..<stk_num s])"
      using comparison.bsearch_first[OF assms(3,4) v] by blast
    then show ?thesis using assms(2) True by (simp add: sk_find_def sk_is_sorted_def e)
  qed
qed

section \<open>The invariant\<close>

text \<open>The contract of \<open>qsort\<close>.\<close>

definition sorts :: "(('e \<Rightarrow> 'e \<Rightarrow> int) \<Rightarrow> 'e list \<Rightarrow> 'e list) \<Rightarrow> ('e \<Rightarrow> 'e \<Rightarrow> int) \<Rightarrow> ('e \<Rightarrow> bool) \<Rightarrow> bool" where
  "sorts sorter cmp valid \<longleftrightarrow> (\<forall>xs. (\<forall>x\<in>set xs. valid x) \<longrightarrow>
     mset (sorter cmp xs) = mset xs \<and> sorted_wrt (\<lambda>a b. cmp a b \<le> 0) (sorter cmp xs))"

context comparison
begin

lemma set_insert_by: "set (insert_by cmp x ys) = insert x (set ys)"
  by (induction ys) auto

lemma sorted_insert_by:
  "valid x \<Longrightarrow> \<forall>y\<in>set ys. valid y \<Longrightarrow> sorted_wrt (\<lambda>a b. cmp a b \<le> 0) ys \<Longrightarrow>
    sorted_wrt (\<lambda>a b. cmp a b \<le> 0) (insert_by cmp x ys)"
proof (induction ys)
  case (Cons y ys)
  show ?case
  proof (cases "cmp x y \<le> 0")
    case True
    have "cmp x z \<le> 0" if "z \<in> set ys" for z
      using trans[of x y z] True Cons.prems that by auto
    then show ?thesis using True Cons.prems by auto
  next
    case False
    then have "cmp y x \<le> 0" using flip[of y x] Cons.prems by auto
    then show ?thesis using False Cons by (auto simp: set_insert_by)
  qed
qed simp

text \<open>Insertion sort is one such function.\<close>

lemma qsort_sorts: "sorts qsort cmp valid"
proof -
  have m: "mset (insert_by cmp x ys) = add_mset x (mset ys)" for x ys by (induction ys) auto
  have s: "mset (qsort cmp xs) = mset xs" for xs by (induction xs) (simp_all add: qsort_def m)
  then have "set (qsort cmp xs) = set xs" for xs by (metis set_mset_mset)
  moreover have "qsort cmp (x # xs) = insert_by cmp x (qsort cmp xs)" for x xs by (simp add: qsort_def)
  ultimately have "(\<forall>x\<in>set xs. valid x) \<Longrightarrow> sorted_wrt (\<lambda>a b. cmp a b \<le> 0) (qsort cmp xs)" for xs
    by (induction xs) (simp_all add: qsort_def sorted_insert_by)
  with s show ?thesis by (simp add: sorts_def)
qed

end

lemma sk_zero_ok: "sk_ok cmp s \<Longrightarrow> \<exists>s'. sk_zero (Some s) = Some s' \<and> sk_ok cmp s' \<and> sk_list s' = []"
  by (auto simp: sk_zero_def sk_ok_def sk_wf_def sk_list_def)

lemma sk_insert_ok:
  assumes "sk_ok cmp s" and "mem_ok mem" and "sk_insert mem p pos (Some s) = (n, Some s')"
  shows "sk_ok cmp s'"
proof -
  have "sk_wf s" using assms(1) by (simp add: sk_ok_def)
  from sk_insert_list[OF this assms(2,3)] assms(1) show ?thesis by (auto simp: sk_ok_def)
qed

lemma sorted_wrt_delete: "sorted_wrt P xs \<Longrightarrow> sorted_wrt P (take i xs @ drop j xs)" if "i \<le> j"
proof -
  assume s: "sorted_wrt P xs"
  have "take i xs @ drop j xs = take i xs @ drop (j - i) (drop i xs)" using that by simp
  moreover have "sorted_wrt P (take i xs @ drop i xs)" using s by simp
  then have "sorted_wrt P (take i xs @ drop (j - i) (drop i xs))"
    using set_drop_subset[of "j - i" "drop i xs"] sorted_wrt_drop[of P "drop i xs" "j - i"]
    unfolding sorted_wrt_append by blast
  ultimately show ?thesis by simp
qed

lemma sk_delete_ok:
  assumes "sk_ok cmp s" and "sk_delete pos (Some s) = (r, Some s')"
  shows "sk_ok cmp s'"
proof (cases "pos < stk_num s")
  case True
  have "sk_wf s" using assms(1) by (simp add: sk_ok_def)
  from sk_delete_list[OF this True] assms show ?thesis
    by (auto simp: sk_ok_def intro!: sorted_wrt_delete)
next
  case False
  then show ?thesis using assms by (simp add: sk_delete_def)
qed

lemma sk_delete_ptr_list:
  assumes "sk_wf s"
  shows "sk_delete_ptr p (Some s) =
    (case List.find (\<lambda>i. sk_list s ! i = p) [0..<length (sk_list s)] of None \<Rightarrow> (None, Some s) | Some i \<Rightarrow> sk_delete i (Some s))"
proof -
  have "List.find (\<lambda>i. sk_list s ! i = p) [0..<length (sk_list s)] = List.find (\<lambda>i. stk_data s ! i = p) [0..<stk_num s]"
    unfolding length_sk_list[OF assms] by (rule find_cong_set) (simp add: nth_sk_list)
  then show ?thesis by (simp add: sk_delete_ptr_def first_index_find split: option.splits)
qed

lemma sk_dup_ok:
  assumes "sk_ok cmp s" and "mem_ok mem" and "sk_dup got mem (Some s) = Some s'"
  shows "sk_ok cmp s' \<and> sk_list s' = sk_list s \<and> stk_comp s' = stk_comp s"
proof -
  have wf: "sk_wf s" using assms(1) by (simp add: sk_ok_def)
  then have m: "(8 * stk_num_alloc s) mod SIZE_MOD div 8 = stk_num_alloc s" by (simp add: sk_wf_def mult.commute)
  from assms(3) obtain b where b: "mem (stk_num_alloc s) = Some b"
    "s' = \<lparr>stk_num = stk_num s, stk_data = take (stk_num s) (stk_data s) @ drop (stk_num s) b,
           stk_sorted = stk_sorted s, stk_num_alloc = stk_num_alloc s, stk_comp = stk_comp s\<rparr>"
    by (auto simp: sk_dup_def m split: if_splits option.splits)
  have "length b = stk_num_alloc s" using assms(2) b(1) by (simp add: mem_ok_def)
  with wf have "sk_wf s'" "sk_list s' = sk_list s" by (auto simp: b(2) sk_wf_def sk_list_def)
  moreover have "stk_sorted s' = stk_sorted s" "stk_comp s' = stk_comp s" by (simp_all add: b(2))
  ultimately show ?thesis using assms(1) by (simp add: sk_ok_def)
qed

lemma sk_sort_ok:
  assumes "sk_ok cmp s" and "stk_comp s = Some c" and "sorts sorter (cmp c) valid" and "\<forall>e\<in>set (sk_list s). valid e"
  shows "\<exists>s'. sk_sort sorter cmp (Some s) = Some s' \<and> sk_ok cmp s' \<and> stk_sorted s' \<and> mset (sk_list s') = mset (sk_list s) \<and>
    stk_comp s' = Some c"
proof (cases "stk_sorted s")
  case True
  then show ?thesis using assms by (simp add: sk_sort_def)
next
  case False
  have wf: "sk_wf s" using assms(1) by (simp add: sk_ok_def)
  have q: "mset (sorter (cmp c) (sk_list s)) = mset (sk_list s)" "sorted_wrt (\<lambda>a b. cmp c a b \<le> 0) (sorter (cmp c) (sk_list s))"
    using assms(3,4) by (simp_all add: sorts_def)
  have l: "length (sorter (cmp c) (sk_list s)) = stk_num s" using q(1) length_sk_list[OF wf] by (metis size_mset)
  show ?thesis
  proof (cases "stk_num s \<ge> 2")
    case True
    let ?s = "s\<lparr>stk_data := sorter (cmp c) (sk_list s) @ drop (stk_num s) (stk_data s), stk_sorted := True\<rparr>"
    have "sk_sort sorter cmp (Some s) = Some ?s" using True False assms(2) by (simp add: sk_sort_def sk_list_def)
    moreover have "sk_list ?s = sorter (cmp c) (sk_list s)" using l by (simp add: sk_list_def[of ?s])
    moreover have "sk_wf ?s" using wf l by (simp add: sk_wf_def)
    ultimately show ?thesis using assms(2) q by (simp add: sk_ok_def)
  next
    case False2: False
    have "length (sk_list s) \<le> 1" using length_sk_list[OF wf] False2 by simp
    then have o: "sorted_wrt P (sk_list s)" for P by (cases "sk_list s" rule: remdups_adj.cases) auto
    have "sk_sort sorter cmp (Some s) = Some (s\<lparr>stk_sorted := True\<rparr>)" using False False2 assms(2) by (simp add: sk_sort_def)
    moreover have "sk_list (s\<lparr>stk_sorted := True\<rparr>) = sk_list s" "sk_wf (s\<lparr>stk_sorted := True\<rparr>)"
      using wf by (simp_all add: sk_list_def sk_wf_def)
    ultimately show ?thesis using assms(2) o by (simp add: sk_ok_def)
  qed
qed

lemma sk_set_cmp_func_ok:
  "sk_ok cmp s \<Longrightarrow> sk_ok cmp (snd (sk_set_cmp_func f s)) \<and> sk_list (snd (sk_set_cmp_func f s)) = sk_list s"
  by (auto simp: sk_set_cmp_func_def sk_ok_def sk_wf_def sk_list_def)

section \<open>Copies of the elements\<close>

lemma fold_pointers:
  "fold (\<lambda>j freed. case data ! j of None \<Rightarrow> freed | Some q \<Rightarrow> freed @ [q]) [0..<n] [] =
    List.map_filter (\<lambda>j. data ! j) [0..<n]"
  by (induction n) (simp_all add: List.map_filter_def split: option.splits)

lemma map_filter_nth: "n \<le> length data \<Longrightarrow> List.map_filter (\<lambda>j. data ! j) [0..<n] = List.map_filter (\<lambda>e. e) (take n data)"
  by (induction n) (simp_all add: List.map_filter_def take_Suc_conv_app_nth)

lemma sk_pop_free_ex_all: "sk_wf s \<Longrightarrow> sk_pop_free_ex (Some s) = List.map_filter (\<lambda>e. e) (sk_list s)"
  by (simp add: sk_pop_free_ex_def fold_pointers map_filter_nth sk_wf_def sk_list_def)

definition copies :: "('p \<Rightarrow> 'p option) \<Rightarrow> 'p option \<Rightarrow> 'p option" where
  "copies copy_func e = Option.bind e copy_func"

text \<open>Elements before \<open>i\<close> are copied; at the first that cannot be, the copies made so far are freed.\<close>

lemma deep_copy_loop_spec:
  assumes "i + k \<le> length data"
  shows "deep_copy_loop copy_func k i data =
    (case List.find (\<lambda>j. data ! j \<noteq> None \<and> copies copy_func (data ! j) = None) [i..<i + k] of
       None \<Rightarrow> (Some (take i data @ map (copies copy_func) (take k (drop i data)) @ drop (i + k) data), [])
     | Some j \<Rightarrow> (None, List.map_filter (\<lambda>e. e) (take i data @ map (copies copy_func) (take (j - i) (drop i data)))))"
  using assms
proof (induction k arbitrary: i data)
  case 0
  then show ?case by simp
next
  case (Suc k)
  let ?bad = "\<lambda>d j. d ! j \<noteq> None \<and> copies copy_func (d ! j) = None"
  have i: "i < length data" using Suc.prems by simp
  have split: "[i..<i + Suc k] = i # [i + 1..<(i + 1) + k]" by (simp add: upt_conv_Cons del: upt_Suc)
  show ?case
  proof (cases "?bad data i")
    case True
    then obtain p where p: "data ! i = Some p" "copy_func p = None" by (auto simp: copies_def)
    moreover have "List.find (?bad data) [i..<i + Suc k] = Some i"
      unfolding split using True by simp
    ultimately show ?thesis using i by (simp add: fold_pointers map_filter_nth del: upt_Suc)
  next
    case False
    let ?d = "data[i := copies copy_func (data ! i)]"
    have step: "deep_copy_loop copy_func (Suc k) i data = deep_copy_loop copy_func k (i + 1) ?d"
    proof (cases "data ! i")
      case None
      then have "?d = data" using i by (metis copies_def bind.bind_lzero list_update_id)
      then show ?thesis using None by simp
    next
      case (Some p)
      then show ?thesis using False by (auto simp: copies_def split: option.splits)
    qed
    have "List.find (?bad ?d) [i + 1..<(i + 1) + k] = List.find (?bad data) [i + 1..<(i + 1) + k]"
      by (rule find_cong_set) (auto simp: nth_list_update)
    then have f: "List.find (?bad ?d) [i + 1..<(i + 1) + k] = List.find (?bad data) [i..<i + Suc k]"
      unfolding split find.simps using False by metis
    have t: "take (i + 1) ?d = take i data @ [copies copy_func (data ! i)]"
      using i by (simp add: take_Suc_conv_app_nth)
    have j: "map (copies copy_func) (take n (drop i data)) =
        copies copy_func (data ! i) # map (copies copy_func) (take (n - 1) (drop (i + 1) data))" if "0 < n" for n
      using that i by (cases n) (simp_all add: Cons_nth_drop_Suc[symmetric])
    have d: "drop (i + 1) ?d = drop (i + 1) data" "drop (i + 1 + k) ?d = drop (i + Suc k) data" by simp_all
    have l: "i + 1 + k \<le> length ?d" using Suc.prems by simp
    note ih = Suc.IH[OF l, unfolded f t d]
    show ?thesis
    proof (cases "List.find (?bad data) [i..<i + Suc k]")
      case None
      show ?thesis unfolding step ih None using j[of "Suc k"] by simp
    next
      case (Some n)
      then have "?bad data n" "i \<le> n" by (auto simp: find_Some_iff simp del: upt_Suc)
      then have n: "i < n" using False by (cases "i = n") auto
      show ?thesis unfolding step ih Some using j[of "n - i"] n by simp
    qed
  qed
qed

lemma sk_deep_copy_spec:
  assumes "sk_wf s" and "mem_ok mem" and "mem (stk_num_alloc s) = Some b"
  shows "case List.find (\<lambda>j. sk_list s ! j \<noteq> None \<and> copies copy_func (sk_list s ! j) = None) [0..<length (sk_list s)] of
      None \<Rightarrow> \<exists>s'. sk_deep_copy True mem copy_func (Some s) = (Some s', []) \<and> sk_wf s' \<and>
        sk_list s' = map (copies copy_func) (sk_list s)
    | Some j \<Rightarrow> sk_deep_copy True mem copy_func (Some s) =
        (None, List.map_filter (copies copy_func) (take j (sk_list s)))"
proof -
  have l: "length (stk_data s) = stk_num_alloc s" "stk_num s \<le> stk_num_alloc s" "stk_num_alloc s * 8 < SIZE_MOD"
    using assms(1) by (simp_all add: sk_wf_def)
  have m: "(8 * stk_num_alloc s) mod SIZE_MOD div 8 = stk_num_alloc s" using l(3) by (simp add: mult.commute)
  let ?d = "sk_list s @ drop (stk_num s) b" and ?n = "stk_num s"
  have b: "length b = stk_num_alloc s" using assms(2,3) by (simp add: mem_ok_def)
  have n: "length (sk_list s) = ?n" using length_sk_list[OF assms(1)] .
  have dup: "sk_dup True mem (Some s) = Some \<lparr>stk_num = ?n, stk_data = ?d, stk_sorted = stk_sorted s,
      stk_num_alloc = stk_num_alloc s, stk_comp = stk_comp s\<rparr>"
    using assms(3) by (simp add: sk_dup_def m sk_list_def)
  let ?bad = "\<lambda>l j. l ! j \<noteq> None \<and> copies copy_func (l ! j) = None"
  have f: "List.find (?bad ?d) [0..<?n] = List.find (?bad (sk_list s)) [0..<?n]"
    by (rule find_cong_set) (simp add: nth_append n)
  have mf: "List.map_filter (\<lambda>e. e) (map g xs) = List.map_filter g xs" for g :: "'a option \<Rightarrow> 'a option" and xs
    by (simp add: List.map_filter_def comp_def filter_map)
  have le: "0 + ?n \<le> length ?d" using n by simp
  note dl = deep_copy_loop_spec[OF le, of copy_func, unfolded add_0 f]
  have loop: "deep_copy_loop copy_func ?n 0 ?d =
      (case List.find (?bad (sk_list s)) [0..<?n] of
         None \<Rightarrow> (Some (map (copies copy_func) (sk_list s) @ drop ?n b), [])
       | Some j \<Rightarrow> (None, List.map_filter (copies copy_func) (take j (sk_list s))))"
  proof (cases "List.find (?bad (sk_list s)) [0..<?n]")
    case None
    then show ?thesis unfolding dl using n by simp
  next
    case (Some j)
    then have "j < ?n" by (auto simp: find_Some_iff)
    then show ?thesis unfolding dl Some using n by (simp add: mf)
  qed
  show ?thesis
  proof (cases "List.find (?bad (sk_list s)) [0..<?n]")
    case None
    let ?s = "\<lparr>stk_num = ?n, stk_data = map (copies copy_func) (sk_list s) @ drop ?n b, stk_sorted = stk_sorted s,
      stk_num_alloc = stk_num_alloc s, stk_comp = stk_comp s\<rparr>"
    have "sk_list ?s = map (copies copy_func) (sk_list s)" using n by (simp add: sk_list_def[of ?s])
    moreover have "sk_wf ?s" using assms(1) b n by (simp add: sk_wf_def)
    ultimately show ?thesis using None loop by (simp add: n sk_deep_copy_def dup)
  next
    case (Some j)
    then show ?thesis using loop by (simp add: n sk_deep_copy_def dup)
  qed
qed

text \<open>The flag is not cleared when an element is replaced.\<close>

definition int_cmp :: "unit \<Rightarrow> int option \<Rightarrow> int option \<Rightarrow> int" where
  "int_cmp _ a b = the a - the b"

lemma sk_set_unsorts:
  defines "s \<equiv> \<lparr>stk_num = 2, stk_data = [Some 1, Some 3, None, None], stk_sorted = True, stk_num_alloc = 4, stk_comp = Some ()\<rparr>"
  shows "sk_ok int_cmp s \<and> snd (sk_set (Some s) 0 (Some 5)) = Some (s\<lparr>stk_data := [Some 5, Some 3, None, None]\<rparr>) \<and>
    \<not> sk_ok int_cmp (s\<lparr>stk_data := [Some 5, Some 3, None, None]\<rparr>) \<and>
    sk_find int_cmp (Some 3) (snd (sk_set (Some s) 0 (Some 5))) = Some None \<and>
    sk_find int_cmp (Some 3) (Some (s\<lparr>stk_data := [Some 5, Some 3, None, None], stk_sorted := False\<rparr>)) = Some (Some 1)"
  unfolding s_def
  by (simp add: sk_ok_def sk_wf_def sk_list_def sk_set_def sk_find_def sk_is_sorted_def sk_bsearch.simps int_cmp_def
      SIZE_MOD_def Let_def first_index_find upt_rec)

end
