(* ===== verification/Lhash.thy ===== *)
theory Lhash
  imports Cbs "HOL-Library.Multiset"
begin

text \<open>
  The hash table of BoringSSL (\<open>crypto/lhash/lhash.c\<close>), with chains, cached hashes and a table that
  grows and shrinks.

  A chain is a list of its items; a pointer to the pointer to an item is the bucket and the position in
  its chain, the length of the chain for a pointer to null. Items keep the address they were allocated
  at, for \<open>OPENSSL_lh_doall_arg\<close> holds a pointer to the next item while it calls the callback, which
  may change the table. Allocation is an argument: the address of a new item, if there is memory for
  one, and whether there is memory for a table of so many buckets.
\<close>

section \<open>The code\<close>

definition kMinNumBuckets :: nat where "kMinNumBuckets = 16"
definition kMaxAverageChainLength :: nat where "kMaxAverageChainLength = 2"
definition kMinAverageChainLength :: nat where "kMinAverageChainLength = 1"

record 'd lhash_item =
  li_addr :: nat
  li_data :: 'd
  li_hash :: u32

record 'd lhash =
  lh_num_items :: nat
  lh_buckets :: "'d lhash_item list list"
  lh_num_buckets :: nat
  lh_callback_depth :: u32
  lh_comp :: "'d \<Rightarrow> 'd \<Rightarrow> int"
  lh_hash :: "'d \<Rightarrow> u32"

definition OPENSSL_lh_new :: "bool \<Rightarrow> (nat \<Rightarrow> bool) \<Rightarrow> ('d \<Rightarrow> u32) \<Rightarrow> ('d \<Rightarrow> 'd \<Rightarrow> int) \<Rightarrow> 'd lhash option" where
  "OPENSSL_lh_new got_lh got_buckets hash cmp =
     (if \<not> got_lh \<or> \<not> got_buckets kMinNumBuckets then None
      else Some \<lparr>lh_num_items = 0, lh_buckets = replicate kMinNumBuckets [], lh_num_buckets = kMinNumBuckets,
        lh_callback_depth = 0, lh_comp = cmp, lh_hash = hash\<rparr>)"

definition OPENSSL_lh_num_items :: "'d lhash \<Rightarrow> nat" where
  "OPENSSL_lh_num_items lh = lh_num_items lh"

fun chain_pos :: "('d \<Rightarrow> bool) \<Rightarrow> 'd lhash_item list \<Rightarrow> nat" where
  "chain_pos eq [] = 0"
| "chain_pos eq (cur # rest) = (if eq (li_data cur) then 0 else Suc (chain_pos eq rest))"

definition get_next_ptr_and_hash :: "'d lhash \<Rightarrow> 'd \<Rightarrow> u32 \<times> nat \<times> nat" where
  "get_next_ptr_and_hash lh data =
     (let hash = lh_hash lh data; b = unat hash mod lh_num_buckets lh
      in (hash, b, chain_pos (\<lambda>d. lh_comp lh d data = 0) (lh_buckets lh ! b)))"

definition get_next_ptr_by_key :: "'d lhash \<Rightarrow> 'k \<Rightarrow> u32 \<Rightarrow> ('k \<Rightarrow> 'd \<Rightarrow> int) \<Rightarrow> nat \<times> nat" where
  "get_next_ptr_by_key lh key key_hash cmp_key =
     (let b = unat key_hash mod lh_num_buckets lh
      in (b, chain_pos (\<lambda>d. cmp_key key d = 0) (lh_buckets lh ! b)))"

text \<open>What a pointer to a pointer leads to.\<close>

definition item_at :: "'d lhash \<Rightarrow> nat \<Rightarrow> nat \<Rightarrow> 'd lhash_item option" where
  "item_at lh b i = (if i < length (lh_buckets lh ! b) then Some (lh_buckets lh ! b ! i) else None)"

definition OPENSSL_lh_retrieve :: "'d lhash \<Rightarrow> 'd \<Rightarrow> 'd option" where
  "OPENSSL_lh_retrieve lh data =
     (case get_next_ptr_and_hash lh data of (_, b, i) \<Rightarrow> map_option li_data (item_at lh b i))"

definition OPENSSL_lh_retrieve_key :: "'d lhash \<Rightarrow> 'k \<Rightarrow> u32 \<Rightarrow> ('k \<Rightarrow> 'd \<Rightarrow> int) \<Rightarrow> 'd option" where
  "OPENSSL_lh_retrieve_key lh key key_hash cmp_key =
     (case get_next_ptr_by_key lh key key_hash cmp_key of (b, i) \<Rightarrow> map_option li_data (item_at lh b i))"

text \<open>Every item is put in front of its new chain.\<close>

definition rebucket_item :: "nat \<Rightarrow> 'd lhash_item \<Rightarrow> 'd lhash_item list list \<Rightarrow> 'd lhash_item list list" where
  "rebucket_item n cur bs = (let b = unat (li_hash cur) mod n in bs[b := cur # bs ! b])"

definition lh_rebucket :: "(nat \<Rightarrow> bool) \<Rightarrow> nat \<Rightarrow> 'd lhash \<Rightarrow> 'd lhash" where
  "lh_rebucket got_buckets n lh =
     (let alloc_size = (8 * n) mod SIZE_MOD in
      if alloc_size div 8 \<noteq> n then lh
      else if \<not> got_buckets n then lh
      else lh\<lparr>lh_num_buckets := n, lh_buckets := fold (rebucket_item n) (concat (lh_buckets lh)) (replicate n [])\<rparr>)"

definition lh_maybe_resize :: "(nat \<Rightarrow> bool) \<Rightarrow> 'd lhash \<Rightarrow> 'd lhash" where
  "lh_maybe_resize got_buckets lh =
     (if lh_callback_depth lh > 0 then lh
      else let avg_chain_length = lh_num_items lh div lh_num_buckets lh in
        if avg_chain_length > kMaxAverageChainLength then
          let new_num_buckets = (lh_num_buckets lh * 2) mod SIZE_MOD in
          if new_num_buckets > lh_num_buckets lh then lh_rebucket got_buckets new_num_buckets lh else lh
        else if avg_chain_length < kMinAverageChainLength \<and> lh_num_buckets lh > kMinNumBuckets then
          let new_num_buckets = lh_num_buckets lh div 2;
              new_num_buckets = (if new_num_buckets < kMinNumBuckets then kMinNumBuckets else new_num_buckets)
          in lh_rebucket got_buckets new_num_buckets lh
        else lh)"

text \<open>The result, what \<open>old_data\<close> points to, and the table.\<close>

definition OPENSSL_lh_insert :: "nat option \<Rightarrow> (nat \<Rightarrow> bool) \<Rightarrow> 'd \<Rightarrow> 'd lhash \<Rightarrow> bool \<times> 'd option \<times> 'd lhash" where
  "OPENSSL_lh_insert new_item got_buckets data lh =
     (case get_next_ptr_and_hash lh data of (hash, b, i) \<Rightarrow>
        (case item_at lh b i of
           Some item \<Rightarrow>
             (True, Some (li_data item), lh\<lparr>lh_buckets := (lh_buckets lh)[b := (lh_buckets lh ! b)[i := item\<lparr>li_data := data\<rparr>]]\<rparr>)
         | None \<Rightarrow>
             (case new_item of
                None \<Rightarrow> (False, None, lh)
              | Some addr \<Rightarrow>
                  let item = \<lparr>li_addr = addr, li_data = data, li_hash = hash\<rparr>;
                      lh = lh\<lparr>lh_buckets := (lh_buckets lh)[b := lh_buckets lh ! b @ [item]], lh_num_items := lh_num_items lh + 1\<rparr>
                  in (True, None, lh_maybe_resize got_buckets lh))))"

definition OPENSSL_lh_delete :: "(nat \<Rightarrow> bool) \<Rightarrow> 'd \<Rightarrow> 'd lhash \<Rightarrow> 'd option \<times> 'd lhash" where
  "OPENSSL_lh_delete got_buckets data lh =
     (case get_next_ptr_and_hash lh data of (_, b, i) \<Rightarrow>
        (case item_at lh b i of
           None \<Rightarrow> (None, lh)
         | Some item \<Rightarrow>
             let chain = lh_buckets lh ! b;
                 lh = lh\<lparr>lh_buckets := (lh_buckets lh)[b := take i chain @ drop (i + 1) chain], lh_num_items := lh_num_items lh - 1\<rparr>
             in (Some (li_data item), lh_maybe_resize got_buckets lh)))"

text \<open>The item at an address and the address of the next one in its chain; \<open>None\<close> when the item was
  freed.\<close>

fun next_in_chain :: "nat \<Rightarrow> 'd lhash_item list \<Rightarrow> ('d \<times> nat option) option" where
  "next_in_chain a [] = None"
| "next_in_chain a (cur # rest) =
     (if li_addr cur = a then Some (li_data cur, case rest of [] \<Rightarrow> None | n # _ \<Rightarrow> Some (li_addr n)) else next_in_chain a rest)"

fun deref_item :: "nat \<Rightarrow> 'd lhash_item list list \<Rightarrow> ('d \<times> nat option) option" where
  "deref_item a [] = None"
| "deref_item a (chain # rest) = (case next_in_chain a chain of None \<Rightarrow> deref_item a rest | Some r \<Rightarrow> Some r)"

definition chain_head :: "'d lhash \<Rightarrow> nat \<Rightarrow> nat option" where
  "chain_head lh i = (case lh_buckets lh ! i of [] \<Rightarrow> None | item # _ \<Rightarrow> Some (li_addr item))"

text \<open>The loops over the buckets and their chains. The callback gets the data of an item and changes
  its own state and the table; \<open>None\<close> is the use of a freed item, or no end.\<close>

partial_function (option) lh_iterate ::
  "('d \<Rightarrow> 's \<times> 'd lhash \<Rightarrow> 's \<times> 'd lhash) \<Rightarrow> nat \<Rightarrow> nat option \<Rightarrow> 's \<times> 'd lhash \<Rightarrow> ('s \<times> 'd lhash) option" where
  "lh_iterate func i cur st =
     (case cur of
        Some a \<Rightarrow>
          (case deref_item a (lh_buckets (snd st)) of
             None \<Rightarrow> None
           | Some (data, next) \<Rightarrow> lh_iterate func i next (func data st))
      | None \<Rightarrow>
          if i + 1 < lh_num_buckets (snd st) then lh_iterate func (i + 1) (chain_head (snd st) (i + 1)) st
          else Some st)"

definition UINT_MAX :: u32 where "UINT_MAX = 0xffffffff"

definition OPENSSL_lh_doall_arg ::
  "(nat \<Rightarrow> bool) \<Rightarrow> ('d \<Rightarrow> 's \<times> 'd lhash \<Rightarrow> 's \<times> 'd lhash) \<Rightarrow> 's \<times> 'd lhash \<Rightarrow> ('s \<times> 'd lhash) option" where
  "OPENSSL_lh_doall_arg got_buckets func st =
     (case st of (s, lh) \<Rightarrow>
       let lh = (if lh_callback_depth lh < UINT_MAX then lh\<lparr>lh_callback_depth := lh_callback_depth lh + 1\<rparr> else lh)
       in case (if 0 < lh_num_buckets lh then lh_iterate func 0 (chain_head lh 0) (s, lh) else Some (s, lh)) of
           None \<Rightarrow> None
         | Some (s, lh) \<Rightarrow>
             let lh = (if lh_callback_depth lh < UINT_MAX then lh\<lparr>lh_callback_depth := lh_callback_depth lh - 1\<rparr> else lh)
             in Some (s, lh_maybe_resize got_buckets lh))"

end
