(* ===== verification/Lhash_Map.thy ===== *)
theory Lhash_Map
  imports Lhash
begin

text \<open>
  The hash table of \<open>Lhash\<close> implements a map: from the keys of its elements, which its comparison
  function tells apart, to the elements. The locale \<open>hash_keys\<close> is what the table relies on of the two
  functions it is given; it is interpreted where tables are used.
\<close>

definition lh_items :: "'d lhash \<Rightarrow> 'd lhash_item list" where
  "lh_items lh = concat (lh_buckets lh)"

lemma in_items:
  "length (lh_buckets lh) = n \<Longrightarrow> it \<in> set (lh_items lh) \<longleftrightarrow> (\<exists>b<n. it \<in> set (lh_buckets lh ! b))"
  by (metis (no_types, lifting) UN_iff in_set_conv_nth lh_items_def set_concat)

lemma distinct_map_mset: "mset xs = mset ys \<Longrightarrow> distinct (map f xs) \<Longrightarrow> distinct (map f ys)"
  by (metis mset_eq_imp_distinct_iff mset_map)

section \<open>Changes of one chain\<close>

lemma chain_pos_le: "chain_pos eq chain \<le> length chain"
  by (induction chain) auto

lemma chain_pos_split:
  "chain_pos eq chain < length chain \<Longrightarrow>
    \<exists>xs it ys. chain = xs @ it # ys \<and> chain_pos eq chain = length xs \<and> eq (li_data it)"
proof (induction chain)
  case (Cons c chain)
  show ?case
  proof (cases "eq (li_data c)")
    case True
    then have "c # chain = [] @ c # chain \<and> chain_pos eq (c # chain) = length []" by simp
    with True show ?thesis by blast
  next
    case False
    with Cons obtain xs it ys where "chain = xs @ it # ys" "chain_pos eq chain = length xs" "eq (li_data it)" by auto
    then have "c # chain = (c # xs) @ it # ys \<and> chain_pos eq (c # chain) = length (c # xs) \<and> eq (li_data it)"
      using False by simp
    then show ?thesis by blast
  qed
qed simp

lemma chain_pos_end: "chain_pos eq chain = length chain \<longleftrightarrow> (\<forall>it\<in>set chain. \<not> eq (li_data it))"
  by (induction chain) auto

text \<open>Replacing one chain of a list of chains.\<close>

lemma concat_update:
  "b < length bs \<Longrightarrow> concat bs = concat (take b bs) @ bs ! b @ concat (drop (b + 1) bs) \<and>
    concat (bs[b := c]) = concat (take b bs) @ c @ concat (drop (b + 1) bs)"
  by (simp add: upd_conv_take_nth_drop) (metis append_assoc append_take_drop_id concat.simps(2) concat_append Cons_nth_drop_Suc)

text \<open>The same on association lists.\<close>

lemma map_of_middle:
  "k \<notin> fst ` set (A @ B) \<Longrightarrow> map_of (A @ (k, v) # B) = (map_of (A @ B))(k \<mapsto> v)"
  by (induction A) (auto simp: fun_upd_twist)

lemma map_of_replace:
  "k \<notin> fst ` set A \<Longrightarrow> map_of (A @ (k, v) # B) = (map_of (A @ (k, old) # B))(k \<mapsto> v)"
  by (induction A) (auto simp: fun_upd_twist)

lemma map_of_remove:
  "k \<notin> fst ` set (A @ B) \<Longrightarrow> map_of (A @ B) = (map_of (A @ (k, old) # B))(k := None)"
proof (induction A)
  case Nil
  then have "map_of B k = None" by (simp add: map_of_eq_None_iff)
  then show ?case by (auto simp: fun_eq_iff)
qed (auto simp: fun_upd_twist)

section \<open>The pointers of an iteration\<close>

abbreviation head_addr :: "'d lhash_item list \<Rightarrow> nat option" where
  "head_addr its \<equiv> (case its of [] \<Rightarrow> None | it # _ \<Rightarrow> Some (li_addr it))"

lemma next_in_chain_iff: "next_in_chain a chain = None \<longleftrightarrow> a \<notin> li_addr ` set chain"
  by (induction chain) auto

lemma next_in_chain_at:
  "li_addr it \<notin> li_addr ` set A \<Longrightarrow> next_in_chain (li_addr it) (A @ it # B) = Some (li_data it, head_addr B)"
  by (induction A) auto

lemma deref_item_at:
  "b < length bs \<Longrightarrow> bs ! b = A @ it # B \<Longrightarrow> distinct (map li_addr (concat bs)) \<Longrightarrow>
    deref_item (li_addr it) bs = Some (li_data it, head_addr B)"
proof (induction bs arbitrary: b)
  case (Cons c bs)
  show ?case
  proof (cases b)
    case 0
    then show ?thesis using Cons.prems by (simp add: next_in_chain_at)
  next
    case (Suc b')
    then have "b' < length bs" "it \<in> set (bs ! b')" using Cons.prems(1,2) by simp_all
    then have "it \<in> set (bs ! b')" "bs ! b' \<in> set bs" by simp_all
    then have "it \<in> set (concat bs)" unfolding set_concat by blast
    then have "next_in_chain (li_addr it) c = None"
      using Cons.prems(3) unfolding next_in_chain_iff by auto
    then show ?thesis using Cons.IH[of b'] Cons.prems Suc by simp
  qed
qed simp

lemma chain_head_alt: "chain_head lh i = head_addr (lh_buckets lh ! i)"
  by (simp add: chain_head_def)

text \<open>A callback that looks at every element and takes some of them out of the table.\<close>

definition sweep :: "(nat \<Rightarrow> bool) \<Rightarrow> ('d \<Rightarrow> bool) \<Rightarrow> ('d \<Rightarrow> 's \<Rightarrow> 's) \<Rightarrow> 'd \<Rightarrow> 's \<times> 'd lhash \<Rightarrow> 's \<times> 'd lhash" where
  "sweep got old f d st = (f d (fst st), if old d then snd (OPENSSL_lh_delete got d (snd st)) else snd st)"

lemma sweep_apply: "sweep got old f d (s, lh) = (f d s, if old d then snd (OPENSSL_lh_delete got d lh) else lh)"
  by (simp add: sweep_def)

section \<open>The contract of the two functions\<close>

locale hash_keys =
  fixes hash :: "'d \<Rightarrow> u32" and cmp :: "'d \<Rightarrow> 'd \<Rightarrow> int" and key :: "'d \<Rightarrow> 'k" and key_hash :: "'k \<Rightarrow> u32"
    and valid :: "'d \<Rightarrow> bool"
  assumes cmp_key: "valid x \<Longrightarrow> valid y \<Longrightarrow> cmp x y = 0 \<longleftrightarrow> key x = key y"
    and hash_key: "valid x \<Longrightarrow> hash x = key_hash (key x)"
begin

definition placed :: "'d lhash \<Rightarrow> bool" where
  "placed lh \<longleftrightarrow> (\<forall>b < lh_num_buckets lh. \<forall>it\<in>set (lh_buckets lh ! b).
     valid (li_data it) \<and> li_hash it = hash (li_data it) \<and> unat (li_hash it) mod lh_num_buckets lh = b)"

definition ok :: "'d lhash \<Rightarrow> bool" where
  "ok lh \<longleftrightarrow> lh_hash lh = hash \<and> lh_comp lh = cmp \<and> length (lh_buckets lh) = lh_num_buckets lh \<and>
     kMinNumBuckets \<le> lh_num_buckets lh \<and> lh_num_items lh = length (lh_items lh) \<and> placed lh \<and>
     distinct (map (\<lambda>it. key (li_data it)) (lh_items lh)) \<and> distinct (map li_addr (lh_items lh))"

definition item_entries :: "'d lhash_item list \<Rightarrow> ('k \<times> 'd) list" where
  "item_entries its = map (\<lambda>it. (key (li_data it), li_data it)) its"

definition abs_map :: "'d lhash \<Rightarrow> 'k \<Rightarrow> 'd option" where
  "abs_map lh = map_of (item_entries (lh_items lh))"

lemma keys_item_entries: "map fst (item_entries its) = map (\<lambda>it. key (li_data it)) its"
  by (simp add: item_entries_def)

lemma abs_map_iff:
  "distinct (map (\<lambda>it. key (li_data it)) its) \<Longrightarrow>
    map_of (item_entries its) k = Some d \<longleftrightarrow> (\<exists>it\<in>set its. key (li_data it) = k \<and> li_data it = d)"
  unfolding keys_item_entries[symmetric] by (auto simp: item_entries_def)

lemma abs_map_cong:
  assumes "mset its' = mset its" and "distinct (map (\<lambda>it. key (li_data it)) its)"
  shows "map_of (item_entries its') = map_of (item_entries its)"
proof -
  have "mset (map (\<lambda>it. key (li_data it)) its') = mset (map (\<lambda>it. key (li_data it)) its)" using assms(1) by simp
  then have "distinct (map fst (item_entries its'))" "distinct (map fst (item_entries its))"
    using assms(2) mset_eq_imp_distinct_iff unfolding keys_item_entries by blast+
  moreover have "set (item_entries its') = set (item_entries its)" using mset_eq_setD[OF assms(1)] by (simp add: item_entries_def)
  ultimately show ?thesis by (rule map_of_eqI[OF refl[THEN trans]] | metis map_of_inject_set)
qed

text \<open>Where the search for a datum ends.\<close>

lemma search:
  assumes "ok lh" and "valid d" and "get_next_ptr_and_hash lh d = (hv, b, i)"
  shows "b < lh_num_buckets lh" and "hv = hash d" and "b = unat (hash d) mod lh_num_buckets lh"
    and "item_at lh b i = None \<Longrightarrow> \<forall>it\<in>set (lh_items lh). key (li_data it) \<noteq> key d"
    and "item_at lh b i = Some it \<Longrightarrow> \<exists>xs ys. lh_buckets lh ! b = xs @ it # ys \<and> i = length xs \<and> key (li_data it) = key d"
proof -
  have lh: "lh_hash lh = hash" "lh_comp lh = cmp" "0 < lh_num_buckets lh" "length (lh_buckets lh) = lh_num_buckets lh"
    "placed lh"
    using assms(1) by (auto simp: ok_def kMinNumBuckets_def)
  from assms(3) show b: "hv = hash d" "b = unat (hash d) mod lh_num_buckets lh"
    by (auto simp: get_next_ptr_and_hash_def Let_def lh)
  then show less: "b < lh_num_buckets lh" using lh(3) by simp
  have i: "i = chain_pos (\<lambda>x. cmp x d = 0) (lh_buckets lh ! b)"
    using assms(3) by (auto simp: get_next_ptr_and_hash_def Let_def lh)
  have v: "valid (li_data x)" if "x \<in> set (lh_buckets lh ! b)" for x using that less lh(5) by (auto simp: placed_def)
  show "\<forall>it\<in>set (lh_items lh). key (li_data it) \<noteq> key d" if none: "item_at lh b i = None"
  proof
    fix it assume "it \<in> set (lh_items lh)"
    then obtain b' where b': "b' < lh_num_buckets lh" "it \<in> set (lh_buckets lh ! b')"
      using in_items[OF lh(4)] by blast
    then have it: "valid (li_data it)" "unat (hash (li_data it)) mod lh_num_buckets lh = b'"
      using lh(5)[unfolded placed_def, rule_format, OF b'] by auto
    show "key (li_data it) \<noteq> key d"
    proof
      assume k: "key (li_data it) = key d"
      then have "b' = b" using it b(2) hash_key[OF it(1)] hash_key[OF assms(2)] by simp
      moreover have "chain_pos (\<lambda>x. cmp x d = 0) (lh_buckets lh ! b) = length (lh_buckets lh ! b)"
        using none i chain_pos_le[of "\<lambda>x. cmp x d = 0" "lh_buckets lh ! b"] by (simp add: item_at_def split: if_splits)
      then have "\<forall>x\<in>set (lh_buckets lh ! b). cmp (li_data x) d \<noteq> 0" by (simp only: chain_pos_end)
      ultimately have "cmp (li_data it) d \<noteq> 0" using b'(2) by blast
      then show False using k cmp_key[OF it(1) assms(2)] by simp
    qed
  qed
  show "\<exists>xs ys. lh_buckets lh ! b = xs @ it # ys \<and> i = length xs \<and> key (li_data it) = key d" if s: "item_at lh b i = Some it"
  proof -
    have "i < length (lh_buckets lh ! b)" "it = lh_buckets lh ! b ! i" using s by (auto simp: item_at_def split: if_splits)
    with chain_pos_split[of "\<lambda>x. cmp x d = 0" "lh_buckets lh ! b"] i obtain xs ys where
      c: "lh_buckets lh ! b = xs @ it # ys" "i = length xs" "cmp (li_data it) d = 0" by auto
    moreover have "valid (li_data it)" using v c(1) by simp
    ultimately show ?thesis using cmp_key assms(2) by blast
  qed
qed

lemma retrieve_map:
  assumes "ok lh" and "valid d"
  shows "OPENSSL_lh_retrieve lh d = abs_map lh (key d)"
proof -
  obtain hv b i where g: "get_next_ptr_and_hash lh d = (hv, b, i)" by (metis surj_pair)
  note s = search[OF assms g]
  have dist: "distinct (map (\<lambda>it. key (li_data it)) (lh_items lh))" and l: "length (lh_buckets lh) = lh_num_buckets lh"
    using assms(1) by (auto simp: ok_def)
  show ?thesis
  proof (cases "item_at lh b i")
    case None
    then have "abs_map lh (key d) = None"
      using s(4) abs_map_iff[OF dist, of "key d"] unfolding abs_map_def by (metis option.exhaust)
    then show ?thesis using None g by (simp add: OPENSSL_lh_retrieve_def)
  next
    case (Some it)
    from s(5)[OF this] have "it \<in> set (lh_buckets lh ! b)" "key (li_data it) = key d" by auto
    moreover have "set (lh_buckets lh ! b) \<subseteq> set (lh_items lh)" using s(1) in_items[OF l] by blast
    ultimately have "abs_map lh (key d) = Some (li_data it)" using abs_map_iff[OF dist] unfolding abs_map_def by blast
    then show ?thesis using Some g by (simp add: OPENSSL_lh_retrieve_def)
  qed
qed

text \<open>Moving the items to another table.\<close>

lemma rebucket_fold:
  assumes "0 < n" and "length bs = n"
  shows "length (fold (rebucket_item n) its bs) = n" (is ?len)
    and "mset (concat (fold (rebucket_item n) its bs)) = mset its + mset (concat bs)" (is ?ms)
    and "\<forall>b<n. \<forall>it\<in>set (bs ! b). unat (li_hash it) mod n = b \<Longrightarrow>
      \<forall>b<n. \<forall>it\<in>set (fold (rebucket_item n) its bs ! b). unat (li_hash it) mod n = b"
proof -
  have step: "length (rebucket_item n it bs) = n" "mset (concat (rebucket_item n it bs)) = add_mset it (mset (concat bs))"
    if "length bs = n" for it and bs :: "'a lhash_item list list"
  proof -
    have b: "unat (li_hash it) mod n < length bs" using assms(1) that by simp
    from concat_update[OF b, of "it # bs ! (unat (li_hash it) mod n)"]
    show "length (rebucket_item n it bs) = n" "mset (concat (rebucket_item n it bs)) = add_mset it (mset (concat bs))"
      using that by (simp_all add: rebucket_item_def Let_def)
  qed
  show ?len ?ms using assms(2)
    by (induction its arbitrary: bs) (simp_all add: step)
  show "\<forall>b<n. \<forall>it\<in>set (bs ! b). unat (li_hash it) mod n = b \<Longrightarrow>
      \<forall>b<n. \<forall>it\<in>set (fold (rebucket_item n) its bs ! b). unat (li_hash it) mod n = b"
    using assms(2)
  proof (induction its arbitrary: bs)
    case (Cons x its)
    have "\<forall>b<n. \<forall>it\<in>set (rebucket_item n x bs ! b). unat (li_hash it) mod n = b"
      using Cons.prems by (auto simp: rebucket_item_def Let_def nth_list_update)
    from Cons.IH[OF this step(1)[OF Cons.prems(2)]] show ?case by simp
  qed simp
qed

lemma ok_same_items:
  assumes "ok lh" and "mset (lh_items lh') = mset (lh_items lh)" and "lh_hash lh' = lh_hash lh" and "lh_comp lh' = lh_comp lh"
    and "length (lh_buckets lh') = lh_num_buckets lh'" and "kMinNumBuckets \<le> lh_num_buckets lh'"
    and "lh_num_items lh' = lh_num_items lh"
    and "\<forall>b < lh_num_buckets lh'. \<forall>it\<in>set (lh_buckets lh' ! b). unat (li_hash it) mod lh_num_buckets lh' = b"
  shows "ok lh' \<and> abs_map lh' = abs_map lh"
proof -
  note d = distinct_map_mset[OF assms(2)[symmetric]]
  have l: "length (lh_items lh') = length (lh_items lh)" using assms(2) by (metis size_mset)
  have v: "valid (li_data it) \<and> li_hash it = hash (li_data it)" if "it \<in> set (lh_items lh)" for it
    using that assms(1) in_items unfolding ok_def placed_def by blast
  have "placed lh'" unfolding placed_def
  proof (intro allI impI ballI)
    fix b it assume b: "b < lh_num_buckets lh'" "it \<in> set (lh_buckets lh' ! b)"
    then have "it \<in> set (lh_items lh')" using in_items[OF assms(5)] by blast
    then have "it \<in> set (lh_items lh)" using mset_eq_setD[OF assms(2)] by simp
    from v[OF this] assms(8) b
    show "valid (li_data it) \<and> li_hash it = hash (li_data it) \<and> unat (li_hash it) mod lh_num_buckets lh' = b" by blast
  qed
  moreover have "abs_map lh' = abs_map lh"
    using abs_map_cong[OF assms(2)] assms(1) by (simp add: abs_map_def ok_def)
  moreover have "distinct (map (\<lambda>it. key (li_data it)) (lh_items lh'))" "distinct (map li_addr (lh_items lh'))"
    using assms(1) by (auto simp: ok_def intro!: d)
  ultimately show ?thesis using assms l by (simp add: ok_def)
qed

lemma rebucket_ok:
  assumes "ok lh" and "kMinNumBuckets \<le> n"
  shows "ok (lh_rebucket got n lh) \<and> abs_map (lh_rebucket got n lh) = abs_map lh"
proof (cases "(8 * n) mod SIZE_MOD div 8 = n \<and> got n")
  case True
  let ?bs = "fold (rebucket_item n) (concat (lh_buckets lh)) (replicate n [])"
  have n: "0 < n" using assms(2) by (simp add: kMinNumBuckets_def)
  have r: "length ?bs = n" "mset (concat ?bs) = mset (concat (lh_buckets lh))"
    "\<forall>b<n. \<forall>it\<in>set (?bs ! b). unat (li_hash it) mod n = b"
    using rebucket_fold[OF n, of "replicate n []" "concat (lh_buckets lh)"] by simp_all
  have "lh_rebucket got n lh = lh\<lparr>lh_num_buckets := n, lh_buckets := ?bs\<rparr>"
    using True by (simp add: lh_rebucket_def Let_def)
  then show ?thesis using ok_same_items[OF assms(1), of "lh\<lparr>lh_num_buckets := n, lh_buckets := ?bs\<rparr>"] r assms
    by (simp add: lh_items_def)
next
  case False
  then have "lh_rebucket got n lh = lh" by (auto simp: lh_rebucket_def Let_def)
  then show ?thesis using assms(1) by simp
qed

lemma resize_ok:
  assumes "ok lh"
  shows "ok (lh_maybe_resize got lh) \<and> abs_map (lh_maybe_resize got lh) = abs_map lh"
proof -
  have "kMinNumBuckets \<le> lh_num_buckets lh" using assms by (simp add: ok_def)
  then show ?thesis using assms rebucket_ok[OF assms] by (auto simp: lh_maybe_resize_def Let_def)
qed

text \<open>An item is replaced, added or taken out.\<close>

lemma chain_update:
  assumes "ok lh" and "b < lh_num_buckets lh"
  shows "\<exists>P Q. lh_items lh = P @ lh_buckets lh ! b @ Q \<and>
    (\<forall>c n. lh_items (lh\<lparr>lh_buckets := (lh_buckets lh)[b := c], lh_num_items := n\<rparr>) = P @ c @ Q)"
proof -
  have "b < length (lh_buckets lh)" using assms by (simp add: ok_def)
  from concat_update[OF this] show ?thesis unfolding lh_items_def by auto
qed

lemma placed_update:
  assumes "ok lh" and "b < lh_num_buckets lh"
    and "\<forall>it\<in>set c. it \<in> set (lh_buckets lh ! b) \<or>
      valid (li_data it) \<and> li_hash it = hash (li_data it) \<and> unat (li_hash it) mod lh_num_buckets lh = b"
  shows "placed (lh\<lparr>lh_buckets := (lh_buckets lh)[b := c], lh_num_items := n\<rparr>)"
  unfolding placed_def
proof (intro allI impI ballI)
  fix b' it
  let ?lh = "lh\<lparr>lh_buckets := (lh_buckets lh)[b := c], lh_num_items := n\<rparr>"
  assume b': "b' < lh_num_buckets ?lh" and it: "it \<in> set (lh_buckets ?lh ! b')"
  have l: "length (lh_buckets lh) = lh_num_buckets lh" and p: "placed lh" using assms(1) by (simp_all add: ok_def)
  consider "it \<in> set (lh_buckets lh ! b')" | "b' = b" "it \<in> set c" "it \<notin> set (lh_buckets lh ! b)"
    using it b' l by (cases "b' = b") auto
  then show "valid (li_data it) \<and> li_hash it = hash (li_data it) \<and> unat (li_hash it) mod lh_num_buckets ?lh = b'"
  proof cases
    case 1
    have "b' < lh_num_buckets lh" using b' by simp
    from p[unfolded placed_def, rule_format, OF this 1] show ?thesis by auto
  next
    case 2
    then show ?thesis using assms(3) by auto
  qed
qed

lemma insert_map:
  assumes "ok lh" and "valid d"
    and "new_item = None \<longrightarrow> abs_map lh (key d) \<noteq> None"
    and "\<forall>a. new_item = Some a \<longrightarrow> a \<notin> li_addr ` set (lh_items lh)"
  shows "\<exists>lh'. OPENSSL_lh_insert new_item got d lh = (True, abs_map lh (key d), lh') \<and> ok lh' \<and>
    abs_map lh' = (abs_map lh)(key d \<mapsto> d)"
proof -
  obtain hv b i where g: "get_next_ptr_and_hash lh d = (hv, b, i)" by (metis surj_pair)
  note s = search[OF assms(1,2) g]
  from chain_update[OF assms(1) s(1)] obtain P Q where pq: "lh_items lh = P @ lh_buckets lh ! b @ Q"
    "\<And>c n. lh_items (lh\<lparr>lh_buckets := (lh_buckets lh)[b := c], lh_num_items := n\<rparr>) = P @ c @ Q" by blast
  have lh: "lh_hash lh = hash" "lh_comp lh = cmp" "length (lh_buckets lh) = lh_num_buckets lh"
    "kMinNumBuckets \<le> lh_num_buckets lh" "lh_num_items lh = length (lh_items lh)"
    "distinct (map (\<lambda>it. key (li_data it)) (lh_items lh))" "distinct (map li_addr (lh_items lh))"
    using assms(1) by (simp_all add: ok_def)
  have r: "abs_map lh (key d) = OPENSSL_lh_retrieve lh d" using retrieve_map[OF assms(1,2)] by simp
  show ?thesis
  proof (cases "item_at lh b i")
    case None
    then have n: "abs_map lh (key d) = None" using r g by (simp add: OPENSSL_lh_retrieve_def)
    then obtain a where a: "new_item = Some a" "a \<notin> li_addr ` set (lh_items lh)" using assms(3,4) by (cases new_item) auto
    let ?it = "\<lparr>li_addr = a, li_data = d, li_hash = hv\<rparr>" and ?c = "lh_buckets lh ! b @ [\<lparr>li_addr = a, li_data = d, li_hash = hv\<rparr>]"
    let ?lh = "lh\<lparr>lh_buckets := (lh_buckets lh)[b := ?c], lh_num_items := lh_num_items lh + 1\<rparr>"
    have its: "lh_items ?lh = P @ ?c @ Q" by (rule pq(2))
    have "placed ?lh" using s(2,3) assms(2) by (intro placed_update[OF assms(1) s(1)]) auto
    moreover have "distinct (map (\<lambda>it. key (li_data it)) (lh_items ?lh))" "distinct (map li_addr (lh_items ?lh))"
      using lh(6,7) s(4)[OF None] a(2) unfolding its pq(1) by auto
    ultimately have ok: "ok ?lh" using lh its pq(1) by (simp add: ok_def)
    have "abs_map ?lh = (abs_map lh)(key d \<mapsto> d)"
    proof -
      have "key d \<notin> fst ` set (item_entries (P @ lh_buckets lh ! b) @ item_entries Q)" using s(4)[OF None] pq(1) by (auto simp: item_entries_def)
      from map_of_middle[OF this, of d] show ?thesis unfolding abs_map_def its pq(1) by (simp add: item_entries_def)
    qed
    then show ?thesis using None g a(1) n resize_ok[OF ok, of got]
      by (simp add: OPENSSL_lh_insert_def Let_def)
  next
    case (Some it)
    from s(5)[OF this] obtain xs ys where c: "lh_buckets lh ! b = xs @ it # ys" "i = length xs" "key (li_data it) = key d" by blast
    let ?c = "xs @ it\<lparr>li_data := d\<rparr> # ys"
    let ?lh = "lh\<lparr>lh_buckets := (lh_buckets lh)[b := ?c]\<rparr>"
    have e: "lh\<lparr>lh_buckets := (lh_buckets lh)[b := ?c], lh_num_items := lh_num_items lh\<rparr> = ?lh" by simp
    have its: "lh_items ?lh = P @ ?c @ Q" using pq(2)[of "lh_num_items lh" ?c] by (simp only: e)
    have it: "li_hash it = hash d" "unat (li_hash it) mod lh_num_buckets lh = b"
    proof -
      have "it \<in> set (lh_buckets lh ! b)" using c(1) by simp
      then have "valid (li_data it)" "li_hash it = hash (li_data it)" "unat (li_hash it) mod lh_num_buckets lh = b"
        using assms(1) s(1) unfolding ok_def placed_def by blast+
      then show "li_hash it = hash d" "unat (li_hash it) mod lh_num_buckets lh = b"
        using c(3) hash_key assms(2) by metis+
    qed
    have "placed (lh\<lparr>lh_buckets := (lh_buckets lh)[b := ?c], lh_num_items := lh_num_items lh\<rparr>)"
      using it assms(2) c(1) by (intro placed_update[OF assms(1) s(1)]) auto
    then have "placed ?lh" by (simp only: e)
    moreover have "map (\<lambda>it. key (li_data it)) (lh_items ?lh) = map (\<lambda>it. key (li_data it)) (lh_items lh)"
      "map li_addr (lh_items ?lh) = map li_addr (lh_items lh)"
      unfolding its pq(1) c(1) using c(3) by simp_all
    ultimately have ok: "ok ?lh" using lh its pq(1) c(1) by (simp add: ok_def)
    have "key d \<notin> fst ` set (item_entries (P @ xs))"
      using lh(6) c(3) unfolding pq(1) c(1) by (auto simp: item_entries_def)
    from map_of_replace[OF this, of d "item_entries (ys @ Q)" "li_data it"] have "abs_map ?lh = (abs_map lh)(key d \<mapsto> d)"
      unfolding abs_map_def its pq(1) c(1) by (simp add: item_entries_def c(3))
    moreover have "(lh_buckets lh ! b)[i := it\<lparr>li_data := d\<rparr>] = ?c" using c by simp
    moreover have "abs_map lh (key d) = Some (li_data it)" using r Some g by (simp add: OPENSSL_lh_retrieve_def)
    ultimately show ?thesis using Some g ok by (simp add: OPENSSL_lh_insert_def)
  qed
qed

lemma insert_no_memory:
  assumes "ok lh" and "valid d" and "abs_map lh (key d) = None"
  shows "OPENSSL_lh_insert None got d lh = (False, None, lh)"
proof -
  obtain hv b i where g: "get_next_ptr_and_hash lh d = (hv, b, i)" by (metis surj_pair)
  then show ?thesis using retrieve_map[OF assms(1,2)] assms(3)
    by (simp add: OPENSSL_lh_insert_def OPENSSL_lh_retrieve_def split: option.splits)
qed

lemma delete_map:
  assumes "ok lh" and "valid d"
  shows "\<exists>lh'. OPENSSL_lh_delete got d lh = (abs_map lh (key d), lh') \<and> ok lh' \<and> abs_map lh' = (abs_map lh)(key d := None)"
proof -
  obtain hv b i where g: "get_next_ptr_and_hash lh d = (hv, b, i)" by (metis surj_pair)
  note s = search[OF assms g]
  have r: "abs_map lh (key d) = OPENSSL_lh_retrieve lh d" using retrieve_map[OF assms] by simp
  show ?thesis
  proof (cases "item_at lh b i")
    case None
    then show ?thesis using r g assms(1) by (auto simp: OPENSSL_lh_delete_def OPENSSL_lh_retrieve_def)
  next
    case (Some it)
    from s(5)[OF this] obtain xs ys where c: "lh_buckets lh ! b = xs @ it # ys" "i = length xs" "key (li_data it) = key d" by blast
    from chain_update[OF assms(1) s(1)] obtain P Q where pq: "lh_items lh = P @ lh_buckets lh ! b @ Q"
      "\<And>c n. lh_items (lh\<lparr>lh_buckets := (lh_buckets lh)[b := c], lh_num_items := n\<rparr>) = P @ c @ Q" by blast
    let ?lh = "lh\<lparr>lh_buckets := (lh_buckets lh)[b := xs @ ys], lh_num_items := lh_num_items lh - 1\<rparr>"
    have its: "lh_items ?lh = P @ (xs @ ys) @ Q" by (rule pq(2))
    have d: "distinct (map (\<lambda>it. key (li_data it)) (lh_items lh))" using assms(1) by (simp add: ok_def)
    have "placed ?lh" using c(1) by (intro placed_update[OF assms(1) s(1)]) auto
    then have ok: "ok ?lh" using assms(1) its pq(1) c(1) by (auto simp: ok_def)
    have "key d \<notin> fst ` set (item_entries (P @ xs) @ item_entries (ys @ Q))"
      using d c(3) unfolding pq(1) c(1) by (auto simp: item_entries_def)
    from map_of_remove[OF this, of "li_data it"] have "abs_map ?lh = (abs_map lh)(key d := None)"
      unfolding abs_map_def its pq(1) c(1) by (simp add: item_entries_def c(3))
    then show ?thesis using Some g ok resize_ok[OF ok, of got] r c
      by (simp add: OPENSSL_lh_delete_def OPENSSL_lh_retrieve_def Let_def)
  qed
qed

lemma num_items_map:
  assumes "ok lh"
  shows "OPENSSL_lh_num_items lh = card (dom (abs_map lh))"
proof -
  have d: "distinct (map fst (item_entries (lh_items lh)))" using assms by (simp add: keys_item_entries ok_def)
  have "card (dom (abs_map lh)) = length (item_entries (lh_items lh))"
    unfolding abs_map_def dom_map_of_conv_image_fst using distinct_card[OF d] by simp
  then show ?thesis using assms by (simp add: OPENSSL_lh_num_items_def ok_def item_entries_def)
qed

lemma new_map:
  assumes "OPENSSL_lh_new got_lh got_buckets hash cmp = Some lh"
  shows "ok lh \<and> abs_map lh = Map.empty"
  using assms by (auto simp: OPENSSL_lh_new_def ok_def placed_def abs_map_def item_entries_def lh_items_def split: if_splits)

text \<open>In an iteration no table is resized, so an element is taken out of its chain and nothing else changes.\<close>

lemma delete_in_place:
  assumes "ok lh" and "lh_callback_depth lh > 0" and "b < lh_num_buckets lh" and "lh_buckets lh ! b = A @ it # B"
  shows "OPENSSL_lh_delete got (li_data it) lh =
    (Some (li_data it), lh\<lparr>lh_buckets := (lh_buckets lh)[b := A @ B], lh_num_items := lh_num_items lh - 1\<rparr>)"
proof -
  have it: "it \<in> set (lh_buckets lh ! b)" using assms(4) by simp
  then have p: "valid (li_data it)" "li_hash it = hash (li_data it)" "unat (li_hash it) mod lh_num_buckets lh = b"
    using assms(1,3) unfolding ok_def placed_def by blast+
  obtain hv b' i where g: "get_next_ptr_and_hash lh (li_data it) = (hv, b', i)" by (metis surj_pair)
  note s = search[OF assms(1) p(1) g]
  have b': "b' = b" using s(3) p by simp
  have l: "length (lh_buckets lh) = lh_num_buckets lh" and d: "distinct (map (\<lambda>it. key (li_data it)) (lh_items lh))"
    using assms(1) by (simp_all add: ok_def)
  have sub: "set (lh_buckets lh ! b) \<subseteq> set (lh_items lh)" using assms(3) in_items[OF l] by blast
  from chain_update[OF assms(1,3)] obtain P Q where "lh_items lh = P @ (A @ it # B) @ Q" unfolding assms(4) by blast
  with d have di: "distinct (map (\<lambda>it. key (li_data it)) (A @ it # B))" by (simp only: map_append distinct_append)
  have "item_at lh b i \<noteq> None" using s(4)[unfolded b'] it sub by blast
  then obtain it' where it': "item_at lh b i = Some it'" by blast
  from s(5)[unfolded b', OF this] obtain xs ys where c: "A @ it # B = xs @ it' # ys" "i = length xs"
    "key (li_data it') = key (li_data it)" unfolding assms(4) by blast
  have "A = xs \<and> it = it' \<and> B = ys"
  proof -
    have at: "(A @ it # B) ! length A = it" "(A @ it # B) ! length xs = it'" by (simp, simp add: c(1))
    have "length A < length (A @ it # B)" "length xs < length (A @ it # B)" by (simp, simp add: c(1))
    with di at c(3) have "length A = length xs" unfolding distinct_conv_nth by (metis length_map nth_map)
    then show ?thesis using c(1) by simp
  qed
  then show ?thesis using g it' assms(2,4) c(2) b'
    by (simp add: OPENSSL_lh_delete_def Let_def lh_maybe_resize_def)
qed

lemma iterate_chain:
  assumes "ok lh" and "lh_callback_depth lh > 0" and "b < lh_num_buckets lh" and "lh_buckets lh ! b = A @ its"
  shows "\<exists>lh'. lh_iterate (sweep got old f) b (head_addr its) (s, lh) =
      lh_iterate (sweep got old f) b None (fold f (map li_data its) s, lh') \<and> ok lh' \<and>
    lh_callback_depth lh' = lh_callback_depth lh \<and> lh_num_buckets lh' = lh_num_buckets lh \<and>
    lh_buckets lh' = (lh_buckets lh)[b := A @ filter (\<lambda>it. \<not> old (li_data it)) its]"
  using assms
proof (induction its arbitrary: A s lh)
  case Nil
  have "(lh_buckets lh)[b := A] = lh_buckets lh" using Nil.prems(4) by (metis append_Nil2 list_update_id)
  then show ?case using Nil.prems(1) by auto
next
  case (Cons it its)
  have l: "length (lh_buckets lh) = lh_num_buckets lh" using Cons.prems(1) by (simp add: ok_def)
  have da: "distinct (map li_addr (concat (lh_buckets lh)))" using Cons.prems(1) by (simp add: ok_def lh_items_def)
  have "deref_item (li_addr it) (lh_buckets lh) = Some (li_data it, head_addr its)"
    using deref_item_at[OF _ Cons.prems(4) da] Cons.prems(3) l by simp
  then have step: "lh_iterate (sweep got old f) b (head_addr (it # its)) (s, lh) =
    lh_iterate (sweep got old f) b (head_addr its) (sweep got old f (li_data it) (s, lh))"
    using lh_iterate.simps[of "sweep got old f" b "Some (li_addr it)" "(s, lh)"] by simp
  show ?case
  proof (cases "old (li_data it)")
    case False
    have "lh_buckets lh ! b = (A @ [it]) @ its" using Cons.prems(4) by simp
    from Cons.IH[OF Cons.prems(1-3) this, of "f (li_data it) s"] show ?thesis using step False by (simp add: sweep_apply)
  next
    case True
    let ?lh = "lh\<lparr>lh_buckets := (lh_buckets lh)[b := A @ its], lh_num_items := lh_num_items lh - 1\<rparr>"
    have del: "OPENSSL_lh_delete got (li_data it) lh = (Some (li_data it), ?lh)"
      by (rule delete_in_place[OF Cons.prems])
    have "it \<in> set (lh_buckets lh ! b)" using Cons.prems(4) by simp
    then have "valid (li_data it)" using Cons.prems(1,3) unfolding ok_def placed_def by blast
    from delete_map[OF Cons.prems(1) this, of got] del have ok: "ok ?lh" by simp
    have "lh_buckets ?lh ! b = A @ its" using Cons.prems(3) l by simp
    with Cons.IH[OF ok, of A "f (li_data it) s"] Cons.prems(2,3) show ?thesis
      using step True del by (simp add: sweep_apply)
  qed
qed

lemma iterate_buckets:
  assumes "ok lh" and "lh_callback_depth lh > 0" and "b < lh_num_buckets lh"
  shows "\<exists>lh'. lh_iterate (sweep got old f) b (chain_head lh b) (s, lh) =
      Some (fold f (map li_data (concat (drop b (lh_buckets lh)))) s, lh') \<and> ok lh' \<and>
    lh_callback_depth lh' = lh_callback_depth lh \<and> lh_num_buckets lh' = lh_num_buckets lh \<and>
    concat (lh_buckets lh') = concat (take b (lh_buckets lh)) @
      filter (\<lambda>it. \<not> old (li_data it)) (concat (drop b (lh_buckets lh)))"
  using assms
proof (induction "lh_num_buckets lh - b" arbitrary: b s lh)
  case (Suc n)
  let ?bs = "lh_buckets lh" and ?keep = "filter (\<lambda>it. \<not> old (li_data it))"
  have l: "length ?bs = lh_num_buckets lh" using Suc.prems(1) by (simp add: ok_def)
  have dr: "drop b ?bs = ?bs ! b # drop (Suc b) ?bs" using Suc.prems(3) l by (simp add: Cons_nth_drop_Suc)
  obtain lh1 where i: "lh_iterate (sweep got old f) b (head_addr (?bs ! b)) (s, lh) =
      lh_iterate (sweep got old f) b None (fold f (map li_data (?bs ! b)) s, lh1)" "ok lh1"
    "lh_callback_depth lh1 = lh_callback_depth lh" "lh_num_buckets lh1 = lh_num_buckets lh"
    "lh_buckets lh1 = ?bs[b := ?keep (?bs ! b)]"
    using iterate_chain[OF Suc.prems, of "[]" "?bs ! b" got old f s] by auto
  note end_chain = lh_iterate.simps[of "sweep got old f" b None "(fold f (map li_data (?bs ! b)) s, lh1)"]
  show ?case
  proof (cases "b + 1 < lh_num_buckets lh")
    case True
    have tk: "take (b + 1) (lh_buckets lh1) = take b ?bs @ [?keep (?bs ! b)]" "drop (b + 1) (lh_buckets lh1) = drop (b + 1) ?bs"
      using Suc.prems(3) l unfolding i(5) by (simp_all add: take_Suc_conv_app_nth)
    have "n = lh_num_buckets lh1 - (b + 1)" using Suc.hyps(2) i(4) by simp
    from Suc.hyps(1)[OF this i(2), of "fold f (map li_data (?bs ! b)) s"] show ?thesis
      using Suc.prems(2) True i(1,3,4) end_chain tk unfolding chain_head_alt[of lh b] by (auto simp: dr)
  next
    case False
    then have e: "drop (Suc b) ?bs = []" using l by simp
    have "lh_buckets lh1 = take b ?bs @ [?keep (?bs ! b)]" using Suc.prems(3) l e unfolding i(5)
      by (simp add: upd_conv_take_nth_drop)
    then show ?thesis using False i(1-4) end_chain unfolding chain_head_alt[of lh b] by (auto simp: dr e)
  qed
qed simp

lemma abs_map_filter:
  "distinct (map (\<lambda>it. key (li_data it)) its) \<Longrightarrow> map_of (item_entries (filter (\<lambda>it. \<not> old (li_data it)) its)) k =
    (case map_of (item_entries its) k of None \<Rightarrow> None | Some d \<Rightarrow> if old d then None else Some d)"
  by (induction its) (auto simp: item_entries_def map_of_eq_None_iff split: option.splits)

text \<open>Every element is visited once, no freed item is used, and those taken out are gone at the end.\<close>

lemma doall_map:
  assumes "ok lh"
  shows "\<exists>lh'. OPENSSL_lh_doall_arg got (sweep got old f) (s, lh) = Some (fold f (map li_data (lh_items lh)) s, lh') \<and>
    ok lh' \<and> abs_map lh' = (\<lambda>k. case abs_map lh k of None \<Rightarrow> None | Some d \<Rightarrow> if old d then None else Some d)"
proof -
  let ?lh = "if lh_callback_depth lh < UINT_MAX then lh\<lparr>lh_callback_depth := lh_callback_depth lh + 1\<rparr> else lh"
  have same: "ok (lh\<lparr>lh_callback_depth := n\<rparr>) = ok lh" "lh_items (lh\<lparr>lh_callback_depth := n\<rparr>) = lh_items lh"
    "abs_map (lh\<lparr>lh_callback_depth := n\<rparr>) = abs_map lh" for n and lh :: "'d lhash"
    by (simp_all add: ok_def placed_def abs_map_def lh_items_def)
  have ok: "ok ?lh" "lh_items ?lh = lh_items lh" using assms same by simp_all
  have depth: "lh_callback_depth ?lh > 0" proof -
    have "x < UINT_MAX \<Longrightarrow> x + 1 > 0" "\<not> x < UINT_MAX \<Longrightarrow> x > 0" for x :: u32
      by (simp add: UINT_MAX_def word_less_nat_alt unat_word_ariths, auto simp: UINT_MAX_def word_gt_0)
    then show ?thesis by simp
  qed
  have n: "0 < lh_num_buckets ?lh" using assms by (simp add: ok_def kMinNumBuckets_def)
  obtain lh1 where i: "lh_iterate (sweep got old f) 0 (chain_head ?lh 0) (s, ?lh) =
      Some (fold f (map li_data (lh_items lh)) s, lh1)" "ok lh1"
    "lh_items lh1 = filter (\<lambda>it. \<not> old (li_data it)) (lh_items lh)"
    using iterate_buckets[OF ok(1) depth n, of got old f s] ok(2) by (auto simp: lh_items_def)
  have d: "distinct (map (\<lambda>it. key (li_data it)) (lh_items lh))" using assms by (simp add: ok_def)
  have a: "abs_map lh1 = (\<lambda>k. case abs_map lh k of None \<Rightarrow> None | Some d \<Rightarrow> if old d then None else Some d)"
    using abs_map_filter[OF d, of old] by (auto simp: abs_map_def i(3))
  let ?lh2 = "if lh_callback_depth lh1 < UINT_MAX then lh1\<lparr>lh_callback_depth := lh_callback_depth lh1 - 1\<rparr> else lh1"
  have ok2: "ok ?lh2" "abs_map ?lh2 = abs_map lh1" using i(2) same by simp_all
  have "OPENSSL_lh_doall_arg got (sweep got old f) (s, lh) =
      Some (fold f (map li_data (lh_items lh)) s, lh_maybe_resize got ?lh2)"
    using i(1) n by (simp add: OPENSSL_lh_doall_arg_def Let_def)
  then show ?thesis using resize_ok[OF ok2(1), of got] ok2(2) a by simp
qed

end

end
