(* ===== verification/Obj.thy ===== *)
theory Obj
  imports Asn1_Objects Stack Lhash_Map
begin

text \<open>
  Object identifiers and their names (\<open>crypto/obj/obj.c\<close>, the object's struct and constructors of
  \<open>crypto/asn1\<close>, and the hash and string functions of \<open>crypto/mem.c\<close> they use).

  The tables of built-in objects (\<open>obj_dat.h\<close>, which \<open>objects.go\<close> generates from a list) are an argument,
  a record of the four arrays, and so is what the allocations of a call return. An object is immutable
  once it is in a table, so a pointer to one is the object. C strings are lists of non-zero bytes. The
  locks have no part in a sequential model. The result of a function that can dereference a null pointer
  is \<open>None\<close> when it does.
\<close>

section \<open>Strings and hashes\<close>

definition CBS_ASN1_OBJECT :: u32 where "CBS_ASN1_OBJECT = 0x6"

type_synonym c_text = "u8 list"

fun strcmp :: "c_text \<Rightarrow> c_text \<Rightarrow> int" where
  "strcmp [] [] = 0"
| "strcmp [] (b # bs) = -1"
| "strcmp (a # as) [] = 1"
| "strcmp (a # as) (b # bs) = (if a < b then -1 else if b < a then 1 else strcmp as bs)"

definition kPrime :: u32 where "kPrime = 16777619"
definition kOffsetBasis :: u32 where "kOffsetBasis = 2166136261"

fun hash32_loop :: "u32 \<Rightarrow> u8 list \<Rightarrow> u32" where
  "hash32_loop h [] = h"
| "hash32_loop h (c # cs) = hash32_loop ((h XOR ucast c) * kPrime) cs"

definition OPENSSL_hash32 :: "u8 list \<Rightarrow> u32" where
  "OPENSSL_hash32 bytes = hash32_loop kOffsetBasis bytes"

definition OPENSSL_strhash :: "c_text \<Rightarrow> u32" where
  "OPENSSL_strhash s = OPENSSL_hash32 s"

definition OPENSSL_strdup :: "bool \<Rightarrow> c_text option \<Rightarrow> c_text option" where
  "OPENSSL_strdup got s = (case s of None \<Rightarrow> None | Some s \<Rightarrow> if got then Some s else None)"

text \<open>What is written to \<open>dst\<close>, its terminator included, and the result.\<close>

fun strlcpy_loop :: "c_text \<Rightarrow> nat \<Rightarrow> nat \<Rightarrow> c_text \<times> c_text \<times> nat \<times> nat" where
  "strlcpy_loop (c # src) dst_size l =
     (if dst_size > 1 then (case strlcpy_loop src (dst_size - 1) (l + 1) of (w, r) \<Rightarrow> (c # w, r)) else ([], c # src, dst_size, l))"
| "strlcpy_loop [] dst_size l = ([], [], dst_size, l)"

definition OPENSSL_strlcpy :: "c_text \<Rightarrow> nat \<Rightarrow> u8 list \<times> nat" where
  "OPENSSL_strlcpy src dst_size =
     (case strlcpy_loop src dst_size 0 of (w, src, dst_size, l) \<Rightarrow>
        (if dst_size > 0 then w @ [0] else w, l + length src))"

section \<open>Objects\<close>

record asn1_object =
  ob_sn :: "c_text option"
  ob_ln :: "c_text option"
  ob_nid :: int
  ob_length :: int
  ob_data :: "u8 list option"
  ob_flags :: u32

definition ASN1_OBJECT_FLAG_DYNAMIC :: u32 where "ASN1_OBJECT_FLAG_DYNAMIC = 0x01"
definition ASN1_OBJECT_FLAG_DYNAMIC_STRINGS :: u32 where "ASN1_OBJECT_FLAG_DYNAMIC_STRINGS = 0x04"
definition ASN1_OBJECT_FLAG_DYNAMIC_DATA :: u32 where "ASN1_OBJECT_FLAG_DYNAMIC_DATA = 0x08"

definition dynamic_flags :: u32 where
  "dynamic_flags = ASN1_OBJECT_FLAG_DYNAMIC OR ASN1_OBJECT_FLAG_DYNAMIC_STRINGS OR ASN1_OBJECT_FLAG_DYNAMIC_DATA"

datatype obj_table = By_data | By_nid | By_short_name | By_long_name

text \<open>What the allocations of a call return: an object, its bytes and names, the blocks of a \<open>CBB\<close>, the
  hash tables and their items and bucket arrays.\<close>

record obj_mem =
  om_object :: bool
  om_data :: "nat \<Rightarrow> u8 list option"
  om_ln :: bool
  om_sn :: bool
  om_cbb :: "nat \<Rightarrow> bool"
  om_table :: "obj_table \<Rightarrow> bool"
  om_item :: "obj_table \<Rightarrow> nat option"
  om_buckets :: "nat \<Rightarrow> bool"

definition ASN1_OBJECT_new :: "obj_mem \<Rightarrow> asn1_object option" where
  "ASN1_OBJECT_new m =
     (if \<not> om_object m then None
      else Some \<lparr>ob_sn = None, ob_ln = None, ob_nid = 0, ob_length = 0, ob_data = None, ob_flags = ASN1_OBJECT_FLAG_DYNAMIC\<rparr>)"

definition OBJ_dup :: "obj_mem \<Rightarrow> asn1_object option \<Rightarrow> asn1_object option" where
  "OBJ_dup m obj = (case obj of None \<Rightarrow> None | Some o' \<Rightarrow>
     if ob_flags o' AND ASN1_OBJECT_FLAG_DYNAMIC = 0 then Some o'
     else case ASN1_OBJECT_new m of None \<Rightarrow> None | Some r \<Rightarrow>
       let r = r\<lparr>ob_ln := None, ob_sn := None\<rparr> in
       case om_data m (nat (ob_length o')) of None \<Rightarrow> None | Some data \<Rightarrow>
         let data = (case ob_data o' of None \<Rightarrow> data | Some d \<Rightarrow> take (nat (ob_length o')) d);
             r = r\<lparr>ob_data := Some data, ob_length := ob_length o', ob_nid := ob_nid o'\<rparr>;
             ln = OPENSSL_strdup (om_ln m) (ob_ln o');
             sn = OPENSSL_strdup (om_sn m) (ob_sn o')
         in if ob_ln o' \<noteq> None \<and> ln = None then None
            else if ob_sn o' \<noteq> None \<and> sn = None then None
            else Some (r\<lparr>ob_sn := sn, ob_ln := ln, ob_flags := ob_flags o' OR dynamic_flags\<rparr>))"

definition ASN1_OBJECT_create :: "obj_mem \<Rightarrow> int \<Rightarrow> u8 list \<Rightarrow> int \<Rightarrow> c_text option \<Rightarrow> c_text option \<Rightarrow> asn1_object option" where
  "ASN1_OBJECT_create m nid data len sn ln =
     OBJ_dup m (Some \<lparr>ob_sn = sn, ob_ln = ln, ob_nid = nid, ob_length = len, ob_data = Some data, ob_flags = dynamic_flags\<rparr>)"

text \<open>What a comparison of \<open>length\<close> bytes at \<open>data\<close> reads; there is nothing at a null pointer, whose length
  is 0.\<close>

definition obj_bytes :: "asn1_object \<Rightarrow> u8 list" where
  "obj_bytes ob = (case ob_data ob of None \<Rightarrow> [] | Some d \<Rightarrow> take (nat (ob_length ob)) d)"

definition OBJ_cmp :: "asn1_object \<Rightarrow> asn1_object \<Rightarrow> int" where
  "OBJ_cmp a b =
     (let ret = ob_length a - ob_length b in if ret \<noteq> 0 then ret else OPENSSL_memcmp (obj_bytes a) (obj_bytes b))"

definition OBJ_get0_data :: "asn1_object option \<Rightarrow> u8 list option" where
  "OBJ_get0_data obj = (case obj of None \<Rightarrow> None | Some ob \<Rightarrow> ob_data ob)"

definition OBJ_length :: "asn1_object option \<Rightarrow> nat" where
  "OBJ_length obj = (case obj of None \<Rightarrow> 0 | Some ob \<Rightarrow> if ob_length ob < 0 then 0 else nat (ob_length ob))"

text \<open>A name a comparison reads; only objects that have the name are in the tables sorted by it.\<close>

definition c_str :: "c_text option \<Rightarrow> c_text" where
  "c_str s = (case s of None \<Rightarrow> [] | Some s \<Rightarrow> s)"

definition hash_nid :: "asn1_object \<Rightarrow> u32" where
  "hash_nid obj = word_of_int (ob_nid obj)"

definition cmp_nid :: "asn1_object \<Rightarrow> asn1_object \<Rightarrow> int" where
  "cmp_nid a b = ob_nid a - ob_nid b"

definition hash_data :: "asn1_object \<Rightarrow> u32" where
  "hash_data obj = OPENSSL_hash32 (obj_bytes obj)"

definition cmp_data :: "asn1_object \<Rightarrow> asn1_object \<Rightarrow> int" where
  "cmp_data a b =
     (let i = ob_length a - ob_length b in if i \<noteq> 0 then i else OPENSSL_memcmp (obj_bytes a) (obj_bytes b))"

definition hash_short_name :: "asn1_object \<Rightarrow> u32" where
  "hash_short_name obj = OPENSSL_strhash (c_str (ob_sn obj))"

definition cmp_short_name :: "asn1_object \<Rightarrow> asn1_object \<Rightarrow> int" where
  "cmp_short_name a b = strcmp (c_str (ob_sn a)) (c_str (ob_sn b))"

definition hash_long_name :: "asn1_object \<Rightarrow> u32" where
  "hash_long_name obj = OPENSSL_strhash (c_str (ob_ln obj))"

definition cmp_long_name :: "asn1_object \<Rightarrow> asn1_object \<Rightarrow> int" where
  "cmp_long_name a b = strcmp (c_str (ob_ln a)) (c_str (ob_ln b))"

section \<open>The objects the library knows\<close>

definition NID_undef :: int where "NID_undef = 0"

record obj_dat =
  kObjects :: "asn1_object list"
  kNIDsInShortNameOrder :: "nat list"
  kNIDsInLongNameOrder :: "nat list"
  kNIDsInOIDOrder :: "nat list"

definition NUM_NID :: "obj_dat \<Rightarrow> nat" where
  "NUM_NID dat = length (kObjects dat)"

text \<open>The objects added at run time and the next number.\<close>

record obj_globals =
  gl_added :: "obj_table \<Rightarrow> asn1_object lhash option"
  gl_next_nid :: u32

definition obj_next_nid :: "obj_globals \<Rightarrow> int \<times> obj_globals" where
  "obj_next_nid gl = (sint (gl_next_nid gl), gl\<lparr>gl_next_nid := gl_next_nid gl + 1\<rparr>)"

text \<open>The search of the C library in a sorted array, for the element the comparison is 0 on.\<close>

function bsearch_range :: "('e \<Rightarrow> int) \<Rightarrow> 'e list \<Rightarrow> nat \<Rightarrow> nat \<Rightarrow> 'e option" where
  "bsearch_range compar base l u =
     (if l < u then
        let idx = (l + u) div 2; r = compar (base ! idx) in
        if r < 0 then bsearch_range compar base l idx
        else if r > 0 then bsearch_range compar base (idx + 1) u
        else Some (base ! idx)
      else None)"
  by auto
termination by (relation "measure (\<lambda>(_, _, l, u). u - l)") auto

declare bsearch_range.simps [simp del]

definition bsearch :: "('e \<Rightarrow> int) \<Rightarrow> 'e list \<Rightarrow> 'e option" where
  "bsearch compar base = bsearch_range compar base 0 (length base)"

definition obj_cmp :: "obj_dat \<Rightarrow> asn1_object \<Rightarrow> nat \<Rightarrow> int" where
  "obj_cmp dat a nid =
     (let b = kObjects dat ! nid in
      if ob_length a < ob_length b then -1
      else if ob_length a > ob_length b then 1
      else OPENSSL_memcmp (obj_bytes a) (obj_bytes b))"

definition short_name_cmp :: "obj_dat \<Rightarrow> c_text \<Rightarrow> nat \<Rightarrow> int" where
  "short_name_cmp dat name nid = strcmp name (c_str (ob_sn (kObjects dat ! nid)))"

definition long_name_cmp :: "obj_dat \<Rightarrow> c_text \<Rightarrow> nat \<Rightarrow> int" where
  "long_name_cmp dat name nid = strcmp name (c_str (ob_ln (kObjects dat ! nid)))"

text \<open>The search in a table of added objects, if there is one, which all four lookups begin with. Of the
  template only the field of the key is read; the code leaves the others unset.\<close>

definition retrieve_added :: "obj_globals \<Rightarrow> obj_table \<Rightarrow> asn1_object \<Rightarrow> asn1_object option" where
  "retrieve_added gl t obj = (case gl_added gl t of None \<Rightarrow> None | Some lh \<Rightarrow> OPENSSL_lh_retrieve lh obj)"

definition obj_template :: asn1_object where
  "obj_template = \<lparr>ob_sn = None, ob_ln = None, ob_nid = 0, ob_length = 0, ob_data = None, ob_flags = 0\<rparr>"

definition OBJ_obj2nid :: "obj_dat \<Rightarrow> obj_globals \<Rightarrow> asn1_object option \<Rightarrow> int" where
  "OBJ_obj2nid dat gl obj = (case obj of None \<Rightarrow> NID_undef | Some ob \<Rightarrow>
     if ob_nid ob \<noteq> 0 then ob_nid ob
     else case retrieve_added gl By_data ob of
         Some found \<Rightarrow> ob_nid found
       | None \<Rightarrow>
           (case bsearch (obj_cmp dat ob) (kNIDsInOIDOrder dat) of
              None \<Rightarrow> NID_undef
            | Some nid \<Rightarrow> ob_nid (kObjects dat ! nid)))"

definition OBJ_cbs2nid :: "obj_dat \<Rightarrow> obj_globals \<Rightarrow> cbs \<Rightarrow> int" where
  "OBJ_cbs2nid dat gl s =
     (if CBS_len s > INT_MAX then NID_undef
      else OBJ_obj2nid dat gl (Some (obj_template\<lparr>ob_data := Some (CBS_data s), ob_length := int (CBS_len s)\<rparr>)))"

definition OBJ_sn2nid :: "obj_dat \<Rightarrow> obj_globals \<Rightarrow> c_text \<Rightarrow> int" where
  "OBJ_sn2nid dat gl short_name =
     (case retrieve_added gl By_short_name (obj_template\<lparr>ob_sn := Some short_name\<rparr>) of
        Some found \<Rightarrow> ob_nid found
      | None \<Rightarrow>
          (case bsearch (short_name_cmp dat short_name) (kNIDsInShortNameOrder dat) of
             None \<Rightarrow> NID_undef
           | Some nid \<Rightarrow> ob_nid (kObjects dat ! nid)))"

definition OBJ_ln2nid :: "obj_dat \<Rightarrow> obj_globals \<Rightarrow> c_text \<Rightarrow> int" where
  "OBJ_ln2nid dat gl long_name =
     (case retrieve_added gl By_long_name (obj_template\<lparr>ob_ln := Some long_name\<rparr>) of
        Some found \<Rightarrow> ob_nid found
      | None \<Rightarrow>
          (case bsearch (long_name_cmp dat long_name) (kNIDsInLongNameOrder dat) of
             None \<Rightarrow> NID_undef
           | Some nid \<Rightarrow> ob_nid (kObjects dat ! nid)))"

definition OBJ_nid2obj :: "obj_dat \<Rightarrow> obj_globals \<Rightarrow> int \<Rightarrow> asn1_object option" where
  "OBJ_nid2obj dat gl nid =
     (if nid \<ge> 0 \<and> nid < int (NUM_NID dat) then
        if nid \<noteq> NID_undef \<and> ob_nid (kObjects dat ! nat nid) = NID_undef then None
        else Some (kObjects dat ! nat nid)
      else retrieve_added gl By_nid (obj_template\<lparr>ob_nid := nid\<rparr>))"

definition OBJ_nid2sn :: "obj_dat \<Rightarrow> obj_globals \<Rightarrow> int \<Rightarrow> c_text option" where
  "OBJ_nid2sn dat gl nid = (case OBJ_nid2obj dat gl nid of None \<Rightarrow> None | Some obj \<Rightarrow> ob_sn obj)"

definition OBJ_nid2ln :: "obj_dat \<Rightarrow> obj_globals \<Rightarrow> int \<Rightarrow> c_text option" where
  "OBJ_nid2ln dat gl nid = (case OBJ_nid2obj dat gl nid of None \<Rightarrow> None | Some obj \<Rightarrow> ob_ln obj)"

definition OBJ_nid2cbb :: "obj_dat \<Rightarrow> obj_globals \<Rightarrow> nat \<Rightarrow> int \<Rightarrow> (cbb, unit) op" where
  "OBJ_nid2cbb dat gl out nid =
     (case OBJ_nid2obj dat gl nid of None \<Rightarrow> fail | Some obj \<Rightarrow>
        sbind (CBB_add_asn1 out CBS_ASN1_OBJECT) (\<lambda>_.
        sbind (CBB_add_bytes (out + 1) (obj_bytes obj)) (\<lambda>_.
        CBB_flush out)))"

text \<open>\<open>get_nid\<close> is null or the counter.\<close>

definition create_object_with_text_oid ::
  "obj_mem \<Rightarrow> (obj_globals \<Rightarrow> int \<times> obj_globals) option \<Rightarrow> c_text \<Rightarrow> c_text option \<Rightarrow> c_text option \<Rightarrow>
    obj_globals \<Rightarrow> asn1_object option \<times> obj_globals" where
  "create_object_with_text_oid m get_nid oid short_name long_name gl =
     (case CBB_init (om_cbb m) 32 of (None, _) \<Rightarrow> (None, gl) | (Some _, cbb) \<Rightarrow>
      case CBB_add_asn1_oid_from_text 0 oid cbb of (None, _) \<Rightarrow> (None, gl) | (Some _, cbb) \<Rightarrow>
      case CBB_finish 0 True True cbb of (None, _) \<Rightarrow> (None, gl) | (Some buf, _) \<Rightarrow>
        (case (case get_nid of None \<Rightarrow> (NID_undef, gl) | Some f \<Rightarrow> f gl) of (nid, gl) \<Rightarrow>
           (ASN1_OBJECT_create m nid buf (int (length buf)) short_name long_name, gl)))"

definition OBJ_txt2obj :: "obj_mem \<Rightarrow> obj_dat \<Rightarrow> obj_globals \<Rightarrow> c_text \<Rightarrow> bool \<Rightarrow> asn1_object option" where
  "OBJ_txt2obj m dat gl s dont_search_names =
     (let nid = (if dont_search_names then NID_undef
        else let nid = OBJ_sn2nid dat gl s in if nid = NID_undef then OBJ_ln2nid dat gl s else nid)
      in if nid \<noteq> NID_undef then OBJ_nid2obj dat gl nid
         else fst (create_object_with_text_oid m None s None None gl))"

definition OBJ_txt2nid :: "obj_mem \<Rightarrow> obj_dat \<Rightarrow> obj_globals \<Rightarrow> c_text \<Rightarrow> int" where
  "OBJ_txt2nid m dat gl s = OBJ_obj2nid dat gl (OBJ_txt2obj m dat gl s False)"

definition strlcpy_int :: "c_text \<Rightarrow> int \<Rightarrow> u8 list \<times> int" where
  "strlcpy_int src dst_size =
     (case OPENSSL_strlcpy src (if dst_size < 0 then 0 else nat dst_size) of (w, r) \<Rightarrow>
        (w, if r > INT_MAX then -1 else int r))"

text \<open>What is written to \<open>out\<close>, and the result.\<close>

definition OBJ_obj2txt :: "obj_mem \<Rightarrow> obj_dat \<Rightarrow> obj_globals \<Rightarrow> int \<Rightarrow> asn1_object option \<Rightarrow> bool \<Rightarrow> u8 list \<times> int" where
  "OBJ_obj2txt m dat gl out_len obj always_return_oid = (case obj of None \<Rightarrow> strlcpy_int [] out_len | Some ob \<Rightarrow>
     if ob_length ob = 0 then strlcpy_int [] out_len
     else let nid = (if always_return_oid then NID_undef else OBJ_obj2nid dat gl obj);
              name = (if nid = NID_undef then None
                else let name = OBJ_nid2ln dat gl nid in if name = None then OBJ_nid2sn dat gl nid else name)
       in case name of
           Some name \<Rightarrow> strlcpy_int name out_len
         | None \<Rightarrow>
             (case CBS_asn1_oid_to_text (om_cbb m) (CBS_init (obj_bytes ob) (nat (ob_length ob))) of
                None \<Rightarrow> (if out_len > 0 then [0] else [], -1)
              | Some txt \<Rightarrow> strlcpy_int (butlast txt) out_len))"

section \<open>Adding objects\<close>

fun table_hash :: "obj_table \<Rightarrow> asn1_object \<Rightarrow> u32" where
  "table_hash By_nid = hash_nid"
| "table_hash By_data = hash_data"
| "table_hash By_short_name = hash_short_name"
| "table_hash By_long_name = hash_long_name"

fun table_cmp :: "obj_table \<Rightarrow> asn1_object \<Rightarrow> asn1_object \<Rightarrow> int" where
  "table_cmp By_nid = cmp_nid"
| "table_cmp By_data = cmp_data"
| "table_cmp By_short_name = cmp_short_name"
| "table_cmp By_long_name = cmp_long_name"

definition table_new :: "obj_mem \<Rightarrow> obj_table \<Rightarrow> asn1_object lhash option" where
  "table_new m t = OPENSSL_lh_new (om_table m t) (om_buckets m) (table_hash t) (table_cmp t)"

text \<open>The insertion dereferences the table, which is null if it could not be allocated.\<close>

definition insert_added :: "obj_mem \<Rightarrow> obj_table \<Rightarrow> asn1_object \<Rightarrow> obj_globals \<Rightarrow> (bool \<times> obj_globals) option" where
  "insert_added m t obj gl = (case gl_added gl t of None \<Rightarrow> None | Some lh \<Rightarrow>
     (case OPENSSL_lh_insert (om_item m t) (om_buckets m) obj lh of (ok, _, lh) \<Rightarrow>
        Some (ok, gl\<lparr>gl_added := (gl_added gl)(t \<mapsto> lh)\<rparr>)))"

definition insert_if :: "bool \<Rightarrow> obj_mem \<Rightarrow> obj_table \<Rightarrow> asn1_object \<Rightarrow> bool \<times> obj_globals \<Rightarrow> (bool \<times> obj_globals) option" where
  "insert_if c m t obj st = (case st of (ok, gl) \<Rightarrow>
     if c then (case insert_added m t obj gl of None \<Rightarrow> None | Some (ok', gl) \<Rightarrow> Some (ok \<and> ok', gl)) else Some (ok, gl))"

definition obj_add_object :: "obj_mem \<Rightarrow> asn1_object \<Rightarrow> obj_globals \<Rightarrow> (bool \<times> asn1_object \<times> obj_globals) option" where
  "obj_add_object m obj gl =
     (let obj = obj\<lparr>ob_flags := ob_flags obj AND NOT dynamic_flags\<rparr>;
          gl = (if gl_added gl By_nid = None then gl\<lparr>gl_added := table_new m\<rparr> else gl)
      in case insert_added m By_nid obj gl of None \<Rightarrow> None | Some st \<Rightarrow>
         case insert_if (ob_length obj \<noteq> 0 \<and> ob_data obj \<noteq> None) m By_data obj st of None \<Rightarrow> None | Some st \<Rightarrow>
         case insert_if (ob_sn obj \<noteq> None) m By_short_name obj st of None \<Rightarrow> None | Some st \<Rightarrow>
         case insert_if (ob_ln obj \<noteq> None) m By_long_name obj st of None \<Rightarrow> None | Some (ok, gl) \<Rightarrow>
           Some (ok, obj, gl))"

definition OBJ_create :: "obj_mem \<Rightarrow> c_text \<Rightarrow> c_text option \<Rightarrow> c_text option \<Rightarrow> obj_globals \<Rightarrow> (int \<times> obj_globals) option" where
  "OBJ_create m oid short_name long_name gl =
     (case create_object_with_text_oid m (Some obj_next_nid) oid short_name long_name gl of
        (None, gl) \<Rightarrow> Some (NID_undef, gl)
      | (Some op, gl) \<Rightarrow>
          (case obj_add_object m op gl of
             None \<Rightarrow> None
           | Some (ok, op, gl) \<Rightarrow> Some (if ok then ob_nid op else NID_undef, gl)))"

end
