(* ===== verification/Obj_Map.thy ===== *)
theory Obj_Map
  imports Obj "HOL-Library.Product_Lexorder"
begin

text \<open>
  The lookups of \<open>Obj\<close> are those of one collection of objects. Its comparison functions are linear orders
  (interpretations of \<open>comparison\<close>), the tables of added objects are maps (an interpretation of
  \<open>hash_keys\<close> for each of the four), and the built-in tables, when they are sorted and complete, are
  searched for the object with a given name or identifier.
\<close>

section \<open>The comparison functions\<close>

lemma strcmp_order: "strcmp a b < 0 \<longleftrightarrow> a < b" "strcmp a b > 0 \<longleftrightarrow> b < a" "strcmp a b = 0 \<longleftrightarrow> a = b"
  by (induction a b rule: strcmp.induct) auto

lemma memcmp_order:
  assumes "length a = length b"
  shows "OPENSSL_memcmp a b < 0 \<longleftrightarrow> a < b" "OPENSSL_memcmp a b > 0 \<longleftrightarrow> b < a" "OPENSSL_memcmp a b = 0 \<longleftrightarrow> a = b"
  using assms by (induction a b rule: list_induct2) auto

definition obj_valid :: "asn1_object \<Rightarrow> bool" where
  "obj_valid ob \<longleftrightarrow> ob_length ob = int (length (obj_bytes ob))"

text \<open>By length first, then by the bytes.\<close>

definition oid_rank :: "asn1_object \<Rightarrow> nat \<times> u8 list" where
  "oid_rank ob = (length (obj_bytes ob), obj_bytes ob)"

lemma oid_rank_eq: "oid_rank a = oid_rank b \<longleftrightarrow> obj_bytes a = obj_bytes b"
  by (auto simp: oid_rank_def)

lemma OBJ_cmp_order:
  assumes "obj_valid a" and "obj_valid b"
  shows "OBJ_cmp a b < 0 \<longleftrightarrow> oid_rank a < oid_rank b" "OBJ_cmp a b > 0 \<longleftrightarrow> oid_rank b < oid_rank a"
    "OBJ_cmp a b = 0 \<longleftrightarrow> obj_bytes a = obj_bytes b"
  using assms memcmp_order[of "obj_bytes a" "obj_bytes b"]
  by (auto simp: OBJ_cmp_def obj_valid_def oid_rank_def less_prod_def Let_def)

lemma cmp_data_OBJ_cmp: "cmp_data a b = OBJ_cmp a b"
  by (simp add: cmp_data_def OBJ_cmp_def)

lemma obj_cmp_OBJ_cmp:
  "obj_cmp dat a nid < 0 \<longleftrightarrow> OBJ_cmp a (kObjects dat ! nid) < 0"
  "obj_cmp dat a nid > 0 \<longleftrightarrow> OBJ_cmp a (kObjects dat ! nid) > 0"
  by (auto simp: obj_cmp_def OBJ_cmp_def Let_def)

interpretation names: comparison strcmp "\<lambda>_. True"
  by unfold_locales (auto simp: strcmp_order not_less[symmetric] intro: order.strict_trans2)

interpretation oids: comparison OBJ_cmp obj_valid
  by unfold_locales (auto simp: OBJ_cmp_order not_less[symmetric])

section \<open>The tables of added objects are maps\<close>

type_synonym obj_key = "int + u8 list"

fun obj_key :: "obj_table \<Rightarrow> asn1_object \<Rightarrow> obj_key" where
  "obj_key By_nid ob = Inl (ob_nid ob)"
| "obj_key By_data ob = Inr (obj_bytes ob)"
| "obj_key By_short_name ob = Inr (c_str (ob_sn ob))"
| "obj_key By_long_name ob = Inr (c_str (ob_ln ob))"

fun key_hash :: "obj_key \<Rightarrow> u32" where
  "key_hash (Inl n) = word_of_int n"
| "key_hash (Inr bytes) = OPENSSL_hash32 bytes"

fun has_key :: "obj_table \<Rightarrow> asn1_object \<Rightarrow> bool" where
  "has_key By_nid ob = True"
| "has_key By_data ob = obj_valid ob"
| "has_key By_short_name ob = (ob_sn ob \<noteq> None)"
| "has_key By_long_name ob = (ob_ln ob \<noteq> None)"

interpretation tbl: hash_keys "table_hash t" "table_cmp t" "obj_key t" key_hash "has_key t" for t
  by unfold_locales
    (cases t; auto simp: cmp_nid_def cmp_data_OBJ_cmp OBJ_cmp_order cmp_short_name_def cmp_long_name_def strcmp_order
      hash_nid_def hash_data_def hash_short_name_def hash_long_name_def OPENSSL_strhash_def)+

definition added :: "obj_globals \<Rightarrow> obj_table \<Rightarrow> obj_key \<Rightarrow> asn1_object option" where
  "added gl t = (case gl_added gl t of None \<Rightarrow> Map.empty | Some lh \<Rightarrow> tbl.abs_map t lh)"

definition tables_ok :: "obj_globals \<Rightarrow> bool" where
  "tables_ok gl \<longleftrightarrow> (\<forall>t lh. gl_added gl t = Some lh \<longrightarrow> tbl.ok t lh) \<and>
     (\<forall>t. gl_added gl t = None \<longleftrightarrow> gl_added gl By_nid = None)"

lemma retrieve_added_map:
  "tables_ok gl \<Longrightarrow> has_key t ob \<Longrightarrow> retrieve_added gl t ob = added gl t (obj_key t ob)"
  by (simp add: retrieve_added_def added_def tables_ok_def tbl.retrieve_map split: option.split)

text \<open>The address of a new item is not that of another.\<close>

definition item_fresh :: "obj_mem \<Rightarrow> obj_globals \<Rightarrow> obj_table \<Rightarrow> bool" where
  "item_fresh m gl t \<longleftrightarrow> (\<forall>lh a. gl_added gl t = Some lh \<longrightarrow> om_item m t = Some a \<longrightarrow> a \<notin> li_addr ` set (lh_items lh))"


section \<open>Adding an object\<close>

text \<open>The objects a table is for: those with the field the code tests before it inserts them.\<close>

fun stored :: "obj_table \<Rightarrow> asn1_object \<Rightarrow> bool" where
  "stored By_nid ob = True"
| "stored By_data ob = (ob_length ob \<noteq> 0 \<and> ob_data ob \<noteq> None)"
| "stored By_short_name ob = (ob_sn ob \<noteq> None)"
| "stored By_long_name ob = (ob_ln ob \<noteq> None)"

lemma insert_added_ok:
  assumes "tables_ok gl" and "item_fresh m gl t" and "gl_added gl By_nid \<noteq> None" and "has_key t ob"
  shows "\<exists>ok lh. insert_added m t ob gl = Some (ok, gl\<lparr>gl_added := (gl_added gl)(t \<mapsto> lh)\<rparr>) \<and> tbl.ok t lh \<and>
    (ok \<longrightarrow> tbl.abs_map t lh = (added gl t)(obj_key t ob \<mapsto> ob)) \<and> (om_item m t \<noteq> None \<longrightarrow> ok)"
proof -
  from assms(1,3) obtain lh where lh: "gl_added gl t = Some lh"
    unfolding tables_ok_def by (metis option.exhaust)
  then have ok: "tbl.ok t lh" and a: "added gl t = tbl.abs_map t lh"
    using assms(1) by (simp_all add: tables_ok_def added_def)
  show ?thesis
  proof (cases "om_item m t = None \<and> added gl t (obj_key t ob) = None")
    case True
    then show ?thesis using tbl.insert_no_memory[OF ok assms(4)] lh ok a True
      by (intro exI[of _ False] exI[of _ lh]) (simp add: insert_added_def)
  next
    case False
    have "\<forall>x. om_item m t = Some x \<longrightarrow> x \<notin> li_addr ` set (lh_items lh)"
      using assms(2) lh unfolding item_fresh_def by blast
    with tbl.insert_map[OF ok assms(4), of "om_item m t" "om_buckets m"] False a obtain lh' where
      "OPENSSL_lh_insert (om_item m t) (om_buckets m) ob lh = (True, tbl.abs_map t lh (obj_key t ob), lh')"
      "tbl.ok t lh'" "tbl.abs_map t lh' = (added gl t)(obj_key t ob \<mapsto> ob)" by auto
    then show ?thesis using lh by (intro exI[of _ True] exI[of _ lh']) (simp add: insert_added_def)
  qed
qed

text \<open>One of the four insertions.\<close>

definition goes_in :: "obj_mem \<Rightarrow> asn1_object \<Rightarrow> obj_table set \<Rightarrow> obj_globals \<Rightarrow> bool \<Rightarrow> obj_globals \<Rightarrow> bool" where
  "goes_in m ob done gl ok gl' \<longleftrightarrow> tables_ok gl' \<and> gl_added gl' By_nid \<noteq> None \<and> gl_next_nid gl' = gl_next_nid gl \<and>
     (\<forall>t. t \<notin> done \<longrightarrow> gl_added gl' t = gl_added gl t) \<and>
     (ok \<longrightarrow> (\<forall>t\<in>done. added gl' t = (if stored t ob then (added gl t)(obj_key t ob \<mapsto> ob) else added gl t))) \<and>
     ((\<forall>t. om_item m t \<noteq> None) \<longrightarrow> ok)"

lemma goes_in_insert:
  assumes "goes_in m ob done gl ok gl'" and "item_fresh m gl t" and "t \<notin> done" and "stored t ob \<longrightarrow> has_key t ob"
  shows "\<exists>ok' gl''. insert_if (stored t ob) m t ob (ok, gl') = Some (ok', gl'') \<and> goes_in m ob (insert t done) gl ok' gl''"
proof -
  have same: "gl_added gl' t = gl_added gl t" "added gl' t = added gl t"
    using assms(1,3) by (simp_all add: goes_in_def added_def)
  show ?thesis
  proof (cases "stored t ob")
    case False
    then show ?thesis using assms(1) same by (auto simp: insert_if_def goes_in_def)
  next
    case True
    have "tables_ok gl'" "item_fresh m gl' t" "gl_added gl' By_nid \<noteq> None" "has_key t ob"
      using assms True same by (simp_all add: goes_in_def item_fresh_def)
    from insert_added_ok[OF this] obtain ok2 lh where i: "insert_added m t ob gl' = Some (ok2, gl'\<lparr>gl_added := (gl_added gl')(t \<mapsto> lh)\<rparr>)"
      "tbl.ok t lh" "ok2 \<longrightarrow> tbl.abs_map t lh = (added gl t)(obj_key t ob \<mapsto> ob)" "om_item m t \<noteq> None \<longrightarrow> ok2"
      using same by auto
    let ?gl = "gl'\<lparr>gl_added := (gl_added gl')(t \<mapsto> lh)\<rparr>"
    have a: "added ?gl t' = (if t' = t then tbl.abs_map t lh else added gl' t')" for t' by (simp add: added_def)
    have "goes_in m ob (insert t done) gl (ok \<and> ok2) ?gl"
      using assms(1,3) i(2-4) True unfolding goes_in_def a tables_ok_def by auto
    then show ?thesis using i(1) True by (simp add: insert_if_def)
  qed
qed

text \<open>The tables are made when the first object is added, all four or none.\<close>

definition tables_made :: "obj_mem \<Rightarrow> obj_globals \<Rightarrow> obj_globals" where
  "tables_made m gl = (if gl_added gl By_nid = None then gl\<lparr>gl_added := table_new m\<rparr> else gl)"

definition memory_for_tables :: "obj_mem \<Rightarrow> bool" where
  "memory_for_tables m \<longleftrightarrow> (\<forall>t. om_table m t) \<and> om_buckets m kMinNumBuckets"

lemma table_new_ok:
  assumes "memory_for_tables m"
  shows "\<exists>lh. table_new m t = Some lh \<and> lh_items lh = [] \<and> tbl.ok t lh \<and> tbl.abs_map t lh = Map.empty"
proof -
  obtain lh where "table_new m t = Some lh" "lh_items lh = []"
    using assms by (simp add: table_new_def OPENSSL_lh_new_def memory_for_tables_def lh_items_def)
  moreover from this have "tbl.ok t lh \<and> tbl.abs_map t lh = Map.empty"
    using tbl.new_map unfolding table_new_def by blast
  ultimately show ?thesis by blast
qed

lemma tables_made_ok:
  assumes "tables_ok gl" and "gl_added gl By_nid = None \<longrightarrow> memory_for_tables m"
  shows "tables_ok (tables_made m gl) \<and> added (tables_made m gl) = added gl \<and> gl_added (tables_made m gl) By_nid \<noteq> None \<and>
    (\<forall>t. item_fresh m gl t \<longrightarrow> item_fresh m (tables_made m gl) t)"
proof (cases "gl_added gl By_nid = None")
  case False
  then have "tables_made m gl = gl" by (simp add: tables_made_def del: not_None_eq)
  with assms False show ?thesis by simp
next
  case True
  with assms have mem: "memory_for_tables m" and none: "\<And>t. gl_added gl t = None" by (auto simp: tables_ok_def)
  note new = table_new_ok[OF mem]
  have some: "(table_new m t = None) = False" for t using new[of t] by auto
  have ok: "tbl.ok t lh" "tbl.abs_map t lh = Map.empty" "lh_items lh = []" if "table_new m t = Some lh" for t lh
    using new[of t] that by auto
  have "tables_ok (tables_made m gl)" "gl_added (tables_made m gl) By_nid \<noteq> None"
    using True ok(1) by (simp_all add: tables_made_def tables_ok_def some del: not_None_eq)
  moreover have "added (tables_made m gl) = added gl"
    using True ok(2) none by (auto simp: fun_eq_iff tables_made_def added_def split: option.split)
  moreover have "item_fresh m (tables_made m gl) t" for t
    using True ok(3) by (auto simp: tables_made_def item_fresh_def)
  ultimately show ?thesis by blast
qed

lemma obj_add_object_ok:
  assumes "tables_ok gl" and "\<forall>t. item_fresh m gl t" and "gl_added gl By_nid = None \<longrightarrow> memory_for_tables m"
    and "stored By_data ob \<longrightarrow> obj_valid ob"
  shows "\<exists>ok gl'. obj_add_object m ob gl = Some (ok, ob\<lparr>ob_flags := ob_flags ob AND NOT dynamic_flags\<rparr>, gl') \<and>
    goes_in m (ob\<lparr>ob_flags := ob_flags ob AND NOT dynamic_flags\<rparr>) UNIV gl ok gl'"
proof -
  let ?ob = "ob\<lparr>ob_flags := ob_flags ob AND NOT dynamic_flags\<rparr>" and ?gl = "tables_made m gl"
  note made = tables_made_ok[OF assms(1,3)]
  have fresh: "item_fresh m ?gl t" for t using made assms(2) by blast
  have has: "stored t ?ob \<longrightarrow> has_key t ?ob" for t using assms(4) by (cases t) (auto simp: obj_valid_def obj_bytes_def)
  have g0: "goes_in m ?ob {} ?gl True ?gl" using made by (simp add: goes_in_def)
  from goes_in_insert[OF g0 fresh _ has, of By_nid] obtain ok1 gl1 where
    1: "insert_added m By_nid ?ob ?gl = Some (ok1, gl1)" "goes_in m ?ob {By_nid} ?gl ok1 gl1"
    by (auto simp: insert_if_def split: option.splits)
  from goes_in_insert[OF 1(2) fresh _ has, of By_data] obtain ok2 gl2 where
    2: "insert_if (stored By_data ?ob) m By_data ?ob (ok1, gl1) = Some (ok2, gl2)" "goes_in m ?ob {By_data, By_nid} ?gl ok2 gl2"
    by auto
  from goes_in_insert[OF 2(2) fresh _ has, of By_short_name] obtain ok3 gl3 where
    3: "insert_if (stored By_short_name ?ob) m By_short_name ?ob (ok2, gl2) = Some (ok3, gl3)"
       "goes_in m ?ob {By_short_name, By_data, By_nid} ?gl ok3 gl3" by auto
  from goes_in_insert[OF 3(2) fresh _ has, of By_long_name] obtain ok4 gl4 where
    4: "insert_if (stored By_long_name ?ob) m By_long_name ?ob (ok3, gl3) = Some (ok4, gl4)"
       "goes_in m ?ob {By_long_name, By_short_name, By_data, By_nid} ?gl ok4 gl4" by auto
  have U: "{By_long_name, By_short_name, By_data, By_nid} = UNIV" using obj_table.exhaust by auto
  have "goes_in m ?ob UNIV gl ok4 gl4"
    using 4(2) made unfolding U goes_in_def by (auto simp: tables_made_def)
  then show ?thesis using 1(1) 2(1) 3(1) 4(1)
    by (simp add: obj_add_object_def Let_def tables_made_def[symmetric])
qed


section \<open>Creating an object\<close>

lemma text_oid_Some:
  assumes "create_object_with_text_oid m get_nid oid sn ln gl = (Some ob, gl')"
  shows "\<exists>a b rest nid. oid_valid a b \<and> oid = dotted (a # b # rest) \<and>
    (nid, gl') = (case get_nid of None \<Rightarrow> (NID_undef, gl) | Some f \<Rightarrow> f gl) \<and>
    ob = \<lparr>ob_sn = sn, ob_ln = ln, ob_nid = nid, ob_length = int (length (oid_bytes a b rest)),
      ob_data = Some (oid_bytes a b rest), ob_flags = dynamic_flags\<rparr>"
proof -
  from assms obtain u st u1 st1 buf st2 where init: "CBB_init (om_cbb m) 32 = (Some u, st)"
    and p: "CBB_add_asn1_oid_from_text 0 oid st = (Some u1, st1)" and f: "CBB_finish 0 True True st1 = (Some buf, st2)"
    and r: "(case (case get_nid of None \<Rightarrow> (NID_undef, gl) | Some f \<Rightarrow> f gl) of (nid, gl) \<Rightarrow>
       (ASN1_OBJECT_create m nid buf (int (length buf)) sn ln, gl)) = (Some ob, gl')"
    by (auto simp: create_object_with_text_oid_def split: prod.splits option.splits simp del: dotted.simps)
  from oid_from_text_sound[OF p] obtain a b rest where o: "oid = dotted (a # b # rest)" "oid_valid a b" by blast
  have "sbind (CBB_add_asn1_oid_from_text 0 oid) (\<lambda>_. CBB_finish 0 True True) st = (Some buf, st2)" using p f by simp
  from build_Some[OF oid_from_text_implements[OF o(2), of 0 rest, folded o(1)] init _ this]
  have buf: "buf = oid_bytes a b rest" by (simp add: SIZE_MOD_def)
  obtain nid gl1 where n: "(case get_nid of None \<Rightarrow> (NID_undef, gl) | Some f \<Rightarrow> f gl) = (nid, gl1)" by (metis surj_pair)
  have flags: "dynamic_flags AND ASN1_OBJECT_FLAG_DYNAMIC \<noteq> 0" "dynamic_flags OR dynamic_flags = dynamic_flags"
    by (simp_all add: dynamic_flags_def ASN1_OBJECT_FLAG_DYNAMIC_def ASN1_OBJECT_FLAG_DYNAMIC_STRINGS_def
        ASN1_OBJECT_FLAG_DYNAMIC_DATA_def)
  have "gl' = gl1" "ob = \<lparr>ob_sn = sn, ob_ln = ln, ob_nid = nid, ob_length = int (length buf), ob_data = Some buf,
      ob_flags = dynamic_flags\<rparr>"
    using r flags unfolding n
    by (auto simp: ASN1_OBJECT_create_def OBJ_dup_def ASN1_OBJECT_new_def OPENSSL_strdup_def Let_def
        split: option.splits if_splits)
  then show ?thesis using o n buf by auto
qed

lemma text_oid_progress:
  assumes "oid_valid a b" and "\<forall>n. om_cbb m n" and "om_object m" and "\<forall>n. om_data m n \<noteq> None" and "om_ln m" and "om_sn m"
    and "length (oid_bytes a b rest) < SIZE_MOD"
  shows "\<exists>ob gl'. create_object_with_text_oid m get_nid (dotted (a # b # rest)) sn ln gl = (Some ob, gl')"
proof -
  obtain st where init: "CBB_init (om_cbb m) 32 = (Some (), st)" using CBB_init_total[OF assms(2)] by blast
  from build_progress[OF oid_from_text_implements[OF assms(1)] init _ assms(2,7)] obtain st' where
    "sbind (CBB_add_asn1_oid_from_text 0 (dotted (a # b # rest))) (\<lambda>_. CBB_finish 0 True True) st = (Some (oid_bytes a b rest), st')"
    by (auto simp: SIZE_MOD_def simp del: dotted.simps)
  then obtain u1 st1 where "CBB_add_asn1_oid_from_text 0 (dotted (a # b # rest)) st = (Some u1, st1)"
    "CBB_finish 0 True True st1 = (Some (oid_bytes a b rest), st')" by (auto simp: op_inv simp del: dotted.simps)
  moreover obtain d where "om_data m (length (oid_bytes a b rest)) = Some d" using assms(4) by blast
  ultimately show ?thesis using init assms(3,5,6)
    by (auto simp: create_object_with_text_oid_def ASN1_OBJECT_create_def OBJ_dup_def ASN1_OBJECT_new_def
        OPENSSL_strdup_def Let_def split: prod.split option.split simp del: dotted.simps)
qed

text \<open>The new object, and the collection with it.\<close>

definition new_object :: "int \<Rightarrow> u8 list \<Rightarrow> c_text option \<Rightarrow> c_text option \<Rightarrow> asn1_object" where
  "new_object nid bytes sn ln = \<lparr>ob_sn = sn, ob_ln = ln, ob_nid = nid, ob_length = int (length bytes), ob_data = Some bytes, ob_flags = 0\<rparr>"

definition add_to :: "asn1_object \<Rightarrow> (obj_table \<Rightarrow> obj_key \<Rightarrow> asn1_object option) \<Rightarrow> obj_table \<Rightarrow> obj_key \<Rightarrow> asn1_object option" where
  "add_to ob tabs t = (if stored t ob then (tabs t)(obj_key t ob \<mapsto> ob) else tabs t)"

definition memory_for_object :: "obj_mem \<Rightarrow> bool" where
  "memory_for_object m \<longleftrightarrow> om_object m \<and> (\<forall>n. om_data m n \<noteq> None) \<and> om_ln m \<and> om_sn m"

lemma ASN1_OBJECT_create_progress:
  assumes "memory_for_object m"
  shows "ASN1_OBJECT_create m nid data len sn ln \<noteq> None"
proof -
  from assms obtain d where "om_data m (nat len) = Some d" unfolding memory_for_object_def by blast
  then show ?thesis using assms
    by (simp add: memory_for_object_def ASN1_OBJECT_create_def OBJ_dup_def ASN1_OBJECT_new_def OPENSSL_strdup_def Let_def
        split: option.split)
qed

lemma create_object_None:
  assumes "create_object_with_text_oid m (Some obj_next_nid) oid sn ln gl = (None, gl')"
  shows "gl_added gl' = gl_added gl \<and> (memory_for_object m \<longrightarrow> gl' = gl)"
  using assms ASN1_OBJECT_create_progress[of m "sint (gl_next_nid gl)"]
  by (auto simp: create_object_with_text_oid_def obj_next_nid_def simp del: not_None_eq split: prod.splits option.splits)

lemma OBJ_create_ok:
  assumes "tables_ok gl" and "\<forall>t. item_fresh m gl t" and "gl_added gl By_nid = None \<longrightarrow> memory_for_tables m"
  shows "\<exists>nid gl' ok. OBJ_create m oid sn ln gl = Some (nid, gl') \<and> tables_ok gl' \<and>
    (nid = NID_undef \<and> gl_added gl' = gl_added gl \<and> (memory_for_object m \<longrightarrow> gl' = gl) \<and>
       fst (create_object_with_text_oid m (Some obj_next_nid) oid sn ln gl) = None \<or>
     (\<exists>a b rest. oid_valid a b \<and> oid = dotted (a # b # rest) \<and> gl_next_nid gl' = gl_next_nid gl + 1 \<and>
       nid = (if ok then sint (gl_next_nid gl) else NID_undef) \<and> ((\<forall>t. om_item m t \<noteq> None) \<longrightarrow> ok) \<and>
       (ok \<longrightarrow> added gl' = add_to (new_object nid (oid_bytes a b rest) sn ln) (added gl))))"
proof (cases "create_object_with_text_oid m (Some obj_next_nid) oid sn ln gl")
  case (Pair r gl1)
  show ?thesis
  proof (cases r)
    case None
    note keep = create_object_None[OF Pair[unfolded None]]
    then have "tables_ok gl1" using assms(1) by (simp add: tables_ok_def)
    then show ?thesis using Pair None keep by (auto simp: OBJ_create_def)
  next
    case (Some ob)
    from text_oid_Some[OF Pair[unfolded Some]] obtain a b rest where o: "oid_valid a b" "oid = dotted (a # b # rest)"
      "gl1 = gl\<lparr>gl_next_nid := gl_next_nid gl + 1\<rparr>"
      "ob = (new_object (sint (gl_next_nid gl)) (oid_bytes a b rest) sn ln)\<lparr>ob_flags := dynamic_flags\<rparr>"
      by (auto simp: obj_next_nid_def new_object_def simp del: dotted.simps)
    let ?ob = "new_object (sint (gl_next_nid gl)) (oid_bytes a b rest) sn ln"
    have "tables_ok gl1" "\<forall>t. item_fresh m gl1 t" "gl_added gl1 By_nid = None \<longrightarrow> memory_for_tables m"
      "stored By_data ob \<longrightarrow> obj_valid ob"
      using assms o(3,4) by (simp_all add: tables_ok_def item_fresh_def obj_valid_def obj_bytes_def new_object_def del: dotted.simps)
    from obj_add_object_ok[OF this] obtain ok gl' where
      "obj_add_object m ob gl1 = Some (ok, ob\<lparr>ob_flags := ob_flags ob AND NOT dynamic_flags\<rparr>, gl')"
      "goes_in m (ob\<lparr>ob_flags := ob_flags ob AND NOT dynamic_flags\<rparr>) UNIV gl1 ok gl'" by blast
    moreover have "ob\<lparr>ob_flags := ob_flags ob AND NOT dynamic_flags\<rparr> = ?ob"
      unfolding o(4) by (simp add: new_object_def)
    ultimately have add: "obj_add_object m ob gl1 = Some (ok, ?ob, gl')" "goes_in m ?ob UNIV gl1 ok gl'" by simp_all
    have a1: "added gl1 = added gl" by (simp add: o(3) added_def fun_eq_iff)
    have "ok \<longrightarrow> added gl' = add_to ?ob (added gl)"
      using add(2) by (simp add: goes_in_def a1 add_to_def fun_eq_iff)
    moreover have "OBJ_create m oid sn ln gl = Some (if ok then sint (gl_next_nid gl) else NID_undef, gl')"
      using Pair Some add(1) by (simp add: OBJ_create_def new_object_def)
    moreover have "tables_ok gl'" "gl_next_nid gl' = gl_next_nid gl + 1" "(\<forall>t. om_item m t \<noteq> None) \<longrightarrow> ok"
      using add(2) o(3) unfolding goes_in_def by simp_all
    ultimately show ?thesis using o(1,2)
      by (intro exI[of _ "if ok then sint (gl_next_nid gl) else NID_undef"] exI[of _ gl'] exI[of _ ok]) (auto split: if_splits)
  qed
qed

text \<open>A table that could not be allocated is dereferenced.\<close>

lemma insert_if_null: "c \<Longrightarrow> gl_added gl t = None \<Longrightarrow> insert_if c m t ob (ok, gl) = None"
  by (simp add: insert_if_def insert_added_def)

lemma insert_if_keeps: "insert_if c m t ob (ok, gl) = Some (ok', gl') \<Longrightarrow> t' \<noteq> t \<Longrightarrow> gl_added gl' t' = gl_added gl t'"
  by (auto simp: insert_if_def insert_added_def split: if_splits option.splits prod.splits)

lemma obj_add_object_null:
  assumes "gl_added gl By_nid = None" and "\<not> om_table m t" and "stored t ob"
  shows "obj_add_object m ob gl = None"
proof -
  let ?ob = "ob\<lparr>ob_flags := ob_flags ob AND NOT dynamic_flags\<rparr>" and ?gl = "gl\<lparr>gl_added := table_new m\<rparr>"
  have t: "gl_added ?gl t = None" using assms(2) by (simp add: table_new_def OPENSSL_lh_new_def)
  have st: "stored t ?ob" using assms(3) by (cases t) auto
  have first: "insert_added m By_nid ?ob ?gl = insert_if True m By_nid ?ob (True, ?gl)"
    by (simp add: insert_if_def split: option.splits)
  have unfold: "obj_add_object m ob gl =
      (case insert_if (stored By_nid ?ob) m By_nid ?ob (True, ?gl) of None \<Rightarrow> None | Some st \<Rightarrow>
       case insert_if (stored By_data ?ob) m By_data ?ob st of None \<Rightarrow> None | Some st \<Rightarrow>
       case insert_if (stored By_short_name ?ob) m By_short_name ?ob st of None \<Rightarrow> None | Some st \<Rightarrow>
       case insert_if (stored By_long_name ?ob) m By_long_name ?ob st of None \<Rightarrow> None | Some (ok, gl) \<Rightarrow> Some (ok, ?ob, gl))"
    unfolding stored.simps using assms(1) by (simp add: obj_add_object_def Let_def first)
  show ?thesis
  proof (rule ccontr)
    assume "obj_add_object m ob gl \<noteq> None"
    then obtain ok1 gl1 ok2 gl2 ok3 gl3 ok4 gl4 where i: "insert_if (stored By_nid ?ob) m By_nid ?ob (True, ?gl) = Some (ok1, gl1)"
      "insert_if (stored By_data ?ob) m By_data ?ob (ok1, gl1) = Some (ok2, gl2)"
      "insert_if (stored By_short_name ?ob) m By_short_name ?ob (ok2, gl2) = Some (ok3, gl3)"
      "insert_if (stored By_long_name ?ob) m By_long_name ?ob (ok3, gl3) = Some (ok4, gl4)"
      unfolding unfold by (auto split: option.splits)
    note keep = i[THEN insert_if_keeps]
    show False
    proof (cases t)
      case By_nid
      then show False using insert_if_null[OF st t] i(1) by simp
    next
      case By_data
      then show False using insert_if_null[OF st, of gl1] keep(1)[of t] t i(2) by simp
    next
      case By_short_name
      then show False using insert_if_null[OF st, of gl2] keep(1,2)[of t] t i(3) by simp
    next
      case By_long_name
      then show False using insert_if_null[OF st, of gl3] keep(1-3)[of t] t i(4) by simp
    qed
  qed
qed

section \<open>The built-in tables\<close>

lemma bsearch_range_key:
  fixes key :: "'e \<Rightarrow> 'k::linorder"
  assumes "sorted (map key base)" and "u \<le> length base"
    and "\<forall>x\<in>set base. (compar x < 0 \<longleftrightarrow> k < key x) \<and> (compar x > 0 \<longleftrightarrow> key x < k)"
  shows "case bsearch_range compar base l u of None \<Rightarrow> \<forall>i. l \<le> i \<longrightarrow> i < u \<longrightarrow> key (base ! i) \<noteq> k
    | Some x \<Rightarrow> x \<in> set base \<and> key x = k"
  using assms(2)
proof (induction "u - l" arbitrary: l u rule: less_induct)
  case less
  show ?case
  proof (cases "l < u")
    case False
    then show ?thesis by (simp add: bsearch_range.simps)
  next
    case True
    define idx where "idx = (l + u) div 2"
    have idx: "l \<le> idx" "idx < u" using True by (auto simp: idx_def)
    have rec: "bsearch_range compar base l u =
        (if compar (base ! idx) < 0 then bsearch_range compar base l idx
         else if compar (base ! idx) > 0 then bsearch_range compar base (idx + 1) u else Some (base ! idx))"
      using bsearch_range.simps[of compar base l u] True by (simp add: idx_def Let_def)
    have x: "base ! idx \<in> set base" using idx less.prems by simp
    have mono: "i \<le> j \<Longrightarrow> j < u \<Longrightarrow> key (base ! i) \<le> key (base ! j)" for i j
      using assms(1) less.prems by (simp add: sorted_iff_nth_mono)
    consider "compar (base ! idx) < 0" | "compar (base ! idx) > 0" | "compar (base ! idx) = 0" by linarith
    then show ?thesis
    proof cases
      case 1
      then have k: "k < key (base ! idx)" using assms(3) x by blast
      have "key (base ! i) \<noteq> k" if "idx \<le> i" "i < u" for i using mono[OF that] k by auto
      moreover have "case bsearch_range compar base l idx of None \<Rightarrow> \<forall>i. l \<le> i \<longrightarrow> i < idx \<longrightarrow> key (base ! i) \<noteq> k
        | Some x \<Rightarrow> x \<in> set base \<and> key x = k" using less.hyps[of idx l] idx less.prems by simp
      ultimately show ?thesis using rec 1 by (cases "bsearch_range compar base l idx") (simp, metis not_le, simp)
    next
      case 2
      then have k: "key (base ! idx) < k" using assms(3) x by blast
      have "key (base ! i) \<noteq> k" if "i < idx + 1" for i using mono[of i idx] that idx k by auto
      moreover have "case bsearch_range compar base (idx + 1) u of None \<Rightarrow> \<forall>i. idx + 1 \<le> i \<longrightarrow> i < u \<longrightarrow> key (base ! i) \<noteq> k
        | Some x \<Rightarrow> x \<in> set base \<and> key x = k" using less.hyps[of u "idx + 1"] idx less.prems by simp
      ultimately show ?thesis using rec 2 by (cases "bsearch_range compar base (idx + 1) u") (simp, metis not_le Suc_eq_plus1, simp)
    next
      case 3
      then have "key (base ! idx) = k" using assms(3) x by (metis less_irrefl linorder_neqE)
      then show ?thesis using rec 3 x by simp
    qed
  qed
qed

lemma bsearch_key:
  fixes key :: "'e \<Rightarrow> 'k::linorder"
  assumes "sorted (map key base)" and "\<forall>x\<in>set base. (compar x < 0 \<longleftrightarrow> k < key x) \<and> (compar x > 0 \<longleftrightarrow> key x < k)"
  shows "case bsearch compar base of None \<Rightarrow> \<forall>x\<in>set base. key x \<noteq> k | Some x \<Rightarrow> x \<in> set base \<and> key x = k"
  using bsearch_range_key[OF assms(1) order_refl assms(2), of 0] unfolding bsearch_def
  by (auto split: option.splits simp: in_set_conv_nth)

text \<open>Each array lists, in the order of its comparison, the numbers of the objects that have the field.\<close>

fun obj_rank :: "obj_table \<Rightarrow> asn1_object \<Rightarrow> nat \<times> u8 list" where
  "obj_rank By_data ob = oid_rank ob"
| "obj_rank By_short_name ob = (0, c_str (ob_sn ob))"
| "obj_rank By_long_name ob = (0, c_str (ob_ln ob))"
| "obj_rank By_nid ob = (0, [])"

fun order_of :: "obj_dat \<Rightarrow> obj_table \<Rightarrow> nat list" where
  "order_of dat By_data = kNIDsInOIDOrder dat"
| "order_of dat By_short_name = kNIDsInShortNameOrder dat"
| "order_of dat By_long_name = kNIDsInLongNameOrder dat"
| "order_of dat By_nid = []"

definition lists_objects :: "obj_dat \<Rightarrow> obj_table \<Rightarrow> bool" where
  "lists_objects dat t \<longleftrightarrow> sorted (map (\<lambda>n. obj_rank t (kObjects dat ! n)) (order_of dat t)) \<and>
     (\<forall>n\<in>set (order_of dat t). n < NUM_NID dat) \<and>
     (\<forall>n < NUM_NID dat. n \<in> set (order_of dat t) \<longleftrightarrow> stored t (kObjects dat ! n))"

definition dat_ok :: "obj_dat \<Rightarrow> bool" where
  "dat_ok dat \<longleftrightarrow> lists_objects dat By_data \<and> lists_objects dat By_short_name \<and> lists_objects dat By_long_name \<and>
     0 < NUM_NID dat \<and> NUM_NID dat \<le> INT_MAX \<and>
     (\<forall>t n. t \<noteq> By_nid \<longrightarrow> n < NUM_NID dat \<longrightarrow> stored t (kObjects dat ! 0) \<longrightarrow> stored t (kObjects dat ! n) \<longrightarrow>
        obj_key t (kObjects dat ! n) = obj_key t (kObjects dat ! 0) \<longrightarrow> n = 0) \<and>
     (\<forall>n < NUM_NID dat. obj_valid (kObjects dat ! n) \<and>
        (ob_nid (kObjects dat ! n) = int n \<or>
         ob_nid (kObjects dat ! n) = NID_undef \<and> (\<forall>t. t \<noteq> By_nid \<longrightarrow> \<not> stored t (kObjects dat ! n))))"

text \<open>The three searches in the built-in tables, for an object with the key of a template.\<close>

fun search_builtin :: "obj_dat \<Rightarrow> obj_table \<Rightarrow> asn1_object \<Rightarrow> nat option" where
  "search_builtin dat By_data ob = bsearch (obj_cmp dat ob) (kNIDsInOIDOrder dat)"
| "search_builtin dat By_short_name ob = bsearch (short_name_cmp dat (c_str (ob_sn ob))) (kNIDsInShortNameOrder dat)"
| "search_builtin dat By_long_name ob = bsearch (long_name_cmp dat (c_str (ob_ln ob))) (kNIDsInLongNameOrder dat)"
| "search_builtin dat By_nid ob = None"

lemma search_builtin_ok:
  assumes "dat_ok dat" and "t \<noteq> By_nid" and "has_key t ob"
  shows "case search_builtin dat t ob of
      None \<Rightarrow> \<forall>n < NUM_NID dat. stored t (kObjects dat ! n) \<longrightarrow> obj_key t (kObjects dat ! n) \<noteq> obj_key t ob
    | Some n \<Rightarrow> n < NUM_NID dat \<and> stored t (kObjects dat ! n) \<and> obj_key t (kObjects dat ! n) = obj_key t ob"
proof -
  have lo: "lists_objects dat t" using assms(1,2) by (cases t) (simp_all add: dat_ok_def)
  have val: "\<forall>n\<in>set (order_of dat t). n < NUM_NID dat \<and> obj_valid (kObjects dat ! n)"
    using assms(1) lo unfolding dat_ok_def lists_objects_def by blast
  have ranks: "obj_rank t a = obj_rank t b \<longleftrightarrow> obj_key t a = obj_key t b" for a b
    using assms(2) by (cases t) (simp_all add: oid_rank_eq)
  obtain compar where c: "search_builtin dat t ob = bsearch compar (order_of dat t)"
    "\<forall>n\<in>set (order_of dat t). (compar n < 0 \<longleftrightarrow> obj_rank t ob < obj_rank t (kObjects dat ! n)) \<and>
       (compar n > 0 \<longleftrightarrow> obj_rank t (kObjects dat ! n) < obj_rank t ob)"
  proof (cases t)
    case By_data
    then have "\<forall>n\<in>set (order_of dat t). (obj_cmp dat ob n < 0 \<longleftrightarrow> obj_rank t ob < obj_rank t (kObjects dat ! n)) \<and>
       (obj_cmp dat ob n > 0 \<longleftrightarrow> obj_rank t (kObjects dat ! n) < obj_rank t ob)"
      using val assms(3) unfolding obj_cmp_OBJ_cmp by (simp add: OBJ_cmp_order)
    then show ?thesis using that By_data by simp
  next
    case By_short_name
    then show ?thesis using that[of "short_name_cmp dat (c_str (ob_sn ob))"]
      by (simp add: short_name_cmp_def strcmp_order less_prod_def)
  next
    case By_long_name
    then show ?thesis using that[of "long_name_cmp dat (c_str (ob_ln ob))"]
      by (simp add: long_name_cmp_def strcmp_order less_prod_def)
  qed (use assms(2) in simp)
  have "sorted (map (\<lambda>n. obj_rank t (kObjects dat ! n)) (order_of dat t))" using lo by (simp add: lists_objects_def)
  from bsearch_key[OF this c(2)] show ?thesis unfolding c(1)[symmetric]
    using lo val by (auto simp: ranks lists_objects_def split: option.splits)
qed

end
