(* ===== verification/Policy_Cache.thy ===== *)
theory Policy_Cache
  imports Obj_Map
begin

text \<open>
  What the certificate policies, policy mappings and policy constraints of one certificate say, as it is
  kept with the certificate (\<open>x509v3/pcy_data.c\<close>, \<open>pcy_cache.c\<close>, \<open>pcy_map.c\<close>).

  A certificate is its flags and what \<open>X509_get_ext_d2i\<close> returns for its four extensions: the decoded value,
  if any, and the number it stores. The flags that \<open>X509_check_purpose\<close> computes are set already. Policy
  data are values; the structures that a function takes its parts from and frees are not kept. Qualifiers
  are never looked at. The environment holds the tables of object identifiers and says which of the
  allocations of a run, counted in order, succeed. A failed assertion or a null dereference is \<open>None\<close>.
\<close>

section \<open>Policy data\<close>

definition POLICY_DATA_FLAG_MAPPED :: u32 where "POLICY_DATA_FLAG_MAPPED = 0x1"
definition POLICY_DATA_FLAG_MAPPED_ANY :: u32 where "POLICY_DATA_FLAG_MAPPED_ANY = 0x2"
definition POLICY_DATA_FLAG_MAP_MASK :: u32 where "POLICY_DATA_FLAG_MAP_MASK = 0x3"
definition POLICY_DATA_FLAG_SHARED_QUALIFIERS :: u32 where "POLICY_DATA_FLAG_SHARED_QUALIFIERS = 0x4"
definition POLICY_DATA_FLAG_EXTRA_NODE :: u32 where "POLICY_DATA_FLAG_EXTRA_NODE = 0x8"
definition POLICY_DATA_FLAG_CRITICAL :: u32 where "POLICY_DATA_FLAG_CRITICAL = 0x10"

definition EXFLAG_SI :: u64 where "EXFLAG_SI = 0x20"
definition EXFLAG_INVALID_POLICY :: u64 where "EXFLAG_INVALID_POLICY = 0x800"

definition NID_any_policy :: int where "NID_any_policy = 746"

record 'q policy_data =
  pd_flags :: u32
  pd_valid_policy :: asn1_object
  pd_qualifier_set :: "'q option"
  pd_expected_policy_set :: "(asn1_object, unit) stack_ptr"

record 'q policyinfo =
  pi_policyid :: asn1_object
  pi_qualifiers :: "'q option"

record policy_env =
  pe_dat :: obj_dat
  pe_gl :: obj_globals
  pe_got :: "nat \<Rightarrow> bool"

definition is_any_policy :: "policy_env \<Rightarrow> asn1_object \<Rightarrow> bool" where
  "is_any_policy env oid \<longleftrightarrow> OBJ_obj2nid (pe_dat env) (pe_gl env) (Some oid) = NID_any_policy"

text \<open>The allocations from the \<open>k\<close>-th on that copy an object, and one of a stack's array.\<close>

definition dup_mem :: "policy_env \<Rightarrow> nat \<Rightarrow> obj_mem" where
  "dup_mem env k = \<lparr>om_object = pe_got env k, om_data = (\<lambda>n. if pe_got env (k + 1) then Some (replicate n 0) else None),
     om_ln = pe_got env (k + 2), om_sn = pe_got env (k + 3), om_cbb = (\<lambda>_. False), om_table = (\<lambda>_. False),
     om_item = (\<lambda>_. None), om_buckets = (\<lambda>_. False)\<rparr>"

definition array_mem :: "policy_env \<Rightarrow> nat \<Rightarrow> 'p mem" where
  "array_mem env k n = (if pe_got env k then Some (replicate n None) else None)"

definition policy_data_new ::
  "policy_env \<Rightarrow> 'q policyinfo option \<Rightarrow> asn1_object option \<Rightarrow> bool \<Rightarrow> nat \<Rightarrow> 'q policy_data option \<times> nat" where
  "policy_data_new env policy cid crit k =
     (if policy = None \<and> cid = None then (None, k)
      else case (case cid of None \<Rightarrow> Some None | Some c \<Rightarrow> map_option Some (OBJ_dup (dup_mem env k) (Some c))) of
          None \<Rightarrow> (None, k + 4)
        | Some oid \<Rightarrow>
            if \<not> pe_got env (k + 4) then (None, k + 5)
            else case sk_new_null (pe_got env (k + 5)) (array_mem env (k + 6)) of
                None \<Rightarrow> (None, k + 7)
              | Some expected \<Rightarrow>
                  (Some \<lparr>pd_flags = (if crit then POLICY_DATA_FLAG_CRITICAL else 0),
                     pd_valid_policy = (case oid of Some i \<Rightarrow> i | None \<Rightarrow> pi_policyid (the policy)),
                     pd_qualifier_set = (case policy of Some p \<Rightarrow> pi_qualifiers p | None \<Rightarrow> None),
                     pd_expected_policy_set = Some expected\<rparr>, k + 7))"

section \<open>The policies of a certificate\<close>

type_synonym 'q policy_stack = "('q policy_data, unit) stack_ptr"

record 'q policy_cache =
  pc_anyPolicy :: "'q policy_data option"
  pc_data :: "'q policy_stack"
  pc_any_skip :: int
  pc_explicit_skip :: int
  pc_map_skip :: int

text \<open>An \<open>ASN1_INTEGER\<close>: whether its type says it is negative, and what \<open>ASN1_INTEGER_get\<close> returns.\<close>

record asn1_integer =
  ai_neg :: bool
  ai_value :: int

record policy_constraints =
  po_requireExplicitPolicy :: "asn1_integer option"
  po_inhibitPolicyMapping :: "asn1_integer option"

record policy_mapping =
  mp_issuerDomainPolicy :: asn1_object
  mp_subjectDomainPolicy :: asn1_object

type_synonym 'a ext_d2i = "'a option \<times> int"

record 'q x509 =
  x_ex_flags :: u64
  x_policy_cache :: "'q policy_cache option"
  x_policy_constraints :: "policy_constraints ext_d2i"
  x_certificate_policies :: "'q policyinfo list ext_d2i"
  x_policy_mappings :: "policy_mapping list ext_d2i"
  x_inhibit_any_policy :: "asn1_integer ext_d2i"

definition policy_data_cmp :: "unit \<Rightarrow> 'q policy_data option \<Rightarrow> 'q policy_data option \<Rightarrow> int" where
  "policy_data_cmp _ a b = OBJ_cmp (pd_valid_policy (the a)) (pd_valid_policy (the b))"

text \<open>The loop over the policies: the result, the cache and the count of allocations.\<close>

primrec policy_cache_loop ::
  "policy_env \<Rightarrow> bool \<Rightarrow> 'q policyinfo list \<Rightarrow> 'q policy_cache \<Rightarrow> nat \<Rightarrow> (int \<times> 'q policy_cache \<times> nat) option" where
  "policy_cache_loop env crit [] cache k = Some (1, cache, k)"
| "policy_cache_loop env crit (policy # policies) cache k =
     (case policy_data_new env (Some policy) None crit k of
        (None, k) \<Rightarrow> Some (0, cache, k)
      | (Some data, k) \<Rightarrow>
          let cache = cache\<lparr>pc_data := sk_sort qsort policy_data_cmp (pc_data cache)\<rparr> in
          if is_any_policy env (pd_valid_policy data) then
            (case pc_anyPolicy cache of
               Some _ \<Rightarrow> Some (-1, cache, k)
             | None \<Rightarrow> policy_cache_loop env crit policies (cache\<lparr>pc_anyPolicy := Some data\<rparr>) k)
          else
            (case sk_find policy_data_cmp (Some data) (pc_data cache) of
               None \<Rightarrow> None
             | Some (Some _) \<Rightarrow> Some (-1, cache, k)
             | Some None \<Rightarrow>
                 (case sk_push (array_mem env k) (Some data) (pc_data cache) of
                    None \<Rightarrow> None
                  | Some (n, sk) \<Rightarrow>
                      if n = 0 then Some (0, cache, k + 1)
                      else policy_cache_loop env crit policies (cache\<lparr>pc_data := sk\<rparr>) (k + 1))))"

definition policy_cache_create ::
  "policy_env \<Rightarrow> 'q policyinfo list \<Rightarrow> bool \<Rightarrow> 'q x509 \<Rightarrow> nat \<Rightarrow> (int \<times> 'q x509 \<times> nat) option" where
  "policy_cache_create env policies crit x k = (case x_policy_cache x of None \<Rightarrow> None | Some cache \<Rightarrow>
     (case (if policies = [] then Some (0, cache, k)
        else case sk_new (pe_got env k) (array_mem env (k + 1)) (Some ()) of
            None \<Rightarrow> Some (0, cache\<lparr>pc_data := None\<rparr>, k + 2)
          | Some sk \<Rightarrow> policy_cache_loop env crit policies (cache\<lparr>pc_data := Some sk\<rparr>) (k + 2)) of
        None \<Rightarrow> None
      | Some (r, cache, k) \<Rightarrow>
          let x = (if r = -1 then x\<lparr>x_ex_flags := x_ex_flags x OR EXFLAG_INVALID_POLICY\<rparr> else x);
              cache = (if r \<le> 0 then cache\<lparr>pc_data := None\<rparr> else cache)
          in Some (r, x\<lparr>x_policy_cache := Some cache\<rparr>, k)))"

text \<open>The index of the data that was found, and the cache, which is sorted.\<close>

definition policy_cache_find_data :: "'q policy_cache \<Rightarrow> asn1_object \<Rightarrow> (nat option \<times> 'q policy_cache) option" where
  "policy_cache_find_data cache oid =
     (let tmp = \<lparr>pd_flags = 0, pd_valid_policy = oid, pd_qualifier_set = None, pd_expected_policy_set = None\<rparr>;
          cache = cache\<lparr>pc_data := sk_sort qsort policy_data_cmp (pc_data cache)\<rparr>
      in case sk_find policy_data_cmp (Some tmp) (pc_data cache) of None \<Rightarrow> None | Some idx \<Rightarrow> Some (idx, cache))"

text \<open>A change of the data that an element of the stack points to.\<close>

definition data_update :: "nat \<Rightarrow> ('q policy_data \<Rightarrow> 'q policy_data) \<Rightarrow> 'q policy_cache \<Rightarrow> 'q policy_cache" where
  "data_update i f cache = cache\<lparr>pc_data := map_option (\<lambda>s. s\<lparr>stk_data := (stk_data s)[i := map_option f (stk_data s ! i)]\<rparr>) (pc_data cache)\<rparr>"

text \<open>Data made from \<open>anyPolicy\<close> for a policy that is mapped and not listed: its index.\<close>

definition policy_mapped_any ::
  "policy_env \<Rightarrow> asn1_object \<Rightarrow> 'q policy_data \<Rightarrow> 'q policy_cache \<Rightarrow> nat \<Rightarrow> (nat option \<times> 'q policy_cache \<times> nat) option" where
  "policy_mapped_any env issuer anyp cache k =
     (case policy_data_new env None (Some issuer) (pd_flags anyp AND POLICY_DATA_FLAG_CRITICAL \<noteq> 0) k of
        (None, k) \<Rightarrow> Some (None, cache, k)
      | (Some data, k) \<Rightarrow>
          let data = data\<lparr>pd_qualifier_set := pd_qualifier_set anyp,
                pd_flags := pd_flags data OR POLICY_DATA_FLAG_MAPPED_ANY OR POLICY_DATA_FLAG_SHARED_QUALIFIERS\<rparr>
          in case sk_push (array_mem env k) (Some data) (pc_data cache) of
              None \<Rightarrow> None
            | Some (n, sk) \<Rightarrow> Some (if n = 0 then None else Some (n - 1), cache\<lparr>pc_data := sk\<rparr>, k + 1))"

primrec policy_mapping_loop ::
  "policy_env \<Rightarrow> policy_mapping list \<Rightarrow> 'q policy_cache \<Rightarrow> nat \<Rightarrow> (int \<times> 'q policy_cache \<times> nat) option" where
  "policy_mapping_loop env [] cache k = Some (1, cache, k)"
| "policy_mapping_loop env (mp # maps) cache k =
     (if is_any_policy env (mp_subjectDomainPolicy mp) \<or> is_any_policy env (mp_issuerDomainPolicy mp) then Some (-1, cache, k)
      else case policy_cache_find_data cache (mp_issuerDomainPolicy mp) of
          None \<Rightarrow> None
        | Some (found, cache) \<Rightarrow>
            (case (case found of
                 Some i \<Rightarrow> Some (Some i, data_update i (\<lambda>d. d\<lparr>pd_flags := pd_flags d OR POLICY_DATA_FLAG_MAPPED\<rparr>) cache, k)
               | None \<Rightarrow> (case pc_anyPolicy cache of
                     None \<Rightarrow> Some (None, cache, k)
                   | Some anyp \<Rightarrow> policy_mapped_any env (mp_issuerDomainPolicy mp) anyp cache k)) of
               None \<Rightarrow> None
             | Some (None, cache, k) \<Rightarrow>
                 if found = None \<and> pc_anyPolicy cache = None then policy_mapping_loop env maps cache k else Some (0, cache, k)
             | Some (Some i, cache, k) \<Rightarrow>
                 (case sk_value (pc_data cache) i of None \<Rightarrow> None | Some data \<Rightarrow>
                  case sk_push (array_mem env k) (Some (mp_subjectDomainPolicy mp)) (pd_expected_policy_set data) of
                    None \<Rightarrow> None
                  | Some (n, sk) \<Rightarrow>
                      let cache = data_update i (\<lambda>d. d\<lparr>pd_expected_policy_set := sk\<rparr>) cache
                      in if n = 0 then Some (0, cache, k + 1) else policy_mapping_loop env maps cache (k + 1))))"

definition policy_cache_set_mapping ::
  "policy_env \<Rightarrow> policy_mapping list \<Rightarrow> 'q x509 \<Rightarrow> nat \<Rightarrow> (int \<times> 'q x509 \<times> nat) option" where
  "policy_cache_set_mapping env maps x k = (case x_policy_cache x of None \<Rightarrow> None | Some cache \<Rightarrow>
     (case (if maps = [] then Some (-1, cache, k) else policy_mapping_loop env maps cache k) of
        None \<Rightarrow> None
      | Some (r, cache, k) \<Rightarrow>
          let x = (if r = -1 then x\<lparr>x_ex_flags := x_ex_flags x OR EXFLAG_INVALID_POLICY\<rparr> else x)
          in Some (r, x\<lparr>x_policy_cache := Some cache\<rparr>, k)))"

text \<open>What is stored, if anything, and whether the value is acceptable.\<close>

definition policy_cache_set_int :: "asn1_integer option \<Rightarrow> int \<Rightarrow> bool \<times> int" where
  "policy_cache_set_int v out = (case v of None \<Rightarrow> (True, out) | Some i \<Rightarrow> if ai_neg i then (False, out) else (True, ai_value i))"

section \<open>The cache\<close>

text \<open>The requirements read before the policies; whether to go on.\<close>

definition policy_cache_constraints :: "'q x509 \<Rightarrow> 'q policy_cache \<Rightarrow> bool \<times> 'q policy_cache" where
  "policy_cache_constraints x cache =
     (case x_policy_constraints x of
        (None, i) \<Rightarrow> (i = -1, cache)
      | (Some pcons, _) \<Rightarrow>
          if po_requireExplicitPolicy pcons = None \<and> po_inhibitPolicyMapping pcons = None then (False, cache)
          else case policy_cache_set_int (po_requireExplicitPolicy pcons) (pc_explicit_skip cache) of (ok, v) \<Rightarrow>
            let cache = cache\<lparr>pc_explicit_skip := v\<rparr> in
            if \<not> ok then (False, cache)
            else case policy_cache_set_int (po_inhibitPolicyMapping pcons) (pc_map_skip cache) of (ok, v) \<Rightarrow>
              (ok, cache\<lparr>pc_map_skip := v\<rparr>))"

definition bad_cache :: "'q x509 \<Rightarrow> 'q x509" where
  "bad_cache x = x\<lparr>x_ex_flags := x_ex_flags x OR EXFLAG_INVALID_POLICY\<rparr>"

definition policy_cache_any_skip :: "'q x509 \<Rightarrow> 'q x509" where
  "policy_cache_any_skip x =
     (case x_inhibit_any_policy x of
        (None, i) \<Rightarrow> if i \<noteq> -1 then bad_cache x else x
      | (Some v, _) \<Rightarrow>
          (case x_policy_cache x of None \<Rightarrow> x | Some cache \<Rightarrow>
             case policy_cache_set_int (Some v) (pc_any_skip cache) of (ok, s) \<Rightarrow>
               let x = x\<lparr>x_policy_cache := Some (cache\<lparr>pc_any_skip := s\<rparr>)\<rparr> in if ok then x else bad_cache x))"

definition policy_cache_new :: "policy_env \<Rightarrow> 'q x509 \<Rightarrow> nat \<Rightarrow> (int \<times> 'q x509 \<times> nat) option" where
  "policy_cache_new env x k =
     (if \<not> pe_got env k then Some (0, x, k + 1)
      else
        let cache = \<lparr>pc_anyPolicy = None, pc_data = None, pc_any_skip = -1, pc_explicit_skip = -1, pc_map_skip = -1\<rparr>;
            (ok, cache) = policy_cache_constraints x cache;
            x = x\<lparr>x_policy_cache := Some cache\<rparr>
        in if \<not> ok then Some (1, bad_cache x, k + 1)
           else case x_certificate_policies x of
               (None, i) \<Rightarrow> Some (1, if i \<noteq> -1 then bad_cache x else x, k + 1)
             | (Some cpols, i) \<Rightarrow>
                 (case policy_cache_create env cpols (i \<noteq> 0) x (k + 1) of
                    None \<Rightarrow> None
                  | Some (r, x, k) \<Rightarrow>
                      if r \<le> 0 then Some (r, x, k)
                      else case x_policy_mappings x of
                          (None, i) \<Rightarrow> Some (1, if i \<noteq> -1 then bad_cache x else policy_cache_any_skip x, k)
                        | (Some maps, _) \<Rightarrow>
                            (case policy_cache_set_mapping env maps x k of
                               None \<Rightarrow> None
                             | Some (r, x, k) \<Rightarrow> Some (1, if r \<le> 0 then bad_cache x else policy_cache_any_skip x, k))))"

definition policy_cache_set :: "policy_env \<Rightarrow> 'q x509 \<Rightarrow> nat \<Rightarrow> ('q policy_cache option \<times> 'q x509 \<times> nat) option" where
  "policy_cache_set env x k = (case x_policy_cache x of
     Some cache \<Rightarrow> Some (Some cache, x, k)
   | None \<Rightarrow> (case policy_cache_new env x k of
         None \<Rightarrow> None
       | Some (_, x, k) \<Rightarrow> Some (x_policy_cache x, x, k)))"

end
