(* ===== verification/Policy_Tree.thy ===== *)
theory Policy_Tree
  imports Policy_Cache "HOL-Library.Monad_Syntax"
begin

text \<open>
  The tree of valid policies of a certificate chain and its evaluation (\<open>x509v3/pcy_node.c\<close>,
  \<open>pcy_tree.c\<close>, \<open>pcy_lib.c\<close>) and the step of the chain verification that uses it (\<open>check_policy\<close> of
  \<open>x509/x509_vfy.c\<close>).

  Nodes live on a heap at addresses that are never used twice; a freed address holds nothing, and to read,
  change or free it is \<open>None\<close>, as is to follow a null pointer. Node data do not change once a node points
  at them and are kept with it. A level refers to its certificate by the index in the chain; reference
  counts of certificates are not kept. The certificates of a chain are different structures.
\<close>

section \<open>Nodes and levels\<close>

definition X509_V_FLAG_EXPLICIT_POLICY :: u32 where "X509_V_FLAG_EXPLICIT_POLICY = 0x100"
definition X509_V_FLAG_INHIBIT_ANY :: u32 where "X509_V_FLAG_INHIBIT_ANY = 0x200"
definition X509_V_FLAG_INHIBIT_MAP :: u32 where "X509_V_FLAG_INHIBIT_MAP = 0x400"
definition X509_V_FLAG_NOTIFY_POLICY :: u64 where "X509_V_FLAG_NOTIFY_POLICY = 0x800"
definition POLICY_FLAG_ANY_POLICY :: u32 where "POLICY_FLAG_ANY_POLICY = 0x2"

definition X509_V_ERR_OUT_OF_MEM :: int where "X509_V_ERR_OUT_OF_MEM = 17"
definition X509_V_ERR_INVALID_POLICY_EXTENSION :: int where "X509_V_ERR_INVALID_POLICY_EXTENSION = 42"
definition X509_V_ERR_NO_EXPLICIT_POLICY :: int where "X509_V_ERR_NO_EXPLICIT_POLICY = 43"

record 'q policy_node =
  nd_data :: "'q policy_data"
  nd_parent :: "nat option"
  nd_nchild :: int

type_synonym node_stack = "(nat, unit) stack_ptr"

record policy_level =
  lv_cert :: "nat option"
  lv_nodes :: node_stack
  lv_anyPolicy :: "nat option"
  lv_flags :: u32

record 'q policy_tree =
  tr_levels :: "policy_level list"
  tr_nlevel :: nat
  tr_extra_data :: "'q policy_stack"
  tr_auth_policies :: node_stack
  tr_user_policies :: node_stack
  tr_flags :: u32

text \<open>The nodes, the next address, and the number of allocations made so far.\<close>

record 'q policy_heap =
  hp_node :: "nat \<Rightarrow> 'q policy_node option"
  hp_next :: nat
  hp_count :: nat

definition stack_items :: "('p, 'c) stack_ptr \<Rightarrow> 'p option list" where
  "stack_items sk = map (sk_value sk) [0..<sk_num sk]"

definition node_at :: "'q policy_heap \<Rightarrow> nat option \<Rightarrow> 'q policy_node option" where
  "node_at h a = do { a \<leftarrow> a; hp_node h a }"

definition policy_node_free :: "nat \<Rightarrow> 'q policy_heap \<Rightarrow> 'q policy_heap option" where
  "policy_node_free a h = (if hp_node h a = None then None else Some (h\<lparr>hp_node := (hp_node h)(a := None)\<rparr>))"

definition child_add :: "int \<Rightarrow> nat option \<Rightarrow> 'q policy_heap \<Rightarrow> 'q policy_heap option" where
  "child_add d p h = do {
     p \<leftarrow> p;
     n \<leftarrow> hp_node h p;
     Some (h\<lparr>hp_node := (hp_node h)(p \<mapsto> n\<lparr>nd_nchild := nd_nchild n + d\<rparr>)\<rparr>) }"

definition node_critical :: "'q policy_node \<Rightarrow> bool" where
  "node_critical node \<longleftrightarrow> pd_flags (nd_data node) AND POLICY_DATA_FLAG_CRITICAL \<noteq> 0"

text \<open>A push on a stack that is made first if there is none.\<close>

definition push_new ::
  "policy_env \<Rightarrow> 'c option \<Rightarrow> 'p option \<Rightarrow> ('p, 'c) stack_ptr \<Rightarrow> nat \<Rightarrow> bool \<times> ('p, 'c) stack_ptr \<times> nat" where
  "push_new env cmp p sk k =
     (case (case sk of Some _ \<Rightarrow> (sk, k) | None \<Rightarrow> (sk_new (pe_got env k) (array_mem env (k + 1)) cmp, k + 2)) of
        (None, k) \<Rightarrow> (False, None, k)
      | (Some s, k) \<Rightarrow> (case sk_insert (array_mem env k) p (stk_num s) (Some s) of (n, sk) \<Rightarrow> (n \<noteq> 0, sk, k + 1)))"

definition level_link ::
  "policy_env \<Rightarrow> 'q policy_data \<Rightarrow> nat \<Rightarrow> policy_level \<Rightarrow> nat \<Rightarrow> bool \<times> policy_level \<times> nat" where
  "level_link env data a level k =
     (if is_any_policy env (pd_valid_policy data) then
        (if lv_anyPolicy level \<noteq> None then (False, level, k) else (True, level\<lparr>lv_anyPolicy := Some a\<rparr>, k))
      else case push_new env (Some ()) (Some a) (lv_nodes level) k of
        (ok, sk, k) \<Rightarrow> (ok, level\<lparr>lv_nodes := sk\<rparr>, k))"

text \<open>The level and the tree's extra data are passed if they are there, and returned.\<close>

definition level_add_node ::
  "policy_env \<Rightarrow> policy_level option \<Rightarrow> 'q policy_data \<Rightarrow> nat option \<Rightarrow> 'q policy_stack option \<Rightarrow> 'q policy_heap \<Rightarrow>
     (nat option \<times> policy_level option \<times> 'q policy_stack option \<times> 'q policy_heap) option" where
  "level_add_node env level data parent extra h =
     (if \<not> pe_got env (hp_count h) then Some (None, level, extra, h\<lparr>hp_count := hp_count h + 1\<rparr>)
      else
        let a = hp_next h;
            h = h\<lparr>hp_node := (hp_node h)(a \<mapsto> \<lparr>nd_data = data, nd_parent = parent, nd_nchild = 0\<rparr>),
              hp_next := a + 1, hp_count := hp_count h + 1\<rparr>;
            (ok, level, k) = (case level of None \<Rightarrow> (True, None, hp_count h)
              | Some lv \<Rightarrow> (case level_link env data a lv (hp_count h) of (ok, lv, k) \<Rightarrow> (ok, Some lv, k)));
            (ok, extra, k) = (case extra of
                Some sk \<Rightarrow> if ok then (case push_new env None (Some data) sk k of (ok, sk, k) \<Rightarrow> (ok, Some sk, k)) else (ok, extra, k)
              | None \<Rightarrow> (ok, None, k));
            h = h\<lparr>hp_count := k\<rparr>
        in if \<not> ok then do { h \<leftarrow> policy_node_free a h; Some (None, level, extra, h) }
           else if parent = None then Some (Some a, level, extra, h)
           else do { h \<leftarrow> child_add 1 parent h; Some (Some a, level, extra, h) })"

text \<open>Whether one of the policies is the given one.\<close>

primrec any_match :: "asn1_object \<Rightarrow> asn1_object option list \<Rightarrow> bool option" where
  "any_match oid [] = Some False"
| "any_match oid (p # ps) = do { p \<leftarrow> p; if OBJ_cmp p oid = 0 then Some True else any_match oid ps }"

definition policy_node_match :: "policy_level \<Rightarrow> 'q policy_node \<Rightarrow> asn1_object \<Rightarrow> bool option" where
  "policy_node_match lvl node oid =
     (let x = nd_data node in
      if lv_flags lvl AND X509_V_FLAG_INHIBIT_MAP \<noteq> 0 \<or> pd_flags x AND POLICY_DATA_FLAG_MAP_MASK = 0
      then Some (OBJ_cmp (pd_valid_policy x) oid = 0)
      else any_match oid (stack_items (pd_expected_policy_set x)))"

primrec find_child :: "'q policy_heap \<Rightarrow> nat \<Rightarrow> asn1_object \<Rightarrow> nat option list \<Rightarrow> nat option option" where
  "find_child h parent oid [] = Some None"
| "find_child h parent oid (a # as) = do {
     node \<leftarrow> node_at h a;
     if nd_parent node = Some parent \<and> OBJ_cmp (pd_valid_policy (nd_data node)) oid = 0 then Some a
     else find_child h parent oid as }"

definition level_find_node :: "'q policy_heap \<Rightarrow> policy_level \<Rightarrow> nat \<Rightarrow> asn1_object \<Rightarrow> nat option option" where
  "level_find_node h level parent oid = find_child h parent oid (stack_items (lv_nodes level))"

section \<open>Sorted sets of nodes\<close>

definition node_oid :: "'q policy_heap \<Rightarrow> nat option \<Rightarrow> asn1_object" where
  "node_oid h a = pd_valid_policy (nd_data (the (node_at h a)))"

definition node_cmp :: "'q policy_heap \<Rightarrow> unit \<Rightarrow> nat option \<Rightarrow> nat option \<Rightarrow> int" where
  "node_cmp h _ a b = OBJ_cmp (node_oid h a) (node_oid h b)"

definition nodes_live :: "'q policy_heap \<Rightarrow> node_stack \<Rightarrow> bool" where
  "nodes_live h sk \<longleftrightarrow> list_all (\<lambda>a. node_at h a \<noteq> None) (stack_items sk)"

definition node_sort :: "'q policy_heap \<Rightarrow> node_stack \<Rightarrow> node_stack option" where
  "node_sort h sk = (if nodes_live h sk then Some (sk_sort qsort (node_cmp h) sk) else None)"

definition node_find :: "'q policy_heap \<Rightarrow> nat option \<Rightarrow> node_stack \<Rightarrow> nat option option" where
  "node_find h a sk = (if nodes_live h sk \<and> node_at h a \<noteq> None then sk_find (node_cmp h) a sk else None)"

text \<open>The node that is looked for is a local variable, at an address that is not in use.\<close>

definition tree_find_sk :: "'q policy_heap \<Rightarrow> node_stack \<Rightarrow> asn1_object \<Rightarrow> (nat option \<times> node_stack) option" where
  "tree_find_sk h nodes oid = do {
     nodes \<leftarrow> node_sort h nodes;
     let n = \<lparr>pd_flags = 0, pd_valid_policy = oid, pd_qualifier_set = None, pd_expected_policy_set = None\<rparr>;
     let local = h\<lparr>hp_node := (hp_node h)(hp_next h \<mapsto> \<lparr>nd_data = n, nd_parent = None, nd_nchild = 0\<rparr>)\<rparr>;
     found \<leftarrow> node_find local (Some (hp_next h)) nodes;
     Some (case found of None \<Rightarrow> None | Some i \<Rightarrow> sk_value nodes i, nodes) }"

definition tree_add_auth_node ::
  "policy_env \<Rightarrow> node_stack \<Rightarrow> nat option \<Rightarrow> 'q policy_heap \<Rightarrow> (bool \<times> node_stack \<times> 'q policy_heap) option" where
  "tree_add_auth_node env pnodes pcy h = do {
     (present, pnodes) \<leftarrow> (if pnodes = None then Some (False, None) else do {
        pnodes \<leftarrow> node_sort h pnodes;
        found \<leftarrow> node_find h pcy pnodes;
        Some (found \<noteq> None, pnodes) });
     if present then Some (True, pnodes, h)
     else case push_new env (Some ()) pcy pnodes (hp_count h) of
        (ok, pnodes, k) \<Rightarrow> Some (ok, pnodes, h\<lparr>hp_count := k\<rparr>) }"

section \<open>Linking a level to the one above\<close>

text \<open>The result of an operation on a level: whether it went well, the level and the heap.\<close>

type_synonym 'q linked = "(bool \<times> policy_level \<times> 'q policy_heap) option"

definition add_listed :: "policy_env \<Rightarrow> policy_level \<Rightarrow> 'q policy_data \<Rightarrow> nat option \<Rightarrow> 'q policy_heap \<Rightarrow> 'q linked" where
  "add_listed env lev data parent h = do {
     (a, level, _, h) \<leftarrow> level_add_node env (Some lev) data parent None h;
     lev \<leftarrow> level;
     Some (a \<noteq> None, lev, h) }"

primrec link_matching ::
  "policy_env \<Rightarrow> policy_level \<Rightarrow> 'q policy_data \<Rightarrow> nat option list \<Rightarrow> bool \<Rightarrow> policy_level \<Rightarrow> 'q policy_heap \<Rightarrow>
     (bool \<times> bool \<times> policy_level \<times> 'q policy_heap) option" where
  "link_matching env prev data [] matched lev h = Some (True, matched, lev, h)"
| "link_matching env prev data (a # as) matched lev h = do {
     node \<leftarrow> node_at h a;
     m \<leftarrow> policy_node_match prev node (pd_valid_policy data);
     if m then do {
       (ok, lev, h) \<leftarrow> add_listed env lev data a h;
       if ok then link_matching env prev data as True lev h else Some (False, matched, lev, h) }
     else link_matching env prev data as matched lev h }"

definition tree_link_matching_nodes ::
  "policy_env \<Rightarrow> policy_level \<Rightarrow> policy_level \<Rightarrow> 'q policy_data \<Rightarrow> 'q policy_heap \<Rightarrow> 'q linked" where
  "tree_link_matching_nodes env prev lev data h = do {
     (ok, matched, lev, h) \<leftarrow> link_matching env prev data (stack_items (lv_nodes prev)) False lev h;
     if ok \<and> \<not> matched \<and> lv_anyPolicy prev \<noteq> None then add_listed env lev data (lv_anyPolicy prev) h
     else Some (ok, lev, h) }"

primrec link_listed ::
  "policy_env \<Rightarrow> policy_level \<Rightarrow> 'q policy_data option list \<Rightarrow> policy_level \<Rightarrow> 'q policy_heap \<Rightarrow> 'q linked" where
  "link_listed env prev [] lev h = Some (True, lev, h)"
| "link_listed env prev (d # ds) lev h = do {
     data \<leftarrow> d;
     (ok, lev, h) \<leftarrow> tree_link_matching_nodes env prev lev data h;
     if ok then link_listed env prev ds lev h else Some (False, lev, h) }"

definition tree_link_nodes ::
  "policy_env \<Rightarrow> policy_level \<Rightarrow> policy_level \<Rightarrow> 'q policy_cache \<Rightarrow> 'q policy_heap \<Rightarrow> 'q linked" where
  "tree_link_nodes env prev lev cache h = link_listed env prev (stack_items (pc_data cache)) lev h"

text \<open>The tree's extra data are passed and returned as well.\<close>

type_synonym 'q linked_extra = "(bool \<times> policy_level \<times> 'q policy_stack \<times> 'q policy_heap) option"

definition tree_add_unmatched ::
  "policy_env \<Rightarrow> policy_level \<Rightarrow> 'q policy_cache \<Rightarrow> asn1_object option \<Rightarrow> nat option \<Rightarrow> 'q policy_stack \<Rightarrow>
     'q policy_heap \<Rightarrow> 'q linked_extra" where
  "tree_add_unmatched env lev cache oid a extra h = do {
     node \<leftarrow> node_at h a;
     let oid = (case oid of None \<Rightarrow> pd_valid_policy (nd_data node) | Some i \<Rightarrow> i);
     case policy_data_new env None (Some oid) (node_critical node) (hp_count h) of
       (None, k) \<Rightarrow> Some (False, lev, extra, h\<lparr>hp_count := k\<rparr>)
     | (Some data, k) \<Rightarrow> do {
         anyp \<leftarrow> pc_anyPolicy cache;
         let data = data\<lparr>pd_qualifier_set := pd_qualifier_set anyp,
               pd_flags := pd_flags data OR POLICY_DATA_FLAG_SHARED_QUALIFIERS\<rparr>;
         (r, level, extra, h) \<leftarrow> level_add_node env (Some lev) data a (Some extra) (h\<lparr>hp_count := k\<rparr>);
         lev \<leftarrow> level;
         extra \<leftarrow> extra;
         Some (r \<noteq> None, lev, extra, h) } }"

primrec link_expected ::
  "policy_env \<Rightarrow> 'q policy_cache \<Rightarrow> nat \<Rightarrow> asn1_object option list \<Rightarrow> policy_level \<Rightarrow> 'q policy_stack \<Rightarrow>
     'q policy_heap \<Rightarrow> 'q linked_extra" where
  "link_expected env cache a [] lev extra h = Some (True, lev, extra, h)"
| "link_expected env cache a (p # ps) lev extra h = do {
     oid \<leftarrow> p;
     found \<leftarrow> level_find_node h lev a oid;
     if found \<noteq> None then link_expected env cache a ps lev extra h
     else do {
       (ok, lev, extra, h) \<leftarrow> tree_add_unmatched env lev cache (Some oid) (Some a) extra h;
       if ok then link_expected env cache a ps lev extra h else Some (False, lev, extra, h) } }"

definition tree_link_unmatched ::
  "policy_env \<Rightarrow> policy_level \<Rightarrow> policy_level \<Rightarrow> 'q policy_cache \<Rightarrow> nat option \<Rightarrow> 'q policy_stack \<Rightarrow>
     'q policy_heap \<Rightarrow> 'q linked_extra" where
  "tree_link_unmatched env prev lev cache a extra h = do {
     node \<leftarrow> node_at h a;
     if lv_flags prev AND X509_V_FLAG_INHIBIT_MAP \<noteq> 0 \<or> pd_flags (nd_data node) AND POLICY_DATA_FLAG_MAPPED = 0
     then (if nd_nchild node \<noteq> 0 then Some (True, lev, extra, h)
       else tree_add_unmatched env lev cache None a extra h)
     else
       let expset = pd_expected_policy_set (nd_data node) in
       if nd_nchild node = int (sk_num expset) then Some (True, lev, extra, h)
       else do { a \<leftarrow> a; link_expected env cache a (stack_items expset) lev extra h } }"

primrec link_unmatched ::
  "policy_env \<Rightarrow> policy_level \<Rightarrow> 'q policy_cache \<Rightarrow> nat option list \<Rightarrow> policy_level \<Rightarrow> 'q policy_stack \<Rightarrow>
     'q policy_heap \<Rightarrow> 'q linked_extra" where
  "link_unmatched env prev cache [] lev extra h = Some (True, lev, extra, h)"
| "link_unmatched env prev cache (a # as) lev extra h = do {
     (ok, lev, extra, h) \<leftarrow> tree_link_unmatched env prev lev cache a extra h;
     if ok then link_unmatched env prev cache as lev extra h else Some (False, lev, extra, h) }"

definition tree_link_any ::
  "policy_env \<Rightarrow> policy_level \<Rightarrow> policy_level \<Rightarrow> 'q policy_cache \<Rightarrow> 'q policy_stack \<Rightarrow> 'q policy_heap \<Rightarrow> 'q linked_extra" where
  "tree_link_any env prev lev cache extra h = do {
     (ok, lev, extra, h) \<leftarrow> link_unmatched env prev cache (stack_items (lv_nodes prev)) lev extra h;
     if ok \<and> lv_anyPolicy prev \<noteq> None then do {
       anyp \<leftarrow> pc_anyPolicy cache;
       (ok, lev, h) \<leftarrow> add_listed env lev anyp (lv_anyPolicy prev) h;
       Some (ok, lev, extra, h) }
     else Some (ok, lev, extra, h) }"

end
