(* ===== verification/Policy_Check.thy ===== *)
theory Policy_Check
  imports Policy_Tree
begin

text \<open>
  The evaluation of the policy tree level by level, the sets of policies it yields, its release, the check
  of a chain (\<open>x509v3/pcy_tree.c\<close>), the accessors (\<open>pcy_lib.c\<close>) and the verification step that reports the
  outcome (\<open>check_policy\<close> of \<open>x509/x509_vfy.c\<close>). The callback of the application is a parameter.
\<close>

section \<open>Pruning\<close>

definition drop_node :: "nat \<Rightarrow> 'q policy_node \<Rightarrow> 'q policy_heap \<Rightarrow> 'q policy_heap option" where
  "drop_node a node h = do {
     h \<leftarrow> child_add (-1) (nd_parent node) h;
     policy_node_free a h }"

text \<open>The loop over the nodes of a level, from the last to the first.\<close>

primrec prune_nodes ::
  "('q policy_node \<Rightarrow> bool) \<Rightarrow> nat \<Rightarrow> node_stack \<Rightarrow> 'q policy_heap \<Rightarrow> (node_stack \<times> 'q policy_heap) option" where
  "prune_nodes zap 0 nodes h = Some (nodes, h)"
| "prune_nodes zap (Suc i) nodes h = do {
     a \<leftarrow> sk_value nodes i;
     node \<leftarrow> hp_node h a;
     if zap node then do {
       h \<leftarrow> drop_node a node h;
       prune_nodes zap i (snd (sk_delete i nodes)) h }
     else prune_nodes zap i nodes h }"

definition prune_any :: "policy_level \<Rightarrow> 'q policy_heap \<Rightarrow> (policy_level \<times> 'q policy_heap) option" where
  "prune_any lev h = (case lv_anyPolicy lev of
     None \<Rightarrow> Some (lev, h)
   | Some a \<Rightarrow> do {
       node \<leftarrow> hp_node h a;
       if nd_nchild node \<noteq> 0 then Some (lev, h)
       else do {
         h \<leftarrow> (if nd_parent node = None then Some h else child_add (-1) (nd_parent node) h);
         h \<leftarrow> policy_node_free a h;
         Some (lev\<lparr>lv_anyPolicy := None\<rparr>, h) } })"

definition prune_childless :: "policy_level \<Rightarrow> 'q policy_heap \<Rightarrow> (policy_level \<times> 'q policy_heap) option" where
  "prune_childless lev h = do {
     (nodes, h) \<leftarrow> prune_nodes (\<lambda>node. nd_nchild node = 0) (sk_num (lv_nodes lev)) (lv_nodes lev) h;
     prune_any (lev\<lparr>lv_nodes := nodes\<rparr>) h }"

text \<open>The levels below the given index, from the last to the root.\<close>

primrec prune_up :: "nat \<Rightarrow> policy_level list \<Rightarrow> 'q policy_heap \<Rightarrow> (int \<times> policy_level list \<times> 'q policy_heap) option" where
  "prune_up 0 lvs h = None"
| "prune_up (Suc j) lvs h = do {
     (lev, h) \<leftarrow> prune_childless (lvs ! j) h;
     let lvs = lvs[j := lev];
     if j = 0 then Some (if lv_anyPolicy lev = None then 2 else 1, lvs, h)
     else prune_up j lvs h }"

definition prune_mapped :: "policy_level \<Rightarrow> 'q policy_heap \<Rightarrow> (policy_level \<times> 'q policy_heap) option" where
  "prune_mapped lev h =
     (if lv_flags lev AND X509_V_FLAG_INHIBIT_MAP = 0 then Some (lev, h)
      else do {
        (nodes, h) \<leftarrow> prune_nodes (\<lambda>node. pd_flags (nd_data node) AND POLICY_DATA_FLAG_MAP_MASK \<noteq> 0)
          (sk_num (lv_nodes lev)) (lv_nodes lev) h;
        Some (lev\<lparr>lv_nodes := nodes\<rparr>, h) })"

definition tree_prune :: "nat \<Rightarrow> policy_level list \<Rightarrow> 'q policy_heap \<Rightarrow> (int \<times> policy_level list \<times> 'q policy_heap) option" where
  "tree_prune j lvs h = do {
     (lev, h) \<leftarrow> prune_mapped (lvs ! j) h;
     prune_up j (lvs[j := lev]) h }"

section \<open>Evaluating the tree\<close>

type_synonym 'q chain_state = "'q x509 list \<times> 'q policy_tree \<times> 'q policy_heap"

text \<open>The cache of a certificate of the chain; certificates and count of allocations are updated.\<close>

definition chain_cache :: "policy_env \<Rightarrow> nat \<Rightarrow> 'q x509 list \<Rightarrow> nat \<Rightarrow> ('q policy_cache option \<times> 'q x509 list \<times> nat) option" where
  "chain_cache env c certs k =
     (if c < length certs then do { (cache, x, k) \<leftarrow> policy_cache_set env (certs ! c) k; Some (cache, certs[c := x], k) } else None)"

definition evaluate_level ::
  "policy_env \<Rightarrow> nat \<Rightarrow> 'q x509 list \<Rightarrow> 'q policy_tree \<Rightarrow> 'q policy_heap \<Rightarrow> (int \<times> 'q chain_state) option" where
  "evaluate_level env j certs tree h = do {
     let prev = tr_levels tree ! (j - 1);
     let lev = tr_levels tree ! j;
     c \<leftarrow> lv_cert lev;
     (cache, certs, k) \<leftarrow> chain_cache env c certs (hp_count h);
     cache \<leftarrow> cache;
     (ok, lev, h) \<leftarrow> tree_link_nodes env prev lev cache (h\<lparr>hp_count := k\<rparr>);
     (ok, lev, extra, h) \<leftarrow>
       (if ok \<and> lv_flags lev AND X509_V_FLAG_INHIBIT_ANY = 0
        then tree_link_any env prev lev cache (tr_extra_data tree) h else Some (ok, lev, tr_extra_data tree, h));
     let tree = tree\<lparr>tr_levels := (tr_levels tree)[j := lev], tr_extra_data := extra\<rparr>;
     if \<not> ok then Some (0, certs, tree, h)
     else do {
       (r, lvs, h) \<leftarrow> tree_prune j (tr_levels tree) h;
       Some (r, certs, tree\<lparr>tr_levels := lvs\<rparr>, h) } }"

primrec evaluate_from ::
  "policy_env \<Rightarrow> nat list \<Rightarrow> 'q x509 list \<Rightarrow> 'q policy_tree \<Rightarrow> 'q policy_heap \<Rightarrow> (int \<times> 'q chain_state) option" where
  "evaluate_from env [] certs tree h = Some (1, certs, tree, h)"
| "evaluate_from env (j # js) certs tree h = do {
     (r, certs, tree, h) \<leftarrow> evaluate_level env j certs tree h;
     if r \<noteq> 1 then Some (r, certs, tree, h) else evaluate_from env js certs tree h }"

definition tree_evaluate ::
  "policy_env \<Rightarrow> 'q x509 list \<Rightarrow> 'q policy_tree \<Rightarrow> 'q policy_heap \<Rightarrow> (int \<times> 'q chain_state) option" where
  "tree_evaluate env certs tree h = evaluate_from env [1..<tr_nlevel tree] certs tree h"

section \<open>Building the tree\<close>

text \<open>The first loop: the result so far and the explicit policy count; 0 at once when there is no cache.\<close>

primrec init_caches ::
  "policy_env \<Rightarrow> nat list \<Rightarrow> int \<Rightarrow> int \<Rightarrow> 'q x509 list \<Rightarrow> nat \<Rightarrow> (int \<times> int \<times> 'q x509 list \<times> nat) option" where
  "init_caches env [] r explicit certs k = Some (r, explicit, certs, k)"
| "init_caches env (c # cs) r explicit certs k = do {
     (cache, certs, k) \<leftarrow> chain_cache env c certs k;
     case cache of
       None \<Rightarrow> Some (0, explicit, certs, k)
     | Some cache \<Rightarrow>
         let x = certs ! c;
             r = (if x_ex_flags x AND EXFLAG_INVALID_POLICY \<noteq> 0 then -1
               else if r = 1 \<and> pc_data cache = None then 2 else r);
             explicit = (if explicit > 0 then
                 let explicit = (if x_ex_flags x AND EXFLAG_SI = 0 then explicit - 1 else explicit)
                 in if pc_explicit_skip cache \<noteq> -1 \<and> pc_explicit_skip cache < explicit then pc_explicit_skip cache else explicit
               else explicit)
         in init_caches env cs r explicit certs k }"

text \<open>A count of certificates that may still pass, after one certificate.\<close>

definition skip_next :: "int \<Rightarrow> int \<Rightarrow> 'q x509 \<Rightarrow> int" where
  "skip_next skip limit x =
     (let skip = (if x_ex_flags x AND EXFLAG_SI = 0 then skip - 1 else skip)
      in if limit \<ge> 0 \<and> limit < skip then limit else skip)"

primrec init_levels ::
  "policy_env \<Rightarrow> nat list \<Rightarrow> int \<Rightarrow> int \<Rightarrow> nat \<Rightarrow> policy_level list \<Rightarrow> 'q x509 list \<Rightarrow> nat \<Rightarrow>
     (policy_level list \<times> 'q x509 list \<times> nat) option" where
  "init_levels env [] any_skip map_skip j lvs certs k = Some (lvs, certs, k)"
| "init_levels env (c # cs) any_skip map_skip j lvs certs k = do {
     (cache, certs, k) \<leftarrow> chain_cache env c certs k;
     cache \<leftarrow> cache;
     let x = certs ! c;
     let inhibit_any = (pc_anyPolicy cache = None \<or> any_skip = 0 \<and> (x_ex_flags x AND EXFLAG_SI = 0 \<or> c = 0));
     let level = (lvs ! j)\<lparr>lv_cert := Some c, lv_flags := lv_flags (lvs ! j)
         OR (if inhibit_any then X509_V_FLAG_INHIBIT_ANY else 0) OR (if map_skip = 0 then X509_V_FLAG_INHIBIT_MAP else 0)\<rparr>;
     init_levels env cs (if any_skip = 0 then any_skip else skip_next any_skip (pc_any_skip cache) x)
       (if map_skip = 0 then map_skip else skip_next map_skip (pc_map_skip cache) x) (j + 1) (lvs[j := level]) certs k }"

text \<open>The nodes a free function is called with; a node that is freed twice is \<open>None\<close>.\<close>

primrec free_nodes :: "('q policy_node \<Rightarrow> bool) \<Rightarrow> nat list \<Rightarrow> 'q policy_heap \<Rightarrow> 'q policy_heap option" where
  "free_nodes which [] h = Some h"
| "free_nodes which (a # as) h = do {
     node \<leftarrow> hp_node h a;
     h \<leftarrow> (if which node then policy_node_free a h else Some h);
     free_nodes which as h }"

definition exnode :: "'q policy_node \<Rightarrow> bool" where
  "exnode node \<longleftrightarrow> pd_flags (nd_data node) AND POLICY_DATA_FLAG_EXTRA_NODE \<noteq> 0"

primrec free_levels :: "policy_level list \<Rightarrow> 'q policy_heap \<Rightarrow> 'q policy_heap option" where
  "free_levels [] h = Some h"
| "free_levels (lev # lvs) h = do {
     h \<leftarrow> free_nodes (\<lambda>_. True) (sk_pop_free_ex (lv_nodes lev)) h;
     h \<leftarrow> (case lv_anyPolicy lev of None \<Rightarrow> Some h | Some a \<Rightarrow> policy_node_free a h);
     free_levels lvs h }"

definition X509_policy_tree_free :: "'q policy_tree option \<Rightarrow> 'q policy_heap \<Rightarrow> 'q policy_heap option" where
  "X509_policy_tree_free tree h = (case tree of None \<Rightarrow> Some h | Some tree \<Rightarrow> do {
     h \<leftarrow> free_nodes exnode (sk_pop_free_ex (tr_user_policies tree)) h;
     free_levels (take (tr_nlevel tree) (tr_levels tree)) h })"

definition empty_level :: policy_level where
  "empty_level = \<lparr>lv_cert = None, lv_nodes = None, lv_anyPolicy = None, lv_flags = 0\<rparr>"

definition skip_start :: "u32 \<Rightarrow> u32 \<Rightarrow> nat \<Rightarrow> int" where
  "skip_start flags flag n = (if flags AND flag \<noteq> 0 then 0 else int n + 1)"

text \<open>The rest of \<open>tree_init\<close>, once the caches are there.\<close>

definition tree_build ::
  "policy_env \<Rightarrow> u32 \<Rightarrow> int \<Rightarrow> 'q x509 list \<Rightarrow> 'q policy_heap \<Rightarrow>
     (int \<times> 'q policy_tree option \<times> 'q x509 list \<times> 'q policy_heap) option" where
  "tree_build env flags explicit certs h =
     (let n = length certs; k = hp_count h in
      if \<not> pe_got env k then Some (0, None, certs, h\<lparr>hp_count := k + 1\<rparr>)
      else if \<not> pe_got env (k + 1) then Some (0, None, certs, h\<lparr>hp_count := k + 2\<rparr>)
      else
        let tree = \<lparr>tr_levels = replicate n empty_level, tr_nlevel = n, tr_extra_data = None,
              tr_auth_policies = None, tr_user_policies = None, tr_flags = 0\<rparr>
        in if n = 0 then None
           else case policy_data_new env None (OBJ_nid2obj (pe_dat env) (pe_gl env) NID_any_policy) False (k + 2) of
             (None, k) \<Rightarrow> do { h \<leftarrow> X509_policy_tree_free (Some tree) (h\<lparr>hp_count := k\<rparr>); Some (0, None, certs, h) }
           | (Some data, k) \<Rightarrow> do {
               (a, level, extra, h) \<leftarrow> level_add_node env (Some (tr_levels tree ! 0)) data None (Some None) (h\<lparr>hp_count := k\<rparr>);
               level \<leftarrow> level;
               extra \<leftarrow> extra;
               let tree = tree\<lparr>tr_levels := (tr_levels tree)[0 := level], tr_extra_data := extra\<rparr>;
               if a = None then do { h \<leftarrow> X509_policy_tree_free (Some tree) h; Some (0, None, certs, h) }
               else do {
                 (lvs, certs, k) \<leftarrow> init_levels env (rev [0..<n - 1]) (skip_start flags X509_V_FLAG_INHIBIT_ANY n)
                   (skip_start flags X509_V_FLAG_INHIBIT_MAP n) 1 (tr_levels tree) certs (hp_count h);
                 Some (if explicit \<noteq> 0 then 1 else 5, Some (tree\<lparr>tr_levels := lvs\<rparr>), certs, h\<lparr>hp_count := k\<rparr>) } })"

definition tree_init ::
  "policy_env \<Rightarrow> u32 \<Rightarrow> 'q x509 list \<Rightarrow> 'q policy_heap \<Rightarrow>
     (int \<times> 'q policy_tree option \<times> 'q x509 list \<times> 'q policy_heap) option" where
  "tree_init env flags certs h =
     (let n = length certs in
      if n = 1 then Some (1, None, certs, h)
      else do {
        (r, explicit, certs, k) \<leftarrow> init_caches env (rev [0..<n - 1]) 1 (skip_start flags X509_V_FLAG_EXPLICIT_POLICY n) certs (hp_count h);
        let h = h\<lparr>hp_count := k\<rparr>;
        if r \<noteq> 1 then Some (if r = 2 \<and> explicit = 0 then 6 else r, None, certs, h)
        else tree_build env flags explicit certs h })"

section \<open>The authority and user sets\<close>

text \<open>The nodes of a level whose parent is the \<open>anyPolicy\<close> node above.\<close>

primrec add_children ::
  "policy_env \<Rightarrow> nat \<Rightarrow> nat option list \<Rightarrow> node_stack \<Rightarrow> 'q policy_heap \<Rightarrow> (bool \<times> node_stack \<times> 'q policy_heap) option" where
  "add_children env anyptr [] addnodes h = Some (True, addnodes, h)"
| "add_children env anyptr (a # as) addnodes h = do {
     node \<leftarrow> node_at h a;
     if nd_parent node = Some anyptr then do {
       (ok, addnodes, h) \<leftarrow> tree_add_auth_node env addnodes a h;
       if ok then add_children env anyptr as addnodes h else Some (False, addnodes, h) }
     else add_children env anyptr as addnodes h }"

fun authority_levels ::
  "policy_env \<Rightarrow> policy_level list \<Rightarrow> node_stack \<Rightarrow> 'q policy_heap \<Rightarrow> (bool \<times> node_stack \<times> 'q policy_heap) option" where
  "authority_levels env (lev # below # lvs) addnodes h =
     (case lv_anyPolicy lev of
        None \<Rightarrow> Some (True, addnodes, h)
      | Some anyptr \<Rightarrow> do {
          (ok, addnodes, h) \<leftarrow> add_children env anyptr (stack_items (lv_nodes below)) addnodes h;
          if ok then authority_levels env (below # lvs) addnodes h else Some (False, addnodes, h) })"
| "authority_levels env lvs addnodes h = Some (True, addnodes, h)"

text \<open>The result, the nodes of the authority set for the user set, and the tree.\<close>

definition tree_calculate_authority_set ::
  "policy_env \<Rightarrow> 'q policy_tree \<Rightarrow> 'q policy_heap \<Rightarrow> (int \<times> node_stack \<times> 'q policy_tree \<times> 'q policy_heap) option" where
  "tree_calculate_authority_set env tree h =
     (case lv_anyPolicy (tr_levels tree ! (tr_nlevel tree - 1)) of
        Some anyp \<Rightarrow> do {
          (ok, auth, h) \<leftarrow> tree_add_auth_node env (tr_auth_policies tree) (Some anyp) h;
          let tree = tree\<lparr>tr_auth_policies := auth\<rparr>;
          if \<not> ok then Some (0, None, tree, h)
          else do {
            (ok, nodes, h) \<leftarrow> authority_levels env (take (tr_nlevel tree) (tr_levels tree)) None h;
            Some (if ok then 2 else 0, nodes, tree, h) } }
      | None \<Rightarrow> do {
          (ok, auth, h) \<leftarrow> authority_levels env (take (tr_nlevel tree) (tr_levels tree)) (tr_auth_policies tree) h;
          Some (if ok then 1 else 0, auth, tree\<lparr>tr_auth_policies := auth\<rparr>, h) })"

text \<open>One policy of the user's: the node for it, if one is to be added (a node that could not be made is null).\<close>

definition user_node ::
  "policy_env \<Rightarrow> nat option \<Rightarrow> asn1_object \<Rightarrow> node_stack \<Rightarrow> 'q policy_stack \<Rightarrow> 'q policy_heap \<Rightarrow>
     (bool \<times> nat option option \<times> node_stack \<times> 'q policy_stack \<times> 'q policy_heap) option" where
  "user_node env anyPolicy oid auth extra h = do {
     (node, auth) \<leftarrow> tree_find_sk h auth oid;
     if node \<noteq> None then Some (True, Some node, auth, extra, h)
     else case anyPolicy of
         None \<Rightarrow> Some (True, None, auth, extra, h)
       | Some a \<Rightarrow> do {
           anyp \<leftarrow> hp_node h a;
           case policy_data_new env None (Some oid) (node_critical anyp) (hp_count h) of
             (None, k) \<Rightarrow> Some (False, None, auth, extra, h\<lparr>hp_count := k\<rparr>)
           | (Some data, k) \<Rightarrow> do {
               let data = data\<lparr>pd_qualifier_set := pd_qualifier_set (nd_data anyp),
                     pd_flags := POLICY_DATA_FLAG_SHARED_QUALIFIERS OR POLICY_DATA_FLAG_EXTRA_NODE\<rparr>;
               (node, _, extra, h) \<leftarrow> level_add_node env None data (nd_parent anyp) (Some extra) (h\<lparr>hp_count := k\<rparr>);
               extra \<leftarrow> extra;
               Some (True, Some node, auth, extra, h) } } }"

primrec user_policies ::
  "policy_env \<Rightarrow> nat option \<Rightarrow> asn1_object option list \<Rightarrow> node_stack \<Rightarrow> 'q policy_tree \<Rightarrow> 'q policy_heap \<Rightarrow>
     (int \<times> node_stack \<times> 'q policy_tree \<times> 'q policy_heap) option" where
  "user_policies env anyPolicy [] auth tree h = Some (1, auth, tree, h)"
| "user_policies env anyPolicy (p # ps) auth tree h = do {
     oid \<leftarrow> p;
     (ok, node, auth, extra, h) \<leftarrow> user_node env anyPolicy oid auth (tr_extra_data tree) h;
     let tree = tree\<lparr>tr_extra_data := extra\<rparr>;
     if \<not> ok then Some (0, auth, tree, h)
     else case node of
         None \<Rightarrow> user_policies env anyPolicy ps auth tree h
       | Some node \<Rightarrow>
           (case push_new env None node (tr_user_policies tree) (hp_count h) of
              (ok, user, k) \<Rightarrow>
                let tree = tree\<lparr>tr_user_policies := user\<rparr>; h = h\<lparr>hp_count := k\<rparr>
                in if ok then user_policies env anyPolicy ps auth tree h
                   else Some (if user = None then 1 else 0, auth, tree, h)) }"

definition tree_calculate_user_set ::
  "policy_env \<Rightarrow> 'q policy_tree \<Rightarrow> (asn1_object, unit) stack_ptr \<Rightarrow> node_stack \<Rightarrow> 'q policy_heap \<Rightarrow>
     (int \<times> node_stack \<times> 'q policy_tree \<times> 'q policy_heap) option" where
  "tree_calculate_user_set env tree policy_oids auth h =
     (if sk_num policy_oids = 0 then Some (1, auth, tree, h)
      else if list_ex (\<lambda>oid. OBJ_obj2nid (pe_dat env) (pe_gl env) oid = NID_any_policy) (stack_items policy_oids)
      then Some (1, auth, tree\<lparr>tr_flags := tr_flags tree OR POLICY_FLAG_ANY_POLICY\<rparr>, h)
      else user_policies env (lv_anyPolicy (tr_levels tree ! (tr_nlevel tree - 1))) (stack_items policy_oids) auth tree h)"

section \<open>Accessors\<close>

definition X509_policy_tree_level_count :: "'q policy_tree option \<Rightarrow> nat" where
  "X509_policy_tree_level_count tree = (case tree of None \<Rightarrow> 0 | Some t \<Rightarrow> tr_nlevel t)"

definition X509_policy_tree_get0_level :: "'q policy_tree option \<Rightarrow> int \<Rightarrow> policy_level option" where
  "X509_policy_tree_get0_level tree i = (case tree of None \<Rightarrow> None | Some t \<Rightarrow>
     if i < 0 \<or> i \<ge> int (tr_nlevel t) then None else Some (tr_levels t ! nat i))"

definition X509_policy_tree_get0_policies :: "'q policy_tree option \<Rightarrow> node_stack" where
  "X509_policy_tree_get0_policies tree = (case tree of None \<Rightarrow> None | Some t \<Rightarrow> tr_auth_policies t)"

definition X509_policy_tree_get0_user_policies :: "'q policy_tree option \<Rightarrow> node_stack" where
  "X509_policy_tree_get0_user_policies tree = (case tree of None \<Rightarrow> None | Some t \<Rightarrow>
     if tr_flags t AND POLICY_FLAG_ANY_POLICY \<noteq> 0 then tr_auth_policies t else tr_user_policies t)"

definition X509_policy_level_node_count :: "policy_level option \<Rightarrow> nat" where
  "X509_policy_level_node_count level = (case level of None \<Rightarrow> 0 | Some lv \<Rightarrow>
     (if lv_anyPolicy lv \<noteq> None then 1 else 0) + (if lv_nodes lv \<noteq> None then sk_num (lv_nodes lv) else 0))"

definition X509_policy_level_get0_node :: "policy_level option \<Rightarrow> nat \<Rightarrow> nat option" where
  "X509_policy_level_get0_node level i = (case level of None \<Rightarrow> None | Some lv \<Rightarrow>
     if lv_anyPolicy lv \<noteq> None \<and> i = 0 then lv_anyPolicy lv
     else sk_value (lv_nodes lv) (if lv_anyPolicy lv \<noteq> None then i - 1 else i))"

definition X509_policy_node_get0_policy :: "'q policy_node option \<Rightarrow> asn1_object option" where
  "X509_policy_node_get0_policy node = (case node of None \<Rightarrow> None | Some n \<Rightarrow> Some (pd_valid_policy (nd_data n)))"

definition X509_policy_node_get0_qualifiers :: "'q policy_node option \<Rightarrow> 'q option" where
  "X509_policy_node_get0_qualifiers node = (case node of None \<Rightarrow> None | Some n \<Rightarrow> pd_qualifier_set (nd_data n))"

definition X509_policy_node_get0_parent :: "'q policy_node option \<Rightarrow> nat option" where
  "X509_policy_node_get0_parent node = (case node of None \<Rightarrow> None | Some n \<Rightarrow> nd_parent n)"

section \<open>Checking a chain\<close>

text \<open>The result, the tree, whether a policy is required, the certificates and the heap.\<close>

type_synonym 'q policy_outcome = "int \<times> 'q policy_tree option \<times> bool \<times> 'q x509 list \<times> 'q policy_heap"

definition policy_sets ::
  "policy_env \<Rightarrow> bool \<Rightarrow> (asn1_object, unit) stack_ptr \<Rightarrow> 'q x509 list \<Rightarrow> 'q policy_tree \<Rightarrow> 'q policy_heap \<Rightarrow>
     'q policy_outcome option" where
  "policy_sets env explicit policy_oids certs tree h = do {
     (calc, auth, tree, h) \<leftarrow> tree_calculate_authority_set env tree h;
     if calc = 0 then do { h \<leftarrow> X509_policy_tree_free (Some tree) h; Some (0, None, explicit, certs, h) }
     else do {
       (r, auth, tree, h) \<leftarrow> tree_calculate_user_set env tree policy_oids auth h;
       let tree = (if calc = 1 then tree\<lparr>tr_auth_policies := auth\<rparr> else tree);
       if r = 0 then do { h \<leftarrow> X509_policy_tree_free (Some tree) h; Some (0, None, explicit, certs, h) }
       else Some (if explicit \<and> sk_num (X509_policy_tree_get0_user_policies (Some tree)) = 0 then -2 else 1,
         Some tree, explicit, certs, h) } }"

definition X509_policy_check ::
  "policy_env \<Rightarrow> u32 \<Rightarrow> (asn1_object, unit) stack_ptr \<Rightarrow> 'q x509 list \<Rightarrow> 'q policy_heap \<Rightarrow> 'q policy_outcome option" where
  "X509_policy_check env flags policy_oids certs h = do {
     (r, tree, certs, h) \<leftarrow> tree_init env flags certs h;
     if r = 2 then Some (1, None, False, certs, h)
     else if r = -1 then Some (-1, None, False, certs, h)
     else if r = 0 then Some (0, None, False, certs, h)
     else if r = 6 then Some (-2, None, True, certs, h)
     else
       let explicit = (r = 5) in
       case tree of
         None \<Rightarrow> Some (if r = 1 then 1 else 0, None, explicit, certs, h)
       | Some tree \<Rightarrow> do {
           (r, certs, tree, h) \<leftarrow> tree_evaluate env certs tree h;
           if r \<le> 0 then do { h \<leftarrow> X509_policy_tree_free (Some tree) h; Some (0, None, explicit, certs, h) }
           else if r = 2 then do {
             h \<leftarrow> X509_policy_tree_free (Some tree) h;
             Some (if explicit then -2 else 1, None, explicit, certs, h) }
           else policy_sets env explicit policy_oids certs tree h } }"

text \<open>The part of \<open>X509_STORE_CTX\<close> that is used; the current certificate by its index in the chain.\<close>

record 'q x509_store_ctx =
  ctx_parent :: bool
  ctx_tree :: "'q policy_tree option"
  ctx_explicit_policy :: bool
  ctx_chain :: "'q x509 list"
  ctx_policies :: "(asn1_object, unit) stack_ptr"
  ctx_flags :: u64
  ctx_error :: int
  ctx_current_cert :: "nat option"

type_synonym 'q verify_cb = "int \<Rightarrow> 'q x509_store_ctx \<Rightarrow> int \<times> 'q x509_store_ctx"

primrec report_invalid :: "'q verify_cb \<Rightarrow> nat list \<Rightarrow> 'q x509_store_ctx \<Rightarrow> int \<times> 'q x509_store_ctx" where
  "report_invalid verify_cb [] ctx = (1, ctx)"
| "report_invalid verify_cb (i # is) ctx =
     (if x_ex_flags (ctx_chain ctx ! i) AND EXFLAG_INVALID_POLICY = 0 then report_invalid verify_cb is ctx
      else case verify_cb 0 (ctx\<lparr>ctx_current_cert := Some i, ctx_error := X509_V_ERR_INVALID_POLICY_EXTENSION\<rparr>) of
        (ok, ctx) \<Rightarrow> if ok = 0 then (0, ctx) else report_invalid verify_cb is ctx)"

definition check_policy ::
  "policy_env \<Rightarrow> 'q verify_cb \<Rightarrow> 'q x509_store_ctx \<Rightarrow> 'q policy_heap \<Rightarrow> (int \<times> 'q x509_store_ctx \<times> 'q policy_heap) option" where
  "check_policy env verify_cb ctx h =
     (if ctx_parent ctx then Some (1, ctx, h)
      else do {
        (r, tree, explicit, certs, h) \<leftarrow> X509_policy_check env (ucast (ctx_flags ctx)) (ctx_policies ctx) (ctx_chain ctx) h;
        let ctx = ctx\<lparr>ctx_tree := tree, ctx_explicit_policy := explicit, ctx_chain := certs\<rparr>;
        if r = 0 then Some (0, ctx\<lparr>ctx_error := X509_V_ERR_OUT_OF_MEM\<rparr>, h)
        else if r = -1 then
          (case report_invalid verify_cb [1..<length (ctx_chain ctx)] ctx of (ok, ctx) \<Rightarrow> Some (ok, ctx, h))
        else if r = -2 then
          (case verify_cb 0 (ctx\<lparr>ctx_current_cert := None, ctx_error := X509_V_ERR_NO_EXPLICIT_POLICY\<rparr>) of (ok, ctx) \<Rightarrow> Some (ok, ctx, h))
        else if ctx_flags ctx AND X509_V_FLAG_NOTIFY_POLICY \<noteq> 0 then
          (case verify_cb 2 (ctx\<lparr>ctx_current_cert := None\<rparr>) of (ok, ctx) \<Rightarrow> Some (if ok = 0 then 0 else 1, ctx, h))
        else Some (1, ctx, h) })"

end
