(* ===== verification/Policy_Facts.thy ===== *)
theory Policy_Facts
  imports Policy_Check
begin

text \<open>
  The stacks of the policy code as lists and what the cache of a certificate holds: with enough memory the
  policies of an extension are accepted exactly when none is listed twice.
\<close>

section \<open>Stacks as lists\<close>

definition all_got :: "policy_env \<Rightarrow> bool" where
  "all_got env \<longleftrightarrow> pe_got env = (\<lambda>_. True)"

text \<open>A stack's size that leaves room to double its array.\<close>

definition STACK_ROOM :: nat where "STACK_ROOM = 2 ^ 58"

definition stack_wf :: "('p, 'c) stack_ptr \<Rightarrow> bool" where
  "stack_wf sk \<longleftrightarrow> (\<forall>s. sk = Some s \<longrightarrow> sk_wf s)"

lemma stack_wf_simps [simp]: "stack_wf None" "stack_wf (Some s) \<longleftrightarrow> sk_wf s"
  by (simp_all add: stack_wf_def)

lemma got: "all_got env \<Longrightarrow> pe_got env k"
  by (simp add: all_got_def)

lemma array_mem_ok: "mem_ok (array_mem env k)"
  by (simp add: mem_ok_def array_mem_def)

lemma array_mem_got: "all_got env \<Longrightarrow> array_mem env k n = Some (replicate n None)"
  by (simp add: all_got_def array_mem_def)

lemma stack_items_None [simp]: "stack_items None = []"
  by (simp add: stack_items_def sk_num_def)

lemma stack_items_Some: "sk_wf s \<Longrightarrow> stack_items (Some s) = sk_list s"
  by (rule nth_equalityI) (auto simp: stack_items_def sk_num_def length_sk_list sk_value_def nth_sk_list)

lemma length_stack_items: "length (stack_items sk) = sk_num sk"
  by (simp add: stack_items_def)

lemma sk_value_items: "i < sk_num sk \<Longrightarrow> sk_value sk i = stack_items sk ! i"
  by (simp add: stack_items_def)

lemma sk_new_got:
  assumes "all_got env"
  shows "\<exists>s. sk_new (pe_got env k) (array_mem env k') c = Some s \<and> sk_wf s \<and> sk_list s = [] \<and> stk_comp s = c \<and> \<not> stk_sorted s"
  using assms by (simp add: sk_new_def array_mem_got) (simp add: all_got_def sk_wf_def sk_list_def kMinSize_def SIZE_MOD_def)

lemma sk_grow_got: "all_got env \<Longrightarrow> stk_num_alloc s * 16 < SIZE_MOD \<Longrightarrow> sk_grow (array_mem env k) s \<noteq> None"
  by (simp add: sk_grow_def Let_def array_mem_got)

lemma sk_insert_got:
  assumes "all_got env" and "sk_wf s" and "stk_num s < STACK_ROOM"
  shows "\<exists>s'. sk_insert (array_mem env k) p (stk_num s) (Some s) = (stk_num s + 1, Some s') \<and> sk_wf s' \<and>
    sk_list s' = sk_list s @ [p] \<and> stk_comp s' = stk_comp s \<and> \<not> stk_sorted s'"
proof -
  have "(if stk_num_alloc s \<le> stk_num s + 1 then sk_grow (array_mem env k) s else Some s) \<noteq> None"
    using sk_grow_got[OF assms(1), of s k] assms(3) by (simp add: STACK_ROOM_def SIZE_MOD_def)
  then obtain n t where r: "sk_insert (array_mem env k) p (stk_num s) (Some s) = (n, Some t)" "n \<noteq> 0"
    by (auto simp: sk_insert_def Let_def)
  from sk_insert_list[OF assms(2) array_mem_ok r(1)] r show ?thesis
    using length_sk_list[OF assms(2)] by auto
qed

lemma push_new_got:
  fixes sk :: "('p, 'c) stack_ptr"
  assumes "all_got env" and "stack_wf sk" and "sk_num sk < STACK_ROOM"
  shows "\<exists>s k'. push_new env c p sk k = (True, Some s, k') \<and> sk_wf s \<and> stack_items (Some s) = stack_items sk @ [p] \<and>
    stk_comp s = (case sk of None \<Rightarrow> c | Some s \<Rightarrow> stk_comp s) \<and> \<not> stk_sorted s"
proof (cases sk)
  case None
  obtain s :: "('p, 'c) stack" where s: "sk_new (pe_got env k) (array_mem env (k + 1)) c = Some s" "sk_wf s" "sk_list s = []" "stk_comp s = c"
    using sk_new_got[OF assms(1)] by blast
  then have "stk_num s = 0" using length_sk_list[OF s(2)] by simp
  with sk_insert_got[OF assms(1) s(2), where k = "k + 2" and p = p] show ?thesis
    using s by (auto simp: push_new_def None stack_items_Some STACK_ROOM_def)
next
  case (Some s)
  then have "sk_wf s" "stk_num s < STACK_ROOM" using assms(2,3) by (simp_all add: sk_num_def)
  from sk_insert_got[OF assms(1) this, where k = k and p = p] show ?thesis
    using Some \<open>sk_wf s\<close> by (auto simp: push_new_def stack_items_Some)
qed

lemma mset_qsort: "mset (qsort cmp xs) = mset xs"
proof -
  have "mset (insert_by cmp x ys) = add_mset x (mset ys)" for x ys by (induction ys) auto
  then show ?thesis by (induction xs) (simp_all add: qsort_def)
qed

text \<open>Sorting keeps the elements whatever the order is.\<close>

lemma sk_sort_items:
  assumes "stack_wf sk"
  shows "stack_wf (sk_sort qsort cmp sk) \<and> mset (stack_items (sk_sort qsort cmp sk)) = mset (stack_items sk) \<and>
    (sk_sort qsort cmp sk = None \<longleftrightarrow> sk = None)"
proof (cases sk)
  case (Some s)
  let ?xs = "\<lambda>c. qsort (cmp c) (take (stk_num s) (stk_data s))"
  have wf: "sk_wf s" using assms Some by simp
  then have l: "length (?xs c) = stk_num s" for c
    by (metis length_sk_list mset_qsort size_mset sk_list_def)
  have m: "sk_list (s\<lparr>stk_data := ?xs c @ drop (stk_num s) (stk_data s), stk_sorted := True\<rparr>) = ?xs c" for c
    by (simp add: sk_list_def l)
  have n: "sk_list (s\<lparr>stk_sorted := True\<rparr>) = sk_list s" by (simp add: sk_list_def)
  have w: "sk_wf (s\<lparr>stk_sorted := True\<rparr>)" "sk_wf (s\<lparr>stk_data := ?xs c @ drop (stk_num s) (stk_data s), stk_sorted := True\<rparr>)" for c
    using wf l[of c] by (simp_all add: sk_wf_def)
  have "mset (?xs c) = mset (sk_list s)" for c by (simp add: mset_qsort sk_list_def)
  then show ?thesis
    using w wf by (simp add: Some sk_sort_def stack_items_Some m n split: option.split)
qed (simp add: sk_sort_def)

lemma sk_num_sort: "stack_wf sk \<Longrightarrow> sk_num (sk_sort qsort cmp sk) = sk_num sk"
  using sk_sort_items[of sk cmp] by (metis length_stack_items size_mset)

lemma sk_bsearch_returns: "lo \<le> hi \<Longrightarrow> sk_bsearch f data lo hi \<noteq> None"
proof (induction f data lo hi rule: sk_bsearch.induct)
  case (1 f data lo hi)
  then show ?case by (subst sk_bsearch.simps) (auto simp: Let_def less_diff_conv)
qed

lemma sk_bsearch_range: "sk_bsearch f data lo hi = Some (Some i) \<Longrightarrow> i < hi"
proof (induction f data lo hi rule: sk_bsearch.induct)
  case (1 f data lo hi)
  from 1(4) show ?case
    by (subst (asm) sk_bsearch.simps) (use 1(1-3) in \<open>fastforce simp: Let_def split: if_splits\<close>)
qed

lemma sk_find_returns: "\<exists>r. sk_find cmp p sk = Some r \<and> (\<forall>i. r = Some i \<longrightarrow> i < sk_num sk)"
proof (cases sk)
  case (Some s)
  have f: "first_index fits s (stk_num s) 0 = Some i \<Longrightarrow> i < stk_num s" for fits i
    by (auto simp: first_index_find find_Some_iff)
  have b: "\<exists>r. sk_bsearch g (stk_data s) 0 (stk_num s) = Some r \<and> (\<forall>i. r = Some i \<longrightarrow> i < stk_num s)" for g
    using sk_bsearch_returns[of 0 "stk_num s" g "stk_data s"] sk_bsearch_range by blast
  show ?thesis
    using f b by (simp add: Some sk_find_def sk_num_def split: option.split)
qed (simp add: sk_find_def)

section \<open>The policies of an extension\<close>

definition data_valid :: "'q policy_data option \<Rightarrow> bool" where
  "data_valid e \<longleftrightarrow> (\<exists>d. e = Some d \<and> obj_valid (pd_valid_policy d))"

interpretation pdata: comparison "policy_data_cmp ()" data_valid
  by unfold_locales (auto simp: policy_data_cmp_def data_valid_def oids.flip intro: oids.trans)

text \<open>Two policies are the same when both are \<open>anyPolicy\<close> or their identifiers are.\<close>

definition policy_key :: "policy_env \<Rightarrow> 'q policyinfo \<Rightarrow> u8 list option" where
  "policy_key env p = (if is_any_policy env (pi_policyid p) then None else Some (obj_bytes (pi_policyid p)))"

definition data_key :: "'q policy_data option \<Rightarrow> u8 list option" where
  "data_key e = Some (obj_bytes (pd_valid_policy (the e)))"

definition seen_keys :: "'q policy_cache \<Rightarrow> u8 list option set" where
  "seen_keys cache = data_key ` set (stack_items (pc_data cache)) \<union> (if pc_anyPolicy cache = None then {} else {None})"

type_synonym 'q data_view = "u32 \<times> asn1_object \<times> 'q option \<times> asn1_object option list"

definition data_view :: "'q policy_data \<Rightarrow> 'q data_view" where
  "data_view d = (pd_flags d, pd_valid_policy d, pd_qualifier_set d, stack_items (pd_expected_policy_set d))"

definition policy_view :: "bool \<Rightarrow> 'q policyinfo \<Rightarrow> 'q data_view" where
  "policy_view crit p = (if crit then POLICY_DATA_FLAG_CRITICAL else 0, pi_policyid p, pi_qualifiers p, [])"

definition cache_views :: "'q policy_cache \<Rightarrow> 'q data_view multiset" where
  "cache_views cache = mset (map (data_view \<circ> the) (stack_items (pc_data cache)))"

lemma policy_data_new_listed:
  assumes "all_got env"
  shows "\<exists>d. policy_data_new env (Some p) None crit k = (Some d, k + 7) \<and> data_view d = policy_view crit p \<and>
    stack_wf (pd_expected_policy_set d) \<and> pd_expected_policy_set d \<noteq> None"
proof -
  obtain e :: "(asn1_object, unit) stack"
    where e: "sk_new (pe_got env (k + 5)) (array_mem env (k + 6)) None = Some e" "sk_wf e" "sk_list e = []"
    using sk_new_got[OF assms] by blast
  then show ?thesis
    by (simp add: policy_data_new_def sk_new_null_def data_view_def policy_view_def stack_items_Some got[OF assms])
qed

definition cache_sorted :: "'q policy_cache \<Rightarrow> bool" where
  "cache_sorted cache \<longleftrightarrow> (\<exists>s. pc_data cache = Some s \<and> sk_ok policy_data_cmp s \<and> stk_comp s = Some () \<and>
     (\<forall>e\<in>set (sk_list s). data_valid e))"

lemma cache_sort:
  assumes "cache_sorted cache"
  defines "cache' \<equiv> cache\<lparr>pc_data := sk_sort qsort policy_data_cmp (pc_data cache)\<rparr>"
  shows "cache_sorted cache'" "mset (stack_items (pc_data cache')) = mset (stack_items (pc_data cache))"
proof -
  obtain s where s: "pc_data cache = Some s" "sk_ok policy_data_cmp s" "stk_comp s = Some ()" "\<forall>e\<in>set (sk_list s). data_valid e"
    using assms(1) by (auto simp: cache_sorted_def)
  obtain t where t: "sk_sort qsort policy_data_cmp (Some s) = Some t" "sk_ok policy_data_cmp t" "mset (sk_list t) = mset (sk_list s)"
    "stk_comp t = Some ()"
    using sk_sort_ok[OF s(2,3) pdata.qsort_sorts s(4)] by blast
  then show "cache_sorted cache'" "mset (stack_items (pc_data cache')) = mset (stack_items (pc_data cache))"
    using s mset_eq_setD[OF t(3)] by (auto simp: cache'_def cache_sorted_def sk_ok_def stack_items_Some)
qed

lemma cache_find:
  assumes "cache_sorted cache" and "obj_valid (pd_valid_policy d)"
  shows "\<exists>r. sk_find policy_data_cmp (Some d) (pc_data cache) = Some r \<and>
    (r = None \<longleftrightarrow> data_key (Some d) \<notin> data_key ` set (stack_items (pc_data cache)))"
proof -
  obtain s where s: "pc_data cache = Some s" "sk_ok policy_data_cmp s" "stk_comp s = Some ()" "\<forall>e\<in>set (sk_list s). data_valid e"
    using assms(1) by (auto simp: cache_sorted_def)
  have same: "policy_data_cmp () (Some d) e = 0 \<longleftrightarrow> data_key (Some d) = data_key e" if "e \<in> set (sk_list s)" for e
    using s(4) that assms(2) OBJ_cmp_order(3) by (fastforce simp: policy_data_cmp_def data_key_def data_valid_def)
  have "sk_find policy_data_cmp (Some d) (Some s) =
      Some (List.find (\<lambda>i. policy_data_cmp () (Some d) (sk_list s ! i) = 0) [0..<length (sk_list s)])"
    using sk_find_first[OF s(2,3) pdata.comparison_axioms _ s(4)] assms(2) by (simp add: data_valid_def)
  moreover have "sk_wf s" using s(2) by (simp add: sk_ok_def)
  moreover have "List.find (\<lambda>i. policy_data_cmp () (Some d) (sk_list s ! i) = 0) [0..<length (sk_list s)] = None \<longleftrightarrow>
      (\<forall>e\<in>set (sk_list s). policy_data_cmp () (Some d) e \<noteq> 0)"
    by (auto simp: find_None_iff all_set_conv_all_nth)
  ultimately show ?thesis using same by (auto simp: s(1) stack_items_Some)
qed

lemma cache_push:
  assumes "all_got env" and "cache_sorted cache" and "obj_valid (pd_valid_policy d)" and "sk_num (pc_data cache) < STACK_ROOM"
  shows "\<exists>n sk. sk_push (array_mem env k) (Some d) (pc_data cache) = Some (n, sk) \<and> n \<noteq> 0 \<and>
    cache_sorted (cache\<lparr>pc_data := sk\<rparr>) \<and> stack_items sk = stack_items (pc_data cache) @ [Some d]"
proof -
  obtain s where s: "pc_data cache = Some s" "sk_ok policy_data_cmp s" "stk_comp s = Some ()" "\<forall>e\<in>set (sk_list s). data_valid e"
    using assms(2) by (auto simp: cache_sorted_def)
  have wf: "sk_wf s" "stk_num s < STACK_ROOM" using s(2) assms(4) by (simp_all add: sk_ok_def s(1) sk_num_def)
  show ?thesis
    using sk_insert_got[OF assms(1) wf, where k = k and p = "Some d"] s assms(3)
    by (auto simp: sk_push_def cache_sorted_def sk_ok_def stack_items_Some wf data_valid_def)
qed

text \<open>What the loop adds: the views of the policies listed, and \<open>anyPolicy\<close> if it is one of them.\<close>

definition adds_policies ::
  "policy_env \<Rightarrow> bool \<Rightarrow> 'q policyinfo list \<Rightarrow> 'q policy_cache \<Rightarrow> 'q policy_cache \<Rightarrow> bool" where
  "adds_policies env crit policies cache cache' \<longleftrightarrow> cache_sorted cache' \<and>
     cache_views cache' = cache_views cache + mset (map (policy_view crit) (filter (\<lambda>p. policy_key env p \<noteq> None) policies)) \<and>
     map_option data_view (pc_anyPolicy cache') = (case pc_anyPolicy cache of
       Some d \<Rightarrow> Some (data_view d) | None \<Rightarrow> map_option (policy_view crit) (List.find (\<lambda>p. policy_key env p = None) policies))"

lemma data_key_view: "data_view d = policy_view crit p \<Longrightarrow> policy_key env p \<noteq> None \<Longrightarrow> data_key (Some d) = policy_key env p"
  by (auto simp: data_view_def policy_view_def data_key_def policy_key_def)

definition new_keys :: "policy_env \<Rightarrow> 'q policyinfo list \<Rightarrow> u8 list option set \<Rightarrow> bool" where
  "new_keys env policies seen \<longleftrightarrow> distinct (map (policy_key env) policies) \<and> policy_key env ` set policies \<inter> seen = {}"

lemma new_keys_simps:
  "new_keys env [] seen"
  "new_keys env (p # ps) seen \<longleftrightarrow> policy_key env p \<notin> seen \<and> new_keys env ps (insert (policy_key env p) seen)"
  by (auto simp: new_keys_def)

lemma policy_cache_loop_ok:
  assumes "all_got env"
  shows "cache_sorted cache \<Longrightarrow> \<forall>p\<in>set policies. obj_valid (pi_policyid p) \<Longrightarrow>
    sk_num (pc_data cache) + length policies < STACK_ROOM \<Longrightarrow>
    \<exists>r cache' k'. policy_cache_loop env crit policies cache k = Some (r, cache', k') \<and>
      r = (if new_keys env policies (seen_keys cache) then 1 else -1) \<and>
      (r = 1 \<longrightarrow> adds_policies env crit policies cache cache')"
proof (induction policies arbitrary: cache k)
  case Nil
  then show ?case by (auto simp: adds_policies_def new_keys_simps split: option.split)
next
  case (Cons p ps)
  obtain d where d: "policy_data_new env (Some p) None crit k = (Some d, k + 7)" "data_view d = policy_view crit p"
    using policy_data_new_listed[OF assms] by blast
  have vp: "pd_valid_policy d = pi_policyid p" using d(2) by (simp add: data_view_def policy_view_def)
  define c where "c = cache\<lparr>pc_data := sk_sort qsort policy_data_cmp (pc_data cache)\<rparr>"
  have c: "cache_sorted c" "mset (stack_items (pc_data c)) = mset (stack_items (pc_data cache))"
    using cache_sort[OF Cons.prems(1)] by (simp_all add: c_def)
  have any: "pc_anyPolicy c = pc_anyPolicy cache" by (simp add: c_def)
  have seen: "seen_keys c = seen_keys cache" using mset_eq_setD[OF c(2)] any by (simp add: seen_keys_def)
  have views: "cache_views c = cache_views cache" using c(2) by (simp add: cache_views_def)
  have num: "sk_num (pc_data c) = sk_num (pc_data cache)" using c(2) by (metis length_stack_items size_mset)
  show ?case
  proof (cases "is_any_policy env (pi_policyid p)")
    case True
    then have key: "policy_key env p = None" by (simp add: policy_key_def)
    show ?thesis
    proof (cases "pc_anyPolicy cache")
      case None
      let ?c = "c\<lparr>pc_anyPolicy := Some d\<rparr>"
      have "cache_sorted ?c" using c(1) by (simp add: cache_sorted_def)
      moreover have "seen_keys ?c = insert None (seen_keys cache)" using seen None any by (auto simp: seen_keys_def)
      moreover have "None \<notin> seen_keys cache" using None by (auto simp: seen_keys_def data_key_def)
      moreover have "adds_policies env crit (p # ps) cache e" if "adds_policies env crit ps ?c e" for e
        using that None views d(2) by (simp add: adds_policies_def key cache_views_def)
      ultimately show ?thesis
        using Cons.IH[of ?c "k + 7"] Cons.prems num True None d(1)
        by (fastforce simp: vp key any c_def[symmetric] Let_def new_keys_simps)
    next
      case (Some a)
      then have "None \<in> seen_keys cache" by (simp add: seen_keys_def)
      then show ?thesis using True Some d(1) by (simp add: vp key any c_def[symmetric] Let_def new_keys_simps)
    qed
  next
    case False
    then have key: "policy_key env p \<noteq> None" by (simp add: policy_key_def)
    have dk: "data_key (Some d) = policy_key env p" by (rule data_key_view[OF d(2) key])
    obtain f where f: "sk_find policy_data_cmp (Some d) (pc_data c) = Some f" "f = None \<longleftrightarrow> policy_key env p \<notin> seen_keys cache"
      using cache_find[OF c(1), of d] Cons.prems(2) vp dk key mset_eq_setD[OF c(2)] by (auto simp: seen_keys_def)
    show ?thesis
    proof (cases f)
      case None
      obtain n sk where sk: "sk_push (array_mem env (k + 7)) (Some d) (pc_data c) = Some (n, sk)" "n \<noteq> 0"
        "cache_sorted (c\<lparr>pc_data := sk\<rparr>)" "stack_items sk = stack_items (pc_data c) @ [Some d]"
        using cache_push[OF assms c(1), of d "k + 7"] Cons.prems(2,3) vp num by auto
      let ?c = "c\<lparr>pc_data := sk\<rparr>"
      let ?K = "insert (policy_key env p) (seen_keys cache)"
      have "seen_keys ?c = ?K" using seen any sk(4) dk by (auto simp: seen_keys_def)
      moreover have "sk_num sk = sk_num (pc_data cache) + 1"
        using sk(4) num by (metis length_append_singleton length_stack_items Suc_eq_plus1)
      ultimately obtain e k' where e: "policy_cache_loop env crit ps ?c (k + 7 + 1) = Some (if new_keys env ps ?K then 1 else -1, e, k')"
        "new_keys env ps ?K \<longrightarrow> adds_policies env crit ps ?c e"
        using Cons.IH[of ?c "k + 7 + 1"] Cons.prems(2,3) sk(3) by (auto split: if_splits)
      have "policy_cache_loop env crit (p # ps) cache k = Some (if new_keys env ps ?K then 1 else -1, e, k')"
        using f(1) None False d(1) sk(1,2) by (simp add: vp c_def[symmetric] Let_def) (use e(1) in simp)
      moreover have "adds_policies env crit (p # ps) cache e" if "adds_policies env crit ps ?c e"
        using that views d(2) sk(4) any key by (simp add: adds_policies_def cache_views_def split: option.splits)
      ultimately show ?thesis using e(2) f(2) None by (simp add: new_keys_simps)
    next
      case (Some i)
      then show ?thesis using f False d(1) by (auto simp: vp c_def[symmetric] Let_def new_keys_simps)
    qed
  qed
qed

lemma policy_cache_create_ok:
  assumes "all_got env" and "x_policy_cache x = Some cache" and "pc_anyPolicy cache = None"
    and "policies \<noteq> []" and "\<forall>p\<in>set policies. obj_valid (pi_policyid p)" and "length policies < STACK_ROOM"
  shows "\<exists>cache' k'. if distinct (map (policy_key env) policies)
    then policy_cache_create env policies crit x k = Some (1, x\<lparr>x_policy_cache := Some cache'\<rparr>, k') \<and>
      cache_views cache' = mset (map (policy_view crit) (filter (\<lambda>p. policy_key env p \<noteq> None) policies)) \<and>
      map_option data_view (pc_anyPolicy cache') =
        map_option (policy_view crit) (List.find (\<lambda>p. policy_key env p = None) policies)
    else policy_cache_create env policies crit x k = Some (-1, bad_cache (x\<lparr>x_policy_cache := Some cache'\<rparr>), k') \<and>
      pc_data cache' = None"
proof -
  obtain s :: "('a policy_data, unit) stack"
    where s: "sk_new (pe_got env k) (array_mem env (k + 1)) (Some ()) = Some s" "sk_wf s" "sk_list s = []" "stk_comp s = Some ()" "\<not> stk_sorted s"
    using sk_new_got[OF assms(1)] by blast
  let ?c = "cache\<lparr>pc_data := Some s\<rparr>"
  have c: "cache_sorted ?c" using s by (simp add: cache_sorted_def sk_ok_def)
  have "stk_num s = 0" using length_sk_list[OF s(2)] s(3) by simp
  moreover have "seen_keys ?c = {}" "cache_views ?c = {#}" using s assms(3) by (simp_all add: seen_keys_def cache_views_def stack_items_Some)
  ultimately obtain cache' k' where l: "policy_cache_loop env crit policies ?c (k + 2) =
      Some (if distinct (map (policy_key env) policies) then 1 else -1, cache', k')"
    "distinct (map (policy_key env) policies) \<longrightarrow> adds_policies env crit policies ?c cache'"
    using policy_cache_loop_ok[OF assms(1) c assms(5), where k = "k + 2" and crit = crit] assms(6)
    by (auto simp: sk_num_def new_keys_def split: if_splits)
  show ?thesis
  proof (cases "distinct (map (policy_key env) policies)")
    case True
    then have "adds_policies env crit policies ?c cache'" using l(2) by simp
    with True l(1) s(1) show ?thesis
      using assms(2,3,4) \<open>cache_views ?c = {#}\<close> by (auto simp: policy_cache_create_def adds_policies_def)
  next
    case False
    with l(1) s(1) show ?thesis
      using assms(2,4) by (auto simp: policy_cache_create_def bad_cache_def intro!: exI[of _ "cache'\<lparr>pc_data := None\<rparr>"])
  qed
qed

end
