(* ===== verification/Policy_Certs.thy ===== *)
theory Policy_Certs
  imports Policy_Facts
begin

text \<open>
  The cache of a certificate, whatever its extensions say: with enough memory it is there, its stacks hold
  no null pointers, no more data than the certificate lists policies and mappings, and no data that are
  marked as extra. So the rest of the policy code can follow every pointer in it.
\<close>

section \<open>The cache of a certificate\<close>

definition data_ok :: "nat \<Rightarrow> 'q policy_data \<Rightarrow> bool" where
  "data_ok m d \<longleftrightarrow> stack_wf (pd_expected_policy_set d) \<and> pd_expected_policy_set d \<noteq> None \<and>
     None \<notin> set (stack_items (pd_expected_policy_set d)) \<and> sk_num (pd_expected_policy_set d) \<le> m \<and>
     pd_flags d AND POLICY_DATA_FLAG_EXTRA_NODE = 0"

definition cache_ok :: "nat \<Rightarrow> nat \<Rightarrow> 'q policy_cache \<Rightarrow> bool" where
  "cache_ok n m cache \<longleftrightarrow> stack_wf (pc_data cache) \<and> sk_num (pc_data cache) \<le> n \<and>
     (\<forall>e\<in>set (stack_items (pc_data cache)). \<exists>d. e = Some d \<and> data_ok m d) \<and>
     (\<forall>d. pc_anyPolicy cache = Some d \<longrightarrow> data_ok m d)"

lemma data_ok_mono: "data_ok m d \<Longrightarrow> m \<le> m' \<Longrightarrow> data_ok m' d"
  by (simp add: data_ok_def)

lemma cache_ok_mono: "cache_ok n m cache \<Longrightarrow> n \<le> n' \<Longrightarrow> m \<le> m' \<Longrightarrow> cache_ok n' m' cache"
  by (meson cache_ok_def data_ok_mono le_trans)

lemma policy_flags [simp]:
  "POLICY_DATA_FLAG_CRITICAL AND POLICY_DATA_FLAG_EXTRA_NODE = 0"
  "(f OR POLICY_DATA_FLAG_MAPPED) AND POLICY_DATA_FLAG_EXTRA_NODE = f AND POLICY_DATA_FLAG_EXTRA_NODE"
  "(f OR POLICY_DATA_FLAG_MAPPED_ANY) AND POLICY_DATA_FLAG_EXTRA_NODE = f AND POLICY_DATA_FLAG_EXTRA_NODE"
  "(f OR POLICY_DATA_FLAG_SHARED_QUALIFIERS) AND POLICY_DATA_FLAG_EXTRA_NODE = f AND POLICY_DATA_FLAG_EXTRA_NODE"
  "(f OR POLICY_DATA_FLAG_EXTRA_NODE) AND POLICY_DATA_FLAG_EXTRA_NODE = POLICY_DATA_FLAG_EXTRA_NODE"
  "POLICY_DATA_FLAG_EXTRA_NODE \<noteq> 0"
  by (simp_all add: POLICY_DATA_FLAG_CRITICAL_def POLICY_DATA_FLAG_EXTRA_NODE_def POLICY_DATA_FLAG_MAPPED_def
      POLICY_DATA_FLAG_MAPPED_ANY_def POLICY_DATA_FLAG_SHARED_QUALIFIERS_def word_ao_dist)

lemma OBJ_dup_got: "all_got env \<Longrightarrow> OBJ_dup (dup_mem env k) (Some ob) \<noteq> None"
  by (auto simp: OBJ_dup_def dup_mem_def all_got_def ASN1_OBJECT_new_def OPENSSL_strdup_def Let_def split: option.splits)

lemma policy_data_new_got:
  assumes "all_got env" and "policy \<noteq> None \<or> cid \<noteq> None"
  shows "\<exists>d k'. policy_data_new env policy cid crit k = (Some d, k') \<and> data_ok 0 d"
proof -
  obtain e :: "(asn1_object, unit) stack"
    where e: "sk_new (pe_got env (k + 5)) (array_mem env (k + 6)) None = Some e" "sk_wf e" "sk_list e = []"
    using sk_new_got[OF assms(1)] by blast
  have "stk_num e = 0" using length_sk_list[OF e(2)] e(3) by simp
  with e assms(2) show ?thesis
    using OBJ_dup_got[OF assms(1)]
    by (auto simp: policy_data_new_def sk_new_null_def data_ok_def stack_items_Some sk_num_def got[OF assms(1)] split: option.split)
qed

lemma cache_ok_sort:
  "cache_ok n m cache \<Longrightarrow> cache_ok n m (cache\<lparr>pc_data := sk_sort qsort cmp (pc_data cache)\<rparr>)"
  using sk_sort_items[of "pc_data cache" cmp] by (auto simp: cache_ok_def sk_num_sort dest!: mset_eq_setD)

lemma cache_ok_push:
  assumes "all_got env" and "cache_ok n m cache" and "pc_data cache \<noteq> None" and "data_ok m d" and "n < STACK_ROOM"
  shows "\<exists>sk. sk_push (array_mem env k) (Some d) (pc_data cache) = Some (sk_num (pc_data cache) + 1, sk) \<and>
    cache_ok (n + 1) m (cache\<lparr>pc_data := sk\<rparr>) \<and> sk \<noteq> None \<and> stack_items sk = stack_items (pc_data cache) @ [Some d]"
proof -
  obtain s where s: "pc_data cache = Some s" "sk_wf s" "stk_num s \<le> n"
    using assms(2,3) by (auto simp: cache_ok_def sk_num_def)
  obtain t where t: "sk_insert (array_mem env k) (Some d) (stk_num s) (Some s) = (stk_num s + 1, Some t)" "sk_wf t"
    "sk_list t = sk_list s @ [Some d]"
    using sk_insert_got[OF assms(1) s(2), where k = k and p = "Some d"] s(3) assms(5) by auto
  have n: "stk_num t = stk_num s + 1" using t length_sk_list[OF t(2)] length_sk_list[OF s(2)] by simp
  show ?thesis
    using assms(2,4) s t(2,3) by (auto simp: sk_push_def t(1) cache_ok_def sk_num_def stack_items_Some n)
qed

lemma policy_cache_loop_returns:
  assumes "all_got env"
  shows "cache_ok n 0 cache \<Longrightarrow> pc_data cache \<noteq> None \<Longrightarrow> n + length policies < STACK_ROOM \<Longrightarrow>
    \<exists>r cache' k'. policy_cache_loop env crit policies cache k = Some (r, cache', k') \<and>
      cache_ok (n + length policies) 0 cache' \<and> pc_data cache' \<noteq> None"
proof (induction policies arbitrary: cache k n)
  case (Cons p ps)
  obtain d k1 where d: "policy_data_new env (Some p) None crit k = (Some d, k1)" "data_ok 0 d"
    using policy_data_new_got[OF assms, of "Some p"] by blast
  define c where "c = cache\<lparr>pc_data := sk_sort qsort policy_data_cmp (pc_data cache)\<rparr>"
  have c: "cache_ok n 0 c" "pc_data c \<noteq> None"
    using cache_ok_sort[OF Cons.prems(1)] sk_sort_items[of "pc_data cache" policy_data_cmp] Cons.prems(1,2)
    by (auto simp: c_def cache_ok_def)
  have c': "cache_ok (n + length (p # ps)) 0 c" by (rule cache_ok_mono[OF c(1)]) simp_all
  obtain f where f: "sk_find policy_data_cmp (Some d) (pc_data c) = Some f" using sk_find_returns by blast
  obtain sk where sk: "sk_push (array_mem env k1) (Some d) (pc_data c) = Some (sk_num (pc_data c) + 1, sk)"
    "cache_ok (n + 1) 0 (c\<lparr>pc_data := sk\<rparr>)" "sk \<noteq> None"
    using cache_ok_push[OF assms c d(2)] Cons.prems(3) by auto
  have any: "cache_ok (n + 1) 0 (c\<lparr>pc_anyPolicy := Some d\<rparr>)" "pc_data (c\<lparr>pc_anyPolicy := Some d\<rparr>) \<noteq> None"
    using c d(2) by (auto simp: cache_ok_def)
  have sk': "pc_data (c\<lparr>pc_data := sk\<rparr>) \<noteq> None" using sk(3) by simp
  have l: "n + 1 + length ps < STACK_ROOM" using Cons.prems(3) by simp
  show ?case
    using Cons.IH[OF any l, of k1] Cons.IH[OF sk(2) sk' l, of "k1 + 1"] c(2) c' f
    by (simp add: d(1) c_def[symmetric] Let_def sk(1) split: option.split)
qed (simp add: cache_ok_def)

lemma policy_cache_create_returns:
  assumes "all_got env" and "x_policy_cache x = Some cache" and "cache_ok 0 0 cache" and "length policies < STACK_ROOM"
  shows "\<exists>r x' cache' k'. policy_cache_create env policies crit x k = Some (r, x', k') \<and> x_policy_cache x' = Some cache' \<and>
    cache_ok (length policies) 0 cache' \<and> (r > 0 \<longrightarrow> pc_data cache' \<noteq> None) \<and>
    x_policy_mappings x' = x_policy_mappings x"
proof -
  obtain s :: "('a policy_data, unit) stack"
    where s: "sk_new (pe_got env k) (array_mem env (k + 1)) (Some ()) = Some s" "sk_wf s" "sk_list s = []"
    using sk_new_got[OF assms(1)] by blast
  let ?c = "cache\<lparr>pc_data := Some s\<rparr>"
  have c: "cache_ok 0 0 ?c" using s length_sk_list[OF s(2)] assms(3) by (simp add: cache_ok_def stack_items_Some sk_num_def)
  obtain r cache' k' where l: "policy_cache_loop env crit policies ?c (k + 2) = Some (r, cache', k')"
    "cache_ok (length policies) 0 cache'" "pc_data cache' \<noteq> None"
    using policy_cache_loop_returns[OF assms(1) c, where k = "k + 2" and policies = policies and crit = crit] assms(4) by auto
  have z: "cache_ok n' 0 (e\<lparr>pc_data := None\<rparr>)" if "cache_ok n 0 e" for n n' and e :: "'a policy_cache"
    using that by (simp add: cache_ok_def sk_num_def)
  show ?thesis
    using l s(1) assms(2) z[OF l(2)] z[OF assms(3)] by (simp add: policy_cache_create_def)
qed

lemma data_update_items:
  assumes "stack_wf (pc_data cache)" and "i < sk_num (pc_data cache)"
  shows "stack_wf (pc_data (data_update i f cache))" "sk_num (pc_data (data_update i f cache)) = sk_num (pc_data cache)"
    "stack_items (pc_data (data_update i f cache)) = (stack_items (pc_data cache))[i := map_option f (stack_items (pc_data cache) ! i)]"
    "pc_anyPolicy (data_update i f cache) = pc_anyPolicy cache"
proof -
  obtain s where s: "pc_data cache = Some s" "sk_wf s" "i < stk_num s" using assms by (cases "pc_data cache") (auto simp: sk_num_def)
  let ?t = "s\<lparr>stk_data := (stk_data s)[i := map_option f (stk_data s ! i)]\<rparr>"
  have t: "sk_wf ?t" using s(2) by (simp add: sk_wf_def)
  have "sk_list ?t = (sk_list s)[i := map_option f (sk_list s ! i)]"
    using s(3) by (simp add: sk_list_def take_update_swap)
  then show "stack_wf (pc_data (data_update i f cache))" "sk_num (pc_data (data_update i f cache)) = sk_num (pc_data cache)"
    "stack_items (pc_data (data_update i f cache)) = (stack_items (pc_data cache))[i := map_option f (stack_items (pc_data cache) ! i)]"
    "pc_anyPolicy (data_update i f cache) = pc_anyPolicy cache"
    using s t stack_items_Some[OF t] by (simp_all add: data_update_def sk_num_def stack_items_Some)
qed

lemma cache_ok_item:
  assumes "cache_ok n m cache" and "i < sk_num (pc_data cache)"
  shows "\<exists>d. sk_value (pc_data cache) i = Some d \<and> stack_items (pc_data cache) ! i = Some d \<and> data_ok m d"
  using assms nth_mem[of i "stack_items (pc_data cache)"]
  by (fastforce simp: cache_ok_def sk_value_items length_stack_items)

lemma cache_ok_update:
  assumes "cache_ok n m cache" and "i < sk_num (pc_data cache)" and "m \<le> m'"
    and "\<And>d. sk_value (pc_data cache) i = Some d \<Longrightarrow> data_ok m' (f d)"
  shows "cache_ok n m' (data_update i f cache)"
proof -
  obtain d where d: "sk_value (pc_data cache) i = Some d" "stack_items (pc_data cache) ! i = Some d"
    using cache_ok_item[OF assms(1,2)] by blast
  have u: "set (stack_items (pc_data (data_update i f cache))) \<subseteq> insert (Some (f d)) (set (stack_items (pc_data cache)))"
    using data_update_items(3)[of cache i f] assms(1,2) d(2) set_update_subset_insert by (fastforce simp: cache_ok_def)
  have wf: "stack_wf (pc_data cache)" using assms(1) by (simp add: cache_ok_def)
  note n = data_update_items[OF wf assms(2), of f]
  have "\<exists>d. e = Some d \<and> data_ok m' d" if "e \<in> set (stack_items (pc_data (data_update i f cache)))" for e
  proof (cases "e = Some (f d)")
    case True
    then show ?thesis using assms(4)[OF d(1)] by blast
  next
    case False
    then have "e \<in> set (stack_items (pc_data cache))" using u that by blast
    then show ?thesis using assms(1) data_ok_mono[OF _ assms(3)] by (meson cache_ok_def)
  qed
  moreover have "\<forall>d. pc_anyPolicy cache = Some d \<longrightarrow> data_ok m' d" "sk_num (pc_data cache) \<le> n"
    using assms(1) data_ok_mono[OF _ assms(3)] unfolding cache_ok_def by blast+
  ultimately show ?thesis unfolding cache_ok_def n(2,4) using n(1) by blast
qed

lemma push_oid:
  assumes "all_got env" and "data_ok m d" and "m < STACK_ROOM"
  shows "\<exists>n sk. sk_push (array_mem env k) (Some oid) (pd_expected_policy_set d) = Some (n, sk) \<and> n \<noteq> 0 \<and>
    data_ok (m + 1) (d\<lparr>pd_expected_policy_set := sk\<rparr>)"
proof -
  obtain s where s: "pd_expected_policy_set d = Some s" "sk_wf s" "stk_num s \<le> m"
    using assms(2) by (auto simp: data_ok_def sk_num_def)
  obtain t where t: "sk_insert (array_mem env k) (Some oid) (stk_num s) (Some s) = (stk_num s + 1, Some t)" "sk_wf t"
    "sk_list t = sk_list s @ [Some oid]"
    using sk_insert_got[OF assms(1) s(2), where k = k and p = "Some oid"] s(3) assms(3) by auto
  have n: "stk_num t = stk_num s + 1" using t length_sk_list[OF t(2)] length_sk_list[OF s(2)] by simp
  show ?thesis
    using assms(2) s t(2,3) by (auto simp: sk_push_def t(1) data_ok_def sk_num_def stack_items_Some n)
qed

lemma policy_mapped_any_got:
  assumes "all_got env" and "cache_ok n m cache" and "pc_data cache \<noteq> None" and "n < STACK_ROOM"
  shows "\<exists>i cache' k'. policy_mapped_any env issuer anyp cache k = Some (Some i, cache', k') \<and> cache_ok (n + 1) m cache' \<and>
    pc_data cache' \<noteq> None \<and> i < sk_num (pc_data cache')"
proof -
  obtain d :: "'a policy_data" and k1 where d: "policy_data_new env None (Some issuer) (pd_flags anyp AND POLICY_DATA_FLAG_CRITICAL \<noteq> 0) k = (Some d, k1)" "data_ok 0 d"
    using policy_data_new_got[OF assms(1), of None "Some issuer"] by blast
  let ?d = "d\<lparr>pd_qualifier_set := pd_qualifier_set anyp,
    pd_flags := pd_flags d OR POLICY_DATA_FLAG_MAPPED_ANY OR POLICY_DATA_FLAG_SHARED_QUALIFIERS\<rparr>"
  have "data_ok m ?d" using data_ok_mono[OF d(2), of m] by (simp add: data_ok_def or.assoc[symmetric])
  from cache_ok_push[OF assms(1-3) this assms(4), of k1] d(1) show ?thesis
    by (auto simp: policy_mapped_any_def Let_def) (metis length_append_singleton length_stack_items lessI)
qed

lemma cache_find_data_got:
  assumes "cache_ok n m cache"
  shows "\<exists>r cache'. policy_cache_find_data cache oid = Some (r, cache') \<and> cache_ok n m cache' \<and>
    (pc_data cache' = None \<longleftrightarrow> pc_data cache = None) \<and> (\<forall>i. r = Some i \<longrightarrow> i < sk_num (pc_data cache'))"
proof -
  let ?c = "cache\<lparr>pc_data := sk_sort qsort policy_data_cmp (pc_data cache)\<rparr>"
  have wf: "stack_wf (pc_data cache)" using assms by (simp add: cache_ok_def)
  obtain r where "sk_find policy_data_cmp (Some \<lparr>pd_flags = 0, pd_valid_policy = oid, pd_qualifier_set = None, pd_expected_policy_set = None\<rparr>)
      (pc_data ?c) = Some r" "\<forall>i. r = Some i \<longrightarrow> i < sk_num (pc_data ?c)"
    using sk_find_returns by blast
  then show ?thesis
    using cache_ok_sort[OF assms, of policy_data_cmp] sk_sort_items[OF wf, of policy_data_cmp]
    by (simp add: policy_cache_find_data_def Let_def)
qed

text \<open>One mapping: the data it applies to, then the policy it maps to.\<close>

lemma mapping_push_got:
  assumes "all_got env" and "cache_ok n m cache" and "i < sk_num (pc_data cache)" and "m < STACK_ROOM"
  shows "\<exists>data j sk. sk_value (pc_data cache) i = Some data \<and>
    sk_push (array_mem env k) (Some oid) (pd_expected_policy_set data) = Some (j, sk) \<and> j \<noteq> 0 \<and>
    cache_ok n (m + 1) (data_update i (\<lambda>d. d\<lparr>pd_expected_policy_set := sk\<rparr>) cache) \<and>
    pc_data (data_update i (\<lambda>d. d\<lparr>pd_expected_policy_set := sk\<rparr>) cache) \<noteq> None"
proof -
  obtain d where d: "sk_value (pc_data cache) i = Some d" "data_ok m d" using cache_ok_item[OF assms(2,3)] by blast
  obtain j sk where sk: "sk_push (array_mem env k) (Some oid) (pd_expected_policy_set d) = Some (j, sk)" "j \<noteq> 0"
    "data_ok (m + 1) (d\<lparr>pd_expected_policy_set := sk\<rparr>)"
    using push_oid[OF assms(1) d(2) assms(4)] by blast
  have "cache_ok n (m + 1) (data_update i (\<lambda>d. d\<lparr>pd_expected_policy_set := sk\<rparr>) cache)"
    by (rule cache_ok_update[OF assms(2,3)]) (use d(1) sk(3) in auto)
  moreover have "pc_data cache \<noteq> None" using assms(3) by (cases "pc_data cache") (auto simp: sk_num_def)
  ultimately show ?thesis using d(1) sk by (auto simp: data_update_def)
qed

text \<open>The data a mapping applies to: listed, or made from \<open>anyPolicy\<close>.\<close>

lemma mapping_data_got:
  assumes "all_got env" and "cache_ok n m cache" and "pc_data cache \<noteq> None" and "n < STACK_ROOM"
    and "\<forall>i. found = Some i \<longrightarrow> i < sk_num (pc_data cache)"
  shows "\<exists>r cache' k'. (case found of
       Some i \<Rightarrow> Some (Some i, data_update i (\<lambda>d. d\<lparr>pd_flags := pd_flags d OR POLICY_DATA_FLAG_MAPPED\<rparr>) cache, k)
     | None \<Rightarrow> (case pc_anyPolicy cache of
         None \<Rightarrow> Some (None, cache, k)
       | Some anyp \<Rightarrow> policy_mapped_any env issuer anyp cache k)) = Some (r, cache', k') \<and>
     cache_ok (n + 1) m cache' \<and> pc_data cache' \<noteq> None \<and>
     (case r of Some i \<Rightarrow> i < sk_num (pc_data cache') | None \<Rightarrow> found = None \<and> pc_anyPolicy cache' = None)"
proof (cases found)
  case (Some i)
  then have i: "i < sk_num (pc_data cache)" using assms(5) by simp
  let ?f = "\<lambda>d. d\<lparr>pd_flags := pd_flags d OR POLICY_DATA_FLAG_MAPPED\<rparr>"
  have "data_ok m (?f d)" if "sk_value (pc_data cache) i = Some d" for d
    using that cache_ok_item[OF assms(2) i] by (auto simp: data_ok_def)
  then have "cache_ok n m (data_update i ?f cache)" by (rule cache_ok_update[OF assms(2) i order.refl])
  then have "cache_ok (n + 1) m (data_update i ?f cache)" by (rule cache_ok_mono) simp_all
  moreover have "stack_wf (pc_data cache)" using assms(2) by (simp add: cache_ok_def)
  ultimately show ?thesis
    using Some i assms(3) data_update_items(2)[of cache i ?f] by (simp add: data_update_def)
next
  case None
  have "cache_ok (n + 1) m cache" by (rule cache_ok_mono[OF assms(2)]) simp_all
  then show ?thesis
    using None policy_mapped_any_got[OF assms(1-4), of issuer _ k] assms(3)
    by (cases "pc_anyPolicy cache") (auto, metis option.simps(5))
qed

lemma policy_mapping_loop_returns:
  assumes "all_got env"
  shows "cache_ok n m cache \<Longrightarrow> pc_data cache \<noteq> None \<Longrightarrow> n + length maps < STACK_ROOM \<Longrightarrow> m + length maps < STACK_ROOM \<Longrightarrow>
    \<exists>r cache' k'. policy_mapping_loop env maps cache k = Some (r, cache', k') \<and>
      cache_ok (n + length maps) (m + length maps) cache'"
proof (induction maps arbitrary: cache k n m)
  case (Cons mp maps)
  let ?loop = "policy_mapping_loop env (mp # maps) cache k"
  let ?n = "n + length (mp # maps)" and ?m = "m + length (mp # maps)"
  show ?case
  proof (cases "is_any_policy env (mp_subjectDomainPolicy mp) \<or> is_any_policy env (mp_issuerDomainPolicy mp)")
    case True
    then show ?thesis using cache_ok_mono[OF Cons.prems(1), of ?n ?m] by auto
  next
    case False
    obtain f c where f: "policy_cache_find_data cache (mp_issuerDomainPolicy mp) = Some (f, c)" "cache_ok n m c"
      "pc_data c \<noteq> None" "\<forall>i. f = Some i \<longrightarrow> i < sk_num (pc_data c)"
      using cache_find_data_got[OF Cons.prems(1)] Cons.prems(2) by metis
    obtain r c1 k1 where r: "(case f of
       Some i \<Rightarrow> Some (Some i, data_update i (\<lambda>d. d\<lparr>pd_flags := pd_flags d OR POLICY_DATA_FLAG_MAPPED\<rparr>) c, k)
     | None \<Rightarrow> (case pc_anyPolicy c of
         None \<Rightarrow> Some (None, c, k)
       | Some anyp \<Rightarrow> policy_mapped_any env (mp_issuerDomainPolicy mp) anyp c k)) = Some (r, c1, k1)"
      "cache_ok (n + 1) m c1" "pc_data c1 \<noteq> None"
      "case r of Some i \<Rightarrow> i < sk_num (pc_data c1) | None \<Rightarrow> f = None \<and> pc_anyPolicy c1 = None"
      using mapping_data_got[OF assms f(2,3) _ f(4), of k "mp_issuerDomainPolicy mp"] Cons.prems(3) by auto
    have l: "n + 1 + length maps < STACK_ROOM" "m + length maps < STACK_ROOM" "m + 1 + length maps < STACK_ROOM" "m < STACK_ROOM"
      using Cons.prems(3,4) by simp_all
    show ?thesis
    proof (cases r)
      case None
      obtain r' c' k' where ih: "policy_mapping_loop env maps c1 k1 = Some (r', c', k')" "cache_ok (n + 1 + length maps) (m + length maps) c'"
        using Cons.IH[OF r(2,3) l(1,2)] by blast
      have "?loop = policy_mapping_loop env maps c1 k1" using False f(1) r(1,4) None by simp
      then show ?thesis using ih(1) cache_ok_mono[OF ih(2), of ?n ?m] by auto
    next
      case (Some i)
      then have i: "i < sk_num (pc_data c1)" using r(4) by simp
      obtain data j sk where p: "sk_value (pc_data c1) i = Some data"
        "sk_push (array_mem env k1) (Some (mp_subjectDomainPolicy mp)) (pd_expected_policy_set data) = Some (j, sk)" "j \<noteq> 0"
        "cache_ok (n + 1) (m + 1) (data_update i (\<lambda>d. d\<lparr>pd_expected_policy_set := sk\<rparr>) c1)"
        "pc_data (data_update i (\<lambda>d. d\<lparr>pd_expected_policy_set := sk\<rparr>) c1) \<noteq> None"
        using mapping_push_got[OF assms r(2) i l(4)] by blast
      have "?loop = policy_mapping_loop env maps (data_update i (\<lambda>d. d\<lparr>pd_expected_policy_set := sk\<rparr>) c1) (k1 + 1)"
        using False f(1) r(1) Some p(1-3) by (simp add: Let_def)
      then show ?thesis using Cons.IH[OF p(4,5) l(1,3), of "k1 + 1"] by simp
    qed
  qed
qed simp

definition cert_size :: "'q x509 \<Rightarrow> nat" where
  "cert_size x = (case fst (x_certificate_policies x) of None \<Rightarrow> 0 | Some ps \<Rightarrow> length ps) +
     (case fst (x_policy_mappings x) of None \<Rightarrow> 0 | Some ms \<Rightarrow> length ms)"

definition cert_ok :: "nat \<Rightarrow> 'q x509 \<Rightarrow> bool" where
  "cert_ok m x \<longleftrightarrow> (case x_policy_cache x of None \<Rightarrow> cert_size x \<le> m | Some cache \<Rightarrow> cache_ok m m cache)"

definition cached :: "nat \<Rightarrow> 'q x509 \<Rightarrow> bool" where
  "cached m x \<longleftrightarrow> (\<exists>cache. x_policy_cache x = Some cache \<and> cache_ok m m cache)"

lemma constraints_fields:
  "pc_data (snd (policy_cache_constraints x cache)) = pc_data cache"
  "pc_anyPolicy (snd (policy_cache_constraints x cache)) = pc_anyPolicy cache"
  by (auto simp: policy_cache_constraints_def Let_def split: prod.split option.split)

lemma policy_cache_set_mapping_returns:
  assumes "all_got env" and "x_policy_cache x = Some cache" and "cache_ok n m cache" and "pc_data cache \<noteq> None"
    and "n + length maps < STACK_ROOM" and "m + length maps < STACK_ROOM"
  shows "\<exists>r x' cache' k'. policy_cache_set_mapping env maps x k = Some (r, x', k') \<and> x_policy_cache x' = Some cache' \<and>
    cache_ok (n + length maps) (m + length maps) cache'"
proof -
  obtain r c k' where "policy_mapping_loop env maps cache k = Some (r, c, k')" "cache_ok (n + length maps) (m + length maps) c"
    using policy_mapping_loop_returns[OF assms(1,3-6)] by blast
  then show ?thesis using assms(2,3) by (simp add: policy_cache_set_mapping_def)
qed

lemma cached_bad: "cached m (bad_cache x) \<longleftrightarrow> cached m x"
  by (simp add: cached_def bad_cache_def)

lemma cached_any_skip: "cached m x \<Longrightarrow> cached m (policy_cache_any_skip x)"
  by (auto simp: policy_cache_any_skip_def policy_cache_set_int_def cached_bad Let_def split: prod.split option.split)
    (auto simp: cached_def cache_ok_def)

lemma policy_cache_new_returns:
  assumes "all_got env" and "cert_size x \<le> m" and "m < STACK_ROOM"
  shows "\<exists>r x' k'. policy_cache_new env x k = Some (r, x', k') \<and> cached m x'"
proof -
  let ?new = "\<lparr>pc_anyPolicy = None, pc_data = None, pc_any_skip = -1, pc_explicit_skip = -1, pc_map_skip = -1\<rparr> :: 'a policy_cache"
  obtain ok cache where c: "policy_cache_constraints x ?new = (ok, cache)" "pc_data cache = None" "pc_anyPolicy cache = None"
    using constraints_fields[of x ?new] by (cases "policy_cache_constraints x ?new") simp
  define x1 where "x1 = x\<lparr>x_policy_cache := Some cache\<rparr>"
  have c0: "cache_ok 0 0 cache" using c(2,3) by (simp add: cache_ok_def sk_num_def)
  have x1: "cached m x1" using cache_ok_mono[OF c0] by (simp add: cached_def x1_def)
  show ?thesis
  proof (cases "ok \<and> fst (x_certificate_policies x) \<noteq> None")
    case False
    then have "policy_cache_new env x k = Some (1, bad_cache x1, k + 1) \<or> policy_cache_new env x k = Some (1, x1, k + 1)"
      using c(1) by (cases "x_certificate_policies x"; cases ok) (simp_all add: policy_cache_new_def got[OF assms(1)] x1_def Let_def)
    then show ?thesis using x1 cached_bad by blast
  next
    case True
    then obtain cpols i where p: "x_certificate_policies x = (Some cpols, i)" by (cases "x_certificate_policies x") auto
    have l: "length cpols < STACK_ROOM" "length cpols \<le> m" using assms(2,3) p by (simp_all add: cert_size_def)
    obtain r x2 cache2 k2 where r: "policy_cache_create env cpols (i \<noteq> 0) x1 (k + 1) = Some (r, x2, k2)" "x_policy_cache x2 = Some cache2"
      "cache_ok (length cpols) 0 cache2" "r > 0 \<longrightarrow> pc_data cache2 \<noteq> None" "x_policy_mappings x2 = x_policy_mappings x"
      using policy_cache_create_returns[OF assms(1) _ c0 l(1), of x1 "i \<noteq> 0" "k + 1"] by (auto simp: x1_def)
    have x2: "cached m x2" using r(2) cache_ok_mono[OF r(3) l(2), of m] by (simp add: cached_def)
    have new: "policy_cache_new env x k = (if r \<le> 0 then Some (r, x2, k2) else case x_policy_mappings x of
        (None, i) \<Rightarrow> Some (1, if i \<noteq> -1 then bad_cache x2 else policy_cache_any_skip x2, k2)
      | (Some maps, _) \<Rightarrow> (case policy_cache_set_mapping env maps x2 k2 of
          None \<Rightarrow> None | Some (r, x, k) \<Rightarrow> Some (1, if r \<le> 0 then bad_cache x else policy_cache_any_skip x, k)))"
      using True p r(1,5) c(1) by (simp add: policy_cache_new_def got[OF assms(1)] x1_def[symmetric] Let_def)
    show ?thesis
    proof (cases "r > 0 \<and> fst (x_policy_mappings x) \<noteq> None")
      case False
      then show ?thesis using new x2 cached_any_skip by (auto simp: cached_bad split: prod.split option.split)
    next
      case True
      then obtain maps i where mp: "x_policy_mappings x = (Some maps, i)" by (cases "x_policy_mappings x") auto
      have lm: "length cpols + length maps \<le> m" using assms(2) p mp by (simp add: cert_size_def)
      obtain r3 x3 cache3 k3 where s: "policy_cache_set_mapping env maps x2 k2 = Some (r3, x3, k3)" "x_policy_cache x3 = Some cache3"
        "cache_ok (length cpols + length maps) (0 + length maps) cache3"
        using policy_cache_set_mapping_returns[OF assms(1) r(2,3), of maps k2] r(4) True lm assms(3) by auto
      have "cached m x3" using s(2) cache_ok_mono[OF s(3) lm, of m] lm by (simp add: cached_def)
      then show ?thesis using new True mp s(1) cached_any_skip by (auto simp: cached_bad)
    qed
  qed
qed

lemma policy_cache_set_got:
  assumes "all_got env" and "cert_ok m x" and "m < STACK_ROOM"
  shows "\<exists>cache x' k'. policy_cache_set env x k = Some (Some cache, x', k') \<and> x_policy_cache x' = Some cache \<and> cache_ok m m cache"
proof (cases "x_policy_cache x")
  case None
  then show ?thesis
    using policy_cache_new_returns[OF assms(1) _ assms(3), of x k] assms(2)
    by (auto simp: policy_cache_set_def cert_ok_def cached_def)
next
  case (Some c)
  then show ?thesis using assms(2) by (simp add: policy_cache_set_def cert_ok_def)
qed

lemma chain_cache_got:
  assumes "all_got env" and "\<forall>x\<in>set certs. cert_ok m x" and "m < STACK_ROOM" and "c < length certs"
  shows "\<exists>cache certs' k'. chain_cache env c certs k = Some (Some cache, certs', k') \<and> cache_ok m m cache \<and>
    length certs' = length certs \<and> (\<forall>x\<in>set certs'. cert_ok m x)"
proof -
  obtain cache x k' where s: "policy_cache_set env (certs ! c) k = Some (Some cache, x, k')" "x_policy_cache x = Some cache" "cache_ok m m cache"
    using policy_cache_set_got[OF assms(1) _ assms(3)] assms(2,4) nth_mem by blast
  have "\<forall>y\<in>set (certs[c := x]). cert_ok m y" using assms(2) s(2,3) set_update_subset_insert[of certs c x] by (auto simp: cert_ok_def)
  then show ?thesis using s assms(4) by (simp add: chain_cache_def)
qed

end
