(* ===== verification/Policy_Heap.thy ===== *)
theory Policy_Heap
  imports Policy_Certs
begin

text \<open>
  The heap of policy nodes. Its invariant: parents are live, and the child count of a node is the number of
  live nodes whose parent it is. What a node is, apart from its count, is the heap's shape; linking adds to
  it and pruning takes from it.
\<close>

section \<open>The shape of a heap\<close>

definition shape :: "'q policy_heap \<Rightarrow> nat \<Rightarrow> ('q policy_data \<times> nat option) option" where
  "shape h a = map_option (\<lambda>n. (nd_data n, nd_parent n)) (hp_node h a)"

definition kids :: "(nat \<Rightarrow> ('q policy_data \<times> nat option) option) \<Rightarrow> nat \<Rightarrow> nat set" where
  "kids sh p = {a. \<exists>d. sh a = Some (d, Some p)}"

definition heap_ok :: "'q policy_heap \<Rightarrow> bool" where
  "heap_ok h \<longleftrightarrow> (\<forall>a\<in>dom (shape h). a < hp_next h) \<and> (\<forall>a d p. shape h a = Some (d, Some p) \<longrightarrow> p \<in> dom (shape h)) \<and>
     (\<forall>p n. hp_node h p = Some n \<longrightarrow> nd_nchild n = int (card (kids (shape h) p)))"

lemma shape_None: "shape h a = None \<longleftrightarrow> hp_node h a = None"
  by (simp add: shape_def)

lemma shape_Some: "shape h a = Some (d, p) \<longleftrightarrow> (\<exists>n. hp_node h a = Some n \<and> nd_data n = d \<and> nd_parent n = p)"
  by (auto simp: shape_def)

lemma shape_count [simp]: "shape (h\<lparr>hp_count := k\<rparr>) = shape h"
  by (simp add: shape_def fun_eq_iff)

lemma heap_ok_count [simp]: "heap_ok (h\<lparr>hp_count := k\<rparr>) \<longleftrightarrow> heap_ok h"
  by (simp add: heap_ok_def)

lemma heap_finite:
  assumes "heap_ok h"
  shows "finite (dom (shape h))" "card (dom (shape h)) \<le> hp_next h" "finite (kids (shape h) p)"
proof -
  have sub: "dom (shape h) \<subseteq> {..<hp_next h}" using assms by (auto simp: heap_ok_def)
  then show f: "finite (dom (shape h))" by (rule finite_subset) simp
  show "card (dom (shape h)) \<le> hp_next h" using card_mono[OF _ sub] by simp
  show "finite (kids (shape h) p)" by (rule finite_subset[OF _ f]) (auto simp: kids_def)
qed

lemma no_kids: "heap_ok h \<Longrightarrow> hp_node h a = Some n \<Longrightarrow> nd_nchild n = 0 \<longleftrightarrow> kids (shape h) a = {}"
  using heap_finite(3)[of h a] by (simp add: heap_ok_def)

text \<open>A heap with the shape and the counts of another.\<close>

lemma child_add_shape:
  assumes "p \<in> dom (shape h)"
  shows "\<exists>h'. child_add d (Some p) h = Some h' \<and> shape h' = shape h \<and> hp_next h' = hp_next h \<and> hp_count h' = hp_count h \<and>
    (\<forall>a n. hp_node h' a = Some n \<longrightarrow> (\<exists>m. hp_node h a = Some m \<and> nd_nchild n = nd_nchild m + (if a = p then d else 0)))"
proof -
  obtain m where "hp_node h p = Some m" using assms by (auto simp: shape_def)
  then show ?thesis by (auto simp: child_add_def shape_def fun_eq_iff)
qed

lemma policy_node_free_shape:
  assumes "a \<in> dom (shape h)"
  shows "\<exists>h'. policy_node_free a h = Some h' \<and> shape h' = (shape h)(a := None) \<and> hp_next h' = hp_next h \<and> hp_count h' = hp_count h \<and>
    hp_node h' = (hp_node h)(a := None)"
  using assms by (auto simp: policy_node_free_def shape_def)

text \<open>A node that no node has as its parent is taken away.\<close>

lemma free_leaf_ok:
  assumes "heap_ok h" and "shape h a = Some (d, None)" and "kids (shape h) a = {}"
  shows "\<exists>h'. policy_node_free a h = Some h' \<and> heap_ok h' \<and> shape h' = (shape h)(a := None) \<and>
    hp_next h' = hp_next h \<and> hp_count h' = hp_count h"
proof -
  obtain h' where h': "policy_node_free a h = Some h'" "shape h' = (shape h)(a := None)" "hp_next h' = hp_next h"
    "hp_count h' = hp_count h" "hp_node h' = (hp_node h)(a := None)"
    using policy_node_free_shape[of a h] assms(2) by auto
  have k: "kids (shape h') p = kids (shape h) p" if "p \<noteq> a" for p using assms(2) by (auto simp: kids_def h'(2))
  have "heap_ok h'"
    unfolding heap_ok_def
  proof (intro conjI allI impI ballI)
    fix b assume "b \<in> dom (shape h')"
    then show "b < hp_next h'" using assms(1) by (auto simp: heap_ok_def h'(2,3) split: if_splits)
  next
    fix b e p assume b: "shape h' b = Some (e, Some p)"
    then have s: "shape h b = Some (e, Some p)" by (auto simp: h'(2) split: if_splits)
    then have "p \<in> dom (shape h)" using assms(1) unfolding heap_ok_def by blast
    moreover have "p \<noteq> a" using assms(3) s by (auto simp: kids_def)
    ultimately show "p \<in> dom (shape h')" by (auto simp: h'(2))
  next
    fix p n assume p: "hp_node h' p = Some n"
    then show "nd_nchild n = int (card (kids (shape h') p))"
      using assms(1) k[of p] by (auto simp: heap_ok_def h'(5) split: if_splits)
  qed
  then show ?thesis using h' by blast
qed

lemma drop_node_ok:
  assumes "heap_ok h" and "hp_node h a = Some node" and "nd_parent node = Some p" and "kids (shape h) a = {}"
  shows "\<exists>h'. drop_node a node h = Some h' \<and> heap_ok h' \<and> shape h' = (shape h)(a := None) \<and>
    hp_next h' = hp_next h \<and> hp_count h' = hp_count h"
proof -
  have sa: "shape h a = Some (nd_data node, Some p)" using assms(2,3) by (simp add: shape_Some)
  have p: "p \<in> dom (shape h)" using assms(1) sa by (auto simp: heap_ok_def)
  have pa: "p \<noteq> a" using assms(4) sa by (auto simp: kids_def)
  obtain h1 where h1: "child_add (-1) (Some p) h = Some h1" "shape h1 = shape h" "hp_next h1 = hp_next h" "hp_count h1 = hp_count h"
    "\<forall>b n. hp_node h1 b = Some n \<longrightarrow> (\<exists>m. hp_node h b = Some m \<and> nd_nchild n = nd_nchild m + (if b = p then -1 else 0))"
    using child_add_shape[OF p, of "-1"] by auto
  obtain h' where h': "policy_node_free a h1 = Some h'" "shape h' = (shape h)(a := None)" "hp_next h' = hp_next h"
    "hp_count h' = hp_count h" "hp_node h' = (hp_node h1)(a := None)"
    using policy_node_free_shape[of a h1] sa h1(2-4) by auto
  have k: "kids (shape h') q = kids (shape h) q - (if q = p then {a} else {})" if "q \<noteq> a" for q
    using sa that by (auto simp: kids_def h'(2))
  have ap: "a \<in> kids (shape h) p" using sa by (simp add: kids_def)
  have "heap_ok h'"
    unfolding heap_ok_def
  proof (intro conjI allI impI ballI)
    fix b assume "b \<in> dom (shape h')"
    then show "b < hp_next h'" using assms(1) by (auto simp: heap_ok_def h'(2,3) split: if_splits)
  next
    fix b e q assume b: "shape h' b = Some (e, Some q)"
    then have s: "shape h b = Some (e, Some q)" by (auto simp: h'(2) split: if_splits)
    then have "q \<in> dom (shape h)" using assms(1) unfolding heap_ok_def by blast
    moreover have "q \<noteq> a" using assms(4) s by (auto simp: kids_def)
    ultimately show "q \<in> dom (shape h')" by (auto simp: h'(2))
  next
    fix q n assume q: "hp_node h' q = Some n"
    then have qa: "q \<noteq> a" by (auto simp: h'(5))
    then obtain m where m: "hp_node h q = Some m" "nd_nchild n = nd_nchild m + (if q = p then -1 else 0)"
      using q h1(5) by (auto simp: h'(5))
    have c: "nd_nchild m = int (card (kids (shape h) q))" using assms(1) m(1) by (simp add: heap_ok_def)
    show "nd_nchild n = int (card (kids (shape h') q))"
    proof (cases "q = p")
      case True
      have f: "finite (kids (shape h) p)" by (rule heap_finite(3)[OF assms(1)])
      have "card (kids (shape h) p) = Suc (card (kids (shape h) p - {a}))" by (rule card.remove[OF f ap])
      then show ?thesis using m(2) c k[OF qa] True by simp
    next
      case False
      then show ?thesis using m(2) c k[OF qa] by simp
    qed
  qed
  then show ?thesis using h' h1(1) assms(3) by (simp add: drop_node_def)
qed

section \<open>A new node\<close>

definition with_node :: "nat option \<Rightarrow> 'q policy_data \<Rightarrow> 'q policy_heap \<Rightarrow> 'q policy_heap" where
  "with_node parent data h = h\<lparr>hp_node := (hp_node h)(hp_next h \<mapsto> \<lparr>nd_data = data, nd_parent = parent, nd_nchild = 0\<rparr>),
     hp_next := hp_next h + 1, hp_count := hp_count h + 1\<rparr>"

lemma with_node_shape:
  "shape (with_node parent data h) = (shape h)(hp_next h \<mapsto> (data, parent))"
  "hp_next (with_node parent data h) = hp_next h + 1"
  by (auto simp: with_node_def shape_def)

lemma fresh_address:
  assumes "heap_ok h"
  shows "shape h (hp_next h) = None"
proof (rule ccontr)
  assume "shape h (hp_next h) \<noteq> None"
  then have "hp_next h < hp_next h" using assms by (auto simp: heap_ok_def)
  then show False by simp
qed

lemma fresh_kids: "heap_ok h \<Longrightarrow> kids (shape h) (hp_next h) = {}"
  using fresh_address[of h] by (auto simp: heap_ok_def kids_def) 

text \<open>A node that is made and freed at once.\<close>

lemma node_undone:
  assumes "heap_ok h"
  shows "\<exists>h'. policy_node_free (hp_next h) (with_node parent data h\<lparr>hp_count := k\<rparr>) = Some h' \<and> heap_ok h' \<and>
    shape h' = shape h \<and> hp_next h' = hp_next h + 1"
proof -
  have f: "hp_node h (hp_next h) = None" using fresh_address[OF assms] by (simp add: shape_None)
  then have e: "(hp_node h)(hp_next h := None) = hp_node h" by auto
  let ?h = "h\<lparr>hp_next := hp_next h + 1, hp_count := k\<rparr>"
  have "policy_node_free (hp_next h) (with_node parent data h\<lparr>hp_count := k\<rparr>) = Some ?h"
    using e by (simp add: policy_node_free_def with_node_def)
  moreover have sh: "shape ?h = shape h" by (simp add: shape_def fun_eq_iff)
  moreover have "heap_ok ?h" using assms unfolding heap_ok_def sh by (fastforce intro: less_SucI)
  ultimately show ?thesis by auto
qed

lemma with_root_ok:
  assumes "heap_ok h"
  shows "heap_ok (with_node None data h)"
proof -
  let ?a = "hp_next h"
  have k: "kids (shape (with_node None data h)) p = kids (shape h) p" for p
    using fresh_address[OF assms] by (auto simp: kids_def with_node_shape)
  have n: "nd_nchild n = int (card (kids (shape h) p))" if "hp_node (with_node None data h) p = Some n" for p n
    using that assms fresh_kids[OF assms] by (auto simp: with_node_def heap_ok_def split: if_splits)
  show ?thesis
    unfolding heap_ok_def k using n assms
    by (auto simp: heap_ok_def with_node_shape less_Suc_eq split: if_splits)
qed

lemma with_child_ok:
  assumes "heap_ok h" and "p \<in> dom (shape h)"
  shows "\<exists>h'. child_add 1 (Some p) (with_node (Some p) data h\<lparr>hp_count := k\<rparr>) = Some h' \<and> heap_ok h' \<and>
    shape h' = (shape h)(hp_next h \<mapsto> (data, Some p)) \<and> hp_next h' = hp_next h + 1"
proof -
  let ?a = "hp_next h" and ?h = "with_node (Some p) data h\<lparr>hp_count := k\<rparr>"
  have pa: "p \<noteq> ?a" using fresh_address[OF assms(1)] assms(2) by auto
  have "p \<in> dom (shape ?h)" using assms(2) by (simp add: with_node_shape)
  then obtain h' where h': "child_add 1 (Some p) ?h = Some h'" "shape h' = (shape h)(?a \<mapsto> (data, Some p))" "hp_next h' = ?a + 1"
    "\<forall>b n. hp_node h' b = Some n \<longrightarrow> (\<exists>m. hp_node ?h b = Some m \<and> nd_nchild n = nd_nchild m + (if b = p then 1 else 0))"
    using child_add_shape[of p ?h 1] by (auto simp: with_node_shape)
  have k: "kids (shape h') q = kids (shape h) q \<union> (if q = p then {?a} else {})" for q
    using fresh_address[OF assms(1)] by (auto simp: kids_def h'(2))
  have new: "?a \<notin> kids (shape h) p" using fresh_address[OF assms(1)] by (simp add: kids_def)
  have "heap_ok h'"
    unfolding heap_ok_def
  proof (intro conjI allI impI ballI)
    fix b assume "b \<in> dom (shape h')"
    then show "b < hp_next h'" using assms(1) by (auto simp: heap_ok_def h'(2,3) less_Suc_eq split: if_splits)
  next
    fix b e q assume "shape h' b = Some (e, Some q)"
    then show "q \<in> dom (shape h')" using assms by (auto simp: heap_ok_def h'(2) split: if_splits)
  next
    fix q n assume "hp_node h' q = Some n"
    then obtain m where m: "hp_node ?h q = Some m" "nd_nchild n = nd_nchild m + (if q = p then 1 else 0)" using h'(4) by blast
    show "nd_nchild n = int (card (kids (shape h') q))"
    proof (cases "q = ?a")
      case True
      then show ?thesis using m pa k[of q] fresh_kids[OF assms(1)] by (auto simp: with_node_def)
    next
      case False
      then have "nd_nchild m = int (card (kids (shape h) q))" using m(1) assms(1) by (simp add: with_node_def heap_ok_def)
      then show ?thesis using m(2) k[of q] new heap_finite(3)[OF assms(1), of p] by simp
    qed
  qed
  then show ?thesis using h' by blast
qed

section \<open>A level of the tree\<close>

definition level_nodes :: "policy_level \<Rightarrow> nat list" where
  "level_nodes lv = map the (stack_items (lv_nodes lv)) @ (case lv_anyPolicy lv of None \<Rightarrow> [] | Some a \<Rightarrow> [a])"

text \<open>The stack of a level has no null pointers, and the nodes in it have parents.\<close>

definition level_ok :: "'q policy_heap \<Rightarrow> policy_level \<Rightarrow> bool" where
  "level_ok h lv \<longleftrightarrow> stack_wf (lv_nodes lv) \<and> None \<notin> set (stack_items (lv_nodes lv)) \<and>
     (\<forall>a\<in>set (map the (stack_items (lv_nodes lv))). \<exists>d p. shape h a = Some (d, Some p))"

text \<open>The nodes of a level and the other nodes of the heap.\<close>

definition level_inv :: "nat \<Rightarrow> nat set \<Rightarrow> policy_level \<Rightarrow> 'q policy_heap \<Rightarrow> bool" where
  "level_inv m others lv h \<longleftrightarrow> heap_ok h \<and> level_ok h lv \<and> distinct (level_nodes lv) \<and>
     dom (shape h) = others \<union> set (level_nodes lv) \<and> others \<inter> set (level_nodes lv) = {} \<and>
     (\<forall>a\<in>set (level_nodes lv). \<forall>d p. shape h a = Some (d, p) \<longrightarrow> data_ok m d)"

text \<open>
  A level while it is linked to the one above: its nodes have no children, and there are no more than were
  made since it was begun.
\<close>

definition link_inv ::
  "nat \<Rightarrow> nat set \<Rightarrow> (nat \<Rightarrow> ('q policy_data \<times> nat option) option) \<Rightarrow> nat \<Rightarrow> policy_level \<Rightarrow> 'q policy_heap \<Rightarrow> bool" where
  "link_inv m others sh start lv h \<longleftrightarrow> level_inv m others lv h \<and> (\<forall>a\<in>set (level_nodes lv). kids (shape h) a = {}) \<and>
     (\<forall>a\<in>others. shape h a = sh a) \<and> length (level_nodes lv) + start \<le> hp_next h"

definition extra_ok :: "'q policy_stack \<Rightarrow> 'q policy_heap \<Rightarrow> bool" where
  "extra_ok extra h \<longleftrightarrow> stack_wf extra \<and> sk_num extra \<le> hp_next h"

lemma level_inv_count [simp]: "level_inv m others lv (h\<lparr>hp_count := k\<rparr>) \<longleftrightarrow> level_inv m others lv h"
  by (simp add: level_inv_def level_ok_def)

lemma link_inv_count [simp]: "link_inv m others sh start lv (h\<lparr>hp_count := k\<rparr>) \<longleftrightarrow> link_inv m others sh start lv h"
  by (simp add: link_inv_def)

lemma extra_ok_count [simp]: "extra_ok extra (h\<lparr>hp_count := k\<rparr>) \<longleftrightarrow> extra_ok extra h"
  by (simp add: extra_ok_def)

lemma extra_ok_mono: "extra_ok extra h \<Longrightarrow> hp_next h \<le> hp_next h' \<Longrightarrow> extra_ok extra h'"
  by (simp add: extra_ok_def)

lemma level_size:
  assumes "level_inv m others lv h"
  shows "sk_num (lv_nodes lv) \<le> length (level_nodes lv)" "length (level_nodes lv) \<le> hp_next h"
proof -
  show "sk_num (lv_nodes lv) \<le> length (level_nodes lv)" by (simp add: level_nodes_def length_stack_items)
  have "length (level_nodes lv) = card (set (level_nodes lv))" using assms by (simp add: level_inv_def distinct_card)
  also have "\<dots> \<le> card (dom (shape h))"
    using assms heap_finite(1)[of h] by (intro card_mono) (auto simp: level_inv_def)
  also have "\<dots> \<le> hp_next h" using assms heap_finite(2)[of h] by (simp add: level_inv_def)
  finally show "length (level_nodes lv) \<le> hp_next h" .
qed

text \<open>A node at the address of the level is linked, in the stack or as \<open>anyPolicy\<close>.\<close>

lemma level_link_got:
  assumes "all_got env" and "stack_wf (lv_nodes lv)" and "sk_num (lv_nodes lv) < STACK_ROOM"
  shows "\<exists>ok lv' k'. level_link env data a lv k = (ok, lv', k') \<and> lv_flags lv' = lv_flags lv \<and> lv_cert lv' = lv_cert lv \<and>
    (if ok then stack_wf (lv_nodes lv') \<and> mset (level_nodes lv') = add_mset a (mset (level_nodes lv)) \<and>
       (stack_items (lv_nodes lv') = stack_items (lv_nodes lv) \<or> stack_items (lv_nodes lv') = stack_items (lv_nodes lv) @ [Some a])
     else lv' = lv)"
proof (cases "is_any_policy env (pd_valid_policy data)")
  case True
  then show ?thesis using assms(2) by (cases "lv_anyPolicy lv") (auto simp: level_link_def level_nodes_def)
next
  case False
  obtain s k' where "push_new env (Some ()) (Some a) (lv_nodes lv) k = (True, Some s, k')" "sk_wf s"
    "stack_items (Some s) = stack_items (lv_nodes lv) @ [Some a]"
    using push_new_got[OF assms, where c = "Some ()" and p = "Some a" and k = k] by blast
  then show ?thesis using False by (auto simp: level_link_def level_nodes_def)
qed

text \<open>A node is added to a level, or there is one already for \<open>anyPolicy\<close> and nothing changes.\<close>

lemma level_add_node_ok:
  assumes "all_got env" and "link_inv m others sh start lv h" and "p \<in> others" and "data_ok m data"
    and "hp_next h < STACK_ROOM" and "\<forall>e. extra = Some e \<longrightarrow> extra_ok e h"
  shows "\<exists>r lv' extra' h'. level_add_node env (Some lv) data (Some p) extra h = Some (r, Some lv', extra', h') \<and>
    link_inv m others sh start lv' h' \<and> hp_next h' = hp_next h + 1 \<and> lv_flags lv' = lv_flags lv \<and> lv_cert lv' = lv_cert lv \<and>
    (extra' = None \<longleftrightarrow> extra = None) \<and> (\<forall>e. extra' = Some e \<longrightarrow> extra_ok e h')"
proof -
  let ?a = "hp_next h"
  have lv: "level_inv m others lv h" "stack_wf (lv_nodes lv)" using assms(2) by (simp_all add: link_inv_def level_inv_def level_ok_def)
  have h: "heap_ok h" using lv(1) by (simp add: level_inv_def)
  have room: "sk_num (lv_nodes lv) < STACK_ROOM" using level_size[OF lv(1)] assms(5) by simp
  obtain ok lv' k where l: "level_link env data ?a lv (hp_count h + 1) = (ok, lv', k)" "lv_flags lv' = lv_flags lv" "lv_cert lv' = lv_cert lv"
    "if ok then stack_wf (lv_nodes lv') \<and> mset (level_nodes lv') = add_mset ?a (mset (level_nodes lv)) \<and>
       (stack_items (lv_nodes lv') = stack_items (lv_nodes lv) \<or> stack_items (lv_nodes lv') = stack_items (lv_nodes lv) @ [Some ?a])
     else lv' = lv"
    using level_link_got[OF assms(1) lv(2) room, of data ?a "hp_count h + 1"] by blast
  have w: "h\<lparr>hp_node := (hp_node h)(?a \<mapsto> \<lparr>nd_data = data, nd_parent = Some p, nd_nchild = 0\<rparr>), hp_next := ?a + 1,
      hp_count := hp_count h + 1, hp_count := k'\<rparr> = with_node (Some p) data h\<lparr>hp_count := k'\<rparr>" for k'
    by (simp add: with_node_def)
  show ?thesis
  proof (cases ok)
    case False
    then have lv': "lv' = lv" using l(4) by simp
    obtain h' where h': "policy_node_free ?a (with_node (Some p) data h\<lparr>hp_count := k\<rparr>) = Some h'" "heap_ok h'" "shape h' = shape h"
      "hp_next h' = ?a + 1"
      using node_undone[OF h] by blast
    have "level_add_node env (Some lv) data (Some p) extra h = Some (None, Some lv, extra, h')"
      using l(1) False h'(1) w lv' by (simp add: level_add_node_def got[OF assms(1)] Let_def split: option.split)
    moreover have "link_inv m others sh start lv h'"
      using assms(2) h'(2-4) by (simp add: link_inv_def level_inv_def level_ok_def)
    moreover have "\<forall>e. extra = Some e \<longrightarrow> extra_ok e h'" using assms(6) extra_ok_mono[of _ h h'] h'(4) by simp
    ultimately show ?thesis using h'(4) by auto
  next
    case True
    obtain extra' k' where e: "(case extra of
          Some sk \<Rightarrow> if ok then (case push_new env None (Some data) sk k of (ok, sk, k) \<Rightarrow> (ok, Some sk, k)) else (ok, extra, k)
        | None \<Rightarrow> (ok, None, k)) = (True, extra', k')"
      "extra' = None \<longleftrightarrow> extra = None" "\<forall>e. extra' = Some e \<longrightarrow> stack_wf e \<and> sk_num e \<le> ?a + 1"
    proof (cases extra)
      case None
      then show ?thesis using that True by simp
    next
      case (Some e)
      then have "stack_wf e" "sk_num e < STACK_ROOM" "sk_num e \<le> ?a" using assms(5,6) by (auto simp: extra_ok_def)
      then obtain s k' where "push_new env None (Some data) e k = (True, Some s, k')" "sk_wf s"
        "stack_items (Some s) = stack_items e @ [Some data]"
        using push_new_got[OF assms(1), where c = None and p = "Some data" and k = k and sk = e] by blast
      moreover from this(3) have "sk_num (Some s) = sk_num e + 1" by (metis length_append_singleton length_stack_items Suc_eq_plus1)
      ultimately show ?thesis using that[of "Some (Some s)" k'] Some True \<open>sk_num e \<le> ?a\<close> by simp
    qed
    have p: "p \<in> dom (shape h)" using assms(3) lv(1) by (auto simp: level_inv_def)
    obtain h' where h': "child_add 1 (Some p) (with_node (Some p) data h\<lparr>hp_count := k'\<rparr>) = Some h'" "heap_ok h'"
      "shape h' = (shape h)(?a \<mapsto> (data, Some p))" "hp_next h' = ?a + 1"
      using with_child_ok[OF h p] by blast
    have r: "level_add_node env (Some lv) data (Some p) extra h = Some (Some ?a, Some lv', extra', h')"
      using l(1) e(1) True h'(1) w by (cases extra) (auto simp: level_add_node_def got[OF assms(1)] Let_def split: prod.splits)
    have fresh: "shape h ?a = None" by (rule fresh_address[OF h])
    have m1: "mset (level_nodes lv') = add_mset ?a (mset (level_nodes lv))" using l(4) True by simp
    have "set (level_nodes lv') = insert ?a (set (level_nodes lv))"
      using arg_cong[OF m1, of set_mset] by simp
    note m = m1 this
    have new: "?a \<notin> others \<union> set (level_nodes lv)" using fresh lv(1) by (auto simp: level_inv_def)
    have "distinct (level_nodes lv')"
      using lv(1) m(1) new by (metis Un_iff distinct.simps(2) level_inv_def mset.simps(2) mset_eq_imp_distinct_iff)
    moreover have "level_ok h' lv'"
      using l(4) True lv(1) by (auto simp: level_inv_def level_ok_def h'(3) fresh)
    ultimately have inv: "level_inv m others lv' h'"
      using lv(1) h'(2) m(2) new assms(4) by (auto simp: level_inv_def h'(3))
    have "kids (shape h') b = {}" if "b \<in> set (level_nodes lv')" for b
    proof -
      have "b \<noteq> p" using that assms(3) new lv(1) m(2) by (auto simp: level_inv_def)
      then have "kids (shape h') b = kids (shape h) b" using fresh by (auto simp: kids_def h'(3))
      then show ?thesis using that m(2) assms(2) fresh_kids[OF h] by (auto simp: link_inv_def)
    qed
    moreover have "length (level_nodes lv') = length (level_nodes lv) + 1" using m(1) by (metis size_add_mset size_mset Suc_eq_plus1)
    ultimately have "link_inv m others sh start lv' h'"
      using assms(2) inv new h'(3,4) by (auto simp: link_inv_def)
    then show ?thesis using r h'(4) l(2,3) e(2,3) by (auto simp: extra_ok_def)
  qed
qed

end
