(* ===== verification/Policy_Link.thy ===== *)
theory Policy_Link
  imports Policy_Heap
begin

text \<open>
  Linking a level to the one above: with enough memory every operation comes back, the nodes of the other
  levels stay what they are, and the number of new nodes is bounded by the nodes above and the policies of
  the certificate.
\<close>

definition prev_ok :: "nat \<Rightarrow> nat set \<Rightarrow> (nat \<Rightarrow> ('q policy_data \<times> nat option) option) \<Rightarrow> policy_level \<Rightarrow> bool" where
  "prev_ok m others sh prev \<longleftrightarrow> None \<notin> set (stack_items (lv_nodes prev)) \<and> set (level_nodes prev) \<subseteq> others \<and>
     (\<forall>a\<in>set (level_nodes prev). \<forall>d p. sh a = Some (d, p) \<longrightarrow> data_ok m d)"

text \<open>The outcome of an operation that links at most \<open>b\<close> nodes.\<close>

definition links ::
  "nat \<Rightarrow> nat set \<Rightarrow> (nat \<Rightarrow> ('q policy_data \<times> nat option) option) \<Rightarrow> nat \<Rightarrow> nat \<Rightarrow> policy_level \<Rightarrow> 'q policy_heap \<Rightarrow>
     'q linked \<Rightarrow> bool" where
  "links m others sh start b lv h r \<longleftrightarrow> (\<exists>ok lv' h'. r = Some (ok, lv', h') \<and> link_inv m others sh start lv' h' \<and>
     hp_next h \<le> hp_next h' \<and> hp_next h' \<le> hp_next h + b \<and> lv_flags lv' = lv_flags lv \<and> lv_cert lv' = lv_cert lv)"

definition links_extra ::
  "nat \<Rightarrow> nat set \<Rightarrow> (nat \<Rightarrow> ('q policy_data \<times> nat option) option) \<Rightarrow> nat \<Rightarrow> nat \<Rightarrow> policy_level \<Rightarrow> 'q policy_heap \<Rightarrow>
     'q linked_extra \<Rightarrow> bool" where
  "links_extra m others sh start b lv h r \<longleftrightarrow> (\<exists>ok lv' extra h'. r = Some (ok, lv', extra, h') \<and> link_inv m others sh start lv' h' \<and>
     extra_ok extra h' \<and> hp_next h \<le> hp_next h' \<and> hp_next h' \<le> hp_next h + b \<and> lv_flags lv' = lv_flags lv \<and> lv_cert lv' = lv_cert lv)"

lemma links_same: "link_inv m others sh start lv h \<Longrightarrow> links m others sh start b lv h (Some (ok, lv, h))"
  by (simp add: links_def)

lemma links_trans:
  "link_inv m others sh start lv' h' \<Longrightarrow> hp_next h \<le> hp_next h' \<Longrightarrow> hp_next h' \<le> hp_next h + c \<Longrightarrow> lv_flags lv' = lv_flags lv \<Longrightarrow>
    lv_cert lv' = lv_cert lv \<Longrightarrow> links m others sh start b' lv' h' r \<Longrightarrow> c + b' \<le> b \<Longrightarrow> links m others sh start b lv h r"
  by (fastforce simp: links_def)

lemma links_extra_same:
  "link_inv m others sh start lv h \<Longrightarrow> extra_ok extra h \<Longrightarrow> links_extra m others sh start b lv h (Some (ok, lv, extra, h))"
  by (simp add: links_extra_def)

lemma links_extra_trans:
  "hp_next h \<le> hp_next h' \<Longrightarrow> hp_next h' \<le> hp_next h + c \<Longrightarrow> lv_flags lv' = lv_flags lv \<Longrightarrow>
    lv_cert lv' = lv_cert lv \<Longrightarrow> links_extra m others sh start b' lv' h' r \<Longrightarrow> c + b' \<le> b \<Longrightarrow> links_extra m others sh start b lv h r"
  by (fastforce simp: links_extra_def)

lemma any_match_got: "None \<notin> set ps \<Longrightarrow> \<exists>b. any_match oid ps = Some b"
proof (induction ps)
  case (Cons p ps)
  then obtain q where "p = Some q" by (cases p) auto
  then show ?case using Cons by (cases "OBJ_cmp q oid = 0") auto
qed auto

lemma policy_node_match_got: "data_ok m (nd_data n) \<Longrightarrow> \<exists>b. policy_node_match lv n oid = Some b"
  by (auto simp: policy_node_match_def Let_def data_ok_def intro: any_match_got)

lemma prev_node:
  assumes "prev_ok m others sh prev" and "link_inv m others sh start lv h" and "e \<in> set (stack_items (lv_nodes prev))"
  shows "\<exists>a n. e = Some a \<and> a \<in> others \<and> hp_node h a = Some n \<and> data_ok m (nd_data n)"
proof -
  obtain a where a: "e = Some a" using assms(1,3) by (cases e) (auto simp: prev_ok_def)
  then have l: "a \<in> set (level_nodes prev)" using assms(3) by (force simp: level_nodes_def)
  then have o: "a \<in> others" "a \<in> dom (shape h)" "shape h a = sh a"
    using assms(1,2) by (auto simp: prev_ok_def link_inv_def level_inv_def)
  then obtain n where n: "hp_node h a = Some n" by (auto simp: shape_def)
  then have "sh a = Some (nd_data n, nd_parent n)" using o(3) by (simp add: shape_def)
  then show ?thesis using a o(1) n l assms(1) by (auto simp: prev_ok_def)
qed

lemma add_listed_ok:
  assumes "all_got env" and "link_inv m others sh start lv h" and "p \<in> others" and "data_ok m data" and "hp_next h < STACK_ROOM"
  shows "links m others sh start 1 lv h (add_listed env lv data (Some p) h)"
  using level_add_node_ok[OF assms, of None] by (auto simp: add_listed_def links_def)

lemma link_matching_ok:
  assumes "all_got env" and "prev_ok m others sh prev" and "data_ok m data"
  shows "set as \<subseteq> set (stack_items (lv_nodes prev)) \<Longrightarrow> link_inv m others sh start lv h \<Longrightarrow> hp_next h + length as \<le> STACK_ROOM \<Longrightarrow>
    \<exists>ok matched' lv' h'. link_matching env prev data as matched lv h = Some (ok, matched', lv', h') \<and>
      links m others sh start (length as) lv h (Some (ok, lv', h'))"
proof (induction as arbitrary: matched lv h)
  case (Cons e as)
  obtain a n where a: "e = Some a" "a \<in> others" "hp_node h a = Some n" "data_ok m (nd_data n)"
    using prev_node[OF assms(2) Cons.prems(2), of e] Cons.prems(1) by auto
  obtain b where b: "policy_node_match prev n (pd_valid_policy data) = Some b" using policy_node_match_got[OF a(4)] by blast
  show ?case
  proof (cases b)
    case True
    obtain ok lv' h' where l: "add_listed env lv data (Some a) h = Some (ok, lv', h')" "link_inv m others sh start lv' h'"
      "hp_next h \<le> hp_next h'" "hp_next h' \<le> hp_next h + 1" "lv_flags lv' = lv_flags lv" "lv_cert lv' = lv_cert lv"
      using add_listed_ok[OF assms(1) Cons.prems(2) a(2) assms(3)] Cons.prems(3) by (auto simp: links_def)
    obtain ok2 m2 lv2 h2 where n: "link_matching env prev data as True lv' h' = Some (ok2, m2, lv2, h2)"
      "links m others sh start (length as) lv' h' (Some (ok2, lv2, h2))"
      using Cons.IH[OF _ l(2), of True] Cons.prems(1,3) l(4) by auto
    have "links m others sh start (length (e # as)) lv h (Some (ok2, lv2, h2))"
      by (rule links_trans[OF l(2-6) n(2)]) simp
    moreover have "links m others sh start (length (e # as)) lv h (Some (False, lv', h'))"
      using l by (auto simp: links_def)
    ultimately show ?thesis using a(1,3) b True l(1) n(1) by (cases ok) (auto simp: node_at_def)
  next
    case False
    obtain ok2 m2 lv2 h2 where n: "link_matching env prev data as matched lv h = Some (ok2, m2, lv2, h2)"
      "links m others sh start (length as) lv h (Some (ok2, lv2, h2))"
      using Cons.IH[OF _ Cons.prems(2), of matched] Cons.prems(1,3) by auto
    then have "links m others sh start (length (e # as)) lv h (Some (ok2, lv2, h2))" by (auto simp: links_def)
    then show ?thesis using a(1,3) b False n(1) by (simp add: node_at_def)
  qed
qed (auto simp: links_same)

lemma tree_link_matching_nodes_ok:
  assumes "all_got env" and "prev_ok m others sh prev" and "data_ok m data" and "link_inv m others sh start lv h"
    and "hp_next h + sk_num (lv_nodes prev) + 1 \<le> STACK_ROOM"
  shows "links m others sh start (sk_num (lv_nodes prev) + 1) lv h (tree_link_matching_nodes env prev lv data h)"
proof -
  let ?as = "stack_items (lv_nodes prev)"
  obtain ok matched lv' h' where l: "link_matching env prev data ?as False lv h = Some (ok, matched, lv', h')"
    "links m others sh start (length ?as) lv h (Some (ok, lv', h'))"
    using link_matching_ok[OF assms(1-3) _ assms(4), of ?as False] assms(5) by (auto simp: length_stack_items)
  then have l2: "link_inv m others sh start lv' h'" "hp_next h \<le> hp_next h'" "hp_next h' \<le> hp_next h + length ?as"
    "lv_flags lv' = lv_flags lv" "lv_cert lv' = lv_cert lv" by (auto simp: links_def)
  show ?thesis
  proof (cases "ok \<and> \<not> matched \<and> lv_anyPolicy prev \<noteq> None")
    case True
    then obtain a where a: "lv_anyPolicy prev = Some a" by auto
    then have "a \<in> others" using assms(2) by (auto simp: prev_ok_def level_nodes_def)
    then have "links m others sh start 1 lv' h' (add_listed env lv' data (Some a) h')"
      using add_listed_ok[OF assms(1) l2(1) _ assms(3)] l2(3) assms(5) by (simp add: length_stack_items)
    from links_trans[OF l2 this, of "sk_num (lv_nodes prev) + 1"] True a l(1) show ?thesis
      by (simp add: tree_link_matching_nodes_def length_stack_items)
  next
    case False
    then have "tree_link_matching_nodes env prev lv data h = Some (ok, lv', h')" using l(1) by (auto simp: tree_link_matching_nodes_def)
    then show ?thesis using l(2) by (auto simp: links_def length_stack_items)
  qed
qed

lemma link_listed_ok:
  assumes "all_got env" and "prev_ok m others sh prev"
  shows "\<forall>e\<in>set ds. \<exists>d. e = Some d \<and> data_ok m d \<Longrightarrow> link_inv m others sh start lv h \<Longrightarrow>
    hp_next h + length ds * (sk_num (lv_nodes prev) + 1) \<le> STACK_ROOM \<Longrightarrow>
    links m others sh start (length ds * (sk_num (lv_nodes prev) + 1)) lv h (link_listed env prev ds lv h)"
proof (induction ds arbitrary: lv h)
  case (Cons e ds)
  let ?b = "sk_num (lv_nodes prev) + 1"
  obtain d where d: "e = Some d" "data_ok m d" using Cons.prems(1) by auto
  obtain ok lv' h' where l: "tree_link_matching_nodes env prev lv d h = Some (ok, lv', h')" "link_inv m others sh start lv' h'"
    "hp_next h \<le> hp_next h'" "hp_next h' \<le> hp_next h + ?b" "lv_flags lv' = lv_flags lv" "lv_cert lv' = lv_cert lv"
    using tree_link_matching_nodes_ok[OF assms d(2) Cons.prems(2)] Cons.prems(3) by (auto simp: links_def)
  show ?case
  proof (cases ok)
    case True
    have "links m others sh start (length ds * ?b) lv' h' (link_listed env prev ds lv' h')"
      using Cons.IH[OF _ l(2)] Cons.prems(1,3) l(4) by simp
    from links_trans[OF l(2-6) this, of "length (e # ds) * ?b"] show ?thesis using d(1) l(1) True by simp
  next
    case False
    then show ?thesis using d(1) l by (auto simp: links_def)
  qed
qed (simp add: links_same)

lemma tree_link_nodes_ok:
  assumes "all_got env" and "prev_ok m others sh prev" and "cache_ok m m cache" and "link_inv m others sh start lv h"
    and "hp_next h + m * (sk_num (lv_nodes prev) + 1) \<le> STACK_ROOM"
  shows "links m others sh start (m * (sk_num (lv_nodes prev) + 1)) lv h (tree_link_nodes env prev lv cache h)"
proof -
  let ?b = "sk_num (lv_nodes prev) + 1" and ?n = "length (stack_items (pc_data cache))"
  have n: "?n \<le> m" "\<forall>e\<in>set (stack_items (pc_data cache)). \<exists>d. e = Some d \<and> data_ok m d"
    using assms(3) by (simp_all add: cache_ok_def length_stack_items)
  then have b: "?n * ?b \<le> m * ?b" by (intro mult_le_mono1)
  have "links m others sh start (?n * ?b) lv h (tree_link_nodes env prev lv cache h)"
    unfolding tree_link_nodes_def by (rule link_listed_ok[OF assms(1,2) n(2) assms(4)]) (use b assms(5) in linarith)
  then show ?thesis using b by (fastforce simp: links_def)
qed

section \<open>Policies that no node matches\<close>

lemma tree_add_unmatched_ok:
  assumes "all_got env" and "link_inv m others sh start lv h" and "hp_node h a = Some n" and "a \<in> others"
    and "pc_anyPolicy cache \<noteq> None" and "extra_ok extra h" and "hp_next h < STACK_ROOM"
  shows "links_extra m others sh start 1 lv h (tree_add_unmatched env lv cache oid (Some a) extra h)"
proof -
  let ?oid = "case oid of None \<Rightarrow> pd_valid_policy (nd_data n) | Some i \<Rightarrow> i"
  obtain d :: "'a policy_data" and k where d: "policy_data_new env None (Some ?oid) (node_critical n) (hp_count h) = (Some d, k)" "data_ok 0 d"
    using policy_data_new_got[OF assms(1), of None "Some ?oid"] by blast
  obtain anyp where anyp: "pc_anyPolicy cache = Some anyp" using assms(5) by blast
  define data where "data = d\<lparr>pd_qualifier_set := pd_qualifier_set anyp, pd_flags := pd_flags d OR POLICY_DATA_FLAG_SHARED_QUALIFIERS\<rparr>"
  have "data_ok m data" using data_ok_mono[OF d(2), of m] by (simp add: data_def data_ok_def)
  moreover have "link_inv m others sh start lv (h\<lparr>hp_count := k\<rparr>)" using assms(2) by simp
  ultimately obtain r lv' extra' h' where l: "level_add_node env (Some lv) data (Some a) (Some extra) (h\<lparr>hp_count := k\<rparr>) = Some (r, Some lv', extra', h')"
    "link_inv m others sh start lv' h'" "hp_next h' = hp_next h + 1" "lv_flags lv' = lv_flags lv" "lv_cert lv' = lv_cert lv"
    "extra' \<noteq> None" "\<forall>e. extra' = Some e \<longrightarrow> extra_ok e h'"
    using level_add_node_ok[OF assms(1) _ assms(4), of m sh start lv "h\<lparr>hp_count := k\<rparr>" data "Some extra"] assms(6,7) by auto
  then show ?thesis
    using assms(3) d(1) anyp by (auto simp: tree_add_unmatched_def node_at_def links_extra_def data_def[symmetric])
qed

lemma find_child_got: "\<forall>e\<in>set as. node_at h e \<noteq> None \<Longrightarrow> find_child h p oid as \<noteq> None"
  by (induction as) auto

lemma level_find_node_got:
  assumes "link_inv m others sh start lv h"
  shows "\<exists>r. level_find_node h lv p oid = Some r"
proof -
  have ok: "level_ok h lv" using assms by (simp add: link_inv_def level_inv_def)
  have "node_at h e \<noteq> None" if "e \<in> set (stack_items (lv_nodes lv))" for e
  proof -
    have "None \<notin> set (stack_items (lv_nodes lv))" using ok by (simp add: level_ok_def)
    with that have "e \<noteq> None" by metis
    then obtain a where a: "e = Some a" by blast
    have "a \<in> set (map the (stack_items (lv_nodes lv)))" using image_eqI[of a the e, OF _ that] a by simp
    then show ?thesis using ok a by (auto simp: level_ok_def shape_Some node_at_def)
  qed
  then show ?thesis using find_child_got[of "stack_items (lv_nodes lv)" h p oid] by (auto simp: level_find_node_def)
qed

lemma others_live:
  assumes "link_inv m others sh start lv h" and "a \<in> others"
  shows "\<exists>n. hp_node h a = Some n"
proof -
  have "a \<in> dom (shape h)" using assms by (auto simp: link_inv_def level_inv_def)
  then show ?thesis by (auto simp: shape_def)
qed

lemma link_expected_ok:
  assumes "all_got env" and "a \<in> others" and "pc_anyPolicy cache \<noteq> None"
  shows "None \<notin> set ps \<Longrightarrow> link_inv m others sh start lv h \<Longrightarrow> extra_ok extra h \<Longrightarrow> hp_next h + length ps \<le> STACK_ROOM \<Longrightarrow>
    links_extra m others sh start (length ps) lv h (link_expected env cache a ps lv extra h)"
proof (induction ps arbitrary: lv extra h)
  case (Cons p ps)
  obtain oid where p: "p = Some oid" using Cons.prems(1) by (cases p) auto
  obtain f where f: "level_find_node h lv a oid = Some f" using level_find_node_got[OF Cons.prems(2)] by blast
  show ?case
  proof (cases f)
    case None
    obtain n where "hp_node h a = Some n" using others_live[OF Cons.prems(2) assms(2)] by blast
    then obtain ok lv' extra' h' where l: "tree_add_unmatched env lv cache (Some oid) (Some a) extra h = Some (ok, lv', extra', h')"
      "link_inv m others sh start lv' h'" "extra_ok extra' h'" "hp_next h \<le> hp_next h'" "hp_next h' \<le> hp_next h + 1"
      "lv_flags lv' = lv_flags lv" "lv_cert lv' = lv_cert lv"
      using tree_add_unmatched_ok[OF assms(1) Cons.prems(2) _ assms(2,3) Cons.prems(3), of n "Some oid"] Cons.prems(4)
      by (auto simp: links_extra_def)
    have "links_extra m others sh start (length ps) lv' h' (link_expected env cache a ps lv' extra' h')"
      using Cons.IH[OF _ l(2,3)] Cons.prems(1,4) l(5) by simp
    from links_extra_trans[OF l(4-7) this, of "length (p # ps)"]
    have "links_extra m others sh start (length (p # ps)) lv h (link_expected env cache a ps lv' extra' h')" by simp
    moreover have "links_extra m others sh start (length (p # ps)) lv h (Some (False, lv', extra', h'))"
      using l by (auto simp: links_extra_def)
    ultimately show ?thesis using p f None l(1) by (cases ok) simp_all
  next
    case (Some b)
    have "links_extra m others sh start (length ps) lv h (link_expected env cache a ps lv extra h)"
      using Cons.IH[OF _ Cons.prems(2,3)] Cons.prems(1,4) by simp
    then have "links_extra m others sh start (length (p # ps)) lv h (link_expected env cache a ps lv extra h)"
      by (fastforce simp: links_extra_def)
    then show ?thesis using p f Some by simp
  qed
qed (simp add: links_extra_same)

lemma links_extra_mono: "links_extra m others sh start b lv h r \<Longrightarrow> b \<le> b' \<Longrightarrow> links_extra m others sh start b' lv h r"
  by (fastforce simp: links_extra_def)

lemma tree_link_unmatched_ok:
  assumes "all_got env" and "prev_ok m others sh prev" and "pc_anyPolicy cache \<noteq> None" and "e \<in> set (stack_items (lv_nodes prev))"
    and "link_inv m others sh start lv h" and "extra_ok extra h" and "hp_next h + m + 1 \<le> STACK_ROOM"
  shows "links_extra m others sh start (m + 1) lv h (tree_link_unmatched env prev lv cache e extra h)"
proof -
  obtain a n where a: "e = Some a" "a \<in> others" "hp_node h a = Some n" "data_ok m (nd_data n)"
    using prev_node[OF assms(2,5,4)] by blast
  let ?ps = "stack_items (pd_expected_policy_set (nd_data n))"
  have ps: "None \<notin> set ?ps" "length ?ps \<le> m" using a(4) by (simp_all add: data_ok_def length_stack_items)
  have same: "links_extra m others sh start (m + 1) lv h (Some (True, lv, extra, h))" by (rule links_extra_same[OF assms(5,6)])
  have add: "links_extra m others sh start (m + 1) lv h (tree_add_unmatched env lv cache None e extra h)"
    using links_extra_mono[OF tree_add_unmatched_ok[OF assms(1,5) a(3,2) assms(3,6)], of "m + 1"] assms(7) a(1) by simp
  have exp: "links_extra m others sh start (m + 1) lv h (link_expected env cache a ?ps lv extra h)"
    using links_extra_mono[OF link_expected_ok[OF assms(1) a(2) assms(3) ps(1) assms(5,6)], of "m + 1"] assms(7) ps(2) by simp
  show ?thesis using same add exp a(1,3) by (simp add: tree_link_unmatched_def node_at_def Let_def)
qed

lemma link_unmatched_ok:
  assumes "all_got env" and "prev_ok m others sh prev" and "pc_anyPolicy cache \<noteq> None"
  shows "set as \<subseteq> set (stack_items (lv_nodes prev)) \<Longrightarrow> link_inv m others sh start lv h \<Longrightarrow> extra_ok extra h \<Longrightarrow>
    hp_next h + length as * (m + 1) \<le> STACK_ROOM \<Longrightarrow>
    links_extra m others sh start (length as * (m + 1)) lv h (link_unmatched env prev cache as lv extra h)"
proof (induction as arbitrary: lv extra h)
  case (Cons e as)
  obtain ok lv' extra' h' where l: "tree_link_unmatched env prev lv cache e extra h = Some (ok, lv', extra', h')"
    "link_inv m others sh start lv' h'" "extra_ok extra' h'" "hp_next h \<le> hp_next h'" "hp_next h' \<le> hp_next h + (m + 1)"
    "lv_flags lv' = lv_flags lv" "lv_cert lv' = lv_cert lv"
    using tree_link_unmatched_ok[OF assms, of e start lv h extra] Cons.prems by (auto simp: links_extra_def)
  have "links_extra m others sh start (length as * (m + 1)) lv' h' (link_unmatched env prev cache as lv' extra' h')"
    using Cons.IH[OF _ l(2,3)] Cons.prems(1,4) l(5) by simp
  from links_extra_trans[OF l(4-7) this, of "length (e # as) * (m + 1)"]
  have "links_extra m others sh start (length (e # as) * (m + 1)) lv h (link_unmatched env prev cache as lv' extra' h')" by simp
  moreover have "links_extra m others sh start (length (e # as) * (m + 1)) lv h (Some (False, lv', extra', h'))"
    using l by (auto simp: links_extra_def)
  ultimately show ?case using l(1) by (cases ok) simp_all
qed (simp add: links_extra_same)

lemma tree_link_any_ok:
  assumes "all_got env" and "prev_ok m others sh prev" and "cache_ok m m cache" and "pc_anyPolicy cache \<noteq> None"
    and "link_inv m others sh start lv h" and "extra_ok extra h" and "hp_next h + sk_num (lv_nodes prev) * (m + 1) + 1 \<le> STACK_ROOM"
  shows "links_extra m others sh start (sk_num (lv_nodes prev) * (m + 1) + 1) lv h (tree_link_any env prev lv cache extra h)"
proof -
  let ?as = "stack_items (lv_nodes prev)" and ?b = "sk_num (lv_nodes prev) * (m + 1)"
  obtain ok lv' extra' h' where l: "link_unmatched env prev cache ?as lv extra h = Some (ok, lv', extra', h')"
    "link_inv m others sh start lv' h'" "extra_ok extra' h'" "hp_next h \<le> hp_next h'" "hp_next h' \<le> hp_next h + ?b"
    "lv_flags lv' = lv_flags lv" "lv_cert lv' = lv_cert lv"
    using link_unmatched_ok[OF assms(1,2,4) _ assms(5,6), of ?as] assms(7) by (auto simp: links_extra_def length_stack_items)
  obtain anyp where anyp: "pc_anyPolicy cache = Some anyp" "data_ok m anyp" using assms(3,4) by (auto simp: cache_ok_def)
  show ?thesis
  proof (cases "ok \<and> lv_anyPolicy prev \<noteq> None")
    case True
    then obtain a where a: "lv_anyPolicy prev = Some a" by auto
    then have o: "a \<in> others" using assms(2) by (auto simp: prev_ok_def level_nodes_def)
    obtain ok2 lv2 h2 where n: "add_listed env lv' anyp (Some a) h' = Some (ok2, lv2, h2)" "link_inv m others sh start lv2 h2"
      "hp_next h' \<le> hp_next h2" "hp_next h2 \<le> hp_next h' + 1" "lv_flags lv2 = lv_flags lv'" "lv_cert lv2 = lv_cert lv'"
      using add_listed_ok[OF assms(1) l(2) o anyp(2)] l(5) assms(7) by (auto simp: links_def)
    then show ?thesis
      using l a anyp(1) True extra_ok_mono[OF l(3) n(3)] by (auto simp: tree_link_any_def links_extra_def)
  next
    case False
    then have "tree_link_any env prev lv cache extra h = Some (ok, lv', extra', h')" using l(1) by (auto simp: tree_link_any_def)
    then show ?thesis using l by (auto simp: links_extra_def)
  qed
qed

end
