(* ===== verification/Policy_Prune.thy ===== *)
theory Policy_Prune
  imports Policy_Link
begin

text \<open>
  Pruning. A node that is freed has no children and its parent is live, so no pointer to it is left; the
  levels of the tree and the nodes kept beside it are always all the live nodes.
\<close>

section \<open>Pruning a level\<close>

lemma sk_delete_items:
  assumes "stack_wf sk" and "i < sk_num sk"
  shows "stack_wf (snd (sk_delete i sk))" "stack_items (snd (sk_delete i sk)) = take i (stack_items sk) @ drop (i + 1) (stack_items sk)"
    "sk_num (snd (sk_delete i sk)) = sk_num sk - 1"
proof -
  obtain s where s: "sk = Some s" "sk_wf s" "i < stk_num s" using assms by (cases sk) (auto simp: sk_num_def)
  obtain t where t: "sk_delete i (Some s) = (sk_list s ! i, Some t)" "sk_wf t" "sk_list t = take i (sk_list s) @ drop (i + 1) (sk_list s)"
    "stk_num t = stk_num s - 1"
    using sk_delete_list[OF s(2,3)] by blast
  then show "stack_wf (snd (sk_delete i sk))" "stack_items (snd (sk_delete i sk)) = take i (stack_items sk) @ drop (i + 1) (stack_items sk)"
    "sk_num (snd (sk_delete i sk)) = sk_num sk - 1"
    using s by (simp_all add: stack_items_Some sk_num_def)
qed

lemma map_remove_nth:
  assumes "i < length xs" and "distinct (map f xs @ ys)"
  shows "set (map f (take i xs @ drop (i + 1) xs) @ ys) = set (map f xs @ ys) - {f (xs ! i)}"
    "distinct (map f (take i xs @ drop (i + 1) xs) @ ys)"
proof -
  have x: "xs = take i xs @ xs ! i # drop (i + 1) xs" using assms(1) by (simp add: id_take_nth_drop)
  have m: "mset (map f xs @ ys) = add_mset (f (xs ! i)) (mset (map f (take i xs @ drop (i + 1) xs) @ ys))"
    by (subst x) simp
  then have d: "distinct (f (xs ! i) # map f (take i xs @ drop (i + 1) xs) @ ys)"
    using assms(2) by (metis mset.simps(2) mset_eq_imp_distinct_iff)
  then show "distinct (map f (take i xs @ drop (i + 1) xs) @ ys)" by simp
  have "set (map f xs @ ys) = insert (f (xs ! i)) (set (map f (take i xs @ drop (i + 1) xs) @ ys))"
    using arg_cong[OF m, of set_mset] by simp
  then show "set (map f (take i xs @ drop (i + 1) xs) @ ys) = set (map f xs @ ys) - {f (xs ! i)}" using d by simp
qed

lemma level_node:
  assumes "level_inv m others lv h" and "i < sk_num (lv_nodes lv)"
  shows "\<exists>a n p. sk_value (lv_nodes lv) i = Some a \<and> stack_items (lv_nodes lv) ! i = Some a \<and> a \<in> set (level_nodes lv) \<and>
    hp_node h a = Some n \<and> nd_parent n = Some p"
proof -
  have ok: "level_ok h lv" using assms(1) by (simp add: level_inv_def)
  have mem: "stack_items (lv_nodes lv) ! i \<in> set (stack_items (lv_nodes lv))" using assms(2) by (simp add: length_stack_items)
  moreover have "None \<notin> set (stack_items (lv_nodes lv))" using ok by (simp add: level_ok_def)
  ultimately obtain a where a: "stack_items (lv_nodes lv) ! i = Some a" by (metis not_None_eq)
  have "a \<in> set (map the (stack_items (lv_nodes lv)))" using image_eqI[of a the "Some a"] mem a by simp
  moreover from this obtain d p where "shape h a = Some (d, Some p)" using ok by (auto simp: level_ok_def)
  ultimately show ?thesis using a assms(2) by (auto simp: level_nodes_def sk_value_items shape_Some)
qed

lemma level_inv_drop:
  assumes "level_inv m others lv h" and "i < sk_num (lv_nodes lv)" and "sk_value (lv_nodes lv) i = Some a"
    and "hp_node h a = Some n" and "kids (shape h) a = {}"
  shows "\<exists>h'. drop_node a n h = Some h' \<and> level_inv m others (lv\<lparr>lv_nodes := snd (sk_delete i (lv_nodes lv))\<rparr>) h' \<and>
    set (level_nodes (lv\<lparr>lv_nodes := snd (sk_delete i (lv_nodes lv))\<rparr>)) = set (level_nodes lv) - {a} \<and>
    shape h' = (shape h)(a := None) \<and> hp_next h' = hp_next h"
proof -
  let ?nodes = "snd (sk_delete i (lv_nodes lv))"
  let ?lv = "lv\<lparr>lv_nodes := ?nodes\<rparr>" and ?xs = "stack_items (lv_nodes lv)"
  have lv: "heap_ok h" "level_ok h lv" "distinct (level_nodes lv)" "dom (shape h) = others \<union> set (level_nodes lv)"
    "others \<inter> set (level_nodes lv) = {}" "\<forall>a\<in>set (level_nodes lv). \<forall>d p. shape h a = Some (d, p) \<longrightarrow> data_ok m d"
    using assms(1) by (simp_all add: level_inv_def)
  have wf: "stack_wf (lv_nodes lv)" using lv(2) by (simp add: level_ok_def)
  note d = sk_delete_items[OF wf assms(2)]
  obtain p where p: "nd_parent n = Some p" "a = the (?xs ! i)" "a \<in> set (level_nodes lv)"
    using level_node[OF assms(1,2)] assms(3,4) by auto
  obtain h' where h': "drop_node a n h = Some h'" "heap_ok h'" "shape h' = (shape h)(a := None)" "hp_next h' = hp_next h"
    using drop_node_ok[OF lv(1) assms(4) p(1) assms(5)] by blast
  let ?ys = "case lv_anyPolicy lv of None \<Rightarrow> [] | Some a \<Rightarrow> [a]"
  have e: "level_nodes lv = map the ?xs @ ?ys" "level_nodes ?lv = map the (take i ?xs @ drop (i + 1) ?xs) @ ?ys"
    by (simp_all add: level_nodes_def d(2))
  have i: "i < length ?xs" using assms(2) by (simp add: length_stack_items)
  have n: "set (level_nodes ?lv) = set (level_nodes lv) - {a}" "distinct (level_nodes ?lv)"
    using map_remove_nth[OF i, of the ?ys] lv(3) unfolding e p(2) by blast+
  have sub: "set (stack_items ?nodes) \<subseteq> set ?xs" using d(2) set_take_subset set_drop_subset by fastforce
  have na: "a \<notin> set (map the (stack_items ?nodes))" using n(1) by (auto simp: level_nodes_def)
  have "level_ok h' ?lv"
    unfolding level_ok_def
  proof (intro conjI ballI)
    show "stack_wf (lv_nodes ?lv)" using d(1) by simp
    show "None \<notin> set (stack_items (lv_nodes ?lv))" using lv(2) sub by (auto simp: level_ok_def)
    fix b assume b: "b \<in> set (map the (stack_items (lv_nodes ?lv)))"
    then have "b \<in> set (map the ?xs)" "b \<noteq> a" using sub na by auto
    then show "\<exists>d p. shape h' b = Some (d, Some p)" using lv(2) by (auto simp: level_ok_def h'(3))
  qed
  then have "level_inv m others ?lv h'"
    using lv h'(2) n p(3) by (auto simp: level_inv_def h'(3))
  then show ?thesis using h'(1,3,4) n(1) by blast
qed

text \<open>What pruning a level does: nodes of the level may go, nothing else changes.\<close>

definition prunes ::
  "nat \<Rightarrow> nat set \<Rightarrow> policy_level \<Rightarrow> 'q policy_heap \<Rightarrow> policy_level \<Rightarrow> 'q policy_heap \<Rightarrow> bool" where
  "prunes m others lv h lv' h' \<longleftrightarrow> level_inv m others lv' h' \<and> set (level_nodes lv') \<subseteq> set (level_nodes lv) \<and>
     (\<forall>a\<in>others. shape h' a = shape h a) \<and> hp_next h' = hp_next h \<and> lv_flags lv' = lv_flags lv \<and> lv_cert lv' = lv_cert lv \<and>
     sk_num (lv_nodes lv') \<le> sk_num (lv_nodes lv)"

lemma prunes_refl: "level_inv m others lv h \<Longrightarrow> prunes m others lv h lv h"
  by (simp add: prunes_def)

lemma prunes_trans: "prunes m others lv h lv1 h1 \<Longrightarrow> prunes m others lv1 h1 lv2 h2 \<Longrightarrow> prunes m others lv h lv2 h2"
  by (auto simp: prunes_def)

lemma prune_nodes_ok:
  "level_inv m others lv h \<Longrightarrow> i \<le> sk_num (lv_nodes lv) \<Longrightarrow>
    (\<forall>n. zap n \<longrightarrow> nd_nchild n = 0) \<or> (\<forall>a\<in>set (level_nodes lv). kids (shape h) a = {}) \<Longrightarrow>
    \<exists>nodes h'. prune_nodes zap i (lv_nodes lv) h = Some (nodes, h') \<and> prunes m others lv h (lv\<lparr>lv_nodes := nodes\<rparr>) h'"
proof (induction i arbitrary: lv h)
  case 0
  then show ?case by (simp add: prunes_refl)
next
  case (Suc i)
  have i: "i < sk_num (lv_nodes lv)" using Suc.prems(2) by simp
  obtain a n p where a: "sk_value (lv_nodes lv) i = Some a" "a \<in> set (level_nodes lv)" "hp_node h a = Some n" "nd_parent n = Some p"
    using level_node[OF Suc.prems(1) i] by blast
  show ?case
  proof (cases "zap n")
    case False
    then show ?thesis using Suc.IH[OF Suc.prems(1)] Suc.prems(2,3) a(1,3) by simp
  next
    case True
    have h: "heap_ok h" using Suc.prems(1) by (simp add: level_inv_def)
    have k: "kids (shape h) a = {}" using Suc.prems(3) True no_kids[OF h a(3)] a(2) by auto
    let ?lv = "lv\<lparr>lv_nodes := snd (sk_delete i (lv_nodes lv))\<rparr>"
    obtain h1 where h1: "drop_node a n h = Some h1" "level_inv m others ?lv h1" "set (level_nodes ?lv) = set (level_nodes lv) - {a}"
      "shape h1 = (shape h)(a := None)" "hp_next h1 = hp_next h"
      using level_inv_drop[OF Suc.prems(1) i a(1,3) k] by blast
    have "stack_wf (lv_nodes lv)" using Suc.prems(1) by (simp add: level_inv_def level_ok_def)
    then have l: "i \<le> sk_num (lv_nodes ?lv)" "sk_num (lv_nodes ?lv) \<le> sk_num (lv_nodes lv)"
      using sk_delete_items(3)[OF _ i] i by simp_all
    have ao: "a \<notin> others" using Suc.prems(1) a(2) by (auto simp: level_inv_def)
    have p1: "prunes m others lv h ?lv h1" using h1(2-5) l(2) ao by (auto simp: prunes_def)
    have "kids (shape h1) b \<subseteq> kids (shape h) b" for b by (auto simp: kids_def h1(4))
    then have "(\<forall>n. zap n \<longrightarrow> nd_nchild n = 0) \<or> (\<forall>b\<in>set (level_nodes ?lv). kids (shape h1) b = {})"
      using Suc.prems(3) h1(3) by blast
    then obtain nodes h2 where "prune_nodes zap i (lv_nodes ?lv) h1 = Some (nodes, h2)" "prunes m others ?lv h1 (?lv\<lparr>lv_nodes := nodes\<rparr>) h2"
      using Suc.IH[OF h1(2) l(1)] by blast
    then show ?thesis using a(1,3) True h1(1) prunes_trans[OF p1] by simp
  qed
qed

lemma prune_any_ok:
  assumes "level_inv m others lv h"
  shows "\<exists>lv' h'. prune_any lv h = Some (lv', h') \<and> prunes m others lv h lv' h'"
proof (cases "lv_anyPolicy lv")
  case None
  then show ?thesis using prunes_refl[OF assms] by (simp add: prune_any_def)
next
  case (Some a)
  have lv: "heap_ok h" "level_ok h lv" "distinct (level_nodes lv)" "dom (shape h) = others \<union> set (level_nodes lv)"
    "others \<inter> set (level_nodes lv) = {}" "\<forall>a\<in>set (level_nodes lv). \<forall>d p. shape h a = Some (d, p) \<longrightarrow> data_ok m d"
    using assms by (simp_all add: level_inv_def)
  have a: "a \<in> set (level_nodes lv)" using Some by (simp add: level_nodes_def)
  then have "a \<in> dom (shape h)" using lv(4) by simp
  then obtain n where n: "hp_node h a = Some n" by (auto simp: shape_def)
  show ?thesis
  proof (cases "nd_nchild n = 0")
    case False
    then show ?thesis using Some n prunes_refl[OF assms] by (simp add: prune_any_def)
  next
    case True
    have k: "kids (shape h) a = {}" using no_kids[OF lv(1) n] True by simp
    have "\<exists>h'. (if nd_parent n = None then policy_node_free a h else drop_node a n h) = Some h' \<and> heap_ok h' \<and>
      shape h' = (shape h)(a := None) \<and> hp_next h' = hp_next h"
    proof (cases "nd_parent n")
      case None
      then show ?thesis using free_leaf_ok[OF lv(1) _ k, of "nd_data n"] n by (auto simp: shape_Some)
    next
      case (Some p)
      then show ?thesis using drop_node_ok[OF lv(1) n _ k, of p] by auto
    qed
    then obtain h' where h': "(if nd_parent n = None then policy_node_free a h else drop_node a n h) = Some h'" "heap_ok h'"
      "shape h' = (shape h)(a := None)" "hp_next h' = hp_next h" by blast
    let ?lv = "lv\<lparr>lv_anyPolicy := None\<rparr>"
    have "level_nodes lv = level_nodes ?lv @ [a]" using Some by (simp add: level_nodes_def)
    then have s: "set (level_nodes ?lv) = set (level_nodes lv) - {a}" "distinct (level_nodes ?lv)" using lv(3) by auto
    have "level_ok h' ?lv"
      using lv(2) s(1) by (auto simp: level_ok_def h'(3) level_nodes_def)
    then have "level_inv m others ?lv h'" using lv h'(2) s a by (auto simp: level_inv_def h'(3))
    then have "prunes m others lv h ?lv h'" using s(1) h'(3,4) lv(5) a by (auto simp: prunes_def)
    moreover have "prune_any lv h = Some (?lv, h')"
      using Some n True h'(1) by (cases "nd_parent n"; cases "child_add (-1) (nd_parent n) h") (simp_all add: prune_any_def drop_node_def)
    ultimately show ?thesis by blast
  qed
qed

lemma prune_childless_ok:
  assumes "level_inv m others lv h"
  shows "\<exists>lv' h'. prune_childless lv h = Some (lv', h') \<and> prunes m others lv h lv' h'"
proof -
  obtain nodes h1 where n: "prune_nodes (\<lambda>node. nd_nchild node = 0) (sk_num (lv_nodes lv)) (lv_nodes lv) h = Some (nodes, h1)"
    "prunes m others lv h (lv\<lparr>lv_nodes := nodes\<rparr>) h1"
    using prune_nodes_ok[OF assms order.refl, of "\<lambda>node. nd_nchild node = 0"] by auto
  then obtain lv' h' where "prune_any (lv\<lparr>lv_nodes := nodes\<rparr>) h1 = Some (lv', h')" "prunes m others (lv\<lparr>lv_nodes := nodes\<rparr>) h1 lv' h'"
    using prune_any_ok[of m others "lv\<lparr>lv_nodes := nodes\<rparr>" h1] by (auto simp: prunes_def)
  then show ?thesis using n prunes_trans[OF n(2)] by (auto simp: prune_childless_def)
qed

lemma prune_mapped_ok:
  assumes "level_inv m others lv h" and "\<forall>a\<in>set (level_nodes lv). kids (shape h) a = {}"
  shows "\<exists>lv' h'. prune_mapped lv h = Some (lv', h') \<and> prunes m others lv h lv' h'"
  using prune_nodes_ok[OF assms(1) order.refl, of "\<lambda>node. pd_flags (nd_data node) AND POLICY_DATA_FLAG_MAP_MASK \<noteq> 0"]
    assms prunes_refl[OF assms(1)] by (auto simp: prune_mapped_def)

section \<open>The tree\<close>

definition other_nodes :: "nat set \<Rightarrow> policy_level list \<Rightarrow> nat \<Rightarrow> nat set" where
  "other_nodes xs lvs j = xs \<union> (\<Union>i\<in>{..<length lvs} - {j}. set (level_nodes (lvs ! i)))"

text \<open>Every level with the nodes that are not in it; \<open>xs\<close> are nodes that no level has.\<close>

definition tree_inv :: "nat \<Rightarrow> nat set \<Rightarrow> policy_level list \<Rightarrow> 'q policy_heap \<Rightarrow> bool" where
  "tree_inv m xs lvs h \<longleftrightarrow> (\<forall>j < length lvs. level_inv m (other_nodes xs lvs j) (lvs ! j) h)"

lemma tree_inv_count [simp]: "tree_inv m xs lvs (h\<lparr>hp_count := k\<rparr>) \<longleftrightarrow> tree_inv m xs lvs h"
  by (simp add: tree_inv_def)

lemma tree_inv_update:
  assumes "tree_inv m xs lvs h" and "j < length lvs" and "level_inv m (other_nodes xs lvs j) lv h'"
    and "\<forall>a\<in>other_nodes xs lvs j. shape h' a = shape h a"
  shows "tree_inv m xs (lvs[j := lv]) h'"
  unfolding tree_inv_def
proof (intro allI impI)
  fix i assume "i < length (lvs[j := lv])"
  then have i: "i < length lvs" by simp
  have same: "other_nodes xs (lvs[j := lv]) j = other_nodes xs lvs j" by (auto simp: other_nodes_def)
  show "level_inv m (other_nodes xs (lvs[j := lv]) i) (lvs[j := lv] ! i) h'"
  proof (cases "i = j")
    case True
    then show ?thesis using assms(2,3) same by simp
  next
    case False
    let ?rest = "xs \<union> (\<Union>k\<in>{..<length lvs} - {i, j}. set (level_nodes (lvs ! k)))"
    let ?n = "set (level_nodes (lvs ! i))"
    have s: "{..<length lvs} - {j} = insert i ({..<length lvs} - {i, j})" "{..<length lvs} - {i} = insert j ({..<length lvs} - {i, j})"
      using i assms(2) False by auto
    have oj: "other_nodes xs lvs j = ?rest \<union> ?n" unfolding other_nodes_def s(1) by auto
    have oi: "other_nodes xs lvs i = ?rest \<union> set (level_nodes (lvs ! j))" unfolding other_nodes_def s(2) by auto
    have oi': "other_nodes xs (lvs[j := lv]) i = ?rest \<union> set (level_nodes lv)"
      unfolding other_nodes_def length_list_update s(2) using assms(2) by (auto split: if_splits)
    have li: "level_inv m (?rest \<union> set (level_nodes (lvs ! j))) (lvs ! i) h" using assms(1) i oi by (metis tree_inv_def)
    have lj: "level_inv m (?rest \<union> ?n) lv h'" using assms(3) oj by simp
    have conj_li: "(?rest \<union> set (level_nodes (lvs ! j))) \<inter> ?n = {}" using li unfolding level_inv_def by metis
    have conj_lj: "dom (shape h') = ?rest \<union> ?n \<union> set (level_nodes lv)" "(?rest \<union> ?n) \<inter> set (level_nodes lv) = {}"
      using lj unfolding level_inv_def by metis+
    have fr: "shape h' a = shape h a" if "a \<in> ?n" for a using assms(4) that oj by auto
    have "set (map the (stack_items (lv_nodes (lvs ! i)))) \<subseteq> ?n" by (auto simp: level_nodes_def)
    then have "level_ok h' (lvs ! i)"
      using li fr unfolding level_inv_def level_ok_def by (metis subsetD)
    moreover have "dom (shape h') = ?rest \<union> set (level_nodes lv) \<union> ?n" "(?rest \<union> set (level_nodes lv)) \<inter> ?n = {}"
      using conj_li conj_lj by auto
    moreover have "\<forall>a\<in>?n. \<forall>d p. shape h' a = Some (d, p) \<longrightarrow> data_ok m d" using li fr by (simp add: level_inv_def)
    ultimately have "level_inv m (?rest \<union> set (level_nodes lv)) (lvs ! i) h'"
      using li lj by (simp add: level_inv_def)
    then show ?thesis using False oi' by simp
  qed
qed

end
