(* ===== verification/Policy_Safe.thy ===== *)
theory Policy_Safe
  imports Policy_Prune
begin

text \<open>
  With enough memory the check of a chain comes back, whatever its certificates say: it never follows a
  null pointer or a pointer to a freed node, and releasing the tree it leaves frees every node once.
\<close>

section \<open>Pruning the tree\<close>

definition shrinks :: "policy_level list \<Rightarrow> policy_level list \<Rightarrow> bool" where
  "shrinks lvs lvs' \<longleftrightarrow> length lvs' = length lvs \<and> (\<forall>k < length lvs.
     sk_num (lv_nodes (lvs' ! k)) \<le> sk_num (lv_nodes (lvs ! k)) \<and> set (level_nodes (lvs' ! k)) \<subseteq> set (level_nodes (lvs ! k)) \<and>
     lv_flags (lvs' ! k) = lv_flags (lvs ! k) \<and> lv_cert (lvs' ! k) = lv_cert (lvs ! k))"

lemma shrinks_trans: "shrinks a b \<Longrightarrow> shrinks b c \<Longrightarrow> shrinks a c"
  unfolding shrinks_def by (metis order.trans)

lemma prunes_shrinks:
  assumes "tree_inv m xs lvs h" and "j < length lvs" and "prunes m (other_nodes xs lvs j) (lvs ! j) h lv h'"
  shows "tree_inv m xs (lvs[j := lv]) h'" "shrinks lvs (lvs[j := lv])" "hp_next h' = hp_next h"
proof -
  show "tree_inv m xs (lvs[j := lv]) h'"
    by (rule tree_inv_update[OF assms(1,2)]) (use assms(3) in \<open>simp_all add: prunes_def\<close>)
  show "shrinks lvs (lvs[j := lv])" using assms(2,3) by (auto simp: shrinks_def prunes_def nth_list_update)
  show "hp_next h' = hp_next h" using assms(3) by (simp add: prunes_def)
qed

lemma prune_up_ok:
  "tree_inv m xs lvs h \<Longrightarrow> 0 < j \<Longrightarrow> j \<le> length lvs \<Longrightarrow>
    \<exists>r lvs' h'. prune_up j lvs h = Some (r, lvs', h') \<and> r \<in> {1, 2} \<and> tree_inv m xs lvs' h' \<and> shrinks lvs lvs' \<and> hp_next h' = hp_next h \<and>
      (\<forall>k\<ge>j. lvs' ! k = lvs ! k)"
proof (induction j arbitrary: lvs h)
  case (Suc j)
  have j: "j < length lvs" using Suc.prems(3) by simp
  obtain lv h1 where p: "prune_childless (lvs ! j) h = Some (lv, h1)" "prunes m (other_nodes xs lvs j) (lvs ! j) h lv h1"
    using prune_childless_ok[of m "other_nodes xs lvs j" "lvs ! j" h] Suc.prems(1) j by (auto simp: tree_inv_def)
  note t = prunes_shrinks[OF Suc.prems(1) j p(2)]
  show ?case
  proof (cases "j = 0")
    case True
    then show ?thesis using p(1) t by simp
  next
    case False
    obtain r lvs' h' where u: "prune_up j (lvs[j := lv]) h1 = Some (r, lvs', h')" "r \<in> {1, 2}" "tree_inv m xs lvs' h'"
      "shrinks (lvs[j := lv]) lvs'" "hp_next h' = hp_next h1" "\<forall>k\<ge>j. lvs' ! k = lvs[j := lv] ! k"
      using Suc.IH[OF t(1)] False j by auto
    have "prune_up (Suc j) lvs h = Some (r, lvs', h')" using p(1) u(1) False by (simp add: Let_def)
    then show ?thesis using u(2,3,5,6) t(3) shrinks_trans[OF t(2) u(4)] by auto
  qed
qed simp

lemma tree_prune_ok:
  assumes "tree_inv m xs lvs h" and "0 < j" and "j < length lvs" and "\<forall>a\<in>set (level_nodes (lvs ! j)). kids (shape h) a = {}"
  shows "\<exists>r lvs' h'. tree_prune j lvs h = Some (r, lvs', h') \<and> r \<in> {1, 2} \<and> tree_inv m xs lvs' h' \<and> shrinks lvs lvs' \<and>
    hp_next h' = hp_next h \<and> (\<forall>k>j. lvs' ! k = lvs ! k)"
proof -
  obtain lv h1 where p: "prune_mapped (lvs ! j) h = Some (lv, h1)" "prunes m (other_nodes xs lvs j) (lvs ! j) h lv h1"
    using prune_mapped_ok[of m "other_nodes xs lvs j" "lvs ! j" h] assms by (auto simp: tree_inv_def)
  note t = prunes_shrinks[OF assms(1,3) p(2)]
  have "j \<le> length (lvs[j := lv])" using assms(3) by simp
  then obtain r lvs' h' where u: "prune_up j (lvs[j := lv]) h1 = Some (r, lvs', h')" "r \<in> {1, 2}" "tree_inv m xs lvs' h'"
    "shrinks (lvs[j := lv]) lvs'" "hp_next h' = hp_next h1" "\<forall>k\<ge>j. lvs' ! k = lvs[j := lv] ! k"
    using prune_up_ok[OF t(1) assms(2)] by blast
  then show ?thesis using p(1) t(3) shrinks_trans[OF t(2) u(4)] by (auto simp: tree_prune_def)
qed

section \<open>Evaluating the tree\<close>

text \<open>A level that is not linked yet, and its certificate.\<close>

definition level_cert :: "nat \<Rightarrow> 'q x509 list \<Rightarrow> policy_level \<Rightarrow> bool" where
  "level_cert m certs lv \<longleftrightarrow> (\<exists>c cache. lv_cert lv = Some c \<and> c < length certs \<and> x_policy_cache (certs ! c) = Some cache \<and>
     cache_ok m m cache \<and> (lv_flags lv AND X509_V_FLAG_INHIBIT_ANY = 0 \<longrightarrow> pc_anyPolicy cache \<noteq> None))"

lemma level_cert_cong:
  "lv_flags lv' = lv_flags lv \<Longrightarrow> lv_cert lv' = lv_cert lv \<Longrightarrow> level_cert m certs lv' \<longleftrightarrow> level_cert m certs lv"
  by (simp add: level_cert_def)

text \<open>The levels from \<open>j\<close> on are still to be linked.\<close>

definition tree_ok :: "nat \<Rightarrow> 'q x509 list \<Rightarrow> nat \<Rightarrow> 'q policy_tree \<Rightarrow> 'q policy_heap \<Rightarrow> bool" where
  "tree_ok m certs j tree h \<longleftrightarrow> tree_inv m {} (tr_levels tree) h \<and> tr_nlevel tree = length (tr_levels tree) \<and>
     extra_ok (tr_extra_data tree) h \<and> tr_auth_policies tree = None \<and> tr_user_policies tree = None \<and>
     (\<forall>k. 0 < k \<longrightarrow> k < length (tr_levels tree) \<longrightarrow> level_cert m certs (tr_levels tree ! k)) \<and>
     (\<forall>k. j \<le> k \<longrightarrow> k < length (tr_levels tree) \<longrightarrow> lv_nodes (tr_levels tree ! k) = None \<and> lv_anyPolicy (tr_levels tree ! k) = None)"

lemma tree_ok_count [simp]: "tree_ok m certs j tree (h\<lparr>hp_count := k\<rparr>) \<longleftrightarrow> tree_ok m certs j tree h"
  by (simp add: tree_ok_def)

lemma chain_cache_set:
  "c < length certs \<Longrightarrow> x_policy_cache (certs ! c) = Some cache \<Longrightarrow> chain_cache env c certs k = Some (Some cache, certs, k)"
  by (simp add: chain_cache_def policy_cache_set_def)

text \<open>The nodes of the level above bound the new ones.\<close>

definition growth :: "nat \<Rightarrow> nat \<Rightarrow> nat" where
  "growth m n = m * (n + 1) + (n * (m + 1) + 1)"

lemma link_start:
  assumes "tree_inv m {} lvs h" and "0 < j" and "j < length lvs" and "lv_nodes (lvs ! j) = None" and "lv_anyPolicy (lvs ! j) = None"
  shows "link_inv m (other_nodes {} lvs j) (shape h) (hp_next h) (lvs ! j) h"
    "prev_ok m (other_nodes {} lvs j) (shape h) (lvs ! (j - 1))"
proof -
  have e: "level_nodes (lvs ! j) = []" using assms(4,5) by (simp add: level_nodes_def)
  have "level_inv m (other_nodes {} lvs j) (lvs ! j) h" using assms(1,3) by (simp add: tree_inv_def)
  then show "link_inv m (other_nodes {} lvs j) (shape h) (hp_next h) (lvs ! j) h" using e by (simp add: link_inv_def)
  have j: "j - 1 < length lvs" "j - 1 \<noteq> j" using assms(2,3) by auto
  then have l: "level_inv m (other_nodes {} lvs (j - 1)) (lvs ! (j - 1)) h" using assms(1) by (simp add: tree_inv_def)
  have "set (level_nodes (lvs ! (j - 1))) \<subseteq> other_nodes {} lvs j" using j by (auto simp: other_nodes_def)
  then show "prev_ok m (other_nodes {} lvs j) (shape h) (lvs ! (j - 1))"
    using l by (simp add: prev_ok_def level_inv_def level_ok_def)
qed

text \<open>Linking one level, both steps.\<close>

lemma link_level_ok:
  assumes "all_got env" and "prev_ok m others sh prev" and "cache_ok m m cache" and "link_inv m others sh start lv h"
    and "lv_flags lv AND X509_V_FLAG_INHIBIT_ANY = 0 \<longrightarrow> pc_anyPolicy cache \<noteq> None" and "extra_ok extra h"
    and "hp_next h + growth m (sk_num (lv_nodes prev)) \<le> STACK_ROOM"
  shows "links_extra m others sh start (growth m (sk_num (lv_nodes prev))) lv h
    (do { (ok, lv, h) \<leftarrow> tree_link_nodes env prev lv cache h;
          if ok \<and> lv_flags lv AND X509_V_FLAG_INHIBIT_ANY = 0 then tree_link_any env prev lv cache extra h
          else Some (ok, lv, extra, h) })"
proof -
  let ?n = "sk_num (lv_nodes prev)"
  obtain ok lv1 h1 where l: "tree_link_nodes env prev lv cache h = Some (ok, lv1, h1)" "link_inv m others sh start lv1 h1"
    "hp_next h \<le> hp_next h1" "hp_next h1 \<le> hp_next h + m * (?n + 1)" "lv_flags lv1 = lv_flags lv" "lv_cert lv1 = lv_cert lv"
    using tree_link_nodes_ok[OF assms(1-4)] assms(7) by (auto simp: links_def growth_def)
  have e: "extra_ok extra h1" by (rule extra_ok_mono[OF assms(6) l(3)])
  show ?thesis
  proof (cases "ok \<and> lv_flags lv1 AND X509_V_FLAG_INHIBIT_ANY = 0")
    case True
    then have "pc_anyPolicy cache \<noteq> None" using assms(5) l(5) by simp
    then have "links_extra m others sh start (?n * (m + 1) + 1) lv1 h1 (tree_link_any env prev lv1 cache extra h1)"
      using tree_link_any_ok[OF assms(1-3) _ l(2) e] l(4) assms(7) by (simp add: growth_def)
    from links_extra_trans[OF l(3-6) this, of "growth m ?n"] True l(1) show ?thesis by (simp add: growth_def)
  next
    case False
    then show ?thesis using l e by (auto simp: links_extra_def growth_def)
  qed
qed

lemma evaluate_level_ok:
  assumes "all_got env" and "tree_ok m certs j tree h" and "0 < j" and "j < length (tr_levels tree)"
    and "hp_next h + growth m (sk_num (lv_nodes (tr_levels tree ! (j - 1)))) \<le> STACK_ROOM"
  shows "\<exists>r tree' h'. evaluate_level env j certs tree h = Some (r, certs, tree', h') \<and> r \<in> {0, 1, 2} \<and>
    tree_ok m certs (j + 1) tree' h' \<and> tr_nlevel tree' = tr_nlevel tree \<and>
    hp_next h' \<le> hp_next h + growth m (sk_num (lv_nodes (tr_levels tree ! (j - 1)))) \<and>
    sk_num (lv_nodes (tr_levels tree' ! j)) \<le> growth m (sk_num (lv_nodes (tr_levels tree ! (j - 1))))"
proof -
  let ?lvs = "tr_levels tree" and ?n = "sk_num (lv_nodes (tr_levels tree ! (j - 1)))"
  let ?o = "other_nodes {} ?lvs j"
  have inv: "tree_inv m {} ?lvs h" using assms(2) by (simp add: tree_ok_def)
  have e: "lv_nodes (?lvs ! j) = None" "lv_anyPolicy (?lvs ! j) = None" using assms(2,4) by (simp_all add: tree_ok_def)
  obtain c cache where c: "lv_cert (?lvs ! j) = Some c" "c < length certs" "x_policy_cache (certs ! c) = Some cache" "cache_ok m m cache"
    "lv_flags (?lvs ! j) AND X509_V_FLAG_INHIBIT_ANY = 0 \<longrightarrow> pc_anyPolicy cache \<noteq> None"
    using assms(2,3,4) unfolding tree_ok_def level_cert_def by blast
  note s = link_start[OF inv assms(3,4) e]
  have ex: "extra_ok (tr_extra_data tree) h" using assms(2) by (simp add: tree_ok_def)
  have "links_extra m ?o (shape h) (hp_next h) (growth m ?n) (?lvs ! j) h
    (do { (ok, lv, h) \<leftarrow> tree_link_nodes env (?lvs ! (j - 1)) (?lvs ! j) cache h;
          if ok \<and> lv_flags lv AND X509_V_FLAG_INHIBIT_ANY = 0 then tree_link_any env (?lvs ! (j - 1)) lv cache (tr_extra_data tree) h
          else Some (ok, lv, tr_extra_data tree, h) })"
    by (rule link_level_ok[OF assms(1) s(2) c(4) s(1) c(5) ex assms(5)])
  then obtain ok lv extra h1 where l: "(do { (ok, lv, h) \<leftarrow> tree_link_nodes env (?lvs ! (j - 1)) (?lvs ! j) cache h;
          if ok \<and> lv_flags lv AND X509_V_FLAG_INHIBIT_ANY = 0 then tree_link_any env (?lvs ! (j - 1)) lv cache (tr_extra_data tree) h
          else Some (ok, lv, tr_extra_data tree, h) }) = Some (ok, lv, extra, h1)"
    "link_inv m ?o (shape h) (hp_next h) lv h1" "extra_ok extra h1" "hp_next h \<le> hp_next h1" "hp_next h1 \<le> hp_next h + growth m ?n"
    "lv_flags lv = lv_flags (?lvs ! j)" "lv_cert lv = lv_cert (?lvs ! j)"
    by (auto simp: links_extra_def)
  let ?t = "tree\<lparr>tr_levels := ?lvs[j := lv], tr_extra_data := extra\<rparr>"
  have inv1: "tree_inv m {} (?lvs[j := lv]) h1"
    by (rule tree_inv_update[OF inv assms(4)]) (use l(2) in \<open>simp_all add: link_inv_def\<close>)
  have "level_cert m certs (?lvs[j := lv] ! k) \<longleftrightarrow> level_cert m certs (?lvs ! k)" for k
    using level_cert_cong[OF l(6,7)] assms(4) by (cases "k = j") simp_all
  then have t1: "tree_ok m certs (j + 1) ?t h1"
    using assms(2) inv1 l(3) by (simp add: tree_ok_def)
  have size: "sk_num (lv_nodes lv) \<le> growth m ?n"
    using level_size(1)[of m ?o lv h1] l(2,5) by (auto simp: link_inv_def)
  have ev: "evaluate_level env j certs tree h = (if \<not> ok then Some (0, certs, ?t, h1) else do {
      (r, lvs, h) \<leftarrow> tree_prune j (tr_levels ?t) h1;
      Some (r, certs, ?t\<lparr>tr_levels := lvs\<rparr>, h) })"
  proof -
    have b: "evaluate_level env j certs tree h = do {
       (ok, lv, extra, h) \<leftarrow> do { (ok, lv, h) \<leftarrow> tree_link_nodes env (?lvs ! (j - 1)) (?lvs ! j) cache h;
          if ok \<and> lv_flags lv AND X509_V_FLAG_INHIBIT_ANY = 0 then tree_link_any env (?lvs ! (j - 1)) lv cache (tr_extra_data tree) h
          else Some (ok, lv, tr_extra_data tree, h) };
       let tree = tree\<lparr>tr_levels := (tr_levels tree)[j := lv], tr_extra_data := extra\<rparr>;
       if \<not> ok then Some (0, certs, tree, h)
       else do { (r, lvs, h) \<leftarrow> tree_prune j (tr_levels tree) h; Some (r, certs, tree\<lparr>tr_levels := lvs\<rparr>, h) } }"
      using c(1) chain_cache_set[OF c(2,3), of env "hp_count h"]
      by (simp add: evaluate_level_def Let_def split_beta' cong: if_cong)
    show ?thesis unfolding b l(1) by (simp add: Let_def)
  qed
  show ?thesis
  proof (cases ok)
    case False
    then show ?thesis using ev t1 l(5) size assms(4) by auto
  next
    case True
    have k: "\<forall>a\<in>set (level_nodes ((?lvs[j := lv]) ! j)). kids (shape h1) a = {}" using l(2) assms(4) by (simp add: link_inv_def)
    have jl: "j < length (?lvs[j := lv])" using assms(4) by simp
    obtain r lvs' h2 where p: "tree_prune j (?lvs[j := lv]) h1 = Some (r, lvs', h2)" "r \<in> {1, 2}" "tree_inv m {} lvs' h2"
      "shrinks (?lvs[j := lv]) lvs'" "hp_next h2 = hp_next h1" "\<forall>k>j. lvs' ! k = ?lvs[j := lv] ! k"
      using tree_prune_ok[OF inv1 assms(3) jl k] by blast
    have "tree_ok m certs (j + 1) (?t\<lparr>tr_levels := lvs'\<rparr>) h2"
    proof -
      have "level_cert m certs (lvs' ! k) \<longleftrightarrow> level_cert m certs (?lvs[j := lv] ! k)" if "k < length ?lvs" for k
        using p(4) that by (intro level_cert_cong) (simp_all add: shrinks_def)
      then show ?thesis using t1 p(3-6) by (simp add: tree_ok_def shrinks_def extra_ok_def)
    qed
    then show ?thesis using ev True p size l(5) jl by (auto simp: shrinks_def)
  qed
qed

text \<open>The number of nodes may grow by a constant factor with every level, and no faster.\<close>

definition node_factor :: "nat \<Rightarrow> nat" where
  "node_factor m = 2 * m + 2"

lemma growth_factor: "growth m n + 1 \<le> node_factor m * (n + 1)"
  by (simp add: growth_def node_factor_def algebra_simps)

lemma factor_double: "2 * node_factor m ^ k \<le> node_factor m ^ Suc k"
  by (simp add: node_factor_def)

lemma evaluate_from_ok:
  assumes "all_got env" and "base + 2 * node_factor m ^ (n - 1) \<le> STACK_ROOM"
  shows "n - j = d \<Longrightarrow> 0 < j \<Longrightarrow> j \<le> n \<Longrightarrow> tree_ok m certs j tree h \<Longrightarrow> tr_nlevel tree = n \<Longrightarrow>
    sk_num (lv_nodes (tr_levels tree ! (j - 1))) + 1 \<le> node_factor m ^ (j - 1) \<Longrightarrow>
    hp_next h \<le> base + 2 * node_factor m ^ (j - 1) \<Longrightarrow>
    \<exists>r j' tree' h'. evaluate_from env [j..<n] certs tree h = Some (r, certs, tree', h') \<and> r \<in> {0, 1, 2} \<and>
      tree_ok m certs j' tree' h' \<and> tr_nlevel tree' = n \<and> hp_next h' \<le> base + 2 * node_factor m ^ (n - 1)"
proof (induction d arbitrary: j tree h)
  case 0
  then show ?case by auto
next
  case (Suc d)
  let ?c = "node_factor m" and ?n = "sk_num (lv_nodes (tr_levels tree ! (j - 1)))"
  have j: "j < n" "n - (j + 1) = d" "0 < j + 1" "j + 1 \<le> n" using Suc.prems(1) by simp_all
  have len: "j < length (tr_levels tree)" using Suc.prems(4,5) j(1) by (simp add: tree_ok_def)
  have sj: "Suc (j - 1) = j" using Suc.prems(2) by simp
  have g: "growth m ?n + 1 \<le> ?c ^ j"
    using growth_factor[of m ?n] mult_le_mono2[OF Suc.prems(6), of ?c] sj by (metis order_trans power_Suc)
  have b: "base + 2 * ?c ^ (j - 1) + ?c ^ j \<le> base + 2 * ?c ^ j"
    using factor_double[of m "j - 1"] unfolding sj by simp
  have up: "?c ^ j \<le> ?c ^ (n - 1)" using j(1) by (intro power_increasing) (simp_all add: node_factor_def)
  have "hp_next h + growth m ?n \<le> STACK_ROOM" using g b up assms(2) Suc.prems(7) by linarith
  then obtain r tree1 h1 where e: "evaluate_level env j certs tree h = Some (r, certs, tree1, h1)" "r \<in> {0, 1, 2}"
    "tree_ok m certs (j + 1) tree1 h1" "tr_nlevel tree1 = tr_nlevel tree" "hp_next h1 \<le> hp_next h + growth m ?n"
    "sk_num (lv_nodes (tr_levels tree1 ! j)) \<le> growth m ?n"
    using evaluate_level_ok[OF assms(1) Suc.prems(4,2) len] by blast
  have n1: "sk_num (lv_nodes (tr_levels tree1 ! (j + 1 - 1))) + 1 \<le> ?c ^ (j + 1 - 1)" using e(6) g by simp
  have h1: "hp_next h1 \<le> base + 2 * ?c ^ (j + 1 - 1)" using e(5) g b Suc.prems(7) by simp
  have "tr_nlevel tree1 = n" using e(4) Suc.prems(5) by simp
  from Suc.IH[OF j(2-4) e(3) this n1 h1]
  obtain r2 j2 tree2 h2 where f: "evaluate_from env [j + 1..<n] certs tree1 h1 = Some (r2, certs, tree2, h2)" "r2 \<in> {0, 1, 2}"
    "tree_ok m certs j2 tree2 h2" "tr_nlevel tree2 = n" "hp_next h2 \<le> base + 2 * ?c ^ (n - 1)" by blast
  have u: "[j..<n] = j # [j + 1..<n]" using j(1) by (simp add: upt_conv_Cons)
  show ?case
  proof (cases "r = 1")
    case True
    then show ?thesis unfolding u using e(1) f by (auto simp del: upt_Suc)
  next
    case False
    have "hp_next h1 \<le> base + 2 * ?c ^ (n - 1)" using h1 up by simp
    then show ?thesis unfolding u using e(1-4) False Suc.prems(5) by (auto simp del: upt_Suc)
  qed
qed

section \<open>Building the tree\<close>

definition chain_cached :: "nat \<Rightarrow> nat set \<Rightarrow> 'q x509 list \<Rightarrow> bool" where
  "chain_cached m cs certs \<longleftrightarrow> (\<forall>c\<in>cs. cached m (certs ! c))"

lemma chain_cache_caches:
  assumes "all_got env" and "\<forall>x\<in>set certs. cert_ok m x" and "m < STACK_ROOM" and "c < length certs" and "chain_cached m cs certs"
  shows "\<exists>cache certs' k'. chain_cache env c certs k = Some (Some cache, certs', k') \<and> length certs' = length certs \<and>
    (\<forall>x\<in>set certs'. cert_ok m x) \<and> chain_cached m (insert c cs) certs'"
proof -
  obtain cache x k' where s: "policy_cache_set env (certs ! c) k = Some (Some cache, x, k')" "x_policy_cache x = Some cache" "cache_ok m m cache"
    using policy_cache_set_got[OF assms(1) _ assms(3)] assms(2,4) nth_mem by blast
  have "\<forall>y\<in>set (certs[c := x]). cert_ok m y" using assms(2) s(2,3) set_update_subset_insert[of certs c x] by (auto simp: cert_ok_def)
  moreover have "cached m x" using s(2,3) by (simp add: cached_def)
  then have "chain_cached m (insert c cs) (certs[c := x])"
    using assms(4,5) by (auto simp: chain_cached_def nth_list_update)
  ultimately show ?thesis using s(1) assms(4) by (simp add: chain_cache_def)
qed

lemma init_caches_ok:
  assumes "all_got env" and "m < STACK_ROOM"
  shows "\<forall>c\<in>set cs. c < length certs \<Longrightarrow> \<forall>x\<in>set certs. cert_ok m x \<Longrightarrow> chain_cached m done certs \<Longrightarrow> r \<in> {-1, 1, 2} \<Longrightarrow>
    \<exists>r' explicit' certs' k'. init_caches env cs r explicit certs k = Some (r', explicit', certs', k') \<and> r' \<in> {-1, 1, 2} \<and>
      length certs' = length certs \<and> (\<forall>x\<in>set certs'. cert_ok m x) \<and> chain_cached m (done \<union> set cs) certs'"
proof (induction cs arbitrary: r explicit certs k "done")
  case (Cons c cs)
  obtain cache certs1 k1 where c: "chain_cache env c certs k = Some (Some cache, certs1, k1)" "length certs1 = length certs"
    "\<forall>x\<in>set certs1. cert_ok m x" "chain_cached m (insert c done) certs1"
    using chain_cache_caches[OF assms(1) Cons.prems(2) assms(2) _ Cons.prems(3), of c k] Cons.prems(1) by auto
  let ?x = "certs1 ! c"
  let ?r = "if x_ex_flags ?x AND EXFLAG_INVALID_POLICY \<noteq> 0 then -1 else if r = 1 \<and> pc_data cache = None then 2 else r"
  let ?e = "if explicit > 0 then
      let explicit = (if x_ex_flags ?x AND EXFLAG_SI = 0 then explicit - 1 else explicit)
      in if pc_explicit_skip cache \<noteq> -1 \<and> pc_explicit_skip cache < explicit then pc_explicit_skip cache else explicit
    else explicit"
  have "\<forall>c\<in>set cs. c < length certs1" using Cons.prems(1) c(2) by simp
  moreover have "?r \<in> {-1, 1, 2}" using Cons.prems(4) by auto
  ultimately obtain r' e' certs' k' where i: "init_caches env cs ?r ?e certs1 k1 = Some (r', e', certs', k')" "r' \<in> {-1, 1, 2}"
    "length certs' = length certs1" "\<forall>x\<in>set certs'. cert_ok m x" "chain_cached m (insert c done \<union> set cs) certs'"
    using Cons.IH[OF _ c(3,4), of ?r ?e k1] by blast
  have "init_caches env (c # cs) r explicit certs k = init_caches env cs ?r ?e certs1 k1"
    using c(1) by (simp only: init_caches.simps bind.bind_lunit prod.case option.case Let_def)
  then show ?case using i c(2) by auto
qed simp

lemma inhibit_any_flag: "(f OR X509_V_FLAG_INHIBIT_ANY OR g) AND X509_V_FLAG_INHIBIT_ANY \<noteq> 0"
proof
  assume "(f OR X509_V_FLAG_INHIBIT_ANY OR g) AND X509_V_FLAG_INHIBIT_ANY = 0"
  then have "X509_V_FLAG_INHIBIT_ANY AND X509_V_FLAG_INHIBIT_ANY = 0" by (simp add: word_ao_dist or_zero_iff)
  then show False by (simp add: X509_V_FLAG_INHIBIT_ANY_def)
qed

lemma init_levels_ok:
  "\<forall>c\<in>set cs. c < length certs \<and> cached m (certs ! c) \<Longrightarrow> j + length cs = length lvs \<Longrightarrow>
    \<exists>lvs'. init_levels env cs any_skip map_skip j lvs certs k = Some (lvs', certs, k) \<and> length lvs' = length lvs \<and>
      (\<forall>i < length lvs. lv_nodes (lvs' ! i) = lv_nodes (lvs ! i) \<and> lv_anyPolicy (lvs' ! i) = lv_anyPolicy (lvs ! i)) \<and>
      (\<forall>i < j. lvs' ! i = lvs ! i) \<and> (\<forall>i. j \<le> i \<longrightarrow> i < length lvs \<longrightarrow> level_cert m certs (lvs' ! i))"
proof (induction cs arbitrary: any_skip map_skip j lvs)
  case (Cons c cs)
  obtain cache where c: "c < length certs" "x_policy_cache (certs ! c) = Some cache" "cache_ok m m cache"
    using Cons.prems(1) by (auto simp: cached_def)
  let ?x = "certs ! c"
  let ?ia = "pc_anyPolicy cache = None \<or> any_skip = 0 \<and> (x_ex_flags ?x AND EXFLAG_SI = 0 \<or> c = 0)"
  define lv where "lv = (lvs ! j)\<lparr>lv_cert := Some c, lv_flags := lv_flags (lvs ! j)
    OR (if ?ia then X509_V_FLAG_INHIBIT_ANY else 0) OR (if map_skip = 0 then X509_V_FLAG_INHIBIT_MAP else 0)\<rparr>"
  have j: "j < length lvs" "j + 1 + length cs = length (lvs[j := lv])" using Cons.prems(2) by simp_all
  have lv: "level_cert m certs lv"
    using c inhibit_any_flag by (auto simp: level_cert_def lv_def)
  obtain lvs' where i: "init_levels env cs (if any_skip = 0 then any_skip else skip_next any_skip (pc_any_skip cache) ?x)
       (if map_skip = 0 then map_skip else skip_next map_skip (pc_map_skip cache) ?x) (j + 1) (lvs[j := lv]) certs k = Some (lvs', certs, k)"
    "length lvs' = length (lvs[j := lv])"
    "\<forall>i < length (lvs[j := lv]). lv_nodes (lvs' ! i) = lv_nodes (lvs[j := lv] ! i) \<and> lv_anyPolicy (lvs' ! i) = lv_anyPolicy (lvs[j := lv] ! i)"
    "\<forall>i < j + 1. lvs' ! i = lvs[j := lv] ! i" "\<forall>i. j + 1 \<le> i \<longrightarrow> i < length (lvs[j := lv]) \<longrightarrow> level_cert m certs (lvs' ! i)"
    using Cons.IH[OF _ j(2), of "if any_skip = 0 then any_skip else skip_next any_skip (pc_any_skip cache) ?x"
      "if map_skip = 0 then map_skip else skip_next map_skip (pc_map_skip cache) ?x"] Cons.prems(1) by auto
  have e: "init_levels env (c # cs) any_skip map_skip j lvs certs k = Some (lvs', certs, k)"
    using chain_cache_set[OF c(1,2), of env k] i(1) by (simp add: Let_def lv_def[symmetric])
  have lvf: "lv_nodes lv = lv_nodes (lvs ! j)" "lv_anyPolicy lv = lv_anyPolicy (lvs ! j)" by (simp_all add: lv_def)
  have n: "lv_nodes (lvs[j := lv] ! i) = lv_nodes (lvs ! i) \<and> lv_anyPolicy (lvs[j := lv] ! i) = lv_anyPolicy (lvs ! i)" for i
    using j(1) by (cases "i = j") (simp_all add: lvf)
  have "level_cert m certs (lvs' ! i)" if "j \<le> i" "i < length lvs" for i
    using i(4,5) lv that j(1) by (cases "i = j") auto
  then show ?case using e i(2-4) n by auto
qed simp

lemma tree_inv_cong:
  assumes "tree_inv m xs lvs h" and "length lvs' = length lvs"
    and "\<forall>i < length lvs. lv_nodes (lvs' ! i) = lv_nodes (lvs ! i) \<and> lv_anyPolicy (lvs' ! i) = lv_anyPolicy (lvs ! i)"
  shows "tree_inv m xs lvs' h"
proof -
  have n: "level_nodes (lvs' ! i) = level_nodes (lvs ! i)" if "i < length lvs" for i using assms(3) that by (simp add: level_nodes_def)
  then have "other_nodes xs lvs' j = other_nodes xs lvs j" for j using assms(2) by (auto simp: other_nodes_def)
  then show ?thesis using assms n by (simp add: tree_inv_def level_inv_def level_ok_def)
qed

text \<open>The object that \<open>OBJ_nid2obj\<close> returns for the number of \<open>anyPolicy\<close> has that number.\<close>

definition any_known :: "policy_env \<Rightarrow> bool" where
  "any_known env \<longleftrightarrow> (\<forall>ob. OBJ_nid2obj (pe_dat env) (pe_gl env) NID_any_policy = Some ob \<longrightarrow> ob_nid ob = NID_any_policy)"

lemma OBJ_dup_nid: "OBJ_dup mem (Some ob) = Some r \<Longrightarrow> ob_nid r = ob_nid ob"
  by (auto simp: OBJ_dup_def Let_def split: if_splits option.splits)

lemma policy_data_new_nid:
  "policy_data_new env None (Some ob) crit k = (Some d, k') \<Longrightarrow> ob_nid (pd_valid_policy d) = ob_nid ob"
  by (auto simp: policy_data_new_def split: if_splits option.splits dest!: OBJ_dup_nid)

lemma is_any_nid: "ob_nid ob = NID_any_policy \<Longrightarrow> is_any_policy env ob"
  by (simp add: is_any_policy_def OBJ_obj2nid_def NID_any_policy_def)

lemma free_levels_empty: "free_levels (replicate n empty_level) h = Some h"
  by (induction n) (simp_all add: empty_level_def sk_pop_free_ex_def)

text \<open>The root: one node for \<open>anyPolicy\<close>, on a heap with no nodes.\<close>

lemma root_tree_inv:
  assumes "shape h = Map.empty" and "data_ok m data" and "0 < n"
  defines "h' \<equiv> with_node None data h"
  shows "tree_inv m {} ((replicate n empty_level)[0 := empty_level\<lparr>lv_anyPolicy := Some (hp_next h)\<rparr>]) h'"
proof -
  let ?lvs = "(replicate n empty_level)[0 := empty_level\<lparr>lv_anyPolicy := Some (hp_next h)\<rparr>]"
  have ok: "heap_ok h" using assms(1) by (simp add: heap_ok_def shape_None[symmetric] dom_def) (metis assms(1) shape_None option.distinct(1))
  have l: "level_nodes (?lvs ! i) = (if i = 0 then [hp_next h] else [])" "lv_nodes (?lvs ! i) = None" if "i < n" for i
    using that by (auto simp: nth_list_update level_nodes_def empty_level_def)
  have o: "other_nodes {} ?lvs j = (if j = 0 then {} else {hp_next h})" if "j < n" for j
    using l(1) assms(3) by (auto simp: other_nodes_def split: if_splits)
  show ?thesis
    using with_root_ok[OF ok] l o assms(1,2)
    by (auto simp: tree_inv_def level_inv_def level_ok_def h'_def with_node_shape)
qed

lemma root_add_node:
  assumes "all_got env" and "is_any_policy env (pd_valid_policy data)"
  shows "\<exists>s k. level_add_node env (Some empty_level) data None (Some None) h =
    Some (Some (hp_next h), Some (empty_level\<lparr>lv_anyPolicy := Some (hp_next h)\<rparr>), Some (Some s), with_node None data h\<lparr>hp_count := k\<rparr>) \<and>
    sk_wf s \<and> sk_num (Some s) = 1"
proof -
  obtain s :: "('a policy_data, unit) stack" and k where s: "push_new env None (Some data) None (hp_count h + 1) = (True, Some s, k)" "sk_wf s"
    "stack_items (Some s) = [Some data]"
    using push_new_got[OF assms(1), where sk = None and c = None and p = "Some data" and k = "hp_count h + 1"]
    by (auto simp: STACK_ROOM_def sk_num_def)
  moreover have "sk_num (Some s) = 1" using s(3) length_stack_items[of "Some s"] by simp
  ultimately have "level_add_node env (Some empty_level) data None (Some None) h =
      Some (Some (hp_next h), Some (empty_level\<lparr>lv_anyPolicy := Some (hp_next h)\<rparr>), Some (Some s), with_node None data h\<lparr>hp_count := k\<rparr>)"
    using assms(2) by (simp add: level_add_node_def got[OF assms(1)] Let_def level_link_def empty_level_def with_node_def)
  with s(2) \<open>sk_num (Some s) = 1\<close> show ?thesis by blast
qed

text \<open>What \<open>tree_init\<close> leaves: a tree with its root, or no tree and no nodes.\<close>

definition built :: "nat \<Rightarrow> 'q x509 list \<Rightarrow> 'q policy_tree option \<Rightarrow> 'q policy_heap \<Rightarrow> 'q policy_heap \<Rightarrow> bool" where
  "built m certs tree h h' \<longleftrightarrow> (case tree of
     None \<Rightarrow> shape h' = Map.empty
   | Some tree \<Rightarrow> tree_ok m certs 1 tree h' \<and> tr_nlevel tree = length certs \<and> 0 < length certs \<and>
       sk_num (lv_nodes (tr_levels tree ! 0)) = 0 \<and> hp_next h' = hp_next h + 1)"

lemma tree_build_ok:
  assumes "all_got env" and "any_known env" and "certs \<noteq> []" and "\<forall>c < length certs - 1. cached m (certs ! c)" and "shape h = Map.empty"
  shows "\<exists>r tree h'. tree_build env flags explicit certs h = Some (r, tree, certs, h') \<and> r \<in> {0, 1, 5} \<and> (r = 0 \<longleftrightarrow> tree = None) \<and>
    built m certs tree h h' \<and> hp_next h' \<le> hp_next h + 1"
proof -
  let ?n = "length certs" and ?any = "OBJ_nid2obj (pe_dat env) (pe_gl env) NID_any_policy"
  let ?t = "\<lparr>tr_levels = replicate ?n empty_level, tr_nlevel = ?n, tr_extra_data = None,
              tr_auth_policies = None, tr_user_policies = None, tr_flags = 0\<rparr> :: 'a policy_tree"
  have n: "0 < ?n" using assms(3) by simp
  show ?thesis
  proof (cases ?any)
    case None
    then show ?thesis
      using n assms(5) by (simp add: tree_build_def policy_data_new_def got[OF assms(1)] Let_def X509_policy_tree_free_def free_levels_empty built_def
          sk_pop_free_ex_def)
  next
    case (Some ob)
    obtain d :: "'a policy_data" and k where d: "policy_data_new env None (Some ob) False (hp_count h + 2) = (Some d, k)" "data_ok 0 d"
      using policy_data_new_got[OF assms(1), of None "Some ob"] by blast
    have "ob_nid ob = NID_any_policy" using assms(2) Some by (simp add: any_known_def)
    then have "ob_nid (pd_valid_policy d) = NID_any_policy" using policy_data_new_nid[OF d(1)] by simp
    then have any: "is_any_policy env (pd_valid_policy d)" by (rule is_any_nid)
    let ?h = "h\<lparr>hp_count := k\<rparr>"
    obtain s k1 where a: "level_add_node env (Some empty_level) d None (Some None) ?h =
      Some (Some (hp_next h), Some (empty_level\<lparr>lv_anyPolicy := Some (hp_next h)\<rparr>), Some (Some s), with_node None d ?h\<lparr>hp_count := k1\<rparr>)"
      "sk_wf s" "sk_num (Some s) = 1"
      using root_add_node[OF assms(1) any, of ?h] by auto
    let ?lvs = "(replicate ?n empty_level)[0 := empty_level\<lparr>lv_anyPolicy := Some (hp_next h)\<rparr>]"
    have inv: "tree_inv m {} ?lvs (with_node None d ?h)"
      using root_tree_inv[of ?h m d ?n] assms(5) data_ok_mono[OF d(2), of m] n by simp
    let ?cs = "rev [0..<?n - 1]"
    have cs: "\<forall>c\<in>set ?cs. c < length certs \<and> cached m (certs ! c)" "1 + length ?cs = length ?lvs" using assms(4) n by auto
    obtain lvs where l: "init_levels env ?cs (skip_start flags X509_V_FLAG_INHIBIT_ANY ?n) (skip_start flags X509_V_FLAG_INHIBIT_MAP ?n)
        1 ?lvs certs k1 = Some (lvs, certs, k1)" "length lvs = length ?lvs"
      "\<forall>i < length ?lvs. lv_nodes (lvs ! i) = lv_nodes (?lvs ! i) \<and> lv_anyPolicy (lvs ! i) = lv_anyPolicy (?lvs ! i)"
      "\<forall>i. 1 \<le> i \<longrightarrow> i < length ?lvs \<longrightarrow> level_cert m certs (lvs ! i)"
      using init_levels_ok[OF cs] by blast
    let ?h' = "with_node None d ?h\<lparr>hp_count := k1\<rparr>"
    let ?t' = "?t\<lparr>tr_levels := lvs, tr_extra_data := Some s\<rparr>"
    have "tree_inv m {} lvs ?h'" using tree_inv_cong[OF inv l(2,3)] by simp
    moreover have emp: "lv_nodes (?lvs ! i) = None" "0 < i \<Longrightarrow> lv_anyPolicy (?lvs ! i) = None" if "i < ?n" for i
      using that n by (cases "i = 0"; simp add: empty_level_def)+
    ultimately have "tree_ok m certs 1 ?t' ?h'"
      using l(2-4) a(2,3) by (simp add: tree_ok_def extra_ok_def with_node_shape)
    moreover have "sk_num (lv_nodes (lvs ! 0)) = 0" using l(3) emp(1)[of 0] n by (simp add: sk_num_def)
    ultimately have b: "built m certs (Some ?t') h ?h'" using n by (simp add: built_def with_node_shape)
    have "tree_build env flags explicit certs h = Some (if explicit \<noteq> 0 then 1 else 5, Some ?t', certs, ?h')"
      using n Some d(1) a(1) l(1) by (simp add: tree_build_def got[OF assms(1)] Let_def)
    then show ?thesis using b by (auto simp: with_node_shape)
  qed
qed

lemma tree_init_ok:
  assumes "all_got env" and "any_known env" and "certs \<noteq> []" and "\<forall>x\<in>set certs. cert_ok m x" and "m < STACK_ROOM" and "shape h = Map.empty"
  shows "\<exists>r tree certs' h'. tree_init env flags certs h = Some (r, tree, certs', h') \<and> r \<in> {-1, 0, 1, 2, 5, 6} \<and>
    built m certs' tree h h' \<and> length certs' = length certs \<and> (tree \<noteq> None \<longrightarrow> r \<in> {1, 5}) \<and> hp_next h' \<le> hp_next h + 1"
proof (cases "length certs = 1")
  case True
  then show ?thesis using assms(6) by (simp add: tree_init_def built_def)
next
  case False
  let ?n = "length certs"
  let ?cs = "rev [0..<?n - 1]"
  have cs: "\<forall>c\<in>set ?cs. c < ?n" using assms(3) by auto
  have d: "chain_cached m {} certs" "(1 :: int) \<in> {-1, 1, 2}" by (simp_all add: chain_cached_def)
  obtain r explicit certs' k where i: "init_caches env ?cs 1 (skip_start flags X509_V_FLAG_EXPLICIT_POLICY ?n) certs (hp_count h) =
      Some (r, explicit, certs', k)" "r \<in> {-1, 1, 2}" "length certs' = ?n" "chain_cached m ({} \<union> set ?cs) certs'"
    using init_caches_ok[OF assms(1,5) cs assms(4) d] by blast
  show ?thesis
  proof (cases "r = 1")
    case False
    then show ?thesis using \<open>?n \<noteq> 1\<close> i assms(6) by (auto simp: tree_init_def Let_def built_def)
  next
    case True
    have c: "\<forall>c < length certs' - 1. cached m (certs' ! c)" "certs' \<noteq> []" using i(3,4) assms(3) by (auto simp: chain_cached_def)
    have "shape (h\<lparr>hp_count := k\<rparr>) = Map.empty" using assms(6) by simp
    from tree_build_ok[OF assms(1,2) c(2,1) this, of flags explicit] i True \<open>?n \<noteq> 1\<close> show ?thesis
      by (fastforce simp: tree_init_def Let_def built_def split: option.splits)
  qed
qed

end
