(* ===== verification/Policy_Sets.thy ===== *)
theory Policy_Sets
  imports Policy_Safe
begin

text \<open>
  The authority and user sets, releasing the tree, and the check of a chain as a whole: with enough memory
  it comes back, and \<open>X509_policy_tree_free\<close> frees every node exactly once.
\<close>

section \<open>Sets of nodes\<close>

definition node_set :: "nat set \<Rightarrow> nat \<Rightarrow> node_stack \<Rightarrow> bool" where
  "node_set live n sk \<longleftrightarrow> stack_wf sk \<and> sk_num sk \<le> n \<and> (\<forall>e\<in>set (stack_items sk). \<exists>a\<in>live. e = Some a)"

lemma node_set_None [simp]: "node_set live n None"
  by (simp add: node_set_def sk_num_def)

lemma node_set_live:
  assumes "node_set live n sk" and "live \<subseteq> dom (shape h)"
  shows "nodes_live h sk"
proof -
  have "node_at h e \<noteq> None" if e: "e \<in> set (stack_items sk)" for e
  proof -
    obtain a where "a \<in> live" "e = Some a" using assms(1) e unfolding node_set_def by blast
    moreover from this have "a \<in> dom (shape h)" using assms(2) by blast
    ultimately show ?thesis by (auto simp: node_at_def shape_def)
  qed
  then show ?thesis by (simp add: nodes_live_def list_all_iff)
qed

lemma node_sort_ok:
  assumes "node_set live n sk" and "live \<subseteq> dom (shape h)"
  shows "\<exists>sk'. node_sort h sk = Some sk' \<and> node_set live n sk'"
proof -
  have wf: "stack_wf sk" using assms(1) by (simp add: node_set_def)
  have "node_set live n (sk_sort qsort (node_cmp h) sk)"
    using assms(1) sk_sort_items[OF wf, of "node_cmp h"] sk_num_sort[OF wf, of "node_cmp h"]
    by (auto simp: node_set_def dest!: mset_eq_setD)
  then show ?thesis using node_set_live[OF assms] by (simp add: node_sort_def)
qed

lemma node_find_ok:
  assumes "node_set live n sk" and "live \<subseteq> dom (shape h)" and "a \<in> dom (shape h)"
  shows "\<exists>r. node_find h (Some a) sk = Some r \<and> (\<forall>i. r = Some i \<longrightarrow> i < sk_num sk)"
proof -
  have "node_at h (Some a) \<noteq> None" using assms(3) by (auto simp: node_at_def shape_def)
  then show ?thesis using node_set_live[OF assms(1,2)] sk_find_returns[of "node_cmp h" "Some a" sk] by (simp add: node_find_def)
qed

lemma node_set_push:
  assumes "all_got env" and "node_set live n sk" and "a \<in> live" and "n < STACK_ROOM"
  shows "\<exists>sk' k'. push_new env c (Some a) sk k = (True, sk', k') \<and> node_set live (n + 1) sk' \<and>
    stack_items sk' = stack_items sk @ [Some a]"
proof -
  obtain s k' where s: "push_new env c (Some a) sk k = (True, Some s, k')" "sk_wf s" "stack_items (Some s) = stack_items sk @ [Some a]"
    using push_new_got[OF assms(1), where sk = sk and c = c and p = "Some a" and k = k] assms(2,4) by (auto simp: node_set_def)
  have "sk_num (Some s) = sk_num sk + 1" using s(3) by (metis length_append_singleton length_stack_items Suc_eq_plus1)
  then show ?thesis using s assms(2,3) by (auto simp: node_set_def)
qed

lemma tree_add_auth_node_ok:
  assumes "all_got env" and "node_set live n sk" and "live \<subseteq> dom (shape h)" and "a \<in> live" and "n < STACK_ROOM"
  shows "\<exists>sk' k. tree_add_auth_node env sk (Some a) h = Some (True, sk', h\<lparr>hp_count := k\<rparr>) \<and> node_set live (n + 1) sk'"
proof (cases sk)
  case None
  then show ?thesis using node_set_push[OF assms(1,2,4,5), of "Some ()" "hp_count h"] by (auto simp: tree_add_auth_node_def)
next
  case (Some s)
  obtain sk1 where s1: "node_sort h sk = Some sk1" "node_set live n sk1" using node_sort_ok[OF assms(2,3)] by blast
  obtain r where r: "node_find h (Some a) sk1 = Some r" using node_find_ok[OF s1(2) assms(3)] assms(3,4) by blast
  obtain sk2 k where p: "push_new env (Some ()) (Some a) sk1 (hp_count h) = (True, sk2, k)" "node_set live (n + 1) sk2"
    using node_set_push[OF assms(1) s1(2) assms(4,5), of "Some ()" "hp_count h"] by blast
  have n: "node_set live (n + 1) sk1" using s1(2) by (auto simp: node_set_def)
  have e: "tree_add_auth_node env sk (Some a) h =
      Some (True, if r = None then sk2 else sk1, h\<lparr>hp_count := if r = None then k else hp_count h\<rparr>)"
    using Some s1(1) r p(1) by (cases r) (simp_all add: tree_add_auth_node_def)
  show ?thesis
    by (rule exI[of _ "if r = None then sk2 else sk1"], rule exI[of _ "if r = None then k else hp_count h"])
      (use e p(2) n in simp)
qed

text \<open>The nodes of a list of levels are among the live ones.\<close>

definition levels_in :: "nat set \<Rightarrow> policy_level list \<Rightarrow> bool" where
  "levels_in live lvs \<longleftrightarrow> (\<forall>lv\<in>set lvs. set (level_nodes lv) \<subseteq> live \<and> None \<notin> set (stack_items (lv_nodes lv)))"

lemma add_children_ok:
  assumes "all_got env"
  shows "node_set live n sk \<Longrightarrow> live \<subseteq> dom (shape h) \<Longrightarrow> \<forall>e\<in>set as. \<exists>a\<in>live. e = Some a \<Longrightarrow> n + length as \<le> STACK_ROOM \<Longrightarrow>
    \<exists>sk' k. add_children env anyptr as sk h = Some (True, sk', h\<lparr>hp_count := k\<rparr>) \<and> node_set live (n + length as) sk'"
proof (induction as arbitrary: n sk h)
  case Nil
  have "h\<lparr>hp_count := hp_count h\<rparr> = h" by simp
  then show ?case using Nil by (intro exI[of _ sk] exI[of _ "hp_count h"]) simp
next
  case (Cons e as)
  obtain a where a: "e = Some a" "a \<in> live" using Cons.prems(3) by auto
  then obtain node where node: "hp_node h a = Some node" using Cons.prems(2) by (auto simp: shape_def)
  show ?case
  proof (cases "nd_parent node = Some anyptr")
    case True
    obtain sk1 k where s: "tree_add_auth_node env sk (Some a) h = Some (True, sk1, h\<lparr>hp_count := k\<rparr>)" "node_set live (n + 1) sk1"
      using tree_add_auth_node_ok[OF assms Cons.prems(1,2) a(2)] Cons.prems(4) by auto
    obtain sk2 k2 where "add_children env anyptr as sk1 (h\<lparr>hp_count := k\<rparr>) = Some (True, sk2, h\<lparr>hp_count := k\<rparr>\<lparr>hp_count := k2\<rparr>)"
      "node_set live (n + 1 + length as) sk2"
      using Cons.IH[OF s(2), of "h\<lparr>hp_count := k\<rparr>"] Cons.prems(2-4) by auto
    then show ?thesis using a(1) node True s(1) by (auto simp: node_at_def)
  next
    case False
    obtain sk2 k2 where "add_children env anyptr as sk h = Some (True, sk2, h\<lparr>hp_count := k2\<rparr>)" "node_set live (n + length as) sk2"
      using Cons.IH[OF Cons.prems(1,2)] Cons.prems(3,4) by auto
    then show ?thesis using a(1) node False by (auto simp: node_at_def node_set_def)
  qed
qed

lemma level_items_in:
  assumes "levels_in live lvs" and "lv \<in> set lvs"
  shows "\<forall>e\<in>set (stack_items (lv_nodes lv)). \<exists>a\<in>live. e = Some a"
proof
  fix e assume e: "e \<in> set (stack_items (lv_nodes lv))"
  have "None \<notin> set (stack_items (lv_nodes lv))" using assms by (simp add: levels_in_def)
  with e obtain a where a: "e = Some a" by (metis not_None_eq)
  then have "a \<in> set (map the (stack_items (lv_nodes lv)))" using image_eqI[of a the e, OF _ e] by simp
  then show "\<exists>a\<in>live. e = Some a" using assms a by (auto simp: levels_in_def level_nodes_def)
qed

definition level_sizes :: "policy_level list \<Rightarrow> nat" where
  "level_sizes lvs = sum_list (map (\<lambda>lv. sk_num (lv_nodes lv)) lvs)"

lemma authority_levels_ok:
  assumes "all_got env"
  shows "levels_in live lvs \<Longrightarrow> node_set live n sk \<Longrightarrow> live \<subseteq> dom (shape h) \<Longrightarrow> n + level_sizes (tl lvs) \<le> STACK_ROOM \<Longrightarrow>
    \<exists>sk' k. authority_levels env lvs sk h = Some (True, sk', h\<lparr>hp_count := k\<rparr>) \<and> node_set live (n + level_sizes (tl lvs)) sk'"
proof (induction lvs arbitrary: n sk h rule: induct_list012)
  case 1
  have "h\<lparr>hp_count := hp_count h\<rparr> = h" by simp
  then show ?case using 1 by (intro exI[of _ sk] exI[of _ "hp_count h"]) (simp add: level_sizes_def)
next
  case (2 lv)
  have "h\<lparr>hp_count := hp_count h\<rparr> = h" by simp
  then show ?case using 2 by (intro exI[of _ sk] exI[of _ "hp_count h"]) (simp add: level_sizes_def)
next
  case (3 lv below lvs)
  have same: "h\<lparr>hp_count := hp_count h\<rparr> = h" by simp
  have big: "node_set live (n + level_sizes (tl (lv # below # lvs))) sk" using 3(4) by (auto simp: node_set_def)
  show ?case
  proof (cases "lv_anyPolicy lv")
    case None
    then show ?thesis using same big by (intro exI[of _ sk] exI[of _ "hp_count h"]) simp
  next
    case (Some anyptr)
    let ?as = "stack_items (lv_nodes below)"
    have len: "length ?as = sk_num (lv_nodes below)" by (rule length_stack_items)
    obtain sk1 k where s: "add_children env anyptr ?as sk h = Some (True, sk1, h\<lparr>hp_count := k\<rparr>)" "node_set live (n + length ?as) sk1"
      using add_children_ok[OF assms 3(4,5) level_items_in[OF 3(3), of below], of anyptr] 3(6) len by (auto simp: level_sizes_def)
    have "levels_in live (below # lvs)" using 3(3) by (simp add: levels_in_def)
    then obtain sk2 k2 where "authority_levels env (below # lvs) sk1 (h\<lparr>hp_count := k\<rparr>) = Some (True, sk2, h\<lparr>hp_count := k\<rparr>\<lparr>hp_count := k2\<rparr>)"
      "node_set live (n + length ?as + level_sizes lvs) sk2"
      using 3(2)[OF _ s(2), of "h\<lparr>hp_count := k\<rparr>"] 3(5,6) len by (auto simp: level_sizes_def)
    then show ?thesis using Some s(1) len by (auto simp: level_sizes_def add.assoc)
  qed
qed

lemma tree_find_sk_ok:
  assumes "heap_ok h" and "node_set live n auth" and "live \<subseteq> dom (shape h)"
  shows "\<exists>r auth'. tree_find_sk h auth oid = Some (r, auth') \<and> node_set live n auth' \<and> (\<forall>a. r = Some a \<longrightarrow> a \<in> live)"
proof -
  obtain sk where s: "node_sort h auth = Some sk" "node_set live n sk" using node_sort_ok[OF assms(2,3)] by blast
  let ?n = "\<lparr>pd_flags = 0, pd_valid_policy = oid, pd_qualifier_set = None, pd_expected_policy_set = None\<rparr> :: 'a policy_data"
  let ?l = "h\<lparr>hp_node := (hp_node h)(hp_next h \<mapsto> \<lparr>nd_data = ?n, nd_parent = None, nd_nchild = 0\<rparr>)\<rparr>"
  have sh: "shape ?l = (shape h)(hp_next h \<mapsto> (?n, None))" by (auto simp: shape_def)
  then obtain r where r: "node_find ?l (Some (hp_next h)) sk = Some r" "\<forall>i. r = Some i \<longrightarrow> i < sk_num sk"
    using node_find_ok[OF s(2), of ?l "hp_next h"] assms(3) by auto
  have v: "\<exists>a\<in>live. sk_value sk i = Some a" if "i < sk_num sk" for i
    using s(2) that nth_mem[of i "stack_items sk"] by (auto simp: node_set_def sk_value_items length_stack_items)
  have "tree_find_sk h auth oid = Some (case r of None \<Rightarrow> None | Some i \<Rightarrow> sk_value sk i, sk)"
    using s(1) r(1) by (simp add: tree_find_sk_def Let_def)
  moreover have "\<forall>a. (case r of None \<Rightarrow> None | Some i \<Rightarrow> sk_value sk i) = Some a \<longrightarrow> a \<in> live"
    using r(2) v by (cases r) (simp, metis option.case(2) option.inject)
  ultimately show ?thesis using s(2) by blast
qed

section \<open>The user set\<close>

text \<open>
  The nodes of the levels, \<open>live\<close>, and the extra nodes, \<open>xs\<close>: only the data of the latter are marked as
  extra, and each is in the user set once.
\<close>

definition user_inv :: "nat set \<Rightarrow> nat set \<Rightarrow> node_stack \<Rightarrow> 'q policy_heap \<Rightarrow> bool" where
  "user_inv live xs user h \<longleftrightarrow> heap_ok h \<and> dom (shape h) = live \<union> xs \<and> live \<inter> xs = {} \<and>
     (\<forall>a d p. shape h a = Some (d, p) \<longrightarrow> (pd_flags d AND POLICY_DATA_FLAG_EXTRA_NODE \<noteq> 0 \<longleftrightarrow> a \<in> xs)) \<and>
     stack_wf user \<and> (\<forall>e\<in>set (stack_items user). \<exists>a\<in>live \<union> xs. e = Some a) \<and>
     xs \<subseteq> set (map the (stack_items user)) \<and> distinct (filter (\<lambda>a. a \<in> xs) (map the (stack_items user)))"

lemma user_inv_count [simp]: "user_inv live xs user (h\<lparr>hp_count := k\<rparr>) \<longleftrightarrow> user_inv live xs user h"
  by (simp add: user_inv_def)

lemma user_inv_items: "user_inv live xs user h \<Longrightarrow> e \<in> set (stack_items user) \<Longrightarrow> \<exists>a\<in>live \<union> xs. e = Some a"
  unfolding user_inv_def by (elim conjE) (erule (1) bspec)

lemma user_inv_extra: "user_inv live xs user h \<Longrightarrow> xs \<subseteq> set (map the (stack_items user))"
  unfolding user_inv_def by (elim conjE)

lemma extra_flags: "(POLICY_DATA_FLAG_SHARED_QUALIFIERS OR POLICY_DATA_FLAG_EXTRA_NODE) AND POLICY_DATA_FLAG_EXTRA_NODE \<noteq> 0"
  by (simp add: POLICY_DATA_FLAG_SHARED_QUALIFIERS_def POLICY_DATA_FLAG_EXTRA_NODE_def)

text \<open>A node that is in no level is added beside \<open>anyPolicy\<close>.\<close>

lemma level_add_extra_ok:
  assumes "all_got env" and "heap_ok h" and "\<forall>p. parent = Some p \<longrightarrow> p \<in> dom (shape h)" and "extra_ok extra h" and "hp_next h < STACK_ROOM"
  shows "\<exists>extra' h'. level_add_node env None data parent (Some extra) h = Some (Some (hp_next h), None, Some extra', h') \<and>
    heap_ok h' \<and> shape h' = (shape h)(hp_next h \<mapsto> (data, parent)) \<and> extra_ok extra' h' \<and> hp_next h' = hp_next h + 1"
proof -
  have e: "stack_wf extra" "sk_num extra < STACK_ROOM" "sk_num extra \<le> hp_next h" using assms(4,5) by (auto simp: extra_ok_def)
  obtain s k where s: "push_new env None (Some data) extra (hp_count h + 1) = (True, Some s, k)" "sk_wf s"
    "stack_items (Some s) = stack_items extra @ [Some data]"
    using push_new_got[OF assms(1) e(1,2), where c = None and p = "Some data" and k = "hp_count h + 1"] by blast
  have n: "sk_num (Some s) = sk_num extra + 1" using s(3) by (metis length_append_singleton length_stack_items Suc_eq_plus1)
  show ?thesis
  proof (cases parent)
    case None
    have "level_add_node env None data parent (Some extra) h =
        Some (Some (hp_next h), None, Some (Some s), with_node None data h\<lparr>hp_count := k\<rparr>)"
      using None s(1) by (simp add: level_add_node_def got[OF assms(1)] Let_def with_node_def)
    then show ?thesis using None with_root_ok[OF assms(2), of data] s(2) n e(3) by (simp add: with_node_shape extra_ok_def)
  next
    case (Some p)
    obtain h' where h': "child_add 1 (Some p) (with_node (Some p) data h\<lparr>hp_count := k\<rparr>) = Some h'" "heap_ok h'"
      "shape h' = (shape h)(hp_next h \<mapsto> (data, Some p))" "hp_next h' = hp_next h + 1"
      using with_child_ok[OF assms(2), where p = p and data = data and k = k] assms(3) Some by blast
    then have "level_add_node env None data parent (Some extra) h = Some (Some (hp_next h), None, Some (Some s), h')"
      using Some s(1) by (simp add: level_add_node_def got[OF assms(1)] Let_def with_node_def)
    then show ?thesis using Some h' s(2) n e(3) by (simp add: extra_ok_def)
  qed
qed

lemma push_user:
  assumes "all_got env" and "user_inv live xs user h" and "sk_num user < STACK_ROOM"
  shows "\<exists>s k'. push_new env None (Some a) user k = (True, Some s, k') \<and> sk_wf s \<and>
    stack_items (Some s) = stack_items user @ [Some a] \<and> sk_num (Some s) = sk_num user + 1"
proof -
  have "stack_wf user" using assms(2) by (simp add: user_inv_def)
  from push_new_got[OF assms(1) this assms(3), where c = None and p = "Some a" and k = k]
  show ?thesis by (metis length_append_singleton length_stack_items Suc_eq_plus1)
qed

lemma user_push_live:
  assumes "user_inv live xs user h" and "a \<in> live" and "sk_wf s" and "stack_items (Some s) = stack_items user @ [Some a]"
  shows "user_inv live xs (Some s) h"
proof -
  have "a \<notin> xs" using assms(1,2) by (auto simp: user_inv_def)
  then show ?thesis using assms by (auto simp: user_inv_def)
qed

lemma user_push_extra:
  assumes "user_inv live xs user h" and "heap_ok h'" and "shape h' = (shape h)(a \<mapsto> (d, p))" and "shape h a = None"
    and "pd_flags d AND POLICY_DATA_FLAG_EXTRA_NODE \<noteq> 0" and "sk_wf s" and "stack_items (Some s) = stack_items user @ [Some a]"
  shows "user_inv live (insert a xs) (Some s) h'"
proof -
  have a: "a \<notin> live \<union> xs" using assms(1,4) by (auto simp: user_inv_def)
  have u1: "\<forall>e\<in>set (stack_items user). \<exists>b\<in>live \<union> xs. e = Some b" by (rule ballI) (rule user_inv_items[OF assms(1)])
  have u2: "xs \<subseteq> set (map the (stack_items user))" by (rule user_inv_extra[OF assms(1)])
  note u = u1 u2
  have "b \<in> live \<union> xs" if b: "b \<in> set (map the (stack_items user))" for b
  proof -
    obtain e where e: "e \<in> set (stack_items user)" "b = the e" using b by auto
    then obtain b' where "b' \<in> live \<union> xs" "e = Some b'" using u1 by blast
    then show ?thesis using e(2) by simp
  qed
  then have "filter (\<lambda>b. b \<in> insert a xs) (map the (stack_items user)) = filter (\<lambda>b. b \<in> xs) (map the (stack_items user))"
    using a by (intro filter_cong) auto
  then have "distinct (filter (\<lambda>b. b \<in> insert a xs) (map the (stack_items (Some s))))"
    using assms(1,7) a by (simp add: user_inv_def)
  moreover have "\<forall>e\<in>set (stack_items (Some s)). \<exists>b\<in>live \<union> insert a xs. e = Some b"
    "insert a xs \<subseteq> set (map the (stack_items (Some s)))"
    using u by (auto simp: assms(7))
  moreover have "\<forall>b d p. shape h' b = Some (d, p) \<longrightarrow> (pd_flags d AND POLICY_DATA_FLAG_EXTRA_NODE \<noteq> 0 \<longleftrightarrow> b \<in> insert a xs)"
    using assms(1,5) a by (auto simp: user_inv_def assms(3))
  moreover have "dom (shape h') = live \<union> insert a xs" "live \<inter> insert a xs = {}" using assms(1) a by (auto simp: user_inv_def assms(3))
  ultimately show ?thesis using assms(2,6) by (simp add: user_inv_def)
qed

lemma user_policies_ok:
  assumes "all_got env" and "\<forall>a. anyPolicy = Some a \<longrightarrow> a \<in> live"
  shows "user_inv live xs (tr_user_policies tree) h \<Longrightarrow> node_set live n auth \<Longrightarrow> extra_ok (tr_extra_data tree) h \<Longrightarrow> None \<notin> set ps \<Longrightarrow>
    hp_next h + length ps \<le> STACK_ROOM \<Longrightarrow> sk_num (tr_user_policies tree) + length ps \<le> STACK_ROOM \<Longrightarrow>
    \<exists>auth' tree' h' xs'. user_policies env anyPolicy ps auth tree h = Some (1, auth', tree', h') \<and>
      user_inv live xs' (tr_user_policies tree') h' \<and> tr_levels tree' = tr_levels tree \<and> tr_nlevel tree' = tr_nlevel tree \<and>
      hp_next h' \<le> hp_next h + length ps"
proof (induction ps arbitrary: xs tree h auth)
  case Nil
  then show ?case by auto
next
  case (Cons e ps)
  obtain oid where oid: "e = Some oid" using Cons.prems(4) by (cases e) auto
  have h: "heap_ok h" "live \<subseteq> dom (shape h)" using Cons.prems(1) by (auto simp: user_inv_def)
  obtain r auth1 where f: "tree_find_sk h auth oid = Some (r, auth1)" "node_set live n auth1" "\<forall>a. r = Some a \<longrightarrow> a \<in> live"
    using tree_find_sk_ok[OF h(1) Cons.prems(2) h(2)] by blast
  have ps: "None \<notin> set ps" "hp_next h + length ps \<le> STACK_ROOM" "sk_num (tr_user_policies tree) + length ps \<le> STACK_ROOM"
    using Cons.prems(4-6) by auto
  have room: "sk_num (tr_user_policies tree) < STACK_ROOM" using Cons.prems(6) by simp
  have same: "tree\<lparr>tr_extra_data := tr_extra_data tree\<rparr> = tree" by simp
  consider (found) a where "r = Some a" | (skip) "r = None" "anyPolicy = None" | (extra) a where "r = None" "anyPolicy = Some a"
    by (cases r; cases anyPolicy) auto
  then show ?case
  proof cases
    case found
    obtain s k where s: "push_new env None (Some a) (tr_user_policies tree) (hp_count h) = (True, Some s, k)" "sk_wf s"
      "stack_items (Some s) = stack_items (tr_user_policies tree) @ [Some a]" "sk_num (Some s) = sk_num (tr_user_policies tree) + 1"
      using push_user[OF assms(1) Cons.prems(1) room] by blast
    let ?t = "tree\<lparr>tr_user_policies := Some s\<rparr>" and ?h = "h\<lparr>hp_count := k\<rparr>"
    have "a \<in> live" using f(3) found by simp
    then have "user_inv live xs (tr_user_policies ?t) ?h" using user_push_live[OF Cons.prems(1) _ s(2,3)] by simp
    moreover have "user_policies env anyPolicy (e # ps) auth tree h = user_policies env anyPolicy ps auth1 ?t ?h"
      using oid f(1) found s(1) by (simp add: user_node_def Let_def same)
    ultimately show ?thesis
      using Cons.IH[of xs ?t ?h auth1] f(2) Cons.prems(3,6) ps(1,2) s(4) by fastforce
  next
    case skip
    have "user_policies env anyPolicy (e # ps) auth tree h = user_policies env anyPolicy ps auth1 tree h"
      using oid f(1) skip by (simp add: user_node_def Let_def same)
    then show ?thesis using Cons.IH[OF Cons.prems(1) f(2) Cons.prems(3) ps] by fastforce
  next
    case extra
    then have "a \<in> dom (shape h)" using assms(2) h(2) by blast
    then obtain node where node: "hp_node h a = Some node" by (auto simp: shape_def)
    then have sa: "shape h a = Some (nd_data node, nd_parent node)" by (simp add: shape_def)
    obtain d :: "'a policy_data" and k where d: "policy_data_new env None (Some oid) (node_critical node) (hp_count h) = (Some d, k)"
      using policy_data_new_got[OF assms(1), of None "Some oid"] by blast
    define data where "data = d\<lparr>pd_qualifier_set := pd_qualifier_set (nd_data node),
      pd_flags := POLICY_DATA_FLAG_SHARED_QUALIFIERS OR POLICY_DATA_FLAG_EXTRA_NODE\<rparr>"
    have par: "\<forall>p. nd_parent node = Some p \<longrightarrow> p \<in> dom (shape (h\<lparr>hp_count := k\<rparr>))"
      using h(1) sa unfolding heap_ok_def by (metis shape_count)
    have hk: "heap_ok (h\<lparr>hp_count := k\<rparr>)" "extra_ok (tr_extra_data tree) (h\<lparr>hp_count := k\<rparr>)" "hp_next (h\<lparr>hp_count := k\<rparr>) < STACK_ROOM"
      using h(1) Cons.prems(3,5) by simp_all
    obtain extra' h' where l: "level_add_node env None data (nd_parent node) (Some (tr_extra_data tree)) (h\<lparr>hp_count := k\<rparr>) =
        Some (Some (hp_next h), None, Some extra', h')" "heap_ok h'" "shape h' = (shape h)(hp_next h \<mapsto> (data, nd_parent node))"
      "extra_ok extra' h'" "hp_next h' = hp_next h + 1"
      using level_add_extra_ok[OF assms(1) hk(1) par hk(2,3), of data] by auto
    obtain s k2 where s: "push_new env None (Some (hp_next h)) (tr_user_policies tree) (hp_count h') = (True, Some s, k2)" "sk_wf s"
      "stack_items (Some s) = stack_items (tr_user_policies tree) @ [Some (hp_next h)]" "sk_num (Some s) = sk_num (tr_user_policies tree) + 1"
      using push_user[OF assms(1) Cons.prems(1) room] by blast
    let ?t = "tree\<lparr>tr_extra_data := extra', tr_user_policies := Some s\<rparr>" and ?h = "h'\<lparr>hp_count := k2\<rparr>"
    have "pd_flags data AND POLICY_DATA_FLAG_EXTRA_NODE \<noteq> 0" using extra_flags by (simp add: data_def)
    then have "user_inv live (insert (hp_next h) xs) (tr_user_policies ?t) ?h"
      using user_push_extra[OF Cons.prems(1) l(2,3) fresh_address[OF h(1)] _ s(2,3)] by simp
    moreover have "user_policies env anyPolicy (e # ps) auth tree h = user_policies env anyPolicy ps auth1 ?t ?h"
      using oid f(1) extra s(1) node d l(1) by (simp add: user_node_def Let_def data_def[symmetric])
    ultimately show ?thesis
      using Cons.IH[of "insert (hp_next h) xs" ?t ?h auth1] f(2) Cons.prems(5,6) ps(1) l(4,5) s(4) by fastforce
  qed
qed

section \<open>Releasing the tree\<close>

lemma free_nodes_ok:
  assumes "\<forall>a\<in>set as. hp_node h a \<noteq> None" and "distinct (filter (\<lambda>a. which (the (hp_node h a))) as)"
  shows "\<exists>h'. free_nodes which as h = Some h' \<and>
    hp_node h' = (\<lambda>a. if a \<in> set as \<and> which (the (hp_node h a)) then None else hp_node h a) \<and> hp_next h' = hp_next h"
  using assms
proof (induction as arbitrary: h)
  case (Cons a as)
  obtain node where node: "hp_node h a = Some node" using Cons.prems(1) by auto
  show ?case
  proof (cases "which node")
    case False
    then show ?thesis using Cons.IH[of h] Cons.prems node by (auto simp: fun_eq_iff)
  next
    case True
    let ?h = "h\<lparr>hp_node := (hp_node h)(a := None)\<rparr>"
    have a: "a \<notin> set as" using Cons.prems(2) node True by auto
    then have n: "hp_node ?h b = hp_node h b" if "b \<in> set as" for b using that by auto
    have "filter (\<lambda>b. which (the (hp_node ?h b))) as = filter (\<lambda>b. which (the (hp_node h b))) as"
      using n by (intro filter_cong) simp_all
    then have "distinct (filter (\<lambda>b. which (the (hp_node ?h b))) as)" using Cons.prems(2) by (simp split: if_splits)
    then obtain h' where h': "free_nodes which as ?h = Some h'"
      "hp_node h' = (\<lambda>b. if b \<in> set as \<and> which (the (hp_node ?h b)) then None else hp_node ?h b)" "hp_next h' = hp_next ?h"
      using Cons.IH[of ?h] Cons.prems(1) n by auto
    have "free_nodes which (a # as) h = Some h'" using node True h'(1) by (simp add: policy_node_free_def)
    moreover have "hp_node h' = (\<lambda>b. if b \<in> set (a # as) \<and> which (the (hp_node h b)) then None else hp_node h b)"
      using a node True by (auto simp: h'(2) fun_eq_iff)
    ultimately show ?thesis using h'(3) by auto
  qed
qed simp

lemma free_nodes_append: "free_nodes which (as @ bs) h = do { h \<leftarrow> free_nodes which as h; free_nodes which bs h }"
  by (induction as arbitrary: h) (auto split: option.split bind_splits)

lemma pop_free_items:
  assumes "stack_wf sk" and "None \<notin> set (stack_items sk)"
  shows "sk_pop_free_ex sk = map the (stack_items sk)"
proof (cases sk)
  case (Some s)
  have "List.map_filter (\<lambda>e. e) xs = map the xs" if "None \<notin> set xs" for xs :: "'a option list"
    using that by (induction xs) (auto simp: List.map_filter_simps split: option.split, metis option.exhaust)
  then show ?thesis using assms Some sk_pop_free_ex_all[of s] by (simp add: stack_items_Some)
qed (simp add: sk_pop_free_ex_def)

lemma free_levels_nodes:
  fixes h :: "'q policy_heap"
  assumes "\<forall>lv\<in>set lvs. stack_wf (lv_nodes lv) \<and> None \<notin> set (stack_items (lv_nodes lv))"
  shows "free_levels lvs h = free_nodes (\<lambda>_. True) (concat (map level_nodes lvs)) h"
  using assms
proof (induction lvs arbitrary: h)
  case (Cons lv lvs)
  have p: "sk_pop_free_ex (lv_nodes lv) = map the (stack_items (lv_nodes lv))" using pop_free_items[of "lv_nodes lv"] Cons.prems by simp
  have one: "policy_node_free a h = free_nodes (\<lambda>_. True) [a] h" for a and h :: "'q policy_heap"
    by (auto simp: policy_node_free_def split: option.split)
  have e: "concat (map level_nodes (lv # lvs)) = map the (stack_items (lv_nodes lv)) @
      (case lv_anyPolicy lv of None \<Rightarrow> [] | Some a \<Rightarrow> [a]) @ concat (map level_nodes lvs)"
    by (simp add: level_nodes_def)
  have ih: "free_levels lvs h = free_nodes (\<lambda>_. True) (concat (map level_nodes lvs)) h" for h :: "'q policy_heap"
    using Cons by simp
  show ?case
    unfolding e free_nodes_append by (cases "lv_anyPolicy lv") (simp_all add: p ih one del: free_nodes.simps(2))
qed simp

lemma distinct_concat_nth:
  "\<forall>i < length xss. distinct (xss ! i) \<Longrightarrow> \<forall>i j. i < j \<longrightarrow> j < length xss \<longrightarrow> set (xss ! i) \<inter> set (xss ! j) = {} \<Longrightarrow> distinct (concat xss)"
proof (induction xss)
  case (Cons xs xss)
  have "\<forall>i < length xss. distinct (xss ! i)" using Cons.prems(1) by (metis Suc_less_eq length_Cons nth_Cons_Suc)
  moreover have "\<forall>i j. i < j \<longrightarrow> j < length xss \<longrightarrow> set (xss ! i) \<inter> set (xss ! j) = {}"
    using Cons.prems(2) by (metis Suc_less_eq length_Cons nth_Cons_Suc)
  ultimately have "distinct (concat xss)" using Cons.IH by blast
  moreover have "set xs \<inter> set (xss ! j) = {}" if "j < length xss" for j
    using Cons.prems(2)[rule_format, of 0 "Suc j"] that by simp
  then have "\<forall>ys\<in>set xss. set xs \<inter> set ys = {}" by (metis in_set_conv_nth)
  then have "set xs \<inter> set (concat xss) = {}" by auto
  moreover have "distinct xs" using Cons.prems(1) by force
  ultimately show ?case by simp
qed simp

text \<open>The levels of a tree hold every node once.\<close>

lemma tree_nodes:
  assumes "tree_inv m {} lvs h" and "lvs \<noteq> []"
  shows "heap_ok h" "distinct (concat (map level_nodes lvs))" "dom (shape h) = set (concat (map level_nodes lvs))"
    "\<forall>lv\<in>set lvs. stack_wf (lv_nodes lv) \<and> None \<notin> set (stack_items (lv_nodes lv))"
    "levels_in (dom (shape h)) lvs" "\<forall>a d p. shape h a = Some (d, p) \<longrightarrow> pd_flags d AND POLICY_DATA_FLAG_EXTRA_NODE = 0"
    "level_sizes lvs \<le> hp_next h"
proof -
  have inv: "level_inv m (other_nodes {} lvs j) (lvs ! j) h" if "j < length lvs" for j using assms(1) that by (simp add: tree_inv_def)
  have l0: "0 < length lvs" using assms(2) by simp
  show ok: "heap_ok h" using inv[OF l0] by (simp add: level_inv_def)
  have "\<forall>i < length (map level_nodes lvs). distinct (map level_nodes lvs ! i)" using inv by (simp add: level_inv_def)
  moreover have "set (level_nodes (lvs ! i)) \<inter> set (level_nodes (lvs ! j)) = {}" if "i < j" "j < length lvs" for i j
  proof -
    have "i \<in> {..<length lvs} - {j}" using that by simp
    then have "set (level_nodes (lvs ! i)) \<subseteq> other_nodes {} lvs j" unfolding other_nodes_def by blast
    then show ?thesis using inv[OF that(2)] unfolding level_inv_def by blast
  qed
  ultimately show d: "distinct (concat (map level_nodes lvs))" by (intro distinct_concat_nth) simp_all
  have "dom (shape h) = other_nodes {} lvs 0 \<union> set (level_nodes (lvs ! 0))" using inv[OF l0] by (simp add: level_inv_def)
  also have "\<dots> = (\<Union>i\<in>{..<length lvs}. set (level_nodes (lvs ! i)))" using l0 by (auto simp: other_nodes_def)
  also have "\<dots> = set (concat (map level_nodes lvs))"
  proof -
    have "set lvs = (\<lambda>i. lvs ! i) ` {..<length lvs}" by (auto simp: set_conv_nth)
    then show ?thesis by (simp add: image_image)
  qed
  finally show dm: "dom (shape h) = set (concat (map level_nodes lvs))" .
  have lv: "level_ok h lv" if "lv \<in> set lvs" for lv using that inv by (auto simp: in_set_conv_nth level_inv_def)
  then show w: "\<forall>lv\<in>set lvs. stack_wf (lv_nodes lv) \<and> None \<notin> set (stack_items (lv_nodes lv))" by (simp add: level_ok_def)
  then show "levels_in (dom (shape h)) lvs" unfolding dm by (auto simp: levels_in_def)
  show "\<forall>a d p. shape h a = Some (d, p) \<longrightarrow> pd_flags d AND POLICY_DATA_FLAG_EXTRA_NODE = 0"
  proof (intro allI impI)
    fix a d p assume a: "shape h a = Some (d, p)"
    then have "a \<in> set (concat (map level_nodes lvs))" using dm by auto
    then obtain lv where "lv \<in> set lvs" "a \<in> set (level_nodes lv)" by auto
    then obtain j where j: "j < length lvs" "a \<in> set (level_nodes (lvs ! j))" by (metis in_set_conv_nth)
    then show "pd_flags d AND POLICY_DATA_FLAG_EXTRA_NODE = 0" using inv[OF j(1)] a by (auto simp: level_inv_def data_ok_def)
  qed
  have "level_sizes lvs \<le> length (concat (map level_nodes lvs))"
    unfolding level_sizes_def length_concat by (auto simp: level_nodes_def length_stack_items intro!: sum_list_mono)
  also have "\<dots> = card (dom (shape h))" unfolding dm by (rule distinct_card[OF d, symmetric])
  also have "\<dots> \<le> hp_next h" by (rule heap_finite(2)[OF ok])
  finally show "level_sizes lvs \<le> hp_next h" .
qed

lemma tree_free_ok:
  assumes "user_inv live xs (tr_user_policies tree) h" and "live = set (concat (map level_nodes (tr_levels tree)))"
    and "distinct (concat (map level_nodes (tr_levels tree)))" and "tr_nlevel tree = length (tr_levels tree)"
    and "\<forall>lv\<in>set (tr_levels tree). stack_wf (lv_nodes lv) \<and> None \<notin> set (stack_items (lv_nodes lv))"
  shows "\<exists>h'. X509_policy_tree_free (Some tree) h = Some h' \<and> hp_node h' = (\<lambda>_. None) \<and> hp_next h' = hp_next h"
proof -
  let ?u = "map the (stack_items (tr_user_policies tree))"
  have wf: "stack_wf (tr_user_policies tree)" "dom (shape h) = live \<union> xs" "live \<inter> xs = {}" "distinct (filter (\<lambda>a. a \<in> xs) ?u)"
    using assms(1) by (simp_all add: user_inv_def)
  have some: "None \<notin> set (stack_items (tr_user_policies tree))" using user_inv_items[OF assms(1)] by blast
  have mem: "a \<in> live \<union> xs" if a: "a \<in> set ?u" for a
  proof -
    obtain e where e: "e \<in> set (stack_items (tr_user_policies tree))" "a = the e" using a by auto
    then obtain b where "b \<in> live \<union> xs" "e = Some b" using user_inv_items[OF assms(1)] by blast
    then show ?thesis using e(2) by simp
  qed
  have node: "\<exists>n. hp_node h a = Some n \<and> (exnode n \<longleftrightarrow> a \<in> xs)" if a: "a \<in> live \<union> xs" for a
  proof -
    have "a \<in> dom (shape h)" using a wf(2) by simp
    then obtain n where "hp_node h a = Some n" by (auto simp: shape_def)
    then show ?thesis using assms(1) by (auto simp: user_inv_def exnode_def shape_Some)
  qed
  have at: "hp_node h a \<noteq> None \<and> (exnode (the (hp_node h a)) \<longleftrightarrow> a \<in> xs)" if a: "a \<in> set ?u" for a
    using node[OF mem[OF a]] by auto
  have f: "filter (\<lambda>a. exnode (the (hp_node h a))) ?u = filter (\<lambda>a. a \<in> xs) ?u"
    using at by (intro filter_cong refl) blast
  have "\<forall>a\<in>set ?u. hp_node h a \<noteq> None" using at by blast
  then obtain h1 where h1: "free_nodes exnode ?u h = Some h1"
    "hp_node h1 = (\<lambda>a. if a \<in> set ?u \<and> exnode (the (hp_node h a)) then None else hp_node h a)" "hp_next h1 = hp_next h"
    using free_nodes_ok[of ?u h exnode] wf(4) f by auto
  have n1: "hp_node h1 a = (if a \<in> xs then None else hp_node h a)" for a
  proof (cases "a \<in> set ?u")
    case True
    then obtain n where "hp_node h a = Some n" "exnode n \<longleftrightarrow> a \<in> xs" using node[OF mem] by blast
    then show ?thesis using True by (simp add: h1(2))
  next
    case False
    then have "a \<notin> xs" using user_inv_extra[OF assms(1)] by blast
    then show ?thesis using False by (simp add: h1(2) del: set_map)
  qed
  let ?c = "concat (map level_nodes (tr_levels tree))"
  have "\<forall>a\<in>set ?c. hp_node h1 a \<noteq> None"
  proof
    fix a assume "a \<in> set ?c"
    then have a: "a \<in> live" using assms(2) by simp
    then have "a \<notin> xs" using wf(3) by blast
    then show "hp_node h1 a \<noteq> None" using node[of a] a n1 by auto
  qed
  then obtain h2 where h2: "free_nodes (\<lambda>_. True) ?c h1 = Some h2" "hp_node h2 = (\<lambda>a. if a \<in> set ?c \<and> True then None else hp_node h1 a)"
    "hp_next h2 = hp_next h1"
    using free_nodes_ok[of ?c h1 "\<lambda>_. True"] assms(3) by auto
  have "hp_node h2 a = None" for a
  proof (cases "a \<in> live \<union> xs")
    case True
    then show ?thesis using n1 assms(2) by (auto simp: h2(2))
  next
    case False
    then have "hp_node h a = None" using wf(2) by (metis domIff shape_None)
    then show ?thesis using n1 by (simp add: h2(2))
  qed
  moreover have "X509_policy_tree_free (Some tree) h = Some h2"
    using h1(1) h2(1) assms(4) pop_free_items[OF wf(1) some] free_levels_nodes[OF assms(5), of h1] by (simp add: X509_policy_tree_free_def)
  ultimately show ?thesis using h1(3) h2(3) by auto
qed

section \<open>The check of a chain\<close>

text \<open>Releasing a tree leaves no node.\<close>

definition frees_all :: "'q policy_tree option \<Rightarrow> 'q policy_heap \<Rightarrow> bool" where
  "frees_all tree h \<longleftrightarrow> (\<exists>h'. X509_policy_tree_free tree h = Some h' \<and> hp_node h' = (\<lambda>_. None) \<and> hp_next h' = hp_next h)"

lemma user_start:
  assumes "tree_inv m {} lvs h" and "lvs \<noteq> []"
  shows "user_inv (dom (shape h)) {} None h"
  using tree_nodes[OF assms] by (auto simp: user_inv_def)

lemma tree_ok_frees:
  assumes "tree_ok m certs j tree h" and "tr_levels tree \<noteq> []"
  shows "frees_all (Some tree) h"
proof -
  have inv: "tree_inv m {} (tr_levels tree) h" using assms(1) by (simp add: tree_ok_def)
  have u: "user_inv (dom (shape h)) {} (tr_user_policies tree) h" using user_start[OF inv assms(2)] assms(1) by (simp add: tree_ok_def)
  show ?thesis
    unfolding frees_all_def
    by (rule tree_free_ok[OF u]) (use tree_nodes[OF inv assms(2)] assms(1) in \<open>simp_all add: tree_ok_def\<close>)
qed

lemma tree_calculate_authority_set_ok:
  assumes "all_got env" and "tree_ok m certs j tree h" and "tr_levels tree \<noteq> []" and "hp_next h < STACK_ROOM"
  shows "\<exists>calc auth auth' k. tree_calculate_authority_set env tree h =
      Some (calc, auth, tree\<lparr>tr_auth_policies := auth'\<rparr>, h\<lparr>hp_count := k\<rparr>) \<and> calc \<in> {1, 2} \<and> node_set (dom (shape h)) (hp_next h) auth"
proof -
  let ?lvs = "tr_levels tree" and ?live = "dom (shape h)"
  have t: "tree_inv m {} ?lvs h" "tr_nlevel tree = length ?lvs" "tr_auth_policies tree = None" using assms(2) by (simp_all add: tree_ok_def)
  note n = tree_nodes[OF t(1) assms(3)]
  have sz: "level_sizes (tl ?lvs) \<le> hp_next h" using n(7) assms(3) by (cases ?lvs) (simp_all add: level_sizes_def)
  have auth: "\<exists>sk' k. authority_levels env ?lvs None h' = Some (True, sk', h'\<lparr>hp_count := k\<rparr>) \<and> node_set ?live (hp_next h) sk'"
    if h': "shape h' = shape h" for h'
  proof -
    have "?live \<subseteq> dom (shape h')" using h' by simp
    then obtain sk' k where "authority_levels env ?lvs None h' = Some (True, sk', h'\<lparr>hp_count := k\<rparr>)" "node_set ?live (0 + level_sizes (tl ?lvs)) sk'"
      using authority_levels_ok[OF assms(1) n(5), of 0 None h'] sz assms(4) by auto
    then show ?thesis using sz by (auto simp: node_set_def)
  qed
  show ?thesis
  proof (cases "lv_anyPolicy (?lvs ! (length ?lvs - 1))")
    case None
    then show ?thesis using auth[of h] t by (fastforce simp: tree_calculate_authority_set_def)
  next
    case (Some anyp)
    have "?lvs ! (length ?lvs - 1) \<in> set ?lvs" using assms(3) by simp
    then have "anyp \<in> ?live" using Some n(3) by (force simp: level_nodes_def)
    then obtain sk k where s: "tree_add_auth_node env None (Some anyp) h = Some (True, sk, h\<lparr>hp_count := k\<rparr>)"
      using tree_add_auth_node_ok[OF assms(1) _ order.refl, of h 0 None anyp] by (auto simp: STACK_ROOM_def)
    obtain sk2 k2 where "authority_levels env ?lvs None (h\<lparr>hp_count := k\<rparr>) = Some (True, sk2, h\<lparr>hp_count := k\<rparr>\<lparr>hp_count := k2\<rparr>)"
      "node_set ?live (hp_next h) sk2"
      using auth[of "h\<lparr>hp_count := k\<rparr>"] by auto
    then show ?thesis using Some s t by (auto simp: tree_calculate_authority_set_def)
  qed
qed

lemma policy_sets_ok:
  assumes "all_got env" and "tree_ok m certs j tree h" and "tr_levels tree \<noteq> []" and "None \<notin> set (stack_items policy_oids)"
    and "hp_next h + sk_num policy_oids < STACK_ROOM"
  shows "\<exists>r tree' h'. policy_sets env explicit policy_oids certs tree h = Some (r, tree', explicit, certs, h') \<and> r \<in> {1, -2} \<and>
    frees_all tree' h' \<and> hp_next h' \<le> hp_next h + sk_num policy_oids"
proof -
  let ?lvs = "tr_levels tree" and ?live = "dom (shape h)"
  have t: "tree_inv m {} ?lvs h" "tr_nlevel tree = length ?lvs" "tr_user_policies tree = None" "extra_ok (tr_extra_data tree) h"
    using assms(2) by (simp_all add: tree_ok_def)
  note n = tree_nodes[OF t(1) assms(3)]
  obtain calc auth auth' k where c: "tree_calculate_authority_set env tree h =
      Some (calc, auth, tree\<lparr>tr_auth_policies := auth'\<rparr>, h\<lparr>hp_count := k\<rparr>)" "calc \<in> {1, 2}" "node_set ?live (hp_next h) auth"
    using tree_calculate_authority_set_ok[OF assms(1-3)] assms(5) by auto
  let ?t = "tree\<lparr>tr_auth_policies := auth'\<rparr>" and ?h = "h\<lparr>hp_count := k\<rparr>"
  have none: "sk_num (None :: node_stack) = 0" by (simp add: sk_num_def)
  have u: "user_inv ?live {} (tr_user_policies ?t) ?h" using user_start[OF t(1) assms(3)] t(3) by simp
  have "?lvs ! (tr_nlevel tree - 1) \<in> set ?lvs" using assms(3) t(2) by simp
  then have any: "\<forall>a. lv_anyPolicy (?lvs ! (tr_nlevel tree - 1)) = Some a \<longrightarrow> a \<in> ?live" using n(3) by (force simp: level_nodes_def)
  obtain auth2 tree2 h2 xs where p: "user_policies env (lv_anyPolicy (?lvs ! (tr_nlevel tree - 1))) (stack_items policy_oids) auth ?t ?h =
      Some (1, auth2, tree2, h2)" "user_inv ?live xs (tr_user_policies tree2) h2" "tr_levels tree2 = ?lvs" "tr_nlevel tree2 = tr_nlevel tree"
    "hp_next h2 \<le> hp_next h + sk_num policy_oids"
    using user_policies_ok[OF assms(1) any u c(3), of "stack_items policy_oids"] assms(4,5) t(3,4) none
    by (auto simp: length_stack_items)
  have fr: "frees_all (Some t') h'" if "user_inv ?live ys (tr_user_policies t') h'" "tr_levels t' = ?lvs" "tr_nlevel t' = length ?lvs" for ys t' h'
    unfolding frees_all_def
    by (rule tree_free_ok[OF that(1)]) (use n that(2,3) in simp_all)
  have "\<exists>auth3 tree3 h3 ys. tree_calculate_user_set env ?t policy_oids auth ?h = Some (1, auth3, tree3, h3) \<and>
      user_inv ?live ys (tr_user_policies tree3) h3 \<and> tr_levels tree3 = ?lvs \<and> tr_nlevel tree3 = length ?lvs \<and>
      hp_next h3 \<le> hp_next h + sk_num policy_oids"
    using p u t(2) by (fastforce simp: tree_calculate_user_set_def)
  then obtain auth3 tree3 h3 ys where s: "tree_calculate_user_set env ?t policy_oids auth ?h = Some (1, auth3, tree3, h3)"
    "user_inv ?live ys (tr_user_policies tree3) h3" "tr_levels tree3 = ?lvs" "tr_nlevel tree3 = length ?lvs"
    "hp_next h3 \<le> hp_next h + sk_num policy_oids" by blast
  let ?r = "if calc = 1 then tree3\<lparr>tr_auth_policies := auth3\<rparr> else tree3"
  have "frees_all (Some ?r) h3" using fr[of ys ?r h3] s(2-4) by simp
  moreover have "policy_sets env explicit policy_oids certs tree h =
      Some (if explicit \<and> sk_num (X509_policy_tree_get0_user_policies (Some ?r)) = 0 then -2 else 1, Some ?r, explicit, certs, h3)"
    using c(1,2) s(1) by (auto simp: policy_sets_def Let_def)
  ultimately show ?thesis using s(5) by auto
qed

text \<open>The nodes a chain can lead to, and the policies of the user.\<close>

definition chain_room :: "nat \<Rightarrow> 'q x509 list \<Rightarrow> (asn1_object, unit) stack_ptr \<Rightarrow> 'q policy_heap \<Rightarrow> bool" where
  "chain_room m certs policy_oids h \<longleftrightarrow>
     hp_next h + 1 + 2 * node_factor m ^ (length certs - 1) + sk_num policy_oids < STACK_ROOM"

lemma X509_policy_check_ok:
  assumes "all_got env" and "any_known env" and "certs \<noteq> []" and "\<forall>x\<in>set certs. cert_ok m x" and "m < STACK_ROOM"
    and "hp_node h = (\<lambda>_. None)" and "None \<notin> set (stack_items policy_oids)" and "chain_room m certs policy_oids h"
  shows "\<exists>r tree explicit certs' h'. X509_policy_check env flags policy_oids certs h = Some (r, tree, explicit, certs', h') \<and>
    r \<in> {-2, -1, 0, 1} \<and> frees_all tree h' \<and>
    hp_next h' \<le> hp_next h + 1 + 2 * node_factor m ^ (length certs - 1) + sk_num policy_oids"
proof -
  have sh: "shape h = Map.empty" using assms(6) by (simp add: shape_def fun_eq_iff)
  obtain r tree certs1 h1 where i: "tree_init env flags certs h = Some (r, tree, certs1, h1)" "r \<in> {-1, 0, 1, 2, 5, 6}"
    "built m certs1 tree h h1" "length certs1 = length certs" "tree \<noteq> None \<longrightarrow> r \<in> {1, 5}" "hp_next h1 \<le> hp_next h + 1"
    using tree_init_ok[OF assms(1-5) sh] by blast
  show ?thesis
  proof (cases tree)
    case None
    then have "hp_node h1 = (\<lambda>_. None)" using i(3) by (simp add: built_def fun_eq_iff shape_None[symmetric])
    then have "frees_all None h1" by (simp add: frees_all_def X509_policy_tree_free_def)
    then show ?thesis using i(1,2) None i(6) by (auto simp: X509_policy_check_def Let_def)
  next
    case (Some t)
    then have t: "tree_ok m certs1 1 t h1" "tr_nlevel t = length certs1" "0 < length certs1" "sk_num (lv_nodes (tr_levels t ! 0)) = 0"
      "hp_next h1 = hp_next h + 1" using i(3) by (simp_all add: built_def)
    let ?n = "length certs1" and ?c = "node_factor m"
    have room: "(hp_next h1) + 2 * ?c ^ (?n - 1) \<le> STACK_ROOM" using assms(8) i(4) t(5) by (simp add: chain_room_def)
    have pos: "1 \<le> ?c ^ k" for k by (simp add: node_factor_def)
    obtain r2 j2 t2 h2 where e: "tree_evaluate env certs1 t h1 = Some (r2, certs1, t2, h2)" "r2 \<in> {0, 1, 2}" "tree_ok m certs1 j2 t2 h2"
      "tr_nlevel t2 = ?n" "hp_next h2 \<le> hp_next h1 + 2 * ?c ^ (?n - 1)"
      using evaluate_from_ok[OF assms(1) room refl, of 1 certs1 t h1] t by (auto simp: tree_evaluate_def)
    have ne: "tr_levels t2 \<noteq> []" using e(3,4) t(3) by (auto simp: tree_ok_def)
    have fr: "frees_all (Some t2) h2" by (rule tree_ok_frees[OF e(3) ne])
    then obtain h3 where h3: "X509_policy_tree_free (Some t2) h2 = Some h3" "hp_node h3 = (\<lambda>_. None)" "hp_next h3 = hp_next h2" by (auto simp: frees_all_def)
    then have none: "frees_all None h3" by (simp add: frees_all_def X509_policy_tree_free_def)
    obtain rs ts hs where s: "policy_sets env (r = 5) policy_oids certs1 t2 h2 = Some (rs, ts, r = 5, certs1, hs)" "rs \<in> {1, -2}" "frees_all ts hs"
      "hp_next hs \<le> hp_next h2 + sk_num policy_oids"
      using policy_sets_ok[OF assms(1) e(3) ne assms(7), of "r = 5"] e(5) t(5) assms(8) i(4) by (auto simp: chain_room_def)
    have r: "r = 1 \<or> r = 5" using i(5) Some by auto
    have b: "X509_policy_check env flags policy_oids certs h = (if r2 \<le> 0 then Some (0, None, r = 5, certs1, h3)
        else if r2 = 2 then Some (if r = 5 then -2 else 1, None, r = 5, certs1, h3)
        else policy_sets env (r = 5) policy_oids certs1 t2 h2)"
      using i(1) Some e(1) h3(1) r by (auto simp: X509_policy_check_def Let_def)
    have "hp_next h2 \<le> hp_next h + 1 + 2 * ?c ^ (length certs - 1)" using e(5) t(5) i(4) by simp
    then show ?thesis using b none s e(2) h3(3) by auto
  qed
qed

end
