(* ===== verification/Obj_Names.thy ===== *)
theory Obj_Names
  imports Obj_Map
begin

text \<open>
  The registry of objects as a state machine: calls of \<open>OBJ_create\<close> from the state the program starts
  in. In every state reached without running out of memory, the four tables describe one collection of
  objects, and a lookup by identifier, short name or long name finds the number of an object that has it
  if there is one, built in or added.
\<close>

section \<open>The invariant\<close>

definition registry_ok :: "obj_dat \<Rightarrow> obj_globals \<Rightarrow> bool" where
  "registry_ok dat gl \<longleftrightarrow> tables_ok gl \<and> int (NUM_NID dat) \<le> uint (gl_next_nid gl) \<and>
     (\<forall>n ob. added gl By_nid (Inl n) = Some ob \<longrightarrow>
        ob_nid ob = n \<and> int (NUM_NID dat) \<le> n \<and> n < uint (gl_next_nid gl) \<and> obj_valid ob \<and>
        (\<forall>t. stored t ob \<longrightarrow> added gl t (obj_key t ob) \<noteq> None)) \<and>
     (\<forall>t k ob. added gl t k = Some ob \<longrightarrow> stored t ob \<and> obj_key t ob = k \<and> added gl By_nid (Inl (ob_nid ob)) = Some ob)"

lemma ob_nid_new: "ob_nid (new_object n bytes sn ln) = n"
  by (simp add: new_object_def)

text \<open>The static initialisers.\<close>

definition initial_globals :: "obj_dat \<Rightarrow> obj_globals" where
  "initial_globals dat = \<lparr>gl_added = (\<lambda>_. None), gl_next_nid = of_nat (NUM_NID dat)\<rparr>"

lemma initial_registry_ok:
  assumes "NUM_NID dat \<le> INT_MAX"
  shows "registry_ok dat (initial_globals dat)"
proof -
  have "uint (of_nat (NUM_NID dat) :: u32) = int (NUM_NID dat)"
    using assms by (simp add: uint_nat unat_of_nat take_bit_nat_eq_self INT_MAX_def)
  then show ?thesis by (simp add: registry_ok_def initial_globals_def tables_ok_def added_def)
qed

lemma registry_ok_fresh:
  assumes "registry_ok dat gl" and "uint (gl_next_nid gl) \<le> n"
  shows "added gl t k = Some ob \<Longrightarrow> ob_nid ob \<noteq> n"
  using assms unfolding registry_ok_def by (metis not_le)

lemma add_to_registry_ok:
  assumes "registry_ok dat gl" and "tables_ok gl'" and "obj_valid ob" and "ob_nid ob = uint (gl_next_nid gl)"
    and "uint (gl_next_nid gl') = uint (gl_next_nid gl) + 1" and "added gl' = add_to ob (added gl)"
  shows "registry_ok dat gl'"
proof -
  let ?n = "uint (gl_next_nid gl)"
  have nid: "added gl' By_nid = (added gl By_nid)(Inl ?n \<mapsto> ob)" using assms(4,6) by (simp add: add_to_def)
  have other: "added gl' t = (if stored t ob then (added gl t)(obj_key t ob \<mapsto> ob) else added gl t)" for t
    using assms(6) by (simp add: add_to_def)
  have byn: "added gl By_nid (Inl n) = Some x \<Longrightarrow> ob_nid x = n \<and> int (NUM_NID dat) \<le> n \<and> n < ?n \<and> obj_valid x \<and>
      (\<forall>t. stored t x \<longrightarrow> added gl t (obj_key t x) \<noteq> None)" for n x
    using assms(1) unfolding registry_ok_def by blast
  have all: "added gl t k = Some x \<Longrightarrow> stored t x \<and> obj_key t x = k \<and> added gl By_nid (Inl (ob_nid x)) = Some x" for t k x
    using assms(1) unfolding registry_ok_def by blast
  have keep: "added gl t k \<noteq> None \<Longrightarrow> added gl' t k \<noteq> None" for t k by (simp add: other)
  have new: "stored t ob \<Longrightarrow> added gl' t (obj_key t ob) \<noteq> None" for t by (simp add: other)
  have num: "int (NUM_NID dat) \<le> uint (gl_next_nid gl)" using assms(1) by (simp add: registry_ok_def)
  have A: "ob_nid x = n \<and> int (NUM_NID dat) \<le> n \<and> n < uint (gl_next_nid gl') \<and> obj_valid x \<and>
      (\<forall>t. stored t x \<longrightarrow> added gl' t (obj_key t x) \<noteq> None)" if "added gl' By_nid (Inl n) = Some x" for n x
  proof (cases "n = ?n")
    case True
    then show ?thesis using that assms(3-5) nid new num by auto
  next
    case False
    then have "added gl By_nid (Inl n) = Some x" using that nid by simp
    from byn[OF this] show ?thesis using keep assms(5) by auto
  qed
  have B: "stored t x \<and> obj_key t x = k \<and> added gl' By_nid (Inl (ob_nid x)) = Some x" if "added gl' t k = Some x" for t k x
  proof (cases "stored t ob \<and> k = obj_key t ob")
    case True
    then have "x = ob" using that other[of t] by simp
    then show ?thesis using True nid assms(4) by simp
  next
    case False
    then have a: "added gl t k = Some x" using that other[of t] by (auto split: if_splits)
    have "ob_nid x \<noteq> ?n" using registry_ok_fresh[OF assms(1) order_refl a] .
    then show ?thesis using all[OF a] nid by simp
  qed
  show ?thesis unfolding registry_ok_def using assms(2,5) num A B by auto
qed

section \<open>Creating objects\<close>

text \<open>Memory for a call: every allocation succeeds and new items get fresh addresses.\<close>

definition memory_for :: "obj_mem \<Rightarrow> obj_globals \<Rightarrow> bool" where
  "memory_for m gl \<longleftrightarrow> memory_for_object m \<and> (\<forall>n. om_cbb m n) \<and> memory_for_tables m \<and>
     (\<forall>t. om_item m t \<noteq> None \<and> item_fresh m gl t)"

lemma sint_small:
  assumes "uint (w :: u32) < int INT_MAX"
  shows "sint w = uint w" and "uint (w + 1) = uint w + 1"
proof -
  have "- (2 ^ 31) \<le> (0::int)" by simp
  also have "0 \<le> uint w" by simp
  finally have "- (2 ^ 31) \<le> uint w" .
  then show "sint w = uint w" using assms signed_take_bit_int_eq_self[of 31 "uint w"] by (simp add: sint_uint INT_MAX_def)
  show "uint (w + 1) = uint w + 1" using assms by (simp add: uint_word_ariths INT_MAX_def)
qed

lemma OBJ_create_registry:
  assumes "registry_ok dat gl" and "memory_for m gl" and "uint (gl_next_nid gl) < int INT_MAX" and "0 < NUM_NID dat"
  shows "\<exists>nid gl'. OBJ_create m oid sn ln gl = Some (nid, gl') \<and> registry_ok dat gl' \<and>
    (nid = NID_undef \<and> gl' = gl \<and> fst (create_object_with_text_oid m (Some obj_next_nid) oid sn ln gl) = None \<or>
     nid = uint (gl_next_nid gl) \<and> nid \<noteq> NID_undef \<and> gl_next_nid gl' = gl_next_nid gl + 1 \<and>
       (\<exists>a b rest. oid_valid a b \<and> oid = dotted (a # b # rest) \<and>
          added gl' = add_to (new_object nid (oid_bytes a b rest) sn ln) (added gl)))"
proof -
  have m: "memory_for_object m" "memory_for_tables m" "\<forall>t. om_item m t \<noteq> None" "\<forall>t. item_fresh m gl t"
    using assms(2) by (simp_all add: memory_for_def del: not_None_eq)
  have ok: "tables_ok gl" "int (NUM_NID dat) \<le> uint (gl_next_nid gl)" using assms(1) by (simp_all add: registry_ok_def)
  from OBJ_create_ok[OF ok(1) m(4), of oid sn ln] m(2) obtain nid gl' okk where
    c: "OBJ_create m oid sn ln gl = Some (nid, gl')" "tables_ok gl'" and
    d: "nid = NID_undef \<and> gl_added gl' = gl_added gl \<and> (memory_for_object m \<longrightarrow> gl' = gl) \<and>
       fst (create_object_with_text_oid m (Some obj_next_nid) oid sn ln gl) = None \<or>
     (\<exists>a b rest. oid_valid a b \<and> oid = dotted (a # b # rest) \<and> gl_next_nid gl' = gl_next_nid gl + 1 \<and>
       nid = (if okk then sint (gl_next_nid gl) else NID_undef) \<and> ((\<forall>t. om_item m t \<noteq> None) \<longrightarrow> okk) \<and>
       (okk \<longrightarrow> added gl' = add_to (new_object nid (oid_bytes a b rest) sn ln) (added gl)))" by blast
  from d consider "nid = NID_undef" "gl' = gl" "fst (create_object_with_text_oid m (Some obj_next_nid) oid sn ln gl) = None" | a b rest where "oid_valid a b" "oid = dotted (a # b # rest)"
    "gl_next_nid gl' = gl_next_nid gl + 1" "nid = sint (gl_next_nid gl)"
    "added gl' = add_to (new_object nid (oid_bytes a b rest) sn ln) (added gl)"
    using m(1,3) by (auto simp del: not_None_eq dotted.simps)
  then show ?thesis
  proof cases
    case 1
    then show ?thesis using c(1) assms(1) by blast
  next
    case 2
    note w = sint_small[OF assms(3)]
    have n: "nid = uint (gl_next_nid gl)" "nid \<noteq> NID_undef" using 2(4) w(1) ok(2) assms(4) by (simp_all add: NID_undef_def)
    have "obj_valid (new_object nid (oid_bytes a b rest) sn ln)" "ob_nid (new_object nid (oid_bytes a b rest) sn ln) = nid"
      by (simp_all add: new_object_def obj_valid_def obj_bytes_def)
    with add_to_registry_ok[OF assms(1) c(2) _ _ _ 2(5)] have "registry_ok dat gl'" using n(1) w(2) 2(3) by simp
    then show ?thesis using c(1) n 2 by blast
  qed
qed


section \<open>Lookups\<close>

lemma nid2obj_added:
  assumes "registry_ok dat gl"
  shows "int (NUM_NID dat) \<le> n \<Longrightarrow> OBJ_nid2obj dat gl n = added gl By_nid (Inl n)"
    and "added gl By_nid (Inl n) = Some ob \<Longrightarrow> OBJ_nid2obj dat gl n = Some ob"
proof -
  have t: "tables_ok gl" using assms by (simp add: registry_ok_def)
  show big: "int (NUM_NID dat) \<le> n \<Longrightarrow> OBJ_nid2obj dat gl n = added gl By_nid (Inl n)" for n
    using retrieve_added_map[OF t, of By_nid "obj_template\<lparr>ob_nid := n\<rparr>"] by (simp add: OBJ_nid2obj_def)
  show "added gl By_nid (Inl n) = Some ob \<Longrightarrow> OBJ_nid2obj dat gl n = Some ob"
    using big[of n] assms unfolding registry_ok_def by metis
qed

text \<open>What the three lookups have in common.\<close>

definition look :: "obj_dat \<Rightarrow> obj_globals \<Rightarrow> obj_table \<Rightarrow> asn1_object \<Rightarrow> int" where
  "look dat gl t ob = (case retrieve_added gl t ob of
       Some found \<Rightarrow> ob_nid found
     | None \<Rightarrow> (case search_builtin dat t ob of None \<Rightarrow> NID_undef | Some n \<Rightarrow> ob_nid (kObjects dat ! n)))"

lemma lookups:
  "OBJ_sn2nid dat gl s = look dat gl By_short_name (obj_template\<lparr>ob_sn := Some s\<rparr>)"
  "OBJ_ln2nid dat gl s = look dat gl By_long_name (obj_template\<lparr>ob_ln := Some s\<rparr>)"
  "length b \<le> INT_MAX \<Longrightarrow> OBJ_cbs2nid dat gl b =
    look dat gl By_data (obj_template\<lparr>ob_data := Some b, ob_length := int (length b)\<rparr>)"
  by (simp_all add: OBJ_sn2nid_def OBJ_ln2nid_def OBJ_cbs2nid_def OBJ_obj2nid_def look_def obj_template_def c_str_def
      CBS_len_def CBS_data_def split: option.split)

lemma look_added: "registry_ok dat gl \<Longrightarrow> has_key t ob \<Longrightarrow> added gl t (obj_key t ob) = Some x \<Longrightarrow> look dat gl t ob = ob_nid x"
  by (simp add: look_def retrieve_added_map registry_ok_def)

lemma look_correct:
  assumes "dat_ok dat" and "registry_ok dat gl" and "t \<noteq> By_nid" and "has_key t ob"
  shows "if look dat gl t ob = NID_undef
    then \<forall>n x. n \<noteq> NID_undef \<longrightarrow> OBJ_nid2obj dat gl n = Some x \<longrightarrow> stored t x \<longrightarrow> obj_key t x \<noteq> obj_key t ob
    else \<exists>x. OBJ_nid2obj dat gl (look dat gl t ob) = Some x \<and> ob_nid x = look dat gl t ob \<and> stored t x \<and> obj_key t x = obj_key t ob"
proof -
  have reg: "tables_ok gl" "0 < NUM_NID dat"
    using assms(1,2) by (simp_all add: registry_ok_def dat_ok_def)
  have all: "stored t x \<and> obj_key t x = k \<and> added gl By_nid (Inl (ob_nid x)) = Some x" if "added gl t k = Some x" for t k x
    using assms(2) that unfolding registry_ok_def by blast
  have byn: "int (NUM_NID dat) \<le> n \<and> (\<forall>t. stored t x \<longrightarrow> added gl t (obj_key t x) \<noteq> None)"
    if "added gl By_nid (Inl n) = Some x" for n x
    using assms(2) that unfolding registry_ok_def by blast
  have built: "ob_nid (kObjects dat ! n) = int n" if "n < NUM_NID dat" "stored t (kObjects dat ! n)" for n
    using assms(1,3) that unfolding dat_ok_def by blast
  have small: "nat n < NUM_NID dat \<and> x = kObjects dat ! nat n"
    if "OBJ_nid2obj dat gl n = Some x" "\<not> int (NUM_NID dat) \<le> n" "0 \<le> n" for n x
    using that by (auto simp: OBJ_nid2obj_def split: if_splits)
  have neg: "n \<ge> 0" if "OBJ_nid2obj dat gl n = Some x" for n x
  proof (rule ccontr)
    assume "\<not> n \<ge> 0"
    then have "added gl By_nid (Inl n) = Some x"
      using that retrieve_added_map[OF reg(1), of By_nid "obj_template\<lparr>ob_nid := n\<rparr>"] by (simp add: OBJ_nid2obj_def)
    then show False using byn \<open>\<not> n \<ge> 0\<close> by fastforce
  qed
  show ?thesis
  proof (cases "added gl t (obj_key t ob)")
    case (Some x)
    note a = all[OF Some]
    have l: "look dat gl t ob = ob_nid x" by (rule look_added[OF assms(2,4) Some])
    have "ob_nid x \<noteq> NID_undef" using byn a reg(2) by (fastforce simp: NID_undef_def)
    then show ?thesis unfolding l using a nid2obj_added(2)[OF assms(2)] by auto
  next
    case None
    have none: "obj_key t x \<noteq> obj_key t ob" if "OBJ_nid2obj dat gl n = Some x" "stored t x" "int (NUM_NID dat) \<le> n" for n x
      using that byn None nid2obj_added(1)[OF assms(2)] by metis
    have l: "look dat gl t ob = (case search_builtin dat t ob of None \<Rightarrow> NID_undef | Some n \<Rightarrow> ob_nid (kObjects dat ! n))"
      using None by (simp add: look_def retrieve_added_map[OF reg(1) assms(4)])
    note sb = search_builtin_ok[OF assms(1,3,4)]
    show ?thesis
    proof (cases "search_builtin dat t ob")
      case None
      then have nb: "n < NUM_NID dat \<Longrightarrow> stored t (kObjects dat ! n) \<Longrightarrow> obj_key t (kObjects dat ! n) \<noteq> obj_key t ob" for n
        using sb by simp
      have "obj_key t x \<noteq> obj_key t ob" if "OBJ_nid2obj dat gl n = Some x" "stored t x" for n x
        using none[OF that] small[OF that(1) _ neg[OF that(1)]] nb that(2) by blast
      then show ?thesis using l None by simp
    next
      case (Some n)
      then have n: "n < NUM_NID dat" "stored t (kObjects dat ! n)" "obj_key t (kObjects dat ! n) = obj_key t ob" using sb by simp_all
      have ln: "look dat gl t ob = int n" using l Some built[OF n(1,2)] by simp
      show ?thesis
      proof (cases "n = 0")
        case False
        then show ?thesis using ln n built[OF n(1,2)] by (simp add: OBJ_nid2obj_def NID_undef_def)
      next
        case True
        have "obj_key t x \<noteq> obj_key t ob" if "OBJ_nid2obj dat gl k = Some x" "stored t x" "k \<noteq> NID_undef" for k x
        proof (cases "int (NUM_NID dat) \<le> k")
          case True
          then show ?thesis using none that by blast
        next
          case False
          then have k: "nat k < NUM_NID dat" "x = kObjects dat ! nat k" "nat k \<noteq> 0"
            using small[OF that(1) False neg[OF that(1)]] neg[OF that(1)] that(3) by (auto simp: NID_undef_def)
          then show ?thesis using assms(1,3) n that(2) \<open>n = 0\<close> unfolding dat_ok_def by metis
        qed
        then show ?thesis using ln True by (simp add: NID_undef_def)
      qed
    qed
  qed
qed

lemma stored_names:
  "stored By_short_name x \<and> obj_key By_short_name x = Inr s \<longleftrightarrow> ob_sn x = Some s"
  "stored By_long_name x \<and> obj_key By_long_name x = Inr s \<longleftrightarrow> ob_ln x = Some s"
  by (cases "ob_sn x"; simp add: c_str_def; cases "ob_ln x"; simp add: c_str_def)
     (cases "ob_ln x"; simp add: c_str_def)


text \<open>The lookups are exact: they find a number under the name or identifier if there is one, and its
  object has that name or identifier.\<close>

definition finds :: "obj_dat \<Rightarrow> obj_globals \<Rightarrow> int \<Rightarrow> (asn1_object \<Rightarrow> bool) \<Rightarrow> bool" where
  "finds dat gl n fits \<longleftrightarrow>
     (if n = NID_undef then \<forall>k x. k \<noteq> NID_undef \<longrightarrow> OBJ_nid2obj dat gl k = Some x \<longrightarrow> \<not> fits x
      else \<exists>x. OBJ_nid2obj dat gl n = Some x \<and> ob_nid x = n \<and> fits x)"

definition has_oid :: "u8 list \<Rightarrow> asn1_object \<Rightarrow> bool" where
  "has_oid bytes ob \<longleftrightarrow> ob_data ob \<noteq> None \<and> ob_length ob \<noteq> 0 \<and> obj_bytes ob = bytes"

lemma look_finds:
  assumes "dat_ok dat" and "registry_ok dat gl" and "t \<noteq> By_nid" and "has_key t ob"
    and "\<And>x. stored t x \<and> obj_key t x = obj_key t ob \<longleftrightarrow> fits x"
  shows "finds dat gl (look dat gl t ob) fits"
  using look_correct[OF assms(1-4)] unfolding finds_def assms(5)[symmetric] by (auto split: if_splits)

lemma lookups_find:
  assumes "dat_ok dat" and "registry_ok dat gl"
  shows "finds dat gl (OBJ_sn2nid dat gl s) (\<lambda>x. ob_sn x = Some s)"
    and "finds dat gl (OBJ_ln2nid dat gl s) (\<lambda>x. ob_ln x = Some s)"
    and "length b \<le> INT_MAX \<Longrightarrow> finds dat gl (OBJ_cbs2nid dat gl b) (has_oid b)"
proof -
  have keys: "obj_key By_short_name (obj_template\<lparr>ob_sn := Some s\<rparr>) = Inr s"
    "obj_key By_long_name (obj_template\<lparr>ob_ln := Some s\<rparr>) = Inr s" by (simp_all add: c_str_def)
  show "finds dat gl (OBJ_sn2nid dat gl s) (\<lambda>x. ob_sn x = Some s)" unfolding lookups(1)
    by (rule look_finds[OF assms]) (simp, simp, simp only: keys stored_names)
  show "finds dat gl (OBJ_ln2nid dat gl s) (\<lambda>x. ob_ln x = Some s)" unfolding lookups(2)
    by (rule look_finds[OF assms]) (simp, simp, simp only: keys stored_names)
  have bytes: "obj_bytes (obj_template\<lparr>ob_data := Some b, ob_length := int (length b)\<rparr>) = b" by (simp add: obj_bytes_def)
  show "finds dat gl (OBJ_cbs2nid dat gl b) (has_oid b)" if "length b \<le> INT_MAX" unfolding lookups(3)[OF that]
    by (rule look_finds[OF assms]) (auto simp: has_oid_def obj_valid_def bytes)
qed

section \<open>The reachable states\<close>

inductive registry_step :: "obj_dat \<Rightarrow> obj_globals \<Rightarrow> obj_globals \<Rightarrow> bool" for dat where
  create: "OBJ_create m oid sn ln gl = Some (nid, gl') \<Longrightarrow> memory_for m gl \<Longrightarrow> uint (gl_next_nid gl) < int INT_MAX \<Longrightarrow>
    registry_step dat gl gl'"

inductive registry_reach :: "obj_dat \<Rightarrow> obj_globals \<Rightarrow> bool" for dat where
  start: "registry_reach dat (initial_globals dat)"
| step: "registry_reach dat gl \<Longrightarrow> registry_step dat gl gl' \<Longrightarrow> registry_reach dat gl'"

inductive_cases registry_stepE: "registry_step dat gl gl'"

lemma registry_step_ok:
  assumes "registry_step dat gl gl'" and "registry_ok dat gl" and "0 < NUM_NID dat"
  shows "registry_ok dat gl' \<and> (\<forall>n x. OBJ_nid2obj dat gl n = Some x \<longrightarrow> OBJ_nid2obj dat gl' n = Some x)"
proof -
  from assms(1) obtain m oid sn ln nid where 1: "OBJ_create m oid sn ln gl = Some (nid, gl')" "memory_for m gl"
    "uint (gl_next_nid gl) < int INT_MAX" by (rule registry_stepE)
  obtain n2 g2 where c: "OBJ_create m oid sn ln gl = Some (n2, g2)" "registry_ok dat g2" and
    d2: "g2 = gl \<or> n2 = uint (gl_next_nid gl) \<and> (\<exists>bytes. added g2 = add_to (new_object n2 bytes sn ln) (added gl))"
    using OBJ_create_registry[OF assms(2) 1(2,3) assms(3), of oid sn ln] by blast
  have "g2 = gl'" using c(1) 1(1) by simp
  then have ok: "registry_ok dat gl'" and d: "gl' = gl \<or> (\<exists>ob. ob_nid ob = uint (gl_next_nid gl) \<and> added gl' = add_to ob (added gl))"
    using c(2) d2 ob_nid_new by metis+
  have "OBJ_nid2obj dat gl' n = Some x" if x: "OBJ_nid2obj dat gl n = Some x" for n x
  proof (cases "n \<ge> 0 \<and> n < int (NUM_NID dat)")
    case True
    then show ?thesis using x by (simp add: OBJ_nid2obj_def)
  next
    case False
    have t: "tables_ok gl" "tables_ok gl'" using ok assms(2) by (simp_all add: registry_ok_def)
    have r: "OBJ_nid2obj dat g n = added g By_nid (Inl n)" if "tables_ok g" for g
      using False retrieve_added_map[OF that, of By_nid "obj_template\<lparr>ob_nid := n\<rparr>"] by (auto simp: OBJ_nid2obj_def)
    then have a: "added gl By_nid (Inl n) = Some x" using x t by simp
    have "n \<noteq> uint (gl_next_nid gl)"
      using assms(2) a unfolding registry_ok_def by (metis less_irrefl)
    then have "added gl' By_nid (Inl n) = Some x" using d a by (auto simp: add_to_def)
    then show ?thesis using r[OF t(2)] by simp
  qed
  with ok show ?thesis by blast
qed

lemma registry_reach_ok:
  assumes "registry_reach dat gl" and "dat_ok dat"
  shows "registry_ok dat gl"
  using assms(1)
proof induction
  case start
  then show ?case using initial_registry_ok assms(2) by (simp add: dat_ok_def)
next
  case (step gl gl')
  then show ?case using registry_step_ok[OF step(2,3)] assms(2) by (simp add: dat_ok_def)
qed

section \<open>A new object is found\<close>

lemma strlcpy_loop_spec:
  "strlcpy_loop src n l = (take (n - 1) src, drop (n - 1) src, (if n - 1 < length src then (if n = 0 then 0 else 1) else n - length src), l + min (n - 1) (length src))"
proof (induction src n l rule: strlcpy_loop.induct)
  case (1 c src n l)
  then show ?case by (cases n; cases "n - 1") auto
qed simp

lemma OPENSSL_strlcpy_spec:
  "OPENSSL_strlcpy src n = (if n = 0 then [] else take (n - 1) src @ [0], length src)"
  by (auto simp: OPENSSL_strlcpy_def strlcpy_loop_spec)

lemma dotted_oid_bytes:
  assumes "oid_valid a b" and "oid_valid a' b'" and "dotted (a # b # rest) = dotted (a' # b' # rest')"
    and "length (oid_bytes a b rest) < SIZE_MOD"
  shows "oid_bytes a b rest = oid_bytes a' b' rest'"
proof -
  obtain st where init: "CBB_init (\<lambda>_. True) 0 = (Some (), st)" using CBB_init_total[of "\<lambda>_. True"] by blast
  have z: "(0::nat) < SIZE_MOD" by (simp add: SIZE_MOD_def)
  from build_progress[OF oid_from_text_implements[OF assms(1)] init z _ assms(4)] obtain st' where
    "sbind (CBB_add_asn1_oid_from_text 0 (dotted (a # b # rest))) (\<lambda>_. CBB_finish 0 True True) st = (Some (oid_bytes a b rest), st')"
    by blast
  from build_Some[OF oid_from_text_implements[OF assms(2)] init z this[unfolded assms(3)]] show ?thesis .
qed

lemma oid_bytes_nonempty: "oid_bytes a b rest \<noteq> []"
  using base128_bytes_shape[of "40 * a + b"] by (auto simp: oid_bytes_def)

lemma OBJ_create_found:
  assumes "dat_ok dat" and "registry_ok dat gl" and "memory_for m gl" and "uint (gl_next_nid gl) < int INT_MAX"
    and "oid_valid a b" and "length (oid_bytes a b rest) \<le> INT_MAX"
  shows "\<exists>nid gl'. OBJ_create m (dotted (a # b # rest)) (Some sn) (Some ln) gl = Some (nid, gl') \<and> nid \<noteq> NID_undef \<and>
    OBJ_nid2obj dat gl' nid = Some (new_object nid (oid_bytes a b rest) (Some sn) (Some ln)) \<and>
    OBJ_sn2nid dat gl' sn = nid \<and> OBJ_ln2nid dat gl' ln = nid \<and> OBJ_cbs2nid dat gl' (oid_bytes a b rest) = nid"
proof -
  let ?text = "dotted (a # b # rest)"
  have m: "memory_for_object m" "\<forall>n. om_cbb m n" using assms(3) by (simp_all add: memory_for_def)
  have num: "0 < NUM_NID dat" using assms(1) by (simp add: dat_ok_def)
  have len: "length (oid_bytes a b rest) < SIZE_MOD" using assms(6) by (simp add: INT_MAX_def SIZE_MOD_def)
  obtain ob gl1 where s: "create_object_with_text_oid m (Some obj_next_nid) ?text (Some sn) (Some ln) gl = (Some ob, gl1)"
    using text_oid_progress[OF assms(5) m(2) _ _ _ _ len] m(1) unfolding memory_for_object_def by blast
  then obtain nid gl' a' b' rest' where c: "OBJ_create m ?text (Some sn) (Some ln) gl = Some (nid, gl')" "registry_ok dat gl'"
    "nid = uint (gl_next_nid gl)" "nid \<noteq> NID_undef" "oid_valid a' b'" "?text = dotted (a' # b' # rest')"
    "added gl' = add_to (new_object nid (oid_bytes a' b' rest') (Some sn) (Some ln)) (added gl)"
    using OBJ_create_registry[OF assms(2-4) num, of ?text "Some sn" "Some ln"] by (metis fst_conv option.distinct(1))
  let ?bytes = "oid_bytes a b rest" and ?ob = "new_object nid (oid_bytes a b rest) (Some sn) (Some ln)"
  have b: "oid_bytes a' b' rest' = ?bytes" using dotted_oid_bytes[OF assms(5) c(5,6) len] by simp
  have st: "stored t ?ob" for t by (cases t) (simp_all add: new_object_def oid_bytes_nonempty)
  have a: "added gl' t (obj_key t ?ob) = Some ?ob" for t using c(7) b st by (simp add: add_to_def)
  have "OBJ_nid2obj dat gl' nid = Some ?ob"
    using nid2obj_added(2)[OF c(2)] a[of By_nid] by (simp add: new_object_def)
  moreover have "look dat gl' t x = nid" if "has_key t x" "obj_key t x = obj_key t ?ob" for t x
    using look_added[OF c(2) that(1)] a[of t] that(2) by (simp add: new_object_def)
  then have "OBJ_sn2nid dat gl' sn = nid" "OBJ_ln2nid dat gl' ln = nid" "OBJ_cbs2nid dat gl' ?bytes = nid"
    using assms(6) by (simp_all add: lookups new_object_def obj_valid_def obj_bytes_def c_str_def)
  ultimately show ?thesis using c(1,4) by blast
qed

section \<open>A table\<close>

text \<open>The first two entries of \<open>kObjects\<close>, and memory that never runs out.\<close>

definition two_objects :: obj_dat where
  "two_objects = \<lparr>kObjects =
     [\<lparr>ob_sn = Some [0x55, 0x4e, 0x44, 0x45, 0x46], ob_ln = Some [0x75, 0x6e, 0x64, 0x65, 0x66, 0x69, 0x6e, 0x65, 0x64],
        ob_nid = 0, ob_length = 0, ob_data = None, ob_flags = 0\<rparr>,
      \<lparr>ob_sn = Some [0x72, 0x73, 0x61, 0x64, 0x73, 0x69], ob_ln = Some [0x52, 0x53, 0x41],
        ob_nid = 1, ob_length = 6, ob_data = Some [0x2a, 0x86, 0x48, 0x86, 0xf7, 0x0d], ob_flags = 0\<rparr>],
     kNIDsInShortNameOrder = [0, 1], kNIDsInLongNameOrder = [1, 0], kNIDsInOIDOrder = [1]\<rparr>"

definition all_memory :: obj_mem where
  "all_memory = \<lparr>om_object = True, om_data = (\<lambda>n. Some (replicate n 0)), om_ln = True, om_sn = True, om_cbb = (\<lambda>_. True),
     om_table = (\<lambda>_. True), om_item = (\<lambda>_. Some 0), om_buckets = (\<lambda>_. True)\<rparr>"

lemma two_objects_ok: "dat_ok two_objects"
proof -
  have two: "n < NUM_NID two_objects \<longleftrightarrow> n = 0 \<or> n = 1" for n by (auto simp: NUM_NID_def two_objects_def)
  have at: "kObjects two_objects ! 0 = hd (kObjects two_objects)" "kObjects two_objects ! 1 = hd (tl (kObjects two_objects))"
    by (simp_all add: two_objects_def)
  have "lists_objects two_objects t" if "t \<noteq> By_nid" for t
    using that unfolding lists_objects_def
    by (cases t) (simp_all add: two_objects_def NUM_NID_def oid_rank_def c_str_def less_Suc_eq)
  moreover have "\<forall>t n. t \<noteq> By_nid \<longrightarrow> n < NUM_NID two_objects \<longrightarrow> stored t (kObjects two_objects ! 0) \<longrightarrow>
      stored t (kObjects two_objects ! n) \<longrightarrow> obj_key t (kObjects two_objects ! n) = obj_key t (kObjects two_objects ! 0) \<longrightarrow> n = 0"
    unfolding two by (auto simp: two_objects_def c_str_def elim!: obj_key.elims)
  moreover have "\<forall>n < NUM_NID two_objects. obj_valid (kObjects two_objects ! n) \<and> ob_nid (kObjects two_objects ! n) = int n"
    unfolding two by (auto simp: two_objects_def obj_valid_def obj_bytes_def)
  ultimately show ?thesis by (simp add: dat_ok_def INT_MAX_def NUM_NID_def two_objects_def)
qed

lemma all_memory_for: "(\<And>t. gl_added gl t = None) \<Longrightarrow> memory_for all_memory gl"
  by (simp add: memory_for_def memory_for_object_def memory_for_tables_def item_fresh_def all_memory_def)

end
