(* ===== verification/Policy_Faults.thy ===== *)
theory Policy_Faults
  imports Policy_Sets Obj_Names
begin

text \<open>
  Where the policy check goes wrong: what \<open>check_policy\<close> does not report, what happens to the root of the
  tree when the stack of extra data cannot be allocated, and a cache that was cut short. The sample chains
  that the properties are applied to are here as well.
\<close>

section \<open>An invalid policy extension of the leaf\<close>

lemma report_invalid_none:
  "\<forall>i\<in>set is. x_ex_flags (ctx_chain ctx ! i) AND EXFLAG_INVALID_POLICY = 0 \<Longrightarrow> report_invalid verify_cb is ctx = (1, ctx)"
  by (induction "is") simp_all

lemma invalid_flag: "(f OR EXFLAG_INVALID_POLICY) AND EXFLAG_INVALID_POLICY \<noteq> 0"
proof
  assume "(f OR EXFLAG_INVALID_POLICY) AND EXFLAG_INVALID_POLICY = 0"
  then have "EXFLAG_INVALID_POLICY AND EXFLAG_INVALID_POLICY = 0" by (simp add: word_ao_dist or_zero_iff)
  then show False by (simp add: EXFLAG_INVALID_POLICY_def)
qed

text \<open>A certificate that lists a policy twice and has no policy constraints.\<close>

definition lists_twice :: "policy_env \<Rightarrow> 'q x509 \<Rightarrow> bool" where
  "lists_twice env x \<longleftrightarrow> x_policy_cache x = None \<and> x_policy_constraints x = (None, -1) \<and>
     (\<exists>ps i. x_certificate_policies x = (Some ps, i) \<and> ps \<noteq> [] \<and> (\<forall>p\<in>set ps. obj_valid (pi_policyid p)) \<and>
       length ps < STACK_ROOM \<and> \<not> distinct (map (policy_key env) ps))"

lemma policy_cache_set_twice:
  assumes "all_got env" and "lists_twice env x"
  shows "\<exists>cache x' k'. policy_cache_set env x k = Some (Some cache, x', k') \<and> x_ex_flags x' AND EXFLAG_INVALID_POLICY \<noteq> 0"
proof -
  obtain ps i where p: "x_certificate_policies x = (Some ps, i)" "ps \<noteq> []" "\<forall>p\<in>set ps. obj_valid (pi_policyid p)"
    "length ps < STACK_ROOM" "\<not> distinct (map (policy_key env) ps)"
    using assms(2) by (auto simp: lists_twice_def)
  have x: "x_policy_cache x = None" "x_policy_constraints x = (None, -1)" using assms(2) by (simp_all add: lists_twice_def)
  let ?c = "\<lparr>pc_anyPolicy = None, pc_data = None, pc_any_skip = -1, pc_explicit_skip = -1, pc_map_skip = -1\<rparr> :: 'a policy_cache"
  let ?x = "x\<lparr>x_policy_cache := Some ?c\<rparr>"
  have "x_policy_cache ?x = Some ?c" "pc_anyPolicy ?c = None" by simp_all
  from policy_cache_create_ok[OF assms(1) this p(2-4), of "i \<noteq> 0" "k + 1"]
  obtain cache' k' where c: "policy_cache_create env ps (i \<noteq> 0) ?x (k + 1) = Some (-1, bad_cache (?x\<lparr>x_policy_cache := Some cache'\<rparr>), k')"
    using p(5) by auto
  have "policy_cache_new env x k = Some (-1, bad_cache (?x\<lparr>x_policy_cache := Some cache'\<rparr>), k')"
    using c x p(1) by (simp add: policy_cache_new_def got[OF assms(1)] policy_cache_constraints_def Let_def)
  then show ?thesis using x(1) invalid_flag by (simp add: policy_cache_set_def bad_cache_def)
qed

lemma leaf_twice_check:
  assumes "all_got env" and "lists_twice env leaf"
  shows "\<exists>leaf' h'. X509_policy_check env flags oids [leaf, anchor] h = Some (-1, None, False, [leaf', anchor], h') \<and>
    x_ex_flags leaf' AND EXFLAG_INVALID_POLICY \<noteq> 0"
proof -
  obtain cache leaf' k where s: "policy_cache_set env leaf (hp_count h) = Some (Some cache, leaf', k)"
    "x_ex_flags leaf' AND EXFLAG_INVALID_POLICY \<noteq> 0"
    using policy_cache_set_twice[OF assms] by blast
  have r: "rev [0..<length [leaf, anchor] - 1] = [0]" by simp
  have "tree_init env flags [leaf, anchor] h = Some (-1, None, [leaf', anchor], h\<lparr>hp_count := k\<rparr>)"
    unfolding tree_init_def r using s by (simp add: chain_cache_def Let_def)
  then show ?thesis using s(2) by (simp add: X509_policy_check_def)
qed

section \<open>Memory runs out\<close>

text \<open>All allocations succeed except the one with the given number.\<close>

definition fails_at :: "policy_env \<Rightarrow> nat \<Rightarrow> bool" where
  "fails_at env k \<longleftrightarrow> pe_got env = (\<lambda>j. j \<noteq> k)"

text \<open>A certificate whose cache holds policies, and no invalid extension.\<close>

definition has_policies :: "'q x509 \<Rightarrow> bool" where
  "has_policies x \<longleftrightarrow> (\<exists>cache. x_policy_cache x = Some cache \<and> pc_data cache \<noteq> None) \<and> x_ex_flags x AND EXFLAG_INVALID_POLICY = 0"

lemma init_caches_policies:
  "\<forall>c\<in>set cs. c < length certs \<and> has_policies (certs ! c) \<Longrightarrow> \<exists>explicit'. init_caches env cs 1 explicit certs k = Some (1, explicit', certs, k)"
proof (induction cs arbitrary: explicit)
  case (Cons c cs)
  then obtain cache s where c: "c < length certs" "x_policy_cache (certs ! c) = Some cache" "pc_data cache = Some s"
    "x_ex_flags (certs ! c) AND EXFLAG_INVALID_POLICY = 0" by (auto simp: has_policies_def)
  from Cons.IH Cons.prems have "\<exists>explicit'. init_caches env cs 1 e certs k = Some (1, explicit', certs, k)" for e by simp
  then show ?case using chain_cache_set[OF c(1,2), of env k] c(3,4) by (simp add: Let_def)
qed simp

lemma policy_data_new_static:
  assumes "fails_at env j" and "k + 7 \<le> j"
  shows "\<exists>d. policy_data_new env None (Some ob) crit k = (Some d, k + 7) \<and> ob_nid (pd_valid_policy d) = ob_nid ob"
proof -
  have g: "pe_got env i" if "i \<le> k + 6" for i using assms that by (simp add: fails_at_def)
  have "OBJ_dup (dup_mem env k) (Some ob) \<noteq> None"
    using g by (auto simp: OBJ_dup_def dup_mem_def ASN1_OBJECT_new_def OPENSSL_strdup_def Let_def split: option.splits)
  then obtain r where r: "OBJ_dup (dup_mem env k) (Some ob) = Some r" by blast
  have "sk_new_null True (array_mem env (k + 6)) \<noteq> (None :: (asn1_object, unit) stack_ptr)"
    using g[of "k + 6"] by (simp add: sk_new_null_def sk_new_def array_mem_def)
  then show ?thesis using r g OBJ_dup_nid[OF r] by (auto simp: policy_data_new_def)
qed

text \<open>The root is freed when its data cannot be recorded, and again when the tree is released.\<close>

lemma tree_build_twice_freed:
  assumes "fails_at env (hp_count h + 10)" and "any_known env" and "OBJ_nid2obj (pe_dat env) (pe_gl env) NID_any_policy = Some ob"
    and "certs \<noteq> []"
  shows "tree_build env flags explicit certs h = None"
proof -
  let ?k = "hp_count h" and ?n = "length certs"
  have g: "pe_got env i \<longleftrightarrow> i \<noteq> ?k + 10" for i using assms(1) by (simp add: fails_at_def)
  have k: "?k + 2 + 7 = ?k + 9" "?k + 2 + 7 \<le> ?k + 10" by simp_all
  obtain d :: "'a policy_data" where d: "policy_data_new env None (Some ob) False (?k + 2) = (Some d, ?k + 9)" "ob_nid (pd_valid_policy d) = ob_nid ob"
    using policy_data_new_static[OF assms(1) k(2), of ob False] unfolding k(1) by blast
  have any: "is_any_policy env (pd_valid_policy d)"
    using assms(2,3) d(2) by (intro is_any_nid) (simp add: any_known_def)
  obtain m where n: "?n = Suc m" using assms(4) by (cases certs) auto
  let ?h = "h\<lparr>hp_count := ?k + 9\<rparr>" and ?lv = "empty_level\<lparr>lv_anyPolicy := Some (hp_next h)\<rparr>"
  have p: "push_new env None (Some d) None j = (False, None, j + 2)" if "j = ?k + 10" for j
    using g[of j] that by (simp add: push_new_def sk_new_def)
  have "\<exists>h1. level_add_node env (Some empty_level) d None (Some None) ?h = Some (None, Some ?lv, Some None, h1) \<and> hp_node h1 (hp_next h) = None"
    using any by (simp add: p g level_add_node_def Let_def level_link_def empty_level_def policy_node_free_def)
  then obtain h1 where a: "level_add_node env (Some empty_level) d None (Some None) ?h = Some (None, Some ?lv, Some None, h1)"
    "hp_node h1 (hp_next h) = None" by blast
  have "(replicate ?n empty_level) ! 0 = empty_level" "(replicate ?n empty_level)[0 := ?lv] = ?lv # replicate m empty_level"
    using n by simp_all
  moreover have "free_levels (?lv # replicate m empty_level) h1 = None"
    using a(2) by (simp add: empty_level_def sk_pop_free_ex_def policy_node_free_def)
  moreover have "sk_pop_free_ex (None :: node_stack) = []" by (simp add: sk_pop_free_ex_def)
  ultimately show ?thesis
    using n g[of ?k] g[of "?k + 1"] assms(3) d(1) a(1) by (simp add: tree_build_def Let_def X509_policy_tree_free_def del: free_levels.simps)
qed

lemma root_freed_twice:
  assumes "fails_at env (hp_count h + 10)" and "any_known env" and "OBJ_nid2obj (pe_dat env) (pe_gl env) NID_any_policy = Some ob"
    and "2 \<le> length certs" and "\<forall>c < length certs - 1. has_policies (certs ! c)"
  shows "X509_policy_check env flags oids certs h = None"
proof -
  let ?n = "length certs"
  have "\<forall>c\<in>set (rev [0..<?n - 1]). c < ?n \<and> has_policies (certs ! c)" using assms(5) by auto
  then obtain e where e: "init_caches env (rev [0..<?n - 1]) 1 (skip_start flags X509_V_FLAG_EXPLICIT_POLICY ?n) certs (hp_count h) =
      Some (1, e, certs, hp_count h)"
    using init_caches_policies by blast
  have "certs \<noteq> []" using assms(4) by auto
  then have "tree_build env flags e certs h = None" using tree_build_twice_freed[OF assms(1-3)] by blast
  then show ?thesis using e assms(4) by (simp add: X509_policy_check_def tree_init_def Let_def)
qed

text \<open>
  A cache whose stack could not be made is kept: the certificate counts as one without policies from then
  on, and no error is reported.
\<close>

lemma cache_cut_short:
  assumes "fails_at env (k + 1)" and "x_policy_cache x = None" and "x_policy_constraints x = (None, -1)"
    and "x_certificate_policies x = (Some (p # ps), i)"
  shows "\<exists>cache. policy_cache_set env x k = Some (Some cache, x\<lparr>x_policy_cache := Some cache\<rparr>, k + 3) \<and> pc_data cache = None"
proof -
  have "pe_got env k" "\<not> pe_got env (Suc k)" using assms(1) by (simp_all add: fails_at_def)
  then show ?thesis
    using assms(2-4) by (simp add: policy_cache_set_def policy_cache_new_def policy_cache_constraints_def policy_cache_create_def sk_new_def Let_def)
qed

section \<open>The growth of a level\<close>

text \<open>Every node of the level above matches every one of the policies.\<close>

definition every_match :: "policy_level \<Rightarrow> 'q policy_data list \<Rightarrow> nat list \<Rightarrow> 'q policy_heap \<Rightarrow> bool" where
  "every_match prev ds as h \<longleftrightarrow> (\<forall>a\<in>set as. a < hp_next h \<and> (\<exists>n. hp_node h a = Some n \<and>
     (\<forall>d\<in>set ds. policy_node_match prev n (pd_valid_policy d) = Some True)))"

lemma policy_node_match_data: "nd_data n' = nd_data n \<Longrightarrow> policy_node_match prev n' oid = policy_node_match prev n oid"
  by (simp add: policy_node_match_def)

text \<open>A node more, and the data of the others as they were.\<close>

definition extends :: "'q policy_heap \<Rightarrow> 'q policy_heap \<Rightarrow> bool" where
  "extends h h' \<longleftrightarrow> hp_next h \<le> hp_next h' \<and>
     (\<forall>a n. a < hp_next h \<longrightarrow> hp_node h a = Some n \<longrightarrow> (\<exists>n'. hp_node h' a = Some n' \<and> nd_data n' = nd_data n))"

lemma every_match_extends:
  assumes "every_match prev ds as h" and "extends h h'"
  shows "every_match prev ds as h'"
  unfolding every_match_def
proof
  fix a
  assume "a \<in> set as"
  then obtain n where n: "a < hp_next h" "hp_node h a = Some n" "\<forall>d\<in>set ds. policy_node_match prev n (pd_valid_policy d) = Some True"
    using assms(1) unfolding every_match_def by blast
  then obtain n' where m: "hp_node h' a = Some n'" "nd_data n' = nd_data n" using assms(2) unfolding extends_def by blast
  have "\<forall>d\<in>set ds. policy_node_match prev n' (pd_valid_policy d) = Some True" using n(3) policy_node_match_data[OF m(2)] by simp
  moreover have "a < hp_next h'" using n(1) assms(2) by (simp add: extends_def)
  ultimately show "a < hp_next h' \<and> (\<exists>n. hp_node h' a = Some n \<and>
     (\<forall>d\<in>set ds. policy_node_match prev n (pd_valid_policy d) = Some True))" using m(1) by blast
qed

text \<open>The level has so many nodes more.\<close>

definition grows :: "nat \<Rightarrow> policy_level \<Rightarrow> 'q policy_heap \<Rightarrow> policy_level \<Rightarrow> 'q policy_heap \<Rightarrow> bool" where
  "grows k lv h lv' h' \<longleftrightarrow> stack_wf (lv_nodes lv') \<and> sk_num (lv_nodes lv') = sk_num (lv_nodes lv) + k \<and> extends h h'"

lemma grows_refl: "stack_wf (lv_nodes lv) \<Longrightarrow> grows 0 lv h lv h"
  by (simp add: grows_def extends_def)

lemma extends_trans:
  assumes "extends h h1" and "extends h1 h2"
  shows "extends h h2"
  unfolding extends_def
proof (intro conjI allI impI)
  show "hp_next h \<le> hp_next h2" using assms by (simp add: extends_def)
next
  fix a n
  assume a: "a < hp_next h" "hp_node h a = Some n"
  from assms(1) a obtain n1 where n: "hp_node h1 a = Some n1" "nd_data n1 = nd_data n" unfolding extends_def by blast
  have "a < hp_next h1" using assms(1) a(1) by (simp add: extends_def)
  with assms(2) n(1) obtain n2 where "hp_node h2 a = Some n2" "nd_data n2 = nd_data n1" unfolding extends_def by blast
  with n(2) show "\<exists>n'. hp_node h2 a = Some n' \<and> nd_data n' = nd_data n" by simp
qed

lemma grows_trans:
  assumes "grows k lv h lv1 h1" and "grows j lv1 h1 lv2 h2"
  shows "grows (k + j) lv h lv2 h2"
proof -
  have "extends h h2" using assms unfolding grows_def by (blast intro: extends_trans)
  then show ?thesis using assms by (simp add: grows_def)
qed

lemma add_listed_grows:
  assumes "all_got env" and "stack_wf (lv_nodes lv)" and "sk_num (lv_nodes lv) < STACK_ROOM" and "\<not> is_any_policy env (pd_valid_policy data)"
    and "hp_node h p = Some n" and "p < hp_next h"
  shows "\<exists>lv' h'. add_listed env lv data (Some p) h = Some (True, lv', h') \<and> grows 1 lv h lv' h'"
proof -
  let ?a = "hp_next h"
  obtain s k where s: "push_new env (Some ()) (Some ?a) (lv_nodes lv) (hp_count h + 1) = (True, Some s, k)" "sk_wf s"
    "stack_items (Some s) = stack_items (lv_nodes lv) @ [Some ?a]"
    using push_new_got[OF assms(1-3), where c = "Some ()" and p = "Some ?a" and k = "hp_count h + 1"] by blast
  have num: "sk_num (Some s) = sk_num (lv_nodes lv) + 1" using s(3) by (metis length_append_singleton length_stack_items Suc_eq_plus1)
  let ?h = "h\<lparr>hp_node := (hp_node h)(?a \<mapsto> \<lparr>nd_data = data, nd_parent = Some p, nd_nchild = 0\<rparr>, p \<mapsto> n\<lparr>nd_nchild := nd_nchild n + 1\<rparr>),
    hp_next := ?a + 1, hp_count := k\<rparr>"
  have "add_listed env lv data (Some p) h = Some (True, lv\<lparr>lv_nodes := Some s\<rparr>, ?h)"
    using s(1) assms(4-6) by (simp add: add_listed_def level_add_node_def got[OF assms(1)] level_link_def Let_def child_add_def)
  moreover have "grows 1 lv h (lv\<lparr>lv_nodes := Some s\<rparr>) ?h" using s(2) num assms(5) by (auto simp: grows_def extends_def)
  ultimately show ?thesis by blast
qed

lemma link_matching_grows:
  assumes "all_got env" and "\<not> is_any_policy env (pd_valid_policy data)"
  shows "every_match prev [data] as h \<Longrightarrow> stack_wf (lv_nodes lv) \<Longrightarrow> sk_num (lv_nodes lv) + length as \<le> STACK_ROOM \<Longrightarrow>
    \<exists>lv' h'. link_matching env prev data (map Some as) matched lv h = Some (True, matched \<or> as \<noteq> [], lv', h') \<and> grows (length as) lv h lv' h'"
proof (induction as arbitrary: matched lv h)
  case Nil
  then show ?case using grows_refl[of lv h] by simp
next
  case (Cons a as)
  obtain n where n: "hp_node h a = Some n" "a < hp_next h" "policy_node_match prev n (pd_valid_policy data) = Some True"
    using Cons.prems(1) by (auto simp: every_match_def)
  obtain lv1 h1 where l: "add_listed env lv data (Some a) h = Some (True, lv1, h1)" "grows 1 lv h lv1 h1"
    using add_listed_grows[OF assms(1) Cons.prems(2) _ assms(2) n(1,2)] Cons.prems(3) by auto
  have "every_match prev [data] as h" using Cons.prems(1) by (simp add: every_match_def)
  then have m: "every_match prev [data] as h1" by (rule every_match_extends) (use l(2) in \<open>simp add: grows_def\<close>)
  obtain lv2 h2 where r: "link_matching env prev data (map Some as) True lv1 h1 = Some (True, True, lv2, h2)" "grows (length as) lv1 h1 lv2 h2"
    using Cons.IH[OF m, of lv1 True] l(2) Cons.prems(3) by (auto simp: grows_def)
  then show ?case using grows_trans[OF l(2) r(2)] n(1,3) l(1) by (simp add: node_at_def)
qed

lemma link_listed_grows:
  assumes "all_got env" and "stack_items (lv_nodes prev) = map Some as" and "as \<noteq> []"
  shows "every_match prev ds as h \<Longrightarrow> \<forall>d\<in>set ds. \<not> is_any_policy env (pd_valid_policy d) \<Longrightarrow> stack_wf (lv_nodes lv) \<Longrightarrow>
    sk_num (lv_nodes lv) + length ds * length as \<le> STACK_ROOM \<Longrightarrow>
    \<exists>lv' h'. link_listed env prev (map Some ds) lv h = Some (True, lv', h') \<and> grows (length ds * length as) lv h lv' h'"
proof (induction ds arbitrary: lv h)
  case Nil
  then show ?case using grows_refl[of lv h] by simp
next
  case (Cons d ds)
  have d: "every_match prev [d] as h" "\<not> is_any_policy env (pd_valid_policy d)" "every_match prev ds as h"
    using Cons.prems(1,2) by (auto simp: every_match_def)
  obtain lv1 h1 where l: "link_matching env prev d (map Some as) False lv h = Some (True, True, lv1, h1)" "grows (length as) lv h lv1 h1"
    using link_matching_grows[OF assms(1) d(2,1) Cons.prems(3), of False] Cons.prems(4) assms(3) by auto
  then have t: "tree_link_matching_nodes env prev lv d h = Some (True, lv1, h1)"
    by (simp add: tree_link_matching_nodes_def assms(2))
  have m: "every_match prev ds as h1" by (rule every_match_extends[OF d(3)]) (use l(2) in \<open>simp add: grows_def\<close>)
  obtain lv2 h2 where r: "link_listed env prev (map Some ds) lv1 h1 = Some (True, lv2, h2)" "grows (length ds * length as) lv1 h1 lv2 h2"
    using Cons.IH[OF m, of lv1] l(2) Cons.prems(2,4) by (auto simp: grows_def)
  then show ?case using grows_trans[OF l(2) r(2)] t by simp
qed

section \<open>Samples\<close>

definition any_policy_object :: asn1_object where
  "any_policy_object = \<lparr>ob_sn = None, ob_ln = None, ob_nid = 746, ob_length = 4, ob_data = Some [0x55, 0x1d, 0x20, 0x00], ob_flags = 0\<rparr>"

text \<open>A table with \<open>anyPolicy\<close> only.\<close>

definition sample_dat :: obj_dat where
  "sample_dat = \<lparr>kObjects = replicate 746 obj_template @ [any_policy_object], kNIDsInShortNameOrder = [],
     kNIDsInLongNameOrder = [], kNIDsInOIDOrder = [746]\<rparr>"

definition sample_env :: "(nat \<Rightarrow> bool) \<Rightarrow> policy_env" where
  "sample_env grants = \<lparr>pe_dat = sample_dat, pe_gl = initial_globals sample_dat, pe_got = grants\<rparr>"

definition sample_oid :: "u8 \<Rightarrow> asn1_object" where
  "sample_oid b = \<lparr>ob_sn = None, ob_ln = None, ob_nid = 1, ob_length = 1, ob_data = Some [b], ob_flags = 0\<rparr>"

definition sample_policy :: "u8 \<Rightarrow> unit policyinfo" where
  "sample_policy b = \<lparr>pi_policyid = sample_oid b, pi_qualifiers = None\<rparr>"

definition sample_cert :: "unit policyinfo list \<Rightarrow> unit x509" where
  "sample_cert ps = \<lparr>x_ex_flags = 0, x_policy_cache = None, x_policy_constraints = (None, -1), x_certificate_policies = (Some ps, 0),
     x_policy_mappings = (None, -1), x_inhibit_any_policy = (None, -1)\<rparr>"

definition empty_heap :: "unit policy_heap" where
  "empty_heap = \<lparr>hp_node = (\<lambda>_. None), hp_next = 0, hp_count = 0\<rparr>"

lemma sample_env_any: "any_known (sample_env grants)" "OBJ_nid2obj (pe_dat (sample_env grants)) (pe_gl (sample_env grants)) NID_any_policy = Some any_policy_object"
  by (simp_all add: any_known_def OBJ_nid2obj_def sample_env_def sample_dat_def NID_any_policy_def NUM_NID_def NID_undef_def nth_append any_policy_object_def)

lemma sample_got: "all_got (sample_env (\<lambda>_. True))"
  by (simp add: all_got_def sample_env_def)

lemma sample_oid_valid: "obj_valid (sample_oid b)"
  by (simp add: obj_valid_def sample_oid_def obj_bytes_def)

lemma sample_oid_not_any: "\<not> is_any_policy env (sample_oid b)"
  by (simp add: is_any_policy_def OBJ_obj2nid_def sample_oid_def NID_any_policy_def)

lemma sample_oid_cmp: "OBJ_cmp (sample_oid b) (sample_oid b') = 0 \<longleftrightarrow> b = b'"
  by (simp add: OBJ_cmp_order(3)[OF sample_oid_valid sample_oid_valid]) (simp add: sample_oid_def obj_bytes_def)

definition sample_ctx :: "unit x509 list \<Rightarrow> unit x509_store_ctx" where
  "sample_ctx chain = \<lparr>ctx_parent = False, ctx_tree = None, ctx_explicit_policy = False, ctx_chain = chain, ctx_policies = None,
     ctx_flags = 0, ctx_error = 0, ctx_current_cert = None\<rparr>"

text \<open>Two policies that are both mapped to the policies 3 and 4, which the next certificate lists.\<close>

definition full_stack :: "'p option list \<Rightarrow> ('p, unit) stack_ptr" where
  "full_stack xs = Some \<lparr>stk_num = length xs, stk_data = xs, stk_sorted = False, stk_num_alloc = length xs, stk_comp = Some ()\<rparr>"

definition empty_cache :: "unit policy_cache" where
  "empty_cache = \<lparr>pc_anyPolicy = None, pc_data = None, pc_any_skip = -1, pc_explicit_skip = -1, pc_map_skip = -1\<rparr>"

definition pair_data :: "unit policy_data list" where
  "pair_data = map (\<lambda>b. \<lparr>pd_flags = 0, pd_valid_policy = sample_oid b, pd_qualifier_set = None, pd_expected_policy_set = None\<rparr>) [3, 4]"

definition pair_cache :: "unit policy_cache" where
  "pair_cache = \<lparr>pc_anyPolicy = None, pc_data = full_stack (map Some pair_data), pc_any_skip = -1, pc_explicit_skip = -1, pc_map_skip = -1\<rparr>"

definition mapped_node :: "u8 \<Rightarrow> unit policy_node" where
  "mapped_node b = \<lparr>nd_data = \<lparr>pd_flags = POLICY_DATA_FLAG_MAPPED, pd_valid_policy = sample_oid b, pd_qualifier_set = None,
     pd_expected_policy_set = full_stack [Some (sample_oid 3), Some (sample_oid 4)]\<rparr>, nd_parent = None, nd_nchild = 0\<rparr>"

definition mapped_level :: policy_level where
  "mapped_level = empty_level\<lparr>lv_nodes := full_stack [Some 0, Some 1]\<rparr>"

definition mapped_heap :: "unit policy_heap" where
  "mapped_heap = \<lparr>hp_node = [0 \<mapsto> mapped_node 1, 1 \<mapsto> mapped_node 2], hp_next = 2, hp_count = 0\<rparr>"

lemma full_stack_items: "stack_items (full_stack xs) = xs"
  by (auto simp: stack_items_def full_stack_def sk_num_def sk_value_def intro: nth_equalityI)

lemma mapped_items: "stack_items (lv_nodes mapped_level) = map Some [0, 1]" "stack_items (pc_data pair_cache) = map Some pair_data"
  by (simp_all add: mapped_level_def pair_cache_def full_stack_items)

lemma mapped_match: "every_match mapped_level pair_data [0, 1] mapped_heap"
  by (simp add: every_match_def mapped_heap_def policy_node_match_def mapped_node_def mapped_level_def empty_level_def pair_data_def
    full_stack_items POLICY_DATA_FLAG_MAPPED_def POLICY_DATA_FLAG_MAP_MASK_def sample_oid_cmp)

end
