(* ===== verification/Spec2Isabelle.thy ===== *)
theory Spec2Isabelle
  imports Asn1_Objects Ber Unicode Base64 Pb_Results Pb_Safety Pb_Roundtrip Sha2_Constants Key_Derivation Policy_Faults "HOL-Library.Code_Target_Nat"
begin

text \<open>
  The C libraries this iOS chat application is built with: of BoringSSL, through which every
  connection goes, the byte-string and ASN.1 layer, the containers, the registry of object identifiers,
  the check of certificate policies, and the digests with what is built on them; and nanopb, with which the Firestore client encodes and
  decodes all that is stored on the device and sent to the server. The application itself is Swift:
  screens, presenters and calls to vendor services; it is not modelled.

  BoringSSL (\<open>Pods/BoringSSL-GRPC/src/crypto\<close>).
  \<^item> \<open>Prelude\<close>: machine words and sizes, operations with a state (an \<open>op\<close> returns an optional value
    and the state, also when it fails), loops over them, codecs (\<open>prefix_codec\<close>,
    \<open>canonical_codec\<close>), and simulations between an operation and its specification.
  \<^item> \<open>Cbs\<close>, \<open>Der\<close> (\<open>bytestring/cbs.c\<close>): the reader. A \<open>CBS\<close>, a pointer and a length, is the list of
    the bytes left.
  \<^item> \<open>Cbb\<close> (\<open>bytestring/cbb.c\<close>): the builder. The buffer and the chain of open children are one
    state; a \<open>CBB\<close> is its depth in the chain. Allocation is a parameter that says whether a request
    of so many bytes succeeds. \<open>Cbb_Refine\<close> gives its contract, a list of levels with pending
    prefixes, and \<open>Cbb_Ops\<close> the proof that each operation implements its step on levels; an
    operation may also fail for want of memory, then the buffer is marked.
  \<^item> \<open>Base128\<close>, \<open>Tlv\<close>, \<open>Asn1_Ints\<close>: the canonical encodings of tags, lengths, elements and integers,
    as plain functions on lists, and the proofs that the readers accept exactly these.
    \<open>Cbb_Asn1\<close>, \<open>Asn1_Objects\<close>: the ASN.1 half of the builder, object identifiers, sets.
  \<^item> \<open>Ber\<close> (\<open>ber.c\<close>, \<open>asn1_compat.c\<close>), \<open>Unicode\<close> (\<open>unicode.c\<close>), \<open>Const_Time\<close> (\<open>internal.h\<close>), \<open>Base64\<close>
    (\<open>base64.c\<close>).
  \<^item> \<open>Stack\<close> (\<open>stack/stack.c\<close>): growing arrays of pointers. The model keeps the array with its capacity;
    \<open>sk_list\<close> is the list it stands for and \<open>sk_ok\<close> its invariant. \<open>Lhash\<close> (\<open>lhash/lhash.c\<close>): the hash
    table, its chains lists of items that keep their addresses, for the iteration holds pointers to them;
    \<open>Lhash_Map\<close> proves it a map.
  \<^item> \<open>Obj\<close> (\<open>obj/obj.c\<close>): object identifiers, their numbers and names. It composes the builder (creating an
    identifier from text), the hash table (objects added at run time) and bisection in the built-in tables.
    \<open>Obj_Map\<close> proves the four tables maps and the searches right, \<open>Obj_Names\<close> the registry as a state
    machine: \<open>registry_step\<close> is a call of \<open>OBJ_create\<close>, \<open>registry_reach\<close> the states reached from the static
    initialisers, \<open>registry_ok\<close> the invariant.
  \<^item> Certificate policies (\<open>x509v3/pcy_*.c\<close> and \<open>check_policy\<close> of \<open>x509/x509_vfy.c\<close>), on the stacks and
    the registry. \<open>Policy_Cache\<close> (\<open>pcy_data.c\<close>, \<open>pcy_cache.c\<close>, \<open>pcy_map.c\<close>): what the extensions of one
    certificate say. \<open>Policy_Tree\<close> (\<open>pcy_node.c\<close>, \<open>pcy_tree.c\<close>): the nodes, which are addresses in a heap, for
    they are shared, counted and freed; linking a level to the one above. \<open>Policy_Check\<close>: pruning, the sets of
    policies, release, \<open>X509_policy_check\<close>, and what the verification reports. The heap counts allocations,
    and the environment says which of them succeed; using a freed or null node is \<open>None\<close>.
    \<open>Policy_Facts\<close> and \<open>Policy_Certs\<close> prove what the cache holds, \<open>Policy_Heap\<close>, \<open>Policy_Link\<close> and
    \<open>Policy_Prune\<close> keep the invariant \<open>tree_inv\<close> (every node is in one place, and counts its children),
    \<open>Policy_Safe\<close> and \<open>Policy_Sets\<close> follow it through a check with memory enough, and bound the nodes.
    \<open>Policy_Faults\<close> is what goes wrong: without memory, and in the report.
  \<^item> \<open>Md32\<close> (\<open>digest/md32_common.h\<close>), \<open>Sha2\<close>, \<open>Sha1\<close>, \<open>Md5\<close> (\<open>sha256.c\<close>, \<open>sha512.c\<close>, \<open>sha1.c\<close>, \<open>md5.c\<close>,
    \<open>md4.c\<close>): the digests, in the C that is used without assembly. \<open>Sha2_Spec\<close> and the ends of \<open>Sha1\<close> and
    \<open>Md5\<close> state the standards and prove the unrolled rounds equal to them; \<open>Sha2_Constants\<close> checks the
    tables against the roots of primes.
  \<^item> \<open>Evp_Digest\<close> (\<open>digest/digest.c\<close>, \<open>digests.c\<close>): contexts that hold any of the digests, by way of tables of
    methods; \<open>Hmac\<close> (\<open>hmac.c\<close>) and \<open>Key_Derivation\<close> (\<open>hkdf.c\<close>, \<open>pbkdf.c\<close>) on top of them, each against its RFC.

  nanopb (\<open>Pods/nanopb\<close>), built as its configuration files say, with 32-bit descriptor fields and
  with an allocator, for a 64-bit little-endian machine.
  \<^item> \<open>Pb_Stream\<close>, \<open>Pb_Varint\<close>: streams and the wire format. A stream keeps the caller's callback and
    state; a caller's callback is any function. \<open>emits\<close> and \<open>follows\<close> say what an operation on
    streams does in terms of bytes; \<open>Pb_Wire\<close> and \<open>Pb_Codec\<close> prove it of every encoder and decoder.
  \<^item> \<open>Pb_Fields\<close> (\<open>pb_common.c\<close>, \<open>pb.h\<close>): descriptors, byte-addressed memory, the field iterator.
  \<^item> \<open>Pb_Encode\<close> (\<open>pb_encode.c\<close>): the message encoder. \<open>Pb_Message\<close> computes the bytes of a message
    from memory, without streams, and proves that the encoder emits these; \<open>Pb_Results\<close> draws the
    consequences.
  \<^item> \<open>Pb_Heap\<close>, \<open>Pb_Decode\<close> (\<open>pb_decode.c\<close>): stores, the allocator (a parameter), default values, releasing,
    and the message decoder. \<open>Pb_Safety\<close> proves that decoding writes nowhere outside the message, what it
    allocated and the areas callbacks own; \<open>Pb_Roundtrip\<close> that scalar fields are read back.

  Interfaces are locales, interpreted where the code's model provides them: \<open>prefix_codec\<close> and
  \<open>canonical_codec\<close> (a decoder reads what an encoder writes, and nothing else) on every codec above,
  \<open>simulation\<close> on the builder, \<open>sink\<close> (where a stream's bytes go) on buffers and on counting streams,
  \<open>block_hash\<close> and \<open>message_digest\<close> on the digests, \<open>mac\<close> on HMAC, \<open>comparison\<close> (what searching and sorting
  need of a comparison function) and \<open>hash_keys\<close> (what a hash table needs of its two functions) on those of
  the registry (\<open>comparison\<close> on policy data as well).

  Bounds. A size is a natural number below \<open>SIZE_MOD\<close>, two to the sixty-fourth, and wraps where the
  code lets it. Recursion that the code bounds by a constant is bounded by that constant
  (\<open>kMaxDepth\<close>). The message encoder recurses along descriptors and extension lists; it takes a
  number and fails at zero, and \<open>pb_encode_depth_enough\<close> shows that from the depth of the message
  type on the number does not matter. The decoder takes such a number too, and bounds each of its loops over
  a stream by one more than the bytes left, for every turn consumes at least one. Of outputs beyond
  \<open>OUT_LIMIT\<close>, half the address space, nothing is claimed, for there \<open>pb_encode_submessage\<close> adds sizes
  without the test that \<open>pb_write\<close> makes. The iteration over a hash table is a partial function, whose end
  is proved.

  Not modelled. Of BoringSSL the ciphers, big numbers, public-key algorithms (partly in assembly), X.509
  but for the policies (the decoded extensions are an argument of theirs) and the legacy ASN.1 templates, and TLS, which is C++; the generated tables of built-in objects,
  which are an argument of the registry, and \<open>EVP_blake2b256\<close>, which this copy declares without defining it.
  Of the rest gRPC, abseil, leveldb and Firestore, which are C++, the generated accessors of upb, which
  have no logic, the vendor SDKs in Objective-C and Swift, and libuv, which is operating-system input and
  output but for its address parsing, host names and timers. Locks have no part in sequential models.
  Allocation failure is modelled where the code handles it; freeing and zeroing memory have no
  result and are left out in BoringSSL. A dereferenced null pointer or null function, a crash in
  C, is a failure of the model and is named where it occurs.
\<close>

section \<open>Byte-string builder\<close>

text \<open>C1: flushing a builder closes exactly what is open inside it: the buffer then holds the
  contents with every pending length prefix written in front of them, the flush succeeds
  whenever the contents fit their prefixes and memory is available, and the invariant of
  buffer and chain is kept.\<close>

theorem flush_closes_children: "cbb_implements (CBB_flush d) (lv_flush d)"
  by (rule CBB_flush_implements)

text \<open>C2: opening an ASN.1 element appends its identifier octets and opens a level whose
  length will be written in DER; opening a child with a fixed-width prefix opens a level whose
  length will be written in so many bytes.\<close>

theorem children_open_levels:
  "cbb_implements (CBB_add_asn1 d tag) (lv_open d (der_tag tag) Asn1) \<and>
   cbb_implements (CBB_add_u8_length_prefixed d) (lv_open d [] (Fixed 1)) \<and>
   cbb_implements (CBB_add_u16_length_prefixed d) (lv_open d [] (Fixed 2)) \<and>
   cbb_implements (CBB_add_u24_length_prefixed d) (lv_open d [] (Fixed 3))"
  by (simp add: CBB_add_asn1_implements cbb_add_length_prefixed_implements CBB_add_u8_length_prefixed_def
      CBB_add_u16_length_prefixed_def CBB_add_u24_length_prefixed_def)

text \<open>C3: an element built from scratch is the DER encoding of its tag and contents, and the
  reader returns both and leaves nothing.\<close>

theorem build_element_read_back:
  assumes "\<forall>n. alloc n" and "length c < 2 ^ 31" and "CBB_init alloc cap = (Some (), st)" and "cap < SIZE_MOD"
  shows "\<exists>out st'. sbind (CBB_add_asn1 0 t) (\<lambda>_. sbind (CBB_add_bytes 1 c) (\<lambda>_.
      sbind (CBB_flush 0) (\<lambda>_. CBB_finish 0 True True))) st = (Some out, st') \<and>
    CBS_get_any_asn1 out = (Some (c, t), [])"
proof -
  have c: "length c < SIZE_MOD" "length c \<le> 0xfffffffe" using assms(2) by (simp_all add: SIZE_MOD_def)
  have "cbb_implements (sbind (CBB_add_asn1 0 t) (\<lambda>_. sbind (CBB_add_bytes 1 c) (\<lambda>_. CBB_flush 0)))
      (lv_append 0 (der_tlv t c))"
    using tlv_implements[OF CBB_add_bytes_implements[OF c(1)], of 0 t] c(2) by simp
  moreover have "length (der_tlv t c) < SIZE_MOD"
    using length_der_tag[of t] assms(2) by (simp add: length_der_tlv der_len_def SIZE_MOD_def)
  ultimately obtain st' where "sbind (sbind (CBB_add_asn1 0 t) (\<lambda>_. sbind (CBB_add_bytes 1 c) (\<lambda>_. CBB_flush 0)))
      (\<lambda>_. CBB_finish 0 True True) st = (Some (der_tlv t c), st')"
    using build_progress[OF _ assms(3,4,1)] by blast
  moreover have "CBS_get_any_asn1 (der_tlv t c) = (Some (c, t), [])"
    using assms(2) CBS_get_any_asn1_iff[of "der_tlv t c" c t "[]"] by simp
  ultimately show ?thesis by (auto simp: sbind_assoc)
qed

theorem build_element_read_back_witness:
  "\<exists>st out st'. sbind (CBB_add_asn1 0 CBS_ASN1_OCTETSTRING) (\<lambda>_. sbind (CBB_add_bytes 1 [1, 2, 3]) (\<lambda>_.
      sbind (CBB_flush 0) (\<lambda>_. CBB_finish 0 True True))) st = (Some out, st') \<and>
    CBS_get_any_asn1 out = (Some ([1, 2, 3], CBS_ASN1_OCTETSTRING), [])"
  using build_element_read_back[of "\<lambda>_. True" "[1, 2, 3]" 0] CBB_init_total[of "\<lambda>_. True" 0]
  by (force simp: SIZE_MOD_def)

section \<open>ASN.1\<close>

text \<open>C4: the DER reader accepts exactly the canonical encodings: an element is read if and
  only if the input starts with its tag, its minimal length and its contents.\<close>

theorem der_reader_exact:
  "CBS_get_any_asn1 s = (Some (c, t), r) \<longleftrightarrow> length c < 2 ^ 32 \<and> s = der_tlv t c @ r"
  by (rule CBS_get_any_asn1_iff)

text \<open>Base-128 integers, for all 64-bit values: the builder appends \<open>base128_bytes\<close>, and
  the reader accepts exactly those bytes.\<close>

theorem base128_exact:
  "cbb_implements (add_base128_integer d v) (lv_append d (base128_bytes v)) \<and>
   (parse_base128_integer s = (Some v, r) \<longleftrightarrow> s = base128_bytes v @ r)"
  using add_base128_integer_implements base128.dec_iff by blast

text \<open>C5: unsigned integers, signed integers in minimal two's complement, and booleans: what the
  builder writes for a value is what the reader accepts for it, and nothing else.\<close>

theorem asn1_numbers_exact:
  "(cbb_implements (CBB_add_asn1_uint64 d v) (lv_append d (der_tlv CBS_ASN1_INTEGER (uint64_contents v))) \<and>
    (CBS_get_asn1_uint64 s = (Some v, r) \<longleftrightarrow> s = der_tlv CBS_ASN1_INTEGER (uint64_contents v) @ r)) \<and>
   (cbb_implements (CBB_add_asn1_int64 d w) (lv_append d (der_tlv CBS_ASN1_INTEGER (int64_contents w))) \<and>
    (CBS_get_asn1_int64 s = (Some w, r) \<longleftrightarrow> s = der_tlv CBS_ASN1_INTEGER (int64_contents w) @ r)) \<and>
   (cbb_implements (CBB_add_asn1_bool d b) (lv_append d (der_tlv CBS_ASN1_BOOLEAN [if b then 0xff else 0])) \<and>
    (CBS_get_asn1_bool s = (Some b, r) \<longleftrightarrow> s = der_tlv CBS_ASN1_BOOLEAN [if b then 0xff else 0] @ r))"
  by (simp only: CBB_add_asn1_uint64_implements CBS_get_asn1_uint64_iff CBB_add_asn1_int64_implements
      CBS_get_asn1_int64_iff CBB_add_asn1_bool_implements CBS_get_asn1_bool_iff simp_thms)

text \<open>C6: object identifiers: the text of a valid identifier is encoded to \<open>oid_bytes\<close>, and the
  encoding is printed back to the same text.\<close>

theorem oid_text_round_trip:
  assumes "oid_valid a b" and "\<forall>n. alloc n" and "length (dotted (a # b # rest)) + 1 < SIZE_MOD"
  shows "cbb_implements (CBB_add_asn1_oid_from_text d (dotted (a # b # rest))) (lv_append d (oid_bytes a b rest)) \<and>
    CBS_asn1_oid_to_text alloc (oid_bytes a b rest) = Some (dotted (a # b # rest) @ [0])"
  using oid_from_text_implements CBS_asn1_oid_to_text_progress assms by blast

theorem oid_text_round_trip_witness:
  "CBS_asn1_oid_to_text (\<lambda>_. True) (oid_bytes 1 2 [840, 113549]) = Some (dotted [1, 2, 840, 113549] @ [0])"
  using oid_text_round_trip[of 1 2 "\<lambda>_. True" "[840, 113549]" 0]
  by (simp add: oid_valid_def UINT64_MAX_def dot_rest_def SIZE_MOD_def decimal.simps)

text \<open>C7: flushing a set rewrites its elements in ascending order of their encodings, and
  changes nothing else.\<close>

theorem set_of_is_sorted:
  assumes "cbb_ok st" and "CBB_flush_asn1_set_of d st = (Some u, st')"
  shows "\<exists>cs es ks. lv_flush d (levels st) = Some (cs @ [concat es], ks) \<and> (\<forall>e\<in>set es. is_der e) \<and>
    levels st' = (cs @ [concat (sort es)], ks) \<and> cbb_ok st'"
  using assms by (rule CBB_flush_asn1_set_of_Some)

theorem set_of_is_sorted_witness:
  "\<exists>st st' cs es ks. lv_flush 0 (levels st) = Some (cs @ [concat es], ks) \<and> (\<forall>e\<in>set es. is_der e) \<and>
    levels st' = (cs @ [concat (sort es)], ks)"
proof -
  define b where "b = \<lparr>cb_buf = [5, 0 :: u8], cb_cap = 8, cb_can_resize = False, cb_error = False,
    cb_realloc = \<lambda>_. True\<rparr>"
  define st where "st = \<lparr>cbb_base = Some b, cbb_children = []\<rparr>"
  have "fst (CBB_flush_asn1_set_of 0 st) = Some ()" unfolding st_def b_def by code_simp
  then obtain st' where "CBB_flush_asn1_set_of 0 st = (Some (), st')" by (cases "CBB_flush_asn1_set_of 0 st") auto
  moreover have "cbb_ok st" by (simp add: st_def b_def cbb_ok_def buffer_ok_def SIZE_MOD_def)
  ultimately show ?thesis using set_of_is_sorted[of st 0 "()" st'] by blast
qed

section \<open>BER\<close>

text \<open>C8: whenever the input is converted, the result is DER at every depth: definite minimal
  lengths throughout, and no constructed strings.\<close>

theorem ber_to_der_is_der:
  assumes "CBS_asn1_ber_to_der alloc s = (Some (out, True), r)" and "length s < SIZE_MOD"
  shows "der_forest out"
  using assms by (rule ber_to_der_converted)

theorem ber_to_der_is_der_witness:
  "\<exists>out r. CBS_asn1_ber_to_der (\<lambda>_. True) [0x24, 0x80, 4, 1, 7, 0, 0] = (Some (out, True), r) \<and> der_forest out"
proof -
  have "CBS_asn1_ber_to_der (\<lambda>_. True) [0x24, 0x80, 4, 1, 7, 0, 0] = (Some ([4, 1, 7], True), [])"
    by code_simp
  with ber_to_der_is_der[OF this] show ?thesis by (auto simp: SIZE_MOD_def)
qed

text \<open>An input that is DER, nested no deeper than the limit, is returned as it is and
  without a copy.\<close>

theorem ber_to_der_keeps_der:
  assumes "length c < 2 ^ 32" and "der_nested n (der_tlv t c @ r)" and "n \<le> kMaxDepth"
  shows "CBS_asn1_ber_to_der alloc (der_tlv t c @ r) = (Some (der_tlv t c, False), r)"
  using assms by (rule ber_to_der_der)

theorem ber_to_der_keeps_der_witness:
  "CBS_asn1_ber_to_der (\<lambda>_. True) (der_tlv CBS_ASN1_OCTETSTRING [7] @ []) =
    (Some (der_tlv CBS_ASN1_OCTETSTRING [7], False), [])"
proof (rule ber_to_der_keeps_der)
  have "CBS_ASN1_OCTETSTRING AND CBS_ASN1_CONSTRUCTED = 0" by code_simp
  then show "der_nested 0 (der_tlv CBS_ASN1_OCTETSTRING [7] @ [])"
    by (intro der_nested.primitive der_nested.empty) simp_all
qed simp_all


section \<open>Text\<close>

text \<open>C10: UTF-8: the writer emits the encoding of every valid code point and refuses the
  others; the reader accepts exactly the shortest encodings of valid code points.\<close>

theorem utf8_exact:
  "cbb_implements (cbb_add_utf8 d u) (\<lambda>l. if is_valid_code_point u then lv_append d (utf8_bytes u) l else None) \<and>
   (cbs_get_utf8 s = (Some u, r) \<longleftrightarrow> is_valid_code_point u \<and> s = utf8_bytes u @ r)"
  using cbb_add_utf8_implements utf8.dec_iff by blast

section \<open>Base64\<close>

text \<open>C11: decoding an encoded block gives the block back, for every length, and the length
  announced for the encoding is exact, with the terminating zero.\<close>

theorem base64_block_round_trip:
  assumes "(length s + 2) div 3 * 3 \<le> max_out" and "length s < SIZE_MOD"
  shows "EVP_DecodeBase64 max_out (EVP_EncodeBlock s) = Some s \<and>
    EVP_EncodedLength (length s) =
      (if length (EVP_EncodeBlock s) + 1 < SIZE_MOD then Some (length (EVP_EncodeBlock s) + 1) else None)"
  using EVP_DecodeBase64_EncodeBlock[OF assms(1)] EVP_EncodedLength_eq[OF assms(2)] by blast

theorem base64_block_round_trip_witness:
  "EVP_DecodeBase64 6 (EVP_EncodeBlock [1, 2, 3, 4]) = Some [1, 2, 3, 4]"
  using base64_block_round_trip[of "[1, 2, 3, 4]" 6] by (simp add: SIZE_MOD_def)

text \<open>C12: however its input is cut into calls, the streaming encoder writes the same lines of 48
  encoded bytes and one shorter line; the streaming decoder reads those lines back, and reports the
  end of the data when the last line was padded.\<close>

theorem base64_stream_round_trip:
  assumes "length (concat cs) \<le> INT_MAX"
  shows "(length (full_lines (concat cs)) \<le> INT_MAX \<longrightarrow> encode_chunks ctx_zero cs = pem_lines (concat cs)) \<and>
    EVP_DecodeUpdate ctx_zero (pem_lines (concat cs)) =
      (if length (pending (concat cs)) mod 3 \<noteq> 0 then 0 else 1,
       ctx_zero\<lparr>ctx_eof_seen := length (pending (concat cs)) mod 3 \<noteq> 0\<rparr>, concat cs, length (concat cs))"
  using encode_chunks_eq[of ctx_zero cs] EVP_DecodeUpdate_pem[OF assms] by (simp add: ctx_zero_def)

theorem base64_stream_round_trip_witness:
  "encode_chunks ctx_zero [[1], [], [2, 3]] = pem_lines [1, 2, 3] \<and>
   EVP_DecodeUpdate ctx_zero (pem_lines [1, 2, 3]) = (1, ctx_zero\<lparr>ctx_eof_seen := False\<rparr>, [1, 2, 3], 3)"
  using base64_stream_round_trip[of "[[1], [], [2, 3]]"] by (simp add: INT_MAX_def)

section \<open>Digests\<close>





text \<open>The tables of SHA-2 are the numbers the standard defines: the first bits of the
  fractional parts of the cube roots, and for the initial states of the square roots, of the first
  primes; and the initial state of SHA-224 are the low halves of that of SHA-384.\<close>

theorem sha2_tables_are_roots:
  "list_all2 (root_fraction 3 32) (take 64 first_primes) K256 \<and> list_all2 (root_fraction 3 64) first_primes K512 \<and>
   list_all2 (root_fraction 2 32) (take 8 first_primes) (md_h SHA256_Init) \<and>
   list_all2 (root_fraction 2 64) (take 8 first_primes) (s5_h (SHA512_Init p)) \<and>
   list_all2 (root_fraction 2 64) (take 8 (drop 8 first_primes)) (s5_h (SHA384_Init p)) \<and>
   md_h SHA224_Init = map ucast (s5_h (SHA384_Init p))"
  using K256_roots K512_roots initial_state_roots by blast

text \<open>C15: HMAC: from any context, whatever it was used for, initialising with a key, giving the
  parts of a message and finishing yields the code of RFC 2104 over the whole message; and
  rewinding with the null pointer then gives the code of another message under the same key.\<close>

theorem hmac_is_rfc2104:
  assumes "hmac_usable ctx" and "\<forall>k. gives (mem k)" and "length key < SIZE_MOD"
    and "\<forall>x\<in>set (xs @ ys). length x < SIZE_MOD"
  shows "fst (sbind (HMAC_Init_ex mem (Some key) (Some md)) (\<lambda>_.
      sbind (foldr (\<lambda>x p. sbind (HMAC_Update x) (\<lambda>_. p)) xs (HMAC_Final (mem 4))) (\<lambda>a.
      sbind (HMAC_Init_ex mem None None) (\<lambda>_.
      sbind (foldr (\<lambda>x p. sbind (HMAC_Update x) (\<lambda>_. p)) ys (HMAC_Final (mem 4))) (\<lambda>b. ret (a, b))))) ctx) =
    Some ((hmac md key (concat xs), EVP_MD_size md), (hmac md key (concat ys), EVP_MD_size md))"
proof -
  obtain s1 where s1: "HMAC_Init_ex mem (Some key) (Some md) ctx = (Some (), s1)" "hmac_running md key [] s1"
    using HMAC_Init_ex_key[OF assms(1-3), of "Some md" md] by blast
  from hmac.feed_code[OF s1(2) assms(2), of xs] assms(4) obtain s2 where
    s2: "hmac.feed mem xs s1 = (Some (hmac md key (concat xs), EVP_MD_size md), s2)" "hmac_keyed md key s2" by auto
  from hmac.rewound_code[OF s2(2) assms(2), of ys] assms(4) s1(1) s2(1) show ?thesis
    by (auto simp: sbind_def ret_def hmac.feed_def split: prod.splits option.splits)
qed

theorem hmac_is_rfc2104_witness:
  "HMAC (\<lambda>_ n. Some (replicate n 0)) (Some EVP_sha256) (Some [1]) [2, 3] = Some (hmac EVP_sha256 [1] [2, 3], 32)"
proof -
  have "\<forall>k. gives ((\<lambda>_ n. Some (replicate n 0)) (k :: nat))" by (simp add: gives_def)
  from hmac_is_rfc2104[OF hmac_init_usable this, of "[1]" "[[2, 3]]" "[]" EVP_sha256, where ?'a = unit] show ?thesis
    by (auto simp: HMAC_def sbind_def ret_def SIZE_MOD_def EVP_MD_size_def SHA256_DIGEST_LENGTH_def
        split: prod.splits option.splits)
qed

text \<open>C16: HKDF is RFC 5869: extraction with the salt, or with zeros in its place, then expansion
  to the length asked for, which is refused exactly when it needs more than 255 blocks, also where
  the sum of lengths overflows.\<close>

theorem hkdf_is_rfc5869:
  assumes "\<forall>i k. gives (mem i k)" and "length secret < SIZE_MOD" and "length info < SIZE_MOD" and "L < SIZE_MOD"
    and "length salt < SIZE_MOD" and "s = Some salt \<or> s = None \<and> salt = replicate (EVP_MD_size md) 0"
  shows "HKDF mem L md secret s info =
    (if (L + EVP_MD_size md - 1) div EVP_MD_size md \<le> 255 then Some (hkdf_okm md (hmac md salt secret) info L) else None)"
  using assms by (rule HKDF_okm)

theorem hkdf_is_rfc5869_witness:
  "HKDF (\<lambda>_ _ n. Some (replicate n 0)) 8161 EVP_sha256 [1, 2] None [3] = None"
  using hkdf_is_rfc5869[of "\<lambda>_ _ n. Some (replicate n 0)" "[1, 2]" "[3]" 8161 "replicate 32 0" None EVP_sha256]
  by (simp add: gives_def SIZE_MOD_def EVP_MD_size_def SHA256_DIGEST_LENGTH_def)



section \<open>Containers\<close>



text \<open>Finding after sorting: whatever sorting routine and order of the pointers the caller has, the
  search of a sorted stack fails no assertion and returns the first position whose element equals the one
  sought, or nothing if there is none.\<close>

theorem sorted_stack_find:
  assumes "sk_ok cmp s" and "stk_comp s = Some c" and "comparison (cmp c) valid" and "sorts sorter (cmp c) valid"
    and "\<forall>e\<in>set (sk_list s). valid e" and "valid (Some p)"
  shows "\<exists>s'. sk_sort sorter cmp (Some s) = Some s' \<and> mset (sk_list s') = mset (sk_list s) \<and>
    sk_find cmp (Some p) (Some s') =
      Some (List.find (\<lambda>i. cmp c (Some p) (sk_list s' ! i) = 0) [0..<length (sk_list s')])"
proof -
  from sk_sort_ok[OF assms(1,2,4,5)] obtain s' where s': "sk_sort sorter cmp (Some s) = Some s'" "sk_ok cmp s'"
    "mset (sk_list s') = mset (sk_list s)" "stk_comp s' = Some c" by blast
  have "\<forall>e\<in>set (sk_list s'). valid e" using assms(5) s'(3) by (metis set_mset_mset)
  from sk_find_first[OF s'(2,4) assms(3,6) this] s' show ?thesis by blast
qed

theorem sorted_stack_find_witness:
  "\<exists>s'. sk_sort qsort int_cmp (Some \<lparr>stk_num = 2, stk_data = [Some 9, Some 3, None, None], stk_sorted = False,
      stk_num_alloc = 4, stk_comp = Some ()\<rparr>) = Some s' \<and> mset (sk_list s') = {#Some 3, Some 9#} \<and>
    sk_find int_cmp (Some 7) (Some s') = Some None"
proof -
  let ?s = "\<lparr>stk_num = 2, stk_data = [Some 9, Some 3, None, None], stk_sorted = False, stk_num_alloc = 4, stk_comp = Some ()\<rparr>"
  have "sk_ok int_cmp ?s" by (simp add: sk_ok_def sk_wf_def SIZE_MOD_def)
  moreover have "comparison (int_cmp ()) (\<lambda>_. True)" by unfold_locales (auto simp: int_cmp_def)
  moreover have "sorts qsort (int_cmp ()) (\<lambda>_. True)" by (rule comparison.qsort_sorts[OF calculation(2)])
  ultimately obtain s' where s': "sk_sort qsort int_cmp (Some ?s) = Some s'" "mset (sk_list s') = mset (sk_list ?s)"
    "sk_find int_cmp (Some 7) (Some s') =
      Some (List.find (\<lambda>i. int_cmp () (Some 7) (sk_list s' ! i) = 0) [0..<length (sk_list s')])"
    using sorted_stack_find[of int_cmp ?s "()" "\<lambda>_. True" qsort 7] by auto
  have "int_cmp () (Some 7) (sk_list s' ! i) \<noteq> 0" if "i < length (sk_list s')" for i
  proof -
    have "sk_list s' ! i \<in> set (sk_list s')" using that by simp
    also have "set (sk_list s') = {Some 9, Some 3}" using s'(2)[THEN mset_eq_setD] by (simp add: sk_list_def)
    finally show ?thesis by (auto simp: int_cmp_def)
  qed
  then have "List.find (\<lambda>i. int_cmp () (Some 7) (sk_list s' ! i) = 0) [0..<length (sk_list s')] = None"
    by (intro find_none) simp
  then show ?thesis using s' by (auto simp: sk_list_def)
qed


text \<open>C20: a hash table is a map from the keys its comparison tells apart to elements, if the hash
  depends on the key alone: retrieving looks a key up, inserting updates it and deleting removes it, each
  returning the element that was there; the number of items is the number of keys; and growing, shrinking
  and failing to do so change nothing of this.\<close>

theorem hash_table_is_map:
  assumes "hash_keys hash cmp key key_hash valid" and "hash_keys.ok hash cmp key valid lh" and "valid d"
    and "a \<notin> li_addr ` set (lh_items lh)"
  shows "OPENSSL_lh_retrieve lh d = hash_keys.abs_map key lh (key d) \<and>
    OPENSSL_lh_num_items lh = card (dom (hash_keys.abs_map key lh)) \<and>
    (\<exists>lh'. OPENSSL_lh_insert (Some a) got d lh = (True, hash_keys.abs_map key lh (key d), lh') \<and>
       hash_keys.ok hash cmp key valid lh' \<and> hash_keys.abs_map key lh' = (hash_keys.abs_map key lh)(key d \<mapsto> d)) \<and>
    (\<exists>lh'. OPENSSL_lh_delete got d lh = (hash_keys.abs_map key lh (key d), lh') \<and>
       hash_keys.ok hash cmp key valid lh' \<and> hash_keys.abs_map key lh' = (hash_keys.abs_map key lh)(key d := None))"
  using hash_keys.retrieve_map[OF assms(1-3)] hash_keys.num_items_map[OF assms(1,2)] hash_keys.delete_map[OF assms(1-3)]
    hash_keys.insert_map[OF assms(1-3), of "Some a"] assms(4) by simp

theorem hash_table_is_map_witness:
  "\<exists>lh lh'. table_new all_memory By_nid = Some lh \<and>
    OPENSSL_lh_insert (Some 7) (\<lambda>_. True) (kObjects two_objects ! 1) lh = (True, None, lh') \<and>
    OPENSSL_lh_retrieve lh' (kObjects two_objects ! 1) = Some (kObjects two_objects ! 1)"
proof -
  let ?d = "kObjects two_objects ! 1"
  have "memory_for_tables all_memory" by (simp add: memory_for_tables_def all_memory_def)
  from table_new_ok[OF this, of By_nid] obtain lh where lh: "table_new all_memory By_nid = Some lh" "lh_items lh = []"
    "tbl.ok By_nid lh" "tbl.abs_map By_nid lh = Map.empty" by blast
  have "7 \<notin> li_addr ` set (lh_items lh)" using lh(2) by simp
  from hash_table_is_map[OF tbl.hash_keys_axioms lh(3) _ this, of ?d "\<lambda>_. True"] lh(4) obtain lh' where
    i: "OPENSSL_lh_insert (Some 7) (\<lambda>_. True) ?d lh = (True, None, lh')" "tbl.ok By_nid lh'"
    "tbl.abs_map By_nid lh' = [obj_key By_nid ?d \<mapsto> ?d]" by auto
  obtain b where "b \<notin> li_addr ` set (lh_items lh')" using ex_new_if_finite[of "li_addr ` set (lh_items lh')"] infinite_UNIV_nat by blast
  from hash_table_is_map[OF tbl.hash_keys_axioms i(2) _ this, of ?d] i(3) have "OPENSSL_lh_retrieve lh' ?d = Some ?d" by simp
  then show ?thesis using lh(1) i(1) by blast
qed

text \<open>C21: iterating over a hash table with a callback that may delete the element it is given: the
  iteration ends, follows no pointer of a freed item, calls back once for every element that was in the
  table when it began, and leaves the table without those that were deleted.\<close>

theorem hash_table_iteration:
  assumes "hash_keys hash cmp key key_hash valid" and "hash_keys.ok hash cmp key valid lh"
  shows "\<exists>lh'. OPENSSL_lh_doall_arg got (sweep got old f) (s, lh) = Some (fold f (map li_data (lh_items lh)) s, lh') \<and>
    hash_keys.ok hash cmp key valid lh' \<and>
    hash_keys.abs_map key lh' = (\<lambda>k. case hash_keys.abs_map key lh k of None \<Rightarrow> None | Some d \<Rightarrow> if old d then None else Some d)"
  using hash_keys.doall_map[OF assms] .

theorem hash_table_iteration_witness:
  "\<exists>lh lh1 lh2. table_new all_memory By_nid = Some lh \<and>
    OPENSSL_lh_insert (Some 7) (\<lambda>_. True) (kObjects two_objects ! 1) lh = (True, None, lh1) \<and>
    OPENSSL_lh_doall_arg (\<lambda>_. True) (sweep (\<lambda>_. True) (\<lambda>_. True) (\<lambda>d n. n + ob_nid d)) (0, lh1) =
      Some (fold (\<lambda>d n. n + ob_nid d) (map li_data (lh_items lh1)) 0, lh2) \<and>
    tbl.abs_map By_nid lh2 = Map.empty"
proof -
  let ?d = "kObjects two_objects ! 1"
  have "memory_for_tables all_memory" by (simp add: memory_for_tables_def all_memory_def)
  from table_new_ok[OF this, of By_nid] obtain lh where lh: "table_new all_memory By_nid = Some lh" "lh_items lh = []"
    "tbl.ok By_nid lh" "tbl.abs_map By_nid lh = Map.empty" by blast
  from tbl.insert_map[OF lh(3), of ?d "Some 7"] lh(2,4) obtain lh1 where
    i: "OPENSSL_lh_insert (Some 7) (\<lambda>_. True) ?d lh = (True, None, lh1)" "tbl.ok By_nid lh1" by auto
  from hash_table_iteration[OF tbl.hash_keys_axioms i(2), of "\<lambda>_. True" "\<lambda>_. True" "\<lambda>d n. n + ob_nid d" 0] obtain lh2 where
    it: "OPENSSL_lh_doall_arg (\<lambda>_. True) (sweep (\<lambda>_. True) (\<lambda>_. True) (\<lambda>d n. n + ob_nid d)) (0, lh1) =
      Some (fold (\<lambda>d n. n + ob_nid d) (map li_data (lh_items lh1)) 0, lh2)"
    "tbl.abs_map By_nid lh2 = (\<lambda>k. case tbl.abs_map By_nid lh1 k of None \<Rightarrow> None | Some d \<Rightarrow> if True then None else Some d)"
    by blast
  have "tbl.abs_map By_nid lh2 = Map.empty" unfolding it(2) by (rule ext) (simp split: option.split)
  then show ?thesis using lh(1) i(1) it(1) by blast
qed

section \<open>Object identifiers\<close>

text \<open>C22: in every state the registry of objects reaches while there is memory, lookups by short name,
  by long name and by encoded identifier are exact: a number other than \<open>NID_undef\<close> is that of an object,
  built in or added, that has the name or identifier, and \<open>NID_undef\<close> is returned only when no object has
  it; and no later creation changes which object a number stands for.\<close>

theorem registry_lookups_exact:
  assumes "dat_ok dat" and "registry_reach dat gl" and "length b \<le> INT_MAX"
  shows "finds dat gl (OBJ_sn2nid dat gl s) (\<lambda>x. ob_sn x = Some s) \<and>
    finds dat gl (OBJ_ln2nid dat gl s) (\<lambda>x. ob_ln x = Some s) \<and>
    finds dat gl (OBJ_cbs2nid dat gl b) (has_oid b) \<and>
    (\<forall>gl' n x. registry_step dat gl gl' \<longrightarrow> OBJ_nid2obj dat gl n = Some x \<longrightarrow> OBJ_nid2obj dat gl' n = Some x)"
  using lookups_find[OF assms(1) registry_reach_ok[OF assms(2,1)]] assms(1,3)
    registry_step_ok[OF _ registry_reach_ok[OF assms(2,1)]] by (simp add: dat_ok_def)

theorem registry_lookups_exact_witness:
  "finds two_objects (initial_globals two_objects)
     (OBJ_cbs2nid two_objects (initial_globals two_objects) [0x2a, 0x86, 0x48, 0x86, 0xf7, 0x0d])
     (has_oid [0x2a, 0x86, 0x48, 0x86, 0xf7, 0x0d])"
  using registry_lookups_exact[OF two_objects_ok registry_reach.start, of "[0x2a, 0x86, 0x48, 0x86, 0xf7, 0x0d]"]
  by (simp add: INT_MAX_def)

text \<open>C23: creating an object succeeds, from every state reached, for every identifier in dotted decimal
  and any two names, as long as there is memory and a number left; from then on the short name, the long
  name and the encoded identifier all lead to the new number, and the number to an object with these.\<close>

theorem created_object_is_found:
  assumes "dat_ok dat" and "registry_reach dat gl" and "memory_for m gl" and "uint (gl_next_nid gl) < int INT_MAX"
    and "oid_valid a b" and "length (oid_bytes a b rest) \<le> INT_MAX"
  shows "\<exists>nid gl'. OBJ_create m (dotted (a # b # rest)) (Some sn) (Some ln) gl = Some (nid, gl') \<and> nid \<noteq> NID_undef \<and>
    registry_reach dat gl' \<and>
    OBJ_nid2obj dat gl' nid = Some (new_object nid (oid_bytes a b rest) (Some sn) (Some ln)) \<and>
    OBJ_sn2nid dat gl' sn = nid \<and> OBJ_ln2nid dat gl' ln = nid \<and> OBJ_cbs2nid dat gl' (oid_bytes a b rest) = nid"
  using OBJ_create_found[OF assms(1) registry_reach_ok[OF assms(2,1)] assms(3-6)]
    registry_reach.step[OF assms(2) registry_step.create[OF _ assms(3,4)]] by blast

theorem created_object_is_found_witness:
  "\<exists>nid gl'. OBJ_create all_memory (dotted [1, 2, 3]) (Some [0x61]) (Some [0x62]) (initial_globals two_objects) = Some (nid, gl') \<and>
    nid \<noteq> NID_undef \<and> OBJ_sn2nid two_objects gl' [0x61] = nid"
proof -
  have m: "memory_for all_memory (initial_globals two_objects)"
    by (rule all_memory_for) (simp add: initial_globals_def)
  have n: "uint (gl_next_nid (initial_globals two_objects)) < int INT_MAX"
    by (simp add: initial_globals_def two_objects_def NUM_NID_def INT_MAX_def)
  have v: "oid_valid 1 2" by (simp add: oid_valid_def UINT64_MAX_def)
  have "oid_bytes 1 2 [3] = [0x2a, 3]" by code_simp
  then have "length (oid_bytes 1 2 [3]) \<le> INT_MAX" by (simp add: INT_MAX_def)
  from created_object_is_found[OF two_objects_ok registry_reach.start m n v this] show ?thesis by blast
qed

text \<open>C24: the four tables are allocated when the first object is added, and the results are not
  tested: if one of them that the object goes into could not be allocated, adding it dereferences a null
  pointer.\<close>

theorem added_tables_unchecked:
  assumes "gl_added gl By_nid = None" and "\<not> om_table m t" and "stored t ob"
  shows "obj_add_object m ob gl = None"
  using assms by (rule obj_add_object_null)

theorem added_tables_unchecked_witness:
  "OBJ_create (all_memory\<lparr>om_table := \<lambda>t. t \<noteq> By_short_name\<rparr>) (dotted [1, 2, 3]) (Some [0x61]) None
     (initial_globals two_objects) = None"
proof -
  let ?m = "all_memory\<lparr>om_table := \<lambda>t. t \<noteq> By_short_name\<rparr>" and ?gl = "initial_globals two_objects"
  have v: "oid_valid 1 2" by (simp add: oid_valid_def UINT64_MAX_def)
  have "oid_bytes 1 2 [3] = [0x2a, 3]" by code_simp
  then have "length (oid_bytes 1 2 [3]) < SIZE_MOD" by (simp add: SIZE_MOD_def)
  from text_oid_progress[OF v _ _ _ _ _ this] obtain ob gl' where
    c: "create_object_with_text_oid ?m (Some obj_next_nid) (dotted [1, 2, 3]) (Some [0x61]) None ?gl = (Some ob, gl')"
    by (fastforce simp: all_memory_def simp del: dotted.simps)
  from text_oid_Some[OF this] have "stored By_short_name ob" "gl_added gl' By_nid = None"
    by (auto simp: obj_next_nid_def initial_globals_def simp del: dotted.simps)
  from added_tables_unchecked[OF this(2) _ this(1), of ?m] show ?thesis
    by (simp add: OBJ_create_def c del: dotted.simps)
qed

section \<open>Certificate policies\<close>

text \<open>C25: checking the policies of a chain, with memory enough: the run ends with one of the documented
  results, dereferences no freed or null node on the way, leaves a tree of which
  \<open>X509_policy_tree_free\<close> frees every node exactly once, and the number of nodes made is bounded by the
  sizes of the certificates.\<close>

theorem policy_check_memory_safe:
  assumes "all_got env" and "any_known env" and "certs \<noteq> []" and "\<forall>x\<in>set certs. cert_ok m x" and "m < STACK_ROOM"
    and "hp_node h = (\<lambda>_. None)" and "None \<notin> set (stack_items policy_oids)" and "chain_room m certs policy_oids h"
  shows "\<exists>r tree explicit certs' h' h''. X509_policy_check env flags policy_oids certs h = Some (r, tree, explicit, certs', h') \<and>
    r \<in> {-2, -1, 0, 1} \<and> X509_policy_tree_free tree h' = Some h'' \<and> hp_node h'' = (\<lambda>_. None) \<and>
    hp_next h' \<le> hp_next h + 1 + 2 * node_factor m ^ (length certs - 1) + sk_num policy_oids"
  using X509_policy_check_ok[OF assms, of flags] unfolding frees_all_def by blast

theorem policy_check_memory_safe_witness:
  "\<exists>r tree explicit certs' h' h''. X509_policy_check (sample_env (\<lambda>_. True)) 0 None
      [sample_cert [sample_policy 1, sample_policy 2], sample_cert [sample_policy 1]] empty_heap = Some (r, tree, explicit, certs', h') \<and>
    r \<in> {-2, -1, 0, 1} \<and> X509_policy_tree_free tree h' = Some h'' \<and> hp_node h'' = (\<lambda>_. None) \<and> hp_next h' \<le> 13"
proof -
  let ?certs = "[sample_cert [sample_policy 1, sample_policy 2], sample_cert [sample_policy 1]]"
  have c: "?certs \<noteq> []" "\<forall>x\<in>set ?certs. cert_ok 2 x" "(2 :: nat) < STACK_ROOM" "hp_node empty_heap = (\<lambda>_. None)"
    "None \<notin> set (stack_items (None :: (asn1_object, unit) stack_ptr))" "chain_room 2 ?certs None empty_heap"
    by (simp_all add: cert_ok_def sample_cert_def cert_size_def STACK_ROOM_def empty_heap_def chain_room_def node_factor_def sk_num_def)
  show ?thesis
    using policy_check_memory_safe[OF sample_got sample_env_any(1) c, of 0] by (simp add: empty_heap_def node_factor_def sk_num_def)
qed

text \<open>C26: the policies of a certificate, with memory enough: they are accepted exactly when no policy is
  listed twice; then the cache holds each of them but \<open>anyPolicy\<close>, which it keeps apart, and otherwise
  the certificate is flagged and the cache holds none.\<close>

theorem policies_listed_once:
  assumes "all_got env" and "x_policy_cache x = Some cache" and "pc_anyPolicy cache = None"
    and "policies \<noteq> []" and "\<forall>p\<in>set policies. obj_valid (pi_policyid p)" and "length policies < STACK_ROOM"
  shows "\<exists>cache' k'. if distinct (map (policy_key env) policies)
    then policy_cache_create env policies crit x k = Some (1, x\<lparr>x_policy_cache := Some cache'\<rparr>, k') \<and>
      cache_views cache' = mset (map (policy_view crit) (filter (\<lambda>p. policy_key env p \<noteq> None) policies)) \<and>
      map_option data_view (pc_anyPolicy cache') =
        map_option (policy_view crit) (List.find (\<lambda>p. policy_key env p = None) policies)
    else policy_cache_create env policies crit x k = Some (-1, bad_cache (x\<lparr>x_policy_cache := Some cache'\<rparr>), k') \<and>
      pc_data cache' = None"
  using assms by (rule policy_cache_create_ok)

theorem policies_listed_once_witness:
  "(\<exists>x' k'. policy_cache_create (sample_env (\<lambda>_. True)) [sample_policy 1, sample_policy 1] False
      (sample_cert []\<lparr>x_policy_cache := Some empty_cache\<rparr>) 0 = Some (-1, x', k')) \<and>
   (\<exists>x' k'. policy_cache_create (sample_env (\<lambda>_. True)) [sample_policy 1, sample_policy 2] False
      (sample_cert []\<lparr>x_policy_cache := Some empty_cache\<rparr>) 0 = Some (1, x', k'))"
proof -
  let ?env = "sample_env (\<lambda>_. True)" and ?x = "sample_cert []\<lparr>x_policy_cache := Some empty_cache\<rparr>"
  have x: "x_policy_cache ?x = Some empty_cache" "pc_anyPolicy empty_cache = None" by (simp_all add: empty_cache_def)
  have p: "[sample_policy 1, sample_policy b] \<noteq> []" "\<forall>p\<in>set [sample_policy 1, sample_policy b]. obj_valid (pi_policyid p)"
    "length [sample_policy 1, sample_policy b] < STACK_ROOM" for b
    by (simp_all add: sample_policy_def sample_oid_valid STACK_ROOM_def)
  have d: "distinct (map (policy_key ?env) [sample_policy 1, sample_policy b]) \<longleftrightarrow> b \<noteq> 1" for b
    by (auto simp: policy_key_def sample_policy_def sample_oid_not_any) (auto simp: sample_oid_def obj_bytes_def)
  show ?thesis
    using policies_listed_once[OF sample_got x p, of 1 False 0] policies_listed_once[OF sample_got x p, of 2 False 0]
    unfolding d by auto
qed

text \<open>C27: linking the policies of a certificate to the level above, when every node there matches every
  one of them: the level gets a node for every pair, so that each level of a chain multiplies the
  number of nodes.\<close>

theorem policy_level_multiplies:
  assumes "all_got env" and "stack_items (lv_nodes prev) = map Some as" and "as \<noteq> []"
    and "stack_items (pc_data cache) = map Some ds" and "\<forall>d\<in>set ds. \<not> is_any_policy env (pd_valid_policy d)"
    and "every_match prev ds as h" and "stack_wf (lv_nodes lv)" and "sk_num (lv_nodes lv) + length ds * length as \<le> STACK_ROOM"
  shows "\<exists>lv' h'. tree_link_nodes env prev lv cache h = Some (True, lv', h') \<and>
    sk_num (lv_nodes lv') = sk_num (lv_nodes lv) + length ds * length as"
  using link_listed_grows[OF assms(1-3,6,5,7,8)] assms(4) unfolding grows_def tree_link_nodes_def by auto

theorem policy_level_multiplies_witness:
  "\<exists>lv' h'. tree_link_nodes (sample_env (\<lambda>_. True)) mapped_level empty_level pair_cache mapped_heap = Some (True, lv', h') \<and>
    sk_num (lv_nodes lv') = 4"
proof -
  have room: "stack_wf (lv_nodes empty_level)" "sk_num (lv_nodes empty_level) + length pair_data * length [0 :: nat, 1] \<le> STACK_ROOM"
    by (simp_all add: empty_level_def sk_num_def STACK_ROOM_def pair_data_def)
  have "\<forall>d\<in>set pair_data. \<not> is_any_policy (sample_env (\<lambda>_. True)) (pd_valid_policy d)"
    by (simp add: pair_data_def sample_oid_not_any)
  from policy_level_multiplies[OF sample_got mapped_items(1) _ mapped_items(2) this mapped_match room]
  have "\<exists>lv' h'. tree_link_nodes (sample_env (\<lambda>_. True)) mapped_level empty_level pair_cache mapped_heap = Some (True, lv', h') \<and>
      sk_num (lv_nodes lv') = sk_num (lv_nodes empty_level) + length pair_data * length [0 :: nat, 1]" by simp
  moreover have "sk_num (lv_nodes empty_level) + length pair_data * length [0 :: nat, 1] = 4"
    by (simp add: empty_level_def sk_num_def pair_data_def)
  ultimately show ?thesis by metis
qed

text \<open>C28: a leaf certificate that lists a policy twice has an invalid policy extension, and the
  check of the chain says so, but the verification does not report it: it looks for the certificate
  to blame from the second on, never calls back, and says that all is well.\<close>

theorem leaf_policy_error_unreported:
  assumes "all_got env" and "lists_twice env leaf" and "x_ex_flags anchor AND EXFLAG_INVALID_POLICY = 0"
    and "\<not> ctx_parent ctx" and "ctx_chain ctx = [leaf, anchor]"
  shows "\<exists>leaf' h'. x_ex_flags leaf' AND EXFLAG_INVALID_POLICY \<noteq> 0 \<and>
    check_policy env verify_cb ctx h =
      Some (1, ctx\<lparr>ctx_tree := None, ctx_explicit_policy := False, ctx_chain := [leaf', anchor]\<rparr>, h')"
proof -
  obtain leaf' h' where c: "X509_policy_check env (ucast (ctx_flags ctx)) (ctx_policies ctx) [leaf, anchor] h =
      Some (-1, None, False, [leaf', anchor], h')" "x_ex_flags leaf' AND EXFLAG_INVALID_POLICY \<noteq> 0"
    using leaf_twice_check[OF assms(1,2)] by blast
  have "[1..<length [leaf', anchor]] = [1]" by simp
  then have "check_policy env verify_cb ctx h =
      Some (1, ctx\<lparr>ctx_tree := None, ctx_explicit_policy := False, ctx_chain := [leaf', anchor]\<rparr>, h')"
    using c(1) assms(3-5) by (simp add: check_policy_def Let_def report_invalid_none)
  then show ?thesis using c(2) by blast
qed

theorem leaf_policy_error_unreported_witness:
  "\<exists>ctx' h'. check_policy (sample_env (\<lambda>_. True)) (\<lambda>_ c. (0, c))
      (sample_ctx [sample_cert [sample_policy 1, sample_policy 1], sample_cert []]) empty_heap = Some (1, ctx', h')"
proof -
  have "lists_twice (sample_env (\<lambda>_. True)) (sample_cert [sample_policy 1, sample_policy 1])"
    by (simp add: lists_twice_def sample_cert_def sample_policy_def sample_oid_valid STACK_ROOM_def)
  moreover have "x_ex_flags (sample_cert []) AND EXFLAG_INVALID_POLICY = 0" by (simp add: sample_cert_def)
  moreover have "\<not> ctx_parent (sample_ctx c)" "ctx_chain (sample_ctx c) = c" for c by (simp_all add: sample_ctx_def)
  ultimately show ?thesis using leaf_policy_error_unreported[OF sample_got] by blast
qed

text \<open>C29: when the array of the tree's extra data cannot be allocated, the root of the tree is freed
  but stays linked in its level, and is freed again with the tree: a double free.\<close>

theorem policy_root_freed_twice:
  assumes "fails_at env (hp_count h + 10)" and "any_known env" and "OBJ_nid2obj (pe_dat env) (pe_gl env) NID_any_policy = Some ob"
    and "2 \<le> length certs" and "\<forall>c < length certs - 1. has_policies (certs ! c)"
  shows "X509_policy_check env flags oids certs h = None"
  using assms by (rule root_freed_twice)

theorem policy_root_freed_twice_witness:
  "X509_policy_check (sample_env (\<lambda>j. j \<noteq> 10)) 0 None
     [sample_cert []\<lparr>x_policy_cache := Some pair_cache\<rparr>, sample_cert []] empty_heap = None"
proof (rule policy_root_freed_twice[OF _ sample_env_any])
  show "fails_at (sample_env (\<lambda>j. j \<noteq> 10)) (hp_count empty_heap + 10)" by (simp add: fails_at_def sample_env_def empty_heap_def)
qed (simp_all add: has_policies_def sample_cert_def pair_cache_def full_stack_def)


section \<open>Protocol buffers: the wire format\<close>

text \<open>C30: varints: the encoder emits at most ten bytes, and the decoder accepts exactly the
  varint forms of at most ten bytes, with their value; it reads back what the encoder emits.\<close>

theorem pb_varint_exact:
  "emits buf_feed (pb_encode_varint v) (Some (varint_bytes v)) \<and> length (varint_bytes v) \<le> 10 \<and>
   on_bytes pb_decode_varint (varint_bytes v @ r) = (Some v, r) \<and>
   (on_bytes pb_decode_varint s = (Some w, r) \<longleftrightarrow>
     (\<exists>bs. s = bs @ r \<and> varint_form bs \<and> length bs \<le> 10 \<and> w = varint_value bs))"
  using buffer.varint length_varint_bytes_le pb_decode_varint_iff[of s w r] pb_varint.dec_enc by auto


text \<open>C32: a field whose number fits in 29 bits: the decoder reads the number and the wire type
  that the encoder wrote, skips the value, whatever its type, and is then at what follows it; it
  has touched nothing beyond, and set no error.\<close>

theorem pb_skip_any_field:
  assumes "istream_ok st" and "in_view st = tag_bytes wt n @ p @ r" and "n \<noteq> 0" and "unat n < 2 ^ 29" and "payload wt p"
  shows "\<exists>st1 st2. pb_decode_tag st = (True, wt, n, False, st1) \<and> pb_skip_field wt st1 = (Some (), st2) \<and>
    istream_ok st2 \<and> in_view st2 = r \<and> in_beyond st2 = in_beyond st \<and> is_errmsg st2 = is_errmsg st"
  by (rule skip_one[OF assms(1), of wt n p r]) (use assms in auto)

theorem pb_skip_any_field_witness:
  "\<exists>st1 st2. pb_decode_tag (pb_istream_from_buffer [0x12, 2, 7, 8, 9] 5 :: unit pb_istream) =
      (True, PB_WT_STRING, 2, False, st1) \<and> pb_skip_field PB_WT_STRING st1 = (Some (), st2) \<and> in_view st2 = [9]"
proof -
  let ?st = "pb_istream_from_buffer [0x12, 2, 7, 8, 9] 5 :: unit pb_istream"
  have "tag_bytes PB_WT_STRING 2 @ string_bytes [7, 8] @ [9] = [0x12, 2, 7, 8, 9]" by code_simp
  then have "in_view ?st = tag_bytes PB_WT_STRING 2 @ string_bytes [7, 8] @ [9]" "istream_ok ?st"
    by (simp_all add: pb_istream_from_buffer_def istream_ok_def in_view_def source_bytes_def)
  moreover have "payload PB_WT_STRING (string_bytes [7, 8])" by (auto simp: payload_def)
  ultimately show ?thesis using pb_skip_any_field[of ?st PB_WT_STRING 2 "string_bytes [7, 8]" "[9]"] by auto
qed

section \<open>Protocol buffers: messages\<close>

text \<open>C33: the message encoder: on every stream into a buffer it appends exactly the bytes that
  \<open>message_out\<close> computes from memory, or fails, when these do not fit or there are none.\<close>

theorem pb_encode_exact:
  assumes "env_emits buf_feed env sp"
  shows "emits buf_feed (pb_encode n env fs src) (message_out n sp fs src)"
  using assms by (rule buffer.encode)

theorem pb_encode_exact_witness:
  "emits buf_feed (pb_encode 2 (boxed_env 0x10) (boxed_descr 0) 0x1000) (Some [0x0a, 2, 8, 1])"
  using pb_encode_exact[OF boxed_emits[OF buffer.sink_axioms], of 2 "0x10" "boxed_descr 0" "0x1000"]
  by (simp add: boxed_message)

text \<open>C34: encoding into a buffer changes the bytes it reports as written and no others, fails
  only when the message does not fit or has no encoding, and writes nothing at or beyond the size
  it was given, not even when it fails.\<close>

theorem pb_encode_buffer_safe:
  assumes "env_emits buf_feed env sp" and "slim (message_out n sp fs src)"
    and "bufsize \<le> length buf" and "bufsize < OUT_LIMIT"
  shows "case pb_encode n env fs src (pb_ostream_from_buffer buf bufsize) of
      (Some _, st) \<Rightarrow> (\<exists>bs. message_out n sp fs src = Some bs \<and> length bs \<le> bufsize \<and> os_bytes_written st = length bs \<and>
        ob_bytes (os_state st) = bs @ drop (length bs) buf)
    | (None, st) \<Rightarrow> \<not> (\<exists>bs. message_out n sp fs src = Some bs \<and> length bs \<le> bufsize) \<and>
        (\<exists>bs. length bs \<le> bufsize \<and> ob_bytes (os_state st) = bs @ drop (length bs) buf)"
  using encoded_into_buffer[OF assms] by (auto split: prod.splits option.splits simp: not_le)

theorem pb_encode_buffer_safe_witness:
  "\<exists>st. pb_encode 2 (boxed_env 0x10) (boxed_descr 0) 0x1000 (pb_ostream_from_buffer [5, 5, 5, 5, 5] 5) = (Some (), st) \<and>
     ob_bytes (os_state st) = [0x0a, 2, 8, 1, 5]"
  using pb_encode_buffer_safe[OF boxed_emits[OF buffer.sink_axioms], of 2 "0x10" "boxed_descr 0" "0x1000" 5 "[5, 5, 5, 5, 5]"]
  by (auto simp: boxed_message slim_def OUT_LIMIT_def split: prod.splits option.splits)

text \<open>C35: the size announced for a message is the size that encoding it writes: encoding into
  a buffer succeeds exactly when the announced size is available, and writes so many bytes.\<close>

theorem pb_encoded_size_exact:
  assumes "env_emits count_feed cenv sp" and "env_emits buf_feed env sp" and "slim (message_out n sp fs src)"
    and "bufsize \<le> length buf" and "bufsize < OUT_LIMIT"
  shows "(case pb_encode n env fs src (pb_ostream_from_buffer buf bufsize) of
      (Some _, st) \<Rightarrow> Some (os_bytes_written st) | (None, st) \<Rightarrow> None) =
    (case pb_get_encoded_size n cenv fs src of
      Some k \<Rightarrow> if k \<le> bufsize then Some k else None | None \<Rightarrow> None)"
  using assms by (rule size_announced_is_written)

theorem pb_encoded_size_exact_witness:
  "fst (pb_encode 2 (boxed_env 0x10) (boxed_descr 0) 0x1000 (pb_ostream_from_buffer [5, 5, 5] 3)) = None"
  using pb_encoded_size_exact[OF boxed_emits[OF counting.sink_axioms] boxed_emits[OF buffer.sink_axioms],
      of 2 "0x10" "boxed_descr 0" "0x1000" 3 "[5, 5, 5]"]
  by (auto simp: boxed_sent boxed_message slim_def OUT_LIMIT_def split: prod.splits option.splits)

text \<open>C36: on message types that nest at most \<open>d\<close> deep the encoder is the same function for
  every bound of at least \<open>d\<close> on its recursion: on them the recursion always ends.\<close>

theorem pb_encode_depth_enough:
  assumes "nested d (env_descr env) fs" and "d \<le> n"
  shows "pb_encode n env fs src st = pb_encode d env fs src st"
  using encode_depth[OF assms, of src] by (rule fun_cong)

theorem pb_encode_depth_enough_witness:
  "pb_encode 7 (boxed_env 0x10) (boxed_descr 0) 0x1000 (PB_OSTREAM_SIZING ()) =
   pb_encode 2 (boxed_env 0x10) (boxed_descr 0) 0x1000 (PB_OSTREAM_SIZING ())"
  by (rule pb_encode_depth_enough) (simp_all add: boxed_nested boxed_env_def)

text \<open>An encoded message is a sequence of fields, each a number, a wire type and a value
  of that type, which the tag reader and the skipper walk through.\<close>

theorem pb_encode_writes_fields:
  assumes "env_emits buf_feed env sp" and "callers_wire sp" and "\<forall>f\<in>set fs. tag_ok f"
    and "message_out n sp fs src = Some bs" and "length bs < 2 ^ 32" and "ostream_ok buf_feed st"
    and "pb_encode n env fs src st = (Some (), st')"
  shows "st' = os_push buf_feed bs st \<and>
    (\<exists>parts. bs = concat (map field_bytes parts) \<and> (\<forall>f\<in>set parts. field_ok f))"
proof -
  have "slim (message_out n sp fs src)" using assms(4,5) by (simp add: slim_def OUT_LIMIT_def)
  from encoder_writes_fields[OF assms(1-3) this buffer.sink_axioms assms(6,7)] show ?thesis
    using assms(4,5) by (auto simp: wire_def)
qed

theorem pb_encode_writes_fields_witness:
  "\<exists>parts. [0x0a, 2, 8, 1] = concat (map field_bytes parts) \<and> (\<forall>f\<in>set parts. field_ok f)"
proof -
  let ?st = "pb_ostream_from_buffer [5, 5, 5, 5, 5] 5"
  have ok: "ostream_ok buf_feed ?st" "os_room ?st (length [0x0a, 2, 8, 1 :: u8])"
    by (simp_all add: ostream_ok_def os_room_def pb_ostream_from_buffer_def buf_write_into SIZE_MOD_def OUT_LIMIT_def)
  have e: "emits buf_feed (pb_encode 2 (boxed_env 0x10) (boxed_descr 0) 0x1000) (Some [0x0a, 2, 8, 1])"
    using buffer.encode[OF boxed_emits[OF buffer.sink_axioms], of 2 "0x10" "boxed_descr 0" "0x1000"]
    by (simp add: boxed_message)
  have "pb_encode 2 (boxed_env 0x10) (boxed_descr 0) 0x1000 ?st = (Some (), os_push buf_feed [0x0a, 2, 8, 1] ?st)"
    by (rule emits_success[OF e ok(1)]) (use ok(2) in \<open>simp_all add: OUT_LIMIT_def\<close>)
  from pb_encode_writes_fields[OF boxed_emits[OF buffer.sink_axioms] boxed_callers _ boxed_message _ ok(1) this]
  show ?thesis by (simp add: boxed_descr_def tag_ok_def)
qed


text \<open>C38: the message decoder, on a message type whose fields are stored in the struct or left to
  callbacks, changes memory only where the type's layout says its fields and counters are, and in
  its own variable, whatever the input is and whether it succeeds.\<close>

theorem pb_decode_memory_safe:
  assumes "inside R (de_descr env) fs dest" and "env_confined R env" and "x \<notin> R"
  shows "hp_mem (d_heap (snd (pb_decode n env fs dest st))) x = hp_mem (d_heap st) x"
  using pb_decode_confined[OF assms(2,1), of n] assms(3) by (simp add: confined_def dec_mem_def)

theorem pb_decode_memory_safe_witness:
  "hp_mem (d_heap (snd (pb_decode 1 plain_env plain_fields 0x1000
     \<lparr>d_in = pb_istream_from_buffer [8, 150, 1, 24, 1] 5 :: unit pb_istream, d_heap = pair_heap\<rparr>))) 0x100c = 0xff"
proof -
  have "(0x100c :: addr) \<notin> plain_region" by (simp add: plain_region_def block_def)
  from pb_decode_memory_safe[OF plain_inside plain_env_confined this, of 1
      "\<lparr>d_in = pb_istream_from_buffer [8, 150, 1, 24, 1] 5 :: unit pb_istream, d_heap = pair_heap\<rparr>"]
  show ?thesis by (simp add: pair_heap_def)
qed

text \<open>C39: a scalar of any packable type: what the decoder stores for the bytes that were encoded
  from one place in memory is, encoded again, those bytes; the stream is then just after them.\<close>

theorem pb_scalar_field_round_trip:
  assumes "PB_LTYPE (pf_type f) \<le> PB_LTYPE_LAST_PACKABLE" and "value_out sp message f src = Some bs"
    and "istream_ok (d_in st)" and "in_view (d_in st) = bs @ r"
  shows "\<exists>st'. PB_DECODERS env decode (PB_LTYPE (pf_type f)) f dest st = (Some (), st') \<and> in_view (d_in st') = r \<and>
    value_out (sp\<lparr>out_mem := hp_mem (d_heap st')\<rparr>) message f dest = Some bs"
  using scalar_back[OF assms(1,2), of env decode dest] assms(3,4)
  by (cases "PB_DECODERS env decode (PB_LTYPE (pf_type f)) f dest st") (force simp: decodes_def)

theorem pb_scalar_field_round_trip_witness:
  "\<exists>st'. PB_DECODERS plain_env (\<lambda>_ _ _. fail) PB_LTYPE_VARINT (plain_fields ! 0) 0x1000
      \<lparr>d_in = pb_istream_from_buffer [0x90, 0x40] 2 :: unit pb_istream, d_heap = pair_heap\<rparr> = (Some (), st') \<and> in_view (d_in st') = []"
proof -
  let ?f = "plain_fields ! 0"
  have t: "PB_LTYPE (pf_type ?f) = PB_LTYPE_VARINT" "PB_LTYPE (pf_type ?f) \<le> PB_LTYPE_LAST_PACKABLE" by code_simp+
  have v: "value_out (boxed_out 0x10) (\<lambda>_ _. None) ?f 0x1000 = Some [0x90, 0x40]" by code_simp
  let ?st = "\<lparr>d_in = pb_istream_from_buffer [0x90, 0x40] 2 :: unit pb_istream, d_heap = pair_heap\<rparr>"
  have "istream_ok (d_in ?st)" "in_view (d_in ?st) = [0x90, 0x40] @ []"
    by (simp_all add: pb_istream_from_buffer_def istream_ok_def in_view_def source_bytes_def)
  from pb_scalar_field_round_trip[OF t(2) v this, of plain_env "\<lambda>_ _ _. fail" "0x1000"] t(1) show ?thesis by auto
qed


end
